(* ===== verification/Prelude.thy ===== *)
theory Prelude
  imports Complex_Main "HOL-Library.Word" "HOL-Library.Signed_Division"
begin

text \<open>
  Shared vocabulary of the development: Rust's machine-integer operations on mathematical
  integers, errors as values, and the generic lemmas the component theories use.

  A signed Rust integer of width \<open>w\<close> (\<open>i64\<close>, \<open>i128\<close>) is an \<open>int\<close> that lies in
  \<open>in_i w\<close>. The saturating methods of the standard library (\<open>saturating_add\<close>,
  \<open>saturating_sub\<close>, \<open>saturating_mul\<close>) are \<open>sat_add\<close>, \<open>sat_sub\<close>, \<open>sat_mul\<close>; the plain
  operators \<open>+\<close>, \<open>-\<close> and unary minus, which wrap in a release build (the workspace's
  \<open>[profile.release]\<close> leaves \<open>overflow-checks\<close> off), are \<open>wrap_add\<close>, \<open>wrap_sub\<close>,
  \<open>wrap_neg\<close>; \<open>try_from\<close> is \<open>try_i\<close>. Rust's \<open>/\<close> and \<open>%\<close> truncate towards zero and
  are the library's \<open>sdiv\<close> and \<open>smod\<close>. Unsigned counters with saturation are naturals
  under \<open>usat_add\<close>.
\<close>

named_theorems i_simps \<open>unfoldings of the machine-integer operations\<close>

section \<open>Signed integers of a fixed width\<close>

definition i_min :: "nat \<Rightarrow> int" where
  "i_min w = - (2 ^ (w - 1))"

definition i_max :: "nat \<Rightarrow> int" where
  "i_max w = 2 ^ (w - 1) - 1"

definition in_i :: "nat \<Rightarrow> int \<Rightarrow> bool" where
  "in_i w x \<longleftrightarrow> i_min w \<le> x \<and> x \<le> i_max w"

definition sat :: "nat \<Rightarrow> int \<Rightarrow> int" where
  "sat w x = max (i_min w) (min (i_max w) x)"

definition sat_add :: "nat \<Rightarrow> int \<Rightarrow> int \<Rightarrow> int" where
  "sat_add w a b = sat w (a + b)"

definition sat_sub :: "nat \<Rightarrow> int \<Rightarrow> int \<Rightarrow> int" where
  "sat_sub w a b = sat w (a - b)"

definition sat_mul :: "nat \<Rightarrow> int \<Rightarrow> int \<Rightarrow> int" where
  "sat_mul w a b = sat w (a * b)"

definition wrap :: "nat \<Rightarrow> int \<Rightarrow> int" where
  "wrap w x = signed_take_bit (w - 1) x"

definition wrap_add :: "nat \<Rightarrow> int \<Rightarrow> int \<Rightarrow> int" where
  "wrap_add w a b = wrap w (a + b)"

definition wrap_sub :: "nat \<Rightarrow> int \<Rightarrow> int \<Rightarrow> int" where
  "wrap_sub w a b = wrap w (a - b)"

definition wrap_neg :: "nat \<Rightarrow> int \<Rightarrow> int" where
  "wrap_neg w a = wrap w (- a)"

definition wrap_abs :: "nat \<Rightarrow> int \<Rightarrow> int" where
  "wrap_abs w a = wrap w \<bar>a\<bar>"

definition try_i :: "nat \<Rightarrow> int \<Rightarrow> int option" where
  "try_i w x = (if in_i w x then Some x else None)"

definition usat_add :: "nat \<Rightarrow> nat \<Rightarrow> nat \<Rightarrow> nat" where
  "usat_add w a b = min (2 ^ w - 1) (a + b)"

definition usat_mul :: "nat \<Rightarrow> nat \<Rightarrow> nat \<Rightarrow> nat" where
  "usat_mul w a b = min (2 ^ w - 1) (a * b)"

lemma i_min_64 [i_simps]: "i_min 64 = - 9223372036854775808"
  by (simp add: i_min_def)

lemma i_max_64 [i_simps]: "i_max 64 = 9223372036854775807"
  by (simp add: i_max_def)

lemma i_min_128 [i_simps]: "i_min 128 = - 170141183460469231731687303715884105728"
  by (simp add: i_min_def)

lemma i_max_128 [i_simps]: "i_max 128 = 170141183460469231731687303715884105727"
  by (simp add: i_max_def)

lemma i_min_neg [simp]: "i_min w < 0"
  by (simp add: i_min_def)

lemma i_max_nonneg [simp]: "0 \<le> i_max w"
  by (simp add: i_max_def)

lemma i_min_le_max [simp]: "i_min w \<le> i_max w"
  by (rule order_trans [of _ 0]) (simp_all add: less_imp_le)

lemma sat_in_i [simp, intro]: "in_i w (sat w x)"
  by (simp add: in_i_def sat_def)

lemma sat_id [simp]: "in_i w x \<Longrightarrow> sat w x = x"
  by (simp add: in_i_def sat_def)

lemma sat_mono: "x \<le> y \<Longrightarrow> sat w x \<le> sat w y"
  by (auto simp: sat_def)

lemma sat_nonneg: "0 \<le> x \<Longrightarrow> 0 \<le> sat w x"
  using i_max_nonneg [of w] unfolding sat_def by linarith

lemma sat_le_self: "0 \<le> x \<Longrightarrow> sat w x \<le> x"
  using i_min_neg [of w] unfolding sat_def by linarith

lemma sat_nonneg_iff [simp]: "0 \<le> sat w x \<longleftrightarrow> 0 \<le> x"
  using i_min_neg [of w] i_max_nonneg [of w] unfolding sat_def by linarith

lemma sat_add_in_i [simp]: "in_i w (sat_add w a b)"
  by (simp add: sat_add_def)

lemma sat_sub_in_i [simp]: "in_i w (sat_sub w a b)"
  by (simp add: sat_sub_def)

lemma sat_mul_in_i [simp]: "in_i w (sat_mul w a b)"
  by (simp add: sat_mul_def)

lemma in_i_0 [simp]: "in_i w 0"
  by (simp add: in_i_def less_imp_le)

lemma in_i_max [simp]: "in_i w (i_max w)"
  by (simp add: in_i_def)

lemma in_i_min [simp]: "in_i w (i_min w)"
  by (simp add: in_i_def)

lemma in_i_of_nat [simp]: "in_i w (int n) \<longleftrightarrow> int n \<le> i_max w"
  using i_min_neg [of w] unfolding in_i_def by linarith

lemma wrap_id: "0 < w \<Longrightarrow> in_i w x \<Longrightarrow> wrap w x = x"
  by (simp add: wrap_def in_i_def i_min_def i_max_def signed_take_bit_int_eq_self)

lemma wrap_in_i: "0 < w \<Longrightarrow> in_i w (wrap w x)"
  using signed_take_bit_int_less_exp [of "w - 1" x]
    signed_take_bit_int_greater_eq_minus_exp [of "w - 1" x]
  by (auto simp: wrap_def in_i_def i_min_def i_max_def)

lemma wrap_add_id: "0 < w \<Longrightarrow> in_i w (a + b) \<Longrightarrow> wrap_add w a b = a + b"
  by (simp add: wrap_add_def wrap_id)

lemma wrap_sub_id: "0 < w \<Longrightarrow> in_i w (a - b) \<Longrightarrow> wrap_sub w a b = a - b"
  by (simp add: wrap_sub_def wrap_id)

lemma wrap_neg_id: "0 < w \<Longrightarrow> in_i w (- a) \<Longrightarrow> wrap_neg w a = - a"
  by (simp add: wrap_neg_def wrap_id)

lemma wrap_abs_id: "0 < w \<Longrightarrow> in_i w \<bar>a\<bar> \<Longrightarrow> wrap_abs w a = \<bar>a\<bar>"
  by (simp add: wrap_abs_def wrap_id)

lemma try_i_Some [simp]: "try_i w x = Some y \<longleftrightarrow> in_i w x \<and> y = x"
  by (auto simp: try_i_def)

lemma try_i_None [simp]: "try_i w x = None \<longleftrightarrow> \<not> in_i w x"
  by (simp add: try_i_def)

lemma try_i_in [simp]: "in_i w x \<Longrightarrow> try_i w x = Some x"
  by simp

text \<open>\<open>i64::try_from(x).unwrap_or(if x < 0 { MIN } else { MAX })\<close> is saturation.\<close>

lemma try_i_or_sat:
  "(case try_i w x of Some y \<Rightarrow> y | None \<Rightarrow> if x < 0 then i_min w else i_max w) = sat w x"
  using i_min_neg [of w] i_max_nonneg [of w] unfolding try_i_def in_i_def sat_def
  by (smt (verit) option.case)

lemma usat_add_le: "usat_add w a b \<le> 2 ^ w - 1"
  by (simp add: usat_add_def)

lemma usat_add_id: "a + b \<le> 2 ^ w - 1 \<Longrightarrow> usat_add w a b = a + b"
  by (simp add: usat_add_def)

section \<open>Three-way comparison\<close>

text \<open>Rust's \<open>core::cmp::Ordering\<close> and the \<open>cmp\<close> of a totally ordered key.\<close>

datatype ordering = Less | Equal | Greater

definition cmp_of :: "'a::linorder \<Rightarrow> 'a \<Rightarrow> ordering" where
  "cmp_of a b = (if a < b then Less else if a = b then Equal else Greater)"

lemma cmp_of_simps [simp]:
  "cmp_of a b = Less \<longleftrightarrow> a < b" "cmp_of a b = Equal \<longleftrightarrow> a = b" "cmp_of a b = Greater \<longleftrightarrow> b < a"
  by (auto simp: cmp_of_def)

section \<open>Lists\<close>

lemma sorted_last: "sorted xs \<Longrightarrow> x \<in> set xs \<Longrightarrow> x \<le> last (xs :: 'x::linorder list)"
  by (induction xs) (auto dest: last_in_set)

section \<open>Truncating division\<close>

lemma sdiv_nonneg: "0 \<le> a \<Longrightarrow> 0 < b \<Longrightarrow> (a::int) sdiv b = a div b"
  by (cases "a = 0") (simp_all add: signed_divide_int_def)

lemma sdiv_neg: "a < 0 \<Longrightarrow> 0 < b \<Longrightarrow> (a::int) sdiv b = - ((- a) div b)"
  by (simp add: signed_divide_int_def)

lemma smod_nonneg: "0 \<le> a \<Longrightarrow> 0 < b \<Longrightarrow> (a::int) smod b = a mod b"
  by (cases "a = 0") (simp_all add: signed_modulo_int_def signed_divide_int_def minus_div_mult_eq_mod)

end
