(* ===== verification/Media_Time.thy ===== *)
theory Media_Time
  imports Prelude
begin

text \<open>
  \<open>multiview-core/src/time.rs\<close>: exact rationals (frame rates and timebases), the integer
  rescale between timebases, and the media timeline \<open>out_pts = f(tick)\<close>.

  A \<open>MediaTime\<close> is its nanosecond count. \<open>rescale\<close> computes in \<open>i128\<close> exactly as the
  code does: saturating products, then plain (wrapping) negation and addition of the
  rounding half, then a truncating division and saturation into \<open>i64\<close>. The lemmas show
  that within the representable horizon this is rounding to nearest with ties away from
  zero (\<open>rha\<close>), that it never accumulates error, that ticks are strictly increasing, and
  that \<open>to_tick\<close> inverts \<open>from_tick\<close>.
\<close>

section \<open>Exact rationals\<close>

record rational =
  num :: int
  den :: int

abbreviation rat_new :: "int \<Rightarrow> int \<Rightarrow> rational" where
  "rat_new n d \<equiv> \<lparr>num = n, den = d\<rparr>"

definition rational_ok :: "rational \<Rightarrow> bool" where
  "rational_ok r \<longleftrightarrow> in_i 64 (num r) \<and> in_i 64 (den r)"

definition FPS_25 :: rational where "FPS_25 = rat_new 25 1"
definition FPS_30 :: rational where "FPS_30 = rat_new 30 1"
definition FPS_29_97 :: rational where "FPS_29_97 = rat_new 30000 1001"
definition FPS_50 :: rational where "FPS_50 = rat_new 50 1"
definition FPS_60 :: rational where "FPS_60 = rat_new 60 1"
definition FPS_59_94 :: rational where "FPS_59_94 = rat_new 60000 1001"
definition FPS_23_976 :: rational where "FPS_23_976 = rat_new 24000 1001"

function gcd_i128 :: "int \<Rightarrow> int \<Rightarrow> int" where
  "gcd_i128 a b = (if b = 0 then a else gcd_i128 b (a smod b))"
  by pat_completeness auto
termination
  by (relation "measure (\<lambda>(a, b). nat \<bar>b\<bar>)")
    (auto simp: signed_modulo_int_def signed_divide_int_def abs_mult sgn_if
      minus_div_mult_eq_mod minus_mod_eq_div_mult [symmetric])

declare gcd_i128.simps [simp del]

definition is_zero :: "rational \<Rightarrow> bool" where
  "is_zero r \<longleftrightarrow> num r = 0"

definition is_valid :: "rational \<Rightarrow> bool" where
  "is_valid r \<longleftrightarrow> den r \<noteq> 0"

definition reduce :: "rational \<Rightarrow> rational" where
  "reduce r =
     (if den r = 0 then r
      else if num r = 0 then rat_new 0 1
      else
        let sign = (if (num r < 0) \<noteq> (den r < 0) then - 1 else 1);
            num_abs = \<bar>num r\<bar>;
            den_abs = \<bar>den r\<bar>;
            g = gcd_i128 num_abs den_abs;
            rn = (num_abs sdiv g) * sign;
            rd = den_abs sdiv g
        in case (try_i 64 rn, try_i 64 rd) of
             (Some n, Some d) \<Rightarrow> rat_new n d
           | _ \<Rightarrow> r)"

definition inv :: "rational \<Rightarrow> rational option" where
  "inv r = (if num r = 0 \<or> den r = 0 then None else Some (reduce (rat_new (den r) (num r))))"

definition checked_mul :: "rational \<Rightarrow> rational \<Rightarrow> rational option" where
  "checked_mul a b =
     (if den a = 0 \<or> den b = 0 then None
      else case try_i 128 (num a * num b) of
             None \<Rightarrow> None
           | Some n \<Rightarrow>
               (case try_i 128 (den a * den b) of
                  None \<Rightarrow> None
                | Some d \<Rightarrow>
                    if n = 0 then Some (rat_new 0 1)
                    else
                      let sign = (if (n < 0) \<noteq> (d < 0) then - 1 else 1);
                          g = gcd_i128 \<bar>n\<bar> \<bar>d\<bar>;
                          rn = (\<bar>n\<bar> sdiv g) * sign;
                          rd = \<bar>d\<bar> sdiv g
                      in (case try_i 64 rn of
                            None \<Rightarrow> None
                          | Some n' \<Rightarrow>
                              (case try_i 64 rd of None \<Rightarrow> None | Some d' \<Rightarrow> Some (rat_new n' d')))))"

definition cross_terms :: "rational \<Rightarrow> int \<times> int" where
  "cross_terms r = (if den r < 0 then (- num r, - den r) else (num r, den r))"

definition rational_cmp :: "rational \<Rightarrow> rational \<Rightarrow> ordering" where
  "rational_cmp a b =
     (let (an, ad) = cross_terms a; (bn, bd) = cross_terms b in cmp_of (an * bd) (bn * ad))"

definition rational_eq :: "rational \<Rightarrow> rational \<Rightarrow> bool" where
  "rational_eq a b \<longleftrightarrow> rational_cmp a b = Equal"

definition NANOS_PER_SEC :: int where
  "NANOS_PER_SEC = 1000000000"

definition has_subnanosecond_period :: "rational \<Rightarrow> bool" where
  "has_subnanosecond_period r =
     (if num r \<le> 0 \<or> den r \<le> 0 then False else sat_mul 128 NANOS_PER_SEC (den r) < num r)"

section \<open>Rescaling between timebases\<close>

definition rescale :: "int \<Rightarrow> rational \<Rightarrow> rational \<Rightarrow> int" where
  "rescale value from_tb to_tb =
     (if den from_tb = 0 \<or> den to_tb = 0 \<or> num to_tb = 0 then 0
      else
        let numerator = sat_mul 128 (sat_mul 128 value (num from_tb)) (den to_tb);
            denominator = sat_mul 128 (den from_tb) (num to_tb)
        in if denominator = 0 then 0
           else
             let (n, d) = (if denominator < 0
                           then (wrap_neg 128 numerator, wrap_neg 128 denominator)
                           else (numerator, denominator));
                 half = d sdiv 2;
                 rounded = (if 0 \<le> n then wrap_add 128 n half sdiv d
                            else wrap_sub 128 n half sdiv d)
             in (case try_i 64 rounded of
                   Some v \<Rightarrow> v
                 | None \<Rightarrow> if rounded < 0 then i_min 64 else i_max 64))"

type_synonym media_time = int

definition ns_timebase :: rational where
  "ns_timebase = rat_new 1 NANOS_PER_SEC"

definition from_tick :: "int \<Rightarrow> rational \<Rightarrow> media_time" where
  "from_tick tick cadence =
     (let tick_timebase = rat_new (den cadence) (num cadence);
          ns_tb = rat_new 1 NANOS_PER_SEC
      in rescale tick tick_timebase ns_tb)"

definition to_tick :: "media_time \<Rightarrow> rational \<Rightarrow> int" where
  "to_tick t cadence =
     (let ns_tb = rat_new 1 NANOS_PER_SEC;
          tick_timebase = rat_new (den cadence) (num cadence)
      in rescale t ns_tb tick_timebase)"

definition mt_add :: "media_time \<Rightarrow> media_time \<Rightarrow> media_time" where
  "mt_add a b = sat_add 64 a b"

definition mt_sub :: "media_time \<Rightarrow> media_time \<Rightarrow> media_time" where
  "mt_sub a b = sat_sub 64 a b"

definition period_nanos :: "rational \<Rightarrow> int" where
  "period_nanos r = from_tick 1 r"

section \<open>The mathematical specification: rounding to nearest\<close>

definition rha :: "int \<Rightarrow> int \<Rightarrow> int" where
  "rha n d = (if 0 \<le> n then (n + d div 2) div d else - ((- n + d div 2) div d))"

lemma div_bounds: "0 < d \<Longrightarrow> (x::int) div d * d \<le> x \<and> x < x div d * d + d"
  using pos_mod_bound [of d x] pos_mod_sign [of d x] div_mult_mod_eq [of x d] by linarith

lemma rha_nonneg: "0 < d \<Longrightarrow> 0 \<le> n \<Longrightarrow> 0 \<le> rha n d"
  by (simp add: rha_def pos_imp_zdiv_nonneg_iff)

lemma rha_minus: "n \<noteq> 0 \<Longrightarrow> rha (- n) d = - rha n d"
  by (auto simp: rha_def)

lemma half_le: "2 * (d div 2) \<le> (d::int)"
  by presburger

lemma half_ge: "(d::int) \<le> 2 * (d div 2) + 1"
  by presburger

lemma near_trans:
  fixes d :: int
  assumes "2 * \<bar>x - n\<bar> \<le> d" and "2 * \<bar>n - y\<bar> < d"
  shows "\<bar>x - y\<bar> < d"
proof -
  have "\<bar>x - y\<bar> \<le> \<bar>x - n\<bar> + \<bar>n - y\<bar>"
    using abs_triangle_ineq [of "x - n" "n - y"] by simp
  with assms show ?thesis by (simp only: mult_2)
qed

lemma abs_half: "2 * \<bar>x\<bar> \<le> d \<Longrightarrow> \<bar>x\<bar> \<le> (d::int)"
  by auto

lemma rha_nearest_nonneg:
  assumes "0 < d" and "0 \<le> n"
  shows "2 * \<bar>rha n d * d - n\<bar> \<le> d"
proof -
  define h where "h = d div 2"
  define q where "q = (n + h) div d * d"
  have h: "2 * h \<le> d" "d \<le> 2 * h + 1"
    unfolding h_def by (rule half_le half_ge)+
  have q: "q \<le> n + h" "n + h < q + d"
    using div_bounds [OF assms(1), of "n + h"] by (simp_all add: q_def)
  have "\<bar>q - n\<bar> \<le> h"
    using h q unfolding abs_le_iff by (intro conjI) linarith+
  with h(1) have "2 * \<bar>q - n\<bar> \<le> d"
    by auto
  with assms(2) show ?thesis by (simp add: rha_def q_def h_def)
qed

lemma rha_nearest:
  assumes "0 < d"
  shows "2 * \<bar>rha n d * d - n\<bar> \<le> d"
proof (cases "0 \<le> n")
  case True
  with assms show ?thesis by (rule rha_nearest_nonneg)
next
  case False
  then have "rha n d = - rha (- n) d"
    using rha_minus [of "- n" d] by simp
  then have "\<bar>rha n d * d - n\<bar> = \<bar>rha (- n) d * d - (- n)\<bar>"
    by (simp add: abs_minus_commute algebra_simps)
  with rha_nearest_nonneg [of d "- n"] assms False show ?thesis by simp
qed

lemma rha_tie_away:
  assumes "0 < d" and "2 * \<bar>rha n d * d - n\<bar> = d"
  shows "\<bar>n\<bar> < \<bar>rha n d\<bar> * d"
proof -
  have pos: "m < rha m d * d" if m: "0 \<le> m" "2 * \<bar>rha m d * d - m\<bar> = d" for m
  proof (rule ccontr)
    assume "\<not> m < rha m d * d"
    then have e: "2 * (m - rha m d * d) = d" using m(2) by auto
    then have "even d" by presburger
    then have "2 * (d div 2) = d" by simp
    moreover have "(m + d div 2) < (m + d div 2) div d * d + d" using div_bounds [OF assms(1)] by blast
    ultimately show False using e m(1) by (simp add: rha_def)
  qed
  show ?thesis
  proof (cases "0 \<le> n")
    case True
    with pos [of n] assms show ?thesis using rha_nonneg [of d n] by simp
  next
    case False
    then have r: "rha n d = - rha (- n) d" using rha_minus [of "- n" d] by simp
    then have "2 * \<bar>rha (- n) d * d - (- n)\<bar> = d"
      using assms(2) by (simp add: abs_minus_commute algebra_simps)
    with False pos [of "- n"] r rha_nonneg [OF assms(1), of "- n"] show ?thesis by simp
  qed
qed

lemma rha_eqI:
  assumes "0 < d" and "2 * \<bar>n - k * d\<bar> < d"
  shows "rha n d = k"
proof -
  have "2 * \<bar>rha n d * d - n\<bar> \<le> d"
    using assms(1) by (rule rha_nearest)
  then have "\<bar>(rha n d - k) * d\<bar> < d"
    using assms(2) unfolding left_diff_distrib by (rule near_trans)
  then have "\<bar>rha n d - k\<bar> * d < 1 * d"
    using assms(1) by (simp add: abs_mult)
  then have "\<bar>rha n d - k\<bar> < 1"
    using assms(1) by (simp only: mult_less_cancel_right_pos)
  then show ?thesis by linarith
qed

lemma rha_mult [simp]: "0 < d \<Longrightarrow> rha (k * d) d = k"
  by (rule rha_eqI) simp_all

lemma rha_mono_nonneg: "0 < d \<Longrightarrow> 0 \<le> m \<Longrightarrow> m \<le> n \<Longrightarrow> rha m d \<le> rha n d"
  by (auto simp: rha_def intro: zdiv_mono1)

lemma rha_step:
  assumes "0 < d" and "0 \<le> m" and "m + d \<le> n"
  shows "rha m d < rha n d"
proof -
  have "(m + d div 2) div d + 1 = (m + d + d div 2) div d"
    using assms(1) div_add_self2 [of d "m + d div 2"] by (simp add: ac_simps)
  also have "\<dots> \<le> (n + d div 2) div d"
    using assms by (intro zdiv_mono1) simp_all
  finally show ?thesis using assms by (simp add: rha_def)
qed

section \<open>Rescale rounds to nearest\<close>

lemma in_i_abs: "\<bar>x\<bar> \<le> i_max w \<Longrightarrow> in_i w x"
  unfolding in_i_def i_min_def i_max_def by (auto simp: abs_le_iff)

text \<open>
  The workhorse: for a positive denominator, with the exact quotient \<open>n / d\<close> small enough
  that neither a product nor the addition of the half leaves \<open>i128\<close>.
\<close>

lemma rescale_exact:
  assumes from_tb: "0 < den f" and to: "0 < num t" "0 < den t"
    and n: "n = v * num f * den t" and d: "d = den f * num t"
    and fits: "\<bar>n\<bar> + d \<le> i_max 128"
  shows "rescale v f t = sat 64 (rha n d)"
proof -
  have d0: "0 < d" using from_tb to by (simp add: d)
  define h where "h = d div 2"
  have h: "0 \<le> h" "h \<le> d" using d0 by (simp_all add: h_def)
  have "\<bar>v * num f\<bar> * 1 \<le> \<bar>v * num f\<bar> * den t"
    using to by (intro mult_left_mono) simp_all
  then have "\<bar>v * num f\<bar> \<le> \<bar>n\<bar>"
    using to by (simp add: n abs_mult)
  then have r: "in_i 128 (v * num f)" "in_i 128 n" "in_i 128 d"
    using fits d0 by (auto intro!: in_i_abs)
  have "in_i 128 (n + h)" "in_i 128 (n - h)"
    using fits h by (auto intro!: in_i_abs simp: abs_le_iff)
  then have w: "wrap_add 128 n h = n + h" "wrap_sub 128 n h = n - h"
    by (simp_all add: wrap_add_id wrap_sub_id)
  have hs: "d sdiv 2 = h"
    using d0 by (simp add: h_def sdiv_nonneg)
  have "rha n d = (if 0 \<le> n then (n + h) div d else - ((- n + h) div d))"
    by (simp add: rha_def h_def)
  then have q: "(if 0 \<le> n then wrap_add 128 n h sdiv d else wrap_sub 128 n h sdiv d) = rha n d"
    using d0 h by (simp add: w sdiv_nonneg sdiv_neg)
  show ?thesis
    unfolding rescale_def sat_mul_def
    using from_tb to d0 r by (simp add: n [symmetric] d [symmetric] hs q try_i_or_sat)
qed

lemma rescale_in_i: "in_i 64 (rescale v f t)"
  by (auto simp: rescale_def Let_def split: option.split prod.split)

section \<open>The tick timeline\<close>

text \<open>
  A cadence the output clock accepts: positive, in range, and no faster than 1 GHz, so that
  one tick lasts at least a nanosecond.
\<close>

definition cadence_ok :: "rational \<Rightarrow> bool" where
  "cadence_ok c \<longleftrightarrow>
     rational_ok c \<and> 0 < num c \<and> 0 < den c \<and> \<not> has_subnanosecond_period c"

text \<open>The exact nanosecond instant of a tick, and the horizon within which it fits \<open>i64\<close>.\<close>

definition tick_exact :: "rational \<Rightarrow> int \<Rightarrow> int" where
  "tick_exact c t = rha (t * den c * NANOS_PER_SEC) (num c)"

definition tick_fits :: "rational \<Rightarrow> int \<Rightarrow> bool" where
  "tick_fits c t \<longleftrightarrow> 0 \<le> t \<and> tick_exact c t \<le> i_max 64"

lemma cadence_okD:
  assumes "cadence_ok c"
  shows "0 < num c" "0 < den c" "num c \<le> i_max 64" "den c \<le> i_max 64"
    "num c \<le> den c * NANOS_PER_SEC"
proof -
  have p: "0 < num c" "0 < den c" "num c \<le> i_max 64" "den c \<le> i_max 64"
    using assms by (auto simp: cadence_ok_def rational_ok_def in_i_def)
  then have "in_i 128 (NANOS_PER_SEC * den c)"
    by (auto simp: in_i_def i_simps NANOS_PER_SEC_def)
  then show "num c \<le> den c * NANOS_PER_SEC"
    using assms p by (auto simp: cadence_ok_def has_subnanosecond_period_def sat_mul_def mult.commute)
qed (use assms in \<open>auto simp: cadence_ok_def rational_ok_def in_i_def\<close>)

lemma tick_fits_bound:
  assumes "cadence_ok c" and "tick_fits c t"
  shows "\<bar>t * den c * NANOS_PER_SEC\<bar> + num c \<le> i_max 128"
proof -
  note c = cadence_okD [OF assms(1)]
  define n where "n = t * den c * NANOS_PER_SEC"
  have n0: "0 \<le> n"
    using assms(2) c(2) by (simp add: n_def tick_fits_def NANOS_PER_SEC_def)
  have near: "\<bar>rha n (num c) * num c - n\<bar> \<le> num c"
    using rha_nearest [OF c(1), of n] by (rule abs_half)
  have "rha n (num c) * num c \<le> i_max 64 * i_max 64"
    using assms(2) c(1,3) n0 by (intro mult_mono) (auto simp: tick_fits_def tick_exact_def n_def)
  with near have "n \<le> i_max 64 * i_max 64 + i_max 64"
    using c(3) by (simp only: abs_le_iff) linarith
  then have "n + num c \<le> i_max 64 * i_max 64 + i_max 64 + i_max 64"
    using c(3) by linarith
  also have "\<dots> \<le> i_max 128"
    by (simp add: i_simps)
  finally show ?thesis using n0 by (simp add: n_def)
qed

lemma from_tick_exact:
  assumes "cadence_ok c" and "tick_fits c t"
  shows "from_tick t c = tick_exact c t"
proof -
  note c = cadence_okD [OF assms(1)]
  have "from_tick t c = sat 64 (tick_exact c t)"
    unfolding from_tick_def Let_def tick_exact_def
    by (rule rescale_exact)
      (use c(1) tick_fits_bound [OF assms] in \<open>auto simp: NANOS_PER_SEC_def\<close>)
  moreover have "0 \<le> tick_exact c t"
    using assms(2) c by (auto simp: tick_exact_def tick_fits_def NANOS_PER_SEC_def intro!: rha_nonneg)
  ultimately show ?thesis
    using assms(2) by (simp add: tick_fits_def in_i_def order_trans [OF less_imp_le [OF i_min_neg]])
qed

lemma tick_exact_strict:
  assumes "cadence_ok c" and "0 \<le> s" and "s < t"
  shows "tick_exact c s < tick_exact c t"
proof -
  note c = cadence_okD [OF assms(1)]
  have "(s + 1) * (den c * NANOS_PER_SEC) \<le> t * (den c * NANOS_PER_SEC)"
    using assms c by (intro mult_right_mono) (auto simp: NANOS_PER_SEC_def)
  then have "s * den c * NANOS_PER_SEC + num c \<le> t * den c * NANOS_PER_SEC"
    using c(5) by (simp add: algebra_simps)
  then show ?thesis
    using assms(2) c unfolding tick_exact_def
    by (intro rha_step) (auto simp: NANOS_PER_SEC_def)
qed

lemma tick_fits_mono:
  assumes "cadence_ok c" and "tick_fits c t" and "0 \<le> s" and "s \<le> t"
  shows "tick_fits c s"
  using tick_exact_strict [OF assms(1,3), of t] assms(2-4)
  by (cases "s = t") (auto simp: tick_fits_def)

lemma from_tick_strict_mono:
  assumes "cadence_ok c" and "tick_fits c t" and "0 \<le> s" and "s < t"
  shows "from_tick s c < from_tick t c"
  using tick_exact_strict [OF assms(1,3,4)] assms
  by (simp add: from_tick_exact tick_fits_mono [of c t s])

lemma from_tick_error:
  assumes "cadence_ok c" and "tick_fits c t"
  shows "2 * \<bar>from_tick t c * num c - t * den c * NANOS_PER_SEC\<bar> \<le> num c"
  using rha_nearest [OF cadence_okD(1) [OF assms(1)]]
  by (simp add: from_tick_exact [OF assms] tick_exact_def)

lemma to_tick_exact:
  assumes "cadence_ok c" and "in_i 64 m"
  shows "to_tick m c = sat 64 (rha (m * num c) (den c * NANOS_PER_SEC))"
proof -
  note c = cadence_okD [OF assms(1)]
  have "\<bar>m\<bar> \<le> 2 ^ 63"
    using assms(2) by (auto simp: in_i_def i_simps)
  then have "\<bar>m * num c\<bar> \<le> 2 ^ 63 * i_max 64"
    using c unfolding abs_mult by (intro mult_mono) auto
  moreover have "den c * NANOS_PER_SEC \<le> i_max 64 * NANOS_PER_SEC"
    using c by (auto simp: NANOS_PER_SEC_def)
  ultimately have "\<bar>m * num c\<bar> + den c * NANOS_PER_SEC \<le> 2 ^ 63 * i_max 64 + i_max 64 * NANOS_PER_SEC"
    by linarith
  also have "\<dots> \<le> i_max 128"
    by (simp add: i_simps NANOS_PER_SEC_def)
  finally have "\<bar>m * num c\<bar> + den c * NANOS_PER_SEC \<le> i_max 128" .
  then show ?thesis
    unfolding to_tick_def Let_def
    by (intro rescale_exact) (use c in \<open>auto simp: NANOS_PER_SEC_def\<close>)
qed

lemma to_tick_from_tick_exact:
  assumes "cadence_ok c" and "tick_fits c t" and "t \<le> i_max 64"
  shows "to_tick (from_tick t c) c = t"
proof -
  note c = cadence_okD [OF assms(1)]
  define e where "e = den c * NANOS_PER_SEC"
  define m where "m = from_tick t c"
  have e: "0 < e" "num c \<le> e" using c by (auto simp: e_def NANOS_PER_SEC_def)
  have err: "2 * \<bar>m * num c - t * e\<bar> \<le> num c"
    using from_tick_error [OF assms(1,2)] by (simp add: m_def e_def mult.assoc)
  have "2 * \<bar>m * num c - t * e\<bar> < e"
  proof (cases "num c = e")
    case True
    then have "m = t"
      using c(1) by (simp add: m_def from_tick_exact [OF assms(1,2)] tick_exact_def e_def mult.assoc)
    with True e show ?thesis by simp
  next
    case False
    with e err show ?thesis by simp
  qed
  then have "rha (m * num c) e = t"
    by (rule rha_eqI [OF e(1)])
  moreover have "in_i 64 m"
    unfolding m_def from_tick_def Let_def by (rule rescale_in_i)
  moreover have "in_i 64 t"
    using assms(2,3) by (simp add: in_i_def tick_fits_def order_trans [OF less_imp_le [OF i_min_neg]])
  ultimately show ?thesis
    using to_tick_exact [OF assms(1)] by (simp add: m_def e_def)
qed

section \<open>Rationals by value\<close>

definition rat_of :: "rational \<Rightarrow> rat" where
  "rat_of r = of_int (num r) / of_int (den r)"

lemma gcd_i128_eq: "0 \<le> a \<Longrightarrow> 0 \<le> b \<Longrightarrow> gcd_i128 a b = gcd a b"
proof (induction a b rule: gcd_i128.induct)
  case (1 a b)
  show ?case
  proof (cases "b = 0")
    case True
    with 1 show ?thesis by (simp add: gcd_i128.simps)
  next
    case False
    with 1 have "gcd_i128 a b = gcd b (a mod b)"
      by (simp add: gcd_i128.simps [of a b] smod_nonneg)
    then show ?thesis by (simp add: gcd_red_int [of a b])
  qed
qed

text \<open>The sign of a quotient, and the two reduced magnitudes, as the code computes them.\<close>

lemma reduced_quotient:
  fixes n d :: int
  assumes "n \<noteq> 0" and "d \<noteq> 0"
  defines "g \<equiv> gcd \<bar>n\<bar> \<bar>d\<bar>"
  defines "rn \<equiv> \<bar>n\<bar> div g * (if (n < 0) \<noteq> (d < 0) then - 1 else 1)" and "rd \<equiv> \<bar>d\<bar> div g"
  shows "0 < rd" "coprime rn rd" "rn * d = n * rd" "\<bar>rn\<bar> \<le> \<bar>n\<bar>" "rd \<le> \<bar>d\<bar>"
proof -
  have g: "0 < g" using assms(1) by (simp add: g_def)
  have gn: "\<bar>n\<bar> div g * g = \<bar>n\<bar>" and gd: "rd * g = \<bar>d\<bar>"
    by (simp_all add: g_def rd_def)
  have "0 < rd * g" using gd assms(2) by simp
  with g show "0 < rd" by (simp add: zero_less_mult_iff)
  have "coprime (\<bar>n\<bar> div g) rd"
    unfolding rd_def g_def using assms(1) by (intro div_gcd_coprime) simp
  then show "coprime rn rd" by (simp add: rn_def)
  have "(\<bar>n\<bar> div g) * \<bar>d\<bar> = \<bar>n\<bar> * rd"
    using gn gd by (metis mult.assoc mult.commute)
  then show "rn * d = n * rd"
    using assms(1,2) by (auto simp: rn_def abs_if split: if_splits)
  have "\<bar>rn\<bar> = \<bar>n\<bar> div g"
    using g by (simp add: rn_def abs_mult pos_imp_zdiv_nonneg_iff)
  also have "\<dots> \<le> \<bar>n\<bar>" using assms(1) by (intro int_div_le_self) simp
  finally show "\<bar>rn\<bar> \<le> \<bar>n\<bar>" .
  show "rd \<le> \<bar>d\<bar>"
    unfolding rd_def using assms(2) by (intro int_div_le_self) simp
qed

definition canonical :: "rational \<Rightarrow> bool" where
  "canonical r \<longleftrightarrow> 0 < den r \<and> coprime (num r) (den r)"

text \<open>
  The inputs \<open>reduce\<close> leaves alone besides a zero denominator: those whose reduced
  denominator, or whose reduced and sign-corrected numerator, is \<open>2 ^ 63\<close>.
\<close>

definition irreducible :: "rational \<Rightarrow> bool" where
  "irreducible r \<longleftrightarrow>
     (den r = i_min 64 \<and> odd (num r)) \<or> (num r = i_min 64 \<and> den r < 0 \<and> odd (den r))"

lemma rat_of_eq_iff:
  "den a \<noteq> 0 \<Longrightarrow> den b \<noteq> 0 \<Longrightarrow> rat_of a = rat_of b \<longleftrightarrow> num a * den b = num b * den a"
proof -
  assume "den a \<noteq> 0" "den b \<noteq> 0"
  then have "rat_of a = rat_of b \<longleftrightarrow> (of_int (num a * den b) :: rat) = of_int (num b * den a)"
    by (simp add: rat_of_def field_simps)
  then show ?thesis by (simp only: of_int_eq_iff)
qed

lemma abs_div_gcd_even:
  assumes "even (a::int)" and "even b" and "a \<noteq> 0"
  shows "2 * (\<bar>b\<bar> div gcd a b) \<le> \<bar>b\<bar>"
proof -
  have g: "2 \<le> gcd a b"
    using assms by (intro zdvd_imp_le) simp_all
  have "2 * (\<bar>b\<bar> div gcd a b) \<le> gcd a b * (\<bar>b\<bar> div gcd a b)"
    using g assms(3) by (intro mult_right_mono) (simp_all add: div_int_pos_iff)
  also have "\<dots> = \<bar>b\<bar>" by simp
  finally show ?thesis .
qed

lemma reduce_canonical:
  assumes "rational_ok r" and "is_valid r" and "\<not> irreducible r"
  shows "canonical (reduce r)" "rat_of (reduce r) = rat_of r" "rational_ok (reduce r)"
proof -
  have d: "den r \<noteq> 0" using assms(2) by (simp add: is_valid_def)
  have "canonical (reduce r) \<and> rat_of (reduce r) = rat_of r \<and> rational_ok (reduce r)"
  proof (cases "num r = 0")
    case True
    with d show ?thesis
      by (simp add: reduce_def canonical_def rat_of_def rational_ok_def in_i_def i_simps)
  next
    case n: False
    define g where "g = gcd \<bar>num r\<bar> \<bar>den r\<bar>"
    define rn where "rn = \<bar>num r\<bar> div g * (if (num r < 0) \<noteq> (den r < 0) then - 1 else 1)"
    define rd where "rd = \<bar>den r\<bar> div g"
    note q = reduced_quotient [OF n d, folded g_def, folded rn_def rd_def]
    have g0: "0 \<le> \<bar>num r\<bar> div g"
      using n pos_imp_zdiv_nonneg_iff [of g "\<bar>num r\<bar>"] by (simp add: g_def)
    have ok: "\<bar>num r\<bar> \<le> 2 ^ 63" "\<bar>den r\<bar> \<le> 2 ^ 63"
      using assms(1) by (auto simp: rational_ok_def in_i_def i_simps)
    have "rd \<le> i_max 64"
    proof (cases "den r = i_min 64")
      case True
      with assms(3) have "2 * rd \<le> \<bar>den r\<bar>"
        using abs_div_gcd_even [of "num r" "den r"] n
        by (simp add: irreducible_def rd_def g_def i_simps)
      with ok(2) show ?thesis by (simp add: i_simps)
    next
      case False
      with assms(1) q(5) show ?thesis
        by (auto simp: rational_ok_def in_i_def i_simps)
    qed
    with q(1) have fd: "in_i 64 rd" by (simp add: in_i_def i_simps)
    have fn: "in_i 64 rn"
    proof (cases "0 \<le> rn")
      case True
      then have pos: "0 < rn" using q(1,3) n d by (cases "rn = 0") auto
      have "rn \<le> i_max 64"
      proof (cases "num r = i_min 64")
        case True
        have "den r < 0"
        proof (rule ccontr)
          assume "\<not> den r < 0"
          then have "rn \<le> 0" using True q(1) g0 by (simp add: rn_def)
          with pos show False by simp
        qed
        with True assms(3) have "2 * \<bar>rn\<bar> \<le> \<bar>num r\<bar>"
          using abs_div_gcd_even [of "den r" "num r"] d g0
          by (simp add: irreducible_def rn_def g_def gcd.commute i_simps abs_mult)
        with ok(1) show ?thesis by (simp add: i_simps)
      next
        case False
        with assms(1) q(4) show ?thesis
          by (auto simp: rational_ok_def in_i_def i_simps)
      qed
      with pos show ?thesis by (simp add: in_i_def i_simps)
    next
      case False
      with q(4) ok(1) show ?thesis by (simp add: in_i_def i_simps)
    qed
    have gg: "gcd_i128 \<bar>num r\<bar> \<bar>den r\<bar> = g"
      by (simp add: gcd_i128_eq g_def)
    have sd: "\<bar>num r\<bar> sdiv g = \<bar>num r\<bar> div g" "\<bar>den r\<bar> sdiv g = rd"
      using n by (auto simp: sdiv_nonneg g_def rd_def)
    have "reduce r = (case (try_i 64 rn, try_i 64 rd) of
        (Some n, Some d) \<Rightarrow> rat_new n d | _ \<Rightarrow> r)"
      unfolding reduce_def Let_def gg sd rn_def using n d by (simp only: if_False)
    then have "reduce r = rat_new rn rd"
      using fn fd by (simp add: try_i_def)
    then show ?thesis
      using q fn fd d by (simp add: canonical_def rat_of_eq_iff rational_ok_def)
  qed
  then show "canonical (reduce r)" "rat_of (reduce r) = rat_of r" "rational_ok (reduce r)"
    by auto
qed

text \<open>\<open>checked_mul\<close> is the exact product in lowest terms, or \<open>None\<close>.\<close>

lemma in_i128_prod:
  assumes "in_i 64 a" and "in_i 64 b"
  shows "in_i 128 (a * b)"
proof -
  have "\<bar>a\<bar> \<le> 2 ^ 63" "\<bar>b\<bar> \<le> 2 ^ 63" using assms by (auto simp: in_i_def i_simps)
  then have "\<bar>a * b\<bar> \<le> 2 ^ 63 * 2 ^ 63" unfolding abs_mult by (intro mult_mono) simp_all
  then show ?thesis by (intro in_i_abs) (simp add: i_simps)
qed

lemma checked_mul_Some:
  assumes "rational_ok a" "rational_ok b" and "checked_mul a b = Some r"
  shows "canonical r" "rational_ok r" "rat_of r = rat_of a * rat_of b"
proof -
  define n d g where "n = num a * num b" and "d = den a * den b" and "g = gcd \<bar>n\<bar> \<bar>d\<bar>"
  define rn where "rn = \<bar>n\<bar> div g * (if (n < 0) \<noteq> (d < 0) then - 1 else 1)"
  define rd where "rd = \<bar>d\<bar> div g"
  have va: "den a \<noteq> 0" "den b \<noteq> 0" using assms(3) by (auto simp: checked_mul_def split: if_splits)
  then have d0: "d \<noteq> 0" by (simp add: d_def)
  have fits: "try_i 128 n = Some n" "try_i 128 d = Some d"
    using assms(1,2) by (auto simp: rational_ok_def n_def d_def intro: in_i128_prod)
  have prod: "rat_of a * rat_of b = of_int n / of_int d"
    by (simp add: rat_of_def n_def d_def)
  have "canonical r \<and> rational_ok r \<and> rat_of r = rat_of a * rat_of b"
  proof (cases "n = 0")
    case True
    then have "r = rat_new 0 1"
      using assms(3) va fits unfolding checked_mul_def n_def [symmetric] d_def [symmetric] by simp
    moreover from this have "rat_of r = 0" by (simp add: rat_of_def)
    moreover have "rat_of a * rat_of b = 0" unfolding prod by (simp add: True)
    ultimately show ?thesis
      by (simp add: canonical_def rational_ok_def in_i_def i_simps)
  next
    case n0: False
    note q = reduced_quotient [OF n0 d0, folded g_def, folded rn_def rd_def]
    have gg: "gcd_i128 \<bar>n\<bar> \<bar>d\<bar> = g" by (simp add: gcd_i128_eq g_def)
    have sd: "\<bar>n\<bar> sdiv g = \<bar>n\<bar> div g" "\<bar>d\<bar> sdiv g = rd"
      using n0 by (auto simp: sdiv_nonneg g_def rd_def)
    have "r = rat_new rn rd \<and> in_i 64 rn \<and> in_i 64 rd"
      using assms(3) va fits n0
      unfolding checked_mul_def n_def [symmetric] d_def [symmetric] Let_def
      by (simp only: if_False option.case gg sd rn_def [symmetric] de_Morgan_disj)
        (auto split: option.splits)
    moreover have "(of_int rn :: rat) / of_int rd = of_int n / of_int d"
      using arg_cong [OF q(3), of "of_int :: int \<Rightarrow> rat"] q(1) d0 by (simp add: field_simps)
    ultimately show ?thesis
      using q unfolding prod by (simp add: canonical_def rational_ok_def rat_of_def)
  qed
  then show "canonical r" "rational_ok r" "rat_of r = rat_of a * rat_of b" by auto
qed

lemma cross_terms_valid:
  assumes "is_valid r"
  shows "0 < snd (cross_terms r)"
    "rat_of r = of_int (fst (cross_terms r)) / of_int (snd (cross_terms r))"
  using assms by (auto simp: cross_terms_def is_valid_def rat_of_def)

lemma rational_cmp_valid:
  assumes "is_valid a" and "is_valid b"
  shows "rational_cmp a b = cmp_of (rat_of a) (rat_of b)"
proof -
  obtain an ad bn bd where c: "cross_terms a = (an, ad)" "cross_terms b = (bn, bd)"
    by fastforce
  have p: "0 < ad" "0 < bd" and v: "rat_of a = of_int an / of_int ad" "rat_of b = of_int bn / of_int bd"
    using cross_terms_valid [OF assms(1)] cross_terms_valid [OF assms(2)] c by simp_all
  have "rat_of a < rat_of b \<longleftrightarrow> (of_int (an * bd) :: rat) < of_int (bn * ad)"
    using p by (simp add: v divide_less_eq less_divide_eq field_simps)
  moreover have "rat_of a = rat_of b \<longleftrightarrow> (of_int (an * bd) :: rat) = of_int (bn * ad)"
    using p by (simp add: v field_simps)
  ultimately show ?thesis
    by (simp only: rational_cmp_def c Let_def prod.case cmp_of_def of_int_less_iff of_int_eq_iff)
qed

section \<open>Exactness of the rational arithmetic\<close>

text \<open>Lowest terms with a positive denominator are unique.\<close>

lemma canonical_unique:
  assumes "canonical a" "canonical b" and "rat_of a = rat_of b"
  shows "a = b"
proof -
  have pos: "0 < den a" "0 < den b" and cop: "coprime (num a) (den a)" "coprime (num b) (den b)"
    using assms(1,2) by (auto simp: canonical_def)
  have eq: "num a * den b = num b * den a"
    using assms(3) pos rat_of_eq_iff [of a b] by simp
  have "den a dvd num a * den b" unfolding eq by simp
  then have "den a dvd den b"
    using cop(1) coprime_dvd_mult_right_iff [of "den a" "num a" "den b"] by (simp add: coprime_commute)
  moreover have "den b dvd num b * den a" unfolding eq [symmetric] by simp
  then have "den b dvd den a"
    using cop(2) coprime_dvd_mult_right_iff [of "den b" "num b" "den a"] by (simp add: coprime_commute)
  ultimately have d: "den a = den b" using pos by (intro zdvd_antisym_nonneg) simp_all
  with eq pos have "num a = num b" by simp
  with d show ?thesis by (cases a; cases b) simp
qed

text \<open>Rationals are exact. For every \<open>i64\<close> rational with a non-zero denominator, outside the two
  unrepresentable corner families, \<open>reduce\<close> keeps the value and yields lowest terms with a
  positive denominator, so equal values have one reduced form; and whenever \<open>checked_mul\<close>
  answers, the answer is the exact product in that form.\<close>

theorem rational_arithmetic_exact:
  assumes "rational_ok a" "is_valid a" "\<not> irreducible a" and "rational_ok b" "is_valid b" "\<not> irreducible b"
  shows "rat_of (reduce a) = rat_of a \<and> canonical (reduce a) \<and>
    (rat_of a = rat_of b \<longleftrightarrow> reduce a = reduce b) \<and>
    (\<forall>r. checked_mul a b = Some r \<longrightarrow> rat_of r = rat_of a * rat_of b \<and> canonical r)"
proof -
  note ra = reduce_canonical [OF assms(1-3)] and rb = reduce_canonical [OF assms(4-6)]
  have "reduce a = reduce b" if "rat_of a = rat_of b"
    using that ra(1,2) rb(1,2) by (intro canonical_unique) simp_all
  moreover have "rat_of a = rat_of b" if "reduce a = reduce b"
    using that ra(2) rb(2) by simp
  ultimately show ?thesis
    using ra checked_mul_Some [OF assms(1,4)] by blast
qed

theorem rational_arithmetic_exact_witness:
  "reduce (rat_new 30000 1000) = reduce (rat_new (- 60) (- 2)) \<and>
   canonical (reduce (rat_new 30000 1000))"
proof -
  have "rational_ok (rat_new 30000 1000)" "is_valid (rat_new 30000 1000)" "\<not> irreducible (rat_new 30000 1000)"
    "rational_ok (rat_new (- 60) (- 2))" "is_valid (rat_new (- 60) (- 2))" "\<not> irreducible (rat_new (- 60) (- 2))"
    by (simp_all add: rational_ok_def is_valid_def irreducible_def in_i_def i_simps)
  note exact = rational_arithmetic_exact [OF this]
  have "rat_of (rat_new 30000 1000) = rat_of (rat_new (- 60) (- 2))" by (simp add: rat_of_def)
  with exact show ?thesis by blast
qed

text \<open>Rationals are ordered by value. For valid rationals the comparison the code computes by \<open>i128\<close>
  cross-multiplication is the order of the rational numbers, and its equality is equality of
  value, whatever the signs and common factors of the representations.\<close>

theorem rational_order_by_value:
  assumes "is_valid a" and "is_valid b"
  shows "(rational_cmp a b = Less \<longleftrightarrow> rat_of a < rat_of b) \<and> (rational_eq a b \<longleftrightarrow> rat_of a = rat_of b) \<and>
    (rational_cmp a b = Greater \<longleftrightarrow> rat_of b < rat_of a)"
  using rational_cmp_valid [OF assms] by (auto simp: rational_eq_def cmp_of_def)

theorem rational_order_by_value_witness:
  "rational_eq (rat_new 25 1) (rat_new (- 50) (- 2))"
proof -
  have "is_valid (rat_new 25 1)" "is_valid (rat_new (- 50) (- 2))" by (simp_all add: is_valid_def)
  from rational_order_by_value [OF this] show ?thesis by (simp add: rat_of_def)
qed

text \<open>Rescaling rounds to nearest. For positive timebases whose exact quotient \<open>n / d\<close> fits in \<open>i128\<close>
  with room for the half, \<open>rescale\<close> is the integer nearest to the exact rational result, ties
  away from zero, saturated to \<open>i64\<close>.\<close>

theorem rescale_rounds_to_nearest:
  assumes "0 < den f" and "0 < num t" and "0 < den t"
    and "\<bar>v * num f * den t\<bar> + den f * num t \<le> i_max 128"
  shows "\<exists>k. rescale v f t = sat 64 k \<and>
    2 * \<bar>k * (den f * num t) - v * num f * den t\<bar> \<le> den f * num t \<and>
    (2 * \<bar>k * (den f * num t) - v * num f * den t\<bar> = den f * num t \<longrightarrow>
       \<bar>v * num f * den t\<bar> < \<bar>k\<bar> * (den f * num t))"
proof -
  let ?n = "v * num f * den t" and ?d = "den f * num t"
  have d: "0 < ?d" using assms(1,2) by simp
  have "rescale v f t = sat 64 (rha ?n ?d)"
    using rescale_exact [OF assms(1-3) refl refl assms(4)] .
  then show ?thesis
    using rha_nearest [OF d, of ?n] rha_tie_away [OF d, of ?n] by (intro exI [of _ "rha ?n ?d"]) simp
qed

theorem rescale_rounds_to_nearest_witness:
  "\<exists>k. rescale 3 (rat_new 1 90000) (rat_new 1 1000000000) = sat 64 k \<and>
    2 * \<bar>k * 90000 - 3000000000\<bar> \<le> 90000"
proof -
  have h: "0 < den (rat_new 1 90000)" "0 < num (rat_new 1 1000000000)" "0 < den (rat_new 1 1000000000)"
    "\<bar>3 * num (rat_new 1 90000) * den (rat_new 1 1000000000)\<bar> + den (rat_new 1 90000) * num (rat_new 1 1000000000)
       \<le> i_max 128"
    by (simp_all add: i_simps)
  from rescale_rounds_to_nearest [OF h] show ?thesis by auto
qed

text \<open>
  Two boundary cases. The reduced numerator does not always fit: \<open>reduce\<close> then leaves a negative
  denominator. And \<open>rescale\<close> on extreme timebases wraps (a panic with overflow checks) when
  adding the half.
\<close>

lemma reduce_numerator_overflow: "reduce (rat_new (i_min 64) (- 1)) = rat_new (i_min 64) (- 1)"
proof -
  have "gcd_i128 9223372036854775808 1 = 1" by (simp add: gcd_i128_eq)
  then show ?thesis by (simp add: reduce_def try_i_def in_i_def i_simps sdiv_nonneg)
qed

lemma rescale_half_overflow:
  "rescale (i_max 64) (rat_new (i_max 64) 2) (rat_new 1 (i_max 64)) < 0"
proof -
  let ?m = "9223372036854775807 :: int"
  have "sat_mul 128 (sat_mul 128 ?m ?m) ?m = i_max 128" "sat_mul 128 2 1 = 2"
    by (simp_all add: sat_mul_def sat_def i_simps)
  moreover have "wrap_add 128 (i_max 128) (2 sdiv 2) = i_min 128"
    by (simp add: wrap_add_def wrap_def i_simps sdiv_nonneg)
  ultimately show ?thesis
    by (simp add: rescale_def try_i_def in_i_def i_simps sdiv_neg Let_def)
qed

end
