(* ===== verification/Failure_Ladder.thy ===== *)
theory Failure_Ladder
  imports Media_Time
begin

text \<open>
  \<open>SourceState\<close> of \<open>multiview-core/src/traits.rs\<close> and the failure ladder of
  \<open>multiview-framestore/src/state.rs\<close>: three thresholds and the pure classification of the
  time since the last fresh frame.

  The locale \<open>failure_ladder\<close> is the interface through which the tile store and the packet
  watchdog use the ladder. It promises that the ladder starts at the live rung and never
  improves as time passes; its clients derive that a stale stamp can only look worse.
\<close>

section \<open>Source states\<close>

datatype source_state = Live | Stale | Reconnecting | NoSignal

definition is_live :: "source_state \<Rightarrow> bool" where
  "is_live s \<longleftrightarrow> s = Live"

text \<open>The rungs in order of degradation, as a linear order.\<close>

fun rung :: "source_state \<Rightarrow> nat" where
  "rung Live = 0"
| "rung Stale = 1"
| "rung Reconnecting = 2"
| "rung NoSignal = 3"

instantiation source_state :: linorder
begin

definition less_eq_source_state :: "source_state \<Rightarrow> source_state \<Rightarrow> bool" where
  "less_eq_source_state a b \<longleftrightarrow> rung a \<le> rung b"

definition less_source_state :: "source_state \<Rightarrow> source_state \<Rightarrow> bool" where
  "less_source_state a b \<longleftrightarrow> rung a < rung b"

instance
proof
  fix x y z :: source_state
  show "x < y \<longleftrightarrow> x \<le> y \<and> \<not> y \<le> x"
    by (auto simp: less_eq_source_state_def less_source_state_def)
  show "x \<le> x" by (simp add: less_eq_source_state_def)
  show "x \<le> y \<Longrightarrow> y \<le> z \<Longrightarrow> x \<le> z" by (simp add: less_eq_source_state_def)
  show "x \<le> y \<Longrightarrow> y \<le> x \<Longrightarrow> x = y"
    by (cases x; cases y) (simp_all add: less_eq_source_state_def)
  show "x \<le> y \<or> y \<le> x" by (auto simp: less_eq_source_state_def)
qed

end

lemma Live_least [simp]: "Live \<le> s"
  by (simp add: less_eq_source_state_def)

lemma le_Live_iff [simp]: "s \<le> Live \<longleftrightarrow> s = Live"
  by (cases s) (simp_all add: less_eq_source_state_def)

section \<open>Thresholds\<close>

datatype fs_error =
  NonMonotonicThresholds int int int
| NonPositiveThreshold int

record tile_thresholds =
  hold :: media_time
  stale :: media_time
  nosignal :: media_time

definition thresholds_new ::
  "media_time \<Rightarrow> media_time \<Rightarrow> media_time \<Rightarrow> fs_error + tile_thresholds" where
  "thresholds_new h s n =
     (case find (\<lambda>t. t \<le> 0) [h, s, n] of
        Some t \<Rightarrow> Inl (NonPositiveThreshold t)
      | None \<Rightarrow>
          if \<not> (h < s \<and> s < n) then Inl (NonMonotonicThresholds h s n)
          else Inr \<lparr>hold = h, stale = s, nosignal = n\<rparr>)"

definition from_millis :: "int \<Rightarrow> int \<Rightarrow> int \<Rightarrow> fs_error + tile_thresholds" where
  "from_millis h s n =
     (let to_ns = (\<lambda>ms. sat_mul 64 ms 1000000) in thresholds_new (to_ns h) (to_ns s) (to_ns n))"

definition thresholds_default :: tile_thresholds where
  "thresholds_default =
     \<lparr>hold = 500000000, stale = 2000000000, nosignal = 10000000000\<rparr>"

definition thresholds_ok :: "tile_thresholds \<Rightarrow> bool" where
  "thresholds_ok t \<longleftrightarrow> 0 < hold t \<and> hold t < stale t \<and> stale t < nosignal t"

definition classify :: "media_time \<Rightarrow> tile_thresholds \<Rightarrow> source_state" where
  "classify elapsed t =
     (let e = max elapsed 0
      in if e < hold t then Live
         else if e < stale t then Stale
         else if e < nosignal t then Reconnecting
         else NoSignal)"

lemma thresholds_new_Inr:
  "thresholds_new h s n = Inr t \<longleftrightarrow>
     0 < h \<and> h < s \<and> s < n \<and> t = \<lparr>hold = h, stale = s, nosignal = n\<rparr>"
  by (auto simp: thresholds_new_def split: if_splits)

lemma thresholds_new_ok: "thresholds_new h s n = Inr t \<Longrightarrow> thresholds_ok t"
  by (auto simp: thresholds_new_Inr thresholds_ok_def)

lemma thresholds_new_Inl:
  "thresholds_new h s n = Inl e \<Longrightarrow>
     (\<exists>t. e = NonPositiveThreshold t \<and> t \<in> {h, s, n} \<and> t \<le> 0) \<or>
     (e = NonMonotonicThresholds h s n \<and> 0 < h \<and> 0 < s \<and> 0 < n \<and> \<not> (h < s \<and> s < n))"
  by (auto simp: thresholds_new_def split: if_splits)

lemma thresholds_default_ok: "thresholds_ok thresholds_default"
  by (simp add: thresholds_ok_def thresholds_default_def)

lemma classify_iff:
  assumes "thresholds_ok t"
  shows "classify e t = Live \<longleftrightarrow> e < hold t"
    "classify e t = Stale \<longleftrightarrow> hold t \<le> e \<and> e < stale t"
    "classify e t = Reconnecting \<longleftrightarrow> stale t \<le> e \<and> e < nosignal t"
    "classify e t = NoSignal \<longleftrightarrow> nosignal t \<le> e"
  using assms by (auto simp: classify_def Let_def thresholds_ok_def max_def)

lemma classify_mono: "e \<le> e' \<Longrightarrow> classify e t \<le> classify e' t"
  by (auto simp: classify_def Let_def max_def less_eq_source_state_def)

lemma classify_fresh: "thresholds_ok t \<Longrightarrow> e \<le> 0 \<Longrightarrow> classify e t = Live"
  by (simp add: classify_iff thresholds_ok_def)

section \<open>The ladder as an interface\<close>

locale failure_ladder =
  fixes ladder :: "int \<Rightarrow> 't \<Rightarrow> 's::linorder"
    and ladder_ok :: "'t \<Rightarrow> bool"
    and top_rung :: 's
  assumes ladder_mono: "e \<le> e' \<Longrightarrow> ladder e t \<le> ladder e' t"
    and ladder_fresh: "ladder_ok t \<Longrightarrow> e \<le> 0 \<Longrightarrow> ladder e t = top_rung"
begin

text \<open>The reading of a stamp \<open>stamp\<close> at instant \<open>now\<close>, in saturating arithmetic.\<close>

definition reading :: "int \<Rightarrow> int \<Rightarrow> 't \<Rightarrow> 's" where
  "reading now stamp t = ladder (sat_sub 64 now stamp) t"

lemma reading_later_worse: "now \<le> now' \<Longrightarrow> reading now stamp t \<le> reading now' stamp t"
  unfolding reading_def sat_sub_def by (intro ladder_mono sat_mono) simp

lemma reading_older_worse: "stamp \<le> stamp' \<Longrightarrow> reading now stamp' t \<le> reading now stamp t"
  unfolding reading_def sat_sub_def by (intro ladder_mono sat_mono) simp

lemma reading_fresh:
  assumes "ladder_ok t" and "now \<le> stamp"
  shows "reading now stamp t = top_rung"
proof -
  have "sat 64 (now - stamp) \<le> sat 64 0" using assms(2) by (intro sat_mono) simp
  then show ?thesis unfolding reading_def sat_sub_def by (intro ladder_fresh assms) simp
qed

lemma reading_top_least: "ladder_ok t \<Longrightarrow> top_rung \<le> reading now stamp t"
proof -
  assume ok: "ladder_ok t"
  have "ladder (min 0 (sat_sub 64 now stamp)) t \<le> ladder (sat_sub 64 now stamp) t"
    by (rule ladder_mono) simp
  then show ?thesis using ladder_fresh [OF ok, of "min 0 (sat_sub 64 now stamp)"]
    by (simp add: reading_def)
qed

end

interpretation tile_ladder: failure_ladder classify thresholds_ok Live
  by unfold_locales (simp_all add: classify_mono classify_fresh)

end
