(* ===== verification/Packet_Liveness.thy ===== *)
theory Packet_Liveness
  imports Failure_Ladder
begin

text \<open>
  \<open>multiview-framestore/src/liveness.rs\<close>: the packet-liveness watchdog of guarded
  passthrough. Its atoms are the fields of a record; a reader that performs stale Acquire
  loads is modelled by classifying an earlier snapshot of the record than the newest one.
\<close>

section \<open>State and operations\<close>

definition NEVER_RECORDED :: int where "NEVER_RECORDED = i_min 64"
definition NO_DTS_SEEN :: int where "NO_DTS_SEEN = i_min 64"

datatype packet_liveness_state = PLive | PStale | PSplice

definition is_splice :: "packet_liveness_state \<Rightarrow> bool" where
  "is_splice s \<longleftrightarrow> s = PSplice"

record pl_thresholds =
  ladder :: tile_thresholds
  pts_stall_ns :: int

definition SPLICE_FLOOR_NS :: int where "SPLICE_FLOOR_NS = 150000000"
definition NOSIGNAL_FLOOR_NS :: int where "NOSIGNAL_FLOOR_NS = 3000000000"

definition pl_thresholds_new :: "int \<Rightarrow> int \<Rightarrow> int \<Rightarrow> int \<Rightarrow> fs_error + pl_thresholds" where
  "pl_thresholds_new stale_v splice_v nosignal_v pts_stall_v =
     (case thresholds_new stale_v splice_v nosignal_v of
        Inl e \<Rightarrow> Inl e
      | Inr l \<Rightarrow>
          if pts_stall_v \<le> 0 then Inl (NonPositiveThreshold pts_stall_v)
          else Inr \<lparr>ladder = l, pts_stall_ns = pts_stall_v\<rparr>)"

definition from_frame_and_segment :: "int \<Rightarrow> int \<Rightarrow> fs_error + pl_thresholds" where
  "from_frame_and_segment frame_interval segment =
     (if frame_interval \<le> 0 then Inl (NonPositiveThreshold frame_interval)
      else if segment \<le> 0 then Inl (NonPositiveThreshold segment)
      else
        let two_t = sat_mul 64 frame_interval 2;
            four_t = sat_mul 64 frame_interval 4;
            stale_v = two_t;
            splice_v = max four_t SPLICE_FLOOR_NS;
            nosignal_v = max (sat_mul 64 segment 2) NOSIGNAL_FLOOR_NS;
            pts_stall_v = sat_add 64 splice_v two_t
        in pl_thresholds_new stale_v splice_v nosignal_v pts_stall_v)"

definition stale_ns :: "pl_thresholds \<Rightarrow> int" where
  "stale_ns t = hold (ladder t)"

definition splice_ns :: "pl_thresholds \<Rightarrow> int" where
  "splice_ns t = stale (ladder t)"

definition nosignal_ns :: "pl_thresholds \<Rightarrow> int" where
  "nosignal_ns t = nosignal (ladder t)"

record packet_liveness =
  last_packet_at_ns :: int
  last_advancing_dts_at_ns :: int
  max_dts_seen :: int
  dead :: bool
  pl_thr :: pl_thresholds

definition pl_new :: "pl_thresholds \<Rightarrow> packet_liveness" where
  "pl_new t = \<lparr>last_packet_at_ns = NEVER_RECORDED, last_advancing_dts_at_ns = NEVER_RECORDED,
     max_dts_seen = NO_DTS_SEEN, dead = False, pl_thr = t\<rparr>"

definition record_packet :: "int \<Rightarrow> int \<Rightarrow> packet_liveness \<Rightarrow> packet_liveness" where
  "record_packet now_ns dts p =
     (let p' = (if max_dts_seen p < dts
                then p\<lparr>max_dts_seen := dts, last_advancing_dts_at_ns := now_ns\<rparr> else p)
      in p'\<lparr>last_packet_at_ns := now_ns\<rparr>)"

definition mark_eof :: "packet_liveness \<Rightarrow> packet_liveness" where
  "mark_eof p = p\<lparr>dead := True\<rparr>"

definition mark_error :: "packet_liveness \<Rightarrow> packet_liveness" where
  "mark_error p = p\<lparr>dead := True\<rparr>"

definition elapsed_since_packet_ns :: "packet_liveness \<Rightarrow> int \<Rightarrow> int option" where
  "elapsed_since_packet_ns p now_ns =
     (let last_v = last_packet_at_ns p
      in if last_v = NEVER_RECORDED then None else Some (max (sat_sub 64 now_ns last_v) 0))"

definition elapsed_since_advancing_dts_ns :: "packet_liveness \<Rightarrow> int \<Rightarrow> int option" where
  "elapsed_since_advancing_dts_ns p now_ns =
     (let last_v = last_advancing_dts_at_ns p
      in if last_v = NEVER_RECORDED then None else Some (max (sat_sub 64 now_ns last_v) 0))"

definition pl_classify :: "packet_liveness \<Rightarrow> int \<Rightarrow> packet_liveness_state" where
  "pl_classify p now_ns =
     (if dead p then PSplice
      else case elapsed_since_packet_ns p now_ns of
        None \<Rightarrow> PSplice
      | Some packet_elapsed \<Rightarrow>
          let ladder_state = classify packet_elapsed (ladder (pl_thr p))
          in if ladder_state = Reconnecting \<or> ladder_state = NoSignal then PSplice
             else
               let stalled = (case elapsed_since_advancing_dts_ns p now_ns of
                                None \<Rightarrow> False
                              | Some dts_elapsed \<Rightarrow> pts_stall_ns (pl_thr p) \<le> dts_elapsed)
               in if stalled then PSplice
                  else if ladder_state = Stale then PStale else PLive)"

definition should_splice :: "packet_liveness \<Rightarrow> int \<Rightarrow> bool" where
  "should_splice p now_ns = is_splice (pl_classify p now_ns)"

section \<open>Thresholds\<close>

definition pl_thresholds_ok :: "pl_thresholds \<Rightarrow> bool" where
  "pl_thresholds_ok t \<longleftrightarrow> thresholds_ok (ladder t) \<and> 0 < pts_stall_ns t"

lemma pl_thresholds_new_Inr:
  "pl_thresholds_new a b c d = Inr t \<longleftrightarrow>
     thresholds_new a b c = Inr (ladder t) \<and> 0 < d \<and> pts_stall_ns t = d"
  by (cases t) (auto simp: pl_thresholds_new_def split: sum.splits if_splits)

lemma pl_thresholds_new_ok: "pl_thresholds_new a b c d = Inr t \<Longrightarrow> pl_thresholds_ok t"
  by (auto simp: pl_thresholds_new_Inr pl_thresholds_ok_def dest: thresholds_new_ok)

text \<open>
  A successful derivation from frame interval and segment gives a well-formed ladder whose
  stall deadline is no shorter than the splice point.
\<close>

lemma from_frame_and_segment_Inr:
  assumes "from_frame_and_segment f g = Inr t"
  shows "pl_thresholds_ok t" "splice_ns t \<le> pts_stall_ns t"
    "stale_ns t = sat 64 (2 * f)" "150000000 \<le> splice_ns t" "3000000000 \<le> nosignal_ns t"
proof -
  have f: "0 < f" using assms by (simp add: from_frame_and_segment_def split: if_splits)
  define splice_v where "splice_v = max (sat_mul 64 f 4) SPLICE_FLOOR_NS"
  define two_t where "two_t = sat_mul 64 f 2"
  obtain nos where t: "pl_thresholds_new two_t splice_v nos (sat_add 64 splice_v two_t) = Inr t"
    and nos: "nos = max (sat_mul 64 g 2) NOSIGNAL_FLOOR_NS"
    using assms by (auto simp: from_frame_and_segment_def Let_def splice_v_def two_t_def split: if_splits)
  from t show "pl_thresholds_ok t" by (rule pl_thresholds_new_ok)
  have "splice_v \<le> i_max 64"
    by (auto simp: splice_v_def sat_mul_def sat_def SPLICE_FLOOR_NS_def i_simps)
  moreover have "0 \<le> two_t" using f by (simp add: two_t_def sat_mul_def)
  moreover have "0 \<le> splice_v" by (simp add: splice_v_def SPLICE_FLOOR_NS_def max_def)
  ultimately have "splice_v \<le> sat_add 64 splice_v two_t"
    by (auto simp: sat_add_def sat_def i_simps)
  with t show "splice_ns t \<le> pts_stall_ns t"
    by (auto simp: pl_thresholds_new_Inr thresholds_new_Inr splice_ns_def)
  show "stale_ns t = sat 64 (2 * f)" "150000000 \<le> splice_ns t" "3000000000 \<le> nosignal_ns t"
    using t by (auto simp: pl_thresholds_new_Inr thresholds_new_Inr stale_ns_def splice_ns_def
      nosignal_ns_def two_t_def splice_v_def nos sat_mul_def mult.commute
      SPLICE_FLOOR_NS_def NOSIGNAL_FLOOR_NS_def)
qed

section \<open>Classification\<close>

text \<open>What the three signals of the watchdog amount to, for the stamps of one snapshot.\<close>

definition packet_dead :: "packet_liveness \<Rightarrow> int \<Rightarrow> bool" where
  "packet_dead p now \<longleftrightarrow>
     dead p \<or> last_packet_at_ns p = NEVER_RECORDED \<or>
     splice_ns (pl_thr p) \<le> max (sat_sub 64 now (last_packet_at_ns p)) 0"

definition pts_stalled :: "packet_liveness \<Rightarrow> int \<Rightarrow> bool" where
  "pts_stalled p now \<longleftrightarrow>
     last_advancing_dts_at_ns p \<noteq> NEVER_RECORDED \<and>
     pts_stall_ns (pl_thr p) \<le> max (sat_sub 64 now (last_advancing_dts_at_ns p)) 0"

lemma stale_below_nosignal: "thresholds_ok t \<Longrightarrow> stale t < nosignal t"
  by (simp add: thresholds_ok_def)

lemma should_splice_iff:
  assumes "pl_thresholds_ok (pl_thr p)"
  shows "should_splice p now \<longleftrightarrow> packet_dead p now \<or> pts_stalled p now"
  using assms stale_below_nosignal [of "ladder (pl_thr p)"]
  by (auto simp: should_splice_def is_splice_def pl_classify_def Let_def packet_dead_def
    pts_stalled_def elapsed_since_packet_ns_def elapsed_since_advancing_dts_ns_def
    pl_thresholds_ok_def classify_iff splice_ns_def split: if_splits)

lemma pl_classify_stale_iff:
  assumes "pl_thresholds_ok (pl_thr p)" and "\<not> should_splice p now"
  shows "pl_classify p now = PStale \<longleftrightarrow>
     stale_ns (pl_thr p) \<le> max (sat_sub 64 now (last_packet_at_ns p)) 0"
  using assms
  by (auto simp: should_splice_def is_splice_def pl_classify_def Let_def stale_ns_def
    elapsed_since_packet_ns_def pl_thresholds_ok_def classify_iff split: if_splits option.splits)

section \<open>Histories and stale snapshots\<close>

fun pl_run :: "packet_liveness \<Rightarrow> (int \<times> int) list \<Rightarrow> packet_liveness" where
  "pl_run p [] = p"
| "pl_run p ((now, dts) # h) = pl_run (record_packet now dts p) h"

lemma pl_run_append: "pl_run p (xs @ ys) = pl_run (pl_run p xs) ys"
  by (induction p xs rule: pl_run.induct) auto

lemma record_packet_simps [simp]:
  "dead (record_packet n d p) = dead p" "pl_thr (record_packet n d p) = pl_thr p"
  "last_packet_at_ns (record_packet n d p) = n"
  "max_dts_seen (record_packet n d p) = max (max_dts_seen p) d"
  "last_advancing_dts_at_ns (record_packet n d p) =
     (if max_dts_seen p < d then n else last_advancing_dts_at_ns p)"
  by (auto simp: record_packet_def Let_def)

lemma pl_run_frame [simp]: "dead (pl_run p h) = dead p" "pl_thr (pl_run p h) = pl_thr p"
  by (induction p h rule: pl_run.induct) auto

text \<open>The relation between an earlier and a later snapshot of one history.\<close>

definition older :: "packet_liveness \<Rightarrow> packet_liveness \<Rightarrow> bool" where
  "older p q \<longleftrightarrow>
     dead p = dead q \<and> pl_thr p = pl_thr q \<and>
     last_packet_at_ns p \<le> last_packet_at_ns q \<and>
     (last_advancing_dts_at_ns q = last_advancing_dts_at_ns p \<or>
      max (last_packet_at_ns p) (last_advancing_dts_at_ns p) \<le> last_advancing_dts_at_ns q) \<and>
     (last_packet_at_ns q = NEVER_RECORDED \<longrightarrow> last_packet_at_ns p = NEVER_RECORDED)"

lemma NEVER_least: "in_i 64 x \<Longrightarrow> NEVER_RECORDED \<le> x"
  by (simp add: NEVER_RECORDED_def in_i_def)

text \<open>An older snapshot that would still be copied is one the newer would copy too.\<close>

lemma older_splice:
  assumes o: "older p q" and ok: "pl_thresholds_ok (pl_thr p)"
    and le: "splice_ns (pl_thr p) \<le> pts_stall_ns (pl_thr p)"
    and splice: "should_splice q now"
  shows "should_splice p now"
proof -
  note anti = sat_mono [where w = 64]
  have sub: "sat_sub 64 now b \<le> sat_sub 64 now a" if "a \<le> b" for a b
    using that unfolding sat_sub_def by (intro anti) simp
  from splice o ok have "packet_dead q now \<or> pts_stalled q now"
    by (simp add: should_splice_iff older_def)
  then have "packet_dead p now \<or> pts_stalled p now"
  proof
    assume "packet_dead q now"
    with o sub [of "last_packet_at_ns p" "last_packet_at_ns q"] show ?thesis
      by (auto simp: packet_dead_def older_def)
  next
    assume q: "pts_stalled q now"
    show ?thesis
    proof (cases "last_advancing_dts_at_ns p = NEVER_RECORDED")
      case True
      with q o have "last_packet_at_ns p \<le> last_advancing_dts_at_ns q"
        by (auto simp: pts_stalled_def older_def)
      from sub [OF this] q le o have "packet_dead p now"
        by (auto simp: packet_dead_def pts_stalled_def older_def)
      then show ?thesis ..
    next
      case False
      with o sub [of "last_advancing_dts_at_ns p" "last_advancing_dts_at_ns q"] q
      have "pts_stalled p now" by (auto simp: pts_stalled_def older_def)
      then show ?thesis ..
    qed
  qed
  with ok show ?thesis by (simp add: should_splice_iff)
qed

text \<open>Every stamp of a history is at most a bound, and later packets arrive later.\<close>

definition stamps_le :: "packet_liveness \<Rightarrow> int \<Rightarrow> bool" where
  "stamps_le p n \<longleftrightarrow> last_packet_at_ns p \<le> n \<and> last_advancing_dts_at_ns p \<le> n"

lemma older_refl: "older p p"
  by (simp add: older_def)

lemma older_trans: "older p q \<Longrightarrow> older q r \<Longrightarrow> older p r"
  by (auto simp: older_def)

lemma older_record:
  assumes "stamps_le p n0" and "n0 \<le> n" and "NEVER_RECORDED < n"
  shows "older p (record_packet n d p)" "stamps_le (record_packet n d p) n"
  using assms by (auto simp: older_def stamps_le_def)

lemma older_run:
  assumes "stamps_le p n0" and "sorted (n0 # map fst h)" and "\<forall>n \<in> set (map fst h). NEVER_RECORDED < n"
  shows "older p (pl_run p h) \<and> (\<exists>n. stamps_le (pl_run p h) n \<and> n \<in> set (n0 # map fst h))"
  using assms
proof (induction p h arbitrary: n0 rule: pl_run.induct)
  case (1 p)
  then show ?case by (auto simp: older_refl)
next
  case (2 p now dts h)
  from 2(2-) have r: "older p (record_packet now dts p)" "stamps_le (record_packet now dts p) now"
    by (auto intro!: older_record [of p n0])
  from 2(1) [OF r(2)] 2(3,4) have
    "older (record_packet now dts p) (pl_run (record_packet now dts p) h)"
    "\<exists>n. stamps_le (pl_run (record_packet now dts p) h) n \<and> n \<in> set (now # map fst h)"
    by auto
  with r(1) show ?case by (auto intro: older_trans)
qed

text \<open>
  What a reader observes: its packet stamp is the one of some prefix of the history, and the
  advancing stamp it loads afterwards is the one of the same or a longer prefix, because
  \<open>record_packet\<close> stores the advancing stamp first.
\<close>

definition observed :: "packet_liveness \<Rightarrow> packet_liveness \<Rightarrow> packet_liveness" where
  "observed p q = p\<lparr>last_advancing_dts_at_ns := last_advancing_dts_at_ns q\<rparr>"

lemma older_observed: "older p q \<Longrightarrow> older q r \<Longrightarrow> older (observed p q) r"
  by (auto simp: older_def observed_def)

lemma observed_simps [simp]: "pl_thr (observed p q) = pl_thr p" "dead (observed p q) = dead p"
  by (simp_all add: observed_def)

lemma pl_new_stamps: "stamps_le (pl_new t) NEVER_RECORDED"
  by (simp add: stamps_le_def pl_new_def)

lemma pl_run_prefixes:
  assumes "sorted (map fst (h1 @ h2))" and "\<forall>n \<in> set (map fst (h1 @ h2)). NEVER_RECORDED < n"
  shows "older (pl_run (pl_new t) h1) (pl_run (pl_new t) (h1 @ h2))"
proof -
  have s1: "sorted (NEVER_RECORDED # map fst h1)"
    using assms by (auto simp: sorted_append intro!: less_imp_le)
  have b1: "\<forall>n \<in> set (map fst h1). NEVER_RECORDED < n"
    using assms(2) by auto
  from older_run [OF pl_new_stamps s1 b1] obtain n where
    n: "stamps_le (pl_run (pl_new t) h1) n" "n \<in> set (NEVER_RECORDED # map fst h1)"
    by blast
  have "n \<le> m" if "m \<in> set (map fst h2)" for m
  proof (cases "n = NEVER_RECORDED")
    case True
    with that assms(2) show ?thesis by (auto intro!: less_imp_le)
  next
    case False
    with n(2) have "n \<in> set (map fst h1)" by simp
    with that assms(1) show ?thesis by (auto simp: sorted_append)
  qed
  then have s2: "sorted (n # map fst h2)"
    using assms(1) by (auto simp: sorted_append)
  have "\<forall>n \<in> set (map fst h2). NEVER_RECORDED < n"
    using assms(2) by auto
  with older_run [OF n(1) s2] show ?thesis
    by (simp only: pl_run_append)
qed

section \<open>Properties\<close>

text \<open>C15: The watchdog fails safe under stale atomic loads. Take any history of packets with
  non-decreasing arrival instants and a reader that observes the packet stamp of a prefix of
  it and the advancing-DTS stamp of the same or a longer prefix. Under thresholds derived
  from frame interval and segment duration, whenever the up-to-date state calls for a splice
  the reader splices too: a stale read never yields a false "keep copying".\<close>

theorem watchdog_fails_safe:
  assumes "from_frame_and_segment frame_interval segment = Inr t"
    and "sorted (map fst (h1 @ h2 @ h3))"
    and "\<forall>n \<in> set (map fst (h1 @ h2 @ h3)). NEVER_RECORDED < n"
    and "should_splice (pl_run (pl_new t) (h1 @ h2 @ h3)) now"
  shows "should_splice (observed (pl_run (pl_new t) h1) (pl_run (pl_new t) (h1 @ h2))) now"
proof -
  note ok = from_frame_and_segment_Inr [OF assms(1)]
  have "older (pl_run (pl_new t) h1) (pl_run (pl_new t) (h1 @ h2))"
    using assms(2,3) by (intro pl_run_prefixes) (auto simp: sorted_append)
  moreover have "older (pl_run (pl_new t) (h1 @ h2)) (pl_run (pl_new t) ((h1 @ h2) @ h3))"
    using assms(2,3) by (intro pl_run_prefixes) auto
  ultimately have o: "older (observed (pl_run (pl_new t) h1) (pl_run (pl_new t) (h1 @ h2)))
      (pl_run (pl_new t) (h1 @ h2 @ h3))"
    by (auto dest: older_observed)
  show ?thesis
    by (rule older_splice [OF o]) (use ok assms(4) in \<open>auto simp: pl_new_def\<close>)
qed

theorem watchdog_fails_safe_witness:
  "should_splice (observed
     (pl_run (pl_new (projr (from_frame_and_segment 40000000 2000000000))) [(0, 5)])
     (pl_run (pl_new (projr (from_frame_and_segment 40000000 2000000000)))
        ([(0, 5)] @ [(40000000, 5)]))) 400000000"
proof (rule watchdog_fails_safe [where frame_interval = 40000000 and segment = 2000000000
      and ?h3.0 = "[(80000000, 5)]"])
  show "from_frame_and_segment 40000000 2000000000 =
      Inr (projr (from_frame_and_segment 40000000 2000000000))"
    by code_simp
  show "sorted (map fst ([(0, 5)] @ [(40000000, 5)] @ [(80000000::int, 5::int)]))" by simp
  show "\<forall>n \<in> set (map fst ([(0, 5)] @ [(40000000, 5)] @ [(80000000, 5::int)])). NEVER_RECORDED < n"
    by (simp add: NEVER_RECORDED_def i_simps)
  show "should_splice (pl_run (pl_new (projr (from_frame_and_segment 40000000 2000000000)))
      ([(0, 5)] @ [(40000000, 5)] @ [(80000000, 5)])) 400000000"
    by code_simp
qed

text \<open>The exact splice decision. For well-formed thresholds the copy thread splices to
  slate exactly when the stream is hard-dead, has never produced a packet, has been silent for
  at least the splice deadline, or has had its maximal DTS frozen for at least the stall
  deadline after it first advanced. In particular the slow-loris band between the stale point
  and the splice point never splices.\<close>

theorem watchdog_splice_exactly:
  assumes "pl_thresholds_new stale_v splice_v nosignal_v pts_stall_v = Inr (pl_thr p)"
    and "in_i 64 (now - last_packet_at_ns p)" and "in_i 64 (now - last_advancing_dts_at_ns p)"
  shows "should_splice p now \<longleftrightarrow>
     dead p \<or> last_packet_at_ns p = NEVER_RECORDED \<or> splice_v \<le> now - last_packet_at_ns p \<or>
     (last_advancing_dts_at_ns p \<noteq> NEVER_RECORDED \<and>
      pts_stall_v \<le> now - last_advancing_dts_at_ns p)"
  using assms(2,3) pl_thresholds_new_ok [OF assms(1)] assms(1)
  by (auto simp: should_splice_iff packet_dead_def pts_stalled_def sat_sub_def splice_ns_def
    pl_thresholds_new_Inr thresholds_new_Inr)

theorem watchdog_splice_exactly_witness:
  "\<not> should_splice \<lparr>last_packet_at_ns = 0, last_advancing_dts_at_ns = 0, max_dts_seen = 7,
      dead = False, pl_thr = projr (pl_thresholds_new 80 160 3000 240)\<rparr> 159"
  by (subst watchdog_splice_exactly
      [where stale_v = 80 and splice_v = 160 and nosignal_v = 3000 and pts_stall_v = 240])
    (simp_all add: pl_thresholds_new_def thresholds_new_def in_i_def i_simps NEVER_RECORDED_def)

end
