(* ===== verification/Latest_Slot.thy ===== *)
theory Latest_Slot
  imports Prelude
begin

text \<open>
  \<open>multiview-framestore/src/latest.rs\<close>: the single-slot newest-wins cell. Its pointer and its
  \<open>u64\<close> publish counter are the two fields of a record; the counter wraps at \<open>2 ^ 64\<close>.

  The locale \<open>seq_publisher\<close> is the contract the tile store relies on: a publish returns the
  next number of a counter, and only a publish moves it. Its client lemma numbers a whole
  sequence of publishes. It is interpreted on the slot here and on the tile store later.
\<close>

record 'a latest_slot =
  slot_value :: "'a option"
  slot_seq :: nat

definition slot_new :: "'a latest_slot" where
  "slot_new = \<lparr>slot_value = None, slot_seq = 0\<rparr>"

definition slot_publish :: "'a \<Rightarrow> 'a latest_slot \<Rightarrow> nat \<times> 'a latest_slot" where
  "slot_publish v s =
     (let next_seq = (slot_seq s + 1) mod 2 ^ 64
      in (next_seq, s\<lparr>slot_seq := next_seq, slot_value := Some v\<rparr>))"

definition slot_with_value :: "'a \<Rightarrow> 'a latest_slot" where
  "slot_with_value v = snd (slot_publish v slot_new)"

definition slot_load :: "'a latest_slot \<Rightarrow> 'a option" where
  "slot_load s = slot_value s"

definition slot_sequence :: "'a latest_slot \<Rightarrow> nat" where
  "slot_sequence s = slot_seq s"

definition slot_is_empty :: "'a latest_slot \<Rightarrow> bool" where
  "slot_is_empty s \<longleftrightarrow> slot_value s = None"

definition slot_take :: "'a latest_slot \<Rightarrow> 'a option \<times> 'a latest_slot" where
  "slot_take s = (slot_value s, s\<lparr>slot_value := None\<rparr>)"

section \<open>The publish counter as an interface\<close>

locale seq_publisher =
  fixes publish :: "'a \<Rightarrow> 's \<Rightarrow> nat \<times> 's"
    and seq_of :: "'s \<Rightarrow> nat"
  assumes publish_next: "seq_of s + 1 < 2 ^ 64 \<Longrightarrow> fst (publish v s) = Suc (seq_of s)"
    and publish_keeps: "seq_of (snd (publish v s)) = fst (publish v s)"
begin

fun publish_all :: "'a list \<Rightarrow> 's \<Rightarrow> nat list \<times> 's" where
  "publish_all [] s = ([], s)"
| "publish_all (v # vs) s =
     (let (n, s') = publish v s; (ns, s'') = publish_all vs s' in (n # ns, s''))"

lemma publish_all_seqs:
  "seq_of s + length vs < 2 ^ 64 \<Longrightarrow>
     fst (publish_all vs s) = [Suc (seq_of s)..<Suc (seq_of s + length vs)] \<and>
     seq_of (snd (publish_all vs s)) = seq_of s + length vs"
proof (induction vs arbitrary: s)
  case Nil
  then show ?case by simp
next
  case (Cons v vs)
  obtain n s' where p: "publish v s = (n, s')" by force
  have n: "n = Suc (seq_of s)" "seq_of s' = n"
    using publish_next [of s v] publish_keeps [of v s] Cons.prems p by simp_all
  obtain ns s'' where q: "publish_all vs s' = (ns, s'')" by force
  from Cons.IH [of s'] Cons.prems q n
  have "ns = [Suc (Suc (seq_of s))..<Suc (Suc (seq_of s + length vs))]"
    "seq_of s'' = Suc (seq_of s + length vs)"
    by (simp_all del: upt_Suc)
  then show ?case using p q n by (simp add: upt_conv_Cons del: upt_Suc)
qed

lemma publish_all_ascending:
  "seq_of s + length vs < 2 ^ 64 \<Longrightarrow> sorted_wrt (<) (fst (publish_all vs s))"
  by (simp add: publish_all_seqs strict_sorted_iff del: upt_Suc)

lemma publish_greater: "seq_of s + 1 < 2 ^ 64 \<Longrightarrow> seq_of s < fst (publish v s)"
  by (simp add: publish_next)

end

interpretation slot_pub: seq_publisher slot_publish slot_sequence
  by unfold_locales (simp_all add: slot_publish_def slot_sequence_def Let_def)

lemma slot_load_publish [simp]: "slot_load (snd (slot_publish v s)) = Some v"
  by (simp add: slot_load_def slot_publish_def Let_def)

lemma slot_take_empties: "slot_take s = (v, s') \<Longrightarrow> v = slot_load s \<and> slot_is_empty s' \<and> slot_sequence s' = slot_sequence s"
  by (auto simp: slot_take_def slot_load_def slot_is_empty_def slot_sequence_def)

lemma slot_load_publish_all:
  "slot_load (snd (slot_pub.publish_all vs s)) = (if vs = [] then slot_load s else Some (last vs))"
  by (induction vs arbitrary: s) (auto simp: case_prod_beta Let_def)

end
