(* ===== verification/Tile_Store.thy ===== *)
theory Tile_Store
  imports Failure_Ladder Latest_Slot
begin

text \<open>
  \<open>multiview-framestore/src/tile.rs\<close>: the per-tile last-good-frame store. A producer
  publishes stamped frames into a slot and a bounded ring; readers sample the ring at an
  instant \<open>now\<close> and advance a watermark below which the producer prunes.

  The relation \<open>tile_step\<close> interleaves publishes, ring loads of any number of readers and
  the later watermark advances of those readers, each from the snapshot it loaded. Its ghost
  component remembers every frame of the current generation, unpruned; the invariant shows
  that pruning is invisible to sampling.
\<close>

section \<open>State and operations\<close>

record 'a ring_entry =
  entry_at :: media_time
  entry_seq :: nat
  entry_frame :: 'a

type_synonym 'a ring = "'a ring_entry list"

text \<open>The library's \<open>partition_point\<close>, for slices it is specified on: true elements first.\<close>

definition partition_point :: "('x \<Rightarrow> bool) \<Rightarrow> 'x list \<Rightarrow> nat" where
  "partition_point P xs = length (takeWhile P xs)"

definition select_nearest_not_after :: "'a ring \<Rightarrow> media_time \<Rightarrow> 'a ring_entry option" where
  "select_nearest_not_after r now =
     (case r of
        [] \<Rightarrow> None
      | e0 # _ \<Rightarrow>
          let idx = partition_point (\<lambda>e. entry_at e \<le> now) r
          in if idx = 0 then Some e0
             else (if idx - 1 < length r then Some (r ! (idx - 1)) else Some e0))"

definition latch_and_classify ::
  "'a ring \<Rightarrow> media_time \<Rightarrow> tile_thresholds \<Rightarrow> ('a ring_entry \<times> source_state) option" where
  "latch_and_classify r now thr =
     (case select_nearest_not_after r now of
        None \<Rightarrow> None
      | Some selected \<Rightarrow>
          let lag = mt_sub now (entry_at selected) in Some (selected, classify lag thr))"

definition NEVER_PUBLISHED :: int where "NEVER_PUBLISHED = i_min 64"
definition NO_LATCH_SEQ :: nat where "NO_LATCH_SEQ = 0"

datatype 'a tile_read = Fresh 'a | Held 'a source_state | ReadNoSignal

fun read_state :: "'a tile_read \<Rightarrow> source_state" where
  "read_state (Fresh f) = Live"
| "read_state (Held f st) = st"
| "read_state ReadNoSignal = NoSignal"

fun read_frame :: "'a tile_read \<Rightarrow> 'a option" where
  "read_frame (Fresh f) = Some f"
| "read_frame (Held f st) = Some f"
| "read_frame ReadNoSignal = None"

datatype no_signal_policy = Slate | HoldForever

record 'a tile_store =
  tile_id :: string
  tile_slot :: "'a latest_slot"
  tile_thr :: tile_thresholds
  tile_policy :: no_signal_policy
  last_frame_at_ns :: int
  latch_watermark_seq :: nat
  tile_ring :: "'a ring"

definition RING_CAPACITY :: nat where "RING_CAPACITY = 256"

definition tile_new :: "string \<Rightarrow> tile_thresholds \<Rightarrow> no_signal_policy \<Rightarrow> 'a tile_store" where
  "tile_new i t p = \<lparr>tile_id = i, tile_slot = slot_new, tile_thr = t, tile_policy = p,
     last_frame_at_ns = NEVER_PUBLISHED, latch_watermark_seq = NO_LATCH_SEQ, tile_ring = []\<rparr>"

definition tile_with_defaults :: "string \<Rightarrow> 'a tile_store" where
  "tile_with_defaults i = tile_new i thresholds_default Slate"

text \<open>
  The closure that \<open>publish_arc\<close> hands to the ring's read-copy-update, and the publish
  itself. \<open>tile_publish_seen\<close> takes the watermark that the relaxed load returned.
\<close>

definition ring_next :: "nat \<Rightarrow> 'a ring_entry \<Rightarrow> 'a ring \<Rightarrow> 'a ring" where
  "ring_next watermark_seq e current =
     (if current \<noteq> [] \<and> entry_at e < entry_at (last current) then []
      else filter (\<lambda>x. watermark_seq \<le> entry_seq x) current) @ [e]"

definition ring_update :: "nat \<Rightarrow> 'a ring_entry \<Rightarrow> 'a ring \<Rightarrow> 'a ring" where
  "ring_update watermark_seq e current =
     (let next_ring = ring_next watermark_seq e current;
          overflow = length next_ring - RING_CAPACITY
      in if 0 < overflow then drop overflow next_ring else next_ring)"

definition tile_publish_seen ::
  "nat \<Rightarrow> 'a \<Rightarrow> media_time \<Rightarrow> 'a tile_store \<Rightarrow> nat \<times> 'a tile_store" where
  "tile_publish_seen watermark_seq f stamp s =
     (let (q, slot') = slot_publish f (tile_slot s);
          e = \<lparr>entry_at = stamp, entry_seq = q, entry_frame = f\<rparr>;
          r = ring_update watermark_seq e (tile_ring s)
      in (q, s\<lparr>tile_slot := slot', tile_ring := r, last_frame_at_ns := stamp\<rparr>))"

definition tile_publish :: "'a \<Rightarrow> media_time \<Rightarrow> 'a tile_store \<Rightarrow> nat \<times> 'a tile_store" where
  "tile_publish f stamp s = tile_publish_seen (latch_watermark_seq s) f stamp s"

definition elapsed_since_frame :: "'a tile_store \<Rightarrow> media_time \<Rightarrow> media_time option" where
  "elapsed_since_frame s now =
     (let last_ns = last_frame_at_ns s
      in if last_ns = NEVER_PUBLISHED then None else Some (mt_sub now last_ns))"

definition is_primed :: "'a tile_store \<Rightarrow> bool" where
  "is_primed s \<longleftrightarrow> last_frame_at_ns s \<noteq> NEVER_PUBLISHED"

definition tile_state :: "'a tile_store \<Rightarrow> media_time \<Rightarrow> source_state" where
  "tile_state s now =
     (case elapsed_since_frame s now of
        Some elapsed \<Rightarrow> classify elapsed (tile_thr s)
      | None \<Rightarrow> NoSignal)"

definition latch_and_advance ::
  "'a ring \<Rightarrow> media_time \<Rightarrow> 'a tile_store \<Rightarrow> ('a ring_entry \<times> source_state) option \<times> 'a tile_store" where
  "latch_and_advance r now s =
     (case latch_and_classify r now (tile_thr s) of
        None \<Rightarrow> (None, s)
      | Some (selected, st) \<Rightarrow>
          (Some (selected, st),
           s\<lparr>latch_watermark_seq := max (latch_watermark_seq s) (entry_seq selected)\<rparr>))"

definition state_at :: "'a tile_store \<Rightarrow> media_time \<Rightarrow> source_state \<times> 'a tile_store" where
  "state_at s now =
     (let r = tile_ring s
      in case latch_and_advance r now s of
           (Some (selected, st), s') \<Rightarrow> (st, s')
         | (None, s') \<Rightarrow> (NoSignal, s'))"

text \<open>The dispatch on the classified state, shared by \<open>read\<close> and \<open>read_at\<close>.\<close>

fun read_of :: "no_signal_policy \<Rightarrow> 'a \<Rightarrow> source_state \<Rightarrow> 'a tile_read" where
  "read_of p f Live = Fresh f"
| "read_of p f Stale = Held f Stale"
| "read_of p f Reconnecting = Held f Reconnecting"
| "read_of p f NoSignal = (case p of HoldForever \<Rightarrow> Held f NoSignal | Slate \<Rightarrow> ReadNoSignal)"

definition read_latest :: "'a tile_store \<Rightarrow> media_time \<Rightarrow> 'a tile_read" where
  "read_latest s now =
     (case slot_load (tile_slot s) of
        None \<Rightarrow> ReadNoSignal
      | Some f \<Rightarrow> read_of (tile_policy s) f (tile_state s now))"

definition read_at :: "'a tile_store \<Rightarrow> media_time \<Rightarrow> 'a tile_read \<times> 'a tile_store" where
  "read_at s now =
     (let r = tile_ring s
      in case latch_and_advance r now s of
           (None, s') \<Rightarrow> (ReadNoSignal, s')
         | (Some (selected, st), s') \<Rightarrow> (read_of (tile_policy s) (entry_frame selected) st, s'))"

definition tile_sequence :: "'a tile_store \<Rightarrow> nat" where
  "tile_sequence s = slot_sequence (tile_slot s)"

definition retained_frames :: "'a tile_store \<Rightarrow> nat" where
  "retained_frames s = length (tile_ring s)"

section \<open>The store is a publisher of consecutive sequence numbers\<close>

lemma tile_publish_parts [simp]:
  "fst (tile_publish_seen w f t s) = fst (slot_publish f (tile_slot s))"
  "tile_slot (snd (tile_publish_seen w f t s)) = snd (slot_publish f (tile_slot s))"
  "last_frame_at_ns (snd (tile_publish_seen w f t s)) = t"
  "latch_watermark_seq (snd (tile_publish_seen w f t s)) = latch_watermark_seq s"
  "tile_thr (snd (tile_publish_seen w f t s)) = tile_thr s"
  "tile_policy (snd (tile_publish_seen w f t s)) = tile_policy s"
  "tile_ring (snd (tile_publish_seen w f t s)) = ring_update w
     \<lparr>entry_at = t, entry_seq = fst (slot_publish f (tile_slot s)), entry_frame = f\<rparr> (tile_ring s)"
  by (simp_all add: tile_publish_seen_def Let_def case_prod_beta)

interpretation tile_pub: seq_publisher "\<lambda>(f, t) s. tile_publish f t s" tile_sequence
  by unfold_locales
    (auto simp: tile_publish_def tile_sequence_def slot_pub.publish_next slot_pub.publish_keeps)

section \<open>Selection\<close>

lemma select_eq:
  "select_nearest_not_after r now =
     (if r = [] then None
      else let tw = takeWhile (\<lambda>e. entry_at e \<le> now) r
           in Some (if tw = [] then hd r else last tw))"
proof (cases r)
  case (Cons e0 es)
  define tw where "tw = takeWhile (\<lambda>e. entry_at e \<le> now) r"
  have "r ! (length tw - 1) = last tw" "length tw - 1 < length r" if "tw \<noteq> []"
  proof -
    have le: "length tw \<le> length r" by (simp add: tw_def length_takeWhile_le)
    with that show "length tw - 1 < length r" by (cases tw) auto
    have "r ! (length tw - 1) = tw ! (length tw - 1)"
      using that by (simp add: tw_def takeWhile_nth)
    then show "r ! (length tw - 1) = last tw" using that by (simp add: last_conv_nth)
  qed
  moreover have "select_nearest_not_after r now =
      (let idx = length tw in if idx = 0 then Some e0
       else if idx - 1 < length r then Some (r ! (idx - 1)) else Some e0)"
    unfolding select_nearest_not_after_def partition_point_def tw_def by (subst (1) Cons) simp
  ultimately have "select_nearest_not_after r now = Some (if tw = [] then e0 else last tw)"
    unfolding Let_def by (cases "tw = []") simp_all
  then show ?thesis
    unfolding Let_def tw_def using Cons by simp
qed (simp add: select_nearest_not_after_def)

lemma select_None [simp]: "select_nearest_not_after r now = None \<longleftrightarrow> r = []"
  by (simp add: select_eq Let_def)

lemma select_Nil [simp]: "select_nearest_not_after [] now = None"
  by simp

lemma select_Some:
  "select_nearest_not_after r now = Some e \<Longrightarrow> e \<in> set r \<and> (entry_at e \<le> now \<or> e = hd r)"
  by (auto simp: select_eq Let_def split: if_splits dest: set_takeWhileD last_in_set)

text \<open>On a sorted ring the selected frame is the newest one not after \<open>now\<close>.\<close>

lemma select_newest:
  assumes "sorted (map entry_at r)" and "select_nearest_not_after r now = Some e"
    and "x \<in> set r" and "entry_at x \<le> now"
  shows "entry_at x \<le> entry_at e \<and> entry_at e \<le> now"
proof -
  define tw where "tw = takeWhile (\<lambda>e. entry_at e \<le> now) r"
  have r: "r = tw @ dropWhile (\<lambda>e. entry_at e \<le> now) r" by (simp add: tw_def)
  have "x \<in> set tw"
  proof (rule ccontr)
    assume "x \<notin> set tw"
    with assms(3) r have d: "x \<in> set (dropWhile (\<lambda>e. entry_at e \<le> now) r)"
      by (metis Un_iff set_append)
    then obtain y ys where dw: "dropWhile (\<lambda>e. entry_at e \<le> now) r = y # ys"
      by (cases "dropWhile (\<lambda>e. entry_at e \<le> now) r") auto
    have "sorted (map entry_at (dropWhile (\<lambda>e. entry_at e \<le> now) r))"
      using assms(1) r by (metis map_append sorted_append)
    with d dw have "entry_at y \<le> entry_at x" by auto
    moreover have "now < entry_at y"
      using dw hd_dropWhile [of "\<lambda>e. entry_at e \<le> now" r] by auto
    ultimately show False using assms(4) by simp
  qed
  then have ne: "tw \<noteq> []" and e: "e = last tw"
    using assms(2) by (auto simp: select_eq Let_def tw_def split: if_splits)
  have "sorted (map entry_at tw)"
    using assms(1) r by (metis map_append sorted_append)
  with \<open>x \<in> set tw\<close> ne have "entry_at x \<le> entry_at (last tw)"
    using sorted_last [of "map entry_at tw" "entry_at x"] by (simp add: last_map)
  moreover have "entry_at (last tw) \<le> now"
    using last_in_set [OF ne] by (auto simp: tw_def dest: set_takeWhileD)
  ultimately show ?thesis by (simp add: e)
qed

text \<open>Dropping a prefix whose successor is already due does not change the selection.\<close>

lemma select_drop:
  assumes "sorted (map entry_at g)" and "k < length g" and "k = 0 \<or> entry_at (g ! k) \<le> now"
  shows "select_nearest_not_after (drop k g) now = select_nearest_not_after g now"
proof (cases "k = 0")
  case False
  then have k: "entry_at (g ! k) \<le> now" using assms(3) by simp
  have "entry_at x \<le> now" if "x \<in> set (take k g)" for x
  proof -
    from that obtain i where "i < k" "x = g ! i" by (auto simp: in_set_conv_nth)
    with assms(1,2) have "entry_at x \<le> entry_at (g ! k)"
      using sorted_nth_mono [of "map entry_at g" i k] by simp
    with k show ?thesis by simp
  qed
  then have tw: "takeWhile (\<lambda>e. entry_at e \<le> now) g =
      take k g @ takeWhile (\<lambda>e. entry_at e \<le> now) (drop k g)"
    using takeWhile_append2 [of "take k g" "\<lambda>e. entry_at e \<le> now" "drop k g"] by simp
  have "drop k g = g ! k # drop (Suc k) g" using assms(2) by (rule Cons_nth_drop_Suc [symmetric])
  then have "takeWhile (\<lambda>e. entry_at e \<le> now) (drop k g) \<noteq> []" using k by simp
  then show ?thesis using assms(2) by (auto simp: select_eq Let_def tw)
qed simp

section \<open>Interleavings\<close>

text \<open>
  The ghost state: the unpruned frames of the current generation, the ring snapshots readers
  have loaded, the latest instant any reader sampled at, and whether the hard capacity ever
  dropped a frame.
\<close>

record 'a tile_sys =
  sys_store :: "'a tile_store"
  sys_gen :: "'a ring"
  sys_snaps :: "'a ring list"
  sys_clock :: media_time
  sys_overflowed :: bool

datatype 'a tile_event =
  EvPublish nat 'a media_time
| EvLoad
| EvLatch nat media_time

definition gen_add :: "'a ring_entry \<Rightarrow> 'a ring \<Rightarrow> 'a ring" where
  "gen_add e g = (if g \<noteq> [] \<and> entry_at e < entry_at (last g) then [e] else g @ [e])"

fun tile_step :: "'a tile_event \<Rightarrow> 'a tile_sys \<Rightarrow> 'a tile_sys" where
  "tile_step (EvPublish seen f t) s =
     (let st = sys_store s;
          w = min seen (latch_watermark_seq st);
          e = \<lparr>entry_at = t, entry_seq = fst (slot_publish f (tile_slot st)), entry_frame = f\<rparr>
      in s\<lparr>sys_store := snd (tile_publish_seen w f t st),
           sys_gen := gen_add e (sys_gen s),
           sys_overflowed := sys_overflowed s \<or> RING_CAPACITY < length (ring_next w e (tile_ring st))\<rparr>)"
| "tile_step EvLoad s = s\<lparr>sys_snaps := sys_snaps s @ [tile_ring (sys_store s)]\<rparr>"
| "tile_step (EvLatch i now) s =
     (if i < length (sys_snaps s)
      then s\<lparr>sys_store := snd (latch_and_advance (sys_snaps s ! i) now (sys_store s)),
             sys_clock := max (sys_clock s) now\<rparr>
      else s)"

definition tile_start :: "string \<Rightarrow> tile_thresholds \<Rightarrow> no_signal_policy \<Rightarrow> media_time \<Rightarrow> 'a tile_sys" where
  "tile_start i t p c = \<lparr>sys_store = tile_new i t p, sys_gen = [], sys_snaps = [],
     sys_clock = c, sys_overflowed = False\<rparr>"

definition tile_run :: "'a tile_event list \<Rightarrow> 'a tile_sys \<Rightarrow> 'a tile_sys" where
  "tile_run evs s = fold tile_step evs s"

text \<open>The watermark is below every retained frame or is the number of one already due.\<close>

definition watermark_ok :: "nat \<Rightarrow> media_time \<Rightarrow> 'a ring \<Rightarrow> bool" where
  "watermark_ok w c r \<longleftrightarrow>
     (\<forall>x \<in> set r. w \<le> entry_seq x) \<or> (\<exists>e \<in> set r. entry_seq e = w \<and> entry_at e \<le> c)"

definition snap_ok :: "nat \<Rightarrow> 'a ring \<Rightarrow> 'a ring \<Rightarrow> bool" where
  "snap_ok w r S \<longleftrightarrow>
     sorted_wrt (<) (map entry_seq S) \<and>
     (\<forall>x \<in> set r. x \<in> set S \<or> (\<forall>y \<in> set S. entry_seq y < entry_seq x)) \<and>
     (\<forall>y \<in> set S. y \<in> set r \<or> entry_seq y < w \<or> (\<forall>x \<in> set r. entry_seq y < entry_seq x))"

definition gen_ok :: "media_time \<Rightarrow> 'a ring \<Rightarrow> 'a ring \<Rightarrow> bool" where
  "gen_ok c g r \<longleftrightarrow>
     sorted (map entry_at g) \<and> sorted_wrt (<) (map entry_seq g) \<and>
     (\<exists>k. r = drop k g \<and> (k < length g \<or> g = []) \<and> (k = 0 \<or> entry_at (g ! k) \<le> c))"

definition sys_inv :: "'a tile_sys \<Rightarrow> bool" where
  "sys_inv s \<longleftrightarrow>
     (let st = sys_store s; w = latch_watermark_seq st; r = tile_ring st; n = tile_sequence st in
      gen_ok (sys_clock s) (sys_gen s) r \<and> watermark_ok w (sys_clock s) r \<and>
      w \<le> n \<and> (\<forall>x \<in> set (sys_gen s). entry_seq x \<le> n) \<and>
      (\<forall>S \<in> set (sys_snaps s). snap_ok w r S \<and> (\<forall>y \<in> set S. entry_seq y \<le> n)))"

lemma snap_ok_self: "sorted_wrt (<) (map entry_seq r) \<Longrightarrow> snap_ok w r r"
  by (auto simp: snap_ok_def)

lemma snap_ok_mono: "snap_ok w r S \<Longrightarrow> w \<le> w' \<Longrightarrow> snap_ok w' r S"
  by (fastforce simp: snap_ok_def)

lemma watermark_ok_clock: "watermark_ok w c r \<Longrightarrow> c \<le> c' \<Longrightarrow> watermark_ok w c' r"
  by (fastforce simp: watermark_ok_def)

lemma gen_ok_clock: "gen_ok c g r \<Longrightarrow> c \<le> c' \<Longrightarrow> gen_ok c' g r"
  by (fastforce simp: gen_ok_def)

lemma gen_ok_ring_seqs: "gen_ok c g r \<Longrightarrow> sorted_wrt (<) (map entry_seq r)"
  by (auto simp: gen_ok_def drop_map [symmetric] sorted_wrt_drop)

lemma gen_ok_last: "gen_ok c g r \<Longrightarrow> (r = [] \<longleftrightarrow> g = []) \<and> (g \<noteq> [] \<longrightarrow> last r = last g)"
  by (auto simp: gen_ok_def)

text \<open>A reader's latch keeps the watermark fit, whatever generation its snapshot is of.\<close>

lemma latch_watermark_ok:
  assumes w: "watermark_ok w c r" and S: "snap_ok w r S"
    and sel: "select_nearest_not_after S now = Some e"
  shows "watermark_ok (max w (entry_seq e)) (max c now) r"
proof (cases "entry_seq e \<le> w")
  case True
  with w show ?thesis by (auto simp: max_def intro: watermark_ok_clock)
next
  case False
  from select_Some [OF sel] have e: "e \<in> set S" "entry_at e \<le> now \<or> e = hd S" by auto
  from S e(1) False consider "e \<in> set r" | "\<forall>x \<in> set r. entry_seq e < entry_seq x"
    by (auto simp: snap_ok_def)
  then show ?thesis
  proof cases
    case 1
    from e(2) show ?thesis
    proof
      assume "entry_at e \<le> now"
      with 1 False show ?thesis by (auto simp: watermark_ok_def max_def)
    next
      assume hd: "e = hd S"
      have "entry_seq e \<le> entry_seq y" if "y \<in> set S" for y
        using S hd that by (cases S) (auto simp: snap_ok_def less_imp_le)
      moreover have "entry_seq e < entry_seq x" if "x \<in> set r" "x \<notin> set S" for x
        using S that e(1) by (auto simp: snap_ok_def)
      ultimately have "\<forall>x \<in> set r. entry_seq e \<le> entry_seq x" by (meson less_imp_le)
      with False show ?thesis by (auto simp: watermark_ok_def max_def)
    qed
  next
    case 2
    with False show ?thesis by (auto simp: watermark_ok_def max_def less_imp_le)
  qed
qed

text \<open>Pruning at a watermark drops a prefix whose successor is due.\<close>

lemma filter_sorted_drop:
  "sorted_wrt (<) (map entry_seq r) \<Longrightarrow>
     \<exists>k \<le> length r. filter (\<lambda>x. w \<le> entry_seq x) r = drop k r"
proof (induction r)
  case (Cons e r)
  show ?case
  proof (cases "w \<le> entry_seq e")
    case True
    with Cons.prems have "filter (\<lambda>x. w \<le> entry_seq x) r = r"
      by (intro filter_True) auto
    with True show ?thesis by (intro exI [of _ 0]) simp
  next
    case False
    from Cons obtain k where "k \<le> length r" "filter (\<lambda>x. w \<le> entry_seq x) r = drop k r" by auto
    with False show ?thesis by (intro exI [of _ "Suc k"]) simp
  qed
qed simp

lemma prune_gen_ok:
  assumes g: "gen_ok c g r" and w: "watermark_ok w c r" and w0: "w0 \<le> w"
  shows "gen_ok c g (filter (\<lambda>x. w0 \<le> entry_seq x) r)"
proof -
  define P where "P = (\<lambda>x. w0 \<le> entry_seq (x :: 'a ring_entry))"
  from g obtain k where k: "r = drop k g" "k < length g \<or> g = []" "k = 0 \<or> entry_at (g ! k) \<le> c"
    and so: "sorted (map entry_at g)" "sorted_wrt (<) (map entry_seq g)"
    by (auto simp: gen_ok_def)
  obtain m where m: "m \<le> length r" "filter P r = drop m r"
    using filter_sorted_drop [OF gen_ok_ring_seqs [OF g]] unfolding P_def by blast
  show ?thesis
  proof (cases "m = 0 \<or> g = []")
    case True
    with m g k show ?thesis unfolding P_def [symmetric] by auto
  next
    case False
    then have "hd r \<in> set r" "\<not> P (hd r)"
    proof -
      have r: "r \<noteq> []" using False m by auto
      then show "hd r \<in> set r" by simp
      show "\<not> P (hd r)"
      proof
        assume p: "P (hd r)"
        have "w0 \<le> entry_seq x" if "x \<in> set r" for x
          using gen_ok_ring_seqs [OF g] p r that unfolding P_def
          by (cases r) (auto intro: order_trans less_imp_le)
        then have "filter P r = r" unfolding P_def by (intro filter_True) auto
        with m(2) have "length (drop m r) = length r" by simp
        with False r show False by (cases r) auto
      qed
    qed
    with w w0 obtain e where e: "e \<in> set r" "entry_seq e = w" "entry_at e \<le> c"
      by (auto simp: watermark_ok_def P_def)
    with w0 have "e \<in> set (drop m r)" by (simp add: m(2) [symmetric] P_def)
    then obtain i where i: "i < length g - (k + m)" "e = g ! (k + m + i)"
      by (auto simp: in_set_conv_nth k(1) ac_simps)
    then have "entry_at (g ! (k + m)) \<le> entry_at e"
      using so(1) sorted_nth_mono [of "map entry_at g" "k + m" "k + m + i"] by simp
    with e(3) have "entry_at (g ! (k + m)) \<le> c" by simp
    moreover have "filter P r = drop (k + m) g" using m(2) k(1) by (simp add: add.commute)
    moreover have "k + m < length g" using i(1) by simp
    ultimately show ?thesis unfolding P_def [symmetric] gen_ok_def using so by blast
  qed
qed

lemma append_gen_ok:
  assumes "gen_ok c g r" and "\<forall>x \<in> set g. entry_seq x < entry_seq e"
    and "g = [] \<or> entry_at (last g) \<le> entry_at e"
  shows "gen_ok c (g @ [e]) (r @ [e])"
proof -
  from assms(1) obtain k where k: "r = drop k g" "k < length g \<or> g = []" "k = 0 \<or> entry_at (g ! k) \<le> c"
    and so: "sorted (map entry_at g)" "sorted_wrt (<) (map entry_seq g)"
    by (auto simp: gen_ok_def)
  have "\<forall>x \<in> set g. entry_at x \<le> entry_at e"
    using assms(3) so(1) sorted_last [of "map entry_at g"]
    by (cases "g = []") (auto simp: last_map intro: order_trans)
  with assms(2) so have "sorted (map entry_at (g @ [e]))" "sorted_wrt (<) (map entry_seq (g @ [e]))"
    by (auto simp: sorted_append sorted_wrt_append)
  moreover define k' where "k' = (if g = [] then 0 else k)"
  have "r @ [e] = drop k' (g @ [e])" "k' < length (g @ [e])"
    "k' = 0 \<or> entry_at ((g @ [e]) ! k') \<le> c"
    using k by (auto simp: k'_def nth_append)
  ultimately show ?thesis unfolding gen_ok_def by blast
qed

lemma ring_next_gen_ok:
  assumes "gen_ok c g r" and "watermark_ok w c r" and "w0 \<le> w"
    and "\<forall>x \<in> set g. entry_seq x < entry_seq e"
  shows "gen_ok c (gen_add e g) (ring_next w0 e r)"
proof (cases "g \<noteq> [] \<and> entry_at e < entry_at (last g)")
  case True
  with gen_ok_last [OF assms(1)] show ?thesis
    by (auto simp: gen_add_def ring_next_def gen_ok_def intro!: exI [of _ 0])
next
  case False
  then have "gen_ok c (g @ [e]) (filter (\<lambda>x. w0 \<le> entry_seq x) r @ [e])"
    using assms by (intro append_gen_ok prune_gen_ok) auto
  with False gen_ok_last [OF assms(1)] show ?thesis
    by (auto simp: gen_add_def ring_next_def)
qed

lemma ring_next_watermark_ok:
  "watermark_ok w c r \<Longrightarrow> w0 \<le> w \<Longrightarrow> w \<le> entry_seq e \<Longrightarrow> watermark_ok w c (ring_next w0 e r)"
  by (auto simp: watermark_ok_def ring_next_def)

lemma ring_next_snap_ok:
  assumes "snap_ok w r S" and "w0 \<le> w" and "\<forall>y \<in> set S. entry_seq y < entry_seq e"
  shows "snap_ok w (ring_next w0 e r) S"
  unfolding snap_ok_def
proof (intro conjI ballI)
  show "sorted_wrt (<) (map entry_seq S)" using assms(1) by (simp add: snap_ok_def)
  have mem: "set (ring_next w0 e r) \<subseteq> insert e (set r)" by (auto simp: ring_next_def)
  show "x \<in> set S \<or> (\<forall>y \<in> set S. entry_seq y < entry_seq x)" if "x \<in> set (ring_next w0 e r)" for x
    using assms(1,3) mem that by (auto simp: snap_ok_def)
  fix y assume y: "y \<in> set S"
  with assms(1) consider "y \<in> set r" | "entry_seq y < w" | "\<forall>x \<in> set r. entry_seq y < entry_seq x"
    by (auto simp: snap_ok_def)
  then show "y \<in> set (ring_next w0 e r) \<or> entry_seq y < w \<or>
      (\<forall>x \<in> set (ring_next w0 e r). entry_seq y < entry_seq x)"
  proof cases
    case 1
    with assms(2,3) y show ?thesis by (auto simp: ring_next_def not_le)
  next
    case 3
    with assms(3) y mem show ?thesis by auto
  qed simp
qed

lemma gen_add_seqs: "\<forall>x \<in> set g. entry_seq x < entry_seq e \<Longrightarrow> \<forall>x \<in> set (gen_add e g). entry_seq x \<le> entry_seq e"
  by (auto simp: gen_add_def less_imp_le)

lemma ring_update_no_overflow:
  "\<not> RING_CAPACITY < length (ring_next w e r) \<Longrightarrow> ring_update w e r = ring_next w e r"
  by (simp add: ring_update_def Let_def)

lemma publish_inv:
  assumes inv: "sys_inv s" and room: "tile_sequence (sys_store s) + 1 < 2 ^ 64"
    and ov: "\<not> sys_overflowed (tile_step (EvPublish seen f t) s)"
  shows "sys_inv (tile_step (EvPublish seen f t) s)"
proof -
  define st where "st = sys_store s"
  define w where "w = latch_watermark_seq st"
  define r where "r = tile_ring st"
  define w0 where "w0 = min seen w"
  define e where "e = \<lparr>entry_at = t, entry_seq = fst (slot_publish f (tile_slot st)), entry_frame = f\<rparr>"
  have q: "entry_seq e = Suc (tile_sequence st)"
    using slot_pub.publish_next [of "tile_slot st" f] room by (simp add: e_def st_def tile_sequence_def)
  have n': "tile_sequence (snd (tile_publish_seen w0 f t st)) = entry_seq e"
    by (simp add: tile_sequence_def slot_pub.publish_keeps e_def)
  have ru: "ring_update w0 e r = ring_next w0 e r"
    using ov by (intro ring_update_no_overflow) (simp add: Let_def st_def w_def r_def w0_def e_def)
  have i: "gen_ok (sys_clock s) (sys_gen s) r" "watermark_ok w (sys_clock s) r" "w \<le> tile_sequence st"
    "\<forall>x \<in> set (sys_gen s). entry_seq x < entry_seq e"
    "\<forall>S \<in> set (sys_snaps s). snap_ok w r S \<and> (\<forall>y \<in> set S. entry_seq y < entry_seq e)"
    using inv by (auto simp: sys_inv_def Let_def st_def w_def r_def q less_Suc_eq_le)
  have w0: "w0 \<le> w" by (simp add: w0_def)
  have "gen_ok (sys_clock s) (gen_add e (sys_gen s)) (ring_next w0 e r)"
    using i w0 by (intro ring_next_gen_ok)
  moreover have "watermark_ok w (sys_clock s) (ring_next w0 e r)"
    using i w0 q by (intro ring_next_watermark_ok) auto
  moreover have "snap_ok w (ring_next w0 e r) S" if "S \<in> set (sys_snaps s)" for S
    using i that w0 by (intro ring_next_snap_ok) auto
  moreover note gen_add_seqs [OF i(4)]
  ultimately show ?thesis
    using i(3,5) q n' ru
    by (auto simp: sys_inv_def Let_def st_def [symmetric] w_def [symmetric] r_def [symmetric]
        w0_def [symmetric] e_def [symmetric] less_imp_le)
qed

lemma latch_and_advance_parts:
  "snd (latch_and_advance r now s) =
     (case select_nearest_not_after r now of None \<Rightarrow> s
      | Some e \<Rightarrow> s\<lparr>latch_watermark_seq := max (latch_watermark_seq s) (entry_seq e)\<rparr>)"
  by (simp add: latch_and_advance_def latch_and_classify_def Let_def split: option.split)

lemma latch_inv:
  assumes inv: "sys_inv s"
  shows "sys_inv (tile_step (EvLatch i now) s)"
proof (cases "i < length (sys_snaps s)")
  case True
  define S where "S = sys_snaps s ! i"
  with True have S: "S \<in> set (sys_snaps s)" by simp
  show ?thesis
  proof (cases "select_nearest_not_after S now")
    case None
    with True inv show ?thesis
      by (auto simp: sys_inv_def Let_def S_def [symmetric] latch_and_advance_parts tile_sequence_def
        intro: gen_ok_clock watermark_ok_clock)
  next
    case (Some e)
    from S inv have snap: "snap_ok (latch_watermark_seq (sys_store s)) (tile_ring (sys_store s)) S"
      "\<forall>y \<in> set S. entry_seq y \<le> tile_sequence (sys_store s)"
      by (auto simp: sys_inv_def Let_def)
    then have e: "entry_seq e \<le> slot_sequence (tile_slot (sys_store s))"
      using select_Some [OF Some] by (simp add: tile_sequence_def)
    from latch_watermark_ok [OF _ snap(1) Some, of "sys_clock s"] inv e True Some show ?thesis
      by (auto simp: sys_inv_def Let_def S_def [symmetric] latch_and_advance_parts tile_sequence_def
        intro: gen_ok_clock snap_ok_mono)
  qed
qed (use inv in simp)

lemma load_inv: "sys_inv s \<Longrightarrow> sys_inv (tile_step EvLoad s)"
proof -
  assume inv: "sys_inv s"
  then have g: "gen_ok (sys_clock s) (sys_gen s) (tile_ring (sys_store s))"
    by (simp add: sys_inv_def Let_def)
  then have "set (tile_ring (sys_store s)) \<subseteq> set (sys_gen s)"
    by (auto simp: gen_ok_def dest: in_set_dropD)
  with inv snap_ok_self [OF gen_ok_ring_seqs [OF g]] show ?thesis
    by (auto simp: sys_inv_def Let_def)
qed

lemma tile_step_inv:
  "sys_inv s \<Longrightarrow> tile_sequence (sys_store s) + 1 < 2 ^ 64 \<Longrightarrow> \<not> sys_overflowed (tile_step ev s) \<Longrightarrow>
     sys_inv (tile_step ev s)"
proof (cases ev)
  case (EvPublish w f t)
  assume "sys_inv s" "tile_sequence (sys_store s) + 1 < 2 ^ 64" "\<not> sys_overflowed (tile_step ev s)"
  then show ?thesis unfolding EvPublish by (rule publish_inv)
next
  case EvLoad
  assume "sys_inv s"
  then show ?thesis unfolding EvLoad by (rule load_inv)
next
  case (EvLatch i now)
  assume "sys_inv s"
  then show ?thesis unfolding EvLatch by (rule latch_inv)
qed

lemma tile_step_overflowed: "sys_overflowed s \<Longrightarrow> sys_overflowed (tile_step ev s)"
  by (cases ev) (simp_all add: Let_def)

lemma slot_publish_le: "fst (slot_publish v sl) \<le> Suc (slot_sequence sl)"
  unfolding slot_publish_def slot_sequence_def Let_def
  using mod_less_eq_dividend [of "slot_seq sl + 1" "2 ^ 64"] by (simp only: fst_conv Suc_eq_plus1)

lemma tile_step_sequence: "tile_sequence (sys_store (tile_step ev s)) \<le> Suc (tile_sequence (sys_store s))"
  by (cases ev) (simp_all add: Let_def tile_sequence_def slot_pub.publish_keeps slot_publish_le
    latch_and_advance_parts split: option.split)

lemma tile_run_overflowed: "sys_overflowed s \<Longrightarrow> sys_overflowed (tile_run evs s)"
  by (induction evs arbitrary: s) (auto simp: tile_run_def tile_step_overflowed)

lemma tile_run_inv:
  assumes "sys_inv s" and "tile_sequence (sys_store s) + length evs < 2 ^ 64"
    and "\<not> sys_overflowed (tile_run evs s)"
  shows "sys_inv (tile_run evs s)"
  using assms
proof (induction evs arbitrary: s)
  case (Cons ev evs)
  from Cons.prems(3) have r: "\<not> sys_overflowed (tile_run evs (tile_step ev s))"
    by (simp add: tile_run_def)
  then have "\<not> sys_overflowed (tile_step ev s)" by (auto dest: tile_run_overflowed)
  with Cons.prems have "sys_inv (tile_step ev s)" by (intro tile_step_inv) auto
  moreover have "tile_sequence (sys_store (tile_step ev s)) + length evs < 2 ^ 64"
    using tile_step_sequence [of ev s] Cons.prems(2) by simp
  ultimately show ?case using Cons.IH r by (simp add: tile_run_def)
qed (simp add: tile_run_def)

lemma tile_start_inv: "sys_inv (tile_start i t p c)"
  by (auto simp: sys_inv_def tile_start_def tile_new_def gen_ok_def watermark_ok_def Let_def
    NO_LATCH_SEQ_def)

lemma tile_step_frame [simp]:
  "tile_thr (sys_store (tile_step ev s)) = tile_thr (sys_store s)"
  "tile_policy (sys_store (tile_step ev s)) = tile_policy (sys_store s)"
  by (cases ev; simp add: Let_def latch_and_advance_parts split: option.split)+

lemma tile_run_frame [simp]:
  "tile_thr (sys_store (tile_run evs s)) = tile_thr (sys_store s)"
  "tile_policy (sys_store (tile_run evs s)) = tile_policy (sys_store s)"
  by (induction evs arbitrary: s) (simp_all add: tile_run_def)

lemma tile_start_frame [simp]:
  "tile_thr (sys_store (tile_start i t p c)) = t"
  "tile_policy (sys_store (tile_start i t p c)) = p"
  by (simp_all add: tile_start_def tile_new_def)

section \<open>What sampling promises\<close>

text \<open>The reading of an unpruned generation: the specification of \<open>read_at\<close>.\<close>

definition read_spec :: "tile_thresholds \<Rightarrow> no_signal_policy \<Rightarrow> 'a ring \<Rightarrow> media_time \<Rightarrow> 'a tile_read" where
  "read_spec thr p g now =
     (case select_nearest_not_after g now of
        None \<Rightarrow> ReadNoSignal
      | Some e \<Rightarrow> read_of p (entry_frame e) (classify (mt_sub now (entry_at e)) thr))"

lemma read_at_spec:
  "fst (read_at s now) = read_spec (tile_thr s) (tile_policy s) (tile_ring s) now"
  by (auto simp: read_at_def read_spec_def Let_def latch_and_advance_def latch_and_classify_def
    split: option.split)

lemma select_gen:
  assumes "gen_ok c g r" and "c \<le> now"
  shows "select_nearest_not_after r now = select_nearest_not_after g now"
proof -
  from assms(1) obtain k where k: "r = drop k g" "k < length g \<or> g = []"
      "k = 0 \<or> entry_at (g ! k) \<le> c" "sorted (map entry_at g)"
    by (auto simp: gen_ok_def)
  show ?thesis
  proof (cases "g = []")
    case False
    with k assms(2) show ?thesis unfolding k(1) by (intro select_drop) auto
  qed (use k in simp)
qed

lemma length_ring_update: "length (ring_update w e r) \<le> RING_CAPACITY"
  by (auto simp: ring_update_def Let_def)

lemma tile_step_bounded:
  "retained_frames (sys_store s) \<le> RING_CAPACITY \<Longrightarrow> retained_frames (sys_store (tile_step ev s)) \<le> RING_CAPACITY"
  by (cases ev) (auto simp: retained_frames_def Let_def length_ring_update latch_and_advance_parts
    split: option.split)

lemmas tile_eval = tile_run_def tile_start_def tile_new_def slot_new_def tile_publish_seen_def
  slot_publish_def ring_update_def ring_next_def gen_add_def latch_and_advance_parts Let_def
  NO_LATCH_SEQ_def NEVER_PUBLISHED_def RING_CAPACITY_def select_nearest_not_after_def
  partition_point_def read_spec_def thresholds_default_def classify_def mt_sub_def sat_sub_def
  sat_def i_simps

text \<open>C5: Pruning is invisible. Take any interleaving of publishes (each acting on a
  possibly stale watermark), ring loads of any number of readers and watermark advances
  computed by those readers from the snapshots they loaded, however old and even from a
  generation that a reconnect has replaced. As long as the hard capacity has dropped nothing
  and fewer than 2^64 events happened, sampling the pruned ring at any instant not before the
  latest latch gives exactly the reading of the unpruned generation: the boundary frame the
  compositor shows is never lost.\<close>

theorem pruning_invisible:
  assumes "length evs < 2 ^ 64"
    and "\<not> sys_overflowed (tile_run evs (tile_start i thr p c))"
    and "sys_clock (tile_run evs (tile_start i thr p c)) \<le> now"
  shows "fst (read_at (sys_store (tile_run evs (tile_start i thr p c))) now) =
     read_spec thr p (sys_gen (tile_run evs (tile_start i thr p c))) now"
proof -
  have "sys_inv (tile_run evs (tile_start i thr p c))"
    using assms(1,2) by (intro tile_run_inv tile_start_inv)
      (simp add: tile_start_def tile_new_def tile_sequence_def slot_new_def slot_sequence_def)
  then have "gen_ok (sys_clock (tile_run evs (tile_start i thr p c)))
      (sys_gen (tile_run evs (tile_start i thr p c)))
      (tile_ring (sys_store (tile_run evs (tile_start i thr p c))))"
    by (simp add: sys_inv_def Let_def)
  from select_gen [OF this assms(3)] show ?thesis
    by (simp add: read_at_spec read_spec_def)
qed

theorem pruning_invisible_witness:
  "fst (read_at (sys_store (tile_run
      [EvPublish 9 (1::nat) 10, EvPublish 9 2 11, EvLoad, EvPublish 9 100 0, EvLatch 0 11, EvPublish 9 101 40]
      (tile_start ''t'' thresholds_default HoldForever 0))) 41) = Fresh 101"
proof -
  let ?r = "tile_run [EvPublish 9 (1::nat) 10, EvPublish 9 2 11, EvLoad, EvPublish 9 100 0,
      EvLatch 0 11, EvPublish 9 101 40] (tile_start ''t'' thresholds_default HoldForever 0)"
  have "\<not> sys_overflowed ?r" "sys_clock ?r \<le> 41"
    "read_spec thresholds_default HoldForever (sys_gen ?r) 41 = Fresh 101"
    by (simp_all add: tile_eval)
  moreover have "length [EvPublish 9 (1::nat) 10, EvPublish 9 2 11, EvLoad, EvPublish 9 100 0,
      EvLatch 0 11, EvPublish 9 101 40] < 2 ^ 64" by simp
  ultimately show ?thesis by (subst pruning_invisible) simp_all
qed

text \<open>The ring is bounded: after any interleaving whatsoever, overflow included, it
  retains at most \<open>RING_CAPACITY\<close> = 256 frames.\<close>

theorem ring_bounded: "retained_frames (sys_store (tile_run evs (tile_start i thr p c))) \<le> 256"
proof -
  have "retained_frames (sys_store (tile_run evs s)) \<le> RING_CAPACITY"
    if "retained_frames (sys_store s) \<le> RING_CAPACITY" for s :: "'a tile_sys"
    using that
  proof (induction evs arbitrary: s)
    case (Cons ev evs)
    from tile_step_bounded [OF Cons.prems] Cons.IH show ?case by (simp add: tile_run_def)
  qed (simp add: tile_run_def)
  then show ?thesis
    by (simp add: RING_CAPACITY_def tile_start_def tile_new_def retained_frames_def)
qed

lemma tile_state_publish:
  "t \<noteq> NEVER_PUBLISHED \<Longrightarrow>
     tile_state (snd (tile_publish f t s)) now = tile_ladder.reading now t (tile_thr s)"
  by (simp add: tile_state_def elapsed_since_frame_def tile_publish_def tile_ladder.reading_def mt_sub_def)

text \<open>Newest wins, and holds down the ladder. After a publish with a stamp \<open>t\<close>, a read
  at or before \<open>t\<close> is fresh with exactly that frame; as the output time advances the state
  read only ever moves down the failure ladder; a frame that is shown is always the last
  published one; and under \<open>HoldForever\<close> there is always a frame to show.\<close>

theorem publish_then_read:
  assumes "thresholds_ok (tile_thr s)" and "t \<noteq> NEVER_PUBLISHED"
  shows "(now \<le> t \<longrightarrow> read_latest (snd (tile_publish f t s)) now = Fresh f) \<and>
     (now \<le> now' \<longrightarrow> read_state (read_latest (snd (tile_publish f t s)) now)
        \<le> read_state (read_latest (snd (tile_publish f t s)) now')) \<and>
     read_frame (read_latest (snd (tile_publish f t s)) now) \<in> {Some f, None} \<and>
     (tile_policy s = HoldForever \<longrightarrow> read_frame (read_latest (snd (tile_publish f t s)) now) = Some f)"
proof -
  define s' where "s' = snd (tile_publish f t s)"
  have read: "read_latest s' n = read_of (tile_policy s) f (tile_ladder.reading n t (tile_thr s))" for n
    using tile_state_publish [OF assms(2), of f s n]
    by (simp add: s'_def read_latest_def) (simp add: tile_publish_def)
  have st: "read_state (read_of p f st) = st" for p and st :: source_state
    by (cases st; cases p) simp_all
  have fr: "read_frame (read_of p f st) \<in> {Some f, None}" for p and st :: source_state
    by (cases st; cases p) simp_all
  have hf: "read_frame (read_of HoldForever f st) = Some f" for st :: source_state
    by (cases st) simp_all
  show ?thesis
    unfolding s'_def [symmetric] read st
    using tile_ladder.reading_fresh [OF assms(1)] tile_ladder.reading_later_worse fr hf
    by auto
qed

theorem publish_then_read_witness:
  "read_latest (snd (tile_publish (7::nat) 5 (tile_with_defaults ''cam''))) 3 = Fresh 7"
  using publish_then_read [of "tile_with_defaults ''cam''" 5 3 "7::nat" 3]
  by (simp add: tile_with_defaults_def tile_new_def thresholds_default_ok NEVER_PUBLISHED_def i_simps)

end
