(* ===== verification/Output_Clock.thy ===== *)
theory Output_Clock
  imports Media_Time
begin

text \<open>
  \<open>multiview-engine/src/clock.rs\<close>: the time sources and the output clock, the process-wide
  authority that turns a tick counter into presentation timestamps.

  The locale \<open>tick_timeline\<close> is the contract between a timeline \<open>pts\<close> and the code that
  emits ticks on it: within a downward closed horizon the timeline is strictly increasing.
  Its client lemmas (ascending indices give ascending stamps, the due tick is unique) serve
  the clock and the engine loop. \<open>output_timeline\<close> interprets it on \<open>pts_at\<close>.
\<close>

section \<open>Time sources\<close>

text \<open>\<open>MonotonicTimeSource::now_nanos\<close>, of the elapsed nanoseconds the platform reports.\<close>

definition monotonic_now :: "nat \<Rightarrow> int" where
  "monotonic_now elapsed_nanos =
     (case try_i 64 (int elapsed_nanos) of Some v \<Rightarrow> v | None \<Rightarrow> i_max 64)"

record manual_time_source =
  now_nanos :: int

definition manual_new :: manual_time_source where
  "manual_new = \<lparr>now_nanos = 0\<rparr>"

definition manual_advance :: "nat \<Rightarrow> manual_time_source \<Rightarrow> manual_time_source" where
  "manual_advance delta_nanos s =
     (let add = (case try_i 64 (int delta_nanos) of Some v \<Rightarrow> v | None \<Rightarrow> i_max 64)
      in s\<lparr>now_nanos := wrap_add 64 (now_nanos s) add\<rparr>)"

definition manual_set :: "int \<Rightarrow> manual_time_source \<Rightarrow> manual_time_source" where
  "manual_set nanos s = (let cur = now_nanos s in s\<lparr>now_nanos := max nanos cur\<rparr>)"

lemma monotonic_now_mono: "a \<le> b \<Longrightarrow> monotonic_now a \<le> monotonic_now b"
  by (auto simp: monotonic_now_def split: option.split)

lemma manual_set_mono: "now_nanos s \<le> now_nanos (manual_set n s)"
  by (simp add: manual_set_def Let_def)

section \<open>The output clock\<close>

datatype clock_error = InvalidCadence rational

record output_clock =
  cadence :: rational
  next_index :: nat

definition clock_new :: "rational \<Rightarrow> clock_error + output_clock" where
  "clock_new c =
     (if \<not> is_valid c \<or> num c \<le> 0 \<or> den c \<le> 0 \<or> has_subnanosecond_period c
      then Inl (InvalidCadence c)
      else Inr \<lparr>cadence = c, next_index = 0\<rparr>)"

definition pts_at :: "output_clock \<Rightarrow> nat \<Rightarrow> media_time" where
  "pts_at clk i =
     (let tick = (case try_i 64 (int i) of Some v \<Rightarrow> v | None \<Rightarrow> i_max 64)
      in from_tick tick (cadence clk))"

definition deadline_nanos :: "output_clock \<Rightarrow> nat \<Rightarrow> int \<Rightarrow> int" where
  "deadline_nanos clk i seed_nanos = sat_add 64 seed_nanos (pts_at clk i)"

text \<open>A \<open>Tick\<close>: its index and stamp.\<close>

record clock_tick =
  tick_index :: nat
  tick_pts :: media_time

definition clock_tick_next :: "output_clock \<Rightarrow> clock_tick \<times> output_clock" where
  "clock_tick_next clk =
     (let i = next_index clk; p = pts_at clk i
      in (\<lparr>tick_index = i, tick_pts = p\<rparr>, clk\<lparr>next_index := usat_add 64 (next_index clk) 1\<rparr>))"

definition skip_to :: "nat \<Rightarrow> output_clock \<Rightarrow> output_clock" where
  "skip_to i clk = clk\<lparr>next_index := max (next_index clk) i\<rparr>"

definition tick_period :: "output_clock \<Rightarrow> nat" where
  "tick_period clk = (let ns = max (pts_at clk 1) 0 in nat ns)"

lemma clock_new_Inr:
  assumes "rational_ok c"
  shows "clock_new c = Inr clk \<longleftrightarrow> cadence_ok c \<and> clk = \<lparr>cadence = c, next_index = 0\<rparr>"
  using assms by (auto simp: clock_new_def cadence_ok_def is_valid_def)

text \<open>The horizon of a cadence: the ticks whose exact instant an \<open>i64\<close> can hold.\<close>

definition horizon :: "rational \<Rightarrow> nat \<Rightarrow> bool" where
  "horizon c i \<longleftrightarrow> tick_fits c (int i) \<and> int i \<le> i_max 64"

lemma pts_at_tick: "int i \<le> i_max 64 \<Longrightarrow> pts_at clk i = from_tick (int i) (cadence clk)"
  by (simp add: pts_at_def)

lemma pts_at_exact:
  "cadence_ok (cadence clk) \<Longrightarrow> horizon (cadence clk) i \<Longrightarrow> pts_at clk i = tick_exact (cadence clk) (int i)"
  by (simp add: pts_at_tick horizon_def from_tick_exact)

lemma horizon_down: "cadence_ok c \<Longrightarrow> horizon c j \<Longrightarrow> i \<le> j \<Longrightarrow> horizon c i"
  by (auto simp: horizon_def intro: tick_fits_mono)

lemma tick_exact_0 [simp]: "0 < num c \<Longrightarrow> tick_exact c 0 = 0"
  using rha_mult [of "num c" 0] by (simp add: tick_exact_def)

section \<open>Timelines as an interface\<close>

locale tick_timeline =
  fixes ok :: "'c \<Rightarrow> bool"
    and fits :: "'c \<Rightarrow> nat \<Rightarrow> bool"
    and pts :: "'c \<Rightarrow> nat \<Rightarrow> int"
  assumes pts_strict: "ok c \<Longrightarrow> fits c j \<Longrightarrow> i < j \<Longrightarrow> pts c i < pts c j"
    and fits_down: "ok c \<Longrightarrow> fits c j \<Longrightarrow> i \<le> j \<Longrightarrow> fits c i"
begin

lemma pts_mono: "ok c \<Longrightarrow> fits c j \<Longrightarrow> i \<le> j \<Longrightarrow> pts c i \<le> pts c j"
  using pts_strict [of c j i] by (cases "i = j") auto

lemma pts_less_iff: "ok c \<Longrightarrow> fits c i \<Longrightarrow> fits c j \<Longrightarrow> pts c i < pts c j \<longleftrightarrow> i < j"
  using pts_strict [of c j i] pts_mono [of c i j] by (cases "i < j") auto

lemma pts_ascending:
  assumes "ok c" and "\<forall>i \<in> set is. fits c i" and "sorted_wrt (<) is"
  shows "sorted_wrt (<) (map (pts c) is)"
  using assms(2,3) pts_strict [OF assms(1)] by (induction "is") auto

text \<open>At most one tick is the freshest one due at an instant.\<close>

definition freshest_due :: "'c \<Rightarrow> int \<Rightarrow> nat \<Rightarrow> bool" where
  "freshest_due c e i \<longleftrightarrow> pts c i \<le> e \<and> e < pts c (Suc i)"

lemma freshest_due_unique:
  assumes "ok c" and "fits c (Suc i)" and "fits c (Suc j)"
    and "freshest_due c e i" and "freshest_due c e j"
  shows "i = j"
proof -
  have "i < Suc j" "j < Suc i"
    using assms pts_less_iff [OF assms(1), of i "Suc j"] pts_less_iff [OF assms(1), of j "Suc i"]
      fits_down [OF assms(1,2), of i] fits_down [OF assms(1,3), of j]
    by (auto simp: freshest_due_def)
  then show ?thesis by simp
qed

end

definition clock_ok :: "output_clock \<Rightarrow> bool" where
  "clock_ok clk \<longleftrightarrow> cadence_ok (cadence clk)"

definition clock_fits :: "output_clock \<Rightarrow> nat \<Rightarrow> bool" where
  "clock_fits clk i \<longleftrightarrow> horizon (cadence clk) i"

interpretation output_timeline: tick_timeline clock_ok clock_fits pts_at
proof
  fix clk i j
  assume ok: "clock_ok clk" and fits: "clock_fits clk j"
  show "pts_at clk i < pts_at clk j" if "i < j"
    using ok fits that from_tick_strict_mono [of "cadence clk" "int j" "int i"]
    by (simp add: clock_ok_def clock_fits_def pts_at_tick horizon_def)
  show "clock_fits clk i" if "i \<le> j"
    using ok fits that by (auto simp: clock_ok_def clock_fits_def intro: horizon_down)
qed

section \<open>Sequences of clock operations\<close>

datatype clock_op = OpTick | OpSkip nat

fun clock_run :: "clock_op list \<Rightarrow> output_clock \<Rightarrow> clock_tick list \<times> output_clock" where
  "clock_run [] clk = ([], clk)"
| "clock_run (OpTick # ops) clk =
     (let (t, clk') = clock_tick_next clk; (ts, clk'') = clock_run ops clk' in (t # ts, clk''))"
| "clock_run (OpSkip i # ops) clk = clock_run ops (skip_to i clk)"

lemma clock_tick_next_simps [simp]:
  "cadence (snd (clock_tick_next clk)) = cadence clk"
  "next_index (snd (clock_tick_next clk)) = usat_add 64 (next_index clk) 1"
  "fst (clock_tick_next clk) = \<lparr>tick_index = next_index clk, tick_pts = pts_at clk (next_index clk)\<rparr>"
  by (simp_all add: clock_tick_next_def Let_def)

lemma pts_at_cadence: "cadence a = cadence b \<Longrightarrow> pts_at a = pts_at b"
  by (rule ext) (simp add: pts_at_def)

lemma skip_to_simps [simp]:
  "cadence (skip_to i clk) = cadence clk" "next_index (skip_to i clk) = max (next_index clk) i"
  by (simp_all add: skip_to_def)

lemma clock_run_ticks:
  assumes "\<forall>t \<in> set (fst (clock_run ops clk)). tick_index t + 1 < 2 ^ 64"
  shows "sorted_wrt (<) (map tick_index (fst (clock_run ops clk))) \<and>
     (\<forall>t \<in> set (fst (clock_run ops clk)). next_index clk \<le> tick_index t \<and>
        tick_pts t = pts_at clk (tick_index t))"
  using assms
proof (induction ops clk rule: clock_run.induct)
  case (2 ops clk)
  obtain t clk' where t: "clock_tick_next clk = (t, clk')" by force
  obtain ts clk'' where ts: "clock_run ops clk' = (ts, clk'')" by force
  have t': "t = \<lparr>tick_index = next_index clk, tick_pts = pts_at clk (next_index clk)\<rparr>"
    "cadence clk' = cadence clk" "next_index clk' = usat_add 64 (next_index clk) 1"
    using clock_tick_next_simps [of clk] t by simp_all
  then have n: "next_index clk' = Suc (next_index clk)"
    using 2(2) by (simp add: t ts usat_add_def)
  have "\<forall>t \<in> set (fst (clock_run ops clk')). tick_index t + 1 < 2 ^ 64"
    using 2(2) by (simp add: t ts)
  from 2(1) [OF t [symmetric] refl this]
  have "sorted_wrt (<) (map tick_index ts)"
    "\<forall>t \<in> set ts. Suc (next_index clk) \<le> tick_index t \<and> tick_pts t = pts_at clk (tick_index t)"
    unfolding ts n fst_conv pts_at_cadence [OF t'(2)] by simp_all
  then show ?case
    unfolding clock_run.simps t ts prod.case Let_def fst_conv by (auto simp: t'(1) Suc_le_eq)
next
  case (3 i ops clk)
  then show ?case using pts_at_cadence [of "skip_to i clk" clk] by auto
qed simp

text \<open>The output timeline never stalls, repeats or rewinds. For any clock the constructor
  accepts and any sequence of ticks and skips within its horizon, the emitted indices and the
  emitted presentation timestamps are both strictly increasing.\<close>

theorem clock_strictly_increasing:
  assumes "rational_ok c" and "clock_new c = Inr clk"
    and "\<forall>t \<in> set (fst (clock_run ops clk)). horizon c (tick_index t)"
  shows "sorted_wrt (<) (map tick_index (fst (clock_run ops clk))) \<and>
     sorted_wrt (<) (map tick_pts (fst (clock_run ops clk)))"
proof -
  have c: "cadence clk = c" "clock_ok clk"
    using assms(2) clock_new_Inr [OF assms(1)] by (auto simp: clock_ok_def)
  have "\<forall>t \<in> set (fst (clock_run ops clk)). tick_index t + 1 < 2 ^ 64"
    using assms(3) by (auto simp: horizon_def i_simps)
  from clock_run_ticks [OF this] have r:
    "sorted_wrt (<) (map tick_index (fst (clock_run ops clk)))"
    "map tick_pts (fst (clock_run ops clk)) = map (pts_at clk) (map tick_index (fst (clock_run ops clk)))"
    by auto
  show ?thesis
    unfolding r(2) using r(1) c assms(3)
    by (intro conjI output_timeline.pts_ascending) (auto simp: clock_fits_def)
qed

theorem clock_strictly_increasing_witness:
  "sorted_wrt (<) (map tick_pts (fst (clock_run [OpTick, OpTick, OpSkip 7, OpTick]
     \<lparr>cadence = FPS_29_97, next_index = 0\<rparr>)))"
  using clock_strictly_increasing [of FPS_29_97 "\<lparr>cadence = FPS_29_97, next_index = 0\<rparr>"
      "[OpTick, OpTick, OpSkip 7, OpTick]"]
  by (simp add: FPS_29_97_def rational_ok_def in_i_def i_simps clock_new_def is_valid_def
    has_subnanosecond_period_def sat_mul_def sat_def NANOS_PER_SEC_def horizon_def tick_fits_def
    tick_exact_def rha_def clock_tick_next_def skip_to_def Let_def usat_add_def)

text \<open>C4: No drift, no accumulated error. At every tick of the horizon, however far, the stamp
  is within half a nanosecond of the exact rational instant \<open>index * den / num\<close> seconds, and
  \<open>to_tick\<close> recovers the index from the stamp.\<close>

theorem clock_never_drifts:
  assumes "rational_ok c" and "clock_new c = Inr clk" and "horizon c i"
  shows "2 * \<bar>pts_at clk i * num c - int i * den c * NANOS_PER_SEC\<bar> \<le> num c \<and>
     to_tick (pts_at clk i) c = int i"
proof -
  have c: "cadence clk = c" "cadence_ok c"
    using assms(2) clock_new_Inr [OF assms(1)] by auto
  show ?thesis
    using from_tick_error [OF c(2), of "int i"] to_tick_from_tick_exact [OF c(2), of "int i"] assms(3)
    by (simp add: horizon_def pts_at_tick c(1))
qed

theorem clock_never_drifts_witness:
  "to_tick (pts_at \<lparr>cadence = FPS_23_976, next_index = 0\<rparr> 1000000) FPS_23_976 = 1000000"
  using clock_never_drifts [of FPS_23_976 "\<lparr>cadence = FPS_23_976, next_index = 0\<rparr>" 1000000]
  by (simp add: FPS_23_976_def rational_ok_def in_i_def i_simps clock_new_def is_valid_def
    has_subnanosecond_period_def sat_mul_def sat_def NANOS_PER_SEC_def horizon_def tick_fits_def
    tick_exact_def rha_def)

end
