(* ===== verification/Isolation.thy ===== *)
theory Isolation
  imports Latest_Slot
begin

text \<open>
  \<open>multiview-engine/src/isolation.rs\<close>: the engine's outbound publishers. \<open>LatestState\<close> is the
  single-slot cell; \<open>EventStream\<close> numbers its events and hands them to the broadcast channel
  of the runtime library, which is represented by the list of messages sent to it. Both are
  interpretations of the \<open>seq_publisher\<close> contract.
\<close>

type_synonym 's latest_state = "'s latest_slot"

definition latest_new :: "'s latest_state" where "latest_new = slot_new"

definition latest_publish :: "'s \<Rightarrow> 's latest_state \<Rightarrow> nat \<times> 's latest_state" where
  "latest_publish v s = slot_publish v s"

definition latest_of :: "'s latest_state \<Rightarrow> 's option" where
  "latest_of s = slot_load s"

definition latest_sequence :: "'s latest_state \<Rightarrow> nat" where
  "latest_sequence s = slot_sequence s"

record 'e seq_event =
  event_seq :: nat
  event_payload :: 'e

record 'e event_stream =
  stream_sent :: "'e seq_event list"
  stream_seq :: nat
  stream_capacity :: nat

definition event_stream_new :: "nat \<Rightarrow> 'e event_stream" where
  "event_stream_new capacity = \<lparr>stream_sent = [], stream_seq = 0, stream_capacity = max capacity 1\<rparr>"

definition stream_publish :: "'e \<Rightarrow> 'e event_stream \<Rightarrow> nat \<times> 'e event_stream" where
  "stream_publish v st =
     (let q = (stream_seq st + 1) mod 2 ^ 64
      in (q, st\<lparr>stream_seq := q,
              stream_sent := stream_sent st @ [\<lparr>event_seq = q, event_payload = v\<rparr>]\<rparr>))"

definition stream_sequence :: "'e event_stream \<Rightarrow> nat" where
  "stream_sequence st = stream_seq st"

record ('s, 'e) engine_publisher =
  pub_state :: "'s latest_state"
  pub_events :: "'e event_stream"

definition publisher_new :: "nat \<Rightarrow> ('s, 'e) engine_publisher" where
  "publisher_new event_capacity =
     \<lparr>pub_state = latest_new, pub_events = event_stream_new event_capacity\<rparr>"

definition publish_state :: "'s \<Rightarrow> ('s, 'e) engine_publisher \<Rightarrow> nat \<times> ('s, 'e) engine_publisher" where
  "publish_state v p =
     (let (q, st) = latest_publish v (pub_state p) in (q, p\<lparr>pub_state := st\<rparr>))"

definition publish_event :: "'e \<Rightarrow> ('s, 'e) engine_publisher \<Rightarrow> nat \<times> ('s, 'e) engine_publisher" where
  "publish_event v p =
     (let (q, es) = stream_publish v (pub_events p) in (q, p\<lparr>pub_events := es\<rparr>))"

interpretation state_pub: seq_publisher latest_publish latest_sequence
  by unfold_locales
    (simp_all add: latest_publish_def latest_sequence_def slot_pub.publish_next slot_pub.publish_keeps)

interpretation event_pub: seq_publisher stream_publish stream_sequence
  by unfold_locales (simp_all add: stream_publish_def stream_sequence_def Let_def)

lemma stream_publish_all_sent:
  "map event_payload (stream_sent (snd (event_pub.publish_all vs st))) =
     map event_payload (stream_sent st) @ vs \<and>
   map event_seq (stream_sent (snd (event_pub.publish_all vs st))) =
     map event_seq (stream_sent st) @ fst (event_pub.publish_all vs st)"
  by (induction vs arbitrary: st) (auto simp: case_prod_beta Let_def stream_publish_def)

text \<open>The event stream is gap-free and resumable. Fewer than 2^64 publishes on a fresh
  stream are numbered 1, 2, 3, ... in publish order, so a consumer that sees the sequence
  number jump by more than one knows exactly how many events it missed.\<close>

theorem events_numbered_consecutively:
  assumes "length vs < 2 ^ 64"
  shows "map event_payload (stream_sent (snd (event_pub.publish_all vs (event_stream_new cap)))) = vs \<and>
     map event_seq (stream_sent (snd (event_pub.publish_all vs (event_stream_new cap)))) =
       [1..<length vs + 1]"
  using stream_publish_all_sent [of vs "event_stream_new cap"]
    event_pub.publish_all_seqs [of "event_stream_new cap" vs] assms
  by (simp add: event_stream_new_def stream_sequence_def del: upt_Suc)

theorem events_numbered_consecutively_witness:
  "map event_seq (stream_sent (snd (event_pub.publish_all [True, False] (event_stream_new 0)))) = [1, 2]"
proof -
  have "length [True, False] < 2 ^ 64" by simp
  from events_numbered_consecutively [OF this, of 0] show ?thesis by (simp add: upt_rec)
qed

end
