(* ===== verification/Engine_Runtime.thy ===== *)
theory Engine_Runtime
  imports Output_Clock Isolation
begin

text \<open>
  \<open>multiview-engine/src/runtime.rs\<close>: the drive loop of the engine. One call of \<open>engine_step\<close>
  is one observation of the environment: the time source, the stop signal and, when a frame
  is composed, the outcome of the compositor. Waiting for a deadline is a phase that polls
  the pacer, so a wait that takes any number of polls is any number of steps.

  The locale \<open>pacer\<close> is the contract of the \<open>Pacer\<close> trait: it returns exactly when the time
  source has reached the deadline or a stop is raised. Both shipped pacers interpret it.
\<close>

section \<open>Pacers\<close>

datatype pacer_poll = PacerReturn | PacerSleep nat | PacerYield

definition PACER_STOP_POLL :: nat where "PACER_STOP_POLL = 10000000"

definition realtime_poll :: "int \<Rightarrow> int \<Rightarrow> bool \<Rightarrow> pacer_poll" where
  "realtime_poll deadline now stopped =
     (if stopped then PacerReturn
      else let remaining = sat_sub 64 deadline now
           in if remaining \<le> 0 then PacerReturn
              else PacerSleep (min (nat remaining) PACER_STOP_POLL))"

definition cooperative_poll :: "int \<Rightarrow> int \<Rightarrow> bool \<Rightarrow> pacer_poll" where
  "cooperative_poll deadline now stopped =
     (if now < deadline then (if stopped then PacerReturn else PacerYield) else PacerReturn)"

locale pacer =
  fixes poll :: "int \<Rightarrow> int \<Rightarrow> bool \<Rightarrow> pacer_poll"
  assumes poll_returns: "poll d now stopped = PacerReturn \<longleftrightarrow> d \<le> now \<or> stopped"
    and poll_sleeps: "poll d now stopped = PacerSleep k \<Longrightarrow> 0 < k \<and> k \<le> PACER_STOP_POLL \<and> now + int k \<le> d"
begin

lemma poll_due: "poll d now False = PacerReturn \<longleftrightarrow> d \<le> now"
  by (simp add: poll_returns)

lemma poll_never_oversleeps: "poll d now stopped = PacerSleep k \<Longrightarrow> now < d \<and> \<not> stopped"
  using poll_returns [of d now stopped] poll_sleeps [of d now stopped k] by auto

end

lemma sat_nonpos_iff: "sat w x \<le> 0 \<longleftrightarrow> x \<le> 0 \<or> i_max w = 0"
  using i_min_neg [of w] i_max_nonneg [of w] unfolding sat_def by linarith

interpretation realtime: pacer realtime_poll
proof
  fix d now :: int and stopped k
  have [simp]: "i_max 64 \<noteq> 0" by (simp add: i_simps)
  show "realtime_poll d now stopped = PacerReturn \<longleftrightarrow> d \<le> now \<or> stopped"
    by (auto simp: realtime_poll_def Let_def sat_sub_def sat_nonpos_iff)
  assume s: "realtime_poll d now stopped = PacerSleep k"
  then have k: "k = min (nat (sat 64 (d - now))) PACER_STOP_POLL" "0 < sat 64 (d - now)"
    by (auto simp: realtime_poll_def Let_def sat_sub_def split: if_splits)
  then have "0 < d - now" using sat_nonpos_iff [of 64 "d - now"] by auto
  then have "sat 64 (d - now) \<le> d - now" by (intro sat_le_self) simp
  with k show "0 < k \<and> k \<le> PACER_STOP_POLL \<and> now + int k \<le> d"
    by (auto simp: PACER_STOP_POLL_def)
qed

interpretation cooperative: pacer cooperative_poll
  by unfold_locales (auto simp: cooperative_poll_def split: if_splits)

section \<open>State of the loop\<close>

definition MAX_REPEATS_PER_TICK :: nat where "MAX_REPEATS_PER_TICK = 120"

datatype run_stop = Stopped | Completed

record run_outcome =
  outcome_ticks :: nat
  outcome_stop :: run_stop

record 'f composited_frame =
  frame_tick :: clock_tick
  frame_payload :: 'f

text \<open>Where the loop is: the phases between two observations of the environment.\<close>

datatype phase =
  LoopTop | Waiting | Woken | Repeating nat | Composing | Returned run_outcome | ComposeFailed

text \<open>The record of one publish: its tick, the instant observed, and whether it is fresh.\<close>

record emission =
  em_tick :: clock_tick
  em_at :: int
  em_fresh :: bool

record ('f, 's, 'e) engine =
  eng_clock :: output_clock
  eng_seed :: int
  eng_last_good :: "'f composited_frame option"
  eng_emitted :: nat
  eng_ticks_emitted :: nat
  eng_frames_repeated :: nat
  eng_publisher :: "('s, 'e) engine_publisher"
  eng_phase :: phase
  eng_log :: "emission list"

record 'f env =
  env_now :: int
  env_stopped :: bool
  env_composed :: "'f option"

record ('f, 's, 'e) engine_config =
  cfg_poll :: "int \<Rightarrow> int \<Rightarrow> bool \<Rightarrow> pacer_poll"
  cfg_max_ticks :: "nat option"
  cfg_state_of :: "'f composited_frame \<Rightarrow> 's"
  cfg_event_of :: "'f composited_frame \<Rightarrow> 'e option"

definition engine_new :: "output_clock \<Rightarrow> int \<Rightarrow> nat \<Rightarrow> ('f, 's, 'e) engine" where
  "engine_new clk now cap =
     \<lparr>eng_clock = clk, eng_seed = now, eng_last_good = None, eng_emitted = 0,
      eng_ticks_emitted = 0, eng_frames_repeated = 0, eng_publisher = publisher_new cap,
      eng_phase = LoopTop, eng_log = []\<rparr>"

definition next_deadline_nanos :: "('f, 's, 'e) engine \<Rightarrow> int" where
  "next_deadline_nanos s = deadline_nanos (eng_clock s) (next_index (eng_clock s)) (eng_seed s)"

section \<open>Resynchronising to the wall clock\<close>

definition cap_resync_floor :: "output_clock \<Rightarrow> int \<Rightarrow> int \<Rightarrow> nat \<Rightarrow> nat" where
  "cap_resync_floor clk seed now nxt =
     (let c = cadence clk
      in if num c \<le> 0 \<or> den c \<le> 0 then nxt
         else
           let elapsed = max (sat_sub 64 now seed) 0;
               denom = sat_mul 128 1000000000 (den c);
               est = sat_mul 128 elapsed (num c) sdiv denom;
               floor_idx = max (if 0 \<le> est \<and> est < 2 ^ 64 then nat est else 0) nxt
           in if deadline_nanos clk (usat_add 64 floor_idx 1) seed \<le> now
              then usat_add 64 floor_idx 1
              else if nxt < floor_idx \<and> now < deadline_nanos clk floor_idx seed
              then floor_idx - 1
              else floor_idx)"

section \<open>The step\<close>

definition publish_frame ::
  "('f, 's, 'e) engine_config \<Rightarrow> 'f composited_frame \<Rightarrow> ('s, 'e) engine_publisher \<Rightarrow> ('s, 'e) engine_publisher" where
  "publish_frame cfg frame p =
     (let p1 = snd (publish_state (cfg_state_of cfg frame) p)
      in case cfg_event_of cfg frame of
           Some ev \<Rightarrow> snd (publish_event ev p1)
         | None \<Rightarrow> p1)"

definition max_reached :: "('f, 's, 'e) engine_config \<Rightarrow> ('f, 's, 'e) engine \<Rightarrow> bool" where
  "max_reached cfg s \<longleftrightarrow>
     (case cfg_max_ticks cfg of Some m \<Rightarrow> m \<le> eng_emitted s | None \<Rightarrow> False)"

definition finish :: "run_stop \<Rightarrow> ('f, 's, 'e) engine \<Rightarrow> ('f, 's, 'e) engine" where
  "finish r s = s\<lparr>eng_phase := Returned \<lparr>outcome_ticks = eng_emitted s, outcome_stop = r\<rparr>\<rparr>"

definition repeat_step ::
  "('f, 's, 'e) engine_config \<Rightarrow> 'f env \<Rightarrow> nat \<Rightarrow> ('f, 's, 'e) engine \<Rightarrow> ('f, 's, 'e) engine" where
  "repeat_step cfg e repeats s =
     (if env_stopped e then finish Stopped s
      else if max_reached cfg s then finish Completed s
      else
        let nxt = next_index (eng_clock s); now = env_now e
        in if now < deadline_nanos (eng_clock s) (usat_add 64 nxt 1) (eng_seed s)
           then s\<lparr>eng_phase := Composing\<rparr>
           else if MAX_REPEATS_PER_TICK \<le> repeats
           then s\<lparr>eng_clock := skip_to (cap_resync_floor (eng_clock s) (eng_seed s) now nxt) (eng_clock s),
                  eng_phase := Composing\<rparr>
           else
             let (repeat_tick, clk') = clock_tick_next (eng_clock s)
             in case eng_last_good s of
                  None \<Rightarrow> s\<lparr>eng_clock := clk', eng_phase := Composing\<rparr>
                | Some last_frame \<Rightarrow>
                    let frame = last_frame\<lparr>frame_tick := repeat_tick\<rparr>
                    in s\<lparr>eng_clock := clk',
                         eng_last_good := Some frame,
                         eng_publisher := publish_frame cfg frame (eng_publisher s),
                         eng_emitted := usat_add 64 (eng_emitted s) 1,
                         eng_ticks_emitted := (eng_ticks_emitted s + 1) mod 2 ^ 64,
                         eng_frames_repeated := (eng_frames_repeated s + 1) mod 2 ^ 64,
                         eng_phase := Repeating (usat_add 32 repeats 1),
                         eng_log := \<lparr>em_tick = repeat_tick, em_at = now, em_fresh = False\<rparr> # eng_log s\<rparr>)"

definition compose_step ::
  "('f, 's, 'e) engine_config \<Rightarrow> 'f env \<Rightarrow> ('f, 's, 'e) engine \<Rightarrow> ('f, 's, 'e) engine" where
  "compose_step cfg e s =
     (let (tick, clk') = clock_tick_next (eng_clock s)
      in case env_composed e of
           None \<Rightarrow> s\<lparr>eng_clock := clk', eng_phase := ComposeFailed\<rparr>
         | Some f \<Rightarrow>
             let frame = \<lparr>frame_tick = tick, frame_payload = f\<rparr>
             in s\<lparr>eng_clock := clk',
                  eng_publisher := publish_frame cfg frame (eng_publisher s),
                  eng_last_good := Some frame,
                  eng_emitted := usat_add 64 (eng_emitted s) 1,
                  eng_ticks_emitted := (eng_ticks_emitted s + 1) mod 2 ^ 64,
                  eng_phase := LoopTop,
                  eng_log := \<lparr>em_tick = tick, em_at = env_now e, em_fresh = True\<rparr> # eng_log s\<rparr>)"

definition engine_step ::
  "('f, 's, 'e) engine_config \<Rightarrow> 'f env \<Rightarrow> ('f, 's, 'e) engine \<Rightarrow> ('f, 's, 'e) engine" where
  "engine_step cfg e s =
     (case eng_phase s of
        LoopTop \<Rightarrow>
          (if env_stopped e then finish Stopped s
           else if max_reached cfg s then finish Completed s
           else s\<lparr>eng_phase := Waiting\<rparr>)
      | Waiting \<Rightarrow>
          (case cfg_poll cfg (next_deadline_nanos s) (env_now e) (env_stopped e) of
             PacerReturn \<Rightarrow> s\<lparr>eng_phase := Woken\<rparr>
           | _ \<Rightarrow> s)
      | Woken \<Rightarrow>
          (if env_stopped e then finish Stopped s
           else if eng_last_good s \<noteq> None then s\<lparr>eng_phase := Repeating 0\<rparr>
           else s\<lparr>eng_phase := Composing\<rparr>)
      | Repeating repeats \<Rightarrow> repeat_step cfg e repeats s
      | Composing \<Rightarrow> compose_step cfg e s
      | Returned outcome \<Rightarrow> s
      | ComposeFailed \<Rightarrow> s)"

definition engine_run ::
  "('f, 's, 'e) engine_config \<Rightarrow> 'f env list \<Rightarrow> ('f, 's, 'e) engine \<Rightarrow> ('f, 's, 'e) engine" where
  "engine_run cfg es s = fold (engine_step cfg) es s"

text \<open>Entering the loop: \<open>run_inner\<close> starts its locals afresh; the public entries fix the limit.\<close>

definition run_inner ::
  "nat option \<Rightarrow> ('f, 's, 'e) engine_config \<Rightarrow> 'f env list \<Rightarrow> ('f, 's, 'e) engine \<Rightarrow> ('f, 's, 'e) engine" where
  "run_inner max_ticks cfg es s =
     engine_run (cfg\<lparr>cfg_max_ticks := max_ticks\<rparr>) es
       (s\<lparr>eng_emitted := 0, eng_last_good := None, eng_phase := LoopTop\<rparr>)"

definition run_forever ::
  "('f, 's, 'e) engine_config \<Rightarrow> 'f env list \<Rightarrow> ('f, 's, 'e) engine \<Rightarrow> ('f, 's, 'e) engine" where
  "run_forever cfg es s = run_inner None cfg es s"

definition run_for ::
  "nat \<Rightarrow> ('f, 's, 'e) engine_config \<Rightarrow> 'f env list \<Rightarrow> ('f, 's, 'e) engine \<Rightarrow> ('f, 's, 'e) engine" where
  "run_for n cfg es s = run_inner (Some n) cfg es s"

lemma run_for_fresh:
  "run_for n cfg es (engine_new clk seed cap) =
     engine_run (cfg\<lparr>cfg_max_ticks := Some n\<rparr>) es (engine_new clk seed cap)"
  by (simp add: run_for_def run_inner_def engine_new_def)

lemma run_forever_fresh:
  "run_forever cfg es (engine_new clk seed cap) =
     engine_run (cfg\<lparr>cfg_max_ticks := None\<rparr>) es (engine_new clk seed cap)"
  by (simp add: run_forever_def run_inner_def engine_new_def)

section \<open>The wall-clock horizon\<close>

text \<open>
  An index \<open>H\<close> bounds a run when its deadline is representable; a run observed before that
  deadline then computes every deadline exactly.
\<close>

definition run_horizon :: "output_clock \<Rightarrow> int \<Rightarrow> nat \<Rightarrow> bool" where
  "run_horizon clk seed H \<longleftrightarrow>
     cadence_ok (cadence clk) \<and> 0 \<le> seed \<and> horizon (cadence clk) H \<and>
     seed + tick_exact (cadence clk) (int H) \<le> i_max 64"

lemma tick_exact_mono: "cadence_ok c \<Longrightarrow> 0 \<le> s \<Longrightarrow> s \<le> t \<Longrightarrow> tick_exact c s \<le> tick_exact c t"
  using tick_exact_strict [of c s t] by (cases "s = t") auto

lemma tick_exact_nonneg: "cadence_ok c \<Longrightarrow> 0 \<le> t \<Longrightarrow> 0 \<le> tick_exact c t"
  using tick_exact_mono [of c 0 t] cadence_okD(1) [of c] by simp

lemma deadline_exact:
  assumes "run_horizon clk seed H" and "i \<le> H"
  shows "deadline_nanos clk i seed = seed + tick_exact (cadence clk) (int i)"
proof -
  have c: "cadence_ok (cadence clk)" using assms(1) by (simp add: run_horizon_def)
  have "horizon (cadence clk) i"
    using assms by (auto simp: run_horizon_def intro: horizon_down)
  then have "pts_at clk i = tick_exact (cadence clk) (int i)"
    using c by (simp add: pts_at_exact)
  moreover have "0 \<le> tick_exact (cadence clk) (int i)" "tick_exact (cadence clk) (int i) \<le> tick_exact (cadence clk) (int H)"
    using c assms(2) by (simp_all add: tick_exact_nonneg tick_exact_mono)
  moreover have "in_i 64 (seed + tick_exact (cadence clk) (int i))"
    using calculation assms(1) i_min_neg [of 64] unfolding run_horizon_def in_i_def by linarith
  ultimately show ?thesis by (simp add: deadline_nanos_def sat_add_def)
qed

lemma deadline_less_iff:
  assumes "run_horizon clk seed H" and "i \<le> H" and "j \<le> H"
  shows "deadline_nanos clk i seed < deadline_nanos clk j seed \<longleftrightarrow> i < j"
  using tick_exact_strict [of "cadence clk" "int i" "int j"]
    tick_exact_mono [of "cadence clk" "int j" "int i"] assms(1)
  by (cases "i < j") (auto simp: deadline_exact [OF assms(1)] assms run_horizon_def)

lemma run_horizon_u64: "run_horizon clk seed H \<Longrightarrow> i \<le> H \<Longrightarrow> i < 2 ^ 63"
  by (auto simp: run_horizon_def horizon_def i_simps)

lemma usat_Suc: "i < 2 ^ 63 \<Longrightarrow> usat_add 64 i 1 = Suc i"
  by (simp add: usat_add_def)

text \<open>The exact rational estimate is the floor tick or one below it.\<close>

lemma estimate_brackets:
  assumes "cadence_ok c" and "0 \<le> e"
  defines "est \<equiv> e * num c div (den c * NANOS_PER_SEC)"
  shows "0 \<le> est" "tick_exact c est \<le> e" "e \<le> tick_exact c (est + 1)" "e < tick_exact c (est + 2)"
proof -
  note c = cadence_okD [OF assms(1)]
  define d where "d = den c * NANOS_PER_SEC"
  have d: "0 < d" using c by (simp add: d_def NANOS_PER_SEC_def)
  show est0: "0 \<le> est"
    using assms(2) c d by (simp add: est_def d_def pos_imp_zdiv_nonneg_iff)
  have b: "est * d \<le> e * num c" "e * num c < (est + 1) * d"
    using div_bounds [OF d, of "e * num c"] by (simp_all add: est_def d_def algebra_simps)
  have "rha (est * d) (num c) \<le> rha (e * num c) (num c)"
    using c b est0 d by (intro rha_mono_nonneg) simp_all
  then show "tick_exact c est \<le> e"
    using c by (simp add: tick_exact_def d_def mult.assoc)
  have "rha (e * num c) (num c) \<le> rha ((est + 1) * d) (num c)"
    using c b assms(2) by (intro rha_mono_nonneg) simp_all
  then show e1: "e \<le> tick_exact c (est + 1)"
    using c by (simp add: tick_exact_def d_def mult.assoc)
  have "tick_exact c (est + 1) < tick_exact c (est + 2)"
    using est0 by (intro tick_exact_strict assms(1)) simp_all
  with e1 show "e < tick_exact c (est + 2)" by simp
qed

lemma cap_resync_exact:
  assumes h: "run_horizon clk seed H" and now: "now < deadline_nanos clk H seed"
    and due: "deadline_nanos clk (Suc nxt) seed \<le> now" and nxt: "Suc nxt \<le> H"
  shows "nxt < cap_resync_floor clk seed now nxt" "cap_resync_floor clk seed now nxt < H"
    "deadline_nanos clk (cap_resync_floor clk seed now nxt) seed \<le> now"
    "now < deadline_nanos clk (Suc (cap_resync_floor clk seed now nxt)) seed"
proof -
  define c where "c = cadence clk"
  define e where "e = now - seed"
  define est where "est = e * num c div (den c * NANOS_PER_SEC)"
  have ok: "cadence_ok c" and s0: "0 \<le> seed" using h by (simp_all add: run_horizon_def c_def)
  note cd = cadence_okD [OF ok]
  note dl = deadline_exact [OF h, folded c_def]
  have e: "0 \<le> e" "e < tick_exact c (int H)" "tick_exact c (int (Suc nxt)) \<le> e"
    using due now nxt tick_exact_nonneg [OF ok, of "int (Suc nxt)"] dl [OF nxt] dl [of H]
    by (simp_all add: e_def)
  note est = estimate_brackets [OF ok e(1), folded est_def]
  have estH: "est < int H"
    using tick_exact_mono [OF ok, of "int H" est] est(2) e(2) by (cases "est < int H") auto
  have nxt_est: "int nxt \<le> est"
    using tick_exact_mono [OF ok, of "est + 2" "int (Suc nxt)"] est(1,4) e(3)
    by (cases "int nxt \<le> est") auto
  define m where "m = nat est"
  have m: "est = int m" "nxt \<le> m" "m < H" using est(1) estH nxt_est by (simp_all add: m_def)
  have e63: "e \<le> i_max 64"
    using now s0 e(2) h dl [of H] unfolding run_horizon_def c_def [symmetric] by (simp add: e_def)
  have "in_i 64 e" using e(1) e63 i_min_neg [of 64] unfolding in_i_def by linarith
  then have "max (sat_sub 64 now seed) 0 = e" using e(1) by (simp add: sat_sub_def e_def)
  moreover have "in_i 128 (e * num c)"
  proof -
    have "e * num c \<le> i_max 64 * i_max 64" using e63 e(1) cd by (intro mult_mono) simp_all
    also have "\<dots> \<le> i_max 128" by (simp add: i_simps)
    finally show ?thesis using e(1) cd by (intro in_i_abs) simp
  qed
  moreover have "in_i 128 (1000000000 * den c)"
    using cd by (auto simp: in_i_def i_simps)
  moreover have "e * num c sdiv (1000000000 * den c) = est"
    using e(1) cd by (subst sdiv_nonneg) (simp_all add: est_def NANOS_PER_SEC_def mult.commute)
  ultimately have f: "cap_resync_floor clk seed now nxt =
      (if deadline_nanos clk (usat_add 64 m 1) seed \<le> now then usat_add 64 m 1
       else if nxt < m \<and> now < deadline_nanos clk m seed then m - 1 else m)"
    using cd m run_horizon_u64 [OF h, of m]
    by (simp add: cap_resync_floor_def c_def [symmetric] Let_def sat_mul_def max_absorb1)
  have Suc_m: "usat_add 64 m 1 = Suc m"
    using run_horizon_u64 [OF h, of m] m(3) by (intro usat_Suc) simp
  have dm: "deadline_nanos clk m seed \<le> now"
    using est(2) m(1,3) dl [of m] by (simp add: e_def)
  show "nxt < cap_resync_floor clk seed now nxt" "cap_resync_floor clk seed now nxt < H"
    "deadline_nanos clk (cap_resync_floor clk seed now nxt) seed \<le> now"
    "now < deadline_nanos clk (Suc (cap_resync_floor clk seed now nxt)) seed"
  proof -
    show g: "cap_resync_floor clk seed now nxt < H"
      using f Suc_m dm m(3) now deadline_less_iff [OF h, of "Suc m" H] by (auto split: if_splits)
    show "deadline_nanos clk (cap_resync_floor clk seed now nxt) seed \<le> now"
      using f Suc_m dm by auto
    show "nxt < cap_resync_floor clk seed now nxt"
      using f Suc_m dm m(2) due by (cases "nxt = m") auto
    have "Suc m < H \<Longrightarrow> now < deadline_nanos clk (Suc (Suc m)) seed"
      using est(4) m(1) dl [of "Suc (Suc m)"] by (simp add: e_def add.commute)
    then show "now < deadline_nanos clk (Suc (cap_resync_floor clk seed now nxt)) seed"
      using f Suc_m dm g by (auto split: if_splits)
  qed
qed

section \<open>The invariant of the loop\<close>

abbreviation em_index :: "emission \<Rightarrow> nat" where
  "em_index x \<equiv> tick_index (em_tick x)"

text \<open>A log, newest first, that ends in the maximal run of repeats.\<close>

definition capped :: "emission list \<Rightarrow> bool" where
  "capped l \<longleftrightarrow> MAX_REPEATS_PER_TICK \<le> length l \<and> (\<forall>x \<in> set (take MAX_REPEATS_PER_TICK l). \<not> em_fresh x)"

text \<open>Ticks are consecutive, except that a fresh frame may skip ahead after such a run.\<close>

fun gaps_ok :: "emission list \<Rightarrow> bool" where
  "gaps_ok (e # f # l) \<longleftrightarrow>
     (em_index e = Suc (em_index f) \<or> (em_fresh e \<and> capped (f # l))) \<and> gaps_ok (f # l)"
| "gaps_ok l \<longleftrightarrow> True"

lemma gaps_ok_tl: "gaps_ok (e # l) \<Longrightarrow> gaps_ok l"
  by (cases l) auto

definition follows :: "nat \<Rightarrow> emission list \<Rightarrow> bool" where
  "follows n l \<longleftrightarrow> (case l of [] \<Rightarrow> True | e # _ \<Rightarrow> n = Suc (em_index e))"

definition log_ok :: "output_clock \<Rightarrow> int \<Rightarrow> nat \<Rightarrow> emission list \<Rightarrow> bool" where
  "log_ok clk seed n l \<longleftrightarrow>
     (\<forall>x \<in> set l. em_index x < n \<and> tick_pts (em_tick x) = pts_at clk (em_index x) \<and>
        deadline_nanos clk (em_index x) seed \<le> em_at x) \<and>
     sorted_wrt (\<lambda>a b. em_index b < em_index a) l \<and> gaps_ok l"

definition phase_ok :: "int \<Rightarrow> bool \<Rightarrow> ('f, 's, 'e) engine \<Rightarrow> bool" where
  "phase_ok wall stopped s \<longleftrightarrow>
     (let n = next_index (eng_clock s); l = eng_log s; due = next_deadline_nanos s \<le> wall in
      (case eng_phase s of
         LoopTop \<Rightarrow> follows n l
       | Waiting \<Rightarrow> follows n l
       | Woken \<Rightarrow> follows n l \<and> (due \<or> stopped)
       | Repeating r \<Rightarrow> follows n l \<and> due \<and> eng_last_good s \<noteq> None \<and>
           r \<le> MAX_REPEATS_PER_TICK \<and> r \<le> length l \<and> (\<forall>x \<in> set (take r l). \<not> em_fresh x)
       | Composing \<Rightarrow> due \<and> (follows n l \<or> capped l)
       | _ \<Rightarrow> True))"

definition loop_inv :: "output_clock \<Rightarrow> int \<Rightarrow> nat \<Rightarrow> int \<Rightarrow> bool \<Rightarrow> ('f, 's, 'e) engine \<Rightarrow> bool" where
  "loop_inv clk seed H wall stopped s \<longleftrightarrow>
     cadence (eng_clock s) = cadence clk \<and> eng_seed s = seed \<and> next_index (eng_clock s) \<le> H \<and>
     log_ok clk seed (next_index (eng_clock s)) (eng_log s) \<and> phase_ok wall stopped s"

lemma deadline_cadence: "cadence a = cadence b \<Longrightarrow> deadline_nanos a = deadline_nanos b"
  by (intro ext) (simp add: deadline_nanos_def pts_at_def)

lemma cap_cadence: "cadence a = cadence b \<Longrightarrow> cap_resync_floor a = cap_resync_floor b"
  by (intro ext) (simp add: cap_resync_floor_def Let_def deadline_cadence [of a b])

lemma log_ok_mono: "log_ok clk seed n l \<Longrightarrow> n \<le> m \<Longrightarrow> log_ok clk seed m l"
  by (auto simp: log_ok_def)

lemma log_ok_push:
  assumes "log_ok clk seed n l" and "follows n l \<or> (em_fresh e \<and> capped l)"
    and "em_index e = n" and "tick_pts (em_tick e) = pts_at clk n"
    and "deadline_nanos clk n seed \<le> em_at e"
  shows "log_ok clk seed (Suc n) (e # l)"
  using assms by (cases l) (auto simp: log_ok_def follows_def)

lemma follows_push [simp]: "em_index e = n \<Longrightarrow> follows (Suc n) (e # l)"
  by (simp add: follows_def)

lemma clock_tick_next_eq:
  "clock_tick_next clk = (\<lparr>tick_index = next_index clk, tick_pts = pts_at clk (next_index clk)\<rparr>,
     clk\<lparr>next_index := usat_add 64 (next_index clk) 1\<rparr>)"
  by (simp add: clock_tick_next_def Let_def)

lemma next_deadline_simps:
  "cadence (eng_clock s) = cadence clk \<Longrightarrow>
     next_deadline_nanos s = deadline_nanos clk (next_index (eng_clock s)) (eng_seed s)"
  using deadline_cadence [of "eng_clock s" clk] by (simp add: next_deadline_nanos_def)

lemma due_below_horizon:
  assumes "run_horizon clk seed H" and "n \<le> H" and "deadline_nanos clk n seed \<le> w"
    and "w < deadline_nanos clk H seed"
  shows "n < H"
  using assms by (cases "n = H") auto

lemma repeat_inv:
  assumes h: "run_horizon clk seed H" and inv: "loop_inv clk seed H wall stopped s"
    and ph: "eng_phase s = Repeating r" and w: "wall \<le> env_now e" "env_now e < deadline_nanos clk H seed"
  shows "loop_inv clk seed H (env_now e) (env_stopped e) (repeat_step cfg e r s) \<and>
     (eng_phase (repeat_step cfg e r s) = Composing \<longrightarrow>
        env_now e < deadline_nanos clk (Suc (next_index (eng_clock (repeat_step cfg e r s)))) seed)"
proof -
  define n where "n = next_index (eng_clock s)"
  have cad: "cadence (eng_clock s) = cadence clk" and seed: "eng_seed s = seed" and nH: "n \<le> H"
    and log: "log_ok clk seed n (eng_log s)" and fol: "follows n (eng_log s)"
    and due: "deadline_nanos clk n seed \<le> env_now e" and lg: "eng_last_good s \<noteq> None"
    and r: "r \<le> MAX_REPEATS_PER_TICK" "r \<le> length (eng_log s)" "\<forall>x \<in> set (take r (eng_log s)). \<not> em_fresh x"
    using inv ph w deadline_cadence [of "eng_clock s" clk]
    by (auto simp: loop_inv_def phase_ok_def n_def Let_def next_deadline_nanos_def)
  note dc = deadline_cadence [OF cad] and cc = cap_cadence [OF cad] and pc = pts_at_cadence [OF cad]
  have nlt: "n < H" using due_below_horizon [OF h nH due w(2)] .
  have "usat_add 64 n 1 = Suc n" using run_horizon_u64 [OF h nH] by (rule usat_Suc)
  then have n1: "usat_add 64 n 1 = Suc n" "usat_add 64 n (Suc 0) = Suc n" by simp_all
  show ?thesis
  proof (cases "env_stopped e \<or> max_reached cfg s")
    case True
    then have "repeat_step cfg e r s = finish Stopped s \<or> repeat_step cfg e r s = finish Completed s"
      by (auto simp: repeat_step_def)
    then show ?thesis
      using cad seed nH log by (auto simp: loop_inv_def finish_def phase_ok_def n_def Let_def)
  next
    case False
    consider (fresh) "env_now e < deadline_nanos clk (Suc n) seed"
      | (cap) "deadline_nanos clk (Suc n) seed \<le> env_now e" "r = MAX_REPEATS_PER_TICK"
      | (again) "deadline_nanos clk (Suc n) seed \<le> env_now e" "r < MAX_REPEATS_PER_TICK"
      using r(1) by linarith
    then show ?thesis
    proof cases
      case fresh
      then have "repeat_step cfg e r s = s\<lparr>eng_phase := Composing\<rparr>"
        using False by (simp add: repeat_step_def Let_def n_def [symmetric] n1 dc seed)
      then show ?thesis
        using cad seed nH log fol due fresh
        by (simp add: loop_inv_def phase_ok_def n_def Let_def next_deadline_simps)
    next
      case cap
      define f where "f = cap_resync_floor clk seed (env_now e) n"
      have f: "n < f" "f < H" "deadline_nanos clk f seed \<le> env_now e"
        "env_now e < deadline_nanos clk (Suc f) seed"
        unfolding f_def by (rule cap_resync_exact [OF h w(2) cap(1)], use nlt in simp)+
      define s' where "s' = repeat_step cfg e r s"
      have s': "cadence (eng_clock s') = cadence clk" "next_index (eng_clock s') = f"
        "eng_seed s' = seed" "eng_log s' = eng_log s" "eng_phase s' = Composing"
      proof -
        have "s' = s\<lparr>eng_clock := skip_to f (eng_clock s), eng_phase := Composing\<rparr>"
          using False cap
          by (simp add: s'_def repeat_step_def Let_def n_def [symmetric] n1 dc cc seed f_def)
        then show "cadence (eng_clock s') = cadence clk" "next_index (eng_clock s') = f"
          "eng_seed s' = seed" "eng_log s' = eng_log s" "eng_phase s' = Composing"
          using f(1) unfolding n_def by (simp_all add: cad seed)
      qed
      have d: "next_deadline_nanos s' = deadline_nanos clk f seed"
        using next_deadline_simps [OF s'(1)] s' by simp
      have "capped (eng_log s)" using r cap(2) by (simp add: capped_def)
      moreover have "log_ok clk seed f (eng_log s)" using f(1) by (intro log_ok_mono [OF log]) simp
      ultimately show ?thesis
        unfolding s'_def [symmetric] using f(2-4)
        by (simp add: loop_inv_def phase_ok_def Let_def s' d)
    next
      case again
      obtain fr where fr: "eng_last_good s = Some fr" using lg by auto
      have r32: "usat_add 32 r 1 = Suc r" "usat_add 32 r (Suc 0) = Suc r"
        using again(2) by (simp_all add: usat_add_def MAX_REPEATS_PER_TICK_def)
      define t where "t = \<lparr>tick_index = n, tick_pts = pts_at clk n\<rparr>"
      define em where "em = \<lparr>em_tick = t, em_at = env_now e, em_fresh = False\<rparr>"
      define s' where "s' = repeat_step cfg e r s"
      have s': "eng_clock s' = (eng_clock s)\<lparr>next_index := Suc n\<rparr>" "eng_seed s' = seed"
        "eng_log s' = em # eng_log s" "eng_phase s' = Repeating (Suc r)" "eng_last_good s' \<noteq> None"
        using False again fr
        by (simp_all add: s'_def repeat_step_def Let_def n_def [symmetric] n1 dc seed pc
          clock_tick_next_eq em_def t_def r32)
      have "log_ok clk seed (Suc n) (em # eng_log s)"
        using log fol due by (intro log_ok_push) (simp_all add: em_def t_def)
      moreover have "follows (Suc n) (em # eng_log s)" by (simp add: em_def t_def)
      moreover have "\<forall>x \<in> set (take (Suc r) (em # eng_log s)). \<not> em_fresh x"
        using r(3) by (simp add: em_def)
      ultimately show ?thesis
        unfolding s'_def [symmetric]
        using cad nlt again r(2) s'(5)
        by (simp add: loop_inv_def phase_ok_def Let_def next_deadline_simps s' Suc_le_eq)
    qed
  qed
qed

lemma compose_inv:
  assumes h: "run_horizon clk seed H" and inv: "loop_inv clk seed H wall stopped s"
    and ph: "eng_phase s = Composing" and w: "wall \<le> env_now e" "env_now e < deadline_nanos clk H seed"
  shows "loop_inv clk seed H (env_now e) (env_stopped e) (compose_step cfg e s)"
proof -
  define n where "n = next_index (eng_clock s)"
  have cad: "cadence (eng_clock s) = cadence clk" and seed: "eng_seed s = seed" and nH: "n \<le> H"
    and log: "log_ok clk seed n (eng_log s)" and fol: "follows n (eng_log s) \<or> capped (eng_log s)"
    and due: "deadline_nanos clk n seed \<le> env_now e"
    using inv ph w deadline_cadence [of "eng_clock s" clk]
    by (auto simp: loop_inv_def phase_ok_def n_def Let_def next_deadline_nanos_def)
  have nlt: "n < H" using due_below_horizon [OF h nH due w(2)] .
  have n1: "usat_add 64 n 1 = Suc n" using run_horizon_u64 [OF h nH] by (rule usat_Suc)
  note tick = clock_tick_next_eq [of "eng_clock s", folded n_def, unfolded n1 pts_at_cadence [OF cad]]
  show ?thesis
  proof (cases "env_composed e")
    case None
    then show ?thesis
      using cad seed nlt log_ok_mono [OF log, of "Suc n"]
      by (simp add: compose_step_def Let_def tick loop_inv_def phase_ok_def)
  next
    case (Some f)
    define t where "t = \<lparr>tick_index = n, tick_pts = pts_at clk n\<rparr>"
    define em where "em = \<lparr>em_tick = t, em_at = env_now e, em_fresh = True\<rparr>"
    have "log_ok clk seed (Suc n) (em # eng_log s)"
      using log fol due by (intro log_ok_push) (auto simp: em_def t_def)
    then show ?thesis
      using Some cad seed nlt
      by (simp add: compose_step_def Let_def tick loop_inv_def phase_ok_def em_def t_def Suc_le_eq)
  qed
qed

lemma engine_step_inv:
  assumes h: "run_horizon clk seed H" and p: "pacer (cfg_poll cfg)"
    and inv: "loop_inv clk seed H wall stopped s"
    and w: "wall \<le> env_now e" "env_now e < deadline_nanos clk H seed" and st: "stopped \<longrightarrow> env_stopped e"
  shows "loop_inv clk seed H (env_now e) (env_stopped e) (engine_step cfg e s)"
proof (cases "eng_phase s")
  case (Repeating r)
  then show ?thesis using repeat_inv [OF h inv Repeating w] by (simp add: engine_step_def)
next
  case Composing
  then show ?thesis using compose_inv [OF h inv Composing w] by (simp add: engine_step_def)
next
  case LoopTop
  with inv show ?thesis
    by (auto simp: engine_step_def loop_inv_def phase_ok_def Let_def finish_def)
next
  case Waiting
  show ?thesis
  proof (cases "cfg_poll cfg (next_deadline_nanos s) (env_now e) (env_stopped e) = PacerReturn")
    case True
    then have "next_deadline_nanos s \<le> env_now e \<or> env_stopped e"
      using pacer.poll_returns [OF p] by simp
    with Waiting True inv show ?thesis
      by (auto simp: engine_step_def loop_inv_def phase_ok_def Let_def next_deadline_nanos_def)
  next
    case False
    then have "engine_step cfg e s = s"
      using Waiting by (simp add: engine_step_def split: pacer_poll.split)
    with Waiting inv show ?thesis by (auto simp: loop_inv_def phase_ok_def Let_def)
  qed
next
  case Woken
  with inv w st show ?thesis
    by (auto simp: engine_step_def loop_inv_def phase_ok_def Let_def finish_def next_deadline_nanos_def)
next
  case (Returned x)
  with inv show ?thesis by (simp add: engine_step_def loop_inv_def phase_ok_def Let_def)
next
  case ComposeFailed
  with inv show ?thesis by (simp add: engine_step_def loop_inv_def phase_ok_def Let_def)
qed

text \<open>What an environment may do: time never runs backwards and a raised stop stays raised.\<close>

fun env_ok :: "int \<Rightarrow> bool \<Rightarrow> int \<Rightarrow> 'f env list \<Rightarrow> bool" where
  "env_ok wall stopped limit [] \<longleftrightarrow> True"
| "env_ok wall stopped limit (e # es) \<longleftrightarrow>
     wall \<le> env_now e \<and> env_now e < limit \<and> (stopped \<longrightarrow> env_stopped e) \<and>
     env_ok (env_now e) (env_stopped e) limit es"

lemma engine_run_inv:
  assumes "run_horizon clk seed H" and "pacer (cfg_poll cfg)"
    and "loop_inv clk seed H wall stopped s"
    and "env_ok wall stopped (deadline_nanos clk H seed) (es @ rest)"
  shows "\<exists>w st. loop_inv clk seed H w st (engine_run cfg es s) \<and>
     env_ok w st (deadline_nanos clk H seed) rest"
  using assms(3,4)
proof (induction es arbitrary: wall stopped s)
  case (Cons e es)
  from Cons.prems(2) have "wall \<le> env_now e" "env_now e < deadline_nanos clk H seed"
    "stopped \<longrightarrow> env_stopped e"
    and rest: "env_ok (env_now e) (env_stopped e) (deadline_nanos clk H seed) (es @ rest)"
    by auto
  from engine_step_inv [OF assms(1,2) Cons.prems(1) this(1-3)] Cons.IH [OF _ rest]
  show ?case by (simp add: engine_run_def)
qed (auto simp: engine_run_def)

lemma engine_new_inv: "next_index clk \<le> H \<Longrightarrow> loop_inv clk seed H wall stopped (engine_new clk seed cap)"
  by (simp add: loop_inv_def engine_new_def log_ok_def phase_ok_def follows_def Let_def)

text \<open>The counters count the publishes, and a bounded run keeps its bound.\<close>

definition count_inv :: "('f, 's, 'e) engine_config \<Rightarrow> ('f, 's, 'e) engine \<Rightarrow> bool" where
  "count_inv cfg s \<longleftrightarrow>
     eng_emitted s = length (eng_log s) \<and>
     (case cfg_max_ticks cfg of None \<Rightarrow> True
      | Some m \<Rightarrow> eng_emitted s \<le> m \<and> (eng_phase s \<in> {Waiting, Woken, Composing} \<longrightarrow> eng_emitted s < m)) \<and>
     (case eng_phase s of
        Returned x \<Rightarrow> outcome_ticks x = eng_emitted s \<and>
          (outcome_stop x = Completed \<longrightarrow> cfg_max_ticks cfg = Some (eng_emitted s))
      | Repeating r \<Rightarrow> r = 0 \<longrightarrow> (case cfg_max_ticks cfg of None \<Rightarrow> True | Some m \<Rightarrow> eng_emitted s < m)
      | _ \<Rightarrow> True)"

lemma step_count_inv:
  assumes "count_inv cfg s" and "length (eng_log s) + 1 < 2 ^ 64" and "\<forall>r. eng_phase s = Repeating r \<longrightarrow> eng_last_good s \<noteq> None"
  shows "count_inv cfg (engine_step cfg e s)"
proof -
  have u: "usat_add 64 (length (eng_log s)) (Suc 0) = Suc (length (eng_log s))"
    using assms(2) by (simp add: usat_add_def)
  show ?thesis
  proof (cases "eng_phase s")
    case (Repeating r)
    then show ?thesis
      using assms(1,3) u
      by (auto simp: count_inv_def engine_step_def repeat_step_def Let_def max_reached_def
        finish_def clock_tick_next_eq split: option.splits)
        (auto simp: usat_add_def)
  next
    case Composing
    then show ?thesis
      using assms(1) u
      by (auto simp: count_inv_def engine_step_def compose_step_def Let_def clock_tick_next_eq
        split: option.splits)
  qed (use assms(1) in \<open>auto simp: count_inv_def engine_step_def max_reached_def finish_def
      split: option.splits pacer_poll.splits\<close>)
qed

lemma log_length:
  assumes "log_ok clk seed n l"
  shows "length l \<le> n"
proof -
  have "distinct (map em_index l)"
    using assms by (induction l) (auto simp: log_ok_def gaps_ok_tl)
  moreover have "set (map em_index l) \<subseteq> {..<n}" using assms by (auto simp: log_ok_def)
  ultimately show ?thesis
    using card_mono [of "{..<n}" "set (map em_index l)"] distinct_card [of "map em_index l"] by simp
qed

lemma engine_run_count:
  assumes h: "run_horizon clk seed H" and p: "pacer (cfg_poll cfg)"
    and "loop_inv clk seed H wall stopped s" and "count_inv cfg s"
    and "env_ok wall stopped (deadline_nanos clk H seed) es"
  shows "count_inv cfg (engine_run cfg es s)"
  using assms(3-5)
proof (induction es arbitrary: wall stopped s)
  case (Cons e es)
  from Cons.prems(3) have w: "wall \<le> env_now e" "env_now e < deadline_nanos clk H seed"
    "stopped \<longrightarrow> env_stopped e" and rest: "env_ok (env_now e) (env_stopped e) (deadline_nanos clk H seed) es"
    by auto
  have "length (eng_log s) \<le> H"
    using log_length [of clk seed "next_index (eng_clock s)" "eng_log s"] Cons.prems(1)
    by (auto simp: loop_inv_def)
  then have "length (eng_log s) + 1 < 2 ^ 64" using run_horizon_u64 [OF h, of H] by simp
  moreover have "\<forall>r. eng_phase s = Repeating r \<longrightarrow> eng_last_good s \<noteq> None"
    using Cons.prems(1) by (auto simp: loop_inv_def phase_ok_def Let_def)
  ultimately have "count_inv cfg (engine_step cfg e s)"
    by (intro step_count_inv Cons.prems)
  with Cons.IH [OF engine_step_inv [OF h p Cons.prems(1) w] _ rest] show ?case
    by (simp add: engine_run_def)
qed (simp add: engine_run_def)

lemma engine_new_count: "count_inv cfg (engine_new clk seed cap)"
  by (simp add: count_inv_def engine_new_def split: option.split)

text \<open>An environment that fits a horizon, for a loop started at \<open>seed\<close> on a fresh clock.\<close>

definition fitting_run ::
  "('f, 's, 'e) engine_config \<Rightarrow> rational \<Rightarrow> output_clock \<Rightarrow> int \<Rightarrow> nat \<Rightarrow> 'f env list \<Rightarrow> bool" where
  "fitting_run cfg c clk seed H es \<longleftrightarrow>
     rational_ok c \<and> clock_new c = Inr clk \<and> cfg_poll cfg \<in> {realtime_poll, cooperative_poll} \<and>
     0 \<le> seed \<and> horizon c H \<and> seed + tick_exact c (int H) \<le> i_max 64 \<and>
     env_ok seed False (deadline_nanos clk H seed) es"

lemma fitting_runD:
  assumes "fitting_run cfg c clk seed H es"
  shows "run_horizon clk seed H" "pacer (cfg_poll cfg)" "next_index clk \<le> H" "cadence clk = c"
    "env_ok seed False (deadline_nanos clk H seed) es"
  using assms clock_new_Inr [of c clk] realtime.pacer_axioms cooperative.pacer_axioms
  by (auto simp: fitting_run_def run_horizon_def)

lemma fitting_run_inv:
  assumes "fitting_run cfg c clk seed H es"
  shows "\<exists>w st. loop_inv clk seed H w st (engine_run cfg es (engine_new clk seed cap))"
    and "count_inv cfg (engine_run cfg es (engine_new clk seed cap))"
proof -
  note f = fitting_runD [OF assms]
  have i: "loop_inv clk seed H seed False (engine_new clk seed cap)"
    by (rule engine_new_inv [OF f(3)])
  show "\<exists>w st. loop_inv clk seed H w st (engine_run cfg es (engine_new clk seed cap))"
    using engine_run_inv [OF f(1,2) i, of es "[]"] f(5) by auto
  show "count_inv cfg (engine_run cfg es (engine_new clk seed cap))"
    by (rule engine_run_count [OF f(1,2) i engine_new_count f(5)])
qed

lemma log_ok_below:
  assumes "run_horizon clk seed H" and "log_ok clk seed n l" and "n \<le> H" and "x \<in> set l"
  shows "clock_fits clk (em_index x)"
  using assms horizon_down [of "cadence clk" H "em_index x"]
  by (auto simp: clock_fits_def run_horizon_def log_ok_def)

section \<open>What reaches the consumers\<close>

text \<open>A publish moves the state slot by one and hands its event to the stream.\<close>

lemma publish_frame_parts:
  "pub_state (publish_frame cfg f p) = snd (latest_publish (cfg_state_of cfg f) (pub_state p))"
  "pub_events (publish_frame cfg f p) =
     (case cfg_event_of cfg f of None \<Rightarrow> pub_events p | Some ev \<Rightarrow> snd (stream_publish ev (pub_events p)))"
  by (simp_all add: publish_frame_def publish_state_def publish_event_def Let_def case_prod_beta split: option.split)

lemma publish_frames_state:
  "latest_of (pub_state (fold (publish_frame cfg) fs p)) =
     (if fs = [] then latest_of (pub_state p) else Some (cfg_state_of cfg (last fs)))"
  "fs \<noteq> [] \<or> latest_sequence (pub_state p) < 2 ^ 64 \<Longrightarrow>
     latest_sequence (pub_state (fold (publish_frame cfg) fs p)) =
       (latest_sequence (pub_state p) + length fs) mod 2 ^ 64"
proof (induction fs arbitrary: p)
  case (Cons f fs)
  { case 1 show ?case using Cons.IH(1) by (simp add: publish_frame_parts latest_of_def latest_publish_def) }
  { case 2
    have q: "latest_sequence (pub_state (publish_frame cfg f p)) = (latest_sequence (pub_state p) + 1) mod 2 ^ 64"
      by (simp add: publish_frame_parts latest_sequence_def latest_publish_def slot_publish_def slot_sequence_def Let_def)
    then show ?case using Cons.IH(2) [of "publish_frame cfg f p"] by (simp add: mod_simps) }
qed simp_all

lemma publish_frames_events:
  "map event_payload (stream_sent (pub_events (fold (publish_frame cfg) fs p))) =
     map event_payload (stream_sent (pub_events p)) @ List.map_filter (cfg_event_of cfg) fs"
  by (induction fs arbitrary: p)
    (auto simp: publish_frame_parts stream_publish_def Let_def map_filter_simps split: option.split)

text \<open>The held frame: every repeat carries the payload of the frame before it (newest first).\<close>

fun holds_last :: "emission list \<Rightarrow> 'f composited_frame list \<Rightarrow> bool" where
  "holds_last (e # e' # l) (f # f' # fs) \<longleftrightarrow>
     (em_fresh e \<or> frame_payload f = frame_payload f') \<and> holds_last (e' # l) (f' # fs)"
| "holds_last [e] [f] \<longleftrightarrow> em_fresh e"
| "holds_last l fs \<longleftrightarrow> l = [] \<and> fs = []"

text \<open>What one step publishes: nothing, or one frame, which becomes the held one.\<close>

definition publishes ::
  "('f, 's, 'e) engine_config \<Rightarrow> ('f, 's, 'e) engine \<Rightarrow> 'f composited_frame list \<Rightarrow> ('f, 's, 'e) engine \<Rightarrow> bool" where
  "publishes cfg s fs s' \<longleftrightarrow>
     eng_publisher s' = fold (publish_frame cfg) fs (eng_publisher s) \<and>
     (case fs of
        [] \<Rightarrow> eng_log s' = eng_log s \<and> eng_last_good s' = eng_last_good s
      | [f] \<Rightarrow> eng_last_good s' = Some f \<and> frame_tick f = fst (clock_tick_next (eng_clock s)) \<and>
          (\<exists>em. eng_log s' = em # eng_log s \<and> em_tick em = frame_tick f \<and>
             (em_fresh em \<or> (\<exists>g. eng_last_good s = Some g \<and> frame_payload f = frame_payload g)))
      | _ \<Rightarrow> False)"

lemma step_publishes: "\<exists>fs. publishes cfg s fs (engine_step cfg e s)"
proof (cases "eng_phase s")
  case (Repeating r)
  have "publishes cfg s [] (repeat_step cfg e r s) \<or> (\<exists>f. publishes cfg s [f] (repeat_step cfg e r s))"
    by (cases "eng_last_good s")
      (auto simp: repeat_step_def publishes_def finish_def Let_def case_prod_beta)
  then show ?thesis using Repeating by (auto simp: engine_step_def)
next
  case Composing
  have "publishes cfg s [] (compose_step cfg e s) \<or> (\<exists>f. publishes cfg s [f] (compose_step cfg e s))"
    by (cases "env_composed e") (auto simp: compose_step_def publishes_def Let_def case_prod_beta)
  then show ?thesis using Composing by (auto simp: engine_step_def)
qed (auto simp: engine_step_def publishes_def finish_def split: pacer_poll.split intro!: exI [of _ "[]"])

definition handed_over :: "('f, 's, 'e) engine_config \<Rightarrow> nat \<Rightarrow> ('f, 's, 'e) engine \<Rightarrow> 'f composited_frame list \<Rightarrow> bool" where
  "handed_over cfg cap s fs \<longleftrightarrow>
     eng_publisher s = fold (publish_frame cfg) (rev fs) (publisher_new cap) \<and>
     map em_tick (eng_log s) = map frame_tick fs \<and> holds_last (eng_log s) fs \<and>
     eng_last_good s = (case fs of [] \<Rightarrow> None | f # _ \<Rightarrow> Some f)"

lemma handed_over_step:
  assumes "handed_over cfg cap s fs"
  shows "\<exists>fs'. handed_over cfg cap (engine_step cfg e s) fs'"
proof -
  obtain gs where p: "publishes cfg s gs (engine_step cfg e s)" using step_publishes by blast
  show ?thesis
  proof (cases gs)
    case Nil
    then have "handed_over cfg cap (engine_step cfg e s) fs" using p assms by (simp add: publishes_def handed_over_def)
    then show ?thesis by blast
  next
    case (Cons f hs)
    then have hs: "hs = []" using p by (cases hs) (simp_all add: publishes_def)
    obtain em where em: "eng_log (engine_step cfg e s) = em # eng_log s" "em_tick em = frame_tick f"
      "em_fresh em \<or> (\<exists>g. eng_last_good s = Some g \<and> frame_payload f = frame_payload g)"
      using p Cons hs by (auto simp: publishes_def)
    have "holds_last (em # eng_log s) (f # fs)"
      using assms em(3) by (cases fs; cases "eng_log s") (auto simp: handed_over_def)
    then have "handed_over cfg cap (engine_step cfg e s) (f # fs)"
      using p assms em by (simp add: handed_over_def publishes_def Cons hs)
    then show ?thesis by blast
  qed
qed

lemma handed_over_run:
  assumes "handed_over cfg cap s fs"
  shows "\<exists>fs'. handed_over cfg cap (engine_run cfg es s) fs'"
  using assms
proof (induction es arbitrary: s fs)
  case (Cons e es)
  from handed_over_step [OF Cons.prems] Cons.IH show ?case by (auto simp: engine_run_def)
qed (auto simp: engine_run_def)

lemma handed_over_new: "handed_over cfg cap (engine_new clk seed cap) []"
  by (simp add: handed_over_def engine_new_def)

section \<open>A sample run\<close>

text \<open>A run at 25 fps whose compositor is late once: ticks 0 and 1 fresh, 2 repeated, 3 fresh.\<close>

definition sample_cfg :: "(nat, nat, nat) engine_config" where
  "sample_cfg = \<lparr>cfg_poll = realtime_poll, cfg_max_ticks = None,
     cfg_state_of = (\<lambda>f. frame_payload f), cfg_event_of = (\<lambda>f. None)\<rparr>"

definition sample_clock :: output_clock where
  "sample_clock = \<lparr>cadence = rat_new 25 1, next_index = 0\<rparr>"

definition sample_env :: "int \<Rightarrow> nat env" where
  "sample_env t = \<lparr>env_now = t * 1000000, env_stopped = False, env_composed = Some 7\<rparr>"

definition sample_prefix :: "nat env list" where
  "sample_prefix = map sample_env [0, 0, 0, 1, 1, 40, 41, 42, 43, 44, 80, 120, 120]"

definition sample_envs :: "nat env list" where
  "sample_envs = sample_prefix @ [sample_env 121, sample_env 122]"

lemma sample_horizon: "run_horizon sample_clock 0 100" "horizon (rat_new 25 1) 100"
  "clock_new (rat_new 25 1) = Inr sample_clock" "rational_ok (rat_new 25 1)"
  by (simp_all add: run_horizon_def sample_clock_def cadence_ok_def rational_ok_def in_i_def i_simps
    has_subnanosecond_period_def sat_mul_def sat_def NANOS_PER_SEC_def horizon_def tick_fits_def
    tick_exact_def rha_def clock_new_def is_valid_def)

lemma sample_deadline:
  assumes "cadence clk = rat_new 25 1" and "i \<le> 100"
  shows "deadline_nanos clk i 0 = 40000000 * int i"
proof -
  have "deadline_nanos clk i 0 = deadline_nanos sample_clock i 0"
    using deadline_cadence [of clk sample_clock] assms(1) by (simp add: sample_clock_def)
  also have "\<dots> = tick_exact (rat_new 25 1) (int i)"
    using deadline_exact [OF sample_horizon(1) assms(2)] by (simp add: sample_clock_def)
  also have "\<dots> = 40000000 * int i" by (simp add: tick_exact_def rha_def NANOS_PER_SEC_def)
  finally show ?thesis .
qed

lemma engine_run_simps:
  "engine_run cfg [] s = s" "engine_run cfg (e # es) s = engine_run cfg es (engine_step cfg e s)"
  by (simp_all add: engine_run_def)

lemmas rt_eval = sample_deadline engine_run_simps sample_cfg_def sample_clock_def sample_env_def
  sample_prefix_def sample_envs_def engine_new_def engine_step_def repeat_step_def compose_step_def
  max_reached_def clock_tick_next_def next_deadline_nanos_def Let_def realtime_poll_def
  PACER_STOP_POLL_def MAX_REPEATS_PER_TICK_def usat_add_def sat_sub_def sat_def i_simps

lemma sample_phase:
  "eng_phase (engine_run sample_cfg sample_prefix (engine_new sample_clock 0 4)) = Repeating 1"
  "eng_phase (engine_run sample_cfg (sample_prefix @ [sample_env 121]) (engine_new sample_clock 0 4)) = Composing"
  by (simp_all add: rt_eval)

lemma sample_fits: "fitting_run sample_cfg (rat_new 25 1) sample_clock 0 100 sample_envs"
  "fitting_run sample_cfg (rat_new 25 1) sample_clock 0 100 (sample_prefix @ [sample_env 121])"
  using sample_horizon deadline_exact [OF sample_horizon(1), of 100]
  by (simp_all add: fitting_run_def sample_cfg_def run_horizon_def sample_deadline sample_clock_def
    sample_envs_def sample_prefix_def sample_env_def)

section \<open>Properties of the loop\<close>

text \<open>C1: The output never rewinds, repeats a stamp or runs ahead. For either pacer, any
  accepted cadence and any behaviour of the environment (any time readings that never go
  backwards, any compositor outcome, a stop at any moment) within the representable horizon,
  there is a list of frames, oldest first, one per entry of the log, such that what the
  publisher's consumers see is exactly these frames in this order: the state slot was written
  once per frame and holds the newest, and the event stream carries their events. Tick indices
  and presentation timestamps of these frames strictly increase, each frame carries exactly the
  stamp of its tick and is published no earlier than that tick's absolute deadline, and a
  repeated frame carries the payload of the frame before it.\<close>

theorem engine_never_falters:
  assumes "fitting_run cfg c clk seed H es"
  shows "let s = engine_run cfg es (engine_new clk seed cap); l = rev (eng_log s); p = eng_publisher s in
     \<exists>fs. map frame_tick fs = map em_tick l \<and>
       latest_sequence (pub_state p) = length fs \<and>
       latest_of (pub_state p) = (if fs = [] then None else Some (cfg_state_of cfg (last fs))) \<and>
       map event_payload (stream_sent (pub_events p)) = List.map_filter (cfg_event_of cfg) fs \<and>
       sorted_wrt (<) (map (tick_index \<circ> frame_tick) fs) \<and>
       sorted_wrt (<) (map (tick_pts \<circ> frame_tick) fs) \<and>
       (\<forall>f \<in> set fs. tick_pts (frame_tick f) = pts_at clk (tick_index (frame_tick f))) \<and>
       (\<forall>x \<in> set l. deadline_nanos clk (tick_index (em_tick x)) seed \<le> em_at x) \<and>
       holds_last (eng_log s) (rev fs)"
proof -
  define s where "s = engine_run cfg es (engine_new clk seed cap)"
  define l where "l = eng_log s"
  obtain n where n: "n \<le> H" and log: "log_ok clk seed n l"
    using fitting_run_inv(1) [OF assms, of cap] by (auto simp: loop_inv_def l_def s_def)
  obtain gs where pub: "handed_over cfg cap s gs"
    using handed_over_run [OF handed_over_new [of cfg cap clk seed]] by (auto simp: s_def)
  define fs where "fs = rev gs"
  have ticks: "map frame_tick fs = map em_tick (rev l)" and len: "length fs = length l"
    using pub map_eq_imp_length_eq [of em_tick l frame_tick gs]
    by (simp_all add: handed_over_def fs_def l_def rev_map [symmetric])
  note f = fitting_runD [OF assms]
  have "length l < 2 ^ 64" using log_length [OF log] n run_horizon_u64 [OF f(1), of H] by simp
  then have view: "latest_sequence (pub_state (eng_publisher s)) = length fs"
    "latest_of (pub_state (eng_publisher s)) = (if fs = [] then None else Some (cfg_state_of cfg (last fs)))"
    "map event_payload (stream_sent (pub_events (eng_publisher s))) = List.map_filter (cfg_event_of cfg) fs"
    using pub publish_frames_state [where cfg = cfg and fs = fs and p = "publisher_new cap"]
      publish_frames_events [where cfg = cfg and fs = fs and p = "publisher_new cap"] len
    by (simp_all add: handed_over_def fs_def publisher_new_def latest_new_def slot_new_def latest_of_def slot_load_def
      latest_sequence_def slot_sequence_def event_stream_new_def)
  have idx: "map (tick_index \<circ> frame_tick) fs = map em_index (rev l)"
    and pts: "map (tick_pts \<circ> frame_tick) fs = map (tick_pts \<circ> em_tick) (rev l)"
    using arg_cong [OF ticks, of "map tick_index"] arg_cong [OF ticks, of "map tick_pts"] by (simp_all only: map_map) (simp_all add: comp_def)
  have sorted: "sorted_wrt (<) (map em_index (rev l))"
    using log by (simp add: log_ok_def sorted_wrt_rev sorted_wrt_map)
  have ok: "clock_ok clk" using f(1) by (simp add: run_horizon_def clock_ok_def)
  have "sorted_wrt (<) (map (pts_at clk) (map em_index (rev l)))"
    using sorted log_ok_below [OF f(1) log n] by (intro output_timeline.pts_ascending [OF ok]) auto
  moreover have "map (tick_pts \<circ> em_tick) (rev l) = map (pts_at clk) (map em_index (rev l))"
    using log by (auto simp: log_ok_def)
  ultimately have asc: "sorted_wrt (<) (map (tick_pts \<circ> frame_tick) fs)" by (simp only: pts)
  have "\<forall>t \<in> set (map em_tick (rev l)). tick_pts t = pts_at clk (tick_index t)" using log by (auto simp: log_ok_def)
  then have stamp: "\<forall>f \<in> set fs. tick_pts (frame_tick f) = pts_at clk (tick_index (frame_tick f))"
    unfolding ticks [symmetric] by simp
  have due: "\<forall>x \<in> set (rev l). deadline_nanos clk (tick_index (em_tick x)) seed \<le> em_at x"
    using log by (auto simp: log_ok_def)
  have held: "holds_last l (rev fs)" using pub by (simp add: handed_over_def fs_def l_def)
  show ?thesis
    unfolding Let_def s_def [symmetric] l_def [symmetric]
    using ticks view sorted asc stamp due held idx by (intro exI [of _ fs]) simp
qed

theorem engine_never_falters_witness:
  "map (tick_index \<circ> em_tick) (rev (eng_log (engine_run sample_cfg sample_envs (engine_new sample_clock 0 4)))) = [0, 1, 2, 3] \<and>
   latest_sequence (pub_state (eng_publisher (engine_run sample_cfg sample_envs (engine_new sample_clock 0 4)))) = 4"
proof -
  let ?s = "engine_run sample_cfg sample_envs (engine_new sample_clock 0 4)"
  have l: "map (tick_index \<circ> em_tick) (rev (eng_log ?s)) = [0, 1, 2, 3]" by (simp add: rt_eval)
  obtain fs :: "nat composited_frame list" where fs: "map frame_tick fs = map em_tick (rev (eng_log ?s))"
    "latest_sequence (pub_state (eng_publisher ?s)) = length fs"
    using engine_never_falters [OF sample_fits(1), of 4] by (auto simp: Let_def)
  have "length fs = length (eng_log ?s)" using arg_cong [OF fs(1), of length] by simp
  moreover have "length (eng_log ?s) = 4" using arg_cong [OF l, of length] by simp
  ultimately show ?thesis using l fs(2) by simp
qed

text \<open>Contiguity. Between consecutive publishes the tick index advances by exactly one,
  with a single exception: a fresh frame may skip ahead, and then only after the 120 publishes
  before it were all repeats of the last good frame (a pathological jump of the clock).\<close>

theorem engine_gaps_only_after_cap:
  assumes "fitting_run cfg c clk seed H es"
  shows "gaps_ok (eng_log (engine_run cfg es (engine_new clk seed cap)))"
  using fitting_run_inv(1) [OF assms, of cap] by (auto simp: loop_inv_def log_ok_def)

theorem engine_gaps_only_after_cap_witness:
  "gaps_ok (eng_log (engine_run sample_cfg sample_envs (engine_new sample_clock 0 4)))"
  by (rule engine_gaps_only_after_cap [OF sample_fits(1)])

text \<open>C2: Freshest due tick. Whenever the loop, after its first frame, decides to compose, the
  tick it is about to compose is due at the instant of the decision and the following one is
  not: it neither composes ahead of the clock nor behind it, whether the decision follows from
  the deadline test or from the resynchronisation after the repeat cap.\<close>

theorem engine_composes_freshest_due:
  assumes "fitting_run cfg c clk seed H (es @ [e])"
    and "eng_phase (engine_run cfg es (engine_new clk seed cap)) = Repeating r"
    and "eng_phase (engine_run cfg (es @ [e]) (engine_new clk seed cap)) = Composing"
  shows "next_deadline_nanos (engine_run cfg (es @ [e]) (engine_new clk seed cap)) \<le> env_now e \<and>
     env_now e < deadline_nanos clk
       (Suc (next_index (eng_clock (engine_run cfg (es @ [e]) (engine_new clk seed cap))))) seed"
proof -
  note f = fitting_runD [OF assms(1)]
  define s where "s = engine_run cfg es (engine_new clk seed cap)"
  have s': "engine_run cfg (es @ [e]) (engine_new clk seed cap) = engine_step cfg e s"
    by (simp add: engine_run_def s_def)
  obtain w st where inv: "loop_inv clk seed H w st s" and
    e: "env_ok w st (deadline_nanos clk H seed) [e]"
    using engine_run_inv [OF f(1,2) engine_new_inv [OF f(3), of seed seed False cap] f(5)]
    unfolding s_def by blast
  have ph: "eng_phase s = Repeating r" using assms(2) by (simp add: s_def)
  then have st: "engine_step cfg e s = repeat_step cfg e r s" by (simp add: engine_step_def)
  from repeat_inv [OF f(1) inv ph, of e cfg] e assms(3) show ?thesis
    unfolding s' st by (auto simp: loop_inv_def phase_ok_def Let_def)
qed

lemma engine_log_grows: "length (eng_log s) \<le> length (eng_log (engine_step cfg e s))"
  by (auto simp: engine_step_def repeat_step_def compose_step_def finish_def Let_def case_prod_beta
    split: phase.split option.split pacer_poll.split)

theorem engine_composes_freshest_due_witness:
  "next_deadline_nanos (engine_run sample_cfg (sample_prefix @ [sample_env 121]) (engine_new sample_clock 0 4)) \<le> 121000000"
  using engine_composes_freshest_due [OF sample_fits(2) sample_phase] by (simp add: sample_env_def)

text \<open>C3: The output never stalls. From the top of the loop, with no stop and no tick limit,
  once the time source has reached the due deadline and the compositor delivers, at most five
  observations later the due tick has reached the consumers, whatever the inputs and consumers
  do: at least one frame has been published, the first of them the frame of the due tick with its
  exact stamp; the state slot was written once per frame and holds the newest, and their
  events were sent.\<close>

theorem engine_progress:
  assumes "cfg_poll cfg \<in> {realtime_poll, cooperative_poll}" and "cfg_max_ticks cfg = None"
    and "eng_phase s = LoopTop" and "length es = 5"
    and "\<forall>e \<in> set es. \<not> env_stopped e \<and> next_deadline_nanos s \<le> env_now e \<and> env_composed e \<noteq> None"
  shows "let s' = engine_run cfg es s; p = eng_publisher s; p' = eng_publisher s'; due = next_index (eng_clock s) in
     \<exists>f fs. length fs < 2 \<and>
       frame_tick f = \<lparr>tick_index = due, tick_pts = pts_at (eng_clock s) due\<rparr> \<and>
       length (eng_log s') = length (eng_log s) + length (f # fs) \<and>
       latest_sequence (pub_state p') = (latest_sequence (pub_state p) + length (f # fs)) mod 2 ^ 64 \<and>
       latest_of (pub_state p') = Some (cfg_state_of cfg (last (f # fs))) \<and>
       map event_payload (stream_sent (pub_events p')) =
         map event_payload (stream_sent (pub_events p)) @ List.map_filter (cfg_event_of cfg) (f # fs)"
proof -
  obtain e1 e2 e3 e4 e5 where es: "es = [e1, e2, e3, e4, e5]"
    using assms(4) by (auto simp: length_Suc_conv eval_nat_numeral)
  have p: "pacer (cfg_poll cfg)"
    using assms(1) realtime.pacer_axioms cooperative.pacer_axioms by auto
  have mr: "\<not> max_reached cfg t" for t by (simp add: max_reached_def assms(2))
  define s1 where "s1 = s\<lparr>eng_phase := Waiting\<rparr>"
  define s2 where "s2 = s\<lparr>eng_phase := Woken\<rparr>"
  have 1: "engine_step cfg e1 s = s1" using assms(3,5) mr by (simp add: engine_step_def s1_def es)
  have "cfg_poll cfg (next_deadline_nanos s1) (env_now e2) (env_stopped e2) = PacerReturn"
    using assms(5) pacer.poll_returns [OF p] by (simp add: es s1_def next_deadline_nanos_def)
  then have 2: "engine_step cfg e2 s1 = s2" by (simp add: engine_step_def s1_def s2_def)
  define s3 where "s3 = engine_step cfg e3 s2"
  have s3: "eng_log s3 = eng_log s" "eng_clock s3 = eng_clock s" "eng_publisher s3 = eng_publisher s"
    "eng_phase s3 = Composing \<or> (eng_phase s3 = Repeating 0 \<and> eng_last_good s3 \<noteq> None)"
    using assms(5) by (auto simp: es s3_def s2_def engine_step_def)
  define s4 where "s4 = engine_step cfg e4 s3"
  define s5 where "s5 = engine_step cfg e5 s4"
  have run: "engine_run cfg es s = s5" by (simp add: engine_run_def es 1 2 s3_def s4_def s5_def)
  have e: "\<not> env_stopped e4" "env_composed e4 \<noteq> None" "\<not> env_stopped e5" "env_composed e5 \<noteq> None"
    using assms(5) by (simp_all add: es)
  obtain fs4 where f4: "publishes cfg s3 fs4 s4" unfolding s4_def using step_publishes [of cfg s3 e4] by blast
  obtain fs5 where f5: "publishes cfg s4 fs5 s5" unfolding s5_def using step_publishes [of cfg s4 e5] by blast
  have lens: "length fs4 \<le> 1" "length fs5 \<le> 1"
    using f4 f5 by (auto simp: publishes_def split: list.splits)
  have logs: "length (eng_log s4) = length (eng_log s) + length fs4" "length (eng_log s5) = length (eng_log s4) + length fs5"
    using f4 f5 s3(1) by (auto simp: publishes_def split: list.splits)
  have "fs4 \<noteq> [] \<or> (eng_phase s4 = Composing \<and> eng_clock s4 = eng_clock s)"
    using s3(4) e(1,2) mr f4 s3(2)
    by (auto simp: s4_def engine_step_def compose_step_def repeat_step_def Let_def case_prod_beta
      MAX_REPEATS_PER_TICK_def publishes_def split: if_splits)
  moreover have "fs5 \<noteq> []" if "eng_phase s4 = Composing"
    using that e(4) f5 by (auto simp: s5_def engine_step_def compose_step_def Let_def case_prod_beta publishes_def)
  ultimately obtain f fs where fs: "fs4 @ fs5 = f # fs" and c: "fs4 = [] \<longrightarrow> eng_clock s4 = eng_clock s"
    by (cases fs4; cases fs5) auto
  have "frame_tick f = fst (clock_tick_next (eng_clock s))"
    using fs c f4 f5 s3(2) by (cases fs4) (auto simp: publishes_def split: list.splits)
  moreover have "eng_publisher s5 = fold (publish_frame cfg) (f # fs) (eng_publisher s)"
    using f4 f5 s3(3) unfolding fs [symmetric] by (simp add: publishes_def)
  moreover have "length (eng_log s5) = length (eng_log s) + length (f # fs)"
    using logs arg_cong [OF fs, of length] by simp
  moreover have "length fs < 2" using lens arg_cong [OF fs, of length] by simp
  ultimately show ?thesis
    using publish_frames_state [where cfg = cfg and fs = "f # fs" and p = "eng_publisher s"]
      publish_frames_events [where cfg = cfg and fs = "f # fs" and p = "eng_publisher s"]
    unfolding run Let_def by (intro exI [of _ f] exI [of _ fs]) (simp add: clock_tick_next_eq)
qed

theorem engine_progress_witness:
  "0 < length (eng_log (engine_run sample_cfg (map sample_env [0, 0, 0, 1, 1]) (engine_new sample_clock 0 4)))"
  using engine_progress [of sample_cfg "engine_new sample_clock 0 4" "map sample_env [0, 0, 0, 1, 1]"]
  by (auto simp: Let_def sample_cfg_def engine_new_def sample_env_def next_deadline_nanos_def sample_deadline
    sample_clock_def)

text \<open>Exact accounting. In a run within the horizon the emitted counter is the number of
  publishes; a run bounded by \<open>max_ticks\<close> never publishes more, and when it returns
  \<open>Completed\<close> it has published exactly that many, which is what its outcome reports.\<close>

theorem engine_accounting:
  assumes "fitting_run cfg c clk seed H es"
  shows "let s = engine_run cfg es (engine_new clk seed cap) in
     eng_emitted s = length (eng_log s) \<and>
     (\<forall>m. cfg_max_ticks cfg = Some m \<longrightarrow> length (eng_log s) \<le> m) \<and>
     (\<forall>x. eng_phase s = Returned x \<longrightarrow> outcome_ticks x = length (eng_log s) \<and>
        (outcome_stop x = Completed \<longrightarrow> cfg_max_ticks cfg = Some (length (eng_log s))))"
  using fitting_run_inv(2) [OF assms, of cap]
  by (auto simp: count_inv_def Let_def split: option.splits)

theorem engine_accounting_witness:
  "eng_emitted (engine_run sample_cfg sample_envs (engine_new sample_clock 0 4)) =
     length (eng_log (engine_run sample_cfg sample_envs (engine_new sample_clock 0 4)))"
  using engine_accounting [OF sample_fits(1), of 4] by (simp add: Let_def)

text \<open>The resynchronisation floor is exact. After the repeat cap, within the horizon, the
  index the clock jumps to is strictly ahead, already due, and the one after it is not due: the
  estimate by the exact rational period with its single correction step never overshoots the
  wall clock and never leaves a backlog.\<close>

theorem cap_resync_floor_exact:
  assumes "run_horizon clk seed H" and "now < deadline_nanos clk H seed"
    and "deadline_nanos clk (Suc nxt) seed \<le> now" and "Suc nxt \<le> H"
  shows "nxt < cap_resync_floor clk seed now nxt \<and>
     deadline_nanos clk (cap_resync_floor clk seed now nxt) seed \<le> now \<and>
     now < deadline_nanos clk (Suc (cap_resync_floor clk seed now nxt)) seed"
  using cap_resync_exact [OF assms] by simp

theorem cap_resync_floor_exact_witness:
  "5 < cap_resync_floor sample_clock 0 2000000000 5"
  using cap_resync_floor_exact [OF sample_horizon(1), of 2000000000 5]
  by (simp add: sample_deadline sample_clock_def)

end
