(* ===== verification/Supervision.thy ===== *)
theory Supervision
  imports Prelude
begin

text \<open>
  Restart and reconnect policies: \<open>multiview-engine/src/supervisor.rs\<close> (the restart policy, its
  decision and the supervision loop) and \<open>multiview-input/src/reconnect.rs\<close> (full-jitter
  exponential backoff). A \<open>Duration\<close> is its number of nanoseconds.

  The locale \<open>capped_backoff\<close> is what both promise: delays never shrink as failures
  accumulate and never exceed a cap. Its client lemmas bound the total time spent waiting.
\<close>

section \<open>Capped backoff as an interface\<close>

locale capped_backoff =
  fixes delay :: "'c \<Rightarrow> nat \<Rightarrow> nat"
    and cap :: "'c \<Rightarrow> nat"
    and ok :: "'c \<Rightarrow> bool"
  assumes delay_le_cap: "delay c n \<le> cap c"
    and delay_mono: "ok c \<Longrightarrow> n \<le> m \<Longrightarrow> delay c n \<le> delay c m"
begin

lemma total_delay_le: "(\<Sum>i < k. delay c (f i)) \<le> k * cap c"
  using sum_bounded_above [of "{..<k}" "\<lambda>i. delay c (f i)" "cap c"] delay_le_cap by simp

lemma stays_capped: "ok c \<Longrightarrow> delay c n = cap c \<Longrightarrow> n \<le> m \<Longrightarrow> delay c m = cap c"
  using delay_mono [of c n m] delay_le_cap [of c m] by simp

end

section \<open>The restart policy\<close>

datatype actor_exit = ActorCompleted | ActorFailed

datatype stop_reason = ReasonCompleted | BudgetExhausted

datatype restart_decision = Restart nat | Stop stop_reason

record restart_policy =
  rp_base :: nat
  rp_max :: nat
  rp_max_restarts :: nat

definition policy_new :: "nat \<Rightarrow> nat \<Rightarrow> nat \<Rightarrow> restart_policy" where
  "policy_new base mx max_restarts =
     (let base' = (if base = 0 then 1000000 else base);
          mx' = (if mx < base' then base' else mx)
      in \<lparr>rp_base = base', rp_max = mx', rp_max_restarts = max_restarts\<rparr>)"

definition default_policy :: restart_policy where
  "default_policy = policy_new 100000000 30000000000 1000"

text \<open>
  \<open>u128::checked_shl\<close> fails only for a shift of 128 or more; the bits it moves out are lost.
\<close>

definition checked_shl_128 :: "nat \<Rightarrow> nat \<Rightarrow> nat option" where
  "checked_shl_128 x s = (if s < 128 then Some ((x * 2 ^ s) mod 2 ^ 128) else None)"

definition backoff :: "restart_policy \<Rightarrow> nat \<Rightarrow> nat" where
  "backoff p consecutive_failures =
     (if consecutive_failures = 0 then 0
      else
        let shift = min (consecutive_failures - 1) 63;
            base_nanos = rp_base p;
            scaled = min (case checked_shl_128 base_nanos shift of Some v \<Rightarrow> v | None \<Rightarrow> 2 ^ 128 - 1) (rp_max p);
            nanos = (if scaled < 2 ^ 64 then scaled else 2 ^ 64 - 1)
        in min nanos (rp_max p))"

definition decide :: "restart_policy \<Rightarrow> actor_exit \<Rightarrow> nat \<Rightarrow> restart_decision" where
  "decide p e restarts_used =
     (case e of
        ActorCompleted \<Rightarrow> Stop ReasonCompleted
      | ActorFailed \<Rightarrow>
          if rp_max_restarts p \<le> restarts_used then Stop BudgetExhausted
          else Restart (backoff p (usat_add 32 restarts_used 1)))"

record supervision_outcome =
  so_restarts :: nat
  so_reason :: stop_reason

text \<open>
  The supervision loop. The actor is the sequence of its exits; the second component of the
  result lists the backoffs slept.
\<close>

partial_function (option) supervise ::
  "restart_policy \<Rightarrow> (nat \<Rightarrow> actor_exit) \<Rightarrow> nat \<Rightarrow> nat \<Rightarrow> nat list \<Rightarrow> (supervision_outcome \<times> nat list) option" where
  "supervise p exits k restarts_used slept =
     (case decide p (exits k) restarts_used of
        Stop reason \<Rightarrow> Some (\<lparr>so_restarts = restarts_used, so_reason = reason\<rparr>, slept)
      | Restart b \<Rightarrow> supervise p exits (Suc k) (usat_add 32 restarts_used 1) (slept @ [b]))"

text \<open>A base below \<open>2 ^ 65\<close> nanoseconds (over a thousand years) never loses a bit.\<close>

definition policy_ok :: "restart_policy \<Rightarrow> bool" where
  "policy_ok p \<longleftrightarrow> 0 < rp_base p \<and> rp_base p < 2 ^ 65 \<and> rp_base p \<le> rp_max p \<and> rp_max_restarts p < 2 ^ 32"

lemma policy_new_ok:
  "base < 2 ^ 65 \<Longrightarrow> n < 2 ^ 32 \<Longrightarrow> policy_ok (policy_new base mx n)"
  by (auto simp: policy_new_def policy_ok_def Let_def)

lemma backoff_exact:
  assumes "policy_ok p" and "0 < n"
  shows "backoff p n = min (rp_base p * 2 ^ (min (n - 1) 63)) (min (rp_max p) (2 ^ 64 - 1))"
proof -
  define s where "s = min (n - 1) 63"
  have "rp_base p * 2 ^ s \<le> (2 ^ 65 - 1) * 2 ^ 63"
    using assms(1) by (intro mult_le_mono power_increasing) (auto simp: policy_ok_def s_def)
  also have "\<dots> < (2::nat) ^ 128" by simp
  finally have "(rp_base p * 2 ^ s) mod 2 ^ 128 = rp_base p * 2 ^ s" by simp
  moreover have "s < 128" by (simp add: s_def)
  ultimately have "checked_shl_128 (rp_base p) s = Some (rp_base p * 2 ^ s)"
    by (simp only: checked_shl_128_def if_True)
  then show ?thesis
    using assms(2) unfolding backoff_def Let_def s_def [symmetric] by (auto simp: min_def)
qed

interpretation restart_backoff: capped_backoff backoff rp_max policy_ok
proof
  fix p n m
  show "backoff p n \<le> rp_max p" by (simp add: backoff_def Let_def)
  assume ok: "policy_ok p" and nm: "n \<le> (m :: nat)"
  show "backoff p n \<le> backoff p m"
  proof (cases "n = 0")
    case False
    have "rp_base p * 2 ^ min (n - 1) 63 \<le> rp_base p * 2 ^ min (m - 1) 63"
      using nm by (intro mult_le_mono2 power_increasing) auto
    then show ?thesis
      using False nm by (simp add: backoff_exact [OF ok] min.coboundedI1 min_le_iff_disj)
  qed (simp add: backoff_def)
qed

text \<open>The run of an actor that fails \<open>j\<close> times in a row from attempt \<open>k\<close> on.\<close>

lemma supervise_failures:
  assumes "rp_max_restarts p < 2 ^ 32" and "\<forall>i < j. exits (k + i) = ActorFailed" and "r + j \<le> rp_max_restarts p"
  shows "supervise p exits k r sl =
     supervise p exits (k + j) (r + j) (sl @ map (\<lambda>i. backoff p (r + i + 1)) [0..<j])"
  using assms(2,3)
proof (induction j)
  case (Suc j)
  have "usat_add 32 (r + j) 1 = Suc (r + j)"
    using assms(1) Suc.prems(2) by (simp add: usat_add_def)
  then have "supervise p exits (k + j) (r + j) ys =
      supervise p exits (k + Suc j) (r + Suc j) (ys @ [backoff p (r + j + 1)])" for ys
    using Suc.prems by (subst supervise.simps) (simp add: decide_def)
  with Suc show ?case by simp
qed simp

text \<open>C18: Supervision ends, and says why. Whatever the actor does and whatever the policy's base delay,
  cap and 32-bit budget, the loop returns: either the actor completed and every earlier run failed,
  within budget, or the budget of \<open>max_restarts\<close> is spent and every run failed. The number of restarts
  is the number of sleeps, the sleeps are the policy's successive backoffs, and together they last
  at most \<open>restarts * max\<close>. Provided the base delay is below 2^65 nanoseconds (over a thousand years),
  the sleep after the \<open>n\<close>-th failure is exactly \<open>base * 2^(n-1)\<close>, with the exponent capped at 63 and the
  delay at the policy's maximum and at 2^64 - 1 nanoseconds, so the sleeps never shrink.\<close>

theorem supervise_returns:
  assumes "n < 2 ^ 32" and "p = policy_new base mx n"
  shows "\<exists>r reason slept.
     supervise p exits 0 0 [] = Some (\<lparr>so_restarts = r, so_reason = reason\<rparr>, slept) \<and>
     r \<le> n \<and> (\<forall>i < r. exits i = ActorFailed) \<and>
     (case reason of ReasonCompleted \<Rightarrow> exits r = ActorCompleted
      | BudgetExhausted \<Rightarrow> r = n \<and> exits r = ActorFailed) \<and>
     slept = map (\<lambda>i. backoff p (i + 1)) [0..<r] \<and> sum_list slept \<le> r * rp_max p \<and>
     (base < 2 ^ 65 \<longrightarrow> sorted slept \<and>
        slept = map (\<lambda>i. min (rp_base p * 2 ^ min i 63) (min (rp_max p) (2 ^ 64 - 1))) [0..<r])"
proof -
  have pn: "rp_max_restarts p = n" using assms(2) by (simp add: policy_new_def Let_def)
  define r where "r = (LEAST i. i = n \<or> exits i = ActorCompleted)"
  have r: "r = n \<or> exits r = ActorCompleted" "r \<le> n" "\<forall>i < r. exits i = ActorFailed"
  proof -
    show "r = n \<or> exits r = ActorCompleted" unfolding r_def by (rule LeastI [of _ n]) simp
    show "r \<le> n" unfolding r_def by (rule Least_le) simp
    show "\<forall>i < r. exits i = ActorFailed"
      using not_less_Least [of _ "\<lambda>i. i = n \<or> exits i = ActorCompleted"] actor_exit.exhaust
      unfolding r_def by blast
  qed
  define slept where "slept = map (\<lambda>i. backoff p (i + 1)) [0..<r]"
  define reason where "reason = (case exits r of ActorCompleted \<Rightarrow> ReasonCompleted | _ \<Rightarrow> BudgetExhausted)"
  have "supervise p exits 0 0 [] = supervise p exits r r slept"
    using supervise_failures [of p r exits 0 0 "[]"] r assms(1) by (simp add: slept_def pn)
  also have "\<dots> = Some (\<lparr>so_restarts = r, so_reason = reason\<rparr>, slept)"
    using r by (subst supervise.simps) (auto simp: decide_def reason_def pn split: actor_exit.split)
  finally have s: "supervise p exits 0 0 [] = Some (\<lparr>so_restarts = r, so_reason = reason\<rparr>, slept)" .
  have grow: "sorted slept \<and> slept = map (\<lambda>i. min (rp_base p * 2 ^ min i 63) (min (rp_max p) (2 ^ 64 - 1))) [0..<r]"
    if "base < 2 ^ 65"
  proof
    have ok: "policy_ok p" using policy_new_ok [OF that assms(1)] assms(2) by simp
    show "sorted slept"
      unfolding slept_def sorted_map
      by (rule sorted_wrt_mono_rel [OF _ sorted_upt]) (simp add: restart_backoff.delay_mono [OF ok])
    show "slept = map (\<lambda>i. min (rp_base p * 2 ^ min i 63) (min (rp_max p) (2 ^ 64 - 1))) [0..<r]"
      unfolding slept_def by (simp add: backoff_exact [OF ok])
  qed
  have "sum_list slept \<le> r * rp_max p"
    using restart_backoff.total_delay_le [where k = r and c = p and f = "\<lambda>i. i + 1"]
    by (simp add: slept_def interv_sum_list_conv_sum_set_nat atLeast0LessThan)
  moreover have "case reason of ReasonCompleted \<Rightarrow> exits r = ActorCompleted
      | BudgetExhausted \<Rightarrow> r = n \<and> exits r = ActorFailed"
    using r(1) by (cases "exits r") (auto simp: reason_def)
  ultimately show ?thesis
    using s r grow by (intro exI [of _ r] exI [of _ reason] exI [of _ slept]) (simp add: slept_def)
qed

theorem supervise_returns_witness:
  "supervise (policy_new 100 1000 2) (\<lambda>i. ActorFailed) 0 0 [] \<noteq> None"
  using supervise_returns [of 2 "policy_new 100 1000 2" 100 1000 "\<lambda>i. ActorFailed"] by auto

text \<open>The unrestricted formula of the comment does not hold: a huge base is shifted out.\<close>

lemma backoff_drops_bits: "backoff (policy_new (2 ^ 65) (2 ^ 90) 1000) 64 = 0"
  by (simp add: backoff_def policy_new_def checked_shl_128_def Let_def)

section \<open>Reconnect backoff\<close>

definition JITTER_SCALE :: nat where "JITTER_SCALE = 1000000"

record backoff_config =
  bc_base :: nat
  bc_max :: nat
  bc_factor :: nat

definition backoff_config_default :: backoff_config where
  "backoff_config_default = \<lparr>bc_base = 250000000, bc_max = 30000000000, bc_factor = 2\<rparr>"

record backoff_state =
  bs_config :: backoff_config
  bs_attempts :: nat

definition backoff_new :: "backoff_config \<Rightarrow> backoff_state" where
  "backoff_new c = \<lparr>bs_config = c, bs_attempts = 0\<rparr>"

definition backoff_reset :: "backoff_state \<Rightarrow> backoff_state" where
  "backoff_reset b = b\<lparr>bs_attempts := 0\<rparr>"

definition duration_to_nanos :: "nat \<Rightarrow> nat" where
  "duration_to_nanos d = (if d < 2 ^ 64 then d else 2 ^ 64 - 1)"

text \<open>The loop over the attempts, with its early return at the cap.\<close>

fun ceiling_loop :: "nat \<Rightarrow> nat \<Rightarrow> nat \<Rightarrow> nat \<Rightarrow> nat" where
  "ceiling_loop factor max_ns 0 ceil = min ceil max_ns"
| "ceiling_loop factor max_ns (Suc n) ceil =
     (let ceil' = usat_mul 64 ceil factor
      in if max_ns \<le> ceil' then max_ns else ceiling_loop factor max_ns n ceil')"

definition ceiling_ns :: "backoff_state \<Rightarrow> nat" where
  "ceiling_ns b =
     (let base_ns = duration_to_nanos (bc_base (bs_config b));
          max_ns = duration_to_nanos (bc_max (bs_config b));
          factor = max (bc_factor (bs_config b)) 1
      in ceiling_loop factor max_ns (bs_attempts b) base_ns)"

definition next_delay :: "nat \<Rightarrow> backoff_state \<Rightarrow> nat \<times> backoff_state" where
  "next_delay jitter b =
     (let ceil = ceiling_ns b;
          b' = b\<lparr>bs_attempts := usat_add 32 (bs_attempts b) 1\<rparr>;
          frac = min jitter JITTER_SCALE;
          delay_ns = usat_mul 128 ceil frac div JITTER_SCALE
      in ((if delay_ns < 2 ^ 64 then delay_ns else 2 ^ 64 - 1), b'))"

lemma duration_to_nanos_u64: "duration_to_nanos d \<le> 2 ^ 64 - 1"
  by (simp add: duration_to_nanos_def)

lemma ceiling_loop_exact:
  assumes "1 \<le> f" and "m \<le> 2 ^ 64 - 1"
  shows "ceiling_loop f m n c = min (c * f ^ n) m"
proof (induction n arbitrary: c)
  case (Suc n)
  have ge: "c * f \<le> c * f ^ Suc n" using assms(1) by simp
  show ?case
  proof (cases "m \<le> usat_mul 64 c f")
    case True
    then have "m \<le> c * f" by (simp add: usat_mul_def)
    then have "m \<le> c * f ^ Suc n" using ge by (rule order_trans)
    then show ?thesis using True by (simp add: min_absorb2)
  next
    case False
    then have "usat_mul 64 c f = c * f" using assms(2) by (auto simp: usat_mul_def min_def split: if_splits)
    with False Suc show ?thesis by (simp add: mult.assoc)
  qed
qed simp

text \<open>The ceiling of a configuration after a number of attempts, for the interface.\<close>

definition reconnect_ceiling :: "backoff_config \<Rightarrow> nat \<Rightarrow> nat" where
  "reconnect_ceiling c n = ceiling_ns \<lparr>bs_config = c, bs_attempts = n\<rparr>"

lemma ceiling_exact:
  "ceiling_ns b = min (duration_to_nanos (bc_base (bs_config b)) * max (bc_factor (bs_config b)) 1 ^ bs_attempts b)
     (duration_to_nanos (bc_max (bs_config b)))"
  unfolding ceiling_ns_def Let_def
  by (rule ceiling_loop_exact) (use duration_to_nanos_u64 in auto)

interpretation reconnect_backoff: capped_backoff reconnect_ceiling
  "\<lambda>c. duration_to_nanos (bc_max c)" "\<lambda>c. True"
proof
  fix c :: backoff_config and n m :: nat
  show "reconnect_ceiling c n \<le> duration_to_nanos (bc_max c)"
    by (simp add: reconnect_ceiling_def ceiling_exact)
  assume "n \<le> m"
  then show "reconnect_ceiling c n \<le> reconnect_ceiling c m"
    unfolding reconnect_ceiling_def ceiling_exact
    by (intro min.mono mult_le_mono2) (simp_all add: power_increasing)
qed

lemma ceiling_u64: "ceiling_ns b \<le> 2 ^ 64 - 1"
  using duration_to_nanos_u64 [of "bc_max (bs_config b)"] unfolding ceiling_exact by linarith

text \<open>Full jitter within the capped exponential ceiling. The delay handed out is exactly
  the fraction \<open>jitter / JITTER_SCALE\<close> (clamped to one) of
  \<open>min(base * factor ^ attempts, max)\<close>: the fixed-width arithmetic never overflows, so the
  delay never exceeds the cap, and each call counts one more attempt until \<open>reset\<close>.\<close>

theorem next_delay_exact:
  "next_delay jitter b =
     ((min (duration_to_nanos (bc_base (bs_config b)) * max (bc_factor (bs_config b)) 1 ^ bs_attempts b)
         (duration_to_nanos (bc_max (bs_config b))) * min jitter JITTER_SCALE) div JITTER_SCALE,
      b\<lparr>bs_attempts := usat_add 32 (bs_attempts b) 1\<rparr>)"
proof -
  define c where "c = ceiling_ns b"
  define f where "f = min jitter JITTER_SCALE"
  have f: "f \<le> JITTER_SCALE" by (simp add: f_def)
  have "c * f \<le> (2 ^ 64 - 1) * JITTER_SCALE"
    using ceiling_u64 [of b] f unfolding c_def by (rule mult_le_mono)
  moreover have "(2 ^ 64 - 1) * JITTER_SCALE \<le> 2 ^ 128 - 1" by (simp add: JITTER_SCALE_def)
  ultimately have m: "usat_mul 128 c f = c * f" unfolding usat_mul_def by (simp only: min_absorb2)
  have "c * f div JITTER_SCALE \<le> c * JITTER_SCALE div JITTER_SCALE"
    using f by (intro div_le_mono mult_le_mono2)
  also have "\<dots> = c" by (simp add: JITTER_SCALE_def)
  also have "c < 2 ^ 64" using ceiling_u64 [of b] by (simp add: c_def)
  finally show ?thesis
    unfolding next_delay_def Let_def c_def [symmetric] f_def [symmetric] m ceiling_exact [symmetric]
    by simp
qed

end
