(* ===== verification/Wallclock.thy ===== *)
theory Wallclock
  imports Media_Time
begin

text \<open>
  \<open>multiview-core/src/wallclock.rs\<close>: the trust a source's wall clock enjoys and the affine
  map between its media units and wall-clock nanoseconds.
\<close>

datatype wallclock_tier = Trusted | Suspected | NoTier

fun tier_label :: "wallclock_tier \<Rightarrow> string" where
  "tier_label Trusted = ''trusted''"
| "tier_label Suspected = ''suspected''"
| "tier_label NoTier = ''none''"

definition can_content_sync :: "wallclock_tier \<Rightarrow> bool" where
  "can_content_sync t \<longleftrightarrow> t = Trusted"

datatype wallclock_origin =
  Ptp | RtcpSr | ProgramDateTime | Temi | DvbTdtTot | SmpteSeiTimecode | Rp188Atc | NoOrigin

fun origin_label :: "wallclock_origin \<Rightarrow> string" where
  "origin_label Ptp = ''ptp''"
| "origin_label RtcpSr = ''rtcp_sr''"
| "origin_label ProgramDateTime = ''program_date_time''"
| "origin_label Temi = ''temi''"
| "origin_label DvbTdtTot = ''dvb_tdt_tot''"
| "origin_label SmpteSeiTimecode = ''smpte_sei_timecode''"
| "origin_label Rp188Atc = ''rp188_atc''"
| "origin_label NoOrigin = ''none''"

definition is_bare_timecode :: "wallclock_origin \<Rightarrow> bool" where
  "is_bare_timecode w \<longleftrightarrow> w = SmpteSeiTimecode \<or> w = Rp188Atc"

datatype wallclock_choice = Use | Discard

record wallclock_trust =
  tier :: wallclock_tier
  origin :: wallclock_origin
  choice :: wallclock_choice

definition trust_none :: wallclock_trust where
  "trust_none = \<lparr>tier = NoTier, origin = NoOrigin, choice = Use\<rparr>"

definition is_effectively_content_synced :: "wallclock_trust \<Rightarrow> bool" where
  "is_effectively_content_synced t \<longleftrightarrow> choice t = Use \<and> can_content_sync (tier t)"

record wallclock_ref =
  wall_at_anchor_ns :: int
  media_at_anchor :: int
  rate :: rational

definition wall_at :: "wallclock_ref \<Rightarrow> int \<Rightarrow> int" where
  "wall_at w pts =
     (let delta_ticks = sat_sub 64 pts (media_at_anchor w);
          tick_timebase = rat_new (den (rate w)) (num (rate w));
          delta_ns = rescale delta_ticks tick_timebase (rat_new 1 1000000000)
      in sat_add 64 (wall_at_anchor_ns w) delta_ns)"

definition media_at :: "wallclock_ref \<Rightarrow> int \<Rightarrow> int" where
  "media_at w wall_ns =
     (let delta_ns = sat_sub 64 wall_ns (wall_at_anchor_ns w);
          tick_timebase = rat_new (den (rate w)) (num (rate w));
          delta_ticks = rescale delta_ns (rat_new 1 1000000000) tick_timebase
      in sat_add 64 (media_at_anchor w) delta_ticks)"

datatype sync_mode = ContentSynced wallclock_ref | HouseClocked

fun sync_ref :: "sync_mode \<Rightarrow> wallclock_ref option" where
  "sync_ref (ContentSynced w) = Some w"
| "sync_ref HouseClocked = None"

definition is_content_synced :: "sync_mode \<Rightarrow> bool" where
  "is_content_synced m \<longleftrightarrow> sync_ref m \<noteq> None"

lemma wall_at_from_tick:
  "wall_at w pts = sat_add 64 (wall_at_anchor_ns w) (from_tick (sat_sub 64 pts (media_at_anchor w)) (rate w))"
  by (simp add: wall_at_def from_tick_def NANOS_PER_SEC_def Let_def)

lemma media_at_to_tick:
  "media_at w t = sat_add 64 (media_at_anchor w) (to_tick (sat_sub 64 t (wall_at_anchor_ns w)) (rate w))"
  by (simp add: media_at_def to_tick_def NANOS_PER_SEC_def Let_def)

text \<open>The wall-clock map is exact and invertible. For a media clock no faster than 1 GHz
  and instants that fit, the anchor maps to the anchor, later media times map to strictly later
  wall times, and \<open>media_at\<close> recovers the media time from its wall time without error.\<close>

theorem wallclock_roundtrip:
  assumes "cadence_ok (rate w)" and "media_at_anchor w \<le> pts"
    and "in_i 64 pts" and "in_i 64 (media_at_anchor w)" and "0 \<le> wall_at_anchor_ns w"
    and "tick_fits (rate w) (pts - media_at_anchor w)" and "in_i 64 (pts - media_at_anchor w)"
    and "wall_at_anchor_ns w + tick_exact (rate w) (pts - media_at_anchor w) \<le> i_max 64"
  shows "media_at w (wall_at w pts) = pts \<and>
     (media_at_anchor w < pts \<longrightarrow> wall_at w (media_at_anchor w) < wall_at w pts) \<and>
     wall_at w (media_at_anchor w) = wall_at_anchor_ns w"
proof -
  define d where "d = pts - media_at_anchor w"
  define n where "n = from_tick d (rate w)"
  have d: "in_i 64 d" "0 \<le> d" "tick_fits (rate w) d" using assms by (simp_all add: d_def)
  have n: "n = tick_exact (rate w) d" using from_tick_exact [OF assms(1) d(3)] by (simp add: n_def)
  have t0: "tick_fits (rate w) 0"
    using cadence_okD(1) [OF assms(1)] rha_mult [of "num (rate w)" 0] by (simp add: tick_fits_def tick_exact_def)
  have n0: "from_tick 0 (rate w) = 0"
    using from_tick_exact [OF assms(1) t0] cadence_okD(1) [OF assms(1)] rha_mult [of "num (rate w)" 0]
    by (simp add: tick_exact_def)
  have n_pos: "0 \<le> n" "0 < d \<Longrightarrow> 0 < n"
    using from_tick_strict_mono [OF assms(1) d(3), of 0] n0 d(2)
    by (cases "d = 0"; simp add: n_def)+
  have anchor: "in_i 64 (wall_at_anchor_ns w)" "in_i 64 (wall_at_anchor_ns w + n)" "in_i 64 n"
    using assms(5,8) n n_pos i_min_neg [of 64] unfolding d_def [symmetric] in_i_def by linarith+
  have wall: "wall_at w pts = wall_at_anchor_ns w + n"
    using anchor(2) d(1) by (simp add: wall_at_from_tick sat_sub_def sat_add_def d_def n_def)
  have "to_tick n (rate w) = d"
    using d(1) unfolding n_def by (intro to_tick_from_tick_exact [OF assms(1) d(3)]) (simp add: in_i_def)
  then have "media_at w (wall_at w pts) = pts"
    using anchor(3) assms(3) by (simp add: media_at_to_tick wall sat_sub_def sat_add_def d_def)
  moreover have "wall_at w (media_at_anchor w) = wall_at_anchor_ns w"
    using anchor(1) by (simp add: wall_at_from_tick sat_sub_def sat_add_def n0)
  ultimately show ?thesis using wall n_pos by (simp add: d_def)
qed

theorem wallclock_roundtrip_witness:
  "media_at \<lparr>wall_at_anchor_ns = 1700000000000000000, media_at_anchor = 900, rate = rat_new 90000 1\<rparr>
     (wall_at \<lparr>wall_at_anchor_ns = 1700000000000000000, media_at_anchor = 900, rate = rat_new 90000 1\<rparr> 8000)
   = 8000"
  using wallclock_roundtrip [of "\<lparr>wall_at_anchor_ns = 1700000000000000000, media_at_anchor = 900,
      rate = rat_new 90000 1\<rparr>" 8000]
  by (simp add: cadence_ok_def rational_ok_def in_i_def i_simps has_subnanosecond_period_def
    sat_mul_def sat_def NANOS_PER_SEC_def tick_fits_def tick_exact_def rha_def)

end
