(* ===== verification/Pts_Normalizer.thy ===== *)
theory Pts_Normalizer
  imports Wallclock
begin

text \<open>
  \<open>multiview-input/src/normalize.rs\<close>: per-input timestamp normalisation. Raw stamps are
  unwrapped by delta, rebased to nanoseconds, re-anchored on a discontinuity and guarded so
  that what is emitted increases.
\<close>

section \<open>State and operations\<close>

datatype wrap_bits = Mpeg33 | Rtp32 | NoWrap

fun wrap_modulus :: "wrap_bits \<Rightarrow> int option" where
  "wrap_modulus Mpeg33 = Some (2 ^ 33)"
| "wrap_modulus Rtp32 = Some (2 ^ 32)"
| "wrap_modulus NoWrap = None"

fun wrap_half :: "wrap_bits \<Rightarrow> int option" where
  "wrap_half Mpeg33 = Some (2 ^ 32)"
| "wrap_half Rtp32 = Some (2 ^ 31)"
| "wrap_half NoWrap = None"

definition DEFAULT_DISCONTINUITY_NS :: int where "DEFAULT_DISCONTINUITY_NS = 10000000000"

record pts_normalizer =
  norm_wrap :: wrap_bits
  norm_timebase :: rational
  norm_cadence :: rational
  frame_period_ns :: int
  norm_discontinuity_ns :: int
  accumulated_wrap :: int
  last_raw :: "int option"
  last_raw_ns :: "int option"
  norm_offset :: int
  last_media_ns :: "int option"
  norm_pending :: bool

definition normalizer_new :: "wrap_bits \<Rightarrow> rational \<Rightarrow> rational \<Rightarrow> pts_normalizer" where
  "normalizer_new w tb c =
     (let period = (if is_valid c \<and> \<not> is_zero c
                    then max (rescale 1 (rat_new (den c) (num c)) ns_timebase) 1 else 1)
      in \<lparr>norm_wrap = w, norm_timebase = tb, norm_cadence = c, frame_period_ns = period,
          norm_discontinuity_ns = DEFAULT_DISCONTINUITY_NS, accumulated_wrap = 0, last_raw = None,
          last_raw_ns = None, norm_offset = 0, last_media_ns = None, norm_pending = False\<rparr>)"

definition with_discontinuity_ns :: "int \<Rightarrow> pts_normalizer \<Rightarrow> pts_normalizer" where
  "with_discontinuity_ns ns s = s\<lparr>norm_discontinuity_ns := ns\<rparr>"

definition norm_mark_discontinuity :: "pts_normalizer \<Rightarrow> pts_normalizer" where
  "norm_mark_discontinuity s = s\<lparr>norm_pending := True\<rparr>"

definition unwrap_raw :: "int \<Rightarrow> pts_normalizer \<Rightarrow> int \<times> pts_normalizer" where
  "unwrap_raw raw s =
     (case (wrap_modulus (norm_wrap s), wrap_half (norm_wrap s)) of
        (Some modulus, Some half) \<Rightarrow>
          let acc = (case last_raw s of
                       None \<Rightarrow> accumulated_wrap s
                     | Some last_v \<Rightarrow>
                         let delta = sat_sub 64 raw last_v
                         in if delta < - half then sat_add 64 (accumulated_wrap s) modulus
                            else if half < delta then sat_sub 64 (accumulated_wrap s) modulus
                            else accumulated_wrap s)
          in (sat_add 64 raw acc, s\<lparr>accumulated_wrap := acc, last_raw := Some raw\<rparr>)
      | _ \<Rightarrow> (raw, s\<lparr>last_raw := Some raw\<rparr>))"

datatype input_error = InvalidTimebase | PacerNotAnchored

text \<open>Step (1): the raw value in nanoseconds, synthesised when the stamp is missing.\<close>

definition raw_nanos :: "int option \<Rightarrow> pts_normalizer \<Rightarrow> int \<times> pts_normalizer" where
  "raw_nanos raw s =
     (case raw of
        Some value \<Rightarrow>
          let (unwrapped, s') = unwrap_raw value s
          in (rescale unwrapped (norm_timebase s) ns_timebase, s')
      | None \<Rightarrow>
          let base = (case last_raw_ns s of Some v \<Rightarrow> v | None \<Rightarrow> 0)
          in (sat_add 64 base (frame_period_ns s), s))"

definition raw_jump :: "int \<Rightarrow> pts_normalizer \<Rightarrow> bool" where
  "raw_jump raw_ns s \<longleftrightarrow>
     norm_pending s \<or>
     (case last_raw_ns s of
        None \<Rightarrow> False
      | Some prev \<Rightarrow> norm_discontinuity_ns s < wrap_abs 64 (sat_sub 64 raw_ns prev))"

text \<open>Step (2): the media instant and the offset it fixes.\<close>

definition media_instant ::
  "int option \<Rightarrow> int \<Rightarrow> wallclock_ref option \<Rightarrow> int \<Rightarrow> pts_normalizer \<Rightarrow> int \<times> int" where
  "media_instant raw master_now_ns wref raw_ns s =
     (if last_raw_ns s = None then
        let anchor_ns = (case (wref, raw) of (Some wc, Some pts) \<Rightarrow> wall_at wc pts | _ \<Rightarrow> master_now_ns)
        in (anchor_ns, sat_sub 64 anchor_ns raw_ns)
      else if raw_jump raw_ns s then
        let continue_at = sat_add 64 (case last_media_ns s of Some v \<Rightarrow> v | None \<Rightarrow> master_now_ns)
                            (frame_period_ns s)
        in (continue_at, sat_sub 64 continue_at raw_ns)
      else (sat_add 64 raw_ns (norm_offset s), norm_offset s))"

definition monotonic_guard :: "int option \<Rightarrow> int \<Rightarrow> int" where
  "monotonic_guard last_media media_ns =
     (case last_media of
        Some prev \<Rightarrow> if media_ns \<le> prev then sat_add 64 prev 1 else media_ns
      | None \<Rightarrow> media_ns)"

definition normalize_wallclock ::
  "int option \<Rightarrow> int \<Rightarrow> wallclock_ref option \<Rightarrow> pts_normalizer \<Rightarrow> (input_error + media_time) \<times> pts_normalizer" where
  "normalize_wallclock raw master_now_ns wref s =
     (if \<not> is_valid (norm_timebase s) then (Inl InvalidTimebase, s)
      else
        let (raw_ns, s1) = raw_nanos raw s;
            (media_ns, off) = media_instant raw master_now_ns wref raw_ns s1;
            guarded = monotonic_guard (last_media_ns s1) media_ns
        in (Inr guarded,
            s1\<lparr>norm_pending := False, norm_offset := off, last_raw_ns := Some raw_ns,
               last_media_ns := Some guarded\<rparr>))"

definition normalize_pts :: "int option \<Rightarrow> int \<Rightarrow> pts_normalizer \<Rightarrow> (input_error + media_time) \<times> pts_normalizer" where
  "normalize_pts raw master_now_ns s = normalize_wallclock raw master_now_ns None s"

section \<open>Sequences of calls\<close>

datatype norm_op = OpMark | OpFrame "int option" int "wallclock_ref option"

fun norm_run :: "norm_op list \<Rightarrow> pts_normalizer \<Rightarrow> int list \<times> pts_normalizer" where
  "norm_run [] s = ([], s)"
| "norm_run (OpMark # ops) s = norm_run ops (norm_mark_discontinuity s)"
| "norm_run (OpFrame raw now w # ops) s =
     (let (r, s') = normalize_wallclock raw now w s;
          (ms, s'') = norm_run ops s'
      in ((case r of Inl _ \<Rightarrow> ms | Inr m \<Rightarrow> m # ms), s''))"

lemma raw_nanos_frame [simp]:
  "last_media_ns (snd (raw_nanos raw s)) = last_media_ns s"
  "norm_timebase (snd (raw_nanos raw s)) = norm_timebase s"
  by (auto simp: raw_nanos_def unwrap_raw_def Let_def case_prod_beta split: option.split)

lemma normalize_wallclock_cases:
  assumes "normalize_wallclock raw now w s = (r, s')"
  shows "(r = Inl InvalidTimebase \<and> s' = s \<and> \<not> is_valid (norm_timebase s)) \<or>
     (\<exists>m media. r = Inr m \<and> m = monotonic_guard (last_media_ns s) media \<and>
        last_media_ns s' = Some m \<and> norm_timebase s' = norm_timebase s)"
  using assms by (auto simp: normalize_wallclock_def Let_def case_prod_beta split: if_splits)

lemma monotonic_guard_less:
  assumes "monotonic_guard (Some prev) media \<noteq> i_max 64" and "in_i 64 prev"
  shows "prev < monotonic_guard (Some prev) media"
proof (cases "media \<le> prev")
  case True
  then have m: "monotonic_guard (Some prev) media = sat 64 (prev + 1)"
    by (simp add: monotonic_guard_def sat_add_def)
  with assms have "prev + 1 \<le> i_max 64" unfolding sat_def in_i_def by linarith
  with assms(2) have "in_i 64 (prev + 1)" by (simp add: in_i_def)
  with m show ?thesis by simp
qed (simp add: monotonic_guard_def)

lemma norm_run_increasing:
  assumes "\<forall>m \<in> set (fst (norm_run ops s)). in_i 64 m \<and> m < i_max 64"
    and "\<forall>p. last_media_ns s = Some p \<longrightarrow> in_i 64 p"
  shows "sorted_wrt (<) (fst (norm_run ops s)) \<and>
     (\<forall>p. last_media_ns s = Some p \<longrightarrow> (\<forall>m \<in> set (fst (norm_run ops s)). p < m))"
  using assms
proof (induction ops s rule: norm_run.induct)
  case (1 s)
  then show ?case by simp
next
  case (2 ops s)
  then show ?case by (simp add: norm_mark_discontinuity_def)
next
  case (3 raw now w ops s)
  obtain r s' where r: "normalize_wallclock raw now w s = (r, s')" by force
  obtain ms s'' where ms: "norm_run ops s' = (ms, s'')" by force
  note IH = 3(1) [OF r [symmetric] refl]
  from normalize_wallclock_cases [OF r] show ?case
  proof (elim disjE conjE exE)
    assume "r = Inl InvalidTimebase" "s' = s"
    then show ?thesis using IH 3(2,3) r ms by simp
  next
    fix m media
    assume m: "r = Inr m" "m = monotonic_guard (last_media_ns s) media" "last_media_ns s' = Some m"
    have range: "in_i 64 m" "m < i_max 64" "\<forall>x \<in> set ms. in_i 64 x \<and> x < i_max 64"
      using 3(2) r ms m(1) by simp_all
    then have "sorted_wrt (<) ms \<and> (\<forall>x \<in> set ms. m < x)"
      using IH ms m(3) by simp
    moreover have "p < m" if "last_media_ns s = Some p" for p
      using monotonic_guard_less [of p media] that m(2) range 3(3) by auto
    ultimately show ?thesis using r ms m(1) by auto
  qed
qed

lemma norm_new_media [simp]: "last_media_ns (normalizer_new w tb c) = None"
  by (simp add: normalizer_new_def Let_def)

text \<open>C13: The emitted timeline strictly increases. For every wrap width, timebase and cadence
  and every sequence of frames (with or without stamps, wrapped, jumping, out of order) and
  discontinuity marks, the emitted media times are strictly increasing as long as none reaches
  the last representable nanosecond.\<close>

theorem normalizer_strictly_increasing:
  assumes "\<forall>m \<in> set (fst (norm_run ops (normalizer_new w tb c))). in_i 64 m \<and> m < i_max 64"
  shows "sorted_wrt (<) (fst (norm_run ops (normalizer_new w tb c)))"
  using norm_run_increasing [OF assms] by simp

theorem normalizer_strictly_increasing_witness:
  "sorted_wrt (<) (fst (norm_run
     [OpFrame (Some 8589934000) 5000 None, OpFrame (Some 3000) 6000 None, OpFrame None 7000 None,
      OpMark, OpFrame (Some 0) 8000 None]
     (normalizer_new Mpeg33 (rat_new 1 90000) (rat_new 25 1))))"
  by (rule normalizer_strictly_increasing)
    (simp add: normalizer_new_def normalize_wallclock_def raw_nanos_def unwrap_raw_def Let_def
      media_instant_def raw_jump_def monotonic_guard_def norm_mark_discontinuity_def is_valid_def
      is_zero_def DEFAULT_DISCONTINUITY_NS_def rescale_def ns_timebase_def NANOS_PER_SEC_def
      sat_mul_def sat_add_def sat_sub_def sat_def i_simps wrap_add_def wrap_sub_def wrap_neg_def
      wrap_abs_def wrap_def signed_take_bit_int_eq_self sdiv_nonneg sdiv_neg in_i_def try_i_def)

section \<open>Unwrapping\<close>

fun unwrap_run :: "int list \<Rightarrow> pts_normalizer \<Rightarrow> int list" where
  "unwrap_run [] s = []"
| "unwrap_run (raw # raws) s = (let (u, s') = unwrap_raw raw s in u # unwrap_run raws s')"

text \<open>
  The specification: a source's true 64-bit stamps, of which it sends the residues. Between
  two frames the true stamp moves, either way, by less than half the modulus.
\<close>

fun steps_below :: "int \<Rightarrow> int list \<Rightarrow> bool" where
  "steps_below h (a # b # l) \<longleftrightarrow> \<bar>b - a\<bar> < h \<and> steps_below h (b # l)"
| "steps_below h l \<longleftrightarrow> True"

lemma residue_delta:
  fixes a b M h :: int
  assumes "0 < h" and "M = 2 * h" and "\<bar>b - a\<bar> < h"
  shows "b div M = (if b mod M - a mod M < - h then a div M + 1
     else if h < b mod M - a mod M then a div M - 1 else a div M)"
proof -
  define q where "q = b div M - a div M"
  have r: "0 \<le> a mod M" "a mod M < M" "0 \<le> b mod M" "b mod M < M"
    using assms(1,2) by simp_all
  have d: "b - a = q * M + (b mod M - a mod M)"
    using div_mult_mod_eq [of a M] div_mult_mod_eq [of b M] by (simp add: q_def algebra_simps)
  have "q < 2"
  proof (rule ccontr)
    assume "\<not> q < 2"
    then have "2 * M \<le> q * M" using assms(1,2) by (intro mult_right_mono) simp_all
    then show False using d r assms by linarith
  qed
  moreover have "- 2 < q"
  proof (rule ccontr)
    assume "\<not> - 2 < q"
    then have "q * M \<le> - 2 * M" using assms(1,2) by (intro mult_right_mono) simp_all
    then show False using d r assms by linarith
  qed
  ultimately consider "q = 0" | "q = 1" | "q = - 1" by linarith
  then show ?thesis
    by cases (use d r assms in \<open>auto simp: q_def abs_less_iff split: if_splits\<close>)
qed

definition unwrap_state :: "int \<Rightarrow> int \<Rightarrow> int \<Rightarrow> pts_normalizer \<Rightarrow> bool" where
  "unwrap_state M k0 t s \<longleftrightarrow>
     last_raw s = Some (t mod M) \<and> accumulated_wrap s = (t div M - k0) * M"

lemma wrap_modulus_cases:
  "wrap_modulus w = Some M \<Longrightarrow> wrap_half w = Some (M div 2) \<and> M = 2 * (M div 2) \<and> 0 < M div 2 \<and> M \<le> 8589934592"
  by (cases w) auto

lemma unwrap_step:
  assumes M: "wrap_modulus (norm_wrap s) = Some M" and st: "unwrap_state M k0 t s"
    and step: "\<bar>t' - t\<bar> < M div 2" and small: "\<bar>t'\<bar> < 2 ^ 60" "\<bar>k0 * M\<bar> < 2 ^ 60"
  shows "\<exists>s'. unwrap_raw (t' mod M) s = (t' - k0 * M, s') \<and> unwrap_state M k0 t' s' \<and>
     norm_wrap s' = norm_wrap s"
proof -
  define h where "h = M div 2"
  have h: "wrap_half (norm_wrap s) = Some h" "M = 2 * h" "0 < h" "M \<le> 8589934592"
    using wrap_modulus_cases [OF M] by (auto simp: h_def)
  have r: "0 \<le> t mod M" "t mod M < M" "0 \<le> t' mod M" "t' mod M < M"
    using h(2,3) by simp_all
  have "in_i 64 (t' mod M - t mod M)"
    using r h(4) unfolding in_i_def i_simps by (intro conjI) linarith+
  then have sub: "sat_sub 64 (t' mod M) (t mod M) = t' mod M - t mod M"
    by (simp add: sat_sub_def)
  define acc where "acc = (if t' mod M - t mod M < - h then sat_add 64 (accumulated_wrap s) M
     else if h < t' mod M - t mod M then sat_sub 64 (accumulated_wrap s) M else accumulated_wrap s)"
  have tm: "t' = t' div M * M + t' mod M" by simp
  have k: "(t' div M - k0) * M = t' - t' mod M - k0 * M"
    by (simp add: algebra_simps minus_mod_eq_mult_div)
  define N :: int where "N = 2 ^ 60"
  have N: "N = 1152921504606846976" by (simp add: N_def)
  have "- N < t'" "t' < N" "- N < k0 * M" "k0 * M < N"
    using small unfolding N_def [symmetric] by linarith+
  then have small': "- 4611686018427387904 < (t' div M - k0) * M" "(t' div M - k0) * M < 4611686018427387904"
    using r h(4) unfolding k N by linarith+
  have "acc = (t' div M - k0) * M"
  proof -
    have rng: "in_i 64 ((t' div M - k0) * M)" using small' by (simp add: in_i_def i_simps)
    have A: "accumulated_wrap s = (t div M - k0) * M" using st by (simp add: unwrap_state_def)
    have fwd: "(t div M + 1 - k0) * M = accumulated_wrap s + M"
      and bwd: "(t div M - 1 - k0) * M = accumulated_wrap s - M"
      unfolding A by (simp_all add: algebra_simps)
    have k': "t' div M = (if t' mod M - t mod M < - h then t div M + 1
        else if h < t' mod M - t mod M then t div M - 1 else t div M)"
      using residue_delta [OF h(3,2), of t' t] step by (simp add: h_def)
    from rng show ?thesis
      unfolding acc_def k' sat_add_def sat_sub_def
      by (auto simp: fwd bwd A [symmetric] split: if_splits)
  qed
  moreover have "t' mod M + (t' div M - k0) * M = t' - k0 * M" unfolding k by simp
  moreover have "in_i 64 (t' - k0 * M)"
    using small by (auto simp: in_i_def i_simps abs_less_iff)
  ultimately show ?thesis
    using M h(1) st by (simp add: unwrap_raw_def unwrap_state_def Let_def sub acc_def [symmetric] sat_add_def)
qed

lemma unwrap_run_from:
  assumes "wrap_modulus (norm_wrap s) = Some M" and "unwrap_state M k0 t s"
    and "steps_below (M div 2) (t # ts)" and "\<forall>x \<in> set ts. \<bar>x\<bar> < 2 ^ 60" and "\<bar>k0 * M\<bar> < 2 ^ 60"
  shows "unwrap_run (map (\<lambda>x. x mod M) ts) s = map (\<lambda>x. x - k0 * M) ts"
  using assms
proof (induction ts arbitrary: t s)
  case (Cons t' ts)
  from unwrap_step [OF Cons.prems(1,2), of t'] Cons.prems(3-5) obtain s' where
    s': "unwrap_raw (t' mod M) s = (t' - k0 * M, s')" "unwrap_state M k0 t' s'" "norm_wrap s' = norm_wrap s"
    by auto
  with Cons.IH [of s' t'] Cons.prems show ?case by simp
qed simp

text \<open>C14: Unwrapping recovers the true timeline. If a source sends the low bits of its true
  stamps (33 bits for MPEG-TS, 32 for RTP) and consecutive true stamps differ, in either
  direction, by less than half the modulus, then the unwrapped values are the true stamps up to
  one constant multiple of the modulus, through any number of forward and backward wraps.\<close>

theorem unwrap_recovers_timeline:
  assumes "wrap_modulus w = Some M"
    and "steps_below (M div 2) (t # ts)" and "\<forall>x \<in> set (t # ts). \<bar>x\<bar> < 2 ^ 59"
  shows "unwrap_run (map (\<lambda>x. x mod M) (t # ts)) (normalizer_new w tb c) =
     map (\<lambda>x. x - t div M * M) (t # ts)"
proof -
  note m = wrap_modulus_cases [OF assms(1)]
  let ?s = "normalizer_new w tb c"
  have w: "norm_wrap ?s = w" "last_raw ?s = None" "accumulated_wrap ?s = 0"
    by (simp_all add: normalizer_new_def Let_def)
  have M0: "0 < M" using m by linarith
  then have r: "0 \<le> t mod M" "t mod M < M" by simp_all
  have "M \<le> 8589934592" using m by simp
  with r have "in_i 64 (t mod M)" unfolding in_i_def i_simps by (intro conjI) linarith+
  then obtain s1 where s1: "unwrap_raw (t mod M) ?s = (t mod M, s1)" "norm_wrap s1 = w"
      "unwrap_state M (t div M) t s1"
    using m assms(1) w by (simp add: unwrap_raw_def Let_def unwrap_state_def sat_add_def)
  have tm: "t div M * M = t - t mod M" by (simp add: minus_mod_eq_div_mult)
  have "\<bar>t div M * M\<bar> < 2 ^ 60"
  proof -
    have "\<bar>t\<bar> < 576460752303423488" using assms(3) by simp
    then have "\<bar>t - t mod M\<bar> < 1152921504606846976" using r \<open>M \<le> 8589934592\<close> by linarith
    then show ?thesis unfolding tm by simp
  qed
  moreover have "\<forall>x \<in> set ts. \<bar>x\<bar> < 2 ^ 60" using assms(3) by fastforce
  ultimately have "unwrap_run (map (\<lambda>x. x mod M) ts) s1 = map (\<lambda>x. x - t div M * M) ts"
    using assms(1,2) s1 by (intro unwrap_run_from [of _ _ _ t]) auto
  then show ?thesis using s1(1) tm by simp
qed

theorem unwrap_recovers_timeline_witness:
  "unwrap_run (map (\<lambda>x. x mod 8589934592) [8589934000, 8589934700, 8589934100])
     (normalizer_new Mpeg33 (rat_new 1 90000) (rat_new 25 1)) = [8589934000, 8589934700, 8589934100]"
  using unwrap_recovers_timeline [of Mpeg33 8589934592 8589934000 "[8589934700, 8589934100]"
      "rat_new 1 90000" "rat_new 25 1"]
  by simp

end
