(* ===== verification/Input_Pacer.thy ===== *)
theory Input_Pacer
  imports Media_Time
begin

text \<open>
  \<open>multiview-input/src/pacer.rs\<close>: wall-clock pacing of an input. The anchor ties one frame to
  one wall instant; every later deadline is the anchor plus the exact difference of stamps.
\<close>

definition PACER_DISCONTINUITY_NS :: int where "PACER_DISCONTINUITY_NS = 10000000000"

record pacer_config =
  max_catchup_rate_num :: int
  max_catchup_rate_den :: int
  pacer_discontinuity_ns :: int

definition pacer_config_default :: pacer_config where
  "pacer_config_default = \<lparr>max_catchup_rate_num = 5, max_catchup_rate_den = 4,
     pacer_discontinuity_ns = PACER_DISCONTINUITY_NS\<rparr>"

datatype release = ReleaseNow | ReleaseAt int

record input_pacer =
  ip_config :: pacer_config
  ip_anchor :: "(int \<times> int) option"
  ip_last_pts :: "int option"
  ip_pending :: bool

definition ip_new :: "pacer_config \<Rightarrow> input_pacer" where
  "ip_new c = \<lparr>ip_config = c, ip_anchor = None, ip_last_pts = None, ip_pending = False\<rparr>"

definition ip_is_anchored :: "input_pacer \<Rightarrow> bool" where
  "ip_is_anchored p \<longleftrightarrow> ip_anchor p \<noteq> None"

definition ip_mark_discontinuity :: "input_pacer \<Rightarrow> input_pacer" where
  "ip_mark_discontinuity p = p\<lparr>ip_pending := True\<rparr>"

definition deadline_for :: "input_pacer \<Rightarrow> int \<Rightarrow> int option" where
  "deadline_for p pts_ns =
     (case ip_anchor p of
        None \<Rightarrow> None
      | Some (anchor_wall, pts0) \<Rightarrow> Some (sat_add 64 anchor_wall (sat_sub 64 pts_ns pts0)))"

definition pts_jump :: "input_pacer \<Rightarrow> int \<Rightarrow> bool" where
  "pts_jump p pts_ns \<longleftrightarrow>
     ip_pending p \<or>
     (case ip_last_pts p of
        None \<Rightarrow> False
      | Some prev \<Rightarrow> pacer_discontinuity_ns (ip_config p) < wrap_abs 64 (sat_sub 64 pts_ns prev))"

definition submit :: "media_time \<Rightarrow> int \<Rightarrow> input_pacer \<Rightarrow> release \<times> input_pacer" where
  "submit pts_ns now_ns p =
     (let discontinuity = pts_jump p pts_ns;
          p1 = p\<lparr>ip_pending := False\<rparr>
      in if ip_anchor p1 = None \<or> discontinuity
         then (ReleaseNow, p1\<lparr>ip_anchor := Some (now_ns, pts_ns), ip_last_pts := Some pts_ns\<rparr>)
         else
           let p2 = p1\<lparr>ip_last_pts := Some pts_ns\<rparr>;
               deadline = (case deadline_for p2 pts_ns of Some d \<Rightarrow> d | None \<Rightarrow> now_ns)
           in (if deadline \<le> now_ns then ReleaseNow else ReleaseAt deadline, p2))"

datatype pacer_error = NotAnchored

definition release_deadline :: "input_pacer \<Rightarrow> media_time \<Rightarrow> pacer_error + int" where
  "release_deadline p pts_ns =
     (case deadline_for p pts_ns of Some d \<Rightarrow> Inr d | None \<Rightarrow> Inl NotAnchored)"

definition release_deadline_catchup :: "input_pacer \<Rightarrow> media_time \<Rightarrow> int" where
  "release_deadline_catchup p pts_ns =
     (case ip_anchor p of
        None \<Rightarrow> pts_ns
      | Some (anchor_wall, pts0) \<Rightarrow>
          let nominal_interval = sat_sub 64 pts_ns pts0
          in if nominal_interval \<le> 0 then sat_add 64 anchor_wall nominal_interval
             else
               let n = max_catchup_rate_num (ip_config p);
                   d = max_catchup_rate_den (ip_config p);
                   shrunk = (if d \<le> n \<and> 0 < d
                             then (let scaled = sat_mul 128 nominal_interval d sdiv n
                                   in case try_i 64 scaled of Some v \<Rightarrow> v | None \<Rightarrow> nominal_interval)
                             else nominal_interval)
               in sat_add 64 anchor_wall shrunk)"

section \<open>Runs without a discontinuity\<close>

fun submit_run :: "(int \<times> int) list \<Rightarrow> input_pacer \<Rightarrow> release list \<times> input_pacer" where
  "submit_run [] p = ([], p)"
| "submit_run ((pts, now) # fs) p =
     (let (r, p') = submit pts now p; (rs, p'') = submit_run fs p' in (r # rs, p''))"

fun no_jumps :: "int \<Rightarrow> int \<Rightarrow> (int \<times> int) list \<Rightarrow> bool" where
  "no_jumps bound prev [] \<longleftrightarrow> True"
| "no_jumps bound prev ((pts, now) # fs) \<longleftrightarrow>
     in_i 64 (pts - prev) \<and> \<bar>pts - prev\<bar> \<le> i_max 64 \<and> \<bar>pts - prev\<bar> \<le> bound \<and> no_jumps bound pts fs"

definition anchored_at :: "int \<Rightarrow> int \<Rightarrow> int \<Rightarrow> input_pacer \<Rightarrow> bool" where
  "anchored_at w0 p0 prev p \<longleftrightarrow>
     ip_anchor p = Some (w0, p0) \<and> ip_last_pts p = Some prev \<and> \<not> ip_pending p"

lemma submit_anchored:
  assumes "anchored_at w0 p0 prev p" and "in_i 64 (pts - prev)" and "\<bar>pts - prev\<bar> \<le> i_max 64"
    and "\<bar>pts - prev\<bar> \<le> pacer_discontinuity_ns (ip_config p)"
  shows "fst (submit pts now p) =
       (if sat_add 64 w0 (sat_sub 64 pts p0) \<le> now then ReleaseNow
        else ReleaseAt (sat_add 64 w0 (sat_sub 64 pts p0)))"
    and "anchored_at w0 p0 pts (snd (submit pts now p))"
    and "ip_config (snd (submit pts now p)) = ip_config p"
proof -
  have "in_i 64 \<bar>pts - prev\<bar>"
    using assms(3) i_min_neg [of 64] unfolding in_i_def by (intro conjI) linarith+
  then have "wrap_abs 64 (pts - prev) = \<bar>pts - prev\<bar>" by (intro wrap_abs_id) simp_all
  then have "\<not> pts_jump p pts"
    using assms by (simp add: pts_jump_def anchored_at_def sat_sub_def)
  then show "fst (submit pts now p) =
       (if sat_add 64 w0 (sat_sub 64 pts p0) \<le> now then ReleaseNow
        else ReleaseAt (sat_add 64 w0 (sat_sub 64 pts p0)))"
    "anchored_at w0 p0 pts (snd (submit pts now p))"
    "ip_config (snd (submit pts now p)) = ip_config p"
    using assms(1) by (auto simp: submit_def Let_def anchored_at_def deadline_for_def)
qed

definition release_of :: "int \<Rightarrow> int \<Rightarrow> int \<times> int \<Rightarrow> release" where
  "release_of w0 p0 f =
     (let d = w0 + (fst f - p0) in if d \<le> snd f then ReleaseNow else ReleaseAt d)"

lemma submit_run_anchored:
  assumes "anchored_at w0 p0 prev p" and "no_jumps (pacer_discontinuity_ns (ip_config p)) prev fs"
    and "\<forall>(pts, now) \<in> set fs. in_i 64 (pts - p0) \<and> in_i 64 (w0 + (pts - p0))"
  shows "fst (submit_run fs p) = map (release_of w0 p0) fs"
  using assms
proof (induction fs p arbitrary: prev rule: submit_run.induct)
  case (2 pts now fs p)
  obtain r p' where r: "submit pts now p = (r, p')" by force
  note st = submit_anchored [OF 2(2), of pts now]
  have "r = release_of w0 p0 (pts, now)" "anchored_at w0 p0 pts p'" "ip_config p' = ip_config p"
    using st 2(3,4) r by (simp_all add: release_of_def Let_def sat_sub_def sat_add_def)
  with 2(1) [OF r [symmetric] refl] 2(3,4) r show ?case by (simp add: case_prod_beta)
qed simp

text \<open>Pacing never drifts. After the first frame anchors the pacer, and as long as no stamp
  jumps by more than the threshold, every frame is released exactly when the wall clock has
  advanced by its distance in media time from the anchor frame: a frame already due is
  released at once, any other is scheduled for precisely that instant, however long the run.\<close>

theorem pacer_never_drifts:
  assumes "0 < pacer_discontinuity_ns c" and "no_jumps (pacer_discontinuity_ns c) p0 fs"
    and "\<forall>(pts, now) \<in> set fs. in_i 64 (pts - p0) \<and> in_i 64 (w0 + (pts - p0))"
  shows "fst (submit_run ((p0, w0) # fs) (ip_new c)) = ReleaseNow # map (release_of w0 p0) fs"
proof -
  have "submit p0 w0 (ip_new c) = (ReleaseNow, (ip_new c)\<lparr>ip_anchor := Some (w0, p0), ip_last_pts := Some p0\<rparr>)"
    by (simp add: submit_def ip_new_def Let_def)
  moreover have "anchored_at w0 p0 p0 ((ip_new c)\<lparr>ip_anchor := Some (w0, p0), ip_last_pts := Some p0\<rparr>)"
    by (simp add: anchored_at_def ip_new_def)
  ultimately show ?thesis
    using submit_run_anchored [of w0 p0 p0 "(ip_new c)\<lparr>ip_anchor := Some (w0, p0), ip_last_pts := Some p0\<rparr>" fs] assms
    by (simp add: case_prod_beta ip_new_def)
qed

theorem pacer_never_drifts_witness:
  "fst (submit_run [(1000, 5000), (1040, 5010), (1080, 5200)] (ip_new pacer_config_default)) =
     [ReleaseNow, ReleaseAt 5040, ReleaseNow]"
  using pacer_never_drifts [of pacer_config_default 1000 "[(1040, 5010), (1080, 5200)]" 5000]
  by (simp add: pacer_config_default_def PACER_DISCONTINUITY_NS_def in_i_def i_simps release_of_def Let_def)

text \<open>Catch-up is bounded. For an anchored pacer with a rate of at least one, a frame after
  the anchor is released, when catching up, no later than its nominal deadline and no earlier
  than the anchor plus its media distance divided by the maximal rate (rounded down); without
  an anchor the nominal deadline is an error value.\<close>

theorem catchup_bounded:
  assumes "ip_anchor p = Some (w0, p0)" and "p0 < pts"
    and "0 < max_catchup_rate_den (ip_config p)"
    and "max_catchup_rate_den (ip_config p) \<le> max_catchup_rate_num (ip_config p)"
    and "max_catchup_rate_num (ip_config p) \<le> i_max 64"
    and "in_i 64 w0" and "in_i 64 (pts - p0)" and "in_i 64 (w0 + (pts - p0))"
  shows "release_deadline p pts = Inr (w0 + (pts - p0)) \<and>
     release_deadline_catchup p pts =
       w0 + (pts - p0) * max_catchup_rate_den (ip_config p) div max_catchup_rate_num (ip_config p) \<and>
     w0 \<le> release_deadline_catchup p pts \<and> release_deadline_catchup p pts \<le> w0 + (pts - p0)"
proof -
  define i where "i = pts - p0"
  define n where "n = max_catchup_rate_num (ip_config p)"
  define d where "d = max_catchup_rate_den (ip_config p)"
  have i: "0 < i" "in_i 64 i" "i \<le> i_max 64" using assms(2,7) by (auto simp: i_def in_i_def)
  have nd: "0 < d" "d \<le> n" "n \<le> i_max 64" "0 < n" using assms by (auto simp: n_def d_def)
  have "i * d \<le> i_max 64 * i_max 64" using i nd by (intro mult_mono) simp_all
  also have "\<dots> \<le> i_max 128" by (simp add: i_simps)
  finally have "in_i 128 (i * d)" using i nd by (intro in_i_abs) simp
  then have sc: "sat_mul 128 i d sdiv n = i * d div n"
    using i nd by (simp add: sat_mul_def sdiv_nonneg)
  have "i * d \<le> i * n" using i nd by (intro mult_left_mono) simp_all
  then have "i * d div n \<le> i * n div n" using nd by (intro zdiv_mono1) simp_all
  then have le: "i * d div n \<le> i" using nd by simp
  have ge: "0 \<le> i * d div n" using i nd by (simp add: pos_imp_zdiv_nonneg_iff)
  have in1: "in_i 64 (i * d div n)"
    using le ge i(3) i_min_neg [of 64] unfolding in_i_def by (intro conjI) linarith+
  have in2: "in_i 64 (w0 + i * d div n)"
    using le ge assms(6,8) unfolding in_i_def i_def [symmetric] by (intro conjI) linarith+
  have "release_deadline_catchup p pts = w0 + i * d div n"
    using assms(1) i nd in1 in2 assms(7)
    by (simp add: release_deadline_catchup_def Let_def sat_sub_def i_def [symmetric]
      n_def [symmetric] d_def [symmetric] sc sat_add_def)
  moreover have "release_deadline p pts = Inr (w0 + i)"
    using assms(1,7,8) by (simp add: release_deadline_def deadline_for_def sat_sub_def sat_add_def i_def)
  ultimately show ?thesis using le ge by (simp add: i_def n_def d_def)
qed

theorem catchup_bounded_witness:
  "release_deadline_catchup
     \<lparr>ip_config = pacer_config_default, ip_anchor = Some (100, 0), ip_last_pts = Some 0, ip_pending = False\<rparr> 1000
   = 900"
  using catchup_bounded [of "\<lparr>ip_config = pacer_config_default, ip_anchor = Some (100, 0),
      ip_last_pts = Some 0, ip_pending = False\<rparr>" 100 0 1000]
  by (simp add: pacer_config_default_def in_i_def i_simps)

end
