(* ===== verification/Reorder_Buffer.thy ===== *)
theory Reorder_Buffer
  imports Media_Time "HOL-Library.Multiset"
begin

text \<open>
  \<open>multiview-input/src/jitter.rs\<close>: the bounded reorder buffer. The standard library's binary
  heap of reversed entries is represented by the list of its entries in ascending order of
  \<open>(pts, seq)\<close>; the locale \<open>min_heap\<close> states what the buffer relies on (a heap is the multiset
  of what was pushed, and peek and pop concern a least entry) and is interpreted on that list.
\<close>

section \<open>Heaps as an interface\<close>

locale min_heap =
  fixes push :: "'e \<Rightarrow> 'h \<Rightarrow> 'h"
    and peek :: "'h \<Rightarrow> 'e option"
    and pop :: "'h \<Rightarrow> 'h"
    and elems :: "'h \<Rightarrow> 'e multiset"
    and before :: "'e \<Rightarrow> 'e \<Rightarrow> bool"
    and valid :: "'h \<Rightarrow> bool"
  assumes push_valid: "valid h \<Longrightarrow> \<forall>x \<in># elems h. before x e \<or> before e x \<Longrightarrow> valid (push e h)"
    and push_elems: "elems (push e h) = add_mset e (elems h)"
    and peek_None: "peek h = None \<longleftrightarrow> elems h = {#}"
    and peek_least: "valid h \<Longrightarrow> peek h = Some e \<Longrightarrow> e \<in># elems h \<and> (\<forall>x \<in># elems (pop h). before e x)"
    and pop_elems: "peek h = Some e \<Longrightarrow> elems h = add_mset e (elems (pop h))"
    and pop_valid: "valid h \<Longrightarrow> valid (pop h)"
begin

text \<open>Replacing the least entry by a later one keeps the largest entries.\<close>

lemma replace_least:
  assumes "valid h" and "peek h = Some m" and "before m e"
    and "\<forall>x \<in># elems h. before x e \<or> before e x"
  shows "add_mset m (elems (push e (pop h))) = add_mset e (elems h)"
    and "\<forall>x \<in># elems (push e (pop h)). before m x"
    and "valid (push e (pop h))"
  using assms peek_least [OF assms(1,2)] pop_elems [OF assms(2)]
  by (auto simp: push_elems intro!: push_valid pop_valid)

end

section \<open>Entries and the heap\<close>

record 'v rb_entry =
  re_pts :: media_time
  re_seq :: nat
  re_value :: 'v

definition entry_less :: "'v rb_entry \<Rightarrow> 'v rb_entry \<Rightarrow> bool" where
  "entry_less a b \<longleftrightarrow> re_pts a < re_pts b \<or> (re_pts a = re_pts b \<and> re_seq a < re_seq b)"

definition entry_cmp :: "'v rb_entry \<Rightarrow> 'v rb_entry \<Rightarrow> ordering" where
  "entry_cmp a b =
     (case cmp_of (re_pts a) (re_pts b) of Equal \<Rightarrow> cmp_of (re_seq a) (re_seq b) | r \<Rightarrow> r)"

definition entry_eq :: "'v rb_entry \<Rightarrow> 'v rb_entry \<Rightarrow> bool" where
  "entry_eq a b \<longleftrightarrow> re_pts a = re_pts b \<and> re_seq a = re_seq b"

fun heap_push :: "'v rb_entry \<Rightarrow> 'v rb_entry list \<Rightarrow> 'v rb_entry list" where
  "heap_push e [] = [e]"
| "heap_push e (x # h) = (if entry_cmp e x = Less then e # x # h else x # heap_push e h)"

definition heap_peek :: "'v rb_entry list \<Rightarrow> 'v rb_entry option" where
  "heap_peek h = (case h of [] \<Rightarrow> None | e # _ \<Rightarrow> Some e)"

definition heap_valid :: "'v rb_entry list \<Rightarrow> bool" where
  "heap_valid h \<longleftrightarrow> sorted_wrt entry_less h"

lemma entry_cmp_iff:
  "entry_cmp a b = Less \<longleftrightarrow> entry_less a b" "entry_cmp a b = Greater \<longleftrightarrow> entry_less b a"
  "entry_cmp a b = Equal \<longleftrightarrow> entry_eq a b"
  by (auto simp: entry_cmp_def entry_less_def entry_eq_def cmp_of_def)

lemma entry_less_trans: "entry_less a b \<Longrightarrow> entry_less b c \<Longrightarrow> entry_less a c"
  by (auto simp: entry_less_def)

lemma entry_less_irrefl [simp]: "\<not> entry_less a a"
  by (simp add: entry_less_def)

lemma mset_heap_push [simp]: "mset (heap_push e h) = add_mset e (mset h)"
  by (induction h) simp_all

lemma set_heap_push [simp]: "set (heap_push e h) = insert e (set h)"
  by (induction h) auto

lemma length_heap_push [simp]: "length (heap_push e h) = Suc (length h)"
  by (induction h) simp_all

lemma heap_push_valid:
  "heap_valid h \<Longrightarrow> \<forall>x \<in> set h. entry_less x e \<or> entry_less e x \<Longrightarrow> heap_valid (heap_push e h)"
proof (induction h)
  case (Cons x h)
  then have "entry_less x e" if "\<not> entry_less e x" using that by auto
  with Cons show ?case
    by (auto simp: heap_valid_def entry_cmp_iff intro: entry_less_trans)
qed (simp add: heap_valid_def)

interpretation rb_heap: min_heap heap_push heap_peek tl mset entry_less heap_valid
proof
  fix h :: "'v rb_entry list" and e
  show "heap_valid h \<Longrightarrow> \<forall>x \<in># mset h. entry_less x e \<or> entry_less e x \<Longrightarrow> heap_valid (heap_push e h)"
    by (simp add: heap_push_valid)
  show "mset (heap_push e h) = add_mset e (mset h)" by simp
  show "heap_peek h = None \<longleftrightarrow> mset h = {#}" by (cases h) (simp_all add: heap_peek_def)
  show "heap_valid h \<Longrightarrow> heap_peek h = Some e \<Longrightarrow> e \<in># mset h \<and> (\<forall>x \<in># mset (tl h). entry_less e x)"
    by (cases h) (auto simp: heap_peek_def heap_valid_def)
  show "heap_peek h = Some e \<Longrightarrow> mset h = add_mset e (mset (tl h))"
    by (cases h) (simp_all add: heap_peek_def)
  show "heap_valid h \<Longrightarrow> heap_valid (tl h)" by (cases h) (simp_all add: heap_valid_def)
qed

section \<open>The buffer\<close>

datatype reorder_outcome = Buffered | DroppedLate | DroppedToMakeRoom

record 'v reorder_buffer =
  rb_heap_of :: "'v rb_entry list"
  rb_capacity :: nat
  rb_next_seq :: nat
  rb_watermark :: "media_time option"

definition rb_new :: "nat \<Rightarrow> 'v reorder_buffer" where
  "rb_new capacity = \<lparr>rb_heap_of = [], rb_capacity = max capacity 1, rb_next_seq = 0, rb_watermark = None\<rparr>"

definition rb_len :: "'v reorder_buffer \<Rightarrow> nat" where
  "rb_len b = length (rb_heap_of b)"

definition rb_push :: "media_time \<Rightarrow> 'v \<Rightarrow> 'v reorder_buffer \<Rightarrow> reorder_outcome \<times> 'v reorder_buffer" where
  "rb_push pts v b =
     (if (case rb_watermark b of Some w \<Rightarrow> pts \<le> w | None \<Rightarrow> False) then (DroppedLate, b)
      else
        let e = \<lparr>re_pts = pts, re_seq = rb_next_seq b, re_value = v\<rparr>;
            b1 = b\<lparr>rb_next_seq := (rb_next_seq b + 1) mod 2 ^ 64\<rparr>
        in if length (rb_heap_of b1) < rb_capacity b1
           then (Buffered, b1\<lparr>rb_heap_of := heap_push e (rb_heap_of b1)\<rparr>)
           else (case heap_peek (rb_heap_of b1) of
                   Some oldest \<Rightarrow>
                     if entry_cmp e oldest = Greater
                     then (DroppedToMakeRoom, b1\<lparr>rb_heap_of := heap_push e (tl (rb_heap_of b1))\<rparr>)
                     else (DroppedToMakeRoom, b1)
                 | None \<Rightarrow> (DroppedToMakeRoom, b1)))"

definition rb_pop :: "'v reorder_buffer \<Rightarrow> (media_time \<times> 'v) option \<times> 'v reorder_buffer" where
  "rb_pop b =
     (case heap_peek (rb_heap_of b) of
        None \<Rightarrow> (None, b)
      | Some e \<Rightarrow> (Some (re_pts e, re_value e),
                   b\<lparr>rb_heap_of := tl (rb_heap_of b), rb_watermark := Some (re_pts e)\<rparr>))"

definition rb_peek_pts :: "'v reorder_buffer \<Rightarrow> media_time option" where
  "rb_peek_pts b = map_option re_pts (heap_peek (rb_heap_of b))"

text \<open>The iterator of \<open>drain_ready\<close>, run to its end.\<close>

function drain_ready :: "media_time \<Rightarrow> 'v reorder_buffer \<Rightarrow> 'v list \<times> 'v reorder_buffer" where
  "drain_ready up_to b =
     (case rb_peek_pts b of
        Some pts \<Rightarrow>
          if pts \<le> up_to
          then (case rb_pop b of
                  (Some (p, v), b') \<Rightarrow> (let (vs, b'') = drain_ready up_to b' in (v # vs, b''))
                | (None, b') \<Rightarrow> ([], b'))
          else ([], b)
      | None \<Rightarrow> ([], b))"
  by pat_completeness auto
termination
  by (relation "measure (\<lambda>(t, b). length (rb_heap_of b))")
    (auto simp: rb_peek_pts_def rb_pop_def heap_peek_def split: list.splits)

declare drain_ready.simps [simp del]

section \<open>Invariant\<close>

definition rb_inv :: "'v reorder_buffer \<Rightarrow> bool" where
  "rb_inv b \<longleftrightarrow>
     heap_valid (rb_heap_of b) \<and> length (rb_heap_of b) \<le> rb_capacity b \<and> 0 < rb_capacity b \<and>
     (\<forall>e \<in> set (rb_heap_of b). re_seq e < rb_next_seq b) \<and> rb_next_seq b < 2 ^ 64 \<and>
     (\<forall>w. rb_watermark b = Some w \<longrightarrow> (\<forall>e \<in> set (rb_heap_of b). w \<le> re_pts e))"

lemma rb_new_inv: "rb_inv (rb_new c)"
  by (simp add: rb_inv_def rb_new_def heap_valid_def)

lemma rb_push_cases:
  assumes inv: "rb_inv b" and room: "rb_next_seq b + 1 < 2 ^ 64" and r: "rb_push pts v b = (r, b')"
  defines "e \<equiv> \<lparr>re_pts = pts, re_seq = rb_next_seq b, re_value = v\<rparr>"
  shows "(r = DroppedLate \<and> b' = b \<and> (\<exists>w. rb_watermark b = Some w \<and> pts \<le> w)) \<or>
     ((\<forall>w. rb_watermark b = Some w \<longrightarrow> w < pts) \<and> rb_next_seq b' = Suc (rb_next_seq b) \<and>
      rb_watermark b' = rb_watermark b \<and> rb_capacity b' = rb_capacity b \<and> heap_valid (rb_heap_of b') \<and>
      ((r = Buffered \<and> rb_len b < rb_capacity b \<and> rb_heap_of b' = heap_push e (rb_heap_of b)) \<or>
       (r = DroppedToMakeRoom \<and> rb_len b = rb_capacity b \<and>
        (\<exists>m. add_mset m (mset (rb_heap_of b')) = add_mset e (mset (rb_heap_of b)) \<and>
             (\<forall>x \<in> set (rb_heap_of b'). entry_less m x)))))"
proof (cases "\<exists>w. rb_watermark b = Some w \<and> pts \<le> w")
  case True
  then show ?thesis using r by (auto simp: rb_push_def)
next
  case False
  have valid: "heap_valid (rb_heap_of b)" and len: "length (rb_heap_of b) \<le> rb_capacity b"
    and cap: "0 < rb_capacity b" and seqs: "\<forall>x \<in> set (rb_heap_of b). re_seq x < rb_next_seq b"
    using inv by (auto simp: rb_inv_def)
  have total: "\<forall>x \<in> set (rb_heap_of b). entry_less x e \<or> entry_less e x"
    using seqs by (fastforce simp: entry_less_def e_def)
  have nb: "\<not> (case rb_watermark b of Some w \<Rightarrow> pts \<le> w | None \<Rightarrow> False)"
    using False by (auto split: option.split)
  have n1: "(rb_next_seq b + 1) mod 2 ^ 64 = Suc (rb_next_seq b)" using room by simp
  define b1 where "b1 = b\<lparr>rb_next_seq := Suc (rb_next_seq b)\<rparr>"
  note push = r [unfolded rb_push_def if_not_P [OF nb] n1 Let_def, folded e_def b1_def]
  have b1: "rb_heap_of b1 = rb_heap_of b" "rb_capacity b1 = rb_capacity b" "rb_watermark b1 = rb_watermark b"
    "rb_next_seq b1 = Suc (rb_next_seq b)" by (simp_all add: b1_def)
  show ?thesis
  proof (cases "rb_len b < rb_capacity b")
    case True
    then have "r = Buffered" "b' = b1\<lparr>rb_heap_of := heap_push e (rb_heap_of b)\<rparr>"
      using push by (auto simp: b1 rb_len_def)
    then show ?thesis
      using True False heap_push_valid [OF valid total] by (auto simp: b1 not_le)
  next
    case full: False
    then have lc: "rb_len b = rb_capacity b" using len by (simp add: rb_len_def)
    then obtain m h where h: "rb_heap_of b = m # h" using cap by (cases "rb_heap_of b") (auto simp: rb_len_def)
    then have pk: "heap_peek (rb_heap_of b) = Some m" by (simp add: heap_peek_def)
    show ?thesis
    proof (cases "entry_less m e")
      case True
      then have "r = DroppedToMakeRoom" "b' = b1\<lparr>rb_heap_of := heap_push e (tl (rb_heap_of b))\<rparr>"
        using push full by (auto simp: b1 pk entry_cmp_iff rb_len_def)
      then show ?thesis
        using rb_heap.replace_least [OF valid pk True] total False lc
        by (intro disjI2) (auto simp: b1 not_le intro!: exI [of _ m])
    next
      case ge: False
      then have "r = DroppedToMakeRoom" "b' = b1"
        using push full by (auto simp: b1 pk entry_cmp_iff rb_len_def)
      moreover have "entry_less e m" using ge total h by auto
      then have "\<forall>x \<in> set (rb_heap_of b). entry_less e x"
        using valid h by (auto simp: heap_valid_def intro: entry_less_trans)
      ultimately show ?thesis
        using False lc valid by (intro disjI2) (auto simp: b1 not_le intro!: exI [of _ e])
    qed
  qed
qed

lemma rb_push_inv:
  assumes "rb_inv b" and "rb_next_seq b + 1 < 2 ^ 64" and "rb_push pts v b = (r, b')"
  shows "rb_inv b' \<and> rb_next_seq b' \<le> Suc (rb_next_seq b) \<and> rb_watermark b' = rb_watermark b"
proof -
  define e where "e = \<lparr>re_pts = pts, re_seq = rb_next_seq b, re_value = v\<rparr>"
  note c = rb_push_cases [OF assms, folded e_def]
  show ?thesis
  proof (cases "b' = b")
    case False
    with c have w: "\<forall>w. rb_watermark b = Some w \<longrightarrow> w < pts" "rb_next_seq b' = Suc (rb_next_seq b)"
      "rb_watermark b' = rb_watermark b" "rb_capacity b' = rb_capacity b" "heap_valid (rb_heap_of b')" by auto
    have sub: "set (rb_heap_of b') \<subseteq> insert e (set (rb_heap_of b)) \<and> length (rb_heap_of b') \<le> rb_capacity b"
    proof (cases "r = Buffered")
      case True
      with c False show ?thesis by (auto simp: rb_len_def)
    next
      case 2: False
      with c False obtain m where m: "rb_len b = rb_capacity b"
        "add_mset m (mset (rb_heap_of b')) = add_mset e (mset (rb_heap_of b))" by auto
      have "set_mset (add_mset m (mset (rb_heap_of b'))) = insert e (set (rb_heap_of b))"
        by (simp add: m(2))
      moreover have "size (add_mset m (mset (rb_heap_of b'))) = Suc (length (rb_heap_of b))"
        by (simp add: m(2))
      ultimately show ?thesis using m(1) by (auto simp: rb_len_def)
    qed
    then have "\<forall>x \<in> set (rb_heap_of b'). x = e \<or> x \<in> set (rb_heap_of b)" by blast
    then show ?thesis
      using assms(1,2) w sub by (fastforce simp: rb_inv_def e_def less_imp_le less_Suc_eq)
  qed (use assms(1) in simp)
qed

lemma entry_less_le: "entry_less a b \<Longrightarrow> re_pts a \<le> re_pts b"
  by (auto simp: entry_less_def)

lemma rb_pop_inv:
  assumes "rb_inv b" and "rb_pop b = (r, b')"
  shows "rb_inv b' \<and> rb_next_seq b' = rb_next_seq b \<and>
     (case r of None \<Rightarrow> b' = b \<and> rb_heap_of b = []
      | Some (p, v) \<Rightarrow> rb_watermark b' = Some p \<and> (\<forall>w. rb_watermark b = Some w \<longrightarrow> w \<le> p) \<and>
          image_mset re_value (mset (rb_heap_of b)) = add_mset v (image_mset re_value (mset (rb_heap_of b'))))"
  using assms
  by (cases "rb_heap_of b")
    (auto simp: rb_pop_def heap_peek_def rb_inv_def heap_valid_def intro!: entry_less_le split: if_splits)

section \<open>Runs\<close>

datatype 'v rb_op = RbPush media_time 'v | RbPop

fun rb_run :: "'v rb_op list \<Rightarrow> 'v reorder_buffer \<Rightarrow> (media_time \<times> 'v) list \<times> reorder_outcome list \<times> 'v reorder_buffer" where
  "rb_run [] b = ([], [], b)"
| "rb_run (RbPush pts v # ops) b =
     (let (r, b') = rb_push pts v b; (ps, rs, b'') = rb_run ops b' in (ps, r # rs, b''))"
| "rb_run (RbPop # ops) b =
     (let (p, b') = rb_pop b; (ps, rs, b'') = rb_run ops b'
      in ((case p of Some x \<Rightarrow> x # ps | None \<Rightarrow> ps), rs, b''))"

fun pushed_values :: "'v rb_op list \<Rightarrow> 'v list" where
  "pushed_values [] = []"
| "pushed_values (RbPush pts v # ops) = v # pushed_values ops"
| "pushed_values (RbPop # ops) = pushed_values ops"

definition rb_values :: "'v reorder_buffer \<Rightarrow> 'v multiset" where
  "rb_values b = image_mset re_value (mset (rb_heap_of b))"

lemma rb_run_inv:
  assumes "rb_inv b" and "rb_next_seq b + length ops < 2 ^ 64" and "rb_run ops b = (ps, rs, b')"
  shows "rb_inv b' \<and> sorted (map fst ps) \<and>
     (\<forall>w. rb_watermark b = Some w \<longrightarrow> (\<forall>x \<in> set ps. w \<le> fst x)) \<and>
     (set rs \<subseteq> {Buffered} \<longrightarrow>
        mset (map snd ps) + rb_values b' = rb_values b + mset (pushed_values ops))"
  using assms
proof (induction ops b arbitrary: ps rs b' rule: rb_run.induct)
  case (2 pts v ops b)
  obtain r b1 where r: "rb_push pts v b = (r, b1)" by force
  obtain rs' where t: "rb_run ops b1 = (ps, rs', b')" "rs = r # rs'"
    using 2(4) r by (auto split: prod.splits)
  have room: "rb_next_seq b + 1 < 2 ^ 64" using 2(3) by simp
  note i = rb_push_inv [OF 2(2) room r]
  have "rb_values b1 = add_mset v (rb_values b)" if "r = Buffered"
    using rb_push_cases [OF 2(2) room r] that by (auto simp: rb_values_def)
  with 2(1) [OF r [symmetric] refl _ _ t(1)] i 2(3) t(2) show ?case by auto
next
  case (3 ops b)
  obtain p b1 where p: "rb_pop b = (p, b1)" by force
  obtain ps' where t: "rb_run ops b1 = (ps', rs, b')" "ps = (case p of Some x \<Rightarrow> x # ps' | None \<Rightarrow> ps')"
    using 3(4) p by (auto split: prod.splits)
  note i = rb_pop_inv [OF 3(2) p]
  note IH = 3(1) [OF p [symmetric] refl _ _ t(1)]
  show ?case
  proof (cases p)
    case None
    with i have "b1 = b" "rb_inv b" by auto
    with i IH 3(3) t(2) None show ?thesis by simp
  next
    case (Some x)
    obtain q v where x: "x = (q, v)" by (cases x)
    from i IH 3(3) Some x have
      "rb_inv b'" "sorted (map fst ps')" "\<forall>x \<in> set ps'. q \<le> fst x"
      "set rs \<subseteq> {Buffered} \<longrightarrow> mset (map snd ps') + rb_values b' = rb_values b1 + mset (pushed_values ops)"
      "\<forall>w. rb_watermark b = Some w \<longrightarrow> w \<le> q" "rb_values b = add_mset v (rb_values b1)"
      by (auto simp: rb_values_def)
    then show ?thesis unfolding t(2) Some x by (auto intro: order_trans)
  qed
qed simp

lemma rb_new_values [simp]: "rb_values (rb_new c) = {#}" "rb_next_seq (rb_new c) = 0"
  by (simp_all add: rb_values_def rb_new_def)

text \<open>Reordering restores order, within bounds. For any interleaving of pushes (in any order
  of stamps) and pops: frames come out in non-decreasing presentation order, the buffer never
  holds more than its capacity, and when no push reported a drop, what came out and what is
  still buffered is exactly what was pushed.\<close>

theorem reorder_outputs_in_order:
  assumes "length ops < 2 ^ 64" and "rb_run ops (rb_new c) = (ps, rs, b)"
  shows "sorted (map fst ps) \<and> rb_len b \<le> rb_capacity b \<and>
     (set rs \<subseteq> {Buffered} \<longrightarrow> mset (map snd ps) + rb_values b = mset (pushed_values ops))"
  using rb_run_inv [OF rb_new_inv, of c ops ps rs b] assms by (auto simp: rb_inv_def rb_len_def)

theorem reorder_outputs_in_order_witness:
  "sorted (map fst (fst (rb_run [RbPush 30 CHR ''c'', RbPush 10 CHR ''a'', RbPop, RbPush 20 CHR ''b'', RbPop, RbPop] (rb_new 2))))"
proof -
  let ?ops = "[RbPush 30 CHR ''c'', RbPush 10 CHR ''a'', RbPop, RbPush 20 CHR ''b'', RbPop, RbPop]"
  obtain ps rs b where r: "rb_run ?ops (rb_new 2) = (ps, rs, b)" by (metis prod.collapse)
  have "length ?ops < 2 ^ 64" by simp
  from reorder_outputs_in_order [OF this r] show ?thesis unfolding r by simp
qed

text \<open>Overflow sheds the oldest. A push into a full buffer that is not late keeps exactly the
  newest entries: what is lost is one entry (possibly the incoming one) that is older than
  every entry kept.\<close>

theorem reorder_drops_oldest:
  assumes "rb_inv b" and "rb_next_seq b + 1 < 2 ^ 64" and "rb_len b = rb_capacity b"
    and "\<forall>w. rb_watermark b = Some w \<longrightarrow> w < pts"
    and "rb_push pts v b = (r, b')"
  shows "r = DroppedToMakeRoom \<and> rb_len b' = rb_capacity b \<and>
     (\<exists>m. add_mset m (mset (rb_heap_of b')) =
            add_mset \<lparr>re_pts = pts, re_seq = rb_next_seq b, re_value = v\<rparr> (mset (rb_heap_of b)) \<and>
          (\<forall>x \<in> set (rb_heap_of b'). entry_less m x))"
proof -
  from rb_push_cases [OF assms(1,2,5)] assms(3,4) obtain m where
    m: "r = DroppedToMakeRoom"
    "add_mset m (mset (rb_heap_of b')) =
       add_mset \<lparr>re_pts = pts, re_seq = rb_next_seq b, re_value = v\<rparr> (mset (rb_heap_of b))"
    "\<forall>x \<in> set (rb_heap_of b'). entry_less m x"
    by fastforce
  have "size (add_mset m (mset (rb_heap_of b'))) = Suc (length (rb_heap_of b))" by (simp add: m(2))
  then have "length (rb_heap_of b') = length (rb_heap_of b)" by simp
  with m assms(3) show ?thesis by (auto simp: rb_len_def)
qed

theorem reorder_drops_oldest_witness:
  "fst (rb_push 5 True \<lparr>rb_heap_of = [\<lparr>re_pts = 9, re_seq = 0, re_value = False\<rparr>], rb_capacity = 1,
     rb_next_seq = 1, rb_watermark = None\<rparr>) = DroppedToMakeRoom"
  using reorder_drops_oldest [of "\<lparr>rb_heap_of = [\<lparr>re_pts = 9, re_seq = 0, re_value = False\<rparr>],
      rb_capacity = 1, rb_next_seq = 1, rb_watermark = None\<rparr>" 5 True]
  by (cases "rb_push 5 True \<lparr>rb_heap_of = [\<lparr>re_pts = 9, re_seq = 0, re_value = False\<rparr>],
      rb_capacity = 1, rb_next_seq = 1, rb_watermark = None\<rparr>")
    (simp add: rb_inv_def heap_valid_def rb_len_def)

end
