(* ===== verification/Btree_Map.thy ===== *)
theory Btree_Map
  imports Prelude
begin

text \<open>
  The standard library's \<open>BTreeMap\<close> as the list of its entries in ascending key order, and
  the locale \<open>ordered_map\<close> of the operations its clients use: lookup, insert, remove, the first
  and last key, the length and the values in key order, each related to a finite map.
\<close>

section \<open>Ordered maps as an interface\<close>

locale ordered_map =
  fixes lookup :: "'m \<Rightarrow> 'k::linorder \<rightharpoonup> 'v"
    and insert :: "'k \<Rightarrow> 'v \<Rightarrow> 'm \<Rightarrow> 'm"
    and remove :: "'k \<Rightarrow> 'm \<Rightarrow> 'm"
    and first_key :: "'m \<Rightarrow> 'k option"
    and last_key :: "'m \<Rightarrow> 'k option"
    and entries :: "'m \<Rightarrow> ('k \<times> 'v) list"
    and valid :: "'m \<Rightarrow> bool"
  assumes lookup_insert: "valid m \<Longrightarrow> lookup (insert k v m) = (lookup m)(k \<mapsto> v)"
    and lookup_remove: "valid m \<Longrightarrow> lookup (remove k m) = (lookup m)(k := None)"
    and valid_insert: "valid m \<Longrightarrow> valid (insert k v m)"
    and valid_remove: "valid m \<Longrightarrow> valid (remove k m)"
    and entries_sorted: "valid m \<Longrightarrow> sorted_wrt (<) (map fst (entries m))"
    and entries_lookup: "valid m \<Longrightarrow> (k, v) \<in> set (entries m) \<longleftrightarrow> lookup m k = Some v"
    and first_entries: "first_key m = (case entries m of [] \<Rightarrow> None | e # _ \<Rightarrow> Some (fst e))"
    and last_entries: "last_key m = (if entries m = [] then None else Some (fst (last (entries m))))"
begin

definition keys :: "'m \<Rightarrow> 'k set" where
  "keys m = dom (lookup m)"

lemma keys_entries: "valid m \<Longrightarrow> keys m = fst ` set (entries m)"
  using entries_lookup [of m] by (force simp: keys_def)

lemma finite_keys: "valid m \<Longrightarrow> finite (keys m)"
  by (simp add: keys_entries)

lemma keys_insert: "valid m \<Longrightarrow> keys (insert k v m) = {k} \<union> keys m"
  by (auto simp: keys_def lookup_insert)

lemma keys_remove: "valid m \<Longrightarrow> keys (remove k m) = keys m - {k}"
  by (auto simp: keys_def lookup_remove split: if_splits)

lemma length_entries: "valid m \<Longrightarrow> length (entries m) = card (keys m)"
  using entries_sorted [of m] distinct_card [of "map fst (entries m)"]
  by (simp add: keys_entries strict_sorted_iff)

lemma first_least: "valid m \<Longrightarrow> first_key m = Some k \<Longrightarrow> k \<in> keys m \<and> (\<forall>j \<in> keys m. k \<le> j)"
  using entries_sorted [of m]
  by (auto simp: first_entries keys_entries less_imp_le split: list.splits)

lemma first_None: "valid m \<Longrightarrow> first_key m = None \<longleftrightarrow> keys m = {}"
  by (simp add: first_entries keys_entries split: list.splits)

lemma last_greatest: "valid m \<Longrightarrow> last_key m = Some k \<Longrightarrow> k \<in> keys m \<and> (\<forall>j \<in> keys m. j \<le> k)"
  using entries_sorted [of m] sorted_last [of "map fst (entries m)"]
  by (auto simp: last_entries keys_entries last_map strict_sorted_iff split: if_splits)

lemma last_None: "valid m \<Longrightarrow> last_key m = None \<longleftrightarrow> keys m = {}"
  by (simp add: last_entries keys_entries)

lemma entries_keys: "valid m \<Longrightarrow> map fst (entries m) = sorted_list_of_set (keys m)"
  using entries_sorted [of m]
  by (simp add: keys_entries strict_sorted_iff sorted_list_of_set.idem_if_sorted_distinct flip: set_map)

end

section \<open>Sorted association lists\<close>

type_synonym ('k, 'v) btree = "('k \<times> 'v) list"

definition bt_valid :: "('k::linorder, 'v) btree \<Rightarrow> bool" where
  "bt_valid m \<longleftrightarrow> sorted_wrt (<) (map fst m)"

fun bt_insert :: "'k::linorder \<Rightarrow> 'v \<Rightarrow> ('k, 'v) btree \<Rightarrow> ('k, 'v) btree" where
  "bt_insert k v [] = [(k, v)]"
| "bt_insert k v ((j, w) # m) =
     (if k < j then (k, v) # (j, w) # m else if k = j then (k, v) # m else (j, w) # bt_insert k v m)"

definition bt_remove :: "'k::linorder \<Rightarrow> ('k, 'v) btree \<Rightarrow> ('k, 'v) btree" where
  "bt_remove k m = filter (\<lambda>e. fst e \<noteq> k) m"

definition bt_get :: "('k::linorder, 'v) btree \<Rightarrow> 'k \<Rightarrow> 'v option" where
  "bt_get m k = map_of m k"

definition bt_first :: "('k::linorder, 'v) btree \<Rightarrow> 'k option" where
  "bt_first m = (case m of [] \<Rightarrow> None | e # _ \<Rightarrow> Some (fst e))"

definition bt_last :: "('k::linorder, 'v) btree \<Rightarrow> 'k option" where
  "bt_last m = (if m = [] then None else Some (fst (last m)))"

lemma set_bt_insert_keys: "fst ` set (bt_insert k v m) = insert k (fst ` set m)"
  by (induction k v m rule: bt_insert.induct) auto

lemma bt_valid_insert: "bt_valid m \<Longrightarrow> bt_valid (bt_insert k v m)"
  unfolding bt_valid_def
proof (induction k v m rule: bt_insert.induct)
  case (2 k v j w m)
  then have "\<forall>x \<in> fst ` set (bt_insert k v m). j < x" if "j < k"
    using that by (auto simp: set_bt_insert_keys)
  with 2 show ?case by auto
qed simp

lemma bt_get_insert: "bt_get (bt_insert k v m) = (bt_get m)(k \<mapsto> v)"
  unfolding bt_get_def by (induction k v m rule: bt_insert.induct) auto

lemma bt_get_remove: "bt_get (bt_remove k m) = (bt_get m)(k := None)"
  unfolding bt_get_def bt_remove_def by (induction m) auto

lemma bt_valid_distinct: "bt_valid m \<Longrightarrow> distinct (map fst m)"
  by (simp add: bt_valid_def strict_sorted_iff)

interpretation bt: ordered_map bt_get bt_insert bt_remove bt_first bt_last "\<lambda>m. m" bt_valid
proof
  fix m :: "('k::linorder, 'v) btree" and k :: 'k and v :: 'v
  show "bt_get (bt_insert k v m) = (bt_get m)(k \<mapsto> v)" by (rule bt_get_insert)
  show "bt_get (bt_remove k m) = (bt_get m)(k := None)" by (rule bt_get_remove)
  show "bt_first m = (case m of [] \<Rightarrow> None | e # _ \<Rightarrow> Some (fst e))" by (simp add: bt_first_def)
  show "bt_last m = (if m = [] then None else Some (fst (last m)))" by (simp add: bt_last_def)
  assume v: "bt_valid m"
  then show "bt_valid (bt_insert k v m)" "bt_valid (bt_remove k m)" "sorted_wrt (<) (map fst m)"
    by (rule bt_valid_insert, auto simp: bt_valid_def bt_remove_def sorted_wrt_map sorted_wrt_filter)
  show "(k, v) \<in> set m \<longleftrightarrow> bt_get m k = Some v"
    using bt_valid_distinct [OF v] by (simp add: bt_get_def)
qed

section \<open>Derived operations\<close>

text \<open>\<open>retain\<close>, \<open>entry(k).or_insert(v)\<close> and a map of the values, each by its effect on lookups.\<close>

definition bt_retain :: "('k \<Rightarrow> 'v \<Rightarrow> bool) \<Rightarrow> ('k::linorder, 'v) btree \<Rightarrow> ('k, 'v) btree" where
  "bt_retain P m = filter (\<lambda>(k, v). P k v) m"

definition bt_or_insert :: "'k::linorder \<Rightarrow> 'v \<Rightarrow> ('k, 'v) btree \<Rightarrow> ('k, 'v) btree" where
  "bt_or_insert k v m = (case bt_get m k of Some w \<Rightarrow> m | None \<Rightarrow> bt_insert k v m)"

definition bt_map_values :: "('v \<Rightarrow> 'w) \<Rightarrow> ('k::linorder, 'v) btree \<Rightarrow> ('k, 'w) btree" where
  "bt_map_values f m = map (\<lambda>(k, v). (k, f v)) m"

lemma bt_valid_retain: "bt_valid m \<Longrightarrow> bt_valid (bt_retain P m)"
  by (auto simp: bt_valid_def bt_retain_def sorted_wrt_map sorted_wrt_filter)

lemma bt_valid_or_insert: "bt_valid m \<Longrightarrow> bt_valid (bt_or_insert k v m)"
  by (simp add: bt_or_insert_def bt_valid_insert split: option.split)

lemma bt_valid_map_values [simp]: "bt_valid (bt_map_values f m) = bt_valid m"
  by (simp add: bt_valid_def bt_map_values_def comp_def split_beta)

lemma bt_get_map_values: "bt_get (bt_map_values f m) k = map_option f (bt_get m k)"
  by (induction m) (auto simp: bt_get_def bt_map_values_def)

lemma bt_get_retain:
  assumes "bt_valid m"
  shows "bt_get (bt_retain P m) k = (case bt_get m k of Some v \<Rightarrow> if P k v then Some v else None | None \<Rightarrow> None)"
  using bt_valid_distinct [OF assms]
proof (induction m)
  case (Cons e m)
  obtain j w where e: "e = (j, w)" by (cases e)
  with Cons.prems have "map_of m j = None" by (simp add: map_of_eq_None_iff)
  with Cons show ?case by (auto simp: e bt_get_def bt_retain_def split: option.splits)
qed (simp add: bt_get_def bt_retain_def)

lemma bt_get_or_insert:
  "bt_get (bt_or_insert k v m) j = (if j = k \<and> bt_get m k = None then Some v else bt_get m j)"
  by (auto simp: bt_or_insert_def bt_get_insert split: option.split)

lemma bt_get_fold_or_insert:
  "bt_get (fold (\<lambda>(k, v). bt_or_insert k (f v)) es m) j =
     (case bt_get m j of Some w \<Rightarrow> Some w | None \<Rightarrow> map_option f (map_of es j))"
proof (induction es arbitrary: m)
  case (Cons e es)
  obtain k v where "e = (k, v)" by (cases e)
  then show ?case by (auto simp: Cons.IH bt_get_or_insert split: option.split)
qed (simp split: option.split)

lemma bt_get_fold_insert:
  assumes "distinct (map fst es)"
  shows "bt_get (fold (\<lambda>(k, v) m. if P k v then bt_insert k (f v) m else m) es m) j =
     (case map_of es j of Some v \<Rightarrow> if P j v then Some (f v) else bt_get m j | None \<Rightarrow> bt_get m j)"
  using assms
proof (induction es arbitrary: m)
  case (Cons e es)
  obtain k v where e: "e = (k, v)" by (cases e)
  with Cons.prems have "map_of es k = None" by (simp add: map_of_eq_None_iff)
  with Cons show ?case by (auto simp: e bt_get_insert split: option.split)
qed simp

lemma bt_valid_Nil [simp]: "bt_valid []"
  by (simp add: bt_valid_def)

lemma bt_get_Nil [simp]: "bt_get [] = (\<lambda>k. None)"
  by (rule ext) (simp add: bt_get_def)

end
