(* ===== verification/Hitless.thy ===== *)
theory Hitless
  imports Btree_Map
begin

text \<open>
  \<open>multiview-input/src/st2022_7.rs\<close>: seamless protection switching. Two copies of one RTP
  stream are merged by sequence number in a bounded reorder window, an ordered map keyed by
  the unwrapped sequence.
\<close>

section \<open>Sequence unwrapping\<close>

record seq_unwrapper =
  su_epoch :: "32 word"
  su_last :: "16 word option"

definition su_new :: seq_unwrapper where
  "su_new = \<lparr>su_epoch = 0, su_last = None\<rparr>"

definition su_value :: "32 word \<Rightarrow> 16 word \<Rightarrow> 32 word" where
  "su_value e s = or e (ucast s)"

definition su_unwrap :: "16 word \<Rightarrow> seq_unwrapper \<Rightarrow> 32 word \<times> seq_unwrapper" where
  "su_unwrap s u =
     (case su_last u of
        None \<Rightarrow> (su_value (su_epoch u) s, u\<lparr>su_last := Some s\<rparr>)
      | Some last_s \<Rightarrow>
          let delta = s - last_s;
              u' = (if delta \<noteq> 0 \<and> delta < 0x8000
                    then u\<lparr>su_epoch := (if s < last_s then su_epoch u + 0x10000 else su_epoch u),
                           su_last := Some s\<rparr>
                    else u)
          in (su_value (su_epoch u') s, u'))"

text \<open>The unwrapped values of a sequence of raw numbers.\<close>

fun su_run :: "16 word list \<Rightarrow> seq_unwrapper \<Rightarrow> nat list" where
  "su_run [] u = []"
| "su_run (s # ss) u = (let (v, u') = su_unwrap s u in unat v # su_run ss u')"

section \<open>The reconstructor\<close>


datatype push_outcome = Accepted | Duplicate | TooLate

record 'p reconstructor =
  hr_window :: "(nat, 'p) btree"
  hr_capacity :: nat
  hr_reorder_depth :: nat
  hr_released :: "nat option"
  hr_unwrap :: seq_unwrapper




definition hr_next_release :: "'p reconstructor \<Rightarrow> nat option" where
  "hr_next_release h = bt_first (hr_window h)"

definition raise_floor :: "nat option \<Rightarrow> nat \<Rightarrow> nat option" where
  "raise_floor fl k = Some (case fl of Some f \<Rightarrow> max f k | None \<Rightarrow> k)"

definition below_floor :: "nat \<Rightarrow> nat option \<Rightarrow> bool" where
  "below_floor k fl \<longleftrightarrow> (case fl of Some f \<Rightarrow> k \<le> f | None \<Rightarrow> False)"

lemma length_remove_first: "bt_first w = Some k \<Longrightarrow> length (bt_remove k w) < length w"
  by (cases w) (auto simp: bt_first_def bt_remove_def less_Suc_eq_le)

lemma length_remove_get: "bt_get w k = Some p \<Longrightarrow> length (bt_remove k w) < length w"
  unfolding bt_remove_def bt_get_def by (drule map_of_SomeD, rule length_filter_less) auto

text \<open>The loop of \<open>push\<close> that slides the window; False means the packet is dropped.\<close>

function slide_window ::
  "nat \<Rightarrow> nat \<Rightarrow> (nat, 'p) btree \<Rightarrow> nat option \<Rightarrow> bool \<times> (nat, 'p) btree \<times> nat option" where
  "slide_window cap s w fl =
     (if length w < cap then (True, w, fl)
      else case bt_first w of
             Some old \<Rightarrow>
               if old < s then slide_window cap s (bt_remove old w) (raise_floor fl old)
               else (False, w, fl)
           | None \<Rightarrow> (False, w, fl))"
  by pat_completeness auto
termination
  by (relation "measure (\<lambda>(cap, s, w, fl). length w)") (auto simp: length_remove_first)

declare slide_window.simps [simp del]

definition hr_push_seq :: "nat \<Rightarrow> 'p \<Rightarrow> 'p reconstructor \<Rightarrow> push_outcome \<times> 'p reconstructor" where
  "hr_push_seq s packet h =
     (if below_floor s (hr_released h) then (TooLate, h)
      else if bt_get (hr_window h) s \<noteq> None then (Duplicate, h)
      else
        let (room, w, fl) = slide_window (hr_capacity h) s (hr_window h) (hr_released h);
            h' = h\<lparr>hr_window := w, hr_released := fl\<rparr>
        in if room then (Accepted, h'\<lparr>hr_window := bt_insert s packet w\<rparr>) else (TooLate, h'))"


text \<open>The loop of \<open>drain\<close>; the keys of what it releases are kept beside the packets.\<close>

function drain_loop ::
  "nat \<Rightarrow> (nat, 'p) btree \<Rightarrow> nat option \<Rightarrow> (nat \<times> 'p) list \<times> (nat, 'p) btree \<times> nat option" where
  "drain_loop boundary w fl =
     (case (case fl of Some f \<Rightarrow> Some (usat_add 32 f 1) | None \<Rightarrow> bt_first w) of
        None \<Rightarrow> ([], w, fl)
      | Some nxt \<Rightarrow>
          if boundary < nxt then ([], w, fl)
          else (case bt_get w nxt of
                  Some packet \<Rightarrow>
                    let (out, w', fl') = drain_loop boundary (bt_remove nxt w) (Some nxt)
                    in ((nxt, packet) # out, w', fl')
                | None \<Rightarrow> ([], w, fl)))"
  by pat_completeness auto
termination
  by (relation "measure (\<lambda>(b, w, fl). length w)") (auto simp: length_remove_get)

declare drain_loop.simps [simp del]

definition hr_drain_pairs :: "'p reconstructor \<Rightarrow> (nat \<times> 'p) list \<times> 'p reconstructor" where
  "hr_drain_pairs h =
     (case bt_last (hr_window h) of
        None \<Rightarrow> ([], h)
      | Some hi \<Rightarrow>
          let boundary = hi - hr_reorder_depth h;
              (out, w, fl) = drain_loop boundary (hr_window h) (hr_released h)
          in (out, h\<lparr>hr_window := w, hr_released := fl\<rparr>))"

definition hr_drain :: "'p reconstructor \<Rightarrow> 'p list \<times> 'p reconstructor" where
  "hr_drain h = (let (out, h') = hr_drain_pairs h in (map snd out, h'))"

definition hr_flush_pairs :: "'p reconstructor \<Rightarrow> (nat \<times> 'p) list \<times> 'p reconstructor" where
  "hr_flush_pairs h =
     (let fl = (case bt_last (hr_window h) of
                  Some last_k \<Rightarrow> raise_floor (hr_released h) last_k
                | None \<Rightarrow> hr_released h)
      in (hr_window h, h\<lparr>hr_window := [], hr_released := fl\<rparr>))"

definition hr_flush :: "'p reconstructor \<Rightarrow> 'p list \<times> 'p reconstructor" where
  "hr_flush h = (let (out, h') = hr_flush_pairs h in (map snd out, h'))"

section \<open>Invariant\<close>

definition hr_ok :: "(nat, 'p) btree \<Rightarrow> nat option \<Rightarrow> bool" where
  "hr_ok w fl \<longleftrightarrow> bt_valid w \<and> (\<forall>k \<in> bt.keys w. \<not> below_floor k fl \<and> k < 2 ^ 32)"

definition hr_inv :: "'p reconstructor \<Rightarrow> bool" where
  "hr_inv h \<longleftrightarrow> hr_ok (hr_window h) (hr_released h) \<and> 0 < hr_capacity h \<and>
     length (hr_window h) \<le> hr_capacity h"

lemma below_raise [simp]: "below_floor k (raise_floor fl j) \<longleftrightarrow> below_floor k fl \<or> k \<le> j"
  by (auto simp: below_floor_def raise_floor_def max_def split: option.splits)



lemma usat_next: "f < 2 ^ 32 - 1 \<Longrightarrow> usat_add 32 f 1 = Suc f"
  by (simp add: usat_add_def)





text \<open>
  The fate of a sequence number: buffered, passed by the floor (released or given up), or older
  than everything in a window that is full.
\<close>

definition hr_full :: "'p reconstructor \<Rightarrow> bool" where
  "hr_full h \<longleftrightarrow> length (hr_window h) = hr_capacity h"

definition covered :: "'p reconstructor \<Rightarrow> nat \<Rightarrow> bool" where
  "covered h k \<longleftrightarrow> k \<in> bt.keys (hr_window h) \<or> below_floor k (hr_released h) \<or>
     (hr_full h \<and> (\<forall>j \<in> bt.keys (hr_window h). k < j))"





section \<open>Unwrapping\<close>












section \<open>Runs\<close>




lemma hr_unwrap_irrelevant [simp]:
  "hr_inv (h\<lparr>hr_unwrap := u\<rparr>) = hr_inv h" "covered (h\<lparr>hr_unwrap := u\<rparr>) = covered h"
  by (auto simp: hr_inv_def covered_def hr_full_def fun_eq_iff)




lemma hr_push_seq_unwrap [simp]: "hr_unwrap (snd (hr_push_seq s p h)) = hr_unwrap h"
  by (simp add: hr_push_seq_def Let_def case_prod_beta)












section \<open>Lossless when the window is large enough\<close>






section \<open>Where the code falls short of its contract\<close>

text \<open>
  A late copy from before a wrap is unwrapped into the epoch after it, 65536 too high: it is
  taken for a packet of the far future instead of a duplicate.
\<close>

lemma late_packet_across_wrap:
  "su_run [65535, 0, 65535] su_new = [65535, 65536, 131071]"
  by (simp add: su_unwrap_def su_new_def su_value_def Let_def word_less_nat_alt)

text \<open>
  After a loss on both paths (number 10 below) the window fills behind the gap, which \<open>drain\<close>
  does not cross. The push that overflows it then discards the oldest packet that was received
  and buffered, number 11, and raises the floor past it: it is never released.
\<close>

definition stuck_window :: "nat reconstructor" where
  "stuck_window = \<lparr>hr_window = [(11, 11), (12, 12), (13, 13), (14, 14)], hr_capacity = 4,
     hr_reorder_depth = 2, hr_released = Some 9, hr_unwrap = su_new\<lparr>su_last := Some 14\<rparr>\<rparr>"

lemma stuck_window_inv: "hr_inv stuck_window" "fst (hr_drain_pairs stuck_window) = []"
  by (auto simp: hr_inv_def hr_ok_def stuck_window_def bt_valid_def bt.keys_def bt_get_def
    below_floor_def hr_drain_pairs_def bt_last_def drain_loop.simps usat_add_def split: if_splits)

lemma eviction_discards_received_packet:
  "bt_get (hr_window stuck_window) 11 = Some 11 \<and>
   fst (hr_push_seq 15 15 stuck_window) = Accepted \<and>
   bt_get (hr_window (snd (hr_push_seq 15 15 stuck_window))) 11 = None \<and>
   below_floor 11 (hr_released (snd (hr_push_seq 15 15 stuck_window))) \<and>
   fst (hr_flush_pairs (snd (hr_push_seq 15 15 stuck_window))) = [(12, 12), (13, 13), (14, 14), (15, 15)]"
  by (simp add: stuck_window_def hr_push_seq_def slide_window.simps bt_get_def bt_first_def
    bt_remove_def raise_floor_def below_floor_def hr_flush_pairs_def Let_def)

end
