(* ===== verification/Alarm_Types.thy ===== *)
theory Alarm_Types
  imports Media_Time
begin

text \<open>
  \<open>multiview-core/src/alarm.rs\<close> (severities, identities, records) and
  \<open>multiview-engine/src/alarm/rollup.rs\<close> (severity roll-up trees and virtual alarms).
\<close>

section \<open>Severities\<close>

datatype perceived_severity = Cleared | Indeterminate | Warning | Minor | Major | Critical

fun severity_rank :: "perceived_severity \<Rightarrow> nat" where
  "severity_rank Cleared = 0"
| "severity_rank Indeterminate = 1"
| "severity_rank Warning = 2"
| "severity_rank Minor = 3"
| "severity_rank Major = 4"
| "severity_rank Critical = 5"

lemma severity_rank_inj: "severity_rank a = severity_rank b \<longleftrightarrow> a = b"
  by (cases a; cases b) simp_all

instantiation perceived_severity :: linorder
begin

definition less_eq_perceived_severity :: "perceived_severity \<Rightarrow> perceived_severity \<Rightarrow> bool" where
  "less_eq_perceived_severity a b \<longleftrightarrow> severity_rank a \<le> severity_rank b"

definition less_perceived_severity :: "perceived_severity \<Rightarrow> perceived_severity \<Rightarrow> bool" where
  "less_perceived_severity a b \<longleftrightarrow> severity_rank a < severity_rank b"

instance
  by standard (auto simp: less_eq_perceived_severity_def less_perceived_severity_def severity_rank_inj)

end

lemma Cleared_least [simp]: "Cleared \<le> s"
  by (simp add: less_eq_perceived_severity_def)

definition severity_is_active :: "perceived_severity \<Rightarrow> bool" where
  "severity_is_active s \<longleftrightarrow> s \<noteq> Cleared"

definition severity_rollup :: "perceived_severity list \<Rightarrow> perceived_severity" where
  "severity_rollup ss = (case ss of [] \<Rightarrow> Cleared | s # rest \<Rightarrow> fold max rest s)"

lemma fold_max_ge_init: "s \<le> fold max xs (s :: 'a::linorder)"
proof (induction xs arbitrary: s)
  case (Cons y ys)
  have "s \<le> max y s" by simp
  also have "max y s \<le> fold max ys (max y s)" by (rule Cons.IH)
  finally show ?case by simp
qed simp

lemma fold_max_ge: "x \<in> set xs \<or> x = s \<Longrightarrow> x \<le> fold max xs (s :: 'a::linorder)"
proof (induction xs arbitrary: s)
  case (Cons y ys)
  show ?case
  proof (cases "x \<in> set ys")
    case False
    with Cons.prems have "x = y \<or> x = s" by auto
    then have "x \<le> max y s" by auto
    also have "max y s \<le> fold max ys (max y s)" by (rule fold_max_ge_init)
    finally show ?thesis by simp
  qed (use Cons.IH in simp)
qed simp

lemma fold_max_in: "fold max xs (s :: 'a::linorder) \<in> insert s (set xs)"
  by (induction xs arbitrary: s) (auto simp: max_def split: if_splits)

lemma severity_rollup_ge: "x \<in> set ss \<Longrightarrow> x \<le> severity_rollup ss"
  by (cases ss) (auto simp: severity_rollup_def intro: fold_max_ge)

lemma severity_rollup_in: "severity_rollup ss \<in> insert Cleared (set ss)"
  using fold_max_in by (cases ss) (fastforce simp: severity_rollup_def)+

section \<open>Alarm records\<close>

datatype alarm_kind = Black | Freeze | Silence | OverLevel | Clip | PhaseInvert
  | LoudnessViolation | CaptionLoss | FormatMismatch | SignalLoss

type_synonym alarm_id = string

datatype alarm_scope = ScopeProbe string | ScopeTile nat | ScopeGroup string | ScopeSystem

datatype ack_state = Unacked | Acked string media_time

definition is_acked :: "ack_state \<Rightarrow> bool" where
  "is_acked a \<longleftrightarrow> a \<noteq> Unacked"

record alarm_record =
  ar_id :: alarm_id
  ar_kind :: alarm_kind
  ar_severity :: perceived_severity
  ar_scope :: alarm_scope
  ar_raised_at :: media_time
  ar_dwell :: media_time
  ar_latched :: bool
  ar_ack :: ack_state

definition alarm_record_new ::
  "alarm_id \<Rightarrow> alarm_kind \<Rightarrow> perceived_severity \<Rightarrow> alarm_scope \<Rightarrow> media_time \<Rightarrow> alarm_record" where
  "alarm_record_new i k s sc t = \<lparr>ar_id = i, ar_kind = k, ar_severity = s, ar_scope = sc,
     ar_raised_at = t, ar_dwell = 0, ar_latched = False, ar_ack = Unacked\<rparr>"

definition record_is_active :: "alarm_record \<Rightarrow> bool" where
  "record_is_active r \<longleftrightarrow> severity_is_active (ar_severity r)"

section \<open>Roll-up trees\<close>

datatype rollup_node = RollupNode string perceived_severity "rollup_node list"

definition rollup_leaf :: "string \<Rightarrow> perceived_severity \<Rightarrow> rollup_node" where
  "rollup_leaf l s = RollupNode l s []"

definition rollup_group :: "string \<Rightarrow> rollup_node list \<Rightarrow> rollup_node" where
  "rollup_group l cs = RollupNode l Cleared cs"

fun rollup_with_child :: "rollup_node \<Rightarrow> rollup_node \<Rightarrow> rollup_node" where
  "rollup_with_child (RollupNode l s cs) c = RollupNode l s (cs @ [c])"

fun rolled_up :: "rollup_node \<Rightarrow> perceived_severity" where
  "rolled_up (RollupNode l own cs) = max own (severity_rollup (map rolled_up cs))"

text \<open>The specification: the severities anywhere in the tree.\<close>

fun tree_severities :: "rollup_node \<Rightarrow> perceived_severity set" where
  "tree_severities (RollupNode l own cs) = insert own (\<Union> (set (map tree_severities cs)))"

lemma rolled_up_ge: "s \<in> tree_severities t \<Longrightarrow> s \<le> rolled_up t"
proof (induction t rule: rolled_up.induct)
  case (1 l own cs)
  show ?case
  proof (cases "s = own")
    case False
    with 1(2) obtain c where c: "c \<in> set cs" "s \<in> tree_severities c" by auto
    with 1(1) have "s \<le> rolled_up c" by blast
    also have "rolled_up c \<le> severity_rollup (map rolled_up cs)"
      using c by (intro severity_rollup_ge) simp
    finally show ?thesis by (simp add: le_max_iff_disj)
  qed simp
qed

lemma rolled_up_in: "rolled_up t \<in> insert Cleared (tree_severities t)"
proof (induction t rule: rolled_up.induct)
  case (1 l own cs)
  have "severity_rollup (map rolled_up cs) \<in> insert Cleared (rolled_up ` set cs)"
    using severity_rollup_in [of "map rolled_up cs"] by simp
  then have "severity_rollup (map rolled_up cs) \<in> insert Cleared (\<Union> (tree_severities ` set cs))"
    using 1 by (metis (no_types, lifting) UN_iff image_iff insert_iff)
  then show ?case by (auto simp: max_def)
qed

text \<open>Roll-up shows the worst. The severity a roll-up tree displays is an upper bound of every
  severity in the tree, at any depth, and is itself present in it (or \<open>Cleared\<close>): a critical
  leaf is never hidden and nothing is invented.\<close>

theorem rollup_is_worst:
  "(\<forall>s \<in> tree_severities t. s \<le> rolled_up t) \<and> (rolled_up t = Cleared \<or> rolled_up t \<in> tree_severities t)"
  using rolled_up_ge rolled_up_in by auto

theorem rollup_is_worst_witness:
  "rolled_up (rollup_group ''wall'' [rollup_leaf ''a'' Minor, rollup_group ''b'' [rollup_leaf ''c'' Critical]]) = Critical"
proof -
  let ?t = "rollup_group ''wall'' [rollup_leaf ''a'' Minor, rollup_group ''b'' [rollup_leaf ''c'' Critical]]"
  have "Critical \<in> tree_severities ?t" by (simp add: rollup_group_def rollup_leaf_def)
  with rollup_is_worst [of ?t] have "Critical \<le> rolled_up ?t" by blast
  then show ?thesis by (cases "rolled_up ?t") (simp_all add: less_eq_perceived_severity_def)
qed

section \<open>Virtual alarms\<close>

datatype bool_op = OpAnd | OpOr | OpXor

fun bool_op_fold :: "bool list \<Rightarrow> bool \<times> bool \<times> bool \<times> nat \<Rightarrow> bool \<times> bool \<times> bool \<times> nat" where
  "bool_op_fold [] st = st"
| "bool_op_fold (a # l) (any, all, parity, count) =
     bool_op_fold l (any \<or> a, all \<and> a, parity \<noteq> a, count + 1)"

definition bool_op_evaluate :: "bool_op \<Rightarrow> bool list \<Rightarrow> bool" where
  "bool_op_evaluate op l =
     (case bool_op_fold l (False, True, False, 0) of
        (any, all, parity, count) \<Rightarrow>
          (case op of OpAnd \<Rightarrow> 0 < count \<and> all | OpOr \<Rightarrow> any | OpXor \<Rightarrow> parity))"

lemma bool_op_fold_spec:
  "bool_op_fold l (any, all, parity, count) =
     (any \<or> True \<in> set l, all \<and> False \<notin> set l,
      parity \<noteq> odd (length (filter id l)), count + length l)"
  by (induction l arbitrary: any all parity count) auto

record virtual_alarm =
  va_name :: string
  va_op :: bool_op
  va_inputs :: "string list"
  va_severity :: perceived_severity

fun resolve_inputs :: "string list \<Rightarrow> bool list \<Rightarrow> bool list" where
  "resolve_inputs [] states = []"
| "resolve_inputs (i # is) [] = False # resolve_inputs is []"
| "resolve_inputs (i # is) (s # states) = s # resolve_inputs is states"

definition va_evaluate :: "virtual_alarm \<Rightarrow> bool list \<Rightarrow> bool" where
  "va_evaluate v active = bool_op_evaluate (va_op v) (resolve_inputs (va_inputs v) active)"

definition va_severity_for :: "virtual_alarm \<Rightarrow> bool list \<Rightarrow> perceived_severity" where
  "va_severity_for v active = (if va_evaluate v active then va_severity v else Cleared)"

lemma resolve_inputs_nth:
  "length (resolve_inputs is ss) = length is \<and>
     (\<forall>i < length is. resolve_inputs is ss ! i = (i < length ss \<and> ss ! i))"
proof (induction "is" ss rule: resolve_inputs.induct)
  case (3 i "is" s ss)
  then show ?case by (auto simp: nth_Cons split: nat.split)
qed (auto simp: nth_Cons split: nat.split)

definition active_inputs :: "virtual_alarm \<Rightarrow> bool list \<Rightarrow> nat set" where
  "active_inputs v active = {i. i < length (va_inputs v) \<and> i < length active \<and> active ! i}"

text \<open>Virtual alarms follow their truth tables, with a missing input counting as inactive:
  an \<open>And\<close> fires exactly when it has an input and every one is active, an \<open>Or\<close> exactly when some
  input is, an \<open>Xor\<close> exactly when an odd number are.\<close>

theorem virtual_alarm_truth_table:
  "va_severity_for v active =
    (if (case va_op v of OpAnd \<Rightarrow> va_inputs v \<noteq> [] \<and> active_inputs v active = {..<length (va_inputs v)}
         | OpOr \<Rightarrow> active_inputs v active \<noteq> {} | OpXor \<Rightarrow> odd (card (active_inputs v active)))
     then va_severity v else Cleared)"
proof -
  define r where "r = resolve_inputs (va_inputs v) active"
  have len: "length r = length (va_inputs v)"
    and nth: "i < length r \<Longrightarrow> r ! i = (i < length active \<and> active ! i)" for i
    using resolve_inputs_nth [of "va_inputs v" active] by (auto simp: r_def)
  have on: "active_inputs v active = {i. i < length r \<and> r ! i}" using nth by (auto simp: active_inputs_def len)
  have "True \<in> set r \<longleftrightarrow> active_inputs v active \<noteq> {}" by (auto simp: on in_set_conv_nth)
  moreover have "False \<notin> set r \<longleftrightarrow> active_inputs v active = {..<length (va_inputs v)}"
    by (auto simp: on in_set_conv_nth len [symmetric] subset_eq set_eq_iff)
  moreover have "card (active_inputs v active) = length (filter id r)"
    by (simp add: on length_filter_conv_card)
  moreover have "0 < length r \<longleftrightarrow> va_inputs v \<noteq> []" by (simp add: len)
  ultimately show ?thesis
    by (simp add: va_severity_for_def va_evaluate_def bool_op_evaluate_def bool_op_fold_spec r_def [symmetric]
      split: bool_op.split)
qed

end
