(* ===== verification/Dwell_Machines.thy ===== *)
theory Dwell_Machines
  imports Alarm_Types
begin

text \<open>
  Debounced two-state machines: the alarm state machine of
  \<open>multiview-engine/src/alarm/state.rs\<close> and the penalty box of
  \<open>multiview-engine/src/alarm/penalty_box.rs\<close>.

  Both refine one abstract machine, \<open>dwell_step\<close>. The locale \<open>dwell_machine\<close> states the
  refinement; its client lemmas trace every change of the output back to an unbroken run of
  samples that lasted the configured dwell, and are inherited by both.
\<close>

section \<open>The abstract machine\<close>

datatype dwell_phase = DOff | DRising media_time | DOn | DFalling media_time

definition non_negative :: "media_time \<Rightarrow> media_time" where
  "non_negative t = (if t < 0 then 0 else t)"

definition dwell_elapsed :: "media_time \<Rightarrow> media_time \<Rightarrow> media_time" where
  "dwell_elapsed since now = non_negative (mt_sub now since)"

definition dwell_on :: "dwell_phase \<Rightarrow> bool" where
  "dwell_on p \<longleftrightarrow> (case p of DOn \<Rightarrow> True | DFalling t \<Rightarrow> True | _ \<Rightarrow> False)"

fun dwell_fold :: "bool \<Rightarrow> bool \<Rightarrow> media_time \<Rightarrow> dwell_phase \<Rightarrow> dwell_phase" where
  "dwell_fold held c now DOff = (if c then DRising now else DOff)"
| "dwell_fold held c now (DRising t) = (if \<not> c then DOff else DRising t)"
| "dwell_fold held c now DOn = (if \<not> c \<and> \<not> held then DFalling now else DOn)"
| "dwell_fold held c now (DFalling t) = (if c \<or> held then DOn else DFalling t)"

fun dwell_serve :: "media_time \<Rightarrow> media_time \<Rightarrow> media_time \<Rightarrow> dwell_phase \<Rightarrow> dwell_phase" where
  "dwell_serve up down now (DRising t) = (if up \<le> dwell_elapsed t now then DOn else DRising t)"
| "dwell_serve up down now (DFalling t) = (if down \<le> dwell_elapsed t now then DOff else DFalling t)"
| "dwell_serve up down now p = p"

definition dwell_step ::
  "media_time \<Rightarrow> media_time \<Rightarrow> bool \<Rightarrow> bool \<Rightarrow> media_time \<Rightarrow> dwell_phase \<Rightarrow> dwell_phase" where
  "dwell_step up down held c now p = dwell_serve up down now (dwell_fold held c now p)"

text \<open>An unbroken run of samples equal to \<open>c\<close> that began at \<open>t\<close> and ends the sequence.\<close>

definition unbroken :: "bool \<Rightarrow> (bool \<times> media_time) list \<Rightarrow> media_time \<Rightarrow> bool" where
  "unbroken c xs t \<longleftrightarrow>
     (\<exists>ys zs. xs = ys @ zs \<and> zs \<noteq> [] \<and> (\<forall>z \<in> set zs. fst z = c) \<and> snd (hd zs) = t)"

lemma unbroken_extend:
  assumes "unbroken c xs t"
  shows "unbroken c (xs @ [(c, now)]) t"
proof -
  from assms obtain ys zs where "xs = ys @ zs" "zs \<noteq> []" "\<forall>z \<in> set zs. fst z = c" "snd (hd zs) = t"
    unfolding unbroken_def by blast
  then show ?thesis
    unfolding unbroken_def by (intro exI [of _ ys] exI [of _ "zs @ [(c, now)]"]) auto
qed

lemma unbroken_start: "unbroken c (xs @ [(c, now)]) now"
  unfolding unbroken_def by (intro exI [of _ xs] exI [of _ "[(c, now)]"]) simp

section \<open>Machines that refine it\<close>

locale dwell_machine =
  fixes step :: "bool \<Rightarrow> media_time \<Rightarrow> 's \<Rightarrow> 's"
    and phase_of :: "'s \<Rightarrow> dwell_phase"
    and up :: "'s \<Rightarrow> media_time"
    and down :: "'s \<Rightarrow> media_time"
    and held :: "'s \<Rightarrow> bool"
  assumes refines: "phase_of (step c now s) = dwell_step (up s) (down s) (held s) c now (phase_of s)"
    and up_step: "up (step c now s) = up s"
    and down_step: "down (step c now s) = down s"
    and held_step: "held s \<Longrightarrow> held (step c now s)"
begin

definition run :: "(bool \<times> media_time) list \<Rightarrow> 's \<Rightarrow> 's" where
  "run xs s = fold (\<lambda>(c, now). step c now) xs s"

lemma run_append [simp]: "run (xs @ [(c, now)]) s = step c now (run xs s)"
  by (simp add: run_def)

lemma run_frame [simp]: "up (run xs s) = up s" "down (run xs s) = down s"
  by (induction xs arbitrary: s) (auto simp: run_def up_step down_step)

lemma phase_step:
  "phase_of (run (xs @ [(c, now)]) s) =
     dwell_step (up s) (down s) (held (run xs s)) c now (phase_of (run xs s))"
  by (simp add: refines)

lemma phase_since:
  assumes "phase_of s \<in> {DOff, DOn}"
  shows "(phase_of (run xs s) = DRising t \<longrightarrow> unbroken True xs t) \<and>
     (phase_of (run xs s) = DFalling t \<longrightarrow> unbroken False xs t)"
proof (induction xs rule: rev_induct)
  case Nil
  then show ?case using assms by (auto simp: run_def)
next
  case (snoc x xs)
  obtain c now where x: "x = (c, now)" by (cases x)
  show ?case
    using snoc.IH unfolding x phase_step
    by (cases c; cases "phase_of (run xs s)")
      (auto simp: dwell_step_def split: if_splits intro: unbroken_extend unbroken_start)
qed

text \<open>A rise of the output rests on an unbroken run of present samples at least \<open>up\<close> long.\<close>

lemma rise_persisted:
  assumes "phase_of s \<in> {DOff, DOn}"
    and "\<not> dwell_on (phase_of (run xs s))" and "dwell_on (phase_of (run (xs @ [(c, now)]) s))"
  shows "c \<and> (\<exists>t. unbroken True (xs @ [(c, now)]) t \<and> up s \<le> dwell_elapsed t now)"
proof (cases "phase_of (run xs s)")
  case DOff
  with assms(3) have "c" "up s \<le> dwell_elapsed now now"
    unfolding phase_step by (auto simp: dwell_step_def dwell_on_def split: if_splits)
  then show ?thesis using unbroken_start [of True xs now] by auto
next
  case (DRising t)
  with assms(3) have "c" "up s \<le> dwell_elapsed t now"
    unfolding phase_step by (auto simp: dwell_step_def dwell_on_def split: if_splits)
  moreover have "unbroken True xs t" using phase_since [OF assms(1), of xs t] DRising by simp
  ultimately show ?thesis using unbroken_extend [of True xs t now] by auto
qed (use assms(2) in \<open>simp_all add: dwell_on_def\<close>)

lemma fall_persisted:
  assumes "phase_of s \<in> {DOff, DOn}"
    and "dwell_on (phase_of (run xs s))" and "\<not> dwell_on (phase_of (run (xs @ [(c, now)]) s))"
  shows "\<not> c \<and> \<not> held (run xs s) \<and>
     (\<exists>t. unbroken False (xs @ [(c, now)]) t \<and> down s \<le> dwell_elapsed t now)"
proof (cases "phase_of (run xs s)")
  case DOn
  with assms(3) have "\<not> c" "\<not> held (run xs s)" "down s \<le> dwell_elapsed now now"
    unfolding phase_step by (auto simp: dwell_step_def dwell_on_def split: if_splits)
  then show ?thesis using unbroken_start [of False xs now] by auto
next
  case (DFalling t)
  with assms(3) have "\<not> c" "\<not> held (run xs s)" "down s \<le> dwell_elapsed t now"
    unfolding phase_step by (auto simp: dwell_step_def dwell_on_def split: if_splits)
  moreover have "unbroken False xs t" using phase_since [OF assms(1), of xs t] DFalling by simp
  ultimately show ?thesis using unbroken_extend [of False xs t now] by auto
qed (use assms(2) in \<open>simp_all add: dwell_on_def\<close>)

text \<open>Conversely a condition that persists for the dwell always changes the output.\<close>

lemma rises_after_dwell:
  assumes "\<forall>z \<in> set zs. fst z" and "zs \<noteq> []" and "phase_of s = DOff"
    and "up s \<le> dwell_elapsed (snd (hd zs)) (snd (last zs))"
  shows "dwell_on (phase_of (run zs s))"
proof -
  have "zs \<noteq> [] \<longrightarrow> phase_of (run zs s) = DRising (snd (hd zs)) \<or> phase_of (run zs s) = DOn"
    if "\<forall>z \<in> set zs. fst z" for zs
    using that
  proof (induction zs rule: rev_induct)
    case (snoc x zs)
    obtain c now where x: "x = (c, now)" by (cases x)
    have c: "c" using snoc.prems by (simp add: x)
    show ?case
    proof (cases "zs = []")
      case True
      then show ?thesis
        using c assms(3) refines [of c now s] by (auto simp: x run_def dwell_step_def)
    next
      case False
      with snoc c show ?thesis
        by (auto simp: x refines dwell_step_def)
    qed
  qed simp
  from this [OF assms(1)] assms(2) consider "phase_of (run zs s) = DRising (snd (hd zs))"
    | "phase_of (run zs s) = DOn" by auto
  then show ?thesis
  proof cases
    case 1
    obtain xs c now where zs: "zs = xs @ [(c, now)]" by (metis assms(2) rev_exhaust surj_pair)
    have "phase_of (run zs s) = dwell_step (up s) (down s) (held (run xs s)) c now (phase_of (run xs s))"
      by (simp add: zs refines)
    with 1 assms(4) show ?thesis
      by (cases "phase_of (run xs s)") (auto simp: zs dwell_step_def dwell_on_def split: if_splits)
  qed (simp add: dwell_on_def)
qed

lemma held_stays_on:
  assumes "held s" and "phase_of s = DOn"
  shows "phase_of (run xs s) = DOn \<and> held (run xs s)"
proof (induction xs rule: rev_induct)
  case (snoc x xs)
  then show ?case by (cases x) (simp add: refines dwell_step_def held_step)
qed (simp add: run_def assms)

text \<open>Rises are rate limited: on a clock that does not run backwards, two of them are at least
  one full \<open>up\<close> and one full \<open>down\<close> dwell apart.\<close>

definition counted_run :: "(bool \<times> media_time) list \<Rightarrow> 's \<Rightarrow> 's \<times> nat" where
  "counted_run xs s = fold (\<lambda>(c, now) (s, n).
     (step c now s,
      if \<not> dwell_on (phase_of s) \<and> dwell_on (phase_of (step c now s)) then n + 1 else n)) xs (s, 0)"

definition spaced :: "media_time \<Rightarrow> media_time \<Rightarrow> 's \<Rightarrow> nat \<Rightarrow> bool" where
  "spaced t0 t s n \<longleftrightarrow>
     (case phase_of s of
        DOff \<Rightarrow> int n * (up s + down s) \<le> t - t0
      | DRising r \<Rightarrow> r \<le> t \<and> 0 \<le> r \<and> int n * (up s + down s) \<le> r - t0
      | DOn \<Rightarrow> 0 < n \<and> int (n - 1) * (up s + down s) + up s \<le> t - t0
      | DFalling r \<Rightarrow> r \<le> t \<and> 0 \<le> r \<and> 0 < n \<and> int (n - 1) * (up s + down s) + up s \<le> r - t0)"

lemma spaced_step:
  assumes "spaced t0 t s n" and "t \<le> now" and "0 \<le> now" and "now < 2 ^ 63"
  shows "spaced t0 now (step c now s)
    (if \<not> dwell_on (phase_of s) \<and> dwell_on (phase_of (step c now s)) then n + 1 else n)"
proof -
  have e: "dwell_elapsed r now = now - r" if "0 \<le> r" "r \<le> now" for r
    using that assms(3,4) by (simp add: dwell_elapsed_def non_negative_def mt_sub_def sat_sub_def sat_def i_simps)
  have split: "int n * u + v = int (n - 1) * u + u + v" if "0 < n" for u v :: int
    using that by (cases n) (simp_all add: algebra_simps)
  have e0: "dwell_elapsed now now = 0" using e assms(3) by simp
  note defs = spaced_def refines up_step down_step dwell_step_def dwell_on_def
  note sp = split [of "up s + down s" 0]
  show ?thesis
  proof (cases "phase_of s")
    case DOff
    then show ?thesis using assms e0 by (auto simp: defs algebra_simps)
  next
    case (DRising r)
    then show ?thesis using assms e [of r] by (auto simp: defs algebra_simps)
  next
    case DOn
    then show ?thesis using assms e0 sp by (auto simp: defs algebra_simps)
  next
    case (DFalling r)
    then show ?thesis using assms e [of r] sp by (auto simp: defs algebra_simps)
  qed
qed

lemma counted_run_state: "fst (counted_run xs s) = run xs s"
  by (induction xs rule: rev_induct) (auto simp: counted_run_def run_def split: prod.splits)

lemma counted_run_snoc:
  "counted_run (xs @ [(c, now)]) s =
     (step c now (run xs s),
      if \<not> dwell_on (phase_of (run xs s)) \<and> dwell_on (phase_of (step c now (run xs s)))
      then snd (counted_run xs s) + 1 else snd (counted_run xs s))"
  using counted_run_state [of xs s] by (cases "counted_run xs s") (simp add: counted_run_def)

lemma rises_spaced:
  assumes "phase_of s = DOff" and "sorted (t0 # map snd xs)" and "0 \<le> t0"
    and "\<forall>x \<in> set xs. snd x < 2 ^ 63"
  shows "spaced t0 (last (t0 # map snd xs)) (run xs s) (snd (counted_run xs s))"
  using assms(2,4)
proof (induction xs rule: rev_induct)
  case Nil
  then show ?case by (simp add: spaced_def run_def counted_run_def assms(1))
next
  case (snoc x xs)
  obtain c now where x: "x = (c, now)" by (cases x)
  have ih: "spaced t0 (last (t0 # map snd xs)) (run xs s) (snd (counted_run xs s))"
    using snoc by (simp add: sorted_append)
  have le: "last (t0 # map snd xs) \<le> now"
    using snoc.prems(1) last_in_set [of "t0 # map snd xs"]
    by (auto simp: x sorted_append split: if_splits)
  have "0 \<le> now" using snoc.prems(1) assms(3) by (auto simp: x sorted_append)
  then show ?case
    using spaced_step [OF ih le, of c] snoc.prems(2) by (simp add: x counted_run_snoc)
qed

lemma rise_rate:
  assumes "phase_of s = DOff" and "sorted (t0 # map snd xs)" and "0 \<le> t0"
    and "\<forall>x \<in> set xs. snd x < 2 ^ 63" and "snd (counted_run xs s) = Suc n" and "0 \<le> down s"
  shows "int n * (up s + down s) + up s \<le> last (t0 # map snd xs) - t0"
proof -
  have "int (Suc n) * (up s + down s) = int n * (up s + down s) + up s + down s"
    by (simp add: algebra_simps)
  with rises_spaced [OF assms(1-4)] assms(5,6) show ?thesis
    by (auto simp: spaced_def split: dwell_phase.splits)
qed

end

end
