(* ===== verification/Alarm_Machine.thy ===== *)
theory Alarm_Machine
  imports Dwell_Machines
begin

text \<open>
  The X.733 alarm state machine of \<open>multiview-engine/src/alarm/state.rs\<close>: dwell-up and
  dwell-down hysteresis, latch, acknowledge and reset, and its construction from the probe
  declarations of \<open>multiview-config/src/probe.rs\<close>. Floats of a probe declaration are carried
  and never computed with, so their type is a parameter.
\<close>

section \<open>Probe declarations\<close>

record 'f detection_zone =
  dz_x :: 'f
  dz_y :: 'f
  dz_w :: 'f
  dz_h :: 'f

record dwell_ms =
  up_ms :: nat
  down_ms :: nat

definition dwell_ms_default :: dwell_ms where
  "dwell_ms_default = \<lparr>up_ms = 1000, down_ms = 1000\<rparr>"

datatype 'f loudness_target = R128 'f 'f | A85 'f 'f

datatype 'f probe_kind =
    BlackProbe nat "'f detection_zone"
  | FreezeProbe nat "'f detection_zone"
  | SilenceProbe 'f
  | LoudnessProbe "'f loudness_target"

fun probe_alarm_kind :: "'f probe_kind \<Rightarrow> alarm_kind" where
  "probe_alarm_kind (BlackProbe _ _) = Black"
| "probe_alarm_kind (FreezeProbe _ _) = Freeze"
| "probe_alarm_kind (SilenceProbe _) = Silence"
| "probe_alarm_kind (LoudnessProbe _) = LoudnessViolation"

record 'f probe =
  probe_id :: string
  probe_cell :: string
  probe_kind_of :: "'f probe_kind"
  probe_dwell :: dwell_ms
  probe_severity :: perceived_severity
  probe_latched :: bool

section \<open>Hysteresis\<close>

record alarm_hysteresis =
  dwell_up :: media_time
  dwell_down :: media_time

definition hysteresis_new :: "media_time \<Rightarrow> media_time \<Rightarrow> alarm_hysteresis" where
  "hysteresis_new up down = \<lparr>dwell_up = non_negative up, dwell_down = non_negative down\<rparr>"

definition hysteresis_default :: alarm_hysteresis where
  "hysteresis_default = \<lparr>dwell_up = 0, dwell_down = 0\<rparr>"

definition millis_to_media_time :: "nat \<Rightarrow> media_time" where
  "millis_to_media_time ms = sat_mul 64 (int ms) 1000000"

definition from_dwell :: "dwell_ms \<Rightarrow> alarm_hysteresis" where
  "from_dwell d = \<lparr>dwell_up = millis_to_media_time (up_ms d),
     dwell_down = millis_to_media_time (down_ms d)\<rparr>"

lemma millis_exact:
  assumes "ms < 2 ^ 32"
  shows "millis_to_media_time ms = int ms * 1000000"
proof -
  have "int ms < 4294967296" using assms by simp
  then show ?thesis by (simp add: millis_to_media_time_def sat_mul_def sat_def i_simps)
qed

section \<open>The machine\<close>

datatype alarm_phase =
    PhaseClear
  | Pending (pending_since: media_time)
  | PhaseRaised
  | Clearing (clearing_since: media_time)

definition phase_is_active :: "alarm_phase \<Rightarrow> bool" where
  "phase_is_active p \<longleftrightarrow> (case p of PhaseRaised \<Rightarrow> True | Clearing _ \<Rightarrow> True | _ \<Rightarrow> False)"

datatype alarm_transition = TransNone | TransRaised | TransCleared

record alarm_machine =
  am_id :: alarm_id
  am_kind :: alarm_kind
  am_scope :: alarm_scope
  active_severity :: perceived_severity
  hysteresis :: alarm_hysteresis
  am_latching :: bool
  am_phase :: alarm_phase
  am_latched :: bool
  am_ack :: ack_state
  am_raised_at :: media_time

definition alarm_new ::
  "alarm_id \<Rightarrow> alarm_kind \<Rightarrow> alarm_scope \<Rightarrow> perceived_severity \<Rightarrow> alarm_hysteresis \<Rightarrow> alarm_machine" where
  "alarm_new i k sc sev h = \<lparr>am_id = i, am_kind = k, am_scope = sc, active_severity = sev,
     hysteresis = h, am_latching = False, am_phase = PhaseClear, am_latched = False,
     am_ack = Unacked, am_raised_at = 0\<rparr>"

definition with_latching :: "alarm_machine \<Rightarrow> alarm_machine" where
  "with_latching m = m\<lparr>am_latching := True\<rparr>"

definition from_probe :: "'f probe \<Rightarrow> alarm_machine" where
  "from_probe p =
     (let m = alarm_new (probe_id p) (probe_alarm_kind (probe_kind_of p)) (ScopeProbe (probe_id p))
                (probe_severity p) (from_dwell (probe_dwell p))
      in if probe_latched p then with_latching m else m)"

definition alarm_is_active :: "alarm_machine \<Rightarrow> bool" where
  "alarm_is_active m \<longleftrightarrow> phase_is_active (am_phase m)"

definition current_severity :: "alarm_machine \<Rightarrow> perceived_severity" where
  "current_severity m = (if alarm_is_active m then active_severity m else Cleared)"

definition acknowledge :: "string \<Rightarrow> media_time \<Rightarrow> alarm_machine \<Rightarrow> alarm_machine" where
  "acknowledge who t m = (if alarm_is_active m then m\<lparr>am_ack := Acked who t\<rparr> else m)"

definition alarm_reset :: "alarm_machine \<Rightarrow> alarm_machine" where
  "alarm_reset m = m\<lparr>am_phase := PhaseClear, am_latched := False, am_ack := Unacked\<rparr>"

definition do_raise :: "media_time \<Rightarrow> alarm_machine \<Rightarrow> alarm_machine" where
  "do_raise now m =
     (let m1 = m\<lparr>am_phase := PhaseRaised, am_raised_at := now\<rparr>
      in if am_latching m1 then m1\<lparr>am_latched := True\<rparr> else m1)"

definition fold_sample :: "bool \<Rightarrow> media_time \<Rightarrow> alarm_machine \<Rightarrow> alarm_machine" where
  "fold_sample present now m =
     (case am_phase m of
        PhaseClear \<Rightarrow> if present then m\<lparr>am_phase := Pending now\<rparr> else m
      | Pending _ \<Rightarrow> if \<not> present then m\<lparr>am_phase := PhaseClear\<rparr> else m
      | PhaseRaised \<Rightarrow>
          if \<not> present \<and> \<not> am_latched m then m\<lparr>am_phase := Clearing now\<rparr> else m
      | Clearing _ \<Rightarrow> if present \<or> am_latched m then m\<lparr>am_phase := PhaseRaised\<rparr> else m)"

definition serve_dwell :: "media_time \<Rightarrow> alarm_machine \<Rightarrow> alarm_transition \<times> alarm_machine" where
  "serve_dwell now m =
     (case am_phase m of
        Pending since \<Rightarrow>
          if dwell_up (hysteresis m) \<le> dwell_elapsed since now then (TransRaised, do_raise now m)
          else (TransNone, m)
      | Clearing since \<Rightarrow>
          if \<not> am_latched m \<and> dwell_down (hysteresis m) \<le> dwell_elapsed since now
          then (TransCleared, m\<lparr>am_phase := PhaseClear, am_ack := Unacked\<rparr>)
          else (TransNone, m)
      | _ \<Rightarrow> (TransNone, m))"

definition alarm_observe ::
  "bool \<Rightarrow> media_time \<Rightarrow> alarm_machine \<Rightarrow> alarm_transition \<times> alarm_machine" where
  "alarm_observe present now m = serve_dwell now (fold_sample present now m)"

definition snapshot_record :: "media_time \<Rightarrow> alarm_machine \<Rightarrow> alarm_record" where
  "snapshot_record now m = \<lparr>ar_id = am_id m, ar_kind = am_kind m,
     ar_severity = current_severity m, ar_scope = am_scope m, ar_raised_at = am_raised_at m,
     ar_dwell = (if alarm_is_active m then non_negative (mt_sub now (am_raised_at m)) else 0),
     ar_latched = am_latched m, ar_ack = am_ack m\<rparr>"

section \<open>Refinement of the debounced machine\<close>

fun abs_phase :: "alarm_phase \<Rightarrow> dwell_phase" where
  "abs_phase PhaseClear = DOff"
| "abs_phase (Pending t) = DRising t"
| "abs_phase PhaseRaised = DOn"
| "abs_phase (Clearing t) = DFalling t"

lemma phase_is_active_abs: "phase_is_active p \<longleftrightarrow> dwell_on (abs_phase p)"
  by (cases p) (simp_all add: phase_is_active_def dwell_on_def)

lemmas alarm_step_defs = alarm_observe_def serve_dwell_def fold_sample_def do_raise_def Let_def

lemma alarm_observe_frame:
  "hysteresis (snd (alarm_observe c now m)) = hysteresis m"
  "am_latching (snd (alarm_observe c now m)) = am_latching m"
  "active_severity (snd (alarm_observe c now m)) = active_severity m"
  by (auto simp: alarm_step_defs split: alarm_phase.split)

interpretation x733: dwell_machine "\<lambda>c now m. snd (alarm_observe c now m)"
  "\<lambda>m. abs_phase (am_phase m)" "\<lambda>m. dwell_up (hysteresis m)" "\<lambda>m. dwell_down (hysteresis m)" am_latched
proof unfold_locales
  fix c now m
  show "abs_phase (am_phase (snd (alarm_observe c now m))) =
    dwell_step (dwell_up (hysteresis m)) (dwell_down (hysteresis m)) (am_latched m) c now (abs_phase (am_phase m))"
    by (cases "am_phase m") (auto simp: alarm_step_defs dwell_step_def)
  show "am_latched m \<Longrightarrow> am_latched (snd (alarm_observe c now m))"
    by (auto simp: alarm_step_defs split: alarm_phase.split)
qed (simp_all add: alarm_observe_frame)

text \<open>The run of a sequence of probe samples, and the run of one constant reading.\<close>

definition alarm_run :: "(bool \<times> media_time) list \<Rightarrow> alarm_machine \<Rightarrow> alarm_machine" where
  "alarm_run xs m = fold (\<lambda>(c, now) m. snd (alarm_observe c now m)) xs m"

lemma alarm_run_x733: "alarm_run xs m = x733.run xs m"
  by (simp add: alarm_run_def x733.run_def)

lemma alarm_run_append: "alarm_run (xs @ [(c, now)]) m = snd (alarm_observe c now (alarm_run xs m))"
  by (simp add: alarm_run_def)

text \<open>The transition reported is exactly the change of the active state.\<close>

lemma transition_iff:
  "fst (alarm_observe c now m) = TransRaised \<longleftrightarrow>
     \<not> alarm_is_active m \<and> alarm_is_active (snd (alarm_observe c now m))"
  "fst (alarm_observe c now m) = TransCleared \<longleftrightarrow>
     alarm_is_active m \<and> \<not> alarm_is_active (snd (alarm_observe c now m))"
  by (cases "am_phase m"; auto simp: alarm_step_defs alarm_is_active_def phase_is_active_def)+

section \<open>What raises and clears an alarm\<close>

text \<open>C16: Alarm transitions are justified. From a clear alarm, after any samples, a reported raise
  rests on an unbroken run of present samples ending now and lasting the raise dwell, and a
  reported clear on such a run of absent samples lasting the clear dwell, with the alarm not
  latched: no blip raises or clears an alarm.\<close>

theorem alarm_transitions_justified:
  assumes "am_phase m = PhaseClear"
  shows "(fst (alarm_observe c now (alarm_run xs m)) = TransRaised \<longrightarrow>
      c \<and> (\<exists>t. unbroken True (xs @ [(c, now)]) t \<and> dwell_up (hysteresis m) \<le> dwell_elapsed t now)) \<and>
    (fst (alarm_observe c now (alarm_run xs m)) = TransCleared \<longrightarrow>
      \<not> c \<and> \<not> am_latched (alarm_run xs m) \<and>
      (\<exists>t. unbroken False (xs @ [(c, now)]) t \<and> dwell_down (hysteresis m) \<le> dwell_elapsed t now))"
proof -
  have "abs_phase (am_phase m) \<in> {DOff, DOn}" using assms by simp
  from x733.rise_persisted [OF this, of xs c now] x733.fall_persisted [OF this, of xs c now] show ?thesis
    unfolding transition_iff alarm_is_active_def phase_is_active_abs alarm_run_x733
      x733.run_append by blast
qed

definition flapping_alarm :: alarm_machine where
  "flapping_alarm = alarm_new ''black-1'' Black (ScopeTile 0) Major (hysteresis_new 1000 500)"

lemmas flapping_defs = flapping_alarm_def alarm_new_def hysteresis_new_def non_negative_def alarm_run_def
  alarm_step_defs dwell_elapsed_def mt_sub_def sat_sub_def sat_def i_simps

theorem alarm_transitions_justified_witness:
  "True \<and> (\<exists>t. unbroken True ([(True, 0), (False, 400), (True, 600), (True, 1200)] @ [(True, 1600)]) t \<and>
     1000 \<le> dwell_elapsed t 1600)"
proof -
  let ?xs = "[(True, 0), (False, 400), (True, 600), (True, 1200)]"
  have "am_phase flapping_alarm = PhaseClear" "dwell_up (hysteresis flapping_alarm) = 1000"
    "fst (alarm_observe True 1600 (alarm_run ?xs flapping_alarm)) = TransRaised"
    by (simp_all add: flapping_defs)
  with alarm_transitions_justified [of flapping_alarm True 1600 ?xs] show ?thesis by simp
qed

text \<open>C17: A persisting fault is always reported. From a clear alarm, a sequence of samples that are
  all present and span at least the raise dwell leaves the alarm active at its configured
  severity.\<close>

theorem alarm_raises_after_dwell:
  assumes "am_phase m = PhaseClear" and "zs \<noteq> []" and "\<forall>z \<in> set zs. fst z"
    and "dwell_up (hysteresis m) \<le> dwell_elapsed (snd (hd zs)) (snd (last zs))"
  shows "alarm_is_active (alarm_run zs m) \<and> current_severity (alarm_run zs m) = active_severity m"
proof -
  have "alarm_is_active (alarm_run zs m)"
    using x733.rises_after_dwell [OF assms(3,2)] assms(1,4)
    by (simp add: alarm_is_active_def phase_is_active_abs alarm_run_x733)
  moreover have "active_severity (alarm_run zs m) = active_severity m" for zs
    by (induction zs rule: rev_induct) (auto simp: alarm_run_def alarm_observe_frame)
  ultimately show ?thesis by (simp add: current_severity_def)
qed

theorem alarm_raises_after_dwell_witness:
  "alarm_is_active (alarm_run [(True, 100), (True, 900), (True, 1100)] flapping_alarm)"
proof -
  have "am_phase flapping_alarm = PhaseClear" "dwell_up (hysteresis flapping_alarm) = 1000"
    "dwell_elapsed 100 1100 = 1000" by (simp_all add: flapping_defs)
  with alarm_raises_after_dwell [of flapping_alarm "[(True, 100), (True, 900), (True, 1100)]"]
  show ?thesis by simp
qed

text \<open>
  The dwell is measured from the instant the run began, so a run that begins on a sample whose
  time ran backwards is served early: here a fault first seen on such a sample raises one
  nanosecond after the last good sample without it, although the raise dwell is 1000.
\<close>

lemma backward_glitch_shortens_dwell:
  "fst (alarm_observe True 5001 (alarm_run [(False, 5000), (True, 0)] flapping_alarm)) = TransRaised"
  by (simp add: flapping_defs)

section \<open>The rate of alarms\<close>

fun alarm_log :: "(bool \<times> media_time) list \<Rightarrow> alarm_machine \<Rightarrow> alarm_transition list" where
  "alarm_log [] m = []"
| "alarm_log ((c, now) # xs) m =
     (let (t, m') = alarm_observe c now m in t # alarm_log xs m')"

lemma alarm_log_append:
  "alarm_log (xs @ [(c, now)]) m = alarm_log xs m @ [fst (alarm_observe c now (alarm_run xs m))]"
  by (induction xs arbitrary: m) (auto simp: alarm_run_def Let_def split_beta)

lemma raises_counted: "count_list (alarm_log xs m) TransRaised = snd (x733.counted_run xs m)"
proof (induction xs rule: rev_induct)
  case (snoc x xs)
  then show ?case
    by (cases x) (simp add: alarm_log_append x733.counted_run_snoc transition_iff alarm_is_active_def
      phase_is_active_abs alarm_run_x733)
qed (simp add: x733.counted_run_def)

text \<open>Alarms are rate limited. On samples whose times never run backwards from \<open>t0\<close>, an alarm that is
  clear at \<open>t0\<close> and has raised \<open>n + 1\<close> times has used up at least \<open>n\<close> full raise-and-clear
  dwells and one raise dwell: however the probe flaps, the alarm cannot flap faster.\<close>

theorem alarm_rate_limited:
  assumes "am_phase m = PhaseClear" and "0 \<le> dwell_down (hysteresis m)" and "0 \<le> t0"
    and "sorted (t0 # map snd xs)" and "\<forall>x \<in> set xs. snd x < 2 ^ 63"
    and "count_list (alarm_log xs m) TransRaised = Suc n"
  shows "int n * (dwell_up (hysteresis m) + dwell_down (hysteresis m)) + dwell_up (hysteresis m)
           \<le> last (t0 # map snd xs) - t0"
  using assms by (intro x733.rise_rate) (simp_all add: raises_counted)

theorem alarm_rate_limited_witness:
  "(2500 :: int) \<le> last (0 # map snd
     [(True, 0), (True, 1000), (False, 1100), (False, 1600), (True, 1700), (True, 2700)]) - 0"
proof -
  let ?xs = "[(True, 0), (True, 1000), (False, 1100), (False, 1600), (True, 1700), (True, 2700)]"
  have "alarm_log ?xs flapping_alarm =
    [TransNone, TransRaised, TransNone, TransCleared, TransNone, TransRaised]"
    by (simp add: flapping_defs)
  then have "count_list (alarm_log ?xs flapping_alarm) TransRaised = Suc 1" by simp
  moreover have "am_phase flapping_alarm = PhaseClear" "dwell_up (hysteresis flapping_alarm) = 1000"
    "dwell_down (hysteresis flapping_alarm) = 500"
    by (simp_all add: flapping_defs)
  ultimately show ?thesis using alarm_rate_limited [of flapping_alarm 0 ?xs 1] by simp
qed

section \<open>Latching and the operator\<close>

datatype alarm_op = OpObserve bool media_time | OpAcknowledge string media_time | OpResetAlarm

fun alarm_apply :: "alarm_op \<Rightarrow> alarm_machine \<Rightarrow> alarm_machine" where
  "alarm_apply (OpObserve c now) m = snd (alarm_observe c now m)"
| "alarm_apply (OpAcknowledge who t) m = acknowledge who t m"
| "alarm_apply OpResetAlarm m = alarm_reset m"

definition latch_inv :: "perceived_severity \<Rightarrow> alarm_machine \<Rightarrow> bool" where
  "latch_inv sev m \<longleftrightarrow> am_latching m \<and> active_severity m = sev \<and>
     (if am_latched m then am_phase m = PhaseRaised else \<not> alarm_is_active m)"

lemma latch_inv_step:
  assumes "latch_inv sev m"
  shows "latch_inv sev (alarm_apply a m)"
    and "am_latched m \<Longrightarrow> a \<noteq> OpResetAlarm \<Longrightarrow> am_latched (alarm_apply a m)"
  using assms
  by (cases a; cases "am_phase m";
      simp add: latch_inv_def alarm_step_defs acknowledge_def alarm_reset_def alarm_is_active_def
        phase_is_active_def split: if_splits)+

lemma latch_inv_run: "latch_inv sev m \<Longrightarrow> latch_inv sev (fold alarm_apply ops m)"
  by (induction ops arbitrary: m) (auto intro: latch_inv_step(1))

lemma latched_run:
  "latch_inv sev m \<Longrightarrow> am_latched m \<Longrightarrow> OpResetAlarm \<notin> set ops \<Longrightarrow> am_latched (fold alarm_apply ops m)"
proof (induction ops arbitrary: m)
  case (Cons a ops)
  then show ?case using latch_inv_step [of sev m a] by auto
qed simp

text \<open>A latched alarm waits for the operator. Once an alarm built from a latching probe is active,
  no sequence of samples and acknowledgements, however long the fault has been gone, takes it
  back: it keeps its severity until \<open>reset\<close>, and \<open>reset\<close> always clears it.\<close>

theorem latched_until_reset:
  assumes "probe_latched p" and "alarm_is_active (fold alarm_apply ops (from_probe p))"
    and "OpResetAlarm \<notin> set later"
  shows "current_severity (fold alarm_apply (ops @ later) (from_probe p)) = probe_severity p \<and>
    am_latched (fold alarm_apply (ops @ later) (from_probe p)) \<and>
    current_severity (fold alarm_apply (ops @ later @ [OpResetAlarm]) (from_probe p)) = Cleared"
proof -
  let ?m = "fold alarm_apply ops (from_probe p)"
  have "latch_inv (probe_severity p) (from_probe p)"
    using assms(1) by (simp add: latch_inv_def from_probe_def with_latching_def alarm_new_def
      alarm_is_active_def phase_is_active_def)
  then have inv: "latch_inv (probe_severity p) ?m" by (rule latch_inv_run)
  with assms(2) have "am_latched ?m" by (auto simp: latch_inv_def split: if_splits)
  with inv assms(3) have l: "am_latched (fold alarm_apply later ?m)"
    using latched_run [of "probe_severity p" ?m later] by simp
  moreover from inv have "latch_inv (probe_severity p) (fold alarm_apply later ?m)" by (rule latch_inv_run)
  ultimately show ?thesis
    by (simp add: latch_inv_def current_severity_def alarm_is_active_def phase_is_active_def alarm_reset_def)
qed

definition latching_probe :: "int probe" where
  "latching_probe = \<lparr>probe_id = ''p'', probe_cell = ''c'', probe_kind_of = SilenceProbe (- 60),
     probe_dwell = \<lparr>up_ms = 1, down_ms = 1\<rparr>, probe_severity = Critical, probe_latched = True\<rparr>"

theorem latched_until_reset_witness:
  "current_severity (fold alarm_apply
     ([OpObserve True 0, OpObserve True 1000000] @ [OpAcknowledge ''op'' 1500000, OpObserve False 9000000])
     (from_probe latching_probe)) = Critical"
proof -
  let ?ops = "[OpObserve True 0, OpObserve True 1000000]"
  have "alarm_is_active (fold alarm_apply ?ops (from_probe latching_probe))"
    by (simp add: latching_probe_def from_probe_def with_latching_def from_dwell_def millis_to_media_time_def
      sat_mul_def alarm_is_active_def phase_is_active_def flapping_defs)
  moreover have "probe_latched latching_probe" "probe_severity latching_probe = Critical"
    by (simp_all add: latching_probe_def)
  ultimately show ?thesis
    using latched_until_reset [of latching_probe ?ops "[OpAcknowledge ''op'' 1500000, OpObserve False 9000000]"]
    by simp
qed

end
