(* ===== verification/Penalty_Box.thy ===== *)
theory Penalty_Box
  imports Dwell_Machines
begin

text \<open>
  The penalty box of \<open>multiview-engine/src/alarm/penalty_box.rs\<close>: a sustained alarm removes a
  tile from the wall (promoting a spare), a sustained recovery restores it.
\<close>

section \<open>The machine\<close>

datatype penalty_action = NoAction | BoxTile nat "nat option" | RestoreTile nat

record penalty_config =
  pc_tile :: nat
  pc_promote :: "nat option"
  sustain :: media_time
  release_window :: media_time

definition penalty_config_new :: "nat \<Rightarrow> media_time \<Rightarrow> media_time \<Rightarrow> penalty_config" where
  "penalty_config_new tile su re = \<lparr>pc_tile = tile, pc_promote = None,
     sustain = non_negative su, release_window = non_negative re\<rparr>"

definition with_promote :: "nat \<Rightarrow> penalty_config \<Rightarrow> penalty_config" where
  "with_promote spare c = c\<lparr>pc_promote := Some spare\<rparr>"

datatype penalty_state = Normal | Arming media_time | Boxed | Releasing media_time

record penalty_box =
  pb_config :: penalty_config
  pb_state :: penalty_state

definition penalty_new :: "penalty_config \<Rightarrow> penalty_box" where
  "penalty_new c = \<lparr>pb_config = c, pb_state = Normal\<rparr>"

definition is_boxed :: "penalty_box \<Rightarrow> bool" where
  "is_boxed b \<longleftrightarrow> (case pb_state b of Boxed \<Rightarrow> True | Releasing _ \<Rightarrow> True | _ \<Rightarrow> False)"

definition pb_fold_sample :: "bool \<Rightarrow> media_time \<Rightarrow> penalty_box \<Rightarrow> penalty_box" where
  "pb_fold_sample active now b =
     (case pb_state b of
        Normal \<Rightarrow> if active then b\<lparr>pb_state := Arming now\<rparr> else b
      | Arming _ \<Rightarrow> if \<not> active then b\<lparr>pb_state := Normal\<rparr> else b
      | Boxed \<Rightarrow> if \<not> active then b\<lparr>pb_state := Releasing now\<rparr> else b
      | Releasing _ \<Rightarrow> if active then b\<lparr>pb_state := Boxed\<rparr> else b)"

definition pb_serve :: "media_time \<Rightarrow> penalty_box \<Rightarrow> penalty_action \<times> penalty_box" where
  "pb_serve now b =
     (case pb_state b of
        Arming since \<Rightarrow>
          if sustain (pb_config b) \<le> dwell_elapsed since now
          then (BoxTile (pc_tile (pb_config b)) (pc_promote (pb_config b)), b\<lparr>pb_state := Boxed\<rparr>)
          else (NoAction, b)
      | Releasing since \<Rightarrow>
          if release_window (pb_config b) \<le> dwell_elapsed since now
          then (RestoreTile (pc_tile (pb_config b)), b\<lparr>pb_state := Normal\<rparr>)
          else (NoAction, b)
      | _ \<Rightarrow> (NoAction, b))"

definition pb_observe :: "bool \<Rightarrow> media_time \<Rightarrow> penalty_box \<Rightarrow> penalty_action \<times> penalty_box" where
  "pb_observe active now b = pb_serve now (pb_fold_sample active now b)"

section \<open>Refinement of the debounced machine\<close>

fun abs_penalty :: "penalty_state \<Rightarrow> dwell_phase" where
  "abs_penalty Normal = DOff"
| "abs_penalty (Arming t) = DRising t"
| "abs_penalty Boxed = DOn"
| "abs_penalty (Releasing t) = DFalling t"

lemma is_boxed_abs: "is_boxed b \<longleftrightarrow> dwell_on (abs_penalty (pb_state b))"
  by (cases "pb_state b") (simp_all add: is_boxed_def dwell_on_def)

lemmas pb_step_defs = pb_observe_def pb_serve_def pb_fold_sample_def

lemma pb_observe_config: "pb_config (snd (pb_observe c now b)) = pb_config b"
  by (auto simp: pb_step_defs split: penalty_state.split)

interpretation penalty: dwell_machine "\<lambda>c now b. snd (pb_observe c now b)"
  "\<lambda>b. abs_penalty (pb_state b)" "\<lambda>b. sustain (pb_config b)" "\<lambda>b. release_window (pb_config b)"
  "\<lambda>b. False"
proof unfold_locales
  fix c now b
  show "abs_penalty (pb_state (snd (pb_observe c now b))) =
    dwell_step (sustain (pb_config b)) (release_window (pb_config b)) False c now (abs_penalty (pb_state b))"
    by (cases "pb_state b") (auto simp: pb_step_defs dwell_step_def)
qed (simp_all add: pb_observe_config)

fun pb_log :: "(bool \<times> media_time) list \<Rightarrow> penalty_box \<Rightarrow> penalty_action list" where
  "pb_log [] b = []"
| "pb_log ((c, now) # xs) b = (let (a, b') = pb_observe c now b in a # pb_log xs b')"

definition pb_run :: "(bool \<times> media_time) list \<Rightarrow> penalty_box \<Rightarrow> penalty_box" where
  "pb_run xs b = fold (\<lambda>(c, now) b. snd (pb_observe c now b)) xs b"

lemma pb_run_penalty: "pb_run xs b = penalty.run xs b"
  by (simp add: pb_run_def penalty.run_def)

lemma action_iff:
  "fst (pb_observe c now b) = BoxTile t p \<longleftrightarrow> \<not> is_boxed b \<and> is_boxed (snd (pb_observe c now b)) \<and>
     t = pc_tile (pb_config b) \<and> p = pc_promote (pb_config b)"
  "fst (pb_observe c now b) = RestoreTile t \<longleftrightarrow> is_boxed b \<and> \<not> is_boxed (snd (pb_observe c now b)) \<and>
     t = pc_tile (pb_config b)"
  by (cases "pb_state b"; auto simp: pb_step_defs is_boxed_def)+

lemma pb_run_config: "pb_config (pb_run xs b) = pb_config b"
  by (induction xs rule: rev_induct) (auto simp: pb_run_def pb_observe_config)

section \<open>Layout actions\<close>

text \<open>Layout actions are justified. Driven from \<open>new\<close> by any samples, the penalty box requests
  boxing (with its configured tile and spare) only at the end of an unbroken run of active
  samples at least the sustain window long, and a restore only at the end of such a run of
  inactive samples.\<close>

theorem penalty_actions_justified:
  "(fst (pb_observe c now (pb_run xs (penalty_new cfg))) = BoxTile t p \<longrightarrow>
      c \<and> t = pc_tile cfg \<and> p = pc_promote cfg \<and>
      (\<exists>s. unbroken True (xs @ [(c, now)]) s \<and> sustain cfg \<le> dwell_elapsed s now)) \<and>
   (fst (pb_observe c now (pb_run xs (penalty_new cfg))) = RestoreTile t \<longrightarrow>
      \<not> c \<and> t = pc_tile cfg \<and>
      (\<exists>s. unbroken False (xs @ [(c, now)]) s \<and> release_window cfg \<le> dwell_elapsed s now))"
proof -
  have "abs_penalty (pb_state (penalty_new cfg)) \<in> {DOff, DOn}" by (simp add: penalty_new_def)
  from penalty.rise_persisted [OF this, of xs c now] penalty.fall_persisted [OF this, of xs c now]
  have "\<not> is_boxed (pb_run xs (penalty_new cfg)) \<Longrightarrow> is_boxed (pb_run (xs @ [(c, now)]) (penalty_new cfg)) \<Longrightarrow>
      c \<and> (\<exists>s. unbroken True (xs @ [(c, now)]) s \<and> sustain cfg \<le> dwell_elapsed s now)"
    and "is_boxed (pb_run xs (penalty_new cfg)) \<Longrightarrow> \<not> is_boxed (pb_run (xs @ [(c, now)]) (penalty_new cfg)) \<Longrightarrow>
      \<not> c \<and> (\<exists>s. unbroken False (xs @ [(c, now)]) s \<and> release_window cfg \<le> dwell_elapsed s now)"
    unfolding is_boxed_abs pb_run_penalty by (auto simp: penalty_new_def)
  moreover have "pb_config (pb_run xs (penalty_new cfg)) = cfg"
    by (simp add: pb_run_config) (simp add: penalty_new_def)
  ultimately show ?thesis
    unfolding action_iff pb_run_penalty penalty.run_append by auto
qed

theorem penalty_actions_justified_witness:
  "\<exists>s. unbroken True ([(True, 0), (False, 4), (True, 6)] @ [(True, 16)]) s \<and> 10 \<le> dwell_elapsed s 16"
proof -
  let ?cfg = "with_promote 7 (penalty_config_new 3 10 5)"
  have "fst (pb_observe True 16 (pb_run [(True, 0), (False, 4), (True, 6)] (penalty_new ?cfg))) = BoxTile 3 (Some 7)"
    "sustain ?cfg = 10"
    by (simp_all add: pb_step_defs pb_run_def penalty_new_def with_promote_def penalty_config_new_def
      non_negative_def dwell_elapsed_def mt_sub_def sat_sub_def sat_def i_simps)
  with penalty_actions_justified [of True 16 "[(True, 0), (False, 4), (True, 6)]" ?cfg 3 "Some 7"]
  show ?thesis by simp
qed

text \<open>Boxing and restoring strictly alternate, starting with a boxing.\<close>

fun alternating :: "bool \<Rightarrow> penalty_action list \<Rightarrow> bool" where
  "alternating boxed [] \<longleftrightarrow> True"
| "alternating boxed (NoAction # as) \<longleftrightarrow> alternating boxed as"
| "alternating boxed (BoxTile t p # as) \<longleftrightarrow> \<not> boxed \<and> alternating True as"
| "alternating boxed (RestoreTile t # as) \<longleftrightarrow> boxed \<and> alternating False as"

text \<open>The wall's edits alternate. The actions a penalty box returns over any samples alternate
  between boxing and restoring, starting with a boxing, and the tile is boxed at the end exactly
  when more boxings than restores were requested: applying them in order never boxes a boxed tile
  nor restores one in view.\<close>

theorem penalty_actions_alternate:
  "alternating (is_boxed b) (pb_log xs b) \<and>
   (is_boxed (pb_run xs b) \<longleftrightarrow>
     fold (\<lambda>a on. case a of BoxTile _ _ \<Rightarrow> True | RestoreTile _ \<Rightarrow> False | NoAction \<Rightarrow> on)
       (pb_log xs b) (is_boxed b))"
proof (induction xs arbitrary: b)
  case (Cons x xs)
  obtain c now where x: "x = (c, now)" by (cases x)
  have run: "pb_run (x # xs) b = pb_run xs (snd (pb_observe c now b))" by (simp add: pb_run_def x)
  have log: "pb_log (x # xs) b = fst (pb_observe c now b) # pb_log xs (snd (pb_observe c now b))"
    by (simp add: x split_beta)
  show ?case
  proof (cases "fst (pb_observe c now b)")
    case NoAction
    then have "is_boxed (snd (pb_observe c now b)) = is_boxed b"
      using action_iff [of c now b] by (metis penalty_action.distinct(1,3))
    then show ?thesis unfolding run log using Cons.IH [of "snd (pb_observe c now b)"] NoAction by simp
  next
    case (BoxTile t p)
    then show ?thesis unfolding run log
      using Cons.IH [of "snd (pb_observe c now b)"] action_iff(1) [of c now b t p] by simp
  next
    case (RestoreTile t)
    then show ?thesis unfolding run log
      using Cons.IH [of "snd (pb_observe c now b)"] action_iff(2) [of c now b t] by simp
  qed
qed (simp add: pb_run_def)

end
