(* ===== verification/High_Availability.thy ===== *)
theory High_Availability
  imports Media_Time "HOL-Library.Product_Lexorder" "HOL-Library.Multiset"
begin

text \<open>
  The active/standby core of \<open>multiview-engine/src/ha/mod.rs\<close>: heartbeat health, the per-node
  state machine, the cluster election, and the decisions of the runner in \<open>ha/transport.rs\<close>
  (the sockets are not modelled: a delivered heartbeat is a step of the network below).
\<close>

section \<open>Identities and heartbeats\<close>

type_synonym node_id = nat
type_synonym priority = nat

type_synonym epoch = nat

datatype node_role = ActiveRole | StandbyRole

record ha_node =
  hn_id :: node_id
  hn_priority :: priority

record heartbeat =
  hb_from :: node_id
  hb_priority :: priority
  hb_role :: node_role
  hb_epoch :: epoch
  hb_drives_output :: bool
  hb_sent_at :: media_time

datatype ha_error = InvalidControlLoop

record heartbeat_config =
  interval_ns :: int
  miss_threshold :: nat

definition heartbeat_config_new :: "int \<Rightarrow> nat \<Rightarrow> ha_error + heartbeat_config" where
  "heartbeat_config_new i m =
     (if i \<le> 0 then Inl InvalidControlLoop
      else if m = 0 then Inl InvalidControlLoop
      else Inr \<lparr>interval_ns = i, miss_threshold = m\<rparr>)"

definition dead_after_ns :: "heartbeat_config \<Rightarrow> int" where
  "dead_after_ns c = sat_mul 64 (interval_ns c) (int (miss_threshold c))"

section \<open>Peer health\<close>

record peer_health =
  ph_id :: node_id
  ph_config :: heartbeat_config
  last_seen :: "media_time option"

definition peer_new :: "node_id \<Rightarrow> heartbeat_config \<Rightarrow> peer_health" where
  "peer_new i c = \<lparr>ph_id = i, ph_config = c, last_seen = None\<rparr>"

definition peer_record :: "media_time \<Rightarrow> peer_health \<Rightarrow> peer_health" where
  "peer_record t h =
     (case last_seen h of
        Some prev \<Rightarrow> if t \<le> prev then h else h\<lparr>last_seen := Some t\<rparr>
      | None \<Rightarrow> h\<lparr>last_seen := Some t\<rparr>)"

definition is_alive :: "media_time \<Rightarrow> peer_health \<Rightarrow> bool" where
  "is_alive now h =
     (case last_seen h of
        None \<Rightarrow> False
      | Some last_t \<Rightarrow> sat_sub 64 now last_t < dead_after_ns (ph_config h))"

section \<open>The node's state machine\<close>

record ha_machine =
  hm_node :: ha_node
  hm_role :: node_role
  hm_epoch :: epoch
  hm_config :: heartbeat_config
  active_health :: "peer_health option"
  start_anchor :: media_time

definition ha_new :: "ha_node \<Rightarrow> node_role \<Rightarrow> heartbeat_config \<Rightarrow> ha_machine" where
  "ha_new n r c = \<lparr>hm_node = n, hm_role = r, hm_epoch = 0, hm_config = c,
     active_health = None, start_anchor = 0\<rparr>"

definition drives_output :: "ha_machine \<Rightarrow> bool" where
  "drives_output m \<longleftrightarrow> hm_role m = ActiveRole"

definition peer_outranks_us :: "epoch \<Rightarrow> priority \<Rightarrow> node_id \<Rightarrow> ha_machine \<Rightarrow> bool" where
  "peer_outranks_us pe pp pid m =
     (case cmp_of pe (hm_epoch m) of
        Greater \<Rightarrow> True
      | Less \<Rightarrow> False
      | Equal \<Rightarrow>
          (case cmp_of pp (hn_priority (hm_node m)) of
             Greater \<Rightarrow> True
           | Less \<Rightarrow> False
           | Equal \<Rightarrow> pid < hn_id (hm_node m)))"

definition track_active :: "heartbeat \<Rightarrow> ha_machine \<Rightarrow> ha_machine" where
  "track_active hb m =
     (let health = (case active_health m of Some h \<Rightarrow> h | None \<Rightarrow> peer_new (hb_from hb) (hm_config m));
          health' = (if ph_id health \<noteq> hb_from hb then peer_new (hb_from hb) (hm_config m) else health)
      in m\<lparr>active_health := Some (peer_record (hb_sent_at hb) health')\<rparr>)"

definition observe_heartbeat :: "heartbeat \<Rightarrow> ha_machine \<Rightarrow> bool \<times> ha_machine" where
  "observe_heartbeat hb m =
     (if hb_from hb = hn_id (hm_node m) then (False, m)
      else if hb_role hb \<noteq> ActiveRole then (False, m)
      else
        let m1 = track_active hb m
        in if hm_role m1 = ActiveRole \<and> peer_outranks_us (hb_epoch hb) (hb_priority hb) (hb_from hb) m1
           then (True, m1\<lparr>hm_role := StandbyRole\<rparr>)
           else (False, m1))"

definition cold_start_deadline_elapsed :: "media_time \<Rightarrow> ha_machine \<Rightarrow> bool" where
  "cold_start_deadline_elapsed now m \<longleftrightarrow>
     dead_after_ns (hm_config m) \<le> sat_sub 64 now (start_anchor m)"

definition ha_tick :: "media_time \<Rightarrow> ha_machine \<Rightarrow> bool \<times> ha_machine" where
  "ha_tick now m =
     (if hm_role m = ActiveRole then (False, m)
      else
        let should_promote = (case active_health m of
                                Some health \<Rightarrow> \<not> is_alive now health
                              | None \<Rightarrow> cold_start_deadline_elapsed now m)
        in if should_promote
           then (True, m\<lparr>hm_role := ActiveRole, hm_epoch := usat_add 64 (hm_epoch m) 1\<rparr>)
           else (False, m))"

section \<open>The cluster election\<close>

record cluster =
  cl_active :: ha_node
  cl_members :: "(ha_node \<times> peer_health) list"
  cl_config :: heartbeat_config

definition cluster_new :: "ha_node \<Rightarrow> ha_node list \<Rightarrow> heartbeat_config \<Rightarrow> cluster" where
  "cluster_new a standbys c =
     \<lparr>cl_active = a,
      cl_members = (a, peer_new (hn_id a) c) # map (\<lambda>s. (s, peer_new (hn_id s) c)) standbys,
      cl_config = c\<rparr>"

fun record_first :: "node_id \<Rightarrow> media_time \<Rightarrow> (ha_node \<times> peer_health) list \<Rightarrow> (ha_node \<times> peer_health) list" where
  "record_first i t [] = []"
| "record_first i t ((n, h) # ms) =
     (if hn_id n = i then (n, peer_record t h) # ms else (n, h) # record_first i t ms)"

definition record_heartbeat :: "node_id \<Rightarrow> media_time \<Rightarrow> cluster \<Rightarrow> cluster" where
  "record_heartbeat i t c = c\<lparr>cl_members := record_first i t (cl_members c)\<rparr>"

definition cluster_observe :: "heartbeat \<Rightarrow> cluster \<Rightarrow> cluster" where
  "cluster_observe hb c = record_heartbeat (hb_from hb) (hb_sent_at hb) c"

definition active_alive :: "media_time \<Rightarrow> cluster \<Rightarrow> bool" where
  "active_alive now c =
     (case find (\<lambda>(n, h). hn_id n = hn_id (cl_active c)) (cl_members c) of
        Some (n, h) \<Rightarrow> is_alive now h
      | None \<Rightarrow> False)"

definition live_standbys :: "media_time \<Rightarrow> cluster \<Rightarrow> ha_node list" where
  "live_standbys now c =
     map fst (filter (\<lambda>(n, h). hn_id n \<noteq> hn_id (cl_active c) \<and> is_alive now h) (cl_members c))"

definition node_cmp :: "ha_node \<Rightarrow> ha_node \<Rightarrow> ordering" where
  "node_cmp a b =
     (case cmp_of (hn_priority a) (hn_priority b) of
        Equal \<Rightarrow> cmp_of (hn_id b) (hn_id a)
      | o1 \<Rightarrow> o1)"

definition max_by :: "('a \<Rightarrow> 'a \<Rightarrow> ordering) \<Rightarrow> 'a list \<Rightarrow> 'a option" where
  "max_by cmp xs =
     (case xs of
        [] \<Rightarrow> None
      | x # rest \<Rightarrow> Some (fold (\<lambda>y best. if cmp best y = Greater then best else y) rest x))"

definition elected_promoter :: "media_time \<Rightarrow> cluster \<Rightarrow> node_id option" where
  "elected_promoter now c =
     (if active_alive now c then Some (hn_id (cl_active c))
      else map_option hn_id (max_by node_cmp (live_standbys now c)))"

datatype failover_decision = HoldOutput | Promote

definition evaluate :: "node_id \<Rightarrow> media_time \<Rightarrow> cluster \<Rightarrow> failover_decision" where
  "evaluate i now c =
     (case elected_promoter now c of
        Some e \<Rightarrow> if e = i \<and> e \<noteq> hn_id (cl_active c) then Promote else HoldOutput
      | None \<Rightarrow> HoldOutput)"

section \<open>The runner\<close>

record ha_runner =
  hr_machine :: ha_machine
  hr_cluster :: cluster

text \<open>The beats queued in the transport are an argument.\<close>

definition pump_heartbeats :: "heartbeat list \<Rightarrow> media_time \<Rightarrow> ha_runner \<Rightarrow> bool \<times> ha_runner" where
  "pump_heartbeats queue now r =
     (let r1 = fold (\<lambda>hb r. r\<lparr>hr_cluster := cluster_observe hb (hr_cluster r),
                              hr_machine := snd (observe_heartbeat hb (hr_machine r))\<rparr>) queue r;
          (promoted, m) = ha_tick now (hr_machine r1)
      in (promoted, r1\<lparr>hr_machine := m\<rparr>))"

definition beat :: "media_time \<Rightarrow> ha_machine \<Rightarrow> heartbeat" where
  "beat now m = \<lparr>hb_from = hn_id (hm_node m), hb_priority = hn_priority (hm_node m),
     hb_role = hm_role m, hb_epoch = hm_epoch m, hb_drives_output = drives_output m, hb_sent_at = now\<rparr>"

section \<open>Rankings\<close>

text \<open>Both the election and the epoch fence compare by a linearly ordered key.\<close>

locale ranked =
  fixes beats :: "'a \<Rightarrow> 'a \<Rightarrow> bool" and key :: "'a \<Rightarrow> 'k::linorder"
  assumes beats_key: "beats a b \<longleftrightarrow> key b < key a"
begin

lemma beats_asym: "beats a b \<Longrightarrow> \<not> beats b a"
  by (simp add: beats_key)

lemma top_exists:
  assumes "finite A" and "A \<noteq> {}" and "inj_on key A"
  shows "\<exists>t \<in> A. \<forall>b \<in> A. b \<noteq> t \<longrightarrow> beats t b"
proof -
  have "Max (key ` A) \<in> key ` A" using assms(1,2) by simp
  then obtain t where t: "t \<in> A" "key t = Max (key ` A)" by auto
  have "beats t b" if "b \<in> A" "b \<noteq> t" for b
  proof -
    have "key b \<le> key t" using that(1) assms(1) t(2) by simp
    moreover have "key b \<noteq> key t" using that t(1) assms(3) by (auto dest: inj_onD)
    ultimately show ?thesis by (simp add: beats_key)
  qed
  with t(1) show ?thesis by blast
qed

lemma fold_top:
  "fold (\<lambda>y best. if beats best y then best else y) rest x \<in> set (x # rest) \<and>
   (\<forall>b \<in> set (x # rest). key b \<le> key (fold (\<lambda>y best. if beats best y then best else y) rest x))"
proof (induction rest arbitrary: x)
  case (Cons y rest)
  let ?z = "if beats x y then x else y"
  from Cons.IH [of ?z] have "key x \<le> key ?z" "key y \<le> key ?z"
    "key ?z \<le> key (fold (\<lambda>y best. if beats best y then best else y) rest ?z)"
    by (auto simp: beats_key)
  with Cons.IH [of ?z] show ?case by (auto intro: order_trans split: if_splits)
qed simp

end

definition node_key :: "ha_node \<Rightarrow> int \<times> int" where
  "node_key n = (int (hn_priority n), - int (hn_id n))"

definition authority :: "ha_machine \<Rightarrow> int \<times> int \<times> int" where
  "authority m = (int (hm_epoch m), int (hn_priority (hm_node m)), - int (hn_id (hm_node m)))"

interpretation election: ranked "\<lambda>a b. node_cmp a b = Greater" node_key
  by unfold_locales (auto simp: node_cmp_def cmp_of_def node_key_def)

interpretation fence: ranked
  "\<lambda>a b. peer_outranks_us (hm_epoch a) (hn_priority (hm_node a)) (hn_id (hm_node a)) b" authority
  by unfold_locales (auto simp: peer_outranks_us_def cmp_of_def authority_def)

section \<open>The election\<close>

definition distinct_members :: "cluster \<Rightarrow> bool" where
  "distinct_members c \<longleftrightarrow> distinct (map (hn_id \<circ> fst) (cl_members c))"

lemma active_alive_iff:
  assumes "distinct_members c"
  shows "active_alive now c \<longleftrightarrow> (\<exists>(n, h) \<in> set (cl_members c). hn_id n = hn_id (cl_active c) \<and> is_alive now h)"
proof -
  have *: "(case find (\<lambda>(n, h). hn_id n = a) ms of Some (n, h) \<Rightarrow> is_alive now h | None \<Rightarrow> False) \<longleftrightarrow>
      (\<exists>(n, h) \<in> set ms. hn_id n = a \<and> is_alive now h)"
    if "distinct (map (hn_id \<circ> fst) ms)" for ms a
    using that
  proof (induction ms)
    case (Cons x ms)
    obtain n h where x: "x = (n, h)" by (cases x)
    show ?case
    proof (cases "hn_id n = a")
      case True
      with Cons.prems have "hn_id n' \<noteq> a" if "(n', h') \<in> set ms" for n' h'
        using that by (force simp: x)
      with True show ?thesis by (fastforce simp: x)
    qed (use Cons in \<open>simp add: x\<close>)
  qed simp
  show ?thesis using * assms by (simp add: active_alive_def distinct_members_def)
qed

lemma live_standbys_iff:
  "n \<in> set (live_standbys now c) \<longleftrightarrow>
     (\<exists>h. (n, h) \<in> set (cl_members c) \<and> hn_id n \<noteq> hn_id (cl_active c) \<and> is_alive now h)"
  by (force simp: live_standbys_def)

lemma live_standbys_inj:
  assumes "distinct_members c"
  shows "inj_on hn_id (set (live_standbys now c))"
proof -
  have inj: "inj_on (hn_id \<circ> fst) (set (cl_members c))"
    using assms by (simp add: distinct_members_def distinct_map)
  have "a = b"
    if "(a, h) \<in> set (cl_members c)" "(b, k) \<in> set (cl_members c)" "hn_id a = hn_id b" for a b h k
    using inj_onD [OF inj, of "(a, h)" "(b, k)"] that by simp
  then show ?thesis by (auto simp: live_standbys_iff intro!: inj_onI)
qed

text \<open>The elected standby is the live standby that beats every other one.\<close>

definition is_champion :: "ha_node \<Rightarrow> media_time \<Rightarrow> cluster \<Rightarrow> bool" where
  "is_champion n now c \<longleftrightarrow> n \<in> set (live_standbys now c) \<and>
     (\<forall>b \<in> set (live_standbys now c). b \<noteq> n \<longrightarrow> hn_priority b < hn_priority n \<or>
        hn_priority b = hn_priority n \<and> hn_id n < hn_id b)"

lemma is_championD:
  "is_champion n now c \<Longrightarrow> b \<in> set (live_standbys now c) \<Longrightarrow> b \<noteq> n \<Longrightarrow>
     hn_priority b < hn_priority n \<or> hn_priority b = hn_priority n \<and> hn_id n < hn_id b"
  unfolding is_champion_def by blast

lemma is_champion_live: "is_champion n now c \<Longrightarrow> n \<in> set (live_standbys now c)"
  unfolding is_champion_def by blast

lemma elected_standby:
  assumes "distinct_members c"
  shows "map_option hn_id (max_by node_cmp (live_standbys now c)) = Some i \<longleftrightarrow>
     (\<exists>n. is_champion n now c \<and> hn_id n = i)"
proof (cases "live_standbys now c")
  case Nil
  then show ?thesis by (simp add: max_by_def is_champion_def)
next
  case (Cons x rest)
  define w where "w = fold (\<lambda>y best. if node_cmp best y = Greater then best else y) rest x"
  have w: "w \<in> set (live_standbys now c)" "\<And>b. b \<in> set (live_standbys now c) \<Longrightarrow> node_key b \<le> node_key w"
    using election.fold_top [of rest x] unfolding w_def [symmetric] by (auto simp: Cons)
  have ids: "hn_id a = hn_id b \<longleftrightarrow> a = b"
    if "a \<in> set (live_standbys now c)" "b \<in> set (live_standbys now c)" for a b
    using live_standbys_inj [OF assms, of now] that by (auto dest: inj_onD)
  have champ: "is_champion w now c"
    using w ids by (force simp: is_champion_def node_key_def)
  have uniq: "n = w" if "is_champion n now c" for n
  proof (rule ccontr)
    assume "n \<noteq> w"
    then have "w \<noteq> n" by simp
    from is_championD [OF that w(1) this] is_championD [OF champ is_champion_live [OF that] \<open>n \<noteq> w\<close>]
    show False by arith
  qed
  have "max_by node_cmp (live_standbys now c) = Some w"
    by (simp add: max_by_def Cons w_def)
  then have "map_option hn_id (max_by node_cmp (live_standbys now c)) = Some i \<longleftrightarrow> hn_id w = i"
    by simp
  also have "\<dots> \<longleftrightarrow> (\<exists>n. is_champion n now c \<and> hn_id n = i)"
    using champ uniq by metis
  finally show ?thesis .
qed

text \<open>No split vote. If member ids are distinct, every node that has recorded the same health,
  in whatever order it lists the members, computes the same driver; a node is told to promote
  exactly when the active is dead and it is the live standby of highest priority, lowest id on
  ties; and as long as any member is alive there is a driver.\<close>

theorem election_agrees:
  assumes "distinct_members c" and "mset (cl_members c') = mset (cl_members c)"
    and "cl_active c' = cl_active c"
  shows "elected_promoter now c' = elected_promoter now c \<and>
    (evaluate i now c' = Promote \<longleftrightarrow>
       \<not> active_alive now c \<and> (\<exists>n. is_champion n now c \<and> hn_id n = i)) \<and>
    ((\<exists>(n, h) \<in> set (cl_members c). is_alive now h) \<longrightarrow> elected_promoter now c \<noteq> None)"
proof -
  have d': "distinct_members c'"
    using assms(1,2) mset_eq_imp_distinct_iff [of "map (hn_id \<circ> fst) (cl_members c')" "map (hn_id \<circ> fst) (cl_members c)"]
    by (simp add: distinct_members_def)
  have set_eq: "set (cl_members c') = set (cl_members c)" using assms(2) by (rule mset_eq_setD)
  have alive: "active_alive now c' = active_alive now c"
    using active_alive_iff [OF d'] active_alive_iff [OF assms(1)] by (simp add: set_eq assms(3))
  have "set (live_standbys now c') = set (live_standbys now c)"
    by (auto simp: live_standbys_iff set_eq assms(3))
  then have champ: "is_champion n now c' = is_champion n now c" for n
    by (simp add: is_champion_def)
  have "map_option hn_id (max_by node_cmp (live_standbys now c')) =
      map_option hn_id (max_by node_cmp (live_standbys now c))"
    using elected_standby [OF d', of now] elected_standby [OF assms(1), of now] champ
    by (metis option.exhaust)
  then have e: "elected_promoter now c' = elected_promoter now c"
    by (simp add: elected_promoter_def alive assms(3))
  have that_active: "hn_id n \<noteq> hn_id (cl_active c)" if "is_champion n now c" for n
    using that by (auto simp: is_champion_def live_standbys_iff)
  have ev: "evaluate i now c' = Promote \<longleftrightarrow>
      \<not> active_alive now c \<and> (\<exists>n. is_champion n now c \<and> hn_id n = i)"
  proof -
    have "evaluate i now c' = Promote \<longleftrightarrow> elected_promoter now c = Some i \<and> i \<noteq> hn_id (cl_active c)"
      by (auto simp: evaluate_def e assms(3) split: option.splits)
    also have "\<dots> \<longleftrightarrow> \<not> active_alive now c \<and> (\<exists>n. is_champion n now c \<and> hn_id n = i)"
      using elected_standby [OF assms(1), of now i] that_active by (auto simp: elected_promoter_def)
    finally show ?thesis .
  qed
  have "elected_promoter now c \<noteq> None" if "(n, h) \<in> set (cl_members c)" "is_alive now h" for n h
  proof (cases "active_alive now c")
    case False
    then have "n \<in> set (live_standbys now c)"
      using that active_alive_iff [OF assms(1), of now] by (auto simp: live_standbys_iff)
    then have "max_by node_cmp (live_standbys now c) \<noteq> None" by (auto simp: max_by_def split: list.splits)
    with False show ?thesis by (simp add: elected_promoter_def)
  qed (simp add: elected_promoter_def)
  then show ?thesis using e ev by auto
qed

text \<open>The witness: the active is dead, two standbys live, listed in either order.\<close>

definition ha_cfg :: heartbeat_config where
  "ha_cfg = \<lparr>interval_ns = 100, miss_threshold = 3\<rparr>"

definition sample_cluster :: cluster where
  "sample_cluster = record_heartbeat 3 1000 (record_heartbeat 2 1000 (record_heartbeat 1 500
     (cluster_new \<lparr>hn_id = 1, hn_priority = 9\<rparr>
        [\<lparr>hn_id = 2, hn_priority = 5\<rparr>, \<lparr>hn_id = 3, hn_priority = 7\<rparr>] ha_cfg)))"

lemmas ha_eval = ha_cfg_def sample_cluster_def record_heartbeat_def cluster_new_def peer_new_def
  peer_record_def is_alive_def dead_after_ns_def sat_mul_def sat_sub_def sat_def i_simps

theorem election_agrees_witness:
  "evaluate 3 1100 (sample_cluster\<lparr>cl_members := rev (cl_members sample_cluster)\<rparr>) = Promote"
proof -
  have d: "distinct_members sample_cluster" by (simp add: distinct_members_def ha_eval)
  have "\<not> active_alive 1100 sample_cluster" by (simp add: active_alive_def ha_eval)
  moreover have "live_standbys 1100 sample_cluster =
      [\<lparr>hn_id = 2, hn_priority = 5\<rparr>, \<lparr>hn_id = 3, hn_priority = 7\<rparr>]"
    by (simp add: live_standbys_def ha_eval)
  then have "is_champion \<lparr>hn_id = 3, hn_priority = 7\<rparr> 1100 sample_cluster"
    by (simp add: is_champion_def)
  ultimately show ?thesis
    using election_agrees [OF d, of "sample_cluster\<lparr>cl_members := rev (cl_members sample_cluster)\<rparr>" 1100 3]
    by force
qed

section \<open>Promotion\<close>

text \<open>Promotion, exactly. A standby that has heard its active takes over on a tick exactly when that
  active has been silent for the whole dead window; then it drives output on that very tick with
  the next epoch, and otherwise the tick changes nothing.\<close>

theorem promotes_exactly:
  assumes "hm_role m = StandbyRole" and "in_i 64 now" and "in_i 64 (now - l)"
    and "active_health m = Some h" and "last_seen h = Some l"
  shows "(fst (ha_tick now m) \<longleftrightarrow> dead_after_ns (ph_config h) \<le> now - l) \<and>
    (drives_output (snd (ha_tick now m)) \<longleftrightarrow> fst (ha_tick now m)) \<and>
    (if fst (ha_tick now m) then hm_epoch (snd (ha_tick now m)) = usat_add 64 (hm_epoch m) 1
     else snd (ha_tick now m) = m)"
  using assms by (auto simp: ha_tick_def is_alive_def drives_output_def sat_sub_def)

definition standby_hearing :: "nat \<Rightarrow> ha_machine" where
  "standby_hearing ep = snd (observe_heartbeat
     \<lparr>hb_from = 1, hb_priority = 9, hb_role = ActiveRole, hb_epoch = ep, hb_drives_output = True, hb_sent_at = 1000\<rparr>
     (ha_new \<lparr>hn_id = 2, hn_priority = 5\<rparr> StandbyRole ha_cfg))"

lemmas ha_step_eval = standby_hearing_def observe_heartbeat_def track_active_def ha_new_def ha_tick_def
  drives_output_def beat_def peer_outranks_us_def cmp_of_def Let_def

theorem promotes_exactly_witness:
  "fst (ha_tick 1300 (standby_hearing 0)) \<and> \<not> fst (ha_tick 1299 (standby_hearing 0))"
proof -
  let ?h = "\<lparr>ph_id = 1, ph_config = ha_cfg, last_seen = Some 1000\<rparr>"
  have h: "hm_role (standby_hearing 0) = StandbyRole" "active_health (standby_hearing 0) = Some ?h"
    "last_seen ?h = Some 1000" "dead_after_ns (ph_config ?h) = 300"
    by (simp_all add: ha_step_eval ha_eval)
  have i: "in_i 64 1300" "in_i 64 (1300 - 1000)" "in_i 64 1299" "in_i 64 (1299 - 1000)"
    by (simp_all add: in_i_def i_simps)
  from promotes_exactly [OF h(1) i(1,2) h(2,3)] promotes_exactly [OF h(1) i(3,4) h(2,3)] h(4)
  show ?thesis by simp
qed

section \<open>Split brain heals\<close>

text \<open>
  The network: each step delivers the beat that node \<open>i\<close> sends at some instant to node \<open>j\<close>.
\<close>

definition deliver :: "nat \<times> nat \<times> media_time \<Rightarrow> ha_machine list \<Rightarrow> ha_machine list" where
  "deliver d ms = (case d of (i, j, t) \<Rightarrow> ms[j := snd (observe_heartbeat (beat t (ms ! i)) (ms ! j))])"

definition distinct_nodes :: "ha_machine list \<Rightarrow> bool" where
  "distinct_nodes ms \<longleftrightarrow> distinct (map (\<lambda>m. hn_id (hm_node m)) ms)"

lemma track_frame:
  "hm_role (track_active hb m) = hm_role m" "hm_node (track_active hb m) = hm_node m"
  "hm_epoch (track_active hb m) = hm_epoch m"
  by (simp_all add: track_active_def Let_def)

lemma track_outranks: "peer_outranks_us pe pp pid (track_active hb m) = peer_outranks_us pe pp pid m"
  by (simp add: peer_outranks_us_def track_frame split: ordering.split)

lemma observe_frame:
  "hm_node (snd (observe_heartbeat hb m)) = hm_node m" "hm_epoch (snd (observe_heartbeat hb m)) = hm_epoch m"
  by (simp_all add: observe_heartbeat_def track_frame Let_def)

lemma observe_role:
  "drives_output (snd (observe_heartbeat (beat t a) b)) \<longleftrightarrow> drives_output b \<and>
     \<not> (hn_id (hm_node a) \<noteq> hn_id (hm_node b) \<and> drives_output a \<and>
        peer_outranks_us (hm_epoch a) (hn_priority (hm_node a)) (hn_id (hm_node a)) b)"
  by (auto simp: observe_heartbeat_def track_frame track_outranks Let_def drives_output_def beat_def)

lemma deliver_length: "length (deliver d ms) = length ms"
  by (cases d) (simp add: deliver_def)

lemma deliver_nth:
  assumes "k < length ms"
  shows "hm_node (deliver d ms ! k) = hm_node (ms ! k)" "hm_epoch (deliver d ms ! k) = hm_epoch (ms ! k)"
proof -
  obtain i j t where d: "d = (i, j, t)" by (cases d)
  show "hm_node (deliver d ms ! k) = hm_node (ms ! k)" "hm_epoch (deliver d ms ! k) = hm_epoch (ms ! k)"
    using assms by (cases "j = k"; simp add: d deliver_def observe_frame)+
qed

lemmas deliver_frame = deliver_length deliver_nth

lemma deliver_run_frame:
  "length (fold deliver ds ms) = length ms"
  "k < length ms \<Longrightarrow> hm_node (fold deliver ds ms ! k) = hm_node (ms ! k)"
  "k < length ms \<Longrightarrow> hm_epoch (fold deliver ds ms ! k) = hm_epoch (ms ! k)"
  by (induction ds arbitrary: ms) (simp_all add: deliver_frame)

lemma deliver_authority:
  "k < length ms \<Longrightarrow> authority (fold deliver ds ms ! k) = authority (ms ! k)"
  by (simp add: authority_def deliver_run_frame)

lemma deliver_standby:
  assumes "k < length ms" and "drives_output (deliver d ms ! k)"
  shows "drives_output (ms ! k)"
proof -
  obtain i j t where d: "d = (i, j, t)" by (cases d)
  show ?thesis using assms by (cases "j = k") (simp_all add: d deliver_def observe_role)
qed

lemma deliver_run_standby:
  "k < length ms \<Longrightarrow> drives_output (fold deliver ds ms ! k) \<Longrightarrow> drives_output (ms ! k)"
proof (induction ds arbitrary: ms)
  case (Cons d ds)
  then show ?case using deliver_standby [of k ms d] by (simp add: deliver_frame)
qed simp

text \<open>The node of highest authority among the drivers keeps driving, and silences whom it reaches.\<close>

definition is_top :: "nat \<Rightarrow> ha_machine list \<Rightarrow> bool" where
  "is_top t ms \<longleftrightarrow> t < length ms \<and> drives_output (ms ! t) \<and>
     (\<forall>k < length ms. k \<noteq> t \<longrightarrow> drives_output (ms ! k) \<longrightarrow> authority (ms ! k) < authority (ms ! t))"

lemma top_deliver:
  assumes "is_top t ms" and "i < length ms"
  shows "is_top t (deliver (i, j, s) ms)"
proof -
  have auth: "authority (deliver (i, j, s) ms ! k) = authority (ms ! k)" if "k < length ms" for k
    using that by (simp add: authority_def deliver_frame)
  have "drives_output (deliver (i, j, s) ms ! t)"
  proof (cases "j = t")
    case True
    have "\<not> (hn_id (hm_node (ms ! i)) \<noteq> hn_id (hm_node (ms ! t)) \<and> drives_output (ms ! i) \<and>
        peer_outranks_us (hm_epoch (ms ! i)) (hn_priority (hm_node (ms ! i))) (hn_id (hm_node (ms ! i))) (ms ! t))"
      using assms by (cases "i = t") (auto simp: is_top_def fence.beats_key)
    with assms(1) True show ?thesis by (simp add: deliver_def is_top_def observe_role)
  qed (use assms(1) in \<open>simp add: deliver_def is_top_def\<close>)
  with assms(1) show ?thesis
    using deliver_standby [of _ ms "(i, j, s)"] by (auto simp: is_top_def deliver_frame auth)
qed

lemma top_run:
  "is_top t ms \<Longrightarrow> \<forall>(i, j, s) \<in> set ds. i < length ms \<Longrightarrow> is_top t (fold deliver ds ms)"
proof (induction ds arbitrary: ms)
  case (Cons d ds)
  then show ?case using top_deliver [of t ms] by (cases d) (simp add: deliver_frame)
qed simp

lemma top_silences:
  assumes "is_top t ms" and "distinct_nodes ms" and "j < length ms" and "j \<noteq> t"
  shows "\<not> drives_output (deliver (t, j, s) ms ! j)"
proof -
  have "hn_id (hm_node (ms ! t)) \<noteq> hn_id (hm_node (ms ! j))"
    using assms by (auto simp: distinct_nodes_def is_top_def distinct_conv_nth)
  with assms show ?thesis
    by (auto simp: deliver_def observe_role is_top_def fence.beats_key)
qed

lemma top_of_drivers:
  assumes "distinct_nodes ms" and "k < length ms" and "drives_output (ms ! k)"
  shows "\<exists>t. is_top t ms"
proof -
  let ?A = "{m \<in> set ms. drives_output m}"
  have "inj_on authority ?A"
    using assms(1) by (auto simp: authority_def distinct_nodes_def distinct_map inj_on_def)
  moreover have "?A \<noteq> {}" using nth_mem [OF assms(2)] assms(3) by blast
  ultimately obtain m where m: "m \<in> ?A" "\<And>b. b \<in> ?A \<Longrightarrow> b \<noteq> m \<Longrightarrow> authority b < authority m"
    using fence.top_exists [of ?A] by (auto simp: fence.beats_key)
  then obtain t where t: "t < length ms" "ms ! t = m" by (auto simp: in_set_conv_nth)
  have "hn_id (hm_node (ms ! k)) \<noteq> hn_id (hm_node (ms ! t))" if "k < length ms" "k \<noteq> t" for k
    using that t(1) assms(1) by (simp add: distinct_nodes_def distinct_conv_nth)
  then have "ms ! k \<noteq> m" if "k < length ms" "k \<noteq> t" for k
    using that t(2) by metis
  with m t show ?thesis by (auto simp: is_top_def intro!: exI [of _ t])
qed

text \<open>C26: Split brain heals. Take any nodes with distinct ids, several of them driving output, whatever
  their epochs and priorities. Once every node's beat has been delivered to every other, in any
  order, with any repetitions and at any instants, exactly one node drives output: the one of
  highest epoch, then priority, then lowest id.\<close>

theorem split_brain_heals:
  assumes "distinct_nodes ms" and "k < length ms" and "drives_output (ms ! k)"
    and "\<forall>(i, j, s) \<in> set ds. i < length ms"
    and "\<forall>i < length ms. \<forall>j < length ms. i \<noteq> j \<longrightarrow> (\<exists>s. (i, j, s) \<in> set ds)"
  shows "\<exists>t < length ms. drives_output (ms ! t) \<and>
    (\<forall>j < length ms. drives_output (fold deliver ds ms ! j) \<longleftrightarrow> j = t) \<and>
    (\<forall>j < length ms. drives_output (ms ! j) \<longrightarrow> authority (ms ! j) \<le> authority (ms ! t))"
proof -
  obtain t where t: "is_top t ms" using top_of_drivers [OF assms(1-3)] by blast
  have "\<not> drives_output (fold deliver ds ms ! j)" if j: "j < length ms" "j \<noteq> t" for j
  proof -
    obtain s where "(t, j, s) \<in> set ds" using assms(5) t j unfolding is_top_def by blast
    then obtain ds1 ds2 where ds: "ds = ds1 @ (t, j, s) # ds2" by (meson split_list)
    let ?ms = "fold deliver ds1 ms"
    have "is_top t ?ms" using t assms(4) by (intro top_run) (auto simp: ds)
    moreover have "distinct_nodes ?ms"
      using assms(1) by (auto simp: distinct_nodes_def distinct_conv_nth deliver_run_frame)
    ultimately have "\<not> drives_output (deliver (t, j, s) ?ms ! j)"
      using j by (intro top_silences) (simp_all add: deliver_run_frame)
    then show ?thesis
      using deliver_run_standby [of j "deliver (t, j, s) ?ms" ds2] j
      by (auto simp: ds deliver_frame deliver_run_frame)
  qed
  moreover have "is_top t (fold deliver ds ms)" using t assms(4) by (rule top_run)
  moreover have "authority (ms ! j) \<le> authority (ms ! t)" if "j < length ms" "drives_output (ms ! j)" for j
    using t that by (cases "j = t") (simp_all add: is_top_def less_imp_le)
  ultimately show ?thesis
    using t by (intro exI [of _ t]) (auto simp: is_top_def)
qed

definition partitioned :: "ha_machine list" where
  "partitioned = map (\<lambda>(i, p, e). (ha_new \<lparr>hn_id = i, hn_priority = p\<rparr> ActiveRole ha_cfg)\<lparr>hm_epoch := e\<rparr>)
     [(1, 9, 0), (2, 5, 1), (3, 7, 1)]"

definition full_exchange :: "(nat \<times> nat \<times> media_time) list" where
  "full_exchange = [(0, 1, 10), (1, 0, 11), (0, 2, 12), (2, 0, 13), (1, 2, 14), (2, 1, 15)]"

theorem split_brain_heals_witness:
  "\<exists>t < 3. \<forall>j < 3. drives_output (fold deliver full_exchange partitioned ! j) \<longleftrightarrow> j = t"
proof -
  have "distinct_nodes partitioned" "0 < length partitioned" "drives_output (partitioned ! 0)"
    by (simp_all add: distinct_nodes_def partitioned_def ha_new_def drives_output_def)
  moreover have "\<forall>(i, j, s) \<in> set full_exchange. i < length partitioned"
    by (simp add: full_exchange_def partitioned_def)
  moreover have "\<forall>i < length partitioned. \<forall>j < length partitioned. i \<noteq> j \<longrightarrow> (\<exists>s. (i, j, s) \<in> set full_exchange)"
    by (auto simp: full_exchange_def partitioned_def less_Suc_eq numeral_3_eq_3)
  ultimately obtain t where "t < length partitioned"
    "\<forall>j < length partitioned. drives_output (fold deliver full_exchange partitioned ! j) \<longleftrightarrow> j = t"
    using split_brain_heals [of partitioned 0 full_exchange] by blast
  moreover have "length partitioned = 3" by (simp add: partitioned_def)
  ultimately show ?thesis by metis
qed

text \<open>
  Two limits of the fence. A standby never adopts the epoch of the active it watches, so its
  promotion need not outrank that active: here the returning zombie of epoch 5 takes the output
  back from the standby that replaced it. And each node promotes on its own view: two standbys
  that lose the same active both drive output until their beats are exchanged.
\<close>

lemma zombie_outranks_promoted:
  "fst (ha_tick 1300 (standby_hearing 5)) \<and>
   fst (observe_heartbeat
     \<lparr>hb_from = 1, hb_priority = 9, hb_role = ActiveRole, hb_epoch = 5, hb_drives_output = True, hb_sent_at = 1400\<rparr>
     (snd (ha_tick 1300 (standby_hearing 5))))"
  by (simp add: ha_step_eval ha_eval usat_add_def)

lemma both_standbys_promote:
  "drives_output (snd (ha_tick 1300 (standby_hearing 0))) \<and>
   drives_output (snd (ha_tick 1300
     ((standby_hearing 0)\<lparr>hm_node := \<lparr>hn_id = 3, hn_priority = 7\<rparr>\<rparr>)))"
  by (simp add: ha_step_eval ha_eval)

end
