(* ===== verification/Replication.thy ===== *)
theory Replication
  imports Prelude
begin

text \<open>
  State replication to a standby, \<open>multiview-engine/src/ha/repl.rs\<close>: snapshots, versioned deltas
  and the applier that rejects anything but the contiguous successor.
\<close>

section \<open>Snapshots and deltas\<close>

type_synonym snapshot_version = nat

definition version_next :: "snapshot_version \<Rightarrow> snapshot_version" where
  "version_next v = usat_add 64 v 1"

record tile_binding =
  tb_tile :: nat
  tb_source :: "string option"

record engine_snapshot =
  es_version :: snapshot_version
  es_layout :: string
  es_epoch :: nat
  es_tiles :: "tile_binding list"

datatype replication_delta =
    LayoutSwap (delta_from: snapshot_version) (delta_to: snapshot_version) string
  | SourceRebound (delta_from: snapshot_version) (delta_to: snapshot_version) nat "string option"

fun rebind_first :: "nat \<Rightarrow> string option \<Rightarrow> tile_binding list \<Rightarrow> tile_binding list" where
  "rebind_first t src [] = [\<lparr>tb_tile = t, tb_source = src\<rparr>]"
| "rebind_first t src (b # bs) =
     (if tb_tile b = t then b\<lparr>tb_source := src\<rparr> # bs else b # rebind_first t src bs)"

fun apply_validated :: "replication_delta \<Rightarrow> engine_snapshot \<Rightarrow> engine_snapshot" where
  "apply_validated (LayoutSwap _ to l) s = s\<lparr>es_layout := l, es_version := to\<rparr>"
| "apply_validated (SourceRebound _ to t src) s =
     s\<lparr>es_tiles := rebind_first t src (es_tiles s), es_version := to\<rparr>"

datatype apply_error =
    NoBaseline
  | VersionGap snapshot_version snapshot_version
  | NonMonotonicVersion snapshot_version snapshot_version

section \<open>The replica\<close>

type_synonym replica = "engine_snapshot option"

definition replica_new :: replica where
  "replica_new = None"

definition replica_version :: "replica \<Rightarrow> snapshot_version option" where
  "replica_version r = map_option es_version r"

definition install_snapshot :: "engine_snapshot \<Rightarrow> replica \<Rightarrow> (apply_error + unit) \<times> replica" where
  "install_snapshot snap r =
     (case r of
        Some cur \<Rightarrow>
          if es_version snap \<le> es_version cur
          then (Inl (NonMonotonicVersion (es_version cur) (es_version snap)), r)
          else (Inr (), Some snap)
      | None \<Rightarrow> (Inr (), Some snap))"

definition apply_delta :: "replication_delta \<Rightarrow> replica \<Rightarrow> (apply_error + unit) \<times> replica" where
  "apply_delta d r =
     (case r of
        None \<Rightarrow> (Inl NoBaseline, r)
      | Some cur \<Rightarrow>
          if delta_from d \<noteq> es_version cur then (Inl (VersionGap (es_version cur) (delta_from d)), r)
          else if delta_to d \<le> es_version cur
          then (Inl (NonMonotonicVersion (es_version cur) (delta_to d)), r)
          else (Inr (), Some (apply_validated d cur)))"

datatype replication_message = MsgSnapshot engine_snapshot | MsgDelta replication_delta

definition pump_message :: "replication_message \<Rightarrow> replica \<Rightarrow> replica" where
  "pump_message msg r =
     (case msg of
        MsgSnapshot s \<Rightarrow> snd (install_snapshot s r)
      | MsgDelta d \<Rightarrow> snd (apply_delta d r))"

definition pump_replication :: "replication_message list \<Rightarrow> replica \<Rightarrow> replica" where
  "pump_replication msgs r = fold pump_message msgs r"

lemma version_apply_validated [simp]: "es_version (apply_validated d s) = delta_to d"
  by (cases d) simp_all

lemma find_rebind_first:
  "find (\<lambda>b. tb_tile b = t') (rebind_first t src bs) =
     (if t' = t then Some (case find (\<lambda>b. tb_tile b = t) bs of
        Some b \<Rightarrow> b\<lparr>tb_source := src\<rparr> | None \<Rightarrow> \<lparr>tb_tile = t, tb_source = src\<rparr>)
      else find (\<lambda>b. tb_tile b = t') bs)"
  by (induction bs) auto

section \<open>The active's history\<close>

text \<open>The states an active goes through as it makes, and publishes, a contiguous list of deltas.\<close>

fun history :: "engine_snapshot \<Rightarrow> replication_delta list \<Rightarrow> engine_snapshot list" where
  "history s [] = [s]"
| "history s (d # ds) = s # history (apply_validated d s) ds"

fun contiguous :: "engine_snapshot \<Rightarrow> replication_delta list \<Rightarrow> bool" where
  "contiguous s [] \<longleftrightarrow> True"
| "contiguous s (d # ds) \<longleftrightarrow>
     delta_from d = es_version s \<and> es_version s < delta_to d \<and> contiguous (apply_validated d s) ds"

definition published :: "engine_snapshot \<Rightarrow> replication_delta list \<Rightarrow> replication_message set" where
  "published s ds = MsgSnapshot ` set (history s ds) \<union> MsgDelta ` set ds"

lemma history_ge: "contiguous s ds \<Longrightarrow> h \<in> set (history s ds) \<Longrightarrow> es_version s \<le> es_version h"
  by (induction ds arbitrary: s) fastforce+

lemma delta_ge: "contiguous s ds \<Longrightarrow> d \<in> set ds \<Longrightarrow> es_version s \<le> delta_from d"
  by (induction ds arbitrary: s) fastforce+

lemma history_head: "s \<in> set (history s ds)"
  by (cases ds) simp_all

lemma delta_steps_history:
  assumes "contiguous s ds" and "d \<in> set ds" and "h \<in> set (history s ds)" and "delta_from d = es_version h"
  shows "apply_validated d h \<in> set (history s ds)"
  using assms
proof (induction ds arbitrary: s)
  case (Cons e ds)
  let ?s = "apply_validated e s"
  have e: "delta_from e = es_version s" "es_version s < delta_to e" and c: "contiguous ?s ds"
    using Cons.prems(1) by auto
  show ?case
  proof (cases "h \<in> set (history ?s ds)")
    case True
    have "delta_to e \<le> es_version h" using history_ge [OF c True] by simp
    with e Cons.prems(2,4) have "d \<in> set ds" by auto
    with Cons.IH [OF c _ True] Cons.prems(4) show ?thesis by simp
  next
    case False
    with Cons.prems(3) have h: "h = s" by simp
    have "d = e"
    proof (rule ccontr)
      assume "d \<noteq> e"
      with Cons.prems(2) have "d \<in> set ds" by simp
      from delta_ge [OF c this] e(2) Cons.prems(4) show False by (simp add: h)
    qed
    then show ?thesis using history_head [of ?s ds] by (simp add: h)
  qed
qed simp

lemma history_version_inj:
  "contiguous s ds \<Longrightarrow> a \<in> set (history s ds) \<Longrightarrow> b \<in> set (history s ds) \<Longrightarrow>
     es_version a = es_version b \<Longrightarrow> a = b"
proof (induction ds arbitrary: s)
  case (Cons e ds)
  then have c: "contiguous (apply_validated e s) ds" and lt: "es_version s < delta_to e" by auto
  have "es_version s < es_version h" if "h \<in> set (history (apply_validated e s) ds)" for h
    using history_ge [OF c that] lt by simp
  with Cons.prems Cons.IH [OF c] show ?case by force
qed simp

definition replica_inv :: "engine_snapshot \<Rightarrow> replication_delta list \<Rightarrow> replica \<Rightarrow> bool" where
  "replica_inv s ds r \<longleftrightarrow> (\<forall>cur. r = Some cur \<longrightarrow> cur \<in> set (history s ds))"

lemma pump_inv:
  assumes "contiguous s ds" and "msg \<in> published s ds" and "replica_inv s ds r"
  shows "replica_inv s ds (pump_message msg r)"
  using assms delta_steps_history [OF assms(1)]
  by (auto simp: replica_inv_def pump_message_def install_snapshot_def apply_delta_def published_def
    split: option.splits if_splits)

lemma pump_run_inv:
  "contiguous s ds \<Longrightarrow> set msgs \<subseteq> published s ds \<Longrightarrow> replica_inv s ds r \<Longrightarrow>
     replica_inv s ds (pump_replication msgs r)"
  by (induction msgs arbitrary: r) (simp_all add: pump_replication_def pump_inv)

lemma pump_monotonic:
  "r = Some cur \<Longrightarrow> \<exists>cur'. pump_replication msgs r = Some cur' \<and> es_version cur \<le> es_version cur'"
proof (induction msgs arbitrary: r cur)
  case (Cons msg msgs)
  have "\<exists>cur1. pump_message msg r = Some cur1 \<and> es_version cur \<le> es_version cur1"
    using Cons.prems by (cases msg) (auto simp: pump_message_def install_snapshot_def apply_delta_def)
  then obtain cur1 where "pump_message msg r = Some cur1" "es_version cur \<le> es_version cur1" by blast
  with Cons.IH [of "pump_message msg r" cur1] show ?case
    by (auto simp: pump_replication_def intro: order_trans)
qed (simp add: pump_replication_def)

lemma pump_deltas:
  "contiguous s ds \<Longrightarrow> pump_replication (map MsgDelta ds) (Some s) = Some (last (history s ds))"
proof (induction ds arbitrary: s)
  case (Cons d ds)
  then have "pump_message (MsgDelta d) (Some s) = Some (apply_validated d s)"
    by (simp add: pump_message_def apply_delta_def)
  moreover have "history (apply_validated d s) ds \<noteq> []" by (cases ds) simp_all
  ultimately show ?case using Cons by (simp add: pump_replication_def)
qed (simp add: pump_replication_def)

text \<open>C27: The replica never diverges. Let the active go through any contiguous history, publishing a
  snapshot of any state and every delta. Whatever a standby receives of it, in any order, with
  losses and repetitions, its replica is exactly a state the active had, the one of its version,
  and further messages never take it back; and the uninterrupted deltas after a snapshot bring
  it to the active's last state.\<close>

theorem replica_never_diverges:
  assumes "contiguous s ds" and "set msgs \<subseteq> published s ds" and "set later \<subseteq> published s ds"
    and "pump_replication msgs replica_new = Some cur"
  shows "cur \<in> set (history s ds) \<and>
    (\<forall>h \<in> set (history s ds). es_version h = es_version cur \<longrightarrow> h = cur) \<and>
    (\<exists>cur'. pump_replication later (Some cur) = Some cur' \<and> es_version cur \<le> es_version cur' \<and>
       cur' \<in> set (history s ds)) \<and>
    pump_replication (MsgSnapshot s # map MsgDelta ds) replica_new = Some (last (history s ds))"
proof -
  have "replica_inv s ds replica_new" by (simp add: replica_inv_def replica_new_def)
  from pump_run_inv [OF assms(1,2) this] assms(4) have cur: "cur \<in> set (history s ds)"
    by (simp add: replica_inv_def)
  obtain cur' where cur': "pump_replication later (Some cur) = Some cur'" "es_version cur \<le> es_version cur'"
    using pump_monotonic by blast
  have "replica_inv s ds (Some cur)" using cur by (simp add: replica_inv_def)
  from pump_run_inv [OF assms(1,3) this] cur'(1) have "cur' \<in> set (history s ds)"
    by (simp add: replica_inv_def)
  moreover have "pump_replication (MsgSnapshot s # map MsgDelta ds) replica_new = Some (last (history s ds))"
    using pump_deltas [OF assms(1)]
    by (simp add: pump_replication_def pump_message_def install_snapshot_def replica_new_def)
  ultimately show ?thesis
    using cur cur' history_version_inj [OF assms(1)] by blast
qed

definition wall_0 :: engine_snapshot where
  "wall_0 = \<lparr>es_version = 4, es_layout = ''quad'', es_epoch = 1, es_tiles = []\<rparr>"

theorem replica_never_diverges_witness:
  "pump_replication [MsgSnapshot wall_0, MsgDelta (SourceRebound 4 7 0 (Some ''cam1'')),
     MsgDelta (LayoutSwap 9 12 ''solo'')] replica_new \<in>
     Some ` set (history wall_0 [SourceRebound 4 7 0 (Some ''cam1''), LayoutSwap 7 9 ''pip'', LayoutSwap 9 12 ''solo''])"
proof -
  let ?ds = "[SourceRebound 4 7 0 (Some ''cam1''), LayoutSwap 7 9 ''pip'', LayoutSwap 9 12 ''solo'']"
  let ?msgs = "[MsgSnapshot wall_0, MsgDelta (SourceRebound 4 7 0 (Some ''cam1'')), MsgDelta (LayoutSwap 9 12 ''solo'')]"
  have "contiguous wall_0 ?ds" by (simp add: wall_0_def)
  moreover have "set ?msgs \<subseteq> published wall_0 ?ds" by (simp add: published_def)
  moreover have "set [] \<subseteq> published wall_0 ?ds" by simp
  moreover have "pump_replication ?msgs replica_new =
      Some (apply_validated (SourceRebound 4 7 0 (Some ''cam1'')) wall_0)"
    by (simp add: pump_replication_def pump_message_def install_snapshot_def apply_delta_def replica_new_def wall_0_def)
  ultimately show ?thesis
    using replica_never_diverges [of wall_0 ?ds ?msgs "[]"] by blast
qed

end
