(* ===== verification/Event_Order.thy ===== *)
theory Event_Order
  imports Prelude
begin

text \<open>
  Ordering of realtime events, \<open>multiview-events/src/seq.rs\<close>, \<open>ordering.rs\<close> and the frame kinds,
  schema check and topics of \<open>envelope.rs\<close> and \<open>topic.rs\<close>.
\<close>

section \<open>Topics and errors\<close>

datatype topic = ControlTopic | SystemTopic | Capabilities | Inputs | Tiles | Outputs | AudioMeters
  | AudioLoudness | Alerts | Alarms | TallyTopic | LayoutTopic | ConfigTopic | Logs | Jobs | Preview
  | Devices | Switcher

fun topic_as_str :: "topic \<Rightarrow> string" where
  "topic_as_str ControlTopic = ''$control''"
| "topic_as_str SystemTopic = ''system''"
| "topic_as_str Capabilities = ''capabilities''"
| "topic_as_str Inputs = ''inputs''"
| "topic_as_str Tiles = ''tiles''"
| "topic_as_str Outputs = ''outputs''"
| "topic_as_str AudioMeters = ''audio.meters''"
| "topic_as_str AudioLoudness = ''audio.loudness''"
| "topic_as_str Alerts = ''alerts''"
| "topic_as_str Alarms = ''alarms''"
| "topic_as_str TallyTopic = ''tally''"
| "topic_as_str LayoutTopic = ''layout''"
| "topic_as_str ConfigTopic = ''config''"
| "topic_as_str Logs = ''logs''"
| "topic_as_str Jobs = ''jobs''"
| "topic_as_str Preview = ''preview''"
| "topic_as_str Devices = ''devices''"
| "topic_as_str Switcher = ''switcher''"

definition topic_is_control :: "topic \<Rightarrow> bool" where
  "topic_is_control t \<longleftrightarrow> t = ControlTopic"

definition topic_is_high_rate :: "topic \<Rightarrow> bool" where
  "topic_is_high_rate t \<longleftrightarrow> t = AudioMeters \<or> t = AudioLoudness \<or> t = SystemTopic"

lemma topic_as_str_inj: "topic_as_str a = topic_as_str b \<Longrightarrow> a = b"
  by (cases a; cases b; simp)

datatype event_error =
    SeqOverflow
  | UnsupportedSchemaVersion nat "nat list"
  | NonMonotonicFrame nat nat string

section \<open>Sequence numbers\<close>

type_synonym seq = nat

definition seq_next :: "seq \<Rightarrow> seq option" where
  "seq_next s = (if s + 1 < 2 ^ 64 then Some (s + 1) else None)"

definition gap_to :: "seq \<Rightarrow> seq \<Rightarrow> nat option" where
  "gap_to s other = (if other < s then None else if other - s = 0 then None else Some (other - s - 1))"

text \<open>The counter: the next value to issue, \<open>None\<close> once exhausted.\<close>

type_synonym seq_counter = "seq option"

definition counter_new :: seq_counter where
  "counter_new = Some 0"

definition resuming_after :: "seq \<Rightarrow> event_error + seq_counter" where
  "resuming_after last_s = (case seq_next last_s of None \<Rightarrow> Inl SeqOverflow | Some n \<Rightarrow> Inr (Some n))"

definition issue :: "seq_counter \<Rightarrow> (event_error + seq) \<times> seq_counter" where
  "issue c = (case c of None \<Rightarrow> (Inl SeqOverflow, c) | Some cur \<Rightarrow> (Inr cur, seq_next cur))"

fun issue_n :: "nat \<Rightarrow> seq_counter \<Rightarrow> (event_error + seq) list" where
  "issue_n 0 c = []"
| "issue_n (Suc n) c = (let (r, c') = issue c in r # issue_n n c')"

lemma issue_n_from:
  "a + n \<le> 2 ^ 64 \<Longrightarrow> issue_n n (if a < 2 ^ 64 then Some a else None) = map Inr [a ..< a + n]"
proof (induction n arbitrary: a)
  case (Suc n)
  have "issue_n n (if Suc a < 2 ^ 64 then Some (Suc a) else None) = map Inr [Suc a ..< Suc a + n]"
    using Suc.prems by (intro Suc.IH) simp
  moreover have "a < 2 ^ 64" using Suc.prems by simp
  moreover have "seq_next a = (if Suc a < 2 ^ 64 then Some (Suc a) else None)"
    by (simp add: seq_next_def)
  moreover have "[a ..< a + Suc n] = a # [Suc a ..< Suc a + n]" by (simp add: upt_rec [of a])
  ultimately show ?case by (simp only: issue_n.simps issue_def if_True option.case Let_def prod.case list.map)
qed simp

section \<open>The receiver's cursor\<close>

datatype frame_kind = SnapshotFrame | DeltaFrame

record topic_cursor =
  tc_topic :: topic
  tc_last :: "seq option"

datatype accepted = SnapshotBaseline seq | DeltaAccepted seq | DeltaWithGap seq nat

definition cursor_new :: "topic \<Rightarrow> topic_cursor" where
  "cursor_new t = \<lparr>tc_topic = t, tc_last = None\<rparr>"

definition accept_frame :: "frame_kind \<Rightarrow> seq \<Rightarrow> topic_cursor \<Rightarrow> (event_error + accepted) \<times> topic_cursor" where
  "accept_frame k s c =
     (case k of
        SnapshotFrame \<Rightarrow> (Inr (SnapshotBaseline s), c\<lparr>tc_last := Some s\<rparr>)
      | DeltaFrame \<Rightarrow>
          (case tc_last c of
             None \<Rightarrow> (Inl (NonMonotonicFrame s 0 (topic_as_str (tc_topic c))), c)
           | Some last_s \<Rightarrow>
               if s \<le> last_s then (Inl (NonMonotonicFrame s last_s (topic_as_str (tc_topic c))), c)
               else
                 (Inr (case gap_to last_s s of
                         None \<Rightarrow> DeltaAccepted s
                       | Some g \<Rightarrow> if g = 0 then DeltaAccepted s else DeltaWithGap s g),
                  c\<lparr>tc_last := Some s\<rparr>)))"

definition ensure_supported :: "nat \<Rightarrow> nat list \<Rightarrow> event_error + unit" where
  "ensure_supported v supported =
     (if v \<in> set supported then Inr () else Inl (UnsupportedSchemaVersion v supported))"

text \<open>A run over the frames of one topic: what each acceptance returned.\<close>

fun cursor_run :: "(frame_kind \<times> seq) list \<Rightarrow> topic_cursor \<Rightarrow> (event_error + accepted) list \<times> topic_cursor" where
  "cursor_run [] c = ([], c)"
| "cursor_run ((k, s) # fs) c =
     (let (r, c1) = accept_frame k s c; (rs, c2) = cursor_run fs c1 in (r # rs, c2))"

text \<open>The frames accepted and the frames reported missing since the last baseline.\<close>

fun tally_result :: "event_error + accepted \<Rightarrow> nat \<times> nat \<times> nat \<Rightarrow> nat \<times> nat \<times> nat" where
  "tally_result (Inl e) t = t"
| "tally_result (Inr (SnapshotBaseline s)) t = (s, 0, 0)"
| "tally_result (Inr (DeltaAccepted s)) (b, n, g) = (b, n + 1, g)"
| "tally_result (Inr (DeltaWithGap s k)) (b, n, g) = (b, n + 1, g + k)"

lemma accept_delta:
  assumes "tc_last c = Some l"
  shows "accept_frame DeltaFrame s c =
    (if s \<le> l then (Inl (NonMonotonicFrame s l (topic_as_str (tc_topic c))), c)
     else (Inr (if s = l + 1 then DeltaAccepted s else DeltaWithGap s (s - l - 1)), c\<lparr>tc_last := Some s\<rparr>))"
  using assms by (auto simp: accept_frame_def gap_to_def)

lemma cursor_run_accounts:
  assumes "tc_last c = Some l" and "l = b + n + g"
  shows "\<exists>b' n' g'. fold tally_result (fst (cursor_run fs c)) (b, n, g) = (b', n', g') \<and>
    tc_last (snd (cursor_run fs c)) = Some (b' + n' + g')"
  using assms
proof (induction fs arbitrary: c l b n g)
  case (Cons f fs)
  obtain k s where f: "f = (k, s)" by (cases f)
  show ?case
  proof (cases k)
    case SnapshotFrame
    with Cons.IH [of "c\<lparr>tc_last := Some s\<rparr>" s s 0 0] show ?thesis
      by (simp add: f accept_frame_def split_beta)
  next
    case DeltaFrame
    consider "s \<le> l" | "s = l + 1" | "l + 1 < s" by linarith
    then show ?thesis
    proof cases
      case 1
      with Cons.IH [OF Cons.prems] Cons.prems DeltaFrame show ?thesis
        by (simp add: f accept_delta [OF Cons.prems(1)] split_beta)
    next
      case 2
      with Cons.IH [of "c\<lparr>tc_last := Some s\<rparr>" s b "n + 1" g] Cons.prems DeltaFrame show ?thesis
        by (simp add: f accept_delta [OF Cons.prems(1)] split_beta)
    next
      case 3
      with Cons.IH [of "c\<lparr>tc_last := Some s\<rparr>" s b "n + 1" "g + (s - l - 1)"] Cons.prems DeltaFrame
      show ?thesis by (simp add: f accept_delta [OF Cons.prems(1)] split_beta)
    qed
  qed
qed simp

text \<open>Loss is counted exactly. For a topic that has had a snapshot, after any further frames
  (snapshots, deltas, repetitions, reorderings), the last sequence number is the latest baseline
  plus the deltas accepted since plus the frames reported missing since; a rejected frame changes
  nothing. With a counter that issues \<open>a, a + 1, ...\<close>, the client knows exactly how many
  events it missed.\<close>

theorem cursor_counts_loss:
  assumes "a + m \<le> 2 ^ 64"
  shows "(\<exists>b n g. fold tally_result (fst (cursor_run ((SnapshotFrame, s0) # fs) c)) (0, 0, 0) = (b, n, g) \<and>
      tc_last (snd (cursor_run ((SnapshotFrame, s0) # fs) c)) = Some (b + n + g)) \<and>
    (\<forall>e. fst (accept_frame DeltaFrame s c) = Inl e \<longrightarrow> snd (accept_frame DeltaFrame s c) = c) \<and>
    issue_n m (if a < 2 ^ 64 then Some a else None) = map Inr [a ..< a + m]"
proof -
  have "\<exists>b n g. fold tally_result (fst (cursor_run ((SnapshotFrame, s0) # fs) c)) (0, 0, 0) = (b, n, g) \<and>
      tc_last (snd (cursor_run ((SnapshotFrame, s0) # fs) c)) = Some (b + n + g)"
    using cursor_run_accounts [of "c\<lparr>tc_last := Some s0\<rparr>" s0 s0 0 0 fs]
    by (simp add: accept_frame_def split_beta)
  moreover have "snd (accept_frame DeltaFrame s c) = c" if "fst (accept_frame DeltaFrame s c) = Inl e" for e
    using that by (auto simp: accept_frame_def split: option.splits if_splits)
  ultimately show ?thesis using issue_n_from [OF assms] by blast
qed

theorem cursor_counts_loss_witness:
  "issue_n 3 (Some 5) = [Inr 5, Inr 6, Inr 7] \<and>
   tc_last (snd (cursor_run [(SnapshotFrame, 5), (DeltaFrame, 6), (DeltaFrame, 9), (DeltaFrame, 8)] (cursor_new Tiles))) = Some (5 + 2 + 2)"
proof -
  have "(5::nat) + 3 \<le> 2 ^ 64" by simp
  note * = cursor_counts_loss [OF this, of 5 "[(DeltaFrame, 6), (DeltaFrame, 9), (DeltaFrame, 8)]" "cursor_new Tiles"]
  have "[5 ..< 5 + 3] = [5::nat, 6, 7]" by (simp add: upt_rec)
  with * have issued: "issue_n 3 (Some 5) = [Inr 5, Inr 6, Inr 7]" by simp
  have "tc_last (snd (cursor_run [(SnapshotFrame, 5), (DeltaFrame, 6), (DeltaFrame, 9), (DeltaFrame, 8)] (cursor_new Tiles))) = Some (5 + 2 + 2)"
    by (simp add: accept_frame_def cursor_new_def)
  with issued show ?thesis by blast
qed

end
