(* ===== verification/Tally.thy ===== *)
theory Tally
  imports Btree_Map Media_Time "HOL-Library.Product_Lexorder" "HOL-Library.Multiset"
begin

text \<open>
  Tally lamps: the vocabulary of \<open>multiview-core/src/tally.rs\<close>, the bit and index mappings of
  \<open>multiview-engine/src/tally/profile.rs\<close> and the arbiter of \<open>tally/arbiter.rs\<close>, which picks one
  state per tile from the facts of a tick and holds a lit lamp over a glitch.

  The arbiter's maps are \<open>BTreeMap\<close>s (\<open>Btree_Map\<close>). The lemmas reduce a run of \<open>resolve\<close> to a
  specification over the history of ticks: who won each tick, and when a tile was last lit.
\<close>

section \<open>Vocabulary\<close>

datatype tally_color = TallyOff | TallyRed | TallyGreen | TallyAmber

fun tsl_code :: "tally_color \<Rightarrow> nat" where
  "tsl_code TallyOff = 0"
| "tsl_code TallyRed = 1"
| "tsl_code TallyGreen = 2"
| "tsl_code TallyAmber = 3"

definition from_tsl_code :: "nat \<Rightarrow> tally_color option" where
  "from_tsl_code code =
     (if code = 0 then Some TallyOff
      else if code = 1 then Some TallyRed
      else if code = 2 then Some TallyGreen
      else if code = 3 then Some TallyAmber
      else None)"

definition color_is_lit :: "tally_color \<Rightarrow> bool" where
  "color_is_lit c \<longleftrightarrow> c \<noteq> TallyOff"

type_synonym brightness = nat

definition brightness_full :: brightness where
  "brightness_full = 3"

definition brightness_new :: "nat \<Rightarrow> brightness" where
  "brightness_new level = (if level > 3 then 3 else level)"

datatype bus_source = ProgramBus | PreviewBus | AuxBus nat | IsoBus nat

record tally_state =
  ts_color :: tally_color
  ts_brightness :: brightness
  ts_source :: bus_source

definition tally_is_lit :: "tally_state \<Rightarrow> bool" where
  "tally_is_lit s = color_is_lit (ts_color s)"

definition tally_program :: tally_state where
  "tally_program = \<lparr>ts_color = TallyRed, ts_brightness = brightness_full, ts_source = ProgramBus\<rparr>"

definition tally_preview :: tally_state where
  "tally_preview = \<lparr>ts_color = TallyGreen, ts_brightness = brightness_full, ts_source = PreviewBus\<rparr>"

definition tally_default :: tally_state where
  "tally_default = \<lparr>ts_color = TallyOff, ts_brightness = brightness_full, ts_source = ProgramBus\<rparr>"

lemma from_tsl_code_iff: "from_tsl_code n = Some c \<longleftrightarrow> tsl_code c = n"
  by (cases c) (auto simp: from_tsl_code_def)

section \<open>Profiles\<close>

record bit_mapping =
  bm_bit :: nat
  bm_color :: tally_color
  bm_source :: bus_source
  bm_priority :: nat

record tally_profile =
  tp_bits :: "(nat, bit_mapping) btree"
  index_to_tile :: "(nat, nat) btree"
  tp_strict_index :: bool
  tp_brightness :: brightness

definition profile_new :: tally_profile where
  "profile_new = \<lparr>tp_bits = [], index_to_tile = [], tp_strict_index = False, tp_brightness = brightness_full\<rparr>"

definition with_bit :: "bit_mapping \<Rightarrow> tally_profile \<Rightarrow> tally_profile" where
  "with_bit b p = p\<lparr>tp_bits := bt_insert (bm_bit b) b (tp_bits p)\<rparr>"

definition with_index :: "nat \<Rightarrow> nat \<Rightarrow> tally_profile \<Rightarrow> tally_profile" where
  "with_index i t p = p\<lparr>index_to_tile := bt_insert i t (index_to_tile p)\<rparr>"

definition strict_index :: "tally_profile \<Rightarrow> tally_profile" where
  "strict_index p = p\<lparr>tp_strict_index := True\<rparr>"

definition with_brightness :: "brightness \<Rightarrow> tally_profile \<Rightarrow> tally_profile" where
  "with_brightness b p = p\<lparr>tp_brightness := b\<rparr>"

definition tile_for :: "nat \<Rightarrow> tally_profile \<Rightarrow> nat option" where
  "tile_for i p =
     (case bt_get (index_to_tile p) i of
        Some t \<Rightarrow> Some t
      | None \<Rightarrow> if tp_strict_index p then None else Some i)"

definition pick_higher :: "bit_mapping \<Rightarrow> bit_mapping \<Rightarrow> bit_mapping" where
  "pick_higher current candidate =
     (if bm_priority candidate > bm_priority current \<or>
         (bm_priority candidate = bm_priority current \<and> bm_bit candidate < bm_bit current)
      then candidate else current)"

definition resolve_bit :: "tally_profile \<Rightarrow> nat \<Rightarrow> bit_mapping option \<Rightarrow> bit_mapping option" where
  "resolve_bit p b best =
     (case bt_get (tp_bits p) b of
        None \<Rightarrow> best
      | Some m \<Rightarrow>
          if \<not> color_is_lit (bm_color m) then best
          else Some (case best of None \<Rightarrow> m | Some current \<Rightarrow> pick_higher current m))"

definition resolve_bits :: "nat list \<Rightarrow> tally_profile \<Rightarrow> tally_state option" where
  "resolve_bits set_bits p =
     map_option (\<lambda>m. \<lparr>ts_color = bm_color m, ts_brightness = tp_brightness p, ts_source = bm_source m\<rparr>)
       (fold (resolve_bit p) set_bits None)"

section \<open>The arbiter\<close>

record tally_fact =
  tf_tile :: nat
  tf_state :: tally_state
  tf_priority :: nat

definition from_bits :: "tally_profile \<Rightarrow> nat \<Rightarrow> nat list \<Rightarrow> nat \<Rightarrow> tally_fact option" where
  "from_bits p i set_bits prio =
     Option.bind (tile_for i p) (\<lambda>tile.
       Option.bind (resolve_bits set_bits p) (\<lambda>state.
         Some \<lparr>tf_tile = tile, tf_state = state, tf_priority = prio\<rparr>))"

datatype conflict_policy = PriorityPolicy | ColorUrgency

fun color_rank :: "tally_color \<Rightarrow> nat" where
  "color_rank TallyOff = 0"
| "color_rank TallyGreen = 1"
| "color_rank TallyAmber = 2"
| "color_rank TallyRed = 3"

datatype latch_policy = LatchNone | LatchHold media_time

record held =
  h_state :: tally_state
  h_last_seen :: media_time

record tally_arbiter =
  ta_conflict :: conflict_policy
  ta_latch :: latch_policy
  ta_held :: "(nat, held) btree"

definition arbiter_new :: "conflict_policy \<Rightarrow> latch_policy \<Rightarrow> tally_arbiter" where
  "arbiter_new c l = \<lparr>ta_conflict = c, ta_latch = l, ta_held = []\<rparr>"

definition pick :: "conflict_policy \<Rightarrow> tally_fact \<Rightarrow> tally_fact \<Rightarrow> tally_fact" where
  "pick policy current fct =
     (let cur_rank = color_rank (ts_color (tf_state current));
          new_rank = color_rank (ts_color (tf_state fct));
          new_wins = (case policy of
             PriorityPolicy \<Rightarrow> tf_priority fct > tf_priority current \<or>
               (tf_priority fct = tf_priority current \<and> new_rank > cur_rank)
           | ColorUrgency \<Rightarrow> new_rank > cur_rank \<or>
               (new_rank = cur_rank \<and> tf_priority fct > tf_priority current))
      in if new_wins then fct else current)"

definition resolve_fact :: "conflict_policy \<Rightarrow> tally_fact \<Rightarrow> (nat, tally_fact) btree \<Rightarrow> (nat, tally_fact) btree" where
  "resolve_fact policy fct winners =
     bt_insert (tf_tile fct)
       (case bt_get winners (tf_tile fct) of None \<Rightarrow> fct | Some current \<Rightarrow> pick policy current fct) winners"

definition hold_expired :: "media_time \<Rightarrow> media_time \<Rightarrow> held \<Rightarrow> bool" where
  "hold_expired hold_t now h \<longleftrightarrow> max (sat_sub 64 now (h_last_seen h)) 0 \<ge> max hold_t 0"

definition apply_hold ::
  "(nat, tally_state) btree \<Rightarrow> media_time \<Rightarrow> media_time \<Rightarrow> tally_arbiter \<Rightarrow> (nat, tally_state) btree \<times> tally_arbiter" where
  "apply_hold winners hold_t now a =
     (let refreshed = fold (\<lambda>(tile, state) m.
             if color_is_lit (ts_color state) then bt_insert tile \<lparr>h_state = state, h_last_seen = now\<rparr> m else m)
           winners (ta_held a);
          kept = bt_retain (\<lambda>_ h. \<not> hold_expired hold_t now h) refreshed;
          out = fold (\<lambda>(tile, h). bt_or_insert tile (h_state h)) kept winners
      in (out, a\<lparr>ta_held := kept\<rparr>))"

definition tally_resolve ::
  "tally_fact list \<Rightarrow> media_time \<Rightarrow> tally_arbiter \<Rightarrow> (nat, tally_state) btree \<times> tally_arbiter" where
  "tally_resolve facts now a =
     (let winners = bt_map_values tf_state (fold (resolve_fact (ta_conflict a)) facts [])
      in case ta_latch a of
           LatchNone \<Rightarrow> (winners, a\<lparr>ta_held := []\<rparr>)
         | LatchHold hold_t \<Rightarrow> apply_hold winners hold_t now a)"

section \<open>Who wins a tile\<close>

definition fact_key :: "conflict_policy \<Rightarrow> tally_fact \<Rightarrow> nat \<times> nat" where
  "fact_key policy f =
     (let r = color_rank (ts_color (tf_state f))
      in case policy of PriorityPolicy \<Rightarrow> (tf_priority f, r) | ColorUrgency \<Rightarrow> (r, tf_priority f))"

lemma pick_by_key: "pick p c f = (if fact_key p c < fact_key p f then f else c)"
  by (cases p) (auto simp: pick_def fact_key_def Let_def)

lemma color_rank_inj: "color_rank a = color_rank b \<Longrightarrow> a = b"
  by (cases a; cases b; simp)

lemma fact_key_color: "fact_key p f = fact_key p g \<Longrightarrow> ts_color (tf_state f) = ts_color (tf_state g)"
  by (cases p) (auto simp: fact_key_def Let_def intro: color_rank_inj)

text \<open>The winner among the facts of one tile: the fold \<open>resolve\<close> runs on each entry of its map.\<close>

definition winner :: "conflict_policy \<Rightarrow> nat \<Rightarrow> tally_fact list \<Rightarrow> tally_fact option" where
  "winner p t facts =
     fold (\<lambda>f w. if tf_tile f = t then Some (case w of None \<Rightarrow> f | Some c \<Rightarrow> pick p c f) else w) facts None"

lemma resolve_fact_get:
  "bt_get (fold (resolve_fact p) facts ws) t =
     fold (\<lambda>f w. if tf_tile f = t then Some (case w of None \<Rightarrow> f | Some c \<Rightarrow> pick p c f) else w) facts (bt_get ws t)"
  by (induction facts arbitrary: ws) (auto simp: resolve_fact_def bt_get_insert)

lemma resolve_fact_valid: "bt_valid ws \<Longrightarrow> bt_valid (fold (resolve_fact p) facts ws)"
  by (induction facts arbitrary: ws) (auto simp: resolve_fact_def bt_valid_insert)

lemma winner_snoc:
  "winner p t (facts @ [f]) =
     (if tf_tile f = t then Some (case winner p t facts of None \<Rightarrow> f | Some c \<Rightarrow> pick p c f) else winner p t facts)"
  by (simp add: winner_def)

lemma winner_None: "winner p t facts = None \<longleftrightarrow> (\<forall>f \<in> set facts. tf_tile f \<noteq> t)"
  by (induction facts rule: rev_induct) (auto simp: winner_snoc, simp add: winner_def)

lemma winner_max:
  "winner p t facts = Some w \<Longrightarrow>
     w \<in> set facts \<and> tf_tile w = t \<and> (\<forall>f \<in> set facts. tf_tile f = t \<longrightarrow> fact_key p f \<le> fact_key p w)"
proof (induction facts arbitrary: w rule: rev_induct)
  case (snoc f facts)
  show ?case
  proof (cases "tf_tile f = t")
    case True
    show ?thesis
    proof (cases "winner p t facts")
      case None
      with snoc.prems True have "w = f" by (simp add: winner_snoc)
      with True None show ?thesis by (auto simp: winner_None)
    next
      case (Some c)
      note c = snoc.IH [OF Some]
      from snoc.prems True Some have w: "w = (if fact_key p c < fact_key p f then f else c)"
        by (simp add: winner_snoc pick_by_key)
      show ?thesis
      proof (cases "fact_key p c < fact_key p f")
        case less: True
        with c have "fact_key p g \<le> fact_key p f" if "g \<in> set facts" "tf_tile g = t" for g
          using that by (blast intro: order_trans less_imp_le)
        with w less True show ?thesis by auto
      next
        case False
        with c w True show ?thesis by auto
      qed
    qed
  next
    case False
    with snoc.prems have "winner p t facts = Some w" by (simp add: winner_snoc)
    from snoc.IH [OF this] False show ?thesis by auto
  qed
qed (simp add: winner_def)

definition live_state :: "conflict_policy \<Rightarrow> tally_fact list \<Rightarrow> nat \<Rightarrow> tally_state option" where
  "live_state p facts t = map_option tf_state (winner p t facts)"

lemma winners_get:
  "bt_get (bt_map_values tf_state (fold (resolve_fact p) facts [])) t = live_state p facts t"
  by (simp add: bt_get_map_values resolve_fact_get live_state_def winner_def)

lemma winners_valid: "bt_valid (bt_map_values tf_state (fold (resolve_fact p) facts []))"
  by (simp add: resolve_fact_valid)

lemma winner_perm_key:
  assumes "mset facts = mset facts'"
  shows "map_option (fact_key p) (winner p t facts) = map_option (fact_key p) (winner p t facts')"
proof (cases "winner p t facts")
  case None
  with assms have "winner p t facts' = None" using mset_eq_setD [OF assms] by (simp add: winner_None)
  with None show ?thesis by simp
next
  case (Some w)
  with assms obtain w' where w': "winner p t facts' = Some w'"
    using mset_eq_setD [OF assms] by (metis winner_None not_None_eq)
  from winner_max [OF Some] winner_max [OF w'] mset_eq_setD [OF assms]
  have "fact_key p w = fact_key p w'" by (metis order_antisym)
  with Some w' show ?thesis by simp
qed

text \<open>Arbitration is deterministic and right. Without a latch, a tile shows a state exactly
  when some fact targets it, and that state is asserted by a fact no other fact of the tile beats
  (by priority then colour urgency, or the other way round); the order in which the sources report
  never changes the colour.\<close>

theorem tally_winner_maximal:
  assumes "mset facts = mset facts'"
  shows "case bt_get (fst (tally_resolve facts now (arbiter_new p LatchNone))) t of
      None \<Rightarrow> (\<forall>f \<in> set facts. tf_tile f \<noteq> t) \<and>
        bt_get (fst (tally_resolve facts' now' (arbiter_new p LatchNone))) t = None
    | Some s \<Rightarrow>
        (\<exists>w \<in> set facts. tf_tile w = t \<and> tf_state w = s \<and>
           (\<forall>f \<in> set facts. tf_tile f = t \<longrightarrow> fact_key p f \<le> fact_key p w)) \<and>
        map_option ts_color (bt_get (fst (tally_resolve facts' now' (arbiter_new p LatchNone))) t) = Some (ts_color s)"
proof -
  have get: "bt_get (fst (tally_resolve fs n (arbiter_new p LatchNone))) t = live_state p fs t" for fs n
    by (simp add: tally_resolve_def arbiter_new_def winners_get)
  show ?thesis
  proof (cases "winner p t facts")
    case None
    with winner_perm_key [OF assms, of p t] have n': "winner p t facts' = None" by simp
    have l: "live_state p facts t = None" "live_state p facts' t = None"
      by (simp_all add: live_state_def None n')
    from None show ?thesis unfolding get l by (simp add: winner_None)
  next
    case (Some w)
    with winner_perm_key [OF assms, of p t] obtain w' where
      w': "winner p t facts' = Some w'" "fact_key p w' = fact_key p w"
      by (cases "winner p t facts'") auto
    have l: "live_state p facts t = Some (tf_state w)" "live_state p facts' t = Some (tf_state w')"
      by (simp_all add: live_state_def Some w'(1))
    from winner_max [OF Some] fact_key_color [OF w'(2)] show ?thesis
      unfolding get l by simp blast
  qed
qed

section \<open>The hold\<close>

definition tally_run :: "(tally_fact list \<times> media_time) list \<Rightarrow> tally_arbiter \<Rightarrow> tally_arbiter" where
  "tally_run ticks a = fold (\<lambda>(facts, now) a. snd (tally_resolve facts now a)) ticks a"

definition lit_at :: "conflict_policy \<Rightarrow> nat \<Rightarrow> tally_fact list \<times> media_time \<Rightarrow> held option" where
  "lit_at p t tick =
     (case live_state p (fst tick) t of
        Some s \<Rightarrow> if color_is_lit (ts_color s) then Some \<lparr>h_state = s, h_last_seen = snd tick\<rparr> else None
      | None \<Rightarrow> None)"

definition last_lit :: "conflict_policy \<Rightarrow> nat \<Rightarrow> (tally_fact list \<times> media_time) list \<Rightarrow> held option" where
  "last_lit p t ticks =
     fold (\<lambda>tick h. case lit_at p t tick of Some h' \<Rightarrow> Some h' | None \<Rightarrow> h) ticks None"

definition within_hold :: "media_time \<Rightarrow> media_time \<Rightarrow> held option \<Rightarrow> held option" where
  "within_hold hold_t now h =
     (case h of Some h' \<Rightarrow> if now - h_last_seen h' < hold_t then Some h' else None | None \<Rightarrow> None)"

lemma hold_expired_iff:
  "in_i 64 hold_t \<Longrightarrow> h_last_seen h \<le> now \<Longrightarrow> hold_expired hold_t now h \<longleftrightarrow> \<not> now - h_last_seen h < hold_t"
  by (auto simp: hold_expired_def sat_sub_def sat_def in_i_def i_simps)

lemma apply_hold_get:
  assumes "bt_valid winners" and "bt_valid (ta_held a)"
    and "apply_hold winners hold_t now a = (out, a')"
  shows "bt_valid (ta_held a')"
    and "bt_get (ta_held a') t =
      (case (case bt_get winners t of
               Some s \<Rightarrow> if color_is_lit (ts_color s) then Some \<lparr>h_state = s, h_last_seen = now\<rparr> else bt_get (ta_held a) t
             | None \<Rightarrow> bt_get (ta_held a) t) of
         Some h \<Rightarrow> if hold_expired hold_t now h then None else Some h
       | None \<Rightarrow> None)"
    and "bt_get out t = (case bt_get winners t of Some s \<Rightarrow> Some s | None \<Rightarrow> map_option h_state (bt_get (ta_held a') t))"
proof -
  define refreshed where "refreshed = fold (\<lambda>(tile, state) m.
      if color_is_lit (ts_color state) then bt_insert tile \<lparr>h_state = state, h_last_seen = now\<rparr> m else m)
    winners (ta_held a)"
  have valid: "bt_valid (fold (\<lambda>(tile, state) m.
      if color_is_lit (ts_color state) then bt_insert tile \<lparr>h_state = state, h_last_seen = now\<rparr> m else m) ws m)"
    if "bt_valid m" for ws m
    using that by (induction ws arbitrary: m) (auto simp: bt_valid_insert)
  have r: "bt_valid refreshed" unfolding refreshed_def by (rule valid [OF assms(2)])
  have get: "bt_get refreshed t = (case bt_get winners t of
      Some s \<Rightarrow> if color_is_lit (ts_color s) then Some \<lparr>h_state = s, h_last_seen = now\<rparr> else bt_get (ta_held a) t
    | None \<Rightarrow> bt_get (ta_held a) t)" for t
    unfolding refreshed_def
    using bt_get_fold_insert [OF bt_valid_distinct [OF assms(1)], of "\<lambda>_ s. color_is_lit (ts_color s)"
        "\<lambda>s. \<lparr>h_state = s, h_last_seen = now\<rparr>" "ta_held a" t]
    by (simp add: bt_get_def)
  have a': "ta_held a' = bt_retain (\<lambda>_ h. \<not> hold_expired hold_t now h) refreshed"
    and out: "out = fold (\<lambda>(tile, h). bt_or_insert tile (h_state h)) (ta_held a') winners"
    using assms(3) by (auto simp: apply_hold_def refreshed_def Let_def)
  show "bt_valid (ta_held a')" unfolding a' by (rule bt_valid_retain [OF r])
  show "bt_get (ta_held a') t = (case (case bt_get winners t of
      Some s \<Rightarrow> if color_is_lit (ts_color s) then Some \<lparr>h_state = s, h_last_seen = now\<rparr> else bt_get (ta_held a) t
    | None \<Rightarrow> bt_get (ta_held a) t) of Some h \<Rightarrow> if hold_expired hold_t now h then None else Some h | None \<Rightarrow> None)"
    unfolding a' bt_get_retain [OF r] get by (simp split: option.split)
  show "bt_get out t = (case bt_get winners t of Some s \<Rightarrow> Some s | None \<Rightarrow> map_option h_state (bt_get (ta_held a') t))"
    unfolding out bt_get_fold_or_insert by (simp add: bt_get_def split: option.split)
qed

text \<open>What the arbiter remembers after a run is what the history says.\<close>

lemma tally_run_snoc:
  "tally_run (ticks @ [(facts, now)]) a = snd (tally_resolve facts now (tally_run ticks a))"
  by (simp add: tally_run_def)

lemma tally_run_config [simp]:
  "ta_conflict (tally_run ticks a) = ta_conflict a" "ta_latch (tally_run ticks a) = ta_latch a"
  by (induction ticks rule: rev_induct)
    (auto simp: tally_run_snoc tally_resolve_def apply_hold_def Let_def split: latch_policy.split,
      auto simp: tally_run_def)

lemma last_lit_snoc:
  "last_lit p t (ticks @ [tick]) = (case lit_at p t tick of Some h \<Rightarrow> Some h | None \<Rightarrow> last_lit p t ticks)"
  by (simp add: last_lit_def split: option.split)

lemma last_lit_seen: "last_lit p t ticks = Some h \<Longrightarrow> \<exists>tick \<in> set ticks. h_last_seen h = snd tick"
  by (induction ticks rule: rev_induct)
    (auto simp: last_lit_snoc lit_at_def split: option.splits if_splits, auto simp: last_lit_def)

definition holding :: "conflict_policy \<Rightarrow> media_time \<Rightarrow> tally_arbiter" where
  "holding p hold_t = arbiter_new p (LatchHold hold_t)"

lemma resolve_hold:
  assumes "in_i 64 hold_t" and "sorted (map snd ticks @ [now])"
  shows "bt_valid (ta_held (tally_run ticks (holding p hold_t))) \<and>
    within_hold hold_t now (bt_get (ta_held (tally_run ticks (holding p hold_t))) t) =
      within_hold hold_t now (last_lit p t ticks) \<and>
    (\<forall>h. bt_get (ta_held (tally_run ticks (holding p hold_t))) t = Some h \<longrightarrow> h_last_seen h \<le> now)"
  using assms(2)
proof (induction ticks arbitrary: now rule: rev_induct)
  case Nil
  then show ?case by (simp add: tally_run_def holding_def arbiter_new_def last_lit_def)
next
  case (snoc tick ticks)
  obtain facts n where tick: "tick = (facts, n)" by (cases tick)
  with snoc.prems have le: "n \<le> now" and sorted: "sorted (map snd ticks @ [n])"
    by (auto simp: sorted_append)
  note IH = snoc.IH [OF sorted]
  let ?a = "tally_run ticks (holding p hold_t)" and ?w = "bt_map_values tf_state (fold (resolve_fact p) facts [])"
  have run: "tally_run (ticks @ [tick]) (holding p hold_t) = snd (apply_hold ?w hold_t n ?a)"
    by (simp add: tick tally_run_snoc tally_resolve_def holding_def arbiter_new_def)
  note ap = apply_hold_get [OF winners_valid [of p facts] conjunct1 [OF IH],
      of hold_t n "fst (apply_hold ?w hold_t n ?a)" "snd (apply_hold ?w hold_t n ?a)"]
  have valid: "bt_valid (ta_held (tally_run (ticks @ [tick]) (holding p hold_t)))"
    unfolding run by (rule ap(1)) simp
  have get: "bt_get (ta_held (tally_run (ticks @ [tick]) (holding p hold_t))) t =
      (case (case lit_at p t tick of Some h \<Rightarrow> Some h | None \<Rightarrow> bt_get (ta_held ?a) t) of
         Some h \<Rightarrow> if hold_expired hold_t n h then None else Some h | None \<Rightarrow> None)"
    unfolding run by (subst ap(2), simp) (auto simp: winners_get lit_at_def tick split: option.split)
  have seen: "h_last_seen h \<le> n" if "lit_at p t tick = Some h" for h
    using that by (auto simp: lit_at_def tick split: option.splits if_splits)
  from get have "bt_get (ta_held (tally_run (ticks @ [tick]) (holding p hold_t))) t =
      within_hold hold_t n (case lit_at p t tick of Some h \<Rightarrow> Some h | None \<Rightarrow> bt_get (ta_held ?a) t)"
    using seen IH hold_expired_iff [OF assms(1)]
    by (auto simp: within_hold_def split: option.splits)
  also have "\<dots> = within_hold hold_t n (last_lit p t (ticks @ [tick]))"
    using IH by (cases "lit_at p t tick") (simp_all add: last_lit_snoc)
  finally have exact: "bt_get (ta_held (tally_run (ticks @ [tick]) (holding p hold_t))) t =
      within_hold hold_t n (last_lit p t (ticks @ [tick]))" .
  have "within_hold hold_t now (bt_get (ta_held (tally_run (ticks @ [tick]) (holding p hold_t))) t) =
      within_hold hold_t now (last_lit p t (ticks @ [tick]))"
    unfolding exact using le by (auto simp: within_hold_def split: option.splits)
  moreover have "h_last_seen h \<le> now" if "last_lit p t (ticks @ [tick]) = Some h" for h
    using last_lit_seen [OF that] snoc.prems by (auto simp: sorted_append)
  then have "\<forall>h. bt_get (ta_held (tally_run (ticks @ [tick]) (holding p hold_t))) t = Some h \<longrightarrow> h_last_seen h \<le> now"
    unfolding exact by (auto simp: within_hold_def split: option.splits if_splits)
  ultimately show ?case using valid by blast
qed

text \<open>The lamp as a function of the history, an unlit live fact included.\<close>

lemma lamp_of_history:
  assumes "in_i 64 hold_t" and "sorted (map snd ticks @ [now])"
  shows "bt_get (fst (tally_resolve facts now (tally_run ticks (arbiter_new p (LatchHold hold_t))))) t =
    (case live_state p facts t of
       Some s \<Rightarrow> Some s
     | None \<Rightarrow> map_option h_state (within_hold hold_t now (last_lit p t ticks)))"
proof -
  let ?a = "tally_run ticks (holding p hold_t)" and ?w = "bt_map_values tf_state (fold (resolve_fact p) facts [])"
  note a = resolve_hold [OF assms, of p t]
  have r: "tally_resolve facts now ?a = apply_hold ?w hold_t now ?a"
    by (simp add: tally_resolve_def holding_def arbiter_new_def)
  note ap = apply_hold_get [OF winners_valid [of p facts] conjunct1 [OF a],
      of hold_t now "fst (apply_hold ?w hold_t now ?a)" "snd (apply_hold ?w hold_t now ?a)"]
  have "bt_get (fst (tally_resolve facts now ?a)) t = (case live_state p facts t of Some s \<Rightarrow> Some s
      | None \<Rightarrow> map_option h_state (bt_get (ta_held (snd (apply_hold ?w hold_t now ?a))) t))"
    unfolding r by (subst ap(3), simp) (simp add: winners_get)
  moreover have "bt_get (ta_held (snd (apply_hold ?w hold_t now ?a))) t = within_hold hold_t now (bt_get (ta_held ?a) t)"
    if "live_state p facts t = None"
  proof -
    have "bt_get (ta_held (snd (apply_hold ?w hold_t now ?a))) t =
        (case bt_get (ta_held ?a) t of Some h \<Rightarrow> if hold_expired hold_t now h then None else Some h | None \<Rightarrow> None)"
      by (subst ap(2), simp) (simp add: winners_get that)
    with a hold_expired_iff [OF assms(1), of _ now] show ?thesis
      by (cases "bt_get (ta_held ?a) t") (auto simp: within_hold_def split: if_splits)
  qed
  ultimately show ?thesis
    using a by (auto simp: holding_def split: option.split)
qed

text \<open>C28: A lamp follows its history. After any run of ticks on a clock that does not go back, and at a
  tick at which the tile has a lit winner or no live fact at all: a tile with a lit winner shows it; a
  tile without a live fact shows the state in which it was last lit, exactly while the hold window
  since then is open, and nothing afterwards. (A tick whose winner is unlit is left open: the comments
  of the code disagree about it.)\<close>

theorem tally_lamp_follows_history:
  assumes "in_i 64 hold_t" and "sorted (map snd ticks @ [now])"
    and "\<forall>s. live_state p facts t = Some s \<longrightarrow> color_is_lit (ts_color s)"
  shows "bt_get (fst (tally_resolve facts now (tally_run ticks (arbiter_new p (LatchHold hold_t))))) t =
    (case live_state p facts t of
       Some s \<Rightarrow> Some s
     | None \<Rightarrow> map_option h_state (within_hold hold_t now (last_lit p t ticks)))"
  by (rule lamp_of_history [OF assms(1,2)])

definition red_fact :: "nat \<Rightarrow> nat \<Rightarrow> tally_fact" where
  "red_fact t prio = \<lparr>tf_tile = t, tf_state = tally_program, tf_priority = prio\<rparr>"

definition green_fact :: "nat \<Rightarrow> nat \<Rightarrow> tally_fact" where
  "green_fact t prio = \<lparr>tf_tile = t, tf_state = tally_preview, tf_priority = prio\<rparr>"

definition off_fact :: "nat \<Rightarrow> nat \<Rightarrow> tally_fact" where
  "off_fact t prio = \<lparr>tf_tile = t, tf_state = tally_default, tf_priority = prio\<rparr>"

lemmas tally_eval = red_fact_def green_fact_def off_fact_def tally_program_def tally_preview_def
  tally_default_def live_state_def winner_def pick_def lit_at_def last_lit_def within_hold_def color_is_lit_def Let_def

theorem tally_winner_maximal_witness:
  "map_option ts_color (bt_get (fst (tally_resolve [green_fact 4 2, red_fact 4 1, red_fact 5 9] 0
     (arbiter_new PriorityPolicy LatchNone))) 4) = Some TallyGreen"
proof -
  have m: "mset [red_fact 4 1, green_fact 4 2, red_fact 5 9] = mset [green_fact 4 2, red_fact 4 1, red_fact 5 9]"
    by (simp add: add_mset_commute)
  have "bt_get (fst (tally_resolve [red_fact 4 1, green_fact 4 2, red_fact 5 9] 0 (arbiter_new PriorityPolicy LatchNone))) 4
      = Some tally_preview"
    using winners_get [of PriorityPolicy "[red_fact 4 1, green_fact 4 2, red_fact 5 9]" 4]
    by (simp add: tally_resolve_def arbiter_new_def, simp add: tally_eval)
  with tally_winner_maximal [OF m, where now = 0 and p = PriorityPolicy and t = 4 and now' = 0] show ?thesis by (simp add: tally_preview_def)
qed

theorem tally_lamp_follows_history_witness:
  "bt_get (fst (tally_resolve [] 149 (tally_run [([red_fact 4 1], 100), ([], 120)]
      (arbiter_new PriorityPolicy (LatchHold 50))))) 4 = Some tally_program \<and>
   bt_get (fst (tally_resolve [] 150 (tally_run [([red_fact 4 1], 100), ([], 120)]
      (arbiter_new PriorityPolicy (LatchHold 50))))) 4 = None"
proof -
  have h: "in_i 64 50" by (simp add: in_i_def i_simps)
  from tally_lamp_follows_history [OF h, of "[([red_fact 4 1], 100), ([], 120)]" 149 PriorityPolicy "[]" 4]
    tally_lamp_follows_history [OF h, of "[([red_fact 4 1], 100), ([], 120)]" 150 PriorityPolicy "[]" 4]
  show ?thesis by (simp add: tally_eval)
qed

text \<open>An unlit fact counts as live, although the code's comments speak of a live lit winner and of
  keeping held states: while the hold is open an \<open>Off\<close> assertion puts the lamp out, and once it is
  withdrawn the held lamp comes back.\<close>

lemma off_fact_blinks_held_lamp:
  defines "a \<equiv> tally_run [([red_fact 4 1], 100)] (arbiter_new PriorityPolicy (LatchHold 50))"
  shows "fst (tally_resolve [off_fact 4 1] 110 a) = [(4, tally_default)] \<and>
    fst (tally_resolve [] 120 (snd (tally_resolve [off_fact 4 1] 110 a))) = [(4, tally_program)] \<and>
    \<not> tally_is_lit tally_default \<and> tally_is_lit tally_program"
proof -
  let ?a = "\<lparr>ta_conflict = PriorityPolicy, ta_latch = LatchHold 50,
    ta_held = [(4, \<lparr>h_state = tally_program, h_last_seen = 100\<rparr>)]\<rparr>"
  note first = tally_resolve_def apply_hold_def resolve_fact_def bt_map_values_def
  note rest = bt_retain_def bt_or_insert_def bt_get_def hold_expired_def sat_sub_def sat_def i_simps
  have lit: "tally_is_lit tally_program" "\<not> tally_is_lit tally_default"
    by (simp_all add: tally_is_lit_def color_is_lit_def tally_program_def tally_default_def)
  note lit' = lit [unfolded tally_is_lit_def]
  have "a = snd (tally_resolve [red_fact 4 1] 100 (arbiter_new PriorityPolicy (LatchHold 50)))"
    by (simp add: a_def tally_run_def)
  then have "a = ?a"
    by (simp add: arbiter_new_def red_fact_def first lit', simp add: rest)
  moreover have "tally_resolve [off_fact 4 1] 110 ?a = ([(4, tally_default)], ?a)"
    by (simp add: off_fact_def first lit', simp add: rest)
  moreover have "fst (tally_resolve [] 120 ?a) = [(4, tally_program)]"
    by (simp add: first, simp add: rest)
  ultimately show ?thesis using lit by simp
qed

section \<open>Bits\<close>

text \<open>The mapping \<open>resolve_bits\<close> picks is lit, is one of the bits set, and no lit set bit has a
  higher priority, or the same with a lower number.\<close>

definition no_better :: "bit_mapping \<Rightarrow> bit_mapping \<Rightarrow> bool" where
  "no_better m n \<longleftrightarrow> bm_priority n < bm_priority m \<or> (bm_priority n = bm_priority m \<and> bm_bit m \<le> bm_bit n)"

lemma no_better_refl: "no_better m m"
  by (simp add: no_better_def)

lemma no_better_trans: "no_better a b \<Longrightarrow> no_better b c \<Longrightarrow> no_better a c"
  by (auto simp: no_better_def)

lemma pick_higher_no_better:
  "no_better (pick_higher a b) a \<and> no_better (pick_higher a b) b \<and> pick_higher a b \<in> {a, b}"
  by (auto simp: pick_higher_def no_better_def not_less)

lemma resolve_bits_best:
  "case fold (resolve_bit p) bits None of
     None \<Rightarrow> \<forall>b \<in> set bits. \<forall>n. bt_get (tp_bits p) b = Some n \<longrightarrow> \<not> color_is_lit (bm_color n)
   | Some m \<Rightarrow> color_is_lit (bm_color m) \<and> (\<exists>b \<in> set bits. bt_get (tp_bits p) b = Some m) \<and>
       (\<forall>b \<in> set bits. \<forall>n. bt_get (tp_bits p) b = Some n \<longrightarrow> color_is_lit (bm_color n) \<longrightarrow> no_better m n)"
proof (induction bits rule: rev_induct)
  case (snoc b bits)
  let ?best = "fold (resolve_bit p) bits None"
  have step: "fold (resolve_bit p) (bits @ [b]) None = resolve_bit p b ?best" by simp
  show ?case
  proof (cases "\<exists>n. bt_get (tp_bits p) b = Some n \<and> color_is_lit (bm_color n)")
    case False
    then have "resolve_bit p b ?best = ?best" by (auto simp: resolve_bit_def [of p b] split: option.split)
    with False snoc.IH show ?thesis unfolding step by (auto split: option.splits)
  next
    case True
    then obtain n where n: "bt_get (tp_bits p) b = Some n" "color_is_lit (bm_color n)" by blast
    show ?thesis
    proof (cases ?best)
      case None
      with n have "resolve_bit p b ?best = Some n" by (simp add: resolve_bit_def [of p b])
      with n None snoc.IH show ?thesis unfolding step by (auto simp: no_better_refl)
    next
      case (Some c)
      with n have r: "resolve_bit p b ?best = Some (pick_higher c n)" by (simp add: resolve_bit_def [of p b])
      with n Some snoc.IH pick_higher_no_better [of c n] show ?thesis
        unfolding step r by (auto intro: no_better_trans)
    qed
  qed
qed simp

end
