(* ===== verification/Tile_Cycle.thy ===== *)
theory Tile_Cycle
  imports Media_Time
begin

text \<open>
  Round-robin tiles and reference stills, \<open>multiview-engine/src/cycle.rs\<close>. The cycler computes
  how many dwell windows a tick has skipped instead of replaying them; \<open>rr_replay\<close> is the replay it
  avoids, and the lemmas show the two agree and that intermediate ticks leave no trace.
\<close>

section \<open>The cycler\<close>

record round_robin =
  rr_roster :: "string list"
  rr_dwell :: media_time
  rr_index :: nat
  rr_since :: media_time

definition rr_new :: "string list \<Rightarrow> media_time \<Rightarrow> media_time \<Rightarrow> round_robin option" where
  "rr_new roster dwell start =
     (if roster = [] \<or> dwell \<le> 0 then None
      else Some \<lparr>rr_roster = roster, rr_dwell = dwell, rr_index = 0, rr_since = start\<rparr>)"

definition rr_current :: "round_robin \<Rightarrow> string option" where
  "rr_current c = (if rr_index c < length (rr_roster c) then Some (rr_roster c ! rr_index c) else None)"

definition usize_mod :: "int \<Rightarrow> nat \<Rightarrow> nat" where
  "usize_mod steps len = (if steps < 0 then 0 else nat steps) mod max len 1"

definition rr_tick :: "media_time \<Rightarrow> round_robin \<Rightarrow> string \<times> round_robin" where
  "rr_tick now c =
     (let dwell_ns = max (rr_dwell c) 1;
          elapsed = max (sat_sub 64 now (rr_since c)) 0;
          steps = elapsed sdiv dwell_ns;
          c' = (if steps > 0 then
                  let len = max (length (rr_roster c)) 1;
                      advance = usize_mod steps len;
                      consumed = sat_mul 64 steps dwell_ns
                  in c\<lparr>rr_index := (rr_index c + advance) mod len,
                       rr_since := sat_add 64 (rr_since c) consumed\<rparr>
                else c)
      in (case rr_current c' of Some s \<Rightarrow> s | None \<Rightarrow> '''', c'))"

section \<open>Reference stills\<close>

record freeze_tile =
  ft_still :: "string option"
  frozen_at :: media_time

definition freeze_live :: freeze_tile where
  "freeze_live = \<lparr>ft_still = None, frozen_at = 0\<rparr>"

definition is_frozen :: "freeze_tile \<Rightarrow> bool" where
  "is_frozen f \<longleftrightarrow> ft_still f \<noteq> None"

definition freeze :: "string \<Rightarrow> media_time \<Rightarrow> freeze_tile \<Rightarrow> freeze_tile" where
  "freeze s now f = f\<lparr>ft_still := Some s, frozen_at := now\<rparr>"

definition thaw :: "freeze_tile \<Rightarrow> bool \<times> freeze_tile" where
  "thaw f = (if ft_still f \<noteq> None then (True, f\<lparr>ft_still := None, frozen_at := 0\<rparr>) else (False, f))"

text \<open>Thawing returns to the live tile whatever was frozen, and only a frozen tile thaws.\<close>

lemma thaw_freeze: "thaw (freeze s now f) = (True, freeze_live)"
  by (cases f) (simp add: thaw_def freeze_def freeze_live_def)

section \<open>Replay\<close>

definition rr_valid :: "round_robin \<Rightarrow> bool" where
  "rr_valid c \<longleftrightarrow> 0 < rr_dwell c \<and> rr_index c < length (rr_roster c)"

lemma rr_new_valid: "rr_new r d s = Some c \<Longrightarrow> rr_valid c"
  by (auto simp: rr_new_def rr_valid_def split: if_splits)

definition rr_rotate :: "round_robin \<Rightarrow> round_robin" where
  "rr_rotate c = c\<lparr>rr_index := (rr_index c + 1) mod length (rr_roster c), rr_since := rr_since c + rr_dwell c\<rparr>"

function rr_replay :: "media_time \<Rightarrow> round_robin \<Rightarrow> round_robin" where
  "rr_replay now c = (if 0 < rr_dwell c \<and> rr_since c + rr_dwell c \<le> now then rr_replay now (rr_rotate c) else c)"
  by pat_completeness auto
termination
  by (relation "measure (\<lambda>(now, c). nat (now - rr_since c))") (auto simp: rr_rotate_def)

declare rr_replay.simps [simp del]

lemma rr_rotate_valid: "rr_valid c \<Longrightarrow> rr_valid (rr_rotate c)"
  by (auto simp: rr_valid_def rr_rotate_def intro!: mod_less_divisor)

lemma rr_replay_valid: "rr_valid c \<Longrightarrow> rr_valid (rr_replay now c)"
proof (induction now c rule: rr_replay.induct)
  case (1 now c)
  then show ?case
    by (subst rr_replay.simps) (simp add: rr_rotate_valid)
qed

text \<open>The replay in closed form.\<close>

lemma rr_replay_closed:
  assumes "rr_valid c" and "rr_since c \<le> now"
  shows "rr_replay now c =
    c\<lparr>rr_index := (rr_index c + nat ((now - rr_since c) div rr_dwell c)) mod length (rr_roster c),
      rr_since := rr_since c + (now - rr_since c) div rr_dwell c * rr_dwell c\<rparr>"
  using assms
proof (induction now c rule: rr_replay.induct)
  case (1 now c)
  let ?d = "rr_dwell c" and ?e = "now - rr_since c"
  have d: "0 < ?d" using "1.prems" by (simp add: rr_valid_def)
  show ?case
  proof (cases "rr_since c + ?d \<le> now")
    case True
    have "(?e - ?d) div ?d = ?e div ?d - 1" using div_add_self2 [of ?d "?e - ?d"] d by simp
    moreover have "1 \<le> ?e div ?d" using True d by (simp add: pos_imp_zdiv_pos_iff int_one_le_iff_zero_less)
    ultimately have q: "nat (?e div ?d) = Suc (nat ((?e - ?d) div ?d))" "?e div ?d = (?e - ?d) div ?d + 1" by simp_all
    have "rr_replay now c = rr_replay now (rr_rotate c)"
      using True d by (subst rr_replay.simps) simp
    also have "\<dots> = c\<lparr>rr_index := ((rr_index c + 1) mod length (rr_roster c) + nat ((?e - ?d) div ?d)) mod length (rr_roster c),
        rr_since := rr_since c + ?d + (?e - ?d) div ?d * ?d\<rparr>"
      using "1.IH" True d rr_rotate_valid [OF "1.prems"(1)]
      by (simp add: rr_rotate_def diff_diff_eq)
    finally show ?thesis by (subst q(1), subst q(2)) (simp add: mod_simps algebra_simps)
  next
    case False
    with "1.prems" d have "?e div ?d = 0" by simp
    with False "1.prems" show ?thesis
      by (subst rr_replay.simps) (simp add: rr_valid_def)
  qed
qed

lemma rr_tick_replays:
  assumes "rr_valid c" and "in_i 64 now" and "in_i 64 (rr_since c)" and "in_i 64 (now - rr_since c)"
  shows "snd (rr_tick now c) = rr_replay now c"
proof -
  have d: "0 < rr_dwell c" "max (rr_dwell c) 1 = rr_dwell c" and l: "0 < length (rr_roster c)"
    "max (length (rr_roster c)) 1 = length (rr_roster c)"
    using assms(1) by (auto simp: rr_valid_def)
  show ?thesis
  proof (cases "rr_since c \<le> now")
    case False
    then have "rr_replay now c = c" using d by (subst rr_replay.simps) simp
    moreover have "max (sat_sub 64 now (rr_since c)) 0 = 0" using False assms(4) by (simp add: sat_sub_def)
    ultimately show ?thesis by (simp add: rr_tick_def)
  next
    case True
    let ?e = "now - rr_since c" and ?d = "rr_dwell c"
    have e: "max (sat_sub 64 now (rr_since c)) 0 = ?e" using True assms(4) by (simp add: sat_sub_def)
    have s: "?e sdiv ?d = ?e div ?d" using True d by (simp add: sdiv_nonneg)
    have q: "0 \<le> ?e div ?d" using True d by (simp add: pos_imp_zdiv_nonneg_iff)
    have "?e div ?d * ?d \<le> ?e" using d by (simp add: minus_mod_eq_div_mult [symmetric])
    moreover have "0 \<le> ?e div ?d * ?d" using q d by simp
    ultimately have "in_i 64 (?e div ?d * ?d)" "in_i 64 (rr_since c + ?e div ?d * ?d)"
      using assms(2-4) True by (simp_all add: in_i_def i_simps)
    then have "sat_mul 64 (?e div ?d) ?d = ?e div ?d * ?d" "sat_add 64 (rr_since c) (?e div ?d * ?d) = rr_since c + ?e div ?d * ?d"
      by (simp_all add: sat_mul_def sat_add_def)
    then have "snd (rr_tick now c) = (if 0 < ?e div ?d then
        c\<lparr>rr_index := (rr_index c + nat (?e div ?d)) mod length (rr_roster c), rr_since := rr_since c + ?e div ?d * ?d\<rparr> else c)"
      using q by (simp add: rr_tick_def d l l(2) [simplified] e s usize_mod_def Let_def mod_simps)
    also have "\<dots> = rr_replay now c"
      using q assms(1) by (auto simp: rr_replay_closed [OF assms(1) True] rr_valid_def)
    finally show ?thesis .
  qed
qed

lemma rr_replay_since:
  assumes "rr_valid c" and "rr_since c \<le> now"
  shows "rr_since c \<le> rr_since (rr_replay now c) \<and> rr_since (rr_replay now c) \<le> now \<and> now < rr_since (rr_replay now c) + rr_dwell c"
proof -
  have d: "0 < rr_dwell c" using assms(1) by (simp add: rr_valid_def)
  have "(now - rr_since c) div rr_dwell c * rr_dwell c + (now - rr_since c) mod rr_dwell c = now - rr_since c" by simp
  moreover have "0 \<le> (now - rr_since c) mod rr_dwell c" "(now - rr_since c) mod rr_dwell c < rr_dwell c"
    using d by simp_all
  moreover have "0 \<le> (now - rr_since c) div rr_dwell c * rr_dwell c"
    using assms(2) d by (simp add: pos_imp_zdiv_nonneg_iff)
  ultimately show ?thesis unfolding rr_replay_closed [OF assms] by (simp, linarith)
qed

lemma rr_replay_replay:
  assumes "t \<le> now"
  shows "rr_replay now (rr_replay t c) = rr_replay now c"
  using assms
proof (induction t c rule: rr_replay.induct)
  case (1 t c)
  show ?case
  proof (cases "0 < rr_dwell c \<and> rr_since c + rr_dwell c \<le> t")
    case True
    then have "rr_replay t c = rr_replay t (rr_rotate c)" by (subst rr_replay.simps) simp
    moreover have "rr_replay now c = rr_replay now (rr_rotate c)"
      using True "1.prems" by (subst rr_replay.simps) simp
    ultimately show ?thesis using 1 True by simp
  next
    case False
    then have "rr_replay t c = c" by (subst rr_replay.simps) auto
    then show ?thesis by simp
  qed
qed

text \<open>A coarse tick equals the ticks it skipped. On a valid cycler the computed catch-up is the
  one-window-at-a-time replay; any ticks in between, even ones that run backwards, leave the same
  state; and the source shown is the one whose dwell window contains the instant.\<close>

theorem round_robin_catch_up:
  assumes "rr_valid c" and "in_i 64 (rr_since c)" and "rr_since c \<le> now" and "in_i 64 now"
    and "in_i 64 (now - rr_since c)" and "\<forall>t \<in> set ts. rr_since c \<le> t \<and> t \<le> now"
  shows "snd (rr_tick now c) = rr_replay now c \<and>
    snd (rr_tick now (fold (\<lambda>t. snd \<circ> rr_tick t) ts c)) = snd (rr_tick now c) \<and>
    fst (rr_tick now c) = rr_roster c ! ((rr_index c + nat ((now - rr_since c) div rr_dwell c)) mod length (rr_roster c)) \<and>
    now < rr_since (snd (rr_tick now c)) + rr_dwell c \<and> rr_since (snd (rr_tick now c)) \<le> now"
proof -
  have tick: "snd (rr_tick now c) = rr_replay now c" by (rule rr_tick_replays [OF assms(1,4,2,5)])
  have run: "snd (rr_tick now (fold (\<lambda>t. snd \<circ> rr_tick t) ts d)) = rr_replay now d"
    if "rr_valid d" "rr_since c \<le> rr_since d" "rr_since d \<le> now" "\<forall>t \<in> set ts. rr_since c \<le> t \<and> t \<le> now" for d
    using that
  proof (induction ts arbitrary: d)
    case Nil
    then have "in_i 64 (rr_since d)" "in_i 64 (now - rr_since d)"
      using assms by (auto simp: in_i_def i_simps)
    with Nil assms(4) show ?case by (simp add: rr_tick_replays)
  next
    case (Cons t ts)
    have "in_i 64 t" "in_i 64 (rr_since d)" "in_i 64 (t - rr_since d)"
      using Cons.prems assms by (auto simp: in_i_def i_simps)
    then have t: "snd (rr_tick t d) = rr_replay t d" using Cons.prems(1) by (intro rr_tick_replays)
    have "rr_since d \<le> rr_since (rr_replay t d) \<and> rr_since (rr_replay t d) \<le> now"
    proof (cases "rr_since d \<le> t")
      case True
      with rr_replay_since [OF Cons.prems(1) True] Cons.prems(4) show ?thesis by auto
    next
      case False
      then have "rr_replay t d = d" using Cons.prems(1) by (subst rr_replay.simps) (simp add: rr_valid_def)
      with Cons.prems show ?thesis by simp
    qed
    with Cons.IH [of "rr_replay t d"] rr_replay_valid [OF Cons.prems(1)] Cons.prems t rr_replay_replay
    show ?case by simp
  qed
  have "fst (rr_tick now c) = (case rr_current (snd (rr_tick now c)) of Some s \<Rightarrow> s | None \<Rightarrow> '''')"
    by (simp add: rr_tick_def Let_def)
  moreover have "0 < length (rr_roster c)" using assms(1) by (auto simp: rr_valid_def)
  ultimately have "fst (rr_tick now c) = rr_roster c ! ((rr_index c + nat ((now - rr_since c) div rr_dwell c)) mod length (rr_roster c))"
    by (simp add: tick rr_replay_closed [OF assms(1,3)] rr_current_def)
  with tick run [OF assms(1)] assms(3,6) rr_replay_since [OF assms(1,3)] show ?thesis by simp
qed

theorem round_robin_catch_up_witness:
  "fst (rr_tick 35 \<lparr>rr_roster = [''a'', ''b'', ''c''], rr_dwell = 10, rr_index = 1, rr_since = 0\<rparr>) = ''b'' \<and>
   rr_since (snd (rr_tick 35 (snd (rr_tick 12 \<lparr>rr_roster = [''a'', ''b'', ''c''], rr_dwell = 10, rr_index = 1, rr_since = 0\<rparr>)))) = 30"
proof -
  let ?c = "\<lparr>rr_roster = [''a'', ''b'', ''c''], rr_dwell = 10, rr_index = 1, rr_since = 0\<rparr>"
  have "rr_valid ?c" "in_i 64 (rr_since ?c)" "rr_since ?c \<le> 35" "in_i 64 35" "in_i 64 (35 - rr_since ?c)"
    "\<forall>t \<in> set [12]. rr_since ?c \<le> t \<and> t \<le> 35"
    by (simp_all add: rr_valid_def in_i_def i_simps)
  note * = round_robin_catch_up [OF this]
  have "rr_replay 35 ?c = ?c\<lparr>rr_index := 1, rr_since := 30\<rparr>"
    by (subst rr_replay_closed) (simp_all add: rr_valid_def)
  with * show ?thesis by simp
qed

end
