(* ===== verification/Byte_Buffer.thy ===== *)
theory Byte_Buffer
  imports Prelude
begin

unbundle bit_operations_syntax

text \<open>
  Byte slices and big-endian fields, shared by the parsers and encoders of the wire formats. A
  \<open>u8\<close> is an \<open>8 word\<close>, a \<open>u16\<close> a \<open>16 word\<close>, a \<open>u32\<close> a \<open>32 word\<close>; a slice is a list.
  \<open>slice a b xs\<close> is Rust's \<open>xs.get(a..b)\<close>, \<open>byte_at\<close> is \<open>xs.get(i)\<close>.
\<close>

type_synonym byte = "8 word"
type_synonym bytes = "byte list"

definition byte_at :: "'a list \<Rightarrow> nat \<Rightarrow> 'a option" where
  "byte_at xs i = (if i < length xs then Some (xs ! i) else None)"

definition slice :: "nat \<Rightarrow> nat \<Rightarrow> 'a list \<Rightarrow> 'a list option" where
  "slice a b xs = (if a \<le> b \<and> b \<le> length xs then Some (take (b - a) (drop a xs)) else None)"

definition be16 :: "byte \<Rightarrow> byte \<Rightarrow> 16 word" where
  "be16 hi lo = push_bit 8 (ucast hi) OR ucast lo"

definition be32 :: "byte \<Rightarrow> byte \<Rightarrow> byte \<Rightarrow> byte \<Rightarrow> 32 word" where
  "be32 b0 b1 b2 b3 = push_bit 24 (ucast b0) OR push_bit 16 (ucast b1) OR push_bit 8 (ucast b2) OR ucast b3"

definition put16 :: "16 word \<Rightarrow> bytes" where
  "put16 w = [ucast (drop_bit 8 w), ucast w]"

definition put32 :: "32 word \<Rightarrow> bytes" where
  "put32 w = [ucast (drop_bit 24 w), ucast (drop_bit 16 w), ucast (drop_bit 8 w), ucast w]"

lemma byte_at_append [simp]: "i < length xs \<Longrightarrow> byte_at (xs @ ys) i = byte_at xs i"
  by (simp add: byte_at_def nth_append)

lemma byte_at_Cons_0 [simp]: "byte_at (x # xs) 0 = Some x"
  by (simp add: byte_at_def)

lemma byte_at_Cons_Suc [simp]: "byte_at (x # xs) (Suc i) = byte_at xs i"
  by (simp add: byte_at_def)

lemma byte_at_Nil [simp]: "byte_at [] i = None"
  by (simp add: byte_at_def)

lemma byte_at_numeral [simp]: "byte_at (x # xs) (numeral n) = byte_at xs (pred_numeral n)"
  by (simp add: numeral_eq_Suc)

lemma byte_at_Some: "byte_at xs i = Some x \<longleftrightarrow> i < length xs \<and> x = xs ! i"
  by (auto simp: byte_at_def)

lemma byte_at_None: "byte_at xs i = None \<longleftrightarrow> length xs \<le> i"
  by (auto simp: byte_at_def)

lemma slice_Some_length: "slice a b xs = Some ys \<Longrightarrow> length ys = b - a \<and> a \<le> b \<and> b \<le> length xs"
  by (auto simp: slice_def split: if_splits)

lemma slice_None: "slice a b xs = None \<longleftrightarrow> b < a \<or> length xs < b"
  by (auto simp: slice_def)

lemma slice_all [simp]: "slice 0 (length xs) xs = Some xs"
  by (simp add: slice_def)

lemma slice_middle: "slice (length xs) (length xs + length ys) (xs @ ys @ zs) = Some ys"
  by (simp add: slice_def)

lemma be16_put16: "put16 w = [a, b] \<Longrightarrow> be16 a b = w"
  by (auto simp: put16_def be16_def intro!: bit_word_eqI) (auto simp: bit_simps)

lemma be16_inj: "be16 a b = be16 c d \<longleftrightarrow> a = c \<and> b = d"
proof
  assume eq: "be16 a b = be16 c d"
  have "bit a n = bit c n \<and> bit b n = bit d n" if "n < 8" for n
  proof -
    from eq have "bit (be16 a b) (n + 8) = bit (be16 c d) (n + 8)" "bit (be16 a b) n = bit (be16 c d) n"
      by simp_all
    with that show ?thesis by (auto simp: be16_def bit_simps dest: bit_imp_le_length)
  qed
  then show "a = c \<and> b = d" by (auto intro!: bit_word_eqI)
qed simp

lemma put16_be16 [simp]: "put16 (be16 a b) = [a, b]"
  by (auto simp: put16_def be16_def intro!: bit_word_eqI) (auto simp: bit_simps dest: bit_imp_le_length)

lemma be32_put32:
  assumes "put32 w = [a, b, c, d]"
  shows "be32 a b c d = w"
proof (rule bit_word_eqI)
  fix n assume "n < LENGTH(32)"
  then consider "n < 8" | "8 \<le> n" "n < 16" | "16 \<le> n" "n < 24" | "24 \<le> n" "n < 32" by fastforce
  then show "bit (be32 a b c d) n = bit w n"
    using assms by cases (auto simp: put32_def be32_def bit_simps)
qed

lemma put32_be32 [simp]: "put32 (be32 a b c d) = [a, b, c, d]"
  by (auto simp: put32_def be32_def intro!: bit_word_eqI) (auto simp: bit_simps dest: bit_imp_le_length)

lemma length_put16 [simp]: "length (put16 w) = 2"
  by (simp add: put16_def)

lemma length_put32 [simp]: "length (put32 w) = 4"
  by (simp add: put32_def)

lemma byte_bound [simp]: "unat (b :: byte) < 256"
proof -
  have "unat b < 2 ^ LENGTH(8)" by (rule unsigned_less)
  then show ?thesis by simp
qed

lemma unat_ucast_byte [simp]: "unat (ucast (b :: byte) :: 16 word) = unat b"
  "unat (ucast (b :: byte) :: 32 word) = unat b"
proof -
  have "unat b < 2 ^ 16" "unat b < 2 ^ 32" by (rule less_trans [OF byte_bound], simp)+
  then show "unat (ucast (b :: byte) :: 16 word) = unat b" "unat (ucast (b :: byte) :: 32 word) = unat b"
    by (simp_all add: unsigned_ucast_eq take_bit_nat_eq_self)
qed

lemma unat_be16: "unat (be16 a b) = unat a * 256 + unat b"
proof -
  have "be16 a b = push_bit 8 (ucast a) + ucast b"
    unfolding be16_def by (rule disjunctive_add [symmetric]) (auto simp: bit_simps dest: bit_imp_le_length)
  moreover have "unat a * 256 + unat b < 65536"
    using byte_bound [of a] byte_bound [of b] by linarith
  ultimately show ?thesis by (simp add: unat_word_ariths push_bit_eq_mult)
qed

text \<open>Twelve-bit lengths: the low nibble of one byte and the whole of the next.\<close>

definition len12 :: "byte \<Rightarrow> byte \<Rightarrow> nat" where
  "len12 hi lo = push_bit 8 (unat (hi AND 0x0F)) OR unat lo"

definition hi12 :: "nat \<Rightarrow> byte" where
  "hi12 n = word_of_nat (n div 256)"

definition lo8 :: "nat \<Rightarrow> byte" where
  "lo8 n = word_of_nat n"

lemma nat_bit_bound: "(b :: nat) < 2 ^ m \<Longrightarrow> bit b n \<Longrightarrow> n < m"
proof (rule ccontr)
  assume b: "b < 2 ^ m" "bit b n" and "\<not> n < m"
  then have "(2::nat) ^ m \<le> 2 ^ n" by (intro power_increasing) simp_all
  with b(1) have "b < 2 ^ n" by (rule less_le_trans)
  then have "b div 2 ^ n = 0" by simp
  with b(2) show False by (simp add: bit_iff_odd)
qed

lemma or_disjoint_nat: "b < 256 \<Longrightarrow> push_bit 8 a OR b = a * 256 + (b :: nat)"
proof -
  assume b: "b < 256"
  have "\<not> (bit (push_bit 8 a) n \<and> bit b n)" for n
    using nat_bit_bound [of b 8 n] b by (auto simp: bit_push_bit_iff_nat)
  then have "push_bit 8 a OR b = push_bit 8 a + b" by (metis disjunctive_add)
  then show ?thesis by (simp add: push_bit_eq_mult)
qed

lemma len12_value: "len12 hi lo = unat (hi AND 0x0F) * 256 + unat lo"
  by (simp add: len12_def or_disjoint_nat)

lemma unat_and_0F: "unat ((b :: byte) AND 0x0F) = unat b mod 16"
proof -
  have "(0x0F :: byte) = mask 4" by (simp add: mask_eq_exp_minus_1)
  then have "b AND 0x0F = take_bit 4 b" by (simp add: take_bit_eq_mask)
  moreover have "unat (take_bit 4 b) = take_bit 4 (unat b)" by (rule unsigned_take_bit_eq)
  ultimately show ?thesis by (simp add: take_bit_eq_mod [of 4 "unat b"])
qed

lemma unat_lo8: "unat (lo8 n) = n mod 256"
  by (simp add: lo8_def unat_of_nat)

lemma len12_le: "len12 hi lo \<le> 4095"
  using byte_bound [of lo] mod_less_divisor [of 16 "unat hi", simplified]
  unfolding len12_value unat_and_0F by linarith

text \<open>Writing the length under reserved high bits \<open>r\<close> and reading it back.\<close>

lemma hi12_bits: "n < 4096 \<Longrightarrow> bit (hi12 n) k \<Longrightarrow> k < 4"
  using nat_bit_bound [of "n div 256" 4 k] by (simp add: hi12_def bit_of_nat_iff)

lemma len12_hi12:
  assumes "n < 4096" and "r AND 0x0F = 0"
  shows "len12 (r OR hi12 n) (lo8 n) = n"
proof -
  have "(r OR hi12 n) AND 0x0F = hi12 n"
  proof -
    have "(r OR hi12 n) AND 0x0F = (r AND 0x0F) OR (hi12 n AND 0x0F)"
      by (simp add: bit_eq_iff bit_simps) blast
    moreover have "hi12 n AND 0x0F = hi12 n"
    proof -
      have "(0x0F :: byte) = mask 4" by (simp add: mask_eq_exp_minus_1)
      then show ?thesis using hi12_bits [OF assms(1)] by (auto simp: bit_eq_iff bit_simps)
    qed
    ultimately show ?thesis by (simp add: assms(2))
  qed
  moreover have "unat (hi12 n) = n div 256" using assms(1) by (simp add: hi12_def unat_of_nat)
  ultimately show ?thesis by (simp add: len12_value unat_lo8)
qed

declare bit_numeral_word_iff [simp del]

text \<open>The masks of the formats, bit by bit.\<close>

lemma bit_masks [bit_simps]: "bit (0x80 :: byte) n \<longleftrightarrow> n = 7" "bit (0x40 :: byte) n \<longleftrightarrow> n = 6"
  "bit (0xC0 :: byte) n \<longleftrightarrow> n = 6 \<or> n = 7" "bit (0xB0 :: byte) n \<longleftrightarrow> n = 4 \<or> n = 5 \<or> n = 7"
  "bit (0x1F :: byte) n \<longleftrightarrow> n < 5" "bit (0x01 :: byte) n \<longleftrightarrow> n = 0" "bit (0x0F :: byte) n \<longleftrightarrow> n < 4"
proof -
  have m: "(0x80 :: byte) = push_bit 7 1" "(0x40 :: byte) = push_bit 6 1" "(0x1F :: byte) = mask 5" "(0x0F :: byte) = mask 4"
    "(0xC0 :: byte) = 0x40 OR 0x80" "(0xB0 :: byte) = (push_bit 4 1 OR push_bit 5 1) OR 0x80"
    by (simp_all add: push_bit_eq_mult mask_eq_exp_minus_1)
  show b80: "bit (0x80 :: byte) n \<longleftrightarrow> n = 7"
    by (subst m(1), subst bit_push_bit_iff) (auto simp: bit_1_iff)
  show b40: "bit (0x40 :: byte) n \<longleftrightarrow> n = 6"
    by (subst m(2), subst bit_push_bit_iff) (auto simp: bit_1_iff)
  show "bit (0x1F :: byte) n \<longleftrightarrow> n < 5" by (subst m(3), subst bit_mask_iff) auto
  show "bit (0x0F :: byte) n \<longleftrightarrow> n < 4" by (subst m(4), subst bit_mask_iff) auto
  show "bit (0x01 :: byte) n \<longleftrightarrow> n = 0" by (auto simp: bit_1_iff)
  show "bit (0xC0 :: byte) n \<longleftrightarrow> n = 6 \<or> n = 7"
    by (subst m(5), simp only: bit_or_iff b80 b40)
  show "bit (0xB0 :: byte) n \<longleftrightarrow> n = 4 \<or> n = 5 \<or> n = 7"
    by (subst m(6), simp only: bit_or_iff b80 bit_push_bit_iff) (auto simp: bit_1_iff)
qed

section \<open>Errors as values\<close>

text \<open>\<open>ok_or\<close> and the \<open>?\<close> operator.\<close>

definition ok_or :: "'e \<Rightarrow> 'a option \<Rightarrow> 'e + 'a" where
  "ok_or e x = (case x of Some y \<Rightarrow> Inr y | None \<Rightarrow> Inl e)"

definition and_then :: "'e + 'a \<Rightarrow> ('a \<Rightarrow> 'e + 'b) \<Rightarrow> 'e + 'b" where
  "and_then r f = (case r of Inl e \<Rightarrow> Inl e | Inr x \<Rightarrow> f x)"

lemma ok_or_simps [simp]: "ok_or e (Some x) = Inr x" "ok_or e None = Inl e"
  by (simp_all add: ok_or_def)

lemma and_then_simps [simp]: "and_then (Inr x) f = f x" "and_then (Inl e) f = Inl e"
  by (simp_all add: and_then_def)

lemma ok_or_Inr [simp]: "ok_or e x = Inr y \<longleftrightarrow> x = Some y"
  by (cases x) simp_all

lemma and_then_Inr: "and_then r f = Inr y \<longleftrightarrow> (\<exists>x. r = Inr x \<and> f x = Inr y)"
  by (cases r) simp_all

section \<open>Loops over entries\<close>

text \<open>The parsers walk a slice entry by entry: \<open>while offset < body.len()\<close>, each entry giving a value
  and the offset after it. The test for progress makes the recursion total; it never fails, because
  every entry parser advances (the law \<open>entry_sound\<close> below).\<close>

function parse_loop :: "('b list \<Rightarrow> nat \<Rightarrow> 'e + 'a \<times> nat) \<Rightarrow> 'b list \<Rightarrow> nat \<Rightarrow> 'e + 'a list" where
  "parse_loop entry body off =
     (if off < length body then
        (case entry body off of
           Inl e \<Rightarrow> Inl e
         | Inr (x, next) \<Rightarrow>
             if off < next then (case parse_loop entry body next of Inl e \<Rightarrow> Inl e | Inr xs \<Rightarrow> Inr (x # xs))
             else Inr [x])
      else Inr [])"
  by pat_completeness auto
termination
  by (relation "measure (\<lambda>(entry, body, off). length body - off)") auto

declare parse_loop.simps [simp del]

text \<open>What an entry parser promises: it reads back what the matching writer wrote, wherever it stands
  in the slice, and it advances within the slice.\<close>

locale wire_entry =
  fixes entry :: "'b list \<Rightarrow> nat \<Rightarrow> 'e + 'a \<times> nat"
    and enc :: "'a \<Rightarrow> 'b list"
    and fits :: "'a \<Rightarrow> bool"
  assumes entry_enc: "fits x \<Longrightarrow> entry (pre @ enc x @ post) (length pre) = Inr (x, length pre + length (enc x))"
    and entry_sound: "entry body off = Inr (x, n) \<Longrightarrow> off < n \<and> n \<le> length body"
begin

lemma enc_nonempty: "fits x \<Longrightarrow> 0 < length (enc x)"
  using entry_sound [OF entry_enc [of x "[]" "[]"]] by simp

lemma parse_loop_step:
  "off < length body \<Longrightarrow> parse_loop entry body off =
     and_then (entry body off) (\<lambda>(x, n). and_then (parse_loop entry body n) (\<lambda>xs. Inr (x # xs)))"
  by (subst parse_loop.simps) (auto simp: and_then_def split: sum.split dest: entry_sound)

lemma parse_loop_end: "length body \<le> off \<Longrightarrow> parse_loop entry body off = Inr []"
  by (subst parse_loop.simps) simp

lemma parse_loop_enc:
  "\<forall>x \<in> set xs. fits x \<Longrightarrow> parse_loop entry (pre @ concat (map enc xs)) (length pre) = Inr xs"
proof (induction xs arbitrary: pre)
  case (Cons x xs)
  then have "entry (pre @ enc x @ concat (map enc xs)) (length pre) = Inr (x, length pre + length (enc x))"
    by (intro entry_enc) simp
  moreover have "parse_loop entry ((pre @ enc x) @ concat (map enc xs)) (length (pre @ enc x)) = Inr xs"
    using Cons.prems by (intro Cons.IH) simp
  ultimately show ?case
    using Cons.prems enc_nonempty [of x] by (subst parse_loop_step) simp_all
qed (simp add: parse_loop_end)

end

end
