(* ===== verification/Crc_Mpeg.thy ===== *)
theory Crc_Mpeg
  imports Byte_Buffer
begin

unbundle bit_operations_syntax

text \<open>
  CRC-32/MPEG-2, \<open>multiview-input/src/mpegts/crc.rs\<close>, and the shared error type of the section
  parsers, \<open>mpegts/mod.rs\<close>. The code runs a 256-entry table; the lemmas compare it with the
  bit-serial division of the standard, and show the self-check and the detection of bursts.
\<close>

section \<open>Errors\<close>

datatype ts_error =
    TooShort nat nat
  | SyntaxError
  | CrcMismatch "32 word" "32 word"
  | WrongTable byte byte
  | Overrun nat nat
  | BadDateTime

section \<open>The table and the running register\<close>

definition POLYNOMIAL :: "32 word" where
  "POLYNOMIAL = 0x04C11DB7"

definition CRC_INIT :: "32 word" where
  "CRC_INIT = 0xFFFFFFFF"

definition crc_shift :: "32 word \<Rightarrow> 32 word" where
  "crc_shift crc = (if crc AND 0x80000000 \<noteq> 0 then push_bit 1 crc XOR POLYNOMIAL else push_bit 1 crc)"

definition table_entry :: "nat \<Rightarrow> 32 word" where
  "table_entry i = (crc_shift ^^ 8) (push_bit 24 (word_of_nat i))"

definition build_table :: "32 word list" where
  "build_table = map table_entry [0 ..< 256]"

definition crc_step :: "byte \<Rightarrow> 32 word \<Rightarrow> 32 word" where
  "crc_step b crc =
     (let top = (ucast (drop_bit 24 crc AND 0xFF) :: byte);
          index = unat (top XOR b);
          entry = (case byte_at build_table index of Some e \<Rightarrow> e | None \<Rightarrow> 0)
      in push_bit 8 crc XOR entry)"

definition crc32_mpeg2 :: "bytes \<Rightarrow> 32 word" where
  "crc32_mpeg2 bs = fold crc_step bs CRC_INIT"

definition read_be_u32 :: "bytes \<Rightarrow> ts_error + 32 word" where
  "read_be_u32 bs =
     (case byte_at bs 0 of None \<Rightarrow> Inl (TooShort 4 0) | Some b0 \<Rightarrow>
      case byte_at bs 1 of None \<Rightarrow> Inl (TooShort 4 1) | Some b1 \<Rightarrow>
      case byte_at bs 2 of None \<Rightarrow> Inl (TooShort 4 2) | Some b2 \<Rightarrow>
      case byte_at bs 3 of None \<Rightarrow> Inl (TooShort 4 3) | Some b3 \<Rightarrow>
      Inr (be32 b0 b1 b2 b3))"

definition crc_validate :: "bytes \<Rightarrow> ts_error + unit" where
  "crc_validate s =
     (if length s < 4 then Inl (TooShort 4 (length s))
      else
        let body_len = length s - 4
        in case slice 0 body_len s of None \<Rightarrow> Inl (TooShort 4 (length s)) | Some body \<Rightarrow>
           case slice body_len (length s) s of None \<Rightarrow> Inl (TooShort 4 (length s)) | Some crc_bytes \<Rightarrow>
           case read_be_u32 crc_bytes of Inl e \<Rightarrow> Inl e | Inr carried \<Rightarrow>
             let computed = crc32_mpeg2 body
             in if carried = computed then Inr () else Inl (CrcMismatch carried computed))"

section \<open>The bit-serial register is linear and injective\<close>

lemma bit_msb: "bit (0x80000000 :: 32 word) n \<longleftrightarrow> n = 31"
proof -
  have "(0x80000000 :: 32 word) = push_bit 31 1" by (simp add: push_bit_eq_mult)
  then show ?thesis by (simp only: bit_push_bit_iff) (auto simp: bit_1_iff)
qed

lemma msb_bit: "(crc :: 32 word) AND 0x80000000 \<noteq> 0 \<longleftrightarrow> bit crc 31"
proof -
  have "crc AND 0x80000000 \<noteq> 0 \<longleftrightarrow> (\<exists>n. bit (crc AND 0x80000000) n)"
    by (metis bit_eq_iff bit_0_eq bot_apply bot_bool_def)
  then show ?thesis by (simp only: bit_and_iff bit_msb) blast
qed

lemma crc_shift_bit: "crc_shift c = (if bit c 31 then push_bit 1 c XOR POLYNOMIAL else push_bit 1 c)"
  by (simp only: crc_shift_def msb_bit)

lemma crc_shift_xor: "crc_shift (a XOR b) = crc_shift a XOR crc_shift b"
  by (auto simp: crc_shift_bit bit_xor_iff push_bit_xor ac_simps xor.left_commute)

lemma crc_shift_0: "crc_shift 0 = 0"
  by (simp add: crc_shift_bit)

lemma poly_odd: "bit POLYNOMIAL 0"
  by (simp add: POLYNOMIAL_def bit_0)

lemma crc_shift_eq_0: "crc_shift c = 0 \<Longrightarrow> c = 0"
proof (rule ccontr)
  assume z: "crc_shift c = 0" and "c \<noteq> 0"
  show False
  proof (cases "bit c 31")
    case True
    with z have "bit (push_bit 1 c XOR POLYNOMIAL) 0 = bit (0 :: 32 word) 0" by (simp add: crc_shift_bit)
    then have "bit (push_bit 1 c) 0 \<noteq> bit POLYNOMIAL 0 \<longleftrightarrow> bit (0 :: 32 word) 0" by (simp only: bit_xor_iff)
    with poly_odd show False by (simp add: bit_push_bit_iff del: push_bit_Suc push_bit_0_id)
  next
    case False
    from \<open>c \<noteq> 0\<close> obtain n where n: "bit c n" by (auto simp: bit_eq_iff)
    then have "n < 32" "n \<noteq> 31" using False by (auto dest: bit_imp_le_length)
    then have "bit (push_bit 1 c) (Suc n)" using n by (simp only: bit_push_bit_iff) simp
    with z False show False by (simp add: crc_shift_bit)
  qed
qed

lemma crc_shifts_xor: "(crc_shift ^^ n) (a XOR b) = (crc_shift ^^ n) a XOR (crc_shift ^^ n) b"
  by (induction n) (simp_all add: crc_shift_xor)

lemma crc_shifts_0 [simp]: "(crc_shift ^^ n) 0 = 0"
  by (induction n) (simp_all add: crc_shift_0)

lemma crc_shifts_eq_0: "(crc_shift ^^ n) c = 0 \<Longrightarrow> c = 0"
  by (induction n) (auto dest: crc_shift_eq_0)

text \<open>While no bit falls off the top, shifting is just shifting.\<close>

lemma crc_shifts_small:
  "n \<le> k \<Longrightarrow> k \<le> 32 \<Longrightarrow> (\<And>i. bit c i \<Longrightarrow> i < 32 - k) \<Longrightarrow> (crc_shift ^^ n) c = push_bit n c"
proof (induction n)
  case (Suc n)
  then have "(crc_shift ^^ n) c = push_bit n c" by simp
  moreover have "\<not> bit (push_bit n c) 31"
    using Suc.prems(1,2) Suc.prems(3) [of "31 - n"] by (auto simp: bit_simps)
  ultimately show ?case by (simp add: crc_shift_bit [of "push_bit n c"] push_bit_push_bit)
qed simp

section \<open>The table is eight serial steps\<close>

definition serial_byte :: "byte \<Rightarrow> 32 word \<Rightarrow> 32 word" where
  "serial_byte b crc = (crc_shift ^^ 8) (crc XOR push_bit 24 (ucast b))"

lemma crc_step_serial: "crc_step b crc = serial_byte b crc"
proof -
  let ?top = "ucast (drop_bit 24 crc) :: byte"
  have top: "(ucast (drop_bit 24 crc AND 0xFF) :: byte) = ?top"
  proof -
    have "(0xFF :: 32 word) = mask 8" by (simp add: mask_eq_exp_minus_1)
    then show ?thesis by (auto simp: bit_eq_iff bit_simps)
  qed
  have idx: "byte_at build_table (unat (?top XOR b)) = Some (table_entry (unat (?top XOR b)))"
    by (simp add: byte_at_def build_table_def)
  have entry: "table_entry (unat (?top XOR b)) = (crc_shift ^^ 8) (push_bit 24 (ucast (?top XOR b)))"
  proof -
    have "(word_of_nat (unat (?top XOR b)) :: 32 word) = ucast (?top XOR b)" by simp
    then show ?thesis by (simp only: table_entry_def)
  qed
  have split: "crc XOR push_bit 24 (ucast b) = take_bit 24 crc XOR push_bit 24 (ucast (?top XOR b))"
    by (rule bit_word_eqI) (auto simp: bit_simps)
  have low: "(crc_shift ^^ 8) (take_bit 24 crc) = push_bit 8 crc"
  proof -
    have "(crc_shift ^^ 8) (take_bit 24 crc) = push_bit 8 (take_bit 24 crc)"
      by (rule crc_shifts_small [of 8 8]) (auto simp: bit_simps)
    also have "\<dots> = push_bit 8 crc" by (rule bit_word_eqI) (auto simp: bit_simps)
    finally show ?thesis .
  qed
  show ?thesis
    by (simp only: crc_step_def serial_byte_def top Let_def idx option.case entry split crc_shifts_xor low)
qed

lemma fold_serial_xor: "length xs = length ys \<Longrightarrow>
  fold serial_byte (map2 (XOR) xs ys) (a XOR b) = fold serial_byte xs a XOR fold serial_byte ys b"
proof (induction xs ys arbitrary: a b rule: list_induct2)
  case (Cons x xs y ys)
  have "serial_byte (x XOR y) (a XOR b) = serial_byte x a XOR serial_byte y b"
  proof -
    have "push_bit 24 (ucast (x XOR y)) = (push_bit 24 (ucast x) XOR push_bit 24 (ucast y) :: 32 word)"
      by (rule bit_word_eqI) (auto simp: bit_simps)
    then show ?thesis
      by (simp only: serial_byte_def crc_shifts_xor [symmetric]) (simp only: ac_simps xor.left_commute)
  qed
  with Cons.IH show ?case by simp
qed simp

lemma serial_zeros: "fold serial_byte (replicate n 0) c = (crc_shift ^^ (8 * n)) c"
proof -
  have "serial_byte 0 = crc_shift ^^ 8" by (simp add: fun_eq_iff serial_byte_def)
  then show ?thesis by (simp add: funpow_mult mult.commute)
qed

text \<open>Four bytes are absorbed as one big-endian word.\<close>

lemma serial_four:
  "fold serial_byte [b0, b1, b2, b3] c = (crc_shift ^^ 32) (c XOR be32 b0 b1 b2 b3)"
proof -
  have sh: "(crc_shift ^^ n) (push_bit m (ucast (b :: byte)) :: 32 word) = push_bit (n + m) (ucast b)" if "n + m \<le> 24" for n m b
  proof -
    have "(crc_shift ^^ n) (push_bit m (ucast b) :: 32 word) = push_bit n (push_bit m (ucast b))"
      using that by (intro crc_shifts_small [of n n]) (auto simp: bit_simps dest!: bit_imp_le_length)
    then show ?thesis by (simp add: push_bit_push_bit)
  qed
  have "be32 b0 b1 b2 b3 = push_bit 24 (ucast b0) XOR push_bit 16 (ucast b1) XOR push_bit 8 (ucast b2) XOR ucast b3"
    unfolding be32_def by (rule bit_word_eqI) (auto simp: bit_simps dest: bit_imp_le_length)
  moreover have "fold serial_byte [b0, b1, b2, b3] c =
      (crc_shift ^^ 8) ((crc_shift ^^ 8) ((crc_shift ^^ 8) ((crc_shift ^^ 8)
        (c XOR push_bit 24 (ucast b0)) XOR (crc_shift ^^ 8) (push_bit 16 (ucast b1)))
        XOR (crc_shift ^^ 16) (push_bit 8 (ucast b2))) XOR (crc_shift ^^ 24) (ucast b3))"
    using sh [of 8 16 b1] sh [of 16 8 b2] sh [of 24 0 b3] by (simp add: serial_byte_def)
  ultimately show ?thesis
    by (simp add: crc_shifts_xor funpow_add [symmetric, THEN fun_cong, simplified] xor.assoc)
qed

section \<open>Self-check and burst detection\<close>

lemma crc32_serial: "crc32_mpeg2 bs = fold serial_byte bs CRC_INIT"
proof -
  have "crc_step = serial_byte" by (simp add: fun_eq_iff crc_step_serial)
  then show ?thesis by (simp add: crc32_mpeg2_def)
qed

lemma length_4: "length xs = 4 \<longleftrightarrow> (\<exists>a b c d. xs = [a, b, c, d])"
  by (auto simp: numeral_eq_Suc length_Suc_conv)

lemma take_drop_last4:
  assumes "4 \<le> length s"
  obtains b0 b1 b2 b3 where "s = take (length s - 4) s @ [b0, b1, b2, b3]"
proof -
  have "length (drop (length s - 4) s) = 4" using assms by simp
  then have "\<exists>b0 b1 b2 b3. drop (length s - 4) s = [b0, b1, b2, b3]" by (simp only: length_4)
  then obtain b0 b1 b2 b3 where "drop (length s - 4) s = [b0, b1, b2, b3]" by blast
  with that show thesis by (metis append_take_drop_id)
qed

lemma crc_append: "crc32_mpeg2 (body @ [b0, b1, b2, b3]) = 0 \<longleftrightarrow> be32 b0 b1 b2 b3 = crc32_mpeg2 body"
proof -
  have "crc32_mpeg2 (body @ [b0, b1, b2, b3]) = (crc_shift ^^ 32) (crc32_mpeg2 body XOR be32 b0 b1 b2 b3)"
    by (simp add: crc32_serial serial_four del: fold_simps(2) fold.simps(2))
  moreover have "(crc_shift ^^ 32) w = 0 \<longleftrightarrow> w = 0" for w
    by (metis crc_shifts_eq_0 crc_shifts_0)
  moreover have "a XOR b = 0 \<longleftrightarrow> b = a" for a b :: "32 word"
    by (metis xor_self_eq xor.left_neutral xor.assoc)
  ultimately show ?thesis by simp
qed

lemma crc_validate_append:
  "crc_validate (body @ [b0, b1, b2, b3]) =
     (if be32 b0 b1 b2 b3 = crc32_mpeg2 body then Inr ()
      else Inl (CrcMismatch (be32 b0 b1 b2 b3) (crc32_mpeg2 body)))"
  by (simp add: crc_validate_def slice_def read_be_u32_def Let_def)

lemma crc_validate_iff:
  assumes "4 \<le> length s"
  shows "crc_validate s = Inr () \<longleftrightarrow> crc32_mpeg2 s = 0"
proof -
  from take_drop_last4 [OF assms] obtain b0 b1 b2 b3 where
    s: "s = take (length s - 4) s @ [b0, b1, b2, b3]" .
  show ?thesis
    by (subst s, subst (3) s) (simp only: crc_validate_append crc_append, simp)
qed

text \<open>Bytes that differ in a window of four consecutive positions have different registers.\<close>

lemma crc_window:
  assumes "length u = length v" and "length v = 4" and "crc32_mpeg2 (p @ u @ q) = crc32_mpeg2 (p @ v @ q)"
  shows "u = v"
proof -
  define r where "r = fold serial_byte p CRC_INIT"
  have "fold serial_byte (map2 (XOR) (u @ q) (v @ q)) (r XOR r) =
      fold serial_byte (u @ q) r XOR fold serial_byte (v @ q) r"
    using assms by (intro fold_serial_xor) simp
  also have "\<dots> = 0" using assms(3) by (simp add: crc32_serial r_def)
  finally have z: "fold serial_byte (map2 (XOR) u v @ replicate (length q) 0) 0 = 0"
  proof -
    assume a: "fold serial_byte (map2 (XOR) (u @ q) (v @ q)) (r XOR r) = 0"
    have "map2 (XOR) q q = replicate (length q) (0 :: byte)" by (induction q) simp_all
    with a assms(1) show ?thesis by simp
  qed
  obtain u0 u1 u2 u3 where u: "u = [u0, u1, u2, u3]"
    using assms(1,2) by (auto simp: length_4)
  obtain v0 v1 v2 v3 where v: "v = [v0, v1, v2, v3]"
    using assms(2) by (auto simp: length_4)
  have "fold serial_byte (map2 (XOR) u v) 0 = 0"
    using z crc_shifts_eq_0 unfolding fold_append comp_def serial_zeros by blast
  then have "(crc_shift ^^ 32) (be32 (u0 XOR v0) (u1 XOR v1) (u2 XOR v2) (u3 XOR v3)) = 0"
    using serial_four [of "u0 XOR v0" "u1 XOR v1" "u2 XOR v2" "u3 XOR v3" 0] by (simp add: u v del: fold.simps(2) fold_simps(2))
  then have "be32 (u0 XOR v0) (u1 XOR v1) (u2 XOR v2) (u3 XOR v3) = be32 0 0 0 0"
    using crc_shifts_eq_0 by (simp add: be32_def)
  then have "put32 (be32 (u0 XOR v0) (u1 XOR v1) (u2 XOR v2) (u3 XOR v3)) = put32 (be32 0 0 0 0)" by simp
  then have "u0 XOR v0 = 0" "u1 XOR v1 = 0" "u2 XOR v2 = 0" "u3 XOR v3 = 0" by simp_all
  moreover have "a XOR b = 0 \<Longrightarrow> a = b" for a b :: byte
    by (metis xor_self_eq xor.left_neutral xor.assoc)
  ultimately show ?thesis by (simp add: u v)
qed

text \<open>C31: The table-driven CRC is the standard's, and it protects sections. For every byte string the
  register equals the bit-serial division by the generator polynomial; validation accepts exactly
  the sections whose own CRC over all their bytes is zero; and two accepted sections of equal length
  that differ only within four consecutive bytes are equal, so every such burst is detected.\<close>

theorem crc_table_correct:
  "crc32_mpeg2 bs = fold serial_byte bs CRC_INIT \<and>
   (4 \<le> length s \<longrightarrow> (crc_validate s = Inr () \<longleftrightarrow> crc32_mpeg2 s = 0)) \<and>
   (length u = 4 \<and> length v = 4 \<and> crc_validate (p @ u @ q) = Inr () \<and> crc_validate (p @ v @ q) = Inr ()
      \<longrightarrow> u = v)"
proof (intro conjI impI)
  show "u = v" if "length u = 4 \<and> length v = 4 \<and> crc_validate (p @ u @ q) = Inr () \<and> crc_validate (p @ v @ q) = Inr ()"
    using that crc_validate_iff [of "p @ u @ q"] crc_validate_iff [of "p @ v @ q"] by (intro crc_window [of u v p q]) simp_all
qed (simp_all add: crc32_serial crc_validate_iff)

text \<open>The witness validates a five-byte section, whose register is computed serially.\<close>

lemma crc_shift_8: "(crc_shift ^^ 8) c =
  crc_shift (crc_shift (crc_shift (crc_shift (crc_shift (crc_shift (crc_shift (crc_shift c)))))))"
  by (simp add: numeral_eq_Suc)

theorem crc_table_correct_witness:
  "crc32_mpeg2 [0x00, 0x4E, 0x08, 0xBF, 0xB4] = 0 \<and> crc_validate [0x00, 0x4E, 0x08, 0xBF, 0xB4] = Inr ()"
proof -
  have "fold serial_byte [0x00] CRC_INIT = 0x4E08BFB4"
    by (simp add: serial_byte_def crc_shift_8 crc_shift_def CRC_INIT_def POLYNOMIAL_def)
  with crc_table_correct [of "[0x00]" "[]" "[]" "[]" "[]" "[]"]
  have "crc32_mpeg2 [0x00] = 0x4E08BFB4" by simp
  moreover have "be32 0x4E 0x08 0xBF 0xB4 = 0x4E08BFB4" by (simp add: be32_def)
  ultimately have "crc_validate ([0x00] @ [0x4E, 0x08, 0xBF, 0xB4]) = Inr ()"
    by (simp only: crc_validate_append) simp
  with crc_table_correct [of "[]" "[0x00, 0x4E, 0x08, 0xBF, 0xB4]" "[]" "[]" "[]" "[]"] show ?thesis by simp
qed

end
