(* ===== verification/Psi_Section.thy ===== *)
theory Psi_Section
  imports Crc_Mpeg
begin

unbundle bit_operations_syntax

text \<open>
  The long-form section every MPEG-2 table rides in, \<open>multiview-input/src/mpegts/section.rs\<close>:
  header bits, the twelve-bit length, the CRC over the declared extent and the body between header
  and CRC. The lemmas give the exact set of accepted inputs, and the round trip with the layout of
  the standard (\<open>section_bytes\<close>).
\<close>

definition HEADER_PREFIX_LEN :: nat where "HEADER_PREFIX_LEN = 3"
definition LONG_HEADER_LEN :: nat where "LONG_HEADER_LEN = 5"
definition CRC_LEN :: nat where "CRC_LEN = 4"
definition MAX_SECTION_LENGTH :: nat where "MAX_SECTION_LENGTH = 0x0FFF"

lemmas section_consts = HEADER_PREFIX_LEN_def LONG_HEADER_LEN_def CRC_LEN_def MAX_SECTION_LENGTH_def

datatype table_id =
    ProgramAssociation | ConditionalAccess | ProgramMap | NetworkInformationActual
  | NetworkInformationOther | ServiceDescriptionActual | ServiceDescriptionOther
  | TimeDate | TimeOffset | SpliceInfo | OtherTable byte

definition table_id_from_byte :: "byte \<Rightarrow> table_id" where
  "table_id_from_byte b =
     (if b = 0x00 then ProgramAssociation
      else if b = 0x01 then ConditionalAccess
      else if b = 0x02 then ProgramMap
      else if b = 0x40 then NetworkInformationActual
      else if b = 0x41 then NetworkInformationOther
      else if b = 0x42 then ServiceDescriptionActual
      else if b = 0x46 then ServiceDescriptionOther
      else if b = 0x70 then TimeDate
      else if b = 0x73 then TimeOffset
      else if b = 0xFC then SpliceInfo
      else OtherTable b)"

fun table_id_to_byte :: "table_id \<Rightarrow> byte" where
  "table_id_to_byte ProgramAssociation = 0x00"
| "table_id_to_byte ConditionalAccess = 0x01"
| "table_id_to_byte ProgramMap = 0x02"
| "table_id_to_byte NetworkInformationActual = 0x40"
| "table_id_to_byte NetworkInformationOther = 0x41"
| "table_id_to_byte ServiceDescriptionActual = 0x42"
| "table_id_to_byte ServiceDescriptionOther = 0x46"
| "table_id_to_byte TimeDate = 0x70"
| "table_id_to_byte TimeOffset = 0x73"
| "table_id_to_byte SpliceInfo = 0xFC"
| "table_id_to_byte (OtherTable b) = b"

lemma table_id_roundtrip [simp]: "table_id_to_byte (table_id_from_byte b) = b"
  by (simp add: table_id_from_byte_def)

record section_header =
  sh_table_id :: table_id
  sh_extension :: "16 word"
  sh_version :: byte
  sh_current :: bool
  sh_number :: byte
  sh_last_number :: byte

record parsed_section =
  ps_header :: section_header
  ps_body :: bytes

definition section_parse :: "bytes \<Rightarrow> byte \<Rightarrow> ts_error + parsed_section" where
  "section_parse bs expected =
    (if length bs < HEADER_PREFIX_LEN then Inl (TooShort HEADER_PREFIX_LEN (length bs)) else
     and_then (ok_or (TooShort HEADER_PREFIX_LEN (length bs)) (byte_at bs 0)) (\<lambda>table_id_byte.
     if table_id_byte \<noteq> expected then Inl (WrongTable expected table_id_byte) else
     and_then (ok_or (TooShort HEADER_PREFIX_LEN (length bs)) (byte_at bs 1)) (\<lambda>b1.
     and_then (ok_or (TooShort HEADER_PREFIX_LEN (length bs)) (byte_at bs 2)) (\<lambda>b2.
     if b1 AND 0x80 = 0 then Inl SyntaxError else
     if b1 AND 0x40 \<noteq> 0 then Inl SyntaxError else
     let section_length = len12 b1 b2 in
     if section_length > MAX_SECTION_LENGTH then Inl SyntaxError else
     let total = HEADER_PREFIX_LEN + section_length in
     and_then (ok_or (TooShort total (length bs)) (slice 0 total bs)) (\<lambda>sec.
     and_then (crc_validate sec) (\<lambda>_.
     if section_length < LONG_HEADER_LEN + CRC_LEN then Inl (TooShort (LONG_HEADER_LEN + CRC_LEN) section_length) else
     and_then (ok_or (TooShort 4 (length sec)) (byte_at sec 3)) (\<lambda>tide_hi.
     and_then (ok_or (TooShort 5 (length sec)) (byte_at sec 4)) (\<lambda>tide_lo.
     and_then (ok_or (TooShort 6 (length sec)) (byte_at sec 5)) (\<lambda>version_byte.
     and_then (ok_or (TooShort 7 (length sec)) (byte_at sec 6)) (\<lambda>section_number.
     and_then (ok_or (TooShort 8 (length sec)) (byte_at sec 7)) (\<lambda>last_section_number.
     let body_start = HEADER_PREFIX_LEN + LONG_HEADER_LEN; body_end = total - CRC_LEN in
     and_then (ok_or (Overrun body_start total) (slice body_start body_end sec)) (\<lambda>body.
     Inr \<lparr>ps_header = \<lparr>sh_table_id = table_id_from_byte table_id_byte, sh_extension = be16 tide_hi tide_lo,
            sh_version = drop_bit 1 version_byte AND 0x1F, sh_current = (version_byte AND 0x01 \<noteq> 0),
            sh_number = section_number, sh_last_number = last_section_number\<rparr>,
          ps_body = body\<rparr>))))))))))))"

section \<open>What is accepted\<close>

text \<open>A section is accepted exactly when the table id and the two fixed bits are right, the declared
  extent fits the buffer, holds a long header and a CRC, and checks to zero.\<close>

definition well_formed_section :: "bytes \<Rightarrow> byte \<Rightarrow> bool" where
  "well_formed_section bs expected \<longleftrightarrow>
     3 \<le> length bs \<and> bs ! 0 = expected \<and> bs ! 1 AND 0x80 \<noteq> 0 \<and> bs ! 1 AND 0x40 = 0 \<and>
     9 \<le> len12 (bs ! 1) (bs ! 2) \<and> 3 + len12 (bs ! 1) (bs ! 2) \<le> length bs \<and>
     crc32_mpeg2 (take (3 + len12 (bs ! 1) (bs ! 2)) bs) = 0"

definition section_content :: "bytes \<Rightarrow> parsed_section" where
  "section_content bs =
     \<lparr>ps_header = \<lparr>sh_table_id = table_id_from_byte (bs ! 0), sh_extension = be16 (bs ! 3) (bs ! 4),
        sh_version = drop_bit 1 (bs ! 5) AND 0x1F, sh_current = (bs ! 5 AND 0x01 \<noteq> 0),
        sh_number = bs ! 6, sh_last_number = bs ! 7\<rparr>,
      ps_body = take (len12 (bs ! 1) (bs ! 2) - 9) (drop 8 bs)\<rparr>"

lemma crc_validate_Inr: "crc_validate s = Inr u \<longleftrightarrow> crc_validate s = Inr ()"
  by simp

lemma section_parse_accepts:
  "section_parse bs expected =
     (if well_formed_section bs expected then Inr (section_content bs) else section_parse bs expected)"
proof (cases "well_formed_section bs expected")
  case True
  define n where "n = len12 (bs ! 1) (bs ! 2)"
  then have n: "len12 (bs ! Suc 0) (bs ! 2) = n" "len12 (bs ! 1) (bs ! 2) = n" by simp_all
  from True have l: "3 \<le> length bs" "bs ! 0 = expected" "bs ! 1 AND 0x80 \<noteq> 0" "bs ! 1 AND 0x40 = 0"
    "9 \<le> n" "3 + n \<le> length bs" "crc32_mpeg2 (take (3 + n) bs) = 0"
    by (simp_all add: well_formed_section_def n)
  have v: "crc_validate (take (3 + n) bs) = Inr ()"
    using l crc_validate_iff [of "take (3 + n) bs"] by simp
  have at: "byte_at bs i = Some (bs ! i)" if "i < 8" for i
    using that l by (simp add: byte_at_def)
  have at': "byte_at (take (3 + n) bs) i = Some (bs ! i)" if "i < 8" for i
    using that l by (simp add: byte_at_def)
  have sl: "slice 0 (3 + n) bs = Some (take (3 + n) bs)" using l by (simp add: slice_def)
  have e8: "8 \<le> n - Suc 0" "n - Suc 0 \<le> 3 + n" using l(5) by linarith+
  have body: "slice 8 (n - Suc 0) (take (3 + n) bs) = Some (take (n - 9) (drop 8 bs))"
    using l e8 by (simp add: slice_def drop_take)
  have "section_parse bs expected = Inr (section_content bs)"
    using l by (simp add: section_parse_def section_consts at at' sl v body section_content_def Let_def not_less n e8 len12_le [of "bs ! 1" "bs ! 2", unfolded n])
  with True show ?thesis by simp
qed simp

lemma section_parse_Inr: "section_parse bs expected = Inr p \<Longrightarrow> well_formed_section bs expected"
  by (auto simp: section_parse_def section_consts and_then_Inr Let_def well_formed_section_def byte_at_Some
      slice_def crc_validate_iff not_less split: if_splits)

section \<open>Writing a section\<close>

text \<open>The layout of ISO/IEC 13818-1: the reference the parser is measured against.\<close>

definition version_byte :: "byte \<Rightarrow> bool \<Rightarrow> byte" where
  "version_byte version current = 0xC0 OR push_bit 1 version OR of_bool current"

definition section_front :: "section_header \<Rightarrow> bytes \<Rightarrow> bytes" where
  "section_front h body =
     [table_id_to_byte (sh_table_id h), 0xB0 OR hi12 (9 + length body), lo8 (9 + length body)] @
     put16 (sh_extension h) @
     [version_byte (sh_version h) (sh_current h), sh_number h, sh_last_number h] @ body"

definition section_bytes :: "section_header \<Rightarrow> bytes \<Rightarrow> bytes" where
  "section_bytes h body = section_front h body @ put32 (crc32_mpeg2 (section_front h body))"

definition header_fits :: "section_header \<Rightarrow> bool" where
  "header_fits h \<longleftrightarrow> sh_version h AND 0x1F = sh_version h \<and>
     table_id_from_byte (table_id_to_byte (sh_table_id h)) = sh_table_id h"

text \<open>Reading a written section back.\<close>

lemma version_byte_bits:
  "v AND 0x1F = v \<Longrightarrow> drop_bit 1 (version_byte v c) AND 0x1F = v"
  "version_byte v c AND 0x01 \<noteq> 0 \<longleftrightarrow> c"
proof -
  assume v: "v AND 0x1F = v"
  have b: "bit v n \<Longrightarrow> n < 5" for n
    using arg_cong [OF v, of "\<lambda>w. bit w n"] by (simp add: bit_and_iff bit_masks)
  show "drop_bit 1 (version_byte v c) AND 0x1F = v"
    by (rule bit_word_eqI, simp only: version_byte_def bit_and_iff bit_drop_bit_eq bit_or_iff bit_push_bit_iff
          bit_masks o_apply bit_of_bool_iff) (auto dest: b)
next
  show "version_byte v c AND 0x01 \<noteq> 0 \<longleftrightarrow> c"
  proof -
    have "bit (version_byte v c) 0 \<longleftrightarrow> c" by (simp only: version_byte_def bit_or_iff bit_masks bit_push_bit_iff) simp
    then show ?thesis by (simp add: and_one_eq bit_0 odd_iff_mod_2_eq_one)
  qed
qed

lemma reserved_len:
  assumes "n < 4096"
  shows "len12 (0xB0 OR hi12 n) (lo8 n) = n" "(0xB0 OR hi12 n) AND 0x80 \<noteq> 0" "(0xB0 OR hi12 n) AND 0x40 = 0"
proof -
  show "len12 (0xB0 OR hi12 n) (lo8 n) = n" using assms by (intro len12_hi12) simp_all
  have "bit ((0xB0 OR hi12 n) AND 0x80) 7" by (simp only: bit_and_iff bit_or_iff bit_masks) simp
  then show "(0xB0 OR hi12 n) AND 0x80 \<noteq> 0" by auto
  show "(0xB0 OR hi12 n) AND 0x40 = 0"
    by (rule bit_word_eqI) (auto simp: bit_simps dest: hi12_bits [OF assms])
qed

lemma section_bytes_well_formed:
  assumes "length body \<le> 4086" and "header_fits h"
  shows "well_formed_section (section_bytes h body @ rest) (table_id_to_byte (sh_table_id h))"
    and "section_content (section_bytes h body @ rest) = \<lparr>ps_header = h, ps_body = body\<rparr>"
proof -
  let ?n = "9 + length body" and ?s = "section_bytes h body"
  obtain e1 e2 where e: "put16 (sh_extension h) = [e1, e2]" by (simp add: put16_def)
  obtain c0 c1 c2 c3 where c: "put32 (crc32_mpeg2 (section_front h body)) = [c0, c1, c2, c3]" by (simp add: put32_def)
  have s: "?s @ rest = table_id_to_byte (sh_table_id h) # (0xB0 OR hi12 ?n) # lo8 ?n # e1 # e2 #
      version_byte (sh_version h) (sh_current h) # sh_number h # sh_last_number h # body @ [c0, c1, c2, c3] @ rest"
    by (simp add: section_bytes_def c) (simp add: section_front_def e)
  have len: "length ?s = 3 + ?n" by (simp add: section_bytes_def section_front_def)
  have crc: "crc32_mpeg2 ?s = 0"
    using be32_put32 [OF c] unfolding section_bytes_def c crc_append .
  have n: "?n < 4096" using assms(1) by simp
  note r = reserved_len [OF n]
  have "len12 ((?s @ rest) ! 1) ((?s @ rest) ! 2) = ?n" using r(1) by (simp add: s)
  then have t: "take (3 + len12 ((?s @ rest) ! 1) ((?s @ rest) ! 2)) (?s @ rest) = ?s" using len by simp
  show "well_formed_section (?s @ rest) (table_id_to_byte (sh_table_id h))"
    unfolding well_formed_section_def t using r crc by (simp add: s)
  have eta: "\<lparr>sh_table_id = sh_table_id h, sh_extension = sh_extension h, sh_version = sh_version h,
      sh_current = sh_current h, sh_number = sh_number h, sh_last_number = sh_last_number h\<rparr> = h" by simp
  show "section_content (?s @ rest) = \<lparr>ps_header = h, ps_body = body\<rparr>"
    using r(1) assms(2) be16_put16 [OF e] version_byte_bits(1) [simplified]
    by (simp add: section_content_def s version_byte_bits(2) header_fits_def eta)
qed

lemma section_parse_bytes:
  assumes "length body \<le> 4086" and "header_fits h"
  shows "section_parse (section_bytes h body @ rest) (table_id_to_byte (sh_table_id h)) =
    Inr \<lparr>ps_header = h, ps_body = body\<rparr>"
  using section_bytes_well_formed [OF assms, of rest] section_parse_accepts by metis

text \<open>C30: Sections are accepted exactly when they are intact, and decoded exactly. Parsing succeeds if
  and only if the table id and fixed bits are right, the declared length holds a long header and CRC
  and lies within the buffer, and the CRC over exactly that extent is zero; the result is the fields
  of that extent. Every section written in the standard's layout is accepted, with its header and
  body unchanged, whatever follows it in the buffer.\<close>

theorem section_accepts_exactly:
  "(section_parse bs tid = Inr p \<longleftrightarrow> well_formed_section bs tid \<and> p = section_content bs) \<and>
   (length body \<le> 4086 \<and> header_fits h \<longrightarrow>
      section_parse (section_bytes h body @ rest) (table_id_to_byte (sh_table_id h)) = Inr \<lparr>ps_header = h, ps_body = body\<rparr>)"
proof (intro conjI impI)
  show "section_parse bs tid = Inr p \<longleftrightarrow> well_formed_section bs tid \<and> p = section_content bs"
    using section_parse_Inr [of bs tid p] section_parse_accepts [of bs tid] by (auto split: if_splits)
qed (simp add: section_parse_bytes)

theorem section_accepts_exactly_witness:
  "section_parse (section_bytes \<lparr>sh_table_id = ProgramMap, sh_extension = 7, sh_version = 3, sh_current = True,
      sh_number = 0, sh_last_number = 1\<rparr> [0xAB] @ [1, 2]) 0x02 =
   Inr \<lparr>ps_header = \<lparr>sh_table_id = ProgramMap, sh_extension = 7, sh_version = 3, sh_current = True,
      sh_number = 0, sh_last_number = 1\<rparr>, ps_body = [0xAB]\<rparr>"
proof -
  let ?h = "\<lparr>sh_table_id = ProgramMap, sh_extension = 7, sh_version = 3, sh_current = True,
      sh_number = 0, sh_last_number = 1\<rparr> :: section_header"
  have "header_fits ?h" by (simp add: header_fits_def table_id_from_byte_def)
  with section_accepts_exactly [of "[]" 0 undefined "[0xAB]" ?h "[1, 2]"] show ?thesis by simp
qed

end
