(* ===== verification/Psi_Tables.thy ===== *)
theory Psi_Tables
  imports Psi_Section
begin

unbundle bit_operations_syntax

text \<open>
  The tables carried in long-form sections, \<open>multiview-input/src/mpegts\<close>: descriptor loops
  (\<open>descriptor.rs\<close>), the program association and map tables (\<open>pat.rs\<close>, \<open>pmt.rs\<close>), the conditional
  access, network and service tables (\<open>cat.rs\<close>, \<open>nit.rs\<close>, \<open>sdt.rs\<close>), and the choice of the PIDs to
  demultiplex (\<open>selection.rs\<close>). Each loop is \<open>parse_loop\<close> of an entry parser; \<open>wire_entry\<close> is
  interpreted on every one of them with the writer of the standard's layout.
\<close>

section \<open>Descriptor loops\<close>

record ts_descriptor =
  td_tag :: byte
  td_data :: bytes

definition MAX_DESCRIPTORS :: nat where "MAX_DESCRIPTORS = 4096"

definition descriptor_entry :: "bytes \<Rightarrow> nat \<Rightarrow> ts_error + ts_descriptor \<times> nat" where
  "descriptor_entry bs off =
     and_then (ok_or (Overrun (off + 1) (length bs)) (byte_at bs off)) (\<lambda>tag.
     let len_index = off + 1 in
     and_then (ok_or (Overrun (len_index + 1) (length bs)) (byte_at bs len_index)) (\<lambda>len.
     let data_start = len_index + 1; data_end = data_start + unat len in
     and_then (ok_or (Overrun data_end (length bs)) (slice data_start data_end bs)) (\<lambda>data.
     Inr (\<lparr>td_tag = tag, td_data = data\<rparr>, data_end))))"

definition descriptor_bytes :: "ts_descriptor \<Rightarrow> bytes" where
  "descriptor_bytes d = td_tag d # word_of_nat (length (td_data d)) # td_data d"

definition descriptor_fits :: "ts_descriptor \<Rightarrow> bool" where
  "descriptor_fits d \<longleftrightarrow> length (td_data d) < 256"

interpretation desc: wire_entry descriptor_entry descriptor_bytes descriptor_fits
proof
  fix d :: ts_descriptor and pre post :: bytes
  assume "descriptor_fits d"
  then have "unat (word_of_nat (length (td_data d)) :: byte) = length (td_data d)"
    by (simp add: descriptor_fits_def unat_of_nat)
  then show "descriptor_entry (pre @ descriptor_bytes d @ post) (length pre) =
      Inr (d, length pre + length (descriptor_bytes d))"
    by (simp add: descriptor_entry_def descriptor_bytes_def byte_at_def nth_append slice_def Let_def)
next
  fix bs :: bytes and off n d
  assume "descriptor_entry bs off = Inr (d, n)"
  then show "off < n \<and> n \<le> length bs"
    by (auto simp: descriptor_entry_def and_then_Inr Let_def dest!: slice_Some_length)
qed

text \<open>The loop counts its items against a cap; the lemma below shows the cap is out of reach.\<close>

function descriptors_loop :: "bytes \<Rightarrow> nat \<Rightarrow> nat \<Rightarrow> ts_error + ts_descriptor list" where
  "descriptors_loop bs off items =
     (if off < length bs then
        (if items \<ge> MAX_DESCRIPTORS then Inl (Overrun items MAX_DESCRIPTORS)
         else
           (case descriptor_entry bs off of
              Inl e \<Rightarrow> Inl e
            | Inr (d, next) \<Rightarrow>
                (case descriptors_loop bs next (items + 1) of Inl e \<Rightarrow> Inl e | Inr ds \<Rightarrow> Inr (d # ds))))
      else Inr [])"
  by pat_completeness auto
termination
  by (relation "measure (\<lambda>(bs, off, items). length bs - off)") (auto dest: desc.entry_sound)

declare descriptors_loop.simps [simp del]

definition descriptors_parse :: "bytes \<Rightarrow> ts_error + ts_descriptor list" where
  "descriptors_parse bs = descriptors_loop bs 0 0"

definition descriptor_find :: "byte \<Rightarrow> ts_descriptor list \<Rightarrow> ts_descriptor option" where
  "descriptor_find tag ds = find (\<lambda>d. td_tag d = tag) ds"

lemma descriptor_entry_two: "descriptor_entry bs off = Inr (d, n) \<Longrightarrow> off + 2 \<le> n"
  by (auto simp: descriptor_entry_def and_then_Inr Let_def)

lemma descriptors_loop_uncapped:
  "2 * items + (length bs - off) \<le> 8191 \<Longrightarrow> descriptors_loop bs off items = parse_loop descriptor_entry bs off"
proof (induction bs off items rule: descriptors_loop.induct)
  case (1 bs off items)
  show ?case
  proof (cases "off < length bs")
    case True
    with "1.prems" have "\<not> MAX_DESCRIPTORS \<le> items" by (simp add: MAX_DESCRIPTORS_def)
    moreover have "descriptors_loop bs n (items + 1) = parse_loop descriptor_entry bs n"
      if "descriptor_entry bs off = Inr (d, n)" for d n
    proof -
      from descriptor_entry_two [OF that] desc.entry_sound [OF that] "1.prems"
      have "2 * (items + 1) + (length bs - n) \<le> 8191" by arith
      with "1.IH" [OF True calculation that refl] show ?thesis by simp
    qed
    ultimately show ?thesis
      using True by (subst descriptors_loop.simps, subst desc.parse_loop_step)
        (auto simp: and_then_def split: sum.split)
  next
    case False
    then show ?thesis by (subst descriptors_loop.simps) (simp add: desc.parse_loop_end)
  qed
qed

text \<open>A loop of at most 4095 bytes, which is all a twelve-bit length can declare, is parsed without the
  cap, and parsing loses nothing: the bytes are the concatenation of what was read.\<close>

lemma parse_loop_lossless:
  "parse_loop descriptor_entry bs off = Inr ds \<Longrightarrow> off \<le> length bs \<Longrightarrow>
     concat (map descriptor_bytes ds) = drop off bs \<and> (\<forall>d \<in> set ds. descriptor_fits d)"
proof (induction "length bs - off" arbitrary: off ds rule: less_induct)
  case less
  show ?case
  proof (cases "off < length bs")
    case True
    with less.prems obtain d n ds' where d: "descriptor_entry bs off = Inr (d, n)"
      and ds: "parse_loop descriptor_entry bs n = Inr ds'" "ds = d # ds'"
      by (auto simp: desc.parse_loop_step and_then_Inr)
    from d obtain len where l: "td_tag d = bs ! off" "len = bs ! Suc off" "Suc off < length bs"
      "n = off + 2 + unat len" "td_data d = take (unat len) (drop (off + 2) bs)" "n \<le> length bs"
      by (auto simp: descriptor_entry_def and_then_Inr Let_def byte_at_Some slice_def split: if_splits)
    have "length (td_data d) = unat len" using l by simp
    then have "descriptor_bytes d = take (2 + unat len) (drop off bs)"
      using l True by (simp add: descriptor_bytes_def Cons_nth_drop_Suc [symmetric] numeral_2_eq_2)
    moreover have "descriptor_fits d" using \<open>length (td_data d) = unat len\<close> by (simp add: descriptor_fits_def)
    moreover have "concat (map descriptor_bytes ds') = drop n bs \<and> (\<forall>d \<in> set ds'. descriptor_fits d)"
      using desc.entry_sound [OF d] ds(1) by (intro less.hyps) auto
    moreover have "drop n bs = drop (2 + unat len) (drop off bs)" using l(4) by (simp add: add_ac)
    ultimately have "concat (map descriptor_bytes ds) = take (2 + unat len) (drop off bs) @ drop (2 + unat len) (drop off bs)"
      "\<forall>d \<in> set ds. descriptor_fits d" unfolding ds(2) list.map concat.simps by simp_all
    then show ?thesis by (simp only: append_take_drop_id)
  next
    case False
    with less.prems show ?thesis by (simp add: desc.parse_loop_end)
  qed
qed

lemma descriptors_roundtrip:
  assumes "length bs \<le> 4095"
  shows "descriptors_parse bs = Inr ds \<longleftrightarrow>
    concat (map descriptor_bytes ds) = bs \<and> (\<forall>d \<in> set ds. descriptor_fits d)"
proof -
  have p: "descriptors_parse bs = parse_loop descriptor_entry bs 0"
    using assms by (simp add: descriptors_parse_def descriptors_loop_uncapped)
  show ?thesis
    using parse_loop_lossless [of bs 0 ds] desc.parse_loop_enc [of ds "[]"] by (auto simp: p)
qed

section \<open>Program association\<close>

record program_association =
  pa_program_number :: "16 word"
  pa_pid :: "16 word"

record pat =
  pat_transport_stream_id :: "16 word"
  pat_version :: byte
  pat_current :: bool
  pat_programs :: "program_association list"

definition ENTRY_LEN :: nat where "ENTRY_LEN = 4"

definition is_network :: "program_association \<Rightarrow> bool" where
  "is_network p \<longleftrightarrow> pa_program_number p = 0x0000"

definition pid13 :: "byte \<Rightarrow> byte \<Rightarrow> 16 word" where
  "pid13 hi lo = be16 (hi AND 0x1F) lo"

definition pat_entry :: "bytes \<Rightarrow> nat \<Rightarrow> ts_error + program_association \<times> nat" where
  "pat_entry body off =
     (let short = TooShort (off + ENTRY_LEN) off in
     and_then (ok_or short (byte_at body off)) (\<lambda>pn_hi.
     and_then (ok_or short (byte_at body (off + 1))) (\<lambda>pn_lo.
     and_then (ok_or short (byte_at body (off + 2))) (\<lambda>pid_hi.
     and_then (ok_or short (byte_at body (off + 3))) (\<lambda>pid_lo.
     Inr (\<lparr>pa_program_number = be16 pn_hi pn_lo, pa_pid = pid13 pid_hi pid_lo\<rparr>, off + ENTRY_LEN))))))"

definition pat_parse :: "bytes \<Rightarrow> ts_error + pat" where
  "pat_parse bs =
     and_then (section_parse bs 0x00) (\<lambda>parsed.
     let body = ps_body parsed in
     if length body mod ENTRY_LEN \<noteq> 0 then Inl (Overrun (length body) (length body - length body mod ENTRY_LEN)) else
     and_then (parse_loop pat_entry body 0) (\<lambda>programs.
     Inr \<lparr>pat_transport_stream_id = sh_extension (ps_header parsed), pat_version = sh_version (ps_header parsed),
          pat_current = sh_current (ps_header parsed), pat_programs = programs\<rparr>))"

definition pmt_pid :: "16 word \<Rightarrow> pat \<Rightarrow> 16 word option" where
  "pmt_pid n p = map_option pa_pid (find (\<lambda>a. pa_program_number a = n \<and> \<not> is_network a) (pat_programs p))"

definition network_pid :: "pat \<Rightarrow> 16 word option" where
  "network_pid p = map_option pa_pid (find is_network (pat_programs p))"

definition program_count :: "pat \<Rightarrow> nat" where
  "program_count p = length (filter (\<lambda>a. \<not> is_network a) (pat_programs p))"

text \<open>A PID under three reserved bits.\<close>

definition put_pid :: "16 word \<Rightarrow> bytes" where
  "put_pid w = (case put16 w of [hi, lo] \<Rightarrow> [0xE0 OR hi, lo])"

definition pid_fits :: "16 word \<Rightarrow> bool" where
  "pid_fits w \<longleftrightarrow> w AND 0x1FFF = w"

lemma put_pid_read:
  assumes "pid_fits w"
  obtains hi lo where "put_pid w = [hi, lo]" and "pid13 hi lo = w"
proof -
  obtain hi lo where p: "put16 w = [hi, lo]" by (simp add: put16_def)
  have m: "(0x1FFF :: 16 word) = mask 13" "(0xE0 :: byte) = push_bit 5 (mask 3)" "(0x1F :: byte) = mask 5"
    by (simp_all add: mask_eq_exp_minus_1 push_bit_eq_mult)
  have b: "n < 13" if "bit w n" for n
  proof -
    from that assms have "bit (w AND 0x1FFF) n" by (simp add: pid_fits_def)
    then show ?thesis by (simp only: m bit_and_iff bit_mask_iff)
  qed
  have "(0xE0 OR hi) AND 0x1F = hi"
  proof (rule bit_word_eqI)
    fix n assume "n < LENGTH(8)"
    have "bit hi n \<Longrightarrow> n < 5" using b [of "8 + n"] p by (auto simp: put16_def bit_simps)
    then show "bit ((0xE0 OR hi) AND 0x1F) n = bit hi n"
      by (simp only: m bit_and_iff bit_or_iff bit_push_bit_iff bit_mask_iff) auto
  qed
  then have "pid13 (0xE0 OR hi) lo = w" using be16_put16 [OF p] by (simp add: pid13_def)
  with p show thesis by (intro that) (simp_all add: put_pid_def)
qed

definition pat_entry_bytes :: "program_association \<Rightarrow> bytes" where
  "pat_entry_bytes a = put16 (pa_program_number a) @ put_pid (pa_pid a)"

definition pat_entry_fits :: "program_association \<Rightarrow> bool" where
  "pat_entry_fits a \<longleftrightarrow> pid_fits (pa_pid a)"

interpretation pat_loop: wire_entry pat_entry pat_entry_bytes pat_entry_fits
proof
  fix a :: program_association and pre post :: bytes
  assume "pat_entry_fits a"
  then obtain p1 p2 where p: "put_pid (pa_pid a) = [p1, p2]" "pid13 p1 p2 = pa_pid a"
    unfolding pat_entry_fits_def by (rule put_pid_read)
  obtain n1 n2 where n: "put16 (pa_program_number a) = [n1, n2]" by (simp add: put16_def)
  show "pat_entry (pre @ pat_entry_bytes a @ post) (length pre) = Inr (a, length pre + length (pat_entry_bytes a))"
    by (simp add: pat_entry_def pat_entry_bytes_def n p be16_put16 [OF n] byte_at_def nth_append ENTRY_LEN_def Let_def)
next
  fix body :: bytes and off n a
  assume "pat_entry body off = Inr (a, n)"
  then show "off < n \<and> n \<le> length body"
    by (auto simp: pat_entry_def and_then_Inr Let_def ENTRY_LEN_def byte_at_Some)
qed

lemma length_put_pid: "length (put_pid w) = 2"
  by (simp add: put_pid_def put16_def)

definition pat_header :: "pat \<Rightarrow> section_header" where
  "pat_header p = \<lparr>sh_table_id = ProgramAssociation, sh_extension = pat_transport_stream_id p,
     sh_version = pat_version p, sh_current = pat_current p, sh_number = 0, sh_last_number = 0\<rparr>"

definition pat_fits :: "pat \<Rightarrow> bool" where
  "pat_fits p \<longleftrightarrow> pat_version p AND 0x1F = pat_version p \<and> length (pat_programs p) \<le> 1021 \<and>
     (\<forall>a \<in> set (pat_programs p). pat_entry_fits a)"

definition pat_bytes :: "pat \<Rightarrow> bytes" where
  "pat_bytes p = section_bytes (pat_header p) (concat (map pat_entry_bytes (pat_programs p)))"

lemma length_pat_entries: "length (concat (map pat_entry_bytes as)) = 4 * length as"
  by (induction as) (simp_all add: pat_entry_bytes_def length_put_pid)

lemma pat_roundtrip: "pat_fits p \<Longrightarrow> pat_parse (pat_bytes p @ rest) = Inr p"
proof -
  assume fits: "pat_fits p"
  let ?body = "concat (map pat_entry_bytes (pat_programs p))"
  have l: "length ?body \<le> 4086" "length ?body mod 4 = 0" using fits by (simp_all add: length_pat_entries pat_fits_def)
  have h: "header_fits (pat_header p)" "table_id_to_byte (sh_table_id (pat_header p)) = 0"
    using fits by (simp_all add: header_fits_def pat_header_def pat_fits_def table_id_from_byte_def)
  from section_parse_bytes [OF l(1) h(1), of rest]
  have "section_parse (pat_bytes p @ rest) 0 = Inr \<lparr>ps_header = pat_header p, ps_body = ?body\<rparr>"
    by (simp add: pat_bytes_def h(2))
  moreover have "parse_loop pat_entry ?body 0 = Inr (pat_programs p)"
    using pat_loop.parse_loop_enc [of "pat_programs p" "[]"] fits by (simp add: pat_fits_def)
  ultimately show ?thesis using l(2) by (simp add: pat_parse_def pat_header_def ENTRY_LEN_def)
qed

section \<open>Program map\<close>

datatype stream_type =
    Mpeg1Video | Mpeg2Video | Mpeg1Audio | Mpeg2Audio | PrivateSections | PrivatePes | AdtsAac
  | LatmAac | Mpeg4Video | H264 | Hevc | Vvc | Smpte302mAudio | Ac3 | EAc3 | Scte35 | OtherStream byte

definition stream_type_from_byte :: "byte \<Rightarrow> stream_type" where
  "stream_type_from_byte b =
     (if b = 0x01 then Mpeg1Video
      else if b = 0x02 then Mpeg2Video
      else if b = 0x03 then Mpeg1Audio
      else if b = 0x04 then Mpeg2Audio
      else if b = 0x05 then PrivateSections
      else if b = 0x06 then PrivatePes
      else if b = 0x0F then AdtsAac
      else if b = 0x10 then Mpeg4Video
      else if b = 0x11 then LatmAac
      else if b = 0x1B then H264
      else if b = 0x24 then Hevc
      else if b = 0x33 then Vvc
      else if b = 0x81 then Ac3
      else if b = 0x82 then Smpte302mAudio
      else if b = 0x86 then Scte35
      else if b = 0x87 then EAc3
      else OtherStream b)"

fun stream_type_to_byte :: "stream_type \<Rightarrow> byte" where
  "stream_type_to_byte Mpeg1Video = 0x01"
| "stream_type_to_byte Mpeg2Video = 0x02"
| "stream_type_to_byte Mpeg1Audio = 0x03"
| "stream_type_to_byte Mpeg2Audio = 0x04"
| "stream_type_to_byte PrivateSections = 0x05"
| "stream_type_to_byte PrivatePes = 0x06"
| "stream_type_to_byte AdtsAac = 0x0F"
| "stream_type_to_byte Mpeg4Video = 0x10"
| "stream_type_to_byte LatmAac = 0x11"
| "stream_type_to_byte H264 = 0x1B"
| "stream_type_to_byte Hevc = 0x24"
| "stream_type_to_byte Vvc = 0x33"
| "stream_type_to_byte Ac3 = 0x81"
| "stream_type_to_byte Smpte302mAudio = 0x82"
| "stream_type_to_byte EAc3 = 0x87"
| "stream_type_to_byte Scte35 = 0x86"
| "stream_type_to_byte (OtherStream b) = b"

lemma stream_type_roundtrip: "stream_type_to_byte (stream_type_from_byte b) = b"
  by (simp add: stream_type_from_byte_def)

definition is_video :: "stream_type \<Rightarrow> bool" where
  "is_video t \<longleftrightarrow> t \<in> {Mpeg1Video, Mpeg2Video, Mpeg4Video, H264, Hevc, Vvc}"

definition is_audio :: "stream_type \<Rightarrow> bool" where
  "is_audio t \<longleftrightarrow> t \<in> {Mpeg1Audio, Mpeg2Audio, AdtsAac, LatmAac, Ac3, EAc3, Smpte302mAudio}"

record elementary_stream =
  es_type :: stream_type
  es_pid :: "16 word"
  es_descriptors :: bytes

record pmt =
  pmt_program_number :: "16 word"
  pmt_version :: byte
  pmt_current :: bool
  pmt_pcr_pid :: "16 word"
  pmt_program_info :: bytes
  pmt_streams :: "elementary_stream list"

definition PMT_FIXED_LEN :: nat where "PMT_FIXED_LEN = 4"
definition ES_HEADER_LEN :: nat where "ES_HEADER_LEN = 5"

definition pmt_entry :: "bytes \<Rightarrow> nat \<Rightarrow> ts_error + elementary_stream \<times> nat" where
  "pmt_entry body off =
     (let over = Overrun off (length body) in
     and_then (ok_or over (byte_at body off)) (\<lambda>st.
     and_then (ok_or over (byte_at body (off + 1))) (\<lambda>pid_hi.
     and_then (ok_or over (byte_at body (off + 2))) (\<lambda>pid_lo.
     and_then (ok_or over (byte_at body (off + 3))) (\<lambda>esil_hi.
     and_then (ok_or over (byte_at body (off + 4))) (\<lambda>esil_lo.
     let desc_start = off + ES_HEADER_LEN; desc_end = desc_start + len12 esil_hi esil_lo in
     and_then (ok_or (Overrun desc_end (length body)) (slice desc_start desc_end body)) (\<lambda>ds.
     Inr (\<lparr>es_type = stream_type_from_byte st, es_pid = pid13 pid_hi pid_lo, es_descriptors = ds\<rparr>, desc_end))))))))"

definition pmt_parse :: "bytes \<Rightarrow> ts_error + pmt" where
  "pmt_parse bs =
     and_then (section_parse bs 0x02) (\<lambda>parsed.
     let body = ps_body parsed in
     if length body < PMT_FIXED_LEN then Inl (TooShort PMT_FIXED_LEN (length body)) else
     and_then (ok_or (TooShort 1 0) (byte_at body 0)) (\<lambda>pcr_hi.
     and_then (ok_or (TooShort 2 1) (byte_at body 1)) (\<lambda>pcr_lo.
     and_then (ok_or (TooShort 3 2) (byte_at body 2)) (\<lambda>prog_info_hi.
     and_then (ok_or (TooShort 4 3) (byte_at body 3)) (\<lambda>prog_info_lo.
     let pi_start = PMT_FIXED_LEN; pi_end = pi_start + len12 prog_info_hi prog_info_lo in
     and_then (ok_or (Overrun pi_end (length body)) (slice pi_start pi_end body)) (\<lambda>info.
     and_then (parse_loop pmt_entry body pi_end) (\<lambda>streams.
     Inr \<lparr>pmt_program_number = sh_extension (ps_header parsed), pmt_version = sh_version (ps_header parsed),
          pmt_current = sh_current (ps_header parsed), pmt_pcr_pid = pid13 pcr_hi pcr_lo,
          pmt_program_info = info, pmt_streams = streams\<rparr>)))))))"

definition video_stream :: "pmt \<Rightarrow> elementary_stream option" where
  "video_stream p = find (\<lambda>s. is_video (es_type s)) (pmt_streams p)"

definition audio_streams :: "pmt \<Rightarrow> elementary_stream list" where
  "audio_streams p = filter (\<lambda>s. is_audio (es_type s)) (pmt_streams p)"

definition scte35_pids :: "pmt \<Rightarrow> 16 word list" where
  "scte35_pids p = map es_pid (filter (\<lambda>s. es_type s = Scte35) (pmt_streams p))"

text \<open>A twelve-bit length under four reserved bits, then the bytes it counts.\<close>

definition put_len :: "bytes \<Rightarrow> bytes" where
  "put_len xs = [0xF0 OR hi12 (length xs), lo8 (length xs)]"

lemma put_len_read: "length xs < 4096 \<Longrightarrow> len12 (0xF0 OR hi12 (length xs)) (lo8 (length xs)) = length xs"
  by (rule len12_hi12) simp_all

definition pmt_entry_bytes :: "elementary_stream \<Rightarrow> bytes" where
  "pmt_entry_bytes s = stream_type_to_byte (es_type s) # put_pid (es_pid s) @ put_len (es_descriptors s) @ es_descriptors s"

definition pmt_entry_fits :: "elementary_stream \<Rightarrow> bool" where
  "pmt_entry_fits s \<longleftrightarrow> pid_fits (es_pid s) \<and> length (es_descriptors s) < 4096 \<and>
     stream_type_from_byte (stream_type_to_byte (es_type s)) = es_type s"

interpretation pmt_loop: wire_entry pmt_entry pmt_entry_bytes pmt_entry_fits
proof
  fix s :: elementary_stream and pre post :: bytes
  assume fits: "pmt_entry_fits s"
  then obtain p1 p2 where p: "put_pid (es_pid s) = [p1, p2]" "pid13 p1 p2 = es_pid s"
    unfolding pmt_entry_fits_def by (elim conjE) (rule put_pid_read)
  have l: "len12 (0xF0 OR hi12 (length (es_descriptors s))) (lo8 (length (es_descriptors s))) = length (es_descriptors s)"
    using fits by (intro put_len_read) (simp add: pmt_entry_fits_def)
  show "pmt_entry (pre @ pmt_entry_bytes s @ post) (length pre) = Inr (s, length pre + length (pmt_entry_bytes s))"
    using fits l by (simp add: pmt_entry_def pmt_entry_bytes_def pmt_entry_fits_def put_len_def p byte_at_def nth_append
        slice_def ES_HEADER_LEN_def Let_def)
next
  fix body :: bytes and off n s
  assume "pmt_entry body off = Inr (s, n)"
  then show "off < n \<and> n \<le> length body"
    by (auto simp: pmt_entry_def and_then_Inr Let_def ES_HEADER_LEN_def dest!: slice_Some_length)
qed

definition pmt_header :: "pmt \<Rightarrow> section_header" where
  "pmt_header p = \<lparr>sh_table_id = ProgramMap, sh_extension = pmt_program_number p,
     sh_version = pmt_version p, sh_current = pmt_current p, sh_number = 0, sh_last_number = 0\<rparr>"

definition pmt_body :: "pmt \<Rightarrow> bytes" where
  "pmt_body p = put_pid (pmt_pcr_pid p) @ put_len (pmt_program_info p) @ pmt_program_info p @
     concat (map pmt_entry_bytes (pmt_streams p))"

definition pmt_fits :: "pmt \<Rightarrow> bool" where
  "pmt_fits p \<longleftrightarrow> pmt_version p AND 0x1F = pmt_version p \<and> pid_fits (pmt_pcr_pid p) \<and>
     length (pmt_body p) \<le> 4086 \<and> (\<forall>s \<in> set (pmt_streams p). pmt_entry_fits s)"

definition pmt_bytes :: "pmt \<Rightarrow> bytes" where
  "pmt_bytes p = section_bytes (pmt_header p) (pmt_body p)"

lemma pmt_roundtrip:
  assumes fits: "pmt_fits p"
  shows "pmt_parse (pmt_bytes p @ rest) = Inr p"
proof -
  let ?info = "pmt_program_info p" and ?streams = "concat (map pmt_entry_bytes (pmt_streams p))"
  have h: "header_fits (pmt_header p)" "table_id_to_byte (sh_table_id (pmt_header p)) = 2"
    using fits by (simp_all add: header_fits_def pmt_header_def pmt_fits_def table_id_from_byte_def)
  have "length (pmt_body p) \<le> 4086" using fits by (simp add: pmt_fits_def)
  from section_parse_bytes [OF this h(1), of rest]
  have sec: "section_parse (pmt_bytes p @ rest) 2 = Inr \<lparr>ps_header = pmt_header p, ps_body = pmt_body p\<rparr>"
    by (simp add: pmt_bytes_def h(2))
  obtain p1 p2 where pcr: "put_pid (pmt_pcr_pid p) = [p1, p2]" "pid13 p1 p2 = pmt_pcr_pid p"
    using fits unfolding pmt_fits_def by (elim conjE) (rule put_pid_read)
  define l1 where "l1 = 0xF0 OR hi12 (length ?info)"
  define l2 where "l2 = lo8 (length ?info)"
  have body: "pmt_body p = p1 # p2 # l1 # l2 # ?info @ ?streams"
    by (simp add: pmt_body_def put_len_def pcr l1_def l2_def)
  have "length ?info < 4096" using fits body by (simp add: pmt_fits_def)
  then have l: "len12 l1 l2 = length ?info" by (simp add: l1_def l2_def put_len_read)
  have "parse_loop pmt_entry ((p1 # p2 # l1 # l2 # ?info) @ ?streams) (length (p1 # p2 # l1 # l2 # ?info)) = Inr (pmt_streams p)"
    using fits by (intro pmt_loop.parse_loop_enc) (simp add: pmt_fits_def)
  then have loop: "parse_loop pmt_entry (pmt_body p) (4 + length ?info) = Inr (pmt_streams p)"
    by (simp add: body numeral_eq_Suc)
  have slice: "slice 4 (4 + length ?info) (pmt_body p) = Some ?info" by (simp add: body slice_def)
  show ?thesis
    using loop slice by (simp add: pmt_parse_def sec PMT_FIXED_LEN_def body l pcr pmt_header_def Let_def)
qed

section \<open>Conditional access\<close>

record ca_system =
  ca_system_id :: "16 word"
  ca_emm_pid :: "16 word"

record cat =
  cat_version :: byte
  cat_current :: bool
  cat_descriptors :: bytes

definition CA_DESCRIPTOR_TAG :: byte where "CA_DESCRIPTOR_TAG = 0x09"

definition cat_parse :: "bytes \<Rightarrow> ts_error + cat" where
  "cat_parse bs =
     and_then (section_parse bs 0x01) (\<lambda>parsed.
     Inr \<lparr>cat_version = sh_version (ps_header parsed), cat_current = sh_current (ps_header parsed),
          cat_descriptors = ps_body parsed\<rparr>)"

definition ca_system_of :: "ts_descriptor \<Rightarrow> ca_system option" where
  "ca_system_of d =
     (if td_tag d \<noteq> CA_DESCRIPTOR_TAG then None
      else
        case byte_at (td_data d) 0 of None \<Rightarrow> None | Some sid_hi \<Rightarrow>
        case byte_at (td_data d) 1 of None \<Rightarrow> None | Some sid_lo \<Rightarrow>
        case byte_at (td_data d) 2 of None \<Rightarrow> None | Some pid_hi \<Rightarrow>
        case byte_at (td_data d) 3 of None \<Rightarrow> None | Some pid_lo \<Rightarrow>
        Some \<lparr>ca_system_id = be16 sid_hi sid_lo, ca_emm_pid = pid13 pid_hi pid_lo\<rparr>)"

definition ca_systems :: "cat \<Rightarrow> ts_error + ca_system list" where
  "ca_systems c = and_then (descriptors_parse (cat_descriptors c)) (\<lambda>ds. Inr (List.map_filter ca_system_of ds))"

section \<open>Network information\<close>

record ts_info =
  ti_transport_stream_id :: "16 word"
  ti_original_network_id :: "16 word"
  ti_descriptors :: bytes

record nit =
  nit_network_id :: "16 word"
  nit_actual :: bool
  nit_version :: byte
  nit_descriptors :: bytes
  nit_streams :: "ts_info list"

definition TS_ENTRY_HEADER :: nat where "TS_ENTRY_HEADER = 6"

definition nit_entry :: "bytes \<Rightarrow> nat \<Rightarrow> ts_error + ts_info \<times> nat" where
  "nit_entry bs off =
     (let over = Overrun off (length bs) in
     and_then (ok_or over (byte_at bs off)) (\<lambda>tsid_hi.
     and_then (ok_or over (byte_at bs (off + 1))) (\<lambda>tsid_lo.
     and_then (ok_or over (byte_at bs (off + 2))) (\<lambda>onid_hi.
     and_then (ok_or over (byte_at bs (off + 3))) (\<lambda>onid_lo.
     and_then (ok_or over (byte_at bs (off + 4))) (\<lambda>len_hi.
     and_then (ok_or over (byte_at bs (off + 5))) (\<lambda>len_lo.
     let d_start = off + TS_ENTRY_HEADER; d_end = d_start + len12 len_hi len_lo in
     and_then (ok_or (Overrun d_end (length bs)) (slice d_start d_end bs)) (\<lambda>ds.
     Inr (\<lparr>ti_transport_stream_id = be16 tsid_hi tsid_lo, ti_original_network_id = be16 onid_hi onid_lo,
           ti_descriptors = ds\<rparr>, d_end)))))))))"

definition actual_table :: "byte \<Rightarrow> byte \<Rightarrow> bytes \<Rightarrow> ts_error + byte \<times> bool" where
  "actual_table actual other bs =
     and_then (ok_or (TooShort 1 (length bs)) (byte_at bs 0)) (\<lambda>tid.
     if tid = actual then Inr (tid, True) else if tid = other then Inr (tid, False)
     else Inl (WrongTable actual tid))"

definition nit_parse :: "bytes \<Rightarrow> ts_error + nit" where
  "nit_parse bs =
     and_then (actual_table 0x40 0x41 bs) (\<lambda>(tid, actual).
     and_then (section_parse bs tid) (\<lambda>parsed.
     let body = ps_body parsed in
     if length body < 2 then Inl (TooShort 2 (length body)) else
     and_then (ok_or (TooShort 1 0) (byte_at body 0)) (\<lambda>nd_hi.
     and_then (ok_or (TooShort 2 1) (byte_at body 1)) (\<lambda>nd_lo.
     let nd_end = 2 + len12 nd_hi nd_lo in
     and_then (ok_or (Overrun nd_end (length body)) (slice 2 nd_end body)) (\<lambda>nds.
     and_then (ok_or (Overrun nd_end (length body)) (byte_at body nd_end)) (\<lambda>tll_hi.
     and_then (ok_or (Overrun nd_end (length body)) (byte_at body (nd_end + 1))) (\<lambda>tll_lo.
     let loop_start = nd_end + 2; loop_end = loop_start + len12 tll_hi tll_lo in
     and_then (ok_or (Overrun loop_end (length body)) (slice loop_start loop_end body)) (\<lambda>loop_bytes.
     and_then (parse_loop nit_entry loop_bytes 0) (\<lambda>streams.
     Inr \<lparr>nit_network_id = sh_extension (ps_header parsed), nit_actual = actual,
          nit_version = sh_version (ps_header parsed), nit_descriptors = nds, nit_streams = streams\<rparr>)))))))))"

definition nit_entry_bytes :: "ts_info \<Rightarrow> bytes" where
  "nit_entry_bytes t = put16 (ti_transport_stream_id t) @ put16 (ti_original_network_id t) @
     put_len (ti_descriptors t) @ ti_descriptors t"

interpretation nit_loop: wire_entry nit_entry nit_entry_bytes "\<lambda>t. length (ti_descriptors t) < 4096"
proof
  fix t :: ts_info and pre post :: bytes
  assume l: "length (ti_descriptors t) < 4096"
  obtain a b where i: "put16 (ti_transport_stream_id t) = [a, b]" by (simp add: put16_def)
  obtain c d where n: "put16 (ti_original_network_id t) = [c, d]" by (simp add: put16_def)
  show "nit_entry (pre @ nit_entry_bytes t @ post) (length pre) = Inr (t, length pre + length (nit_entry_bytes t))"
    by (simp add: nit_entry_def nit_entry_bytes_def put_len_def i n be16_put16 [OF i] be16_put16 [OF n] byte_at_def
        nth_append slice_def TS_ENTRY_HEADER_def Let_def put_len_read [OF l])
next
  fix bs :: bytes and off n t
  assume "nit_entry bs off = Inr (t, n)"
  then show "off < n \<and> n \<le> length bs"
    by (auto simp: nit_entry_def and_then_Inr Let_def TS_ENTRY_HEADER_def dest!: slice_Some_length)
qed

section \<open>Service descriptions\<close>

datatype running_status = Undefined | NotRunning | StartingSoon | Pausing | Running | OffAir | ReservedStatus byte

definition running_from_code :: "byte \<Rightarrow> running_status" where
  "running_from_code code =
     (let c = code AND 0x07
      in if c = 0 then Undefined
         else if c = 1 then NotRunning
         else if c = 2 then StartingSoon
         else if c = 3 then Pausing
         else if c = 4 then Running
         else if c = 5 then OffAir
         else ReservedStatus c)"

record service_description =
  sd_service_id :: "16 word"
  sd_eit_schedule :: bool
  sd_eit_present_following :: bool
  sd_running :: running_status
  sd_free :: bool
  sd_descriptors :: bytes

record sdt =
  sdt_transport_stream_id :: "16 word"
  sdt_actual :: bool
  sdt_original_network_id :: "16 word"
  sdt_version :: byte
  sdt_services :: "service_description list"

definition SDT_FIXED_LEN :: nat where "SDT_FIXED_LEN = 3"
definition SERVICE_HEADER_LEN :: nat where "SERVICE_HEADER_LEN = 5"

definition sdt_entry :: "bytes \<Rightarrow> nat \<Rightarrow> ts_error + service_description \<times> nat" where
  "sdt_entry body off =
     (let over = Overrun off (length body) in
     and_then (ok_or over (byte_at body off)) (\<lambda>sid_hi.
     and_then (ok_or over (byte_at body (off + 1))) (\<lambda>sid_lo.
     and_then (ok_or over (byte_at body (off + 2))) (\<lambda>flags.
     and_then (ok_or over (byte_at body (off + 3))) (\<lambda>status_byte.
     and_then (ok_or over (byte_at body (off + 4))) (\<lambda>dll_lo.
     let d_start = off + SERVICE_HEADER_LEN; d_end = d_start + len12 status_byte dll_lo in
     and_then (ok_or (Overrun d_end (length body)) (slice d_start d_end body)) (\<lambda>ds.
     Inr (\<lparr>sd_service_id = be16 sid_hi sid_lo, sd_eit_schedule = (flags AND 0x02 \<noteq> 0),
           sd_eit_present_following = (flags AND 0x01 \<noteq> 0), sd_running = running_from_code (drop_bit 5 status_byte),
           sd_free = (status_byte AND 0x10 = 0), sd_descriptors = ds\<rparr>, d_end))))))))"

definition sdt_parse :: "bytes \<Rightarrow> ts_error + sdt" where
  "sdt_parse bs =
     and_then (actual_table 0x42 0x46 bs) (\<lambda>(tid, actual).
     and_then (section_parse bs tid) (\<lambda>parsed.
     let body = ps_body parsed in
     if length body < SDT_FIXED_LEN then Inl (TooShort SDT_FIXED_LEN (length body)) else
     and_then (ok_or (TooShort 1 0) (byte_at body 0)) (\<lambda>onid_hi.
     and_then (ok_or (TooShort 2 1) (byte_at body 1)) (\<lambda>onid_lo.
     and_then (parse_loop sdt_entry body SDT_FIXED_LEN) (\<lambda>services.
     Inr \<lparr>sdt_transport_stream_id = sh_extension (ps_header parsed), sdt_actual = actual,
          sdt_original_network_id = be16 onid_hi onid_lo, sdt_version = sh_version (ps_header parsed),
          sdt_services = services\<rparr>)))))"

section \<open>Choosing a program\<close>

datatype program_selection = ByProgramNumber "16 word" | ByIndex nat | FirstProgram

datatype selection_error =
    NoPrograms
  | UnknownProgram "16 word"
  | IndexOutOfRange nat nat
  | PmtMismatch "16 word" "16 word"

record selected_program =
  sp_program_number :: "16 word"
  sp_pmt_pid :: "16 word"
  sp_pcr_pid :: "16 word"
  sp_video_pid :: "16 word option"
  sp_video_type :: "stream_type option"
  sp_audio_pids :: "16 word list"
  sp_scte35_pids :: "16 word list"

definition pat_resolve :: "program_selection \<Rightarrow> pat \<Rightarrow> selection_error + 16 word \<times> 16 word" where
  "pat_resolve sel p =
     (let real = filter (\<lambda>a. \<not> is_network a) (pat_programs p);
          pair = map_option (\<lambda>a. (pa_program_number a, pa_pid a))
      in if real = [] then Inl NoPrograms
         else
           case sel of
             ByProgramNumber pn \<Rightarrow> ok_or (UnknownProgram pn) (pair (find (\<lambda>a. pa_program_number a = pn) real))
           | ByIndex i \<Rightarrow> ok_or (IndexOutOfRange i (length real)) (pair (byte_at real i))
           | FirstProgram \<Rightarrow> ok_or NoPrograms (pair (byte_at real 0)))"

definition selected_resolve :: "pat \<Rightarrow> pmt \<Rightarrow> program_selection \<Rightarrow> selection_error + selected_program" where
  "selected_resolve p m sel =
     and_then (pat_resolve sel p) (\<lambda>(program_number, pid).
     if pmt_program_number m \<noteq> program_number then Inl (PmtMismatch (pmt_program_number m) program_number)
     else
       let video = video_stream m
       in Inr \<lparr>sp_program_number = program_number, sp_pmt_pid = pid, sp_pcr_pid = pmt_pcr_pid m,
            sp_video_pid = map_option es_pid video, sp_video_type = map_option es_type video,
            sp_audio_pids = map es_pid (audio_streams m), sp_scte35_pids = scte35_pids m\<rparr>)"

definition demux_pids :: "selected_program \<Rightarrow> 16 word list" where
  "demux_pids s =
     remdups_adj (sort ([sp_pmt_pid s, sp_pcr_pid s] @
       (case sp_video_pid s of Some v \<Rightarrow> [v] | None \<Rightarrow> []) @ sp_audio_pids s @ sp_scte35_pids s))"

lemma find_Some_in: "find P xs = Some x \<Longrightarrow> x \<in> set xs \<and> P x"
  by (auto simp: find_Some_iff)

lemma byte_at_in: "byte_at xs i = Some x \<Longrightarrow> x \<in> set xs"
  by (auto simp: byte_at_Some)

lemma remdups_adj_strict: "sorted xs \<Longrightarrow> sorted_wrt (<) (remdups_adj (xs :: 'x::linorder list))"
  by (induction xs rule: remdups_adj.induct) (auto simp: order_less_le)

lemma set_demux_pids: "set (demux_pids s) =
    {sp_pmt_pid s, sp_pcr_pid s} \<union> set_option (sp_video_pid s) \<union> set (sp_audio_pids s) \<union> set (sp_scte35_pids s)"
  unfolding demux_pids_def remdups_adj_set set_sort by (auto split: option.split)

lemma pat_resolve_in:
  assumes "pat_resolve sel p = Inr (n, pid)"
  shows "\<exists>a \<in> set (pat_programs p). \<not> is_network a \<and> pa_program_number a = n \<and> pa_pid a = pid"
proof -
  let ?real = "filter (\<lambda>a. \<not> is_network a) (pat_programs p)"
  have "\<exists>a \<in> set ?real. pa_program_number a = n \<and> pa_pid a = pid"
    using assms by (auto simp: pat_resolve_def Let_def split: if_splits program_selection.splits
        dest!: find_Some_in byte_at_in)
  then show ?thesis by auto
qed

text \<open>C29: What is demultiplexed is what the tables name. The tables the standard's layout carries are
  read back exactly, whatever follows them, and a descriptor loop parses exactly when it is a
  concatenation of descriptors. When a program is selected, it is one of the association's real
  programs whose map was supplied, and the PID set handed to the demultiplexer is, without
  duplicates and in order, the map's own PID, the clock PID, the first video stream and every audio
  and splice stream of the map, and nothing else.\<close>

theorem program_tables_demuxed:
  "(pat_fits p \<longrightarrow> pat_parse (pat_bytes p @ rest) = Inr p) \<and>
   (pmt_fits m \<longrightarrow> pmt_parse (pmt_bytes m @ rest) = Inr m) \<and>
   (length bs \<le> 4095 \<longrightarrow> (descriptors_parse bs = Inr ds \<longleftrightarrow>
      concat (map descriptor_bytes ds) = bs \<and> (\<forall>d \<in> set ds. descriptor_fits d))) \<and>
   (selected_resolve p m sel = Inr s \<longrightarrow>
      (\<exists>a \<in> set (pat_programs p). \<not> is_network a \<and> pa_program_number a = pmt_program_number m \<and> pa_pid a = sp_pmt_pid s) \<and>
      sorted_wrt (<) (demux_pids s) \<and>
      set (demux_pids s) = {sp_pmt_pid s, pmt_pcr_pid m} \<union> set_option (map_option es_pid (video_stream m)) \<union>
        {es_pid e | e. e \<in> set (pmt_streams m) \<and> (is_audio (es_type e) \<or> es_type e = Scte35)})"
proof (intro conjI impI)
  assume r: "selected_resolve p m sel = Inr s"
  then obtain n where n: "pat_resolve sel p = Inr (n, sp_pmt_pid s)" "pmt_program_number m = n"
    by (auto simp: selected_resolve_def and_then_Inr Let_def split: if_splits)
  from pat_resolve_in [OF n(1)] n(2)
  show "\<exists>a \<in> set (pat_programs p). \<not> is_network a \<and> pa_program_number a = pmt_program_number m \<and> pa_pid a = sp_pmt_pid s"
    by simp
  show "sorted_wrt (<) (demux_pids s)"
    unfolding demux_pids_def by (intro remdups_adj_strict sorted_sort)
  show "set (demux_pids s) = {sp_pmt_pid s, pmt_pcr_pid m} \<union> set_option (map_option es_pid (video_stream m)) \<union>
      {es_pid e | e. e \<in> set (pmt_streams m) \<and> (is_audio (es_type e) \<or> es_type e = Scte35)}"
    unfolding set_demux_pids using r
    by (auto simp: selected_resolve_def and_then_Inr Let_def audio_streams_def scte35_pids_def split: if_splits)
qed (simp_all add: pat_roundtrip pmt_roundtrip descriptors_roundtrip)

definition sample_pmt :: pmt where
  "sample_pmt = \<lparr>pmt_program_number = 7, pmt_version = 1, pmt_current = True, pmt_pcr_pid = 0x1FFF,
     pmt_program_info = [], pmt_streams =
       [\<lparr>es_type = H264, es_pid = 0x101, es_descriptors = []\<rparr>,
        \<lparr>es_type = AdtsAac, es_pid = 0x102, es_descriptors = [0x0A, 0x00]\<rparr>]\<rparr>"

definition sample_pat :: pat where
  "sample_pat = \<lparr>pat_transport_stream_id = 1, pat_version = 0, pat_current = True,
     pat_programs = [\<lparr>pa_program_number = 0, pa_pid = 0x10\<rparr>, \<lparr>pa_program_number = 7, pa_pid = 0x100\<rparr>]\<rparr>"

definition sample_selected :: selected_program where
  "sample_selected = \<lparr>sp_program_number = 7, sp_pmt_pid = 0x100, sp_pcr_pid = 0x1FFF, sp_video_pid = Some 0x101,
     sp_video_type = Some H264, sp_audio_pids = [0x102], sp_scte35_pids = []\<rparr>"

lemma sample_resolves: "selected_resolve sample_pat sample_pmt FirstProgram = Inr sample_selected"
  by (simp add: selected_resolve_def pat_resolve_def sample_pat_def sample_pmt_def sample_selected_def is_network_def
      video_stream_def audio_streams_def scte35_pids_def is_video_def is_audio_def Let_def)

theorem program_tables_demuxed_witness:
  "pmt_parse (pmt_bytes sample_pmt @ [1, 2, 3]) = Inr sample_pmt \<and>
   set (demux_pids sample_selected) = {0x100, 0x101, 0x102, 0x1FFF}"
proof -
  have "pmt_fits sample_pmt"
    by (simp add: pmt_fits_def sample_pmt_def pid_fits_def pmt_entry_fits_def stream_type_from_byte_def pmt_body_def
        put_len_def length_put_pid pmt_entry_bytes_def)
  note * = program_tables_demuxed [of sample_pat "[1, 2, 3]" sample_pmt "[]" "[]" FirstProgram sample_selected]
  have "{es_pid e | e. e \<in> set (pmt_streams sample_pmt) \<and> (is_audio (es_type e) \<or> es_type e = Scte35)} =
      es_pid ` set (filter (\<lambda>e. is_audio (es_type e) \<or> es_type e = Scte35) (pmt_streams sample_pmt))" by auto
  also have "\<dots> = {0x102}" by (simp add: sample_pmt_def is_audio_def)
  finally have audio: "{es_pid e | e. e \<in> set (pmt_streams sample_pmt) \<and> (is_audio (es_type e) \<or> es_type e = Scte35)} = {0x102}" .
  have other: "map_option es_pid (video_stream sample_pmt) = Some 0x101" "pmt_pcr_pid sample_pmt = 0x1FFF"
    "sp_pmt_pid sample_selected = 0x100"
    by (simp_all add: sample_pmt_def sample_selected_def video_stream_def is_video_def)
  from * sample_resolves have "set (demux_pids sample_selected) = {0x100, 0x1FFF} \<union> {0x101} \<union> {0x102}"
    unfolding audio other by simp
  then show ?thesis using * \<open>pmt_fits sample_pmt\<close> by auto
qed

text \<open>The clock PID is passed on even when the map says there is none: \<open>0x1FFF\<close>, documented as
  \<open>NO_PCR_PID\<close>, is also the PID of the null packets, so the set then asks for all the stuffing.\<close>

lemma null_packets_demuxed: "pmt_pcr_pid sample_pmt = 0x1FFF \<and> 0x1FFF \<in> set (demux_pids sample_selected)"
  by (simp add: set_demux_pids sample_selected_def sample_pmt_def)

end
