(* ===== verification/Dvb_Time.thy ===== *)
theory Dvb_Time
  imports Psi_Tables
begin

unbundle bit_operations_syntax

text \<open>
  Broadcast time: the UTC field, the Time and Date Table and the Time Offset Table of
  \<open>multiview-input/src/mpegts/tdt.rs\<close> and \<open>tot.rs\<close>. The fields of a decoded time are naturals in
  the range of their \<open>u8\<close> and \<open>u16\<close>.
\<close>

record dvb_time =
  dt_mjd :: nat
  dt_hours :: nat
  dt_minutes :: nat
  dt_seconds :: nat

definition bcd :: "byte \<Rightarrow> ts_error + nat" where
  "bcd b =
     (let hi = unat (drop_bit 4 b); lo = unat (b AND 0x0F)
      in if hi > 9 \<or> lo > 9 then Inl BadDateTime else Inr (usat_add 8 (usat_mul 8 hi 10) lo))"

definition dvb_time_parse :: "bytes \<Rightarrow> ts_error + dvb_time" where
  "dvb_time_parse bs =
     (let short = TooShort 5 (length bs) in
     and_then (ok_or short (byte_at bs 0)) (\<lambda>mjd_hi.
     and_then (ok_or short (byte_at bs 1)) (\<lambda>mjd_lo.
     let mjd = unat (be16 mjd_hi mjd_lo) in
     and_then (and_then (ok_or short (byte_at bs 2)) bcd) (\<lambda>hours.
     and_then (and_then (ok_or short (byte_at bs 3)) bcd) (\<lambda>minutes.
     and_then (and_then (ok_or short (byte_at bs 4)) bcd) (\<lambda>seconds.
     if hours > 23 then Inl BadDateTime
     else if minutes > 59 then Inl BadDateTime
     else if seconds > 59 then Inl BadDateTime
     else Inr \<lparr>dt_mjd = mjd, dt_hours = hours, dt_minutes = minutes, dt_seconds = seconds\<rparr>))))))"

definition to_unix_seconds :: "dvb_time \<Rightarrow> ts_error + int" where
  "to_unix_seconds t =
     and_then (ok_or BadDateTime (try_i 64 (int (dt_mjd t) - 40587))) (\<lambda>days.
     if days < 0 then Inl BadDateTime else
     and_then (ok_or BadDateTime (try_i 64 (days * 86400))) (\<lambda>day_seconds.
     let tod = int (dt_hours t) * 3600 + int (dt_minutes t) * 60 + int (dt_seconds t)
     in ok_or BadDateTime (try_i 64 (day_seconds + tod))))"

definition TDT_SECTION_LEN :: nat where "TDT_SECTION_LEN = 8"

definition parse_short_form :: "bytes \<Rightarrow> byte \<Rightarrow> ts_error + dvb_time" where
  "parse_short_form bs expected =
     (let short = TooShort TDT_SECTION_LEN (length bs) in
     if length bs < TDT_SECTION_LEN then Inl short else
     and_then (ok_or short (byte_at bs 0)) (\<lambda>tid.
     if tid \<noteq> expected then Inl (WrongTable expected tid) else
     and_then (ok_or short (byte_at bs 1)) (\<lambda>b1.
     if b1 AND 0x80 \<noteq> 0 then Inl SyntaxError else
     and_then (ok_or short (slice 3 TDT_SECTION_LEN bs)) dvb_time_parse)))"

definition tdt_parse :: "bytes \<Rightarrow> ts_error + dvb_time" where
  "tdt_parse bs = parse_short_form bs 0x70"

section \<open>Time offset\<close>

record tot =
  tot_utc :: dvb_time
  tot_descriptors :: bytes

definition TOT_PREFIX_LEN :: nat where "TOT_PREFIX_LEN = 10"

definition tot_parse :: "bytes \<Rightarrow> ts_error + tot" where
  "tot_parse bs =
     (let short = TooShort TOT_PREFIX_LEN (length bs) in
     if length bs < TOT_PREFIX_LEN then Inl short else
     and_then (ok_or short (byte_at bs 0)) (\<lambda>tid.
     if tid \<noteq> 0x73 then Inl (WrongTable 0x73 tid) else
     and_then (ok_or short (byte_at bs 1)) (\<lambda>b1.
     if b1 AND 0x80 \<noteq> 0 then Inl SyntaxError else
     and_then (ok_or short (byte_at bs 2)) (\<lambda>b2.
     let section_length = len12 b1 b2; total = 3 + section_length in
     and_then (ok_or (TooShort total (length bs)) (slice 0 total bs)) (\<lambda>full.
     and_then (crc_validate full) (\<lambda>_.
     and_then (and_then (ok_or (TooShort 8 (length full)) (slice 3 8 full)) dvb_time_parse) (\<lambda>utc.
     and_then (ok_or (TooShort 9 (length full)) (byte_at full 8)) (\<lambda>dll_hi.
     and_then (ok_or (TooShort 10 (length full)) (byte_at full 9)) (\<lambda>dll_lo.
     let d_start = TOT_PREFIX_LEN; d_end = d_start + len12 dll_hi dll_lo in
     and_then (ok_or (Overrun d_end (length full)) (slice d_start d_end full)) (\<lambda>ds.
     Inr \<lparr>tot_utc = utc, tot_descriptors = ds\<rparr>))))))))))"

definition LOCAL_TIME_OFFSET_TAG :: byte where "LOCAL_TIME_OFFSET_TAG = 0x58"

definition local_offset_minutes :: "tot \<Rightarrow> ts_error + int option" where
  "local_offset_minutes t =
     and_then (descriptors_parse (tot_descriptors t)) (\<lambda>ds.
     case descriptor_find LOCAL_TIME_OFFSET_TAG ds of None \<Rightarrow> Inr None | Some d \<Rightarrow>
     let data = td_data d in
     and_then (ok_or (Overrun 4 (length data)) (byte_at data 3)) (\<lambda>region_byte.
     and_then (ok_or (Overrun 5 (length data)) (byte_at data 4)) (\<lambda>off_hi.
     and_then (ok_or (Overrun 6 (length data)) (byte_at data 5)) (\<lambda>off_lo.
     and_then (bcd off_hi) (\<lambda>hours.
     and_then (bcd off_lo) (\<lambda>minutes.
     if minutes > 59 then Inl BadDateTime else
     and_then (ok_or BadDateTime (Option.bind (try_i 16 (int hours * 60)) (\<lambda>h. try_i 16 (h + int minutes)))) (\<lambda>magnitude.
     Inr (Some (if region_byte AND 0x01 \<noteq> 0 then - magnitude else magnitude)))))))))"

section \<open>Decimal bytes\<close>

definition put_bcd :: "nat \<Rightarrow> byte" where
  "put_bcd n = word_of_nat (16 * (n div 10) + n mod 10)"

lemma unat_hi_nibble: "unat (drop_bit 4 (b :: byte)) = unat b div 16"
proof -
  have "unat (drop_bit 4 b) = drop_bit 4 (take_bit LENGTH(8) (unat b))" by (rule unsigned_drop_bit_eq)
  then show ?thesis by (simp add: take_bit_nat_eq_self drop_bit_eq_div [of 4 "unat b"])
qed

lemma bcd_eq: "bcd b = (if unat b div 16 \<le> 9 \<and> unat b mod 16 \<le> 9 then Inr (unat b div 16 * 10 + unat b mod 16) else Inl BadDateTime)"
  by (auto simp: bcd_def Let_def unat_hi_nibble unat_and_0F usat_add_def usat_mul_def not_less)

lemma bcd_iff: "bcd b = Inr n \<longleftrightarrow> n < 100 \<and> b = put_bcd n"
proof
  assume "bcd b = Inr n"
  then have d: "unat b div 16 \<le> 9" "unat b mod 16 \<le> 9" "n = unat b div 16 * 10 + unat b mod 16"
    by (auto simp: bcd_eq split: if_splits)
  then have "n div 10 = unat b div 16" "n mod 10 = unat b mod 16" by simp_all
  then have "put_bcd n = word_of_nat (unat b)" by (simp add: put_bcd_def)
  with d show "n < 100 \<and> b = put_bcd n" by simp
next
  assume n: "n < 100 \<and> b = put_bcd n"
  then have "16 * (n div 10) + n mod 10 < 256" by linarith
  then have "unat b = 16 * (n div 10) + n mod 10"
    using n by (simp add: put_bcd_def unat_of_nat del: of_nat_add of_nat_mult)
  moreover from n have "n div 10 \<le> 9" by linarith
  ultimately have "unat b div 16 = n div 10" "unat b mod 16 = n mod 10" "n div 10 \<le> 9" "n mod 10 \<le> 9"
    by (simp_all add: mod_mult_self1)
  then show "bcd b = Inr n" by (simp add: bcd_eq)
qed

section \<open>Times\<close>

definition valid_time :: "dvb_time \<Rightarrow> bool" where
  "valid_time t \<longleftrightarrow> dt_mjd t < 65536 \<and> dt_hours t \<le> 23 \<and> dt_minutes t \<le> 59 \<and> dt_seconds t \<le> 59"

definition time_bytes :: "dvb_time \<Rightarrow> bytes" where
  "time_bytes t = put16 (word_of_nat (dt_mjd t)) @ [put_bcd (dt_hours t), put_bcd (dt_minutes t), put_bcd (dt_seconds t)]"

lemma dvb_time_parse_iff: "dvb_time_parse bs = Inr t \<longleftrightarrow> valid_time t \<and> (\<exists>rest. bs = time_bytes t @ rest)"
proof
  assume p: "dvb_time_parse bs = Inr t"
  then have l: "4 < length bs" by (auto simp: dvb_time_parse_def and_then_Inr Let_def byte_at_Some)
  then obtain a b c d e rest where bs: "bs = a # b # c # d # e # rest"
    by (auto simp: Suc_less_eq2 numeral_eq_Suc neq_Nil_conv less_eq_Suc_le Suc_le_length_iff)
  from p have t: "dt_mjd t = unat (be16 a b)" "bcd c = Inr (dt_hours t)" "bcd d = Inr (dt_minutes t)" "bcd e = Inr (dt_seconds t)"
    and r: "dt_hours t \<le> 23" "dt_minutes t \<le> 59" "dt_seconds t \<le> 59"
    by (auto simp: dvb_time_parse_def bs and_then_Inr Let_def not_less split: if_splits)
  have "unat (be16 a b) < 65536" using byte_bound [of a] byte_bound [of b] unfolding unat_be16 by linarith
  with t r show "valid_time t \<and> (\<exists>rest. bs = time_bytes t @ rest)"
    by (auto simp: valid_time_def time_bytes_def bs bcd_iff)
next
  assume "valid_time t \<and> (\<exists>rest. bs = time_bytes t @ rest)"
  then obtain rest where v: "valid_time t" and bs: "bs = time_bytes t @ rest" by blast
  obtain a b where m: "put16 (word_of_nat (dt_mjd t)) = [a, b]" by (simp add: put16_def)
  from v have "unat (be16 a b) = dt_mjd t" by (simp add: be16_put16 [OF m] unat_of_nat valid_time_def)
  moreover from v have "bcd (put_bcd (dt_hours t)) = Inr (dt_hours t)" "bcd (put_bcd (dt_minutes t)) = Inr (dt_minutes t)"
    "bcd (put_bcd (dt_seconds t)) = Inr (dt_seconds t)" by (auto simp: bcd_iff valid_time_def)
  ultimately show "dvb_time_parse bs = Inr t"
    using v by (simp add: dvb_time_parse_def bs time_bytes_def m valid_time_def Let_def not_less)
qed

definition unix_seconds :: "dvb_time \<Rightarrow> int" where
  "unix_seconds t = (int (dt_mjd t) - 40587) * 86400 + int (dt_hours t) * 3600 + int (dt_minutes t) * 60 + int (dt_seconds t)"

lemma to_unix_seconds_value:
  assumes "valid_time t"
  shows "to_unix_seconds t = (if dt_mjd t < 40587 then Inl BadDateTime else Inr (unix_seconds t))"
proof -
  from assms have b: "int (dt_mjd t) < 65536" "int (dt_hours t) \<le> 23" "int (dt_minutes t) \<le> 59" "int (dt_seconds t) \<le> 59"
    by (simp_all add: valid_time_def)
  then have i: "in_i 64 (int (dt_mjd t) - 40587)" "in_i 64 ((int (dt_mjd t) - 40587) * 86400)"
    "in_i 64 ((int (dt_mjd t) - 40587) * 86400 + (int (dt_hours t) * 3600 + int (dt_minutes t) * 60 + int (dt_seconds t)))"
    by (simp_all add: in_i_def i_simps)
  then show ?thesis by (simp add: to_unix_seconds_def unix_seconds_def Let_def add.assoc)
qed

lemma mixed_radix:
  assumes "a * k + r = b * k + s" and "0 \<le> r" and "r < k" and "0 \<le> s" and "s < (k :: int)"
  shows "a = b \<and> r = s"
proof -
  have "(a * k + r) div k = a" "(b * k + s) div k = b" using assms(2-5) by simp_all
  with assms(1) have "a = b" by metis
  with assms(1) show ?thesis by simp
qed

lemma unix_seconds_inj:
  assumes "valid_time s" and "valid_time t" and "unix_seconds s = unix_seconds t"
  shows "s = t"
proof -
  have r: "unix_seconds u = (int (dt_mjd u) - 40587) * 86400 + (int (dt_hours u) * 3600 + (int (dt_minutes u) * 60 + int (dt_seconds u)))" for u
    by (simp add: unix_seconds_def)
  have b: "0 \<le> int (dt_hours u) * 3600 + (int (dt_minutes u) * 60 + int (dt_seconds u))"
    "int (dt_hours u) * 3600 + (int (dt_minutes u) * 60 + int (dt_seconds u)) < 86400"
    "0 \<le> int (dt_minutes u) * 60 + int (dt_seconds u)" "int (dt_minutes u) * 60 + int (dt_seconds u) < 3600"
    "0 \<le> int (dt_seconds u)" "int (dt_seconds u) < 60" if "valid_time u" for u
    using that by (auto simp: valid_time_def)
  note s = b [OF assms(1)] and t = b [OF assms(2)]
  from mixed_radix [OF assms(3) [unfolded r] s(1,2) t(1,2)]
  have d: "int (dt_mjd s) - 40587 = int (dt_mjd t) - 40587" and h: "int (dt_hours s) * 3600 + (int (dt_minutes s) * 60 + int (dt_seconds s)) =
      int (dt_hours t) * 3600 + (int (dt_minutes t) * 60 + int (dt_seconds t))" by blast+
  from mixed_radix [OF h s(3,4) t(3,4)] have h': "int (dt_hours s) = int (dt_hours t)"
    and m: "int (dt_minutes s) * 60 + int (dt_seconds s) = int (dt_minutes t) * 60 + int (dt_seconds t)" by blast+
  from mixed_radix [OF m s(5,6) t(5,6)] h' d show ?thesis by simp
qed

text \<open>A broadcast time is accepted exactly when it is one. The five-byte field decodes to a time of
  day if and only if it is the decimal encoding of one (every nibble a digit, hours below 24, minutes
  and seconds below 60), whatever follows; its Unix instant is the calendar one, is refused exactly
  before 1970, never overflows, and different times never share an instant.\<close>

theorem broadcast_time_exact:
  "(dvb_time_parse bs = Inr t \<longleftrightarrow> valid_time t \<and> (\<exists>rest. bs = time_bytes t @ rest)) \<and>
   (valid_time t \<longrightarrow> to_unix_seconds t = (if dt_mjd t < 40587 then Inl BadDateTime else Inr (unix_seconds t))) \<and>
   (valid_time t \<and> valid_time u \<and> unix_seconds t = unix_seconds u \<longrightarrow> t = u)"
  using dvb_time_parse_iff to_unix_seconds_value unix_seconds_inj by blast

text \<open>The example of ETSI EN 300 468: 1993-10-13 12:45:00 UTC.\<close>

theorem broadcast_time_exact_witness:
  "dvb_time_parse [0xC0, 0x79, 0x12, 0x45, 0x00] =
     Inr \<lparr>dt_mjd = 49273, dt_hours = 12, dt_minutes = 45, dt_seconds = 0\<rparr> \<and>
   to_unix_seconds \<lparr>dt_mjd = 49273, dt_hours = 12, dt_minutes = 45, dt_seconds = 0\<rparr> = Inr 750516300"
proof -
  let ?t = "\<lparr>dt_mjd = 49273, dt_hours = 12, dt_minutes = 45, dt_seconds = 0\<rparr>"
  have "put16 49273 = [0xC0, 0x79]"
    using put16_be16 [of "0xC0" "0x79"] by (simp add: be16_def)
  then have "[0xC0, 0x79, 0x12, 0x45, 0x00] = time_bytes ?t @ []"
    by (simp add: time_bytes_def put_bcd_def)
  moreover have "valid_time ?t" by (simp add: valid_time_def)
  ultimately show ?thesis
    using broadcast_time_exact [of "[0xC0, 0x79, 0x12, 0x45, 0x00]" ?t ?t] by (auto simp: unix_seconds_def)
qed

text \<open>The Time Offset Table's descriptor length is not checked against the CRC: a section may declare a
  loop that takes in its own last four bytes, and the CRC is then handed out as a descriptor.\<close>

definition overlapping_tot :: bytes where
  "overlapping_tot = (let front = [0x73, 0x70, 0x0B, 0xC0, 0x79, 0x12, 0x45, 0x00, 0xF0, 0x04] in front @ put32 (crc32_mpeg2 front))"

lemma tot_descriptors_include_crc:
  "tot_parse overlapping_tot = Inr \<lparr>tot_utc = \<lparr>dt_mjd = 49273, dt_hours = 12, dt_minutes = 45, dt_seconds = 0\<rparr>,
     tot_descriptors = drop 10 overlapping_tot\<rparr> \<and> length overlapping_tot = 14"
proof -
  let ?front = "[0x73, 0x70, 0x0B, 0xC0, 0x79, 0x12, 0x45, 0x00, 0xF0, 0x04]"
  obtain c0 c1 c2 c3 where c: "put32 (crc32_mpeg2 ?front) = [c0, c1, c2, c3]" by (simp add: put32_def)
  have o: "overlapping_tot = ?front @ [c0, c1, c2, c3]" by (simp only: overlapping_tot_def Let_def c)
  have v: "crc_validate (?front @ [c0, c1, c2, c3]) = Inr ()"
    by (simp only: crc_validate_append be32_put32 [OF c] refl if_True)
  have l: "len12 0x70 0x0B = 11" "len12 0xF0 0x04 = 4" by (simp_all add: len12_value)
  have t: "dvb_time_parse [0xC0, 0x79, 0x12, 0x45, 0x00] =
      Inr \<lparr>dt_mjd = 49273, dt_hours = 12, dt_minutes = 45, dt_seconds = 0\<rparr>"
    by (simp add: dvb_time_parse_def bcd_eq unat_be16 Let_def)
  have "tot_parse (?front @ [c0, c1, c2, c3]) = Inr \<lparr>tot_utc = \<lparr>dt_mjd = 49273, dt_hours = 12, dt_minutes = 45, dt_seconds = 0\<rparr>,
      tot_descriptors = [c0, c1, c2, c3]\<rparr>"
    using v by (simp add: tot_parse_def TOT_PREFIX_LEN_def slice_def l t Let_def)
  then show ?thesis by (simp add: o)
qed

end
