(* ===== verification/Rust_Text.thy ===== *)
theory Rust_Text
  imports Byte_Buffer
begin

text \<open>
  Rust's text as the codecs use it: a \<open>String\<close> is the list of its scalar values (code points
  outside the surrogates), \<open>encode_utf16\<close> and \<open>from_utf16_lossy\<close> are the standard library's.
\<close>

type_synonym rchar = nat
type_synonym rstring = "rchar list"

definition scalar :: "rchar \<Rightarrow> bool" where
  "scalar c \<longleftrightarrow> c < 0xD800 \<or> (0xE000 \<le> c \<and> c < 0x110000)"

definition is_ascii :: "rchar \<Rightarrow> bool" where
  "is_ascii c \<longleftrightarrow> c < 128"

definition REPLACEMENT :: rchar where "REPLACEMENT = 0xFFFD"

fun encode_utf16 :: "rstring \<Rightarrow> nat list" where
  "encode_utf16 [] = []"
| "encode_utf16 (c # cs) =
     (if c < 0x10000 then c # encode_utf16 cs
      else (0xD800 + (c - 0x10000) div 0x400) # (0xDC00 + (c - 0x10000) mod 0x400) # encode_utf16 cs)"

definition high_surrogate :: "nat \<Rightarrow> bool" where
  "high_surrogate u \<longleftrightarrow> 0xD800 \<le> u \<and> u < 0xDC00"

definition low_surrogate :: "nat \<Rightarrow> bool" where
  "low_surrogate u \<longleftrightarrow> 0xDC00 \<le> u \<and> u < 0xE000"

fun from_utf16_lossy :: "nat list \<Rightarrow> rstring" where
  "from_utf16_lossy [] = []"
| "from_utf16_lossy [u] = [if high_surrogate u \<or> low_surrogate u then REPLACEMENT else u]"
| "from_utf16_lossy (u # v # us) =
     (if \<not> high_surrogate u \<and> \<not> low_surrogate u then u # from_utf16_lossy (v # us)
      else if high_surrogate u \<and> low_surrogate v
      then (0x10000 + (u - 0xD800) * 0x400 + (v - 0xDC00)) # from_utf16_lossy us
      else REPLACEMENT # from_utf16_lossy (v # us))"

lemma from_utf16_plain:
  "\<not> high_surrogate u \<Longrightarrow> \<not> low_surrogate u \<Longrightarrow> from_utf16_lossy (u # us) = u # from_utf16_lossy us"
  by (cases us) simp_all

theorem utf16_roundtrip:
  "\<forall>c \<in> set cs. scalar c \<Longrightarrow> from_utf16_lossy (encode_utf16 cs) = cs"
proof (induction cs)
  case (Cons c cs)
  show ?case
  proof (cases "c < 0x10000")
    case True
    with Cons have "\<not> high_surrogate c" "\<not> low_surrogate c"
      by (auto simp: scalar_def high_surrogate_def low_surrogate_def)
    with True Cons show ?thesis by (simp add: from_utf16_plain)
  next
    case False
    let ?d = "c - 0x10000"
    from False Cons.prems have d: "?d < 0x100000" "0x10000 + ?d = c" by (auto simp: scalar_def)
    have h: "high_surrogate (0xD800 + ?d div 0x400)"
      using less_mult_imp_div_less [of ?d "0x400" "0x400"] d by (simp add: high_surrogate_def)
    have l: "low_surrogate (0xDC00 + ?d mod 0x400)"
      using mod_less_divisor [of "0x400" ?d] by (simp add: low_surrogate_def)
    have "0x10000 + ?d div 0x400 * 0x400 + ?d mod 0x400 = c"
      using d(2) div_mult_mod_eq [of ?d "0x400"] by linarith
    with h l Cons False show ?thesis by (simp add: low_surrogate_def high_surrogate_def)
  qed
qed simp

lemma encode_utf16_bound: "\<forall>c \<in> set cs. scalar c \<Longrightarrow> u \<in> set (encode_utf16 cs) \<Longrightarrow> u < 65536"
proof (induction cs)
  case (Cons c cs)
  show ?case
  proof (cases "c < 0x10000")
    case True
    with Cons show ?thesis by auto
  next
    case False
    let ?d = "c - 0x10000"
    from False Cons.prems(1) have "?d < 0x100000" by (auto simp: scalar_def)
    then have "0xD800 + ?d div 0x400 < 65536" using less_mult_imp_div_less [of ?d "0x400" "0x400"] by simp
    moreover have "0xDC00 + ?d mod 0x400 < 65536" using mod_less_divisor [of "0x400" ?d] by simp
    ultimately show ?thesis using Cons False by auto
  qed
qed simp

text \<open>\<open>trim_end_matches(' ')\<close>.\<close>

definition trim_end_spaces :: "rstring \<Rightarrow> rstring" where
  "trim_end_spaces t = rev (dropWhile (\<lambda>c. c = 32) (rev t))"

lemma dropWhile_replicate: "P x \<Longrightarrow> dropWhile P (replicate n x @ ys) = dropWhile P ys"
  by (induction n) simp_all

lemma trim_end_pad: "trim_end_spaces (t @ replicate n 32) = trim_end_spaces t"
  by (simp add: trim_end_spaces_def dropWhile_replicate)

end
