(* ===== verification/Tsl_Umd.thy ===== *)
theory Tsl_Umd
  imports Tally Rust_Text
begin

unbundle bit_operations_syntax

text \<open>
  TSL UMD, the protocol that drives tally lamps and under-monitor labels: the decoders of
  \<open>multiview-input/src/tsl\<close> and the encoders of \<open>multiview-output/src/tsl\<close>, for the three
  generations of the protocol. The two crates define the same message types separately; the model
  shares them, so that what one crate writes can be compared with what the other reads.
\<close>

section \<open>Messages\<close>

datatype tsl_in_error =
    TslTooShort nat nat
  | TslTooLong nat nat
  | TslFraming
  | TslChecksum byte byte
  | TslLength nat nat
  | OddUtf16Len nat

datatype tsl_out_error =
    LabelTooLong nat nat
  | NonRepresentable rchar
  | DisplayCount nat nat
  | PacketTooLong nat nat

datatype tsl_version = V31 | V40 | V50

record tally_lamp =
  tl_color :: tally_color
  tl_brightness :: brightness

record umd_display =
  ud_index :: "16 word"
  ud_left :: tally_lamp
  ud_text_tally :: tally_lamp
  ud_right :: tally_lamp
  ud_text :: rstring

record umd_message =
  um_version :: tsl_version
  um_screen :: "16 word"
  um_displays :: "umd_display list"

definition lamp_off :: tally_lamp where
  "lamp_off = \<lparr>tl_color = TallyOff, tl_brightness = brightness_full\<rparr>"

definition lamp_lit :: "tally_lamp \<Rightarrow> bool" where
  "lamp_lit l = color_is_lit (tl_color l)"

definition lamp_from_wire :: "nat \<Rightarrow> brightness \<Rightarrow> tally_lamp option" where
  "lamp_from_wire code b = map_option (\<lambda>c. \<lparr>tl_color = c, tl_brightness = b\<rparr>) (from_tsl_code code)"

definition brightest :: "umd_display \<Rightarrow> brightness" where
  "brightest d =
     (let ls = map tl_brightness (filter lamp_lit [ud_left d, ud_text_tally d, ud_right d])
      in if ls = [] then brightness_full else Max (set ls))"

definition color_code :: "tally_lamp \<Rightarrow> byte" where
  "color_code l = word_of_nat (tsl_code (tl_color l))"

definition low_addr :: "16 word \<Rightarrow> byte" where
  "low_addr i = ucast (i AND 0x7F)"

definition decode_ascii :: "bytes \<Rightarrow> rstring" where
  "decode_ascii bs = trim_end_spaces (map (\<lambda>b. unat (b AND 0x7F)) bs)"

fun write_chars :: "rstring \<Rightarrow> nat \<Rightarrow> bytes \<Rightarrow> tsl_out_error + bytes" where
  "write_chars [] i packet = Inr packet"
| "write_chars (ch # chs) i packet =
     (if \<not> is_ascii ch then Inl (NonRepresentable ch)
      else if i < length packet then write_chars chs (i + 1) (packet[i := word_of_nat ch])
      else Inl (PacketTooLong (length packet) (length packet)))"

definition write_ascii :: "bytes \<Rightarrow> nat \<Rightarrow> rstring \<Rightarrow> tsl_out_error + bytes" where
  "write_ascii packet off text =
     (if length text > 16 then Inl (LabelTooLong (length text) 16) else write_chars text off packet)"

section \<open>Version 3.1\<close>

definition on_off_lamp :: "bool \<Rightarrow> brightness \<Rightarrow> tally_lamp" where
  "on_off_lamp lit b = \<lparr>tl_color = (if lit then TallyRed else TallyOff), tl_brightness = b\<rparr>"

definition v31_decode :: "bytes \<Rightarrow> tsl_in_error + umd_message" where
  "v31_decode bs =
     (if length bs < 18 then Inl (TslTooShort 18 (length bs))
      else if length bs > 18 then Inl (TslTooLong 18 (length bs))
      else
        and_then (ok_or (TslTooShort 18 (length bs)) (byte_at bs 0)) (\<lambda>address.
        if address AND 0x80 = 0 then Inl TslFraming else
        and_then (ok_or (TslTooShort 18 (length bs)) (byte_at bs 1)) (\<lambda>control.
        if control AND 0x80 \<noteq> 0 then Inl TslFraming else
        let b = brightness_new (unat (drop_bit 4 control AND 0x03)) in
        and_then (ok_or (TslTooShort 18 (length bs)) (slice 2 18 bs)) (\<lambda>text_bytes.
        Inr \<lparr>um_version = V31, um_screen = 0, um_displays =
          [\<lparr>ud_index = ucast (address AND 0x7F), ud_left = on_off_lamp (control AND 0x01 \<noteq> 0) b,
            ud_text_tally = lamp_off, ud_right = on_off_lamp (control AND 0x02 \<noteq> 0) b,
            ud_text = decode_ascii text_bytes\<rparr>]\<rparr>))))"

definition v31_encode_display :: "umd_display \<Rightarrow> tsl_out_error + bytes" where
  "v31_encode_display d =
     (let address = 0x80 OR (low_addr (ud_index d) AND 0x7F);
          control0 = push_bit 4 (word_of_nat (brightest d));
          control1 = (if lamp_lit (ud_left d) then control0 OR 0x01 else control0);
          control = (if lamp_lit (ud_right d) then control1 OR 0x02 else control1);
          packet = (replicate 18 0x20)[0 := address, 1 := control]
      in write_ascii packet 2 (ud_text d))"

definition v31_encode :: "umd_message \<Rightarrow> tsl_out_error + bytes" where
  "v31_encode m = and_then (ok_or (DisplayCount 0 1) (byte_at (um_displays m) 0)) v31_encode_display"

section \<open>Version 4.0\<close>

definition DLE :: byte where "DLE = 0x10"
definition STX :: byte where "STX = 0x02"
definition ETX :: byte where "ETX = 0x03"

definition tsl_checksum :: "bytes \<Rightarrow> byte" where
  "tsl_checksum body = - fold (\<lambda>b acc. acc + b) body 0"

definition v40_lamp :: "byte \<Rightarrow> brightness \<Rightarrow> tsl_in_error + tally_lamp" where
  "v40_lamp code b = ok_or TslFraming (lamp_from_wire (unat code) b)"

definition v40_decode :: "bytes \<Rightarrow> tsl_in_error + umd_message" where
  "v40_decode bs =
     (if length bs < 19 then Inl (TslTooShort 19 (length bs))
      else if length bs > 19 then Inl (TslTooLong 19 (length bs))
      else
        and_then (ok_or (TslTooShort 19 (length bs)) (slice 0 18 bs)) (\<lambda>body.
        and_then (ok_or (TslTooShort 19 (length bs)) (byte_at bs 18)) (\<lambda>expected.
        let computed = tsl_checksum body in
        if computed \<noteq> expected then Inl (TslChecksum expected computed) else
        and_then (ok_or (TslTooShort 19 (length bs)) (byte_at body 0)) (\<lambda>address.
        if address AND 0x80 = 0 then Inl TslFraming else
        and_then (ok_or (TslTooShort 19 (length bs)) (byte_at body 1)) (\<lambda>control.
        let b = brightness_new (unat (drop_bit 6 control AND 0x03)) in
        and_then (v40_lamp (control AND 0x03) b) (\<lambda>left.
        and_then (v40_lamp (drop_bit 2 control AND 0x03) b) (\<lambda>right.
        and_then (v40_lamp (drop_bit 4 control AND 0x03) b) (\<lambda>text_tally.
        and_then (ok_or (TslTooShort 19 (length bs)) (slice 2 18 body)) (\<lambda>text_bytes.
        Inr \<lparr>um_version = V40, um_screen = 0, um_displays =
          [\<lparr>ud_index = ucast (address AND 0x7F), ud_left = left, ud_text_tally = text_tally,
            ud_right = right, ud_text = decode_ascii text_bytes\<rparr>]\<rparr>)))))))))"

definition v40_decode_framed :: "bytes \<Rightarrow> tsl_in_error + umd_message" where
  "v40_decode_framed bs =
     (if length bs < 2 + 19 then Inl (TslTooShort (2 + 19) (length bs))
      else
        and_then (ok_or TslFraming (byte_at bs 0)) (\<lambda>dle.
        and_then (ok_or TslFraming (byte_at bs 1)) (\<lambda>stx.
        if dle \<noteq> DLE \<or> stx \<noteq> STX then Inl TslFraming else
        and_then (ok_or TslFraming (slice 2 (length bs) bs)) v40_decode)))"

definition v40_control :: "umd_display \<Rightarrow> byte" where
  "v40_control d = color_code (ud_left d) OR push_bit 2 (color_code (ud_right d)) OR
     push_bit 4 (color_code (ud_text_tally d)) OR push_bit 6 (word_of_nat (brightest d))"

definition v40_encode_display :: "umd_display \<Rightarrow> tsl_out_error + bytes" where
  "v40_encode_display d =
     (let address = 0x80 OR (low_addr (ud_index d) AND 0x7F);
          core0 = (replicate 19 0x20)[0 := address, 1 := v40_control d]
      in and_then (write_ascii core0 2 (ud_text d)) (\<lambda>core.
         and_then (ok_or (PacketTooLong 19 19) (slice 0 18 core)) (\<lambda>body.
         Inr (core[18 := tsl_checksum body]))))"

definition v40_encode :: "umd_message \<Rightarrow> tsl_out_error + bytes" where
  "v40_encode m = and_then (ok_or (DisplayCount 0 1) (byte_at (um_displays m) 0)) v40_encode_display"

definition v40_encode_framed :: "umd_display \<Rightarrow> tsl_out_error + bytes" where
  "v40_encode_framed d = and_then (v40_encode_display d) (\<lambda>core. Inr ([DLE, STX] @ core))"

section \<open>Version 5.0\<close>

definition le16 :: "byte \<Rightarrow> byte \<Rightarrow> 16 word" where
  "le16 lo hi = be16 hi lo"

definition put_le16 :: "16 word \<Rightarrow> bytes" where
  "put_le16 w = [ucast w, ucast (drop_bit 8 w)]"

definition MAX_PACKET_LEN :: nat where "MAX_PACKET_LEN = 2048"

definition tsl_read_u8 :: "bytes \<Rightarrow> nat \<Rightarrow> tsl_in_error + byte" where
  "tsl_read_u8 bs off = ok_or (TslTooShort (off + 1) (length bs)) (byte_at bs off)"

definition tsl_read_u16 :: "bytes \<Rightarrow> nat \<Rightarrow> tsl_in_error + 16 word" where
  "tsl_read_u16 bs off =
     and_then (tsl_read_u8 bs off) (\<lambda>lo. and_then (tsl_read_u8 bs (off + 1)) (\<lambda>hi. Inr (le16 lo hi)))"

definition v50_lamp :: "16 word \<Rightarrow> brightness \<Rightarrow> tsl_in_error + tally_lamp" where
  "v50_lamp code b = ok_or TslFraming (lamp_from_wire (unat (code AND 0xFF)) b)"

fun u16_units :: "bytes \<Rightarrow> nat list" where
  "u16_units (lo # hi # rest) = unat (le16 lo hi) # u16_units rest"
| "u16_units _ = []"

definition v50_decode_text :: "bytes \<Rightarrow> bool \<Rightarrow> tsl_in_error + rstring" where
  "v50_decode_text bs unicode =
     (if unicode then
        (if length bs mod 2 \<noteq> 0 then Inl (OddUtf16Len (length bs)) else Inr (from_utf16_lossy (u16_units bs)))
      else Inr (map (\<lambda>b. unat (b AND 0x7F)) bs))"

definition v50_entry :: "bool \<Rightarrow> bytes \<Rightarrow> nat \<Rightarrow> tsl_in_error + umd_display \<times> nat" where
  "v50_entry unicode bs off =
     and_then (tsl_read_u16 bs off) (\<lambda>index.
     and_then (tsl_read_u16 bs (off + 2)) (\<lambda>control.
     and_then (tsl_read_u16 bs (off + 4)) (\<lambda>len.
     let text_len = unat len; text_start = off + 6; text_end = text_start + text_len in
     and_then (ok_or (TslLength text_len (length bs - text_start)) (slice text_start text_end bs)) (\<lambda>text_bytes.
     let b = brightness_new (unat ((drop_bit 6 control AND 0x03) AND 0xFF)) in
     and_then (v50_lamp (control AND 0x03) b) (\<lambda>left.
     and_then (v50_lamp (drop_bit 2 control AND 0x03) b) (\<lambda>right.
     and_then (v50_lamp (drop_bit 4 control AND 0x03) b) (\<lambda>text_tally.
     and_then (v50_decode_text text_bytes unicode) (\<lambda>text.
     Inr (\<lparr>ud_index = index, ud_left = left, ud_text_tally = text_tally, ud_right = right, ud_text = text\<rparr>,
          text_end)))))))))"

definition v50_decode :: "bytes \<Rightarrow> tsl_in_error + umd_message" where
  "v50_decode bs =
     (if length bs > MAX_PACKET_LEN then Inl (TslTooLong MAX_PACKET_LEN (length bs)) else
      and_then (tsl_read_u16 bs 0) (\<lambda>pbc.
      let declared = unat pbc; available = length bs - 2 in
      if declared \<noteq> available then Inl (TslLength declared available)
      else if available < 4 then Inl (TslTooShort (2 + 4) (length bs)) else
      and_then (tsl_read_u8 bs 2) (\<lambda>_.
      and_then (tsl_read_u8 bs 3) (\<lambda>flags.
      and_then (tsl_read_u16 bs 4) (\<lambda>screen.
      and_then (parse_loop (v50_entry (flags AND 0x01 \<noteq> 0)) bs (2 + 4)) (\<lambda>displays.
      if displays = [] then Inl (TslTooShort (2 + 4 + 6) (length bs))
      else Inr \<lparr>um_version = V50, um_screen = screen, um_displays = displays\<rparr>))))))"

fun unstuff :: "bytes \<Rightarrow> tsl_in_error + bytes" where
  "unstuff [] = Inr []"
| "unstuff (b # bs) =
     (if b = DLE then
        (case bs of
           [] \<Rightarrow> Inl TslFraming
         | e # rest \<Rightarrow>
             if e = DLE then and_then (unstuff rest) (\<lambda>raw. Inr (DLE # raw))
             else if e = 0x03 then Inr []
             else Inl TslFraming)
      else and_then (unstuff bs) (\<lambda>raw. Inr (b # raw)))"

definition v50_decode_stuffed :: "bytes \<Rightarrow> tsl_in_error + umd_message" where
  "v50_decode_stuffed bs =
     (case bs of
        d # s # payload \<Rightarrow> if d = DLE \<and> s = STX then and_then (unstuff payload) v50_decode else Inl TslFraming
      | _ \<Rightarrow> Inl TslFraming)"

definition control_word :: "umd_display \<Rightarrow> 16 word" where
  "control_word d = ucast (color_code (ud_left d)) OR push_bit 2 (ucast (color_code (ud_right d))) OR
     push_bit 4 (ucast (color_code (ud_text_tally d))) OR push_bit 6 (word_of_nat (brightest d))"

fun v50_ascii :: "rstring \<Rightarrow> tsl_out_error + bytes" where
  "v50_ascii [] = Inr []"
| "v50_ascii (ch # chs) =
     (if \<not> is_ascii ch then Inl (NonRepresentable ch)
      else and_then (v50_ascii chs) (\<lambda>out. Inr ((word_of_nat ch AND 0x7F) # out)))"

definition v50_encode_text :: "rstring \<Rightarrow> bool \<Rightarrow> tsl_out_error + bytes" where
  "v50_encode_text text unicode =
     (if unicode then Inr (concat (map (\<lambda>u. put_le16 (word_of_nat u)) (encode_utf16 text))) else v50_ascii text)"

fun v50_encode_displays :: "umd_display list \<Rightarrow> bool \<Rightarrow> tsl_out_error + bytes" where
  "v50_encode_displays [] unicode = Inr []"
| "v50_encode_displays (d # ds) unicode =
     and_then (v50_encode_text (ud_text d) unicode) (\<lambda>text.
     if length text \<ge> 2 ^ 16 then Inl (PacketTooLong (length text) (2 ^ 16 - 1)) else
     and_then (v50_encode_displays ds unicode) (\<lambda>rest.
     Inr (put_le16 (ud_index d) @ put_le16 (control_word d) @ put_le16 (word_of_nat (length text)) @ text @ rest)))"

definition v50_encode :: "umd_message \<Rightarrow> bool \<Rightarrow> tsl_out_error + bytes" where
  "v50_encode m unicode =
     (if um_displays m = [] then Inl (DisplayCount 0 (2 ^ 64 - 1)) else
      and_then (v50_encode_displays (um_displays m) unicode) (\<lambda>ds.
      let after_pbc = [0, if unicode then 0x01 else 0] @ put_le16 (um_screen m) @ ds in
      if length after_pbc \<ge> 2 ^ 16 then Inl (PacketTooLong (length after_pbc) (2 ^ 16 - 1)) else
      let packet = put_le16 (word_of_nat (length after_pbc)) @ after_pbc in
      if length packet > MAX_PACKET_LEN then Inl (PacketTooLong (length packet) MAX_PACKET_LEN) else Inr packet))"

definition stuff :: "bytes \<Rightarrow> bytes" where
  "stuff raw = concat (map (\<lambda>b. if b = DLE then [b, DLE] else [b]) raw)"

definition v50_encode_stuffed :: "umd_message \<Rightarrow> bool \<Rightarrow> tsl_out_error + bytes" where
  "v50_encode_stuffed m unicode =
     and_then (v50_encode m unicode) (\<lambda>raw. Inr ([DLE, STX] @ stuff raw @ [DLE, ETX]))"

section \<open>Fields and masks\<close>

lemma masks: "(0x7F :: 'a::len word) = mask 7" "(0x03 :: 'a::len word) = mask 2" "(0xFF :: 'a::len word) = mask 8"
  by (simp_all add: mask_eq_exp_minus_1)

lemma small_word_bits:
  assumes "n < 2 ^ k" and "bit (word_of_nat n :: 'a::len word) i"
  shows "i < k"
  using assms nat_bit_bound [of n k i] by (simp add: bit_of_nat_iff)

text \<open>Four two-bit fields packed low to high and read back.\<close>

lemma two_bit_fields:
  fixes a b c d :: "'a::len word"
  assumes "8 \<le> LENGTH('a)" and bits: "\<And>i. bit a i \<Longrightarrow> i < 2" "\<And>i. bit b i \<Longrightarrow> i < 2" "\<And>i. bit c i \<Longrightarrow> i < 2" "\<And>i. bit d i \<Longrightarrow> i < 2"
  defines "w \<equiv> a OR push_bit 2 b OR push_bit 4 c OR push_bit 6 d"
  shows "w AND mask 2 = a" "drop_bit 2 w AND mask 2 = b" "drop_bit 4 w AND mask 2 = c" "drop_bit 6 w AND mask 2 = d"
proof -
  have w: "bit w i \<longleftrightarrow> bit a i \<or> 2 \<le> i \<and> i < 4 \<and> bit b (i - 2) \<or> 4 \<le> i \<and> i < 6 \<and> bit c (i - 4) \<or> 6 \<le> i \<and> i < 8 \<and> bit d (i - 6)" for i
    using assms(1) bits(2) [of "i - 2"] bits(3) [of "i - 4"] bits(4) [of "i - 6"]
    unfolding w_def by (auto simp: bit_or_iff bit_push_bit_iff)
  show "w AND mask 2 = a" by (rule bit_word_eqI) (auto simp: bit_and_iff bit_mask_iff w dest: bits)
  show "drop_bit 2 w AND mask 2 = b" by (rule bit_word_eqI) (auto simp: bit_and_iff bit_mask_iff bit_drop_bit_eq w dest: bits)
  show "drop_bit 4 w AND mask 2 = c" by (rule bit_word_eqI) (auto simp: bit_and_iff bit_mask_iff bit_drop_bit_eq w dest: bits)
  show "drop_bit 6 w AND mask 2 = d" by (rule bit_word_eqI) (auto simp: bit_and_iff bit_mask_iff bit_drop_bit_eq w dest: bits)
qed

lemma tsl_code_bound: "tsl_code c < 2 ^ 2"
  by (cases c) simp_all

lemma color_code_bits: "bit (color_code l) i \<Longrightarrow> i < 2"
  unfolding color_code_def by (rule small_word_bits [OF tsl_code_bound])

definition dim_lamps :: "umd_display \<Rightarrow> bool" where
  "dim_lamps d \<longleftrightarrow> (\<forall>l \<in> {ud_left d, ud_text_tally d, ud_right d}. tl_brightness l \<le> 3)"

lemma brightest_le: "dim_lamps d \<Longrightarrow> brightest d \<le> 3"
  by (auto simp: brightest_def dim_lamps_def brightness_full_def Let_def)

lemma brightness_new_id: "b \<le> 3 \<Longrightarrow> brightness_new b = b"
  by (simp add: brightness_new_def)

lemma low7:
  fixes i :: "16 word"
  defines "address \<equiv> 0x80 OR (low_addr i AND 0x7F)"
  shows "address AND 0x80 \<noteq> 0" and "ucast (address AND 0x7F) = i AND 0x7F"
proof -
  have "bit (address AND 0x80) 7" unfolding address_def by (simp only: bit_and_iff bit_or_iff bit_masks) simp
  then show "address AND 0x80 \<noteq> 0" by auto
  show "ucast (address AND 0x7F) = i AND 0x7F"
    unfolding address_def low_addr_def
    by (rule bit_word_eqI) (simp only: masks bit_simps, auto simp: bit_simps)
qed

section \<open>Label fields\<close>

lemma write_chars_result:
  "write_chars t i p = Inr q \<Longrightarrow> i \<le> length p \<Longrightarrow>
     (\<forall>c \<in> set t. is_ascii c) \<and> i + length t \<le> length p \<and> q = take i p @ map word_of_nat t @ drop (i + length t) p"
proof (induction t i p rule: write_chars.induct)
  case (2 ch chs i p)
  then have a: "is_ascii ch" "i < length p" "write_chars chs (i + 1) (p[i := word_of_nat ch]) = Inr q"
    by (auto split: if_splits)
  note IH = "2.IH" [OF _ a(2,3)]
  have "take (i + 1) (p[i := word_of_nat ch]) = take i p @ [word_of_nat ch]"
    using a(2) by (simp add: take_Suc_conv_app_nth)
  moreover have "drop (i + 1 + length chs) (p[i := word_of_nat ch]) = drop (i + 1 + length chs) p"
    by (simp add: drop_update_cancel)
  ultimately show ?case using IH a by (auto simp: Suc_le_eq)
qed simp

lemma unat_and_7F: "c < 128 \<Longrightarrow> unat ((word_of_nat c :: byte) AND 0x7F) = c"
proof -
  assume c: "c < 128"
  have "(word_of_nat c :: byte) AND 0x7F = word_of_nat c"
    unfolding masks
    by (rule bit_word_eqI) (use small_word_bits [of c 7] c in \<open>auto simp: bit_and_iff bit_mask_iff\<close>)
  then show ?thesis using c by (simp add: unat_of_nat)
qed

lemma decode_ascii_field:
  assumes "\<forall>c \<in> set t. is_ascii c"
  shows "decode_ascii (map word_of_nat t @ replicate n 0x20) = trim_end_spaces t"
proof -
  have "map (\<lambda>b. unat (b AND 0x7F)) (map word_of_nat t :: bytes) = t"
    using assms by (induction t) (simp_all add: is_ascii_def unat_and_7F)
  moreover have "unat ((0x20 :: byte) AND 0x7F) = 32" by simp
  ultimately show ?thesis by (simp add: decode_ascii_def trim_end_pad map_replicate)
qed

lemma write_ascii_field:
  assumes "write_ascii (a # c # replicate n 0x20) 2 t = Inr q" and "16 \<le> n"
  shows "\<forall>c \<in> set t. is_ascii c" and "length t \<le> 16"
    and "q = a # c # map word_of_nat t @ replicate (n - length t) 0x20"
proof -
  from assms have l: "length t \<le> 16" "write_chars t 2 (a # c # replicate n 0x20) = Inr q"
    by (auto simp: write_ascii_def split: if_splits)
  from write_chars_result [OF l(2)] show "\<forall>c \<in> set t. is_ascii c" "q = a # c # map word_of_nat t @ replicate (n - length t) 0x20"
    by (simp_all add: numeral_2_eq_2)
  show "length t \<le> 16" by (rule l(1))
qed

lemma write_ascii_ok:
  assumes "\<forall>c \<in> set t. is_ascii c" and "length t \<le> 16" and "18 \<le> length p"
  shows "\<exists>q. write_ascii p 2 t = Inr q"
proof -
  have "\<exists>q. write_chars t i p = Inr q" if "\<forall>c \<in> set t. is_ascii c" "i + length t \<le> length p" for i
    using that by (induction t i p rule: write_chars.induct) auto
  from this [of 2] assms show ?thesis by (simp add: write_ascii_def)
qed

section \<open>What survives the wire\<close>

text \<open>Version 3.1 keeps seven address bits, two on/off lamps, one brightness and a padded label;
  version 4.0 keeps the colours; version 5.0 keeps everything but the separate brightnesses.\<close>

definition shared :: "umd_display \<Rightarrow> tally_lamp \<Rightarrow> tally_lamp" where
  "shared d l = \<lparr>tl_color = tl_color l, tl_brightness = brightest d\<rparr>"

definition canon31 :: "umd_display \<Rightarrow> umd_display" where
  "canon31 d = \<lparr>ud_index = ud_index d AND 0x7F, ud_left = on_off_lamp (lamp_lit (ud_left d)) (brightest d),
     ud_text_tally = lamp_off, ud_right = on_off_lamp (lamp_lit (ud_right d)) (brightest d),
     ud_text = trim_end_spaces (ud_text d)\<rparr>"

definition canon40 :: "umd_display \<Rightarrow> umd_display" where
  "canon40 d = \<lparr>ud_index = ud_index d AND 0x7F, ud_left = shared d (ud_left d),
     ud_text_tally = shared d (ud_text_tally d), ud_right = shared d (ud_right d),
     ud_text = trim_end_spaces (ud_text d)\<rparr>"

definition canon50 :: "umd_display \<Rightarrow> umd_display" where
  "canon50 d = \<lparr>ud_index = ud_index d, ud_left = shared d (ud_left d),
     ud_text_tally = shared d (ud_text_tally d), ud_right = shared d (ud_right d), ud_text = ud_text d\<rparr>"

lemma v31_roundtrip:
  assumes "v31_encode_display d = Inr p" and "dim_lamps d"
  shows "v31_decode p = Inr \<lparr>um_version = V31, um_screen = 0, um_displays = [canon31 d]\<rparr>"
proof -
  define control where "control = (let control0 = push_bit 4 (word_of_nat (brightest d));
      control1 = (if lamp_lit (ud_left d) then control0 OR 0x01 else control0)
    in if lamp_lit (ud_right d) then control1 OR 0x02 else control1 :: byte)"
  let ?address = "0x80 OR (low_addr (ud_index d) AND 0x7F)"
  from assms(1) have w: "write_ascii (?address # control # replicate 16 0x20) 2 (ud_text d) = Inr p"
    by (simp add: v31_encode_display_def control_def Let_def numeral_eq_Suc)
  note p = write_ascii_field [OF w]
  have b: "brightest d \<in> {0, 1, 2, 3}" using brightest_le [OF assms(2)] by auto
  then have c: "control AND 0x80 = 0" "unat (drop_bit 4 control AND 0x03) = brightest d"
    "control AND 0x01 \<noteq> 0 \<longleftrightarrow> lamp_lit (ud_left d)" "control AND 0x02 \<noteq> 0 \<longleftrightarrow> lamp_lit (ud_right d)"
    by (auto simp: control_def Let_def)
  have len: "length p = 18" using p(2,3) by simp
  have "slice 2 18 p = Some (map word_of_nat (ud_text d) @ replicate (16 - length (ud_text d)) 0x20)"
    using p(2) by (simp add: slice_def p(3) numeral_2_eq_2)
  then show ?thesis
    using p(1) c low7 [of "ud_index d"] brightest_le [OF assms(2)]
    by (simp add: v31_decode_def len) (simp add: p(3) Let_def canon31_def decode_ascii_field brightness_new_id)
qed

lemma lamp_read: "lamp_from_wire (tsl_code (tl_color l)) (brightest d) = Some (shared d l)"
  by (simp add: lamp_from_wire_def shared_def from_tsl_code_iff [THEN iffD2, OF refl])

lemma unat_color_code: "unat (color_code l) = tsl_code (tl_color l)"
  by (cases "tl_color l") (simp_all add: color_code_def)

lemma v40_lamp_read: "v40_lamp (color_code l) (brightest d) = Inr (shared d l)"
  by (simp add: v40_lamp_def unat_color_code lamp_read)

lemma brightness_bits: "dim_lamps d \<Longrightarrow> bit (word_of_nat (brightest d) :: 'a::len word) i \<Longrightarrow> i < 2"
  using small_word_bits [of "brightest d" 2 i] brightest_le [of d] by simp

lemma v40_control_fields:
  assumes "dim_lamps d"
  shows "v40_control d AND 0x03 = color_code (ud_left d)" "drop_bit 2 (v40_control d) AND 0x03 = color_code (ud_right d)"
    "drop_bit 4 (v40_control d) AND 0x03 = color_code (ud_text_tally d)"
    "unat (drop_bit 6 (v40_control d) AND 0x03) = brightest d"
proof -
  note f = two_bit_fields [of "color_code (ud_left d)" "color_code (ud_right d)" "color_code (ud_text_tally d)"
      "word_of_nat (brightest d)", OF _ color_code_bits color_code_bits color_code_bits brightness_bits [OF assms],
      folded v40_control_def masks]
  show "v40_control d AND 0x03 = color_code (ud_left d)" "drop_bit 2 (v40_control d) AND 0x03 = color_code (ud_right d)"
    "drop_bit 4 (v40_control d) AND 0x03 = color_code (ud_text_tally d)"
    by (simp_all add: f(1-3))
  have "unat (word_of_nat (brightest d) :: byte) = brightest d"
    using brightest_le [OF assms] by (simp add: unat_of_nat)
  then show "unat (drop_bit 6 (v40_control d) AND 0x03) = brightest d" by (simp add: f(4))
qed

lemma v40_roundtrip:
  assumes "v40_encode_display d = Inr p" and "dim_lamps d"
  shows "v40_decode p = Inr \<lparr>um_version = V40, um_screen = 0, um_displays = [canon40 d]\<rparr>"
    and "length p = 19"
proof -
  let ?address = "0x80 OR (low_addr (ud_index d) AND 0x7F)" and ?t = "ud_text d"
  from assms(1) obtain core body where
    w: "write_ascii (?address # v40_control d # replicate 17 0x20) 2 ?t = Inr core"
    and b: "slice 0 18 core = Some body" and p: "p = core[18 := tsl_checksum body]"
    by (auto simp: v40_encode_display_def and_then_Inr Let_def numeral_eq_Suc)
  note core = write_ascii_field [OF w, simplified]
  define label where "label = (map word_of_nat ?t @ replicate (16 - length ?t) 0x20 :: bytes)"
  have split: "replicate (17 - length ?t) 0x20 = replicate (16 - length ?t) 0x20 @ [0x20 :: byte]"
    using core(2) replicate_append_same [of "16 - length ?t" "0x20 :: byte"]
    by (simp add: Suc_diff_le flip: replicate_Suc)
  have core': "core = (?address # v40_control d # label) @ [0x20]" using core(3) split by (simp add: label_def)
  have lt: "length label = 16" using core(2) by (simp add: label_def)
  have body: "body = ?address # v40_control d # label" using b core' lt by (simp add: slice_def)
  have p': "p = body @ [tsl_checksum body]" using p core' lt by (simp add: body list_update_append)
  show len: "length p = 19" using lt by (simp add: p' body)
  have s: "slice 0 18 p = Some body" "byte_at p 18 = Some (tsl_checksum body)" "slice 2 18 body = Some label"
    using lt by (simp_all add: p' slice_def byte_at_def body nth_append)
  have "decode_ascii label = trim_end_spaces ?t" unfolding label_def by (rule decode_ascii_field [OF core(1)])
  then show "v40_decode p = Inr \<lparr>um_version = V40, um_screen = 0, um_displays = [canon40 d]\<rparr>"
    using low7 [of "ud_index d"] v40_control_fields [OF assms(2)] brightest_le [OF assms(2)]
    by (simp add: v40_decode_def len s Let_def, simp add: body s(3) [unfolded body] canon40_def v40_lamp_read brightness_new_id)
qed

text \<open>The additive checksum sees every single changed byte.\<close>

lemma tsl_checksum_sum: "tsl_checksum body = - sum_list body"
proof -
  have "fold (\<lambda>b acc. acc + b) body a = a + sum_list body" for a
    by (induction body arbitrary: a) (simp_all add: add.assoc)
  then show ?thesis by (simp add: tsl_checksum_def)
qed

lemma v40_accepts_sum: "v40_decode p = Inr m \<Longrightarrow> length p = 19 \<and> sum_list p = 0"
proof -
  assume "v40_decode p = Inr m"
  then have l: "length p = 19" and c: "tsl_checksum (take 18 p) = p ! 18"
    by (auto simp: v40_decode_def and_then_Inr Let_def byte_at_Some slice_def split: if_splits)
  have "p = take 18 p @ [p ! 18]" using l by (simp add: take_Suc_conv_app_nth [symmetric] numeral_eq_Suc)
  then have "sum_list p = sum_list (take 18 p) + p ! 18" by (metis add.right_neutral sum_list.Cons sum_list.Nil sum_list_append)
  moreover have "p ! 18 = - sum_list (take 18 p)" using c by (simp add: tsl_checksum_sum)
  ultimately show ?thesis using l by simp
qed

lemma v40_detects_byte:
  assumes "v40_decode p = Inr m" and "i < 19" and "b \<noteq> p ! i"
  shows "v40_decode (p[i := b]) \<noteq> Inr m'"
proof
  assume "v40_decode (p[i := b]) = Inr m'"
  from v40_accepts_sum [OF assms(1)] v40_accepts_sum [OF this]
  have l: "length p = 19" and z: "sum_list p = 0" "sum_list (p[i := b]) = 0" by simp_all
  have "p = take i p @ p ! i # drop (Suc i) p" using assms(2) l by (simp add: id_take_nth_drop)
  then have a: "sum_list p = sum_list (take i p) + p ! i + sum_list (drop (Suc i) p)"
    by (metis add.assoc sum_list.Cons sum_list_append)
  have "p[i := b] = take i p @ b # drop (Suc i) p" using assms(2) l by (simp add: upd_conv_take_nth_drop)
  then have "sum_list (p[i := b]) = sum_list (take i p) + b + sum_list (drop (Suc i) p)" by (simp add: add.assoc)
  with a z assms(3) show False by (metis add_left_cancel add_right_cancel)
qed

section \<open>Version 5.0 read back\<close>

lemma le16_put: "put_le16 w = [lo, hi] \<Longrightarrow> le16 lo hi = w"
  using be16_put16 [of w hi lo] by (simp add: put_le16_def le16_def put16_def)

lemma length_put_le16 [simp]: "length (put_le16 w) = 2"
  by (simp add: put_le16_def)

lemma control_word_fields:
  assumes "dim_lamps d"
  shows "control_word d AND 0x03 = ucast (color_code (ud_left d))"
    "drop_bit 2 (control_word d) AND 0x03 = ucast (color_code (ud_right d))"
    "drop_bit 4 (control_word d) AND 0x03 = ucast (color_code (ud_text_tally d))"
    "drop_bit 6 (control_word d) AND 0x03 = word_of_nat (brightest d)"
proof -
  have u: "bit (ucast (color_code l) :: 16 word) i \<Longrightarrow> i < 2" for l i
    using color_code_bits [of l i] by (simp add: bit_unsigned_iff)
  note f = two_bit_fields [of "ucast (color_code (ud_left d)) :: 16 word" "ucast (color_code (ud_right d))"
      "ucast (color_code (ud_text_tally d))" "word_of_nat (brightest d)", OF _ u [of "ud_left d"] u [of "ud_right d"] u [of "ud_text_tally d"] brightness_bits [OF assms],
      folded control_word_def masks]
  show "control_word d AND 0x03 = ucast (color_code (ud_left d))"
    "drop_bit 2 (control_word d) AND 0x03 = ucast (color_code (ud_right d))"
    "drop_bit 4 (control_word d) AND 0x03 = ucast (color_code (ud_text_tally d))"
    "drop_bit 6 (control_word d) AND 0x03 = word_of_nat (brightest d)"
    by (simp_all add: f)
qed

lemma and_FF_small: "(\<And>i. bit w i \<Longrightarrow> i < 8) \<Longrightarrow> (w :: 16 word) AND 0xFF = w"
  unfolding masks by (rule bit_word_eqI) (auto simp: bit_and_iff bit_mask_iff)

lemma v50_lamp_read: "v50_lamp (ucast (color_code l)) (brightest d) = Inr (shared d l)"
proof -
  have "(ucast (color_code l) :: 16 word) AND 0xFF = ucast (color_code l)"
    by (rule and_FF_small) (auto simp: bit_unsigned_iff dest: color_code_bits)
  then show ?thesis by (simp add: v50_lamp_def unat_color_code lamp_read)
qed

lemma v50_brightness_read:
  assumes "dim_lamps d"
  shows "brightness_new (unat ((drop_bit 6 (control_word d) AND 0x03) AND 0xFF)) = brightest d"
proof -
  have "(word_of_nat (brightest d) :: 16 word) AND 0xFF = word_of_nat (brightest d)"
    by (rule and_FF_small) (auto dest: brightness_bits [OF assms])
  moreover have "unat (word_of_nat (brightest d) :: 16 word) = brightest d"
    using brightest_le [OF assms] by (simp add: unat_of_nat)
  ultimately show ?thesis
    using brightest_le [OF assms] by (simp add: control_word_fields(4) [OF assms] brightness_new_id)
qed

lemma put_le16_parts: "\<exists>lo hi. put_le16 w = [lo, hi] \<and> le16 lo hi = w"
  using le16_put [of w] by (simp add: put_le16_def)

lemma read_u16_field: "off = length pre \<Longrightarrow> tsl_read_u16 (pre @ put_le16 w @ post) off = Inr w"
proof -
  assume off: "off = length pre"
  obtain lo hi where "put_le16 w = [lo, hi]" "le16 lo hi = w" using put_le16_parts by blast
  then show ?thesis by (simp add: off tsl_read_u16_def tsl_read_u8_def byte_at_def nth_append)
qed

lemma u16_units_put:
  "\<forall>u \<in> set us. u < 65536 \<Longrightarrow> u16_units (concat (map (\<lambda>u. put_le16 (word_of_nat u)) us)) = us"
proof (induction us)
  case (Cons u us)
  obtain lo hi where p: "put_le16 (word_of_nat u) = [lo, hi]" "le16 lo hi = word_of_nat u" using put_le16_parts by blast
  have "unat (word_of_nat u :: 16 word) = u" using Cons.prems by (simp add: unat_of_nat)
  with p Cons show ?case by simp
qed simp

lemma length_units: "even (length (concat (map (\<lambda>u. put_le16 (f u)) us)))"
  by (induction us) simp_all

lemma v50_ascii_result: "v50_ascii t = Inr out \<Longrightarrow> map (\<lambda>b. unat (b AND 0x7F)) out = t"
proof (induction t arbitrary: out)
  case (Cons c t)
  then obtain o' where o: "is_ascii c" "v50_ascii t = Inr o'" "out = (word_of_nat c AND 0x7F) # o'"
    by (auto simp: and_then_Inr split: if_splits)
  have "((word_of_nat c AND 0x7F) AND 0x7F :: byte) = word_of_nat c AND 0x7F"
    by (simp only: and.assoc and.idem)
  then show ?case using o Cons.IH [OF o(2)] by (simp add: unat_and_7F is_ascii_def)
qed simp

lemma v50_text_read:
  assumes "v50_encode_text t unicode = Inr out" and "\<forall>c \<in> set t. scalar c"
  shows "v50_decode_text out unicode = Inr t"
proof (cases unicode)
  case True
  then have "out = concat (map (\<lambda>u. put_le16 (word_of_nat u)) (encode_utf16 t))"
    using assms(1) by (simp add: v50_encode_text_def)
  moreover have "u16_units (concat (map (\<lambda>u. put_le16 (word_of_nat u)) (encode_utf16 t))) = encode_utf16 t"
    by (rule u16_units_put) (use encode_utf16_bound [OF assms(2)] in blast)
  ultimately show ?thesis
    using True length_units [of word_of_nat "encode_utf16 t"] utf16_roundtrip [OF assms(2)]
    by (simp add: v50_decode_text_def)
next
  case False
  then show ?thesis using assms(1) by (simp add: v50_encode_text_def v50_decode_text_def v50_ascii_result)
qed

lemma v50_entry_read:
  assumes t: "v50_encode_text (ud_text d) unicode = Inr out" "length out < 2 ^ 16"
    and d: "dim_lamps d" "\<forall>c \<in> set (ud_text d). scalar c"
    and bs: "bs = pre @ put_le16 (ud_index d) @ put_le16 (control_word d) @ put_le16 (word_of_nat (length out)) @ out @ post"
  shows "v50_entry unicode bs (length pre) = Inr (canon50 d, length pre + 6 + length out)"
proof -
  have r: "tsl_read_u16 bs (length pre) = Inr (ud_index d)" unfolding bs by (rule read_u16_field) simp
  have r2: "tsl_read_u16 bs (length pre + 2) = Inr (control_word d)"
    using read_u16_field [of "length pre + 2" "pre @ put_le16 (ud_index d)"] by (simp add: bs)
  have r4: "tsl_read_u16 bs (length pre + 4) = Inr (word_of_nat (length out))"
    using read_u16_field [of "length pre + 4" "pre @ put_le16 (ud_index d) @ put_le16 (control_word d)"] by (simp add: bs)
  have s: "slice (length pre + 6) (length pre + 6 + length out) bs = Some out"
    using slice_middle [of "pre @ put_le16 (ud_index d) @ put_le16 (control_word d) @ put_le16 (word_of_nat (length out))" out post]
    by (simp add: bs)
  have l: "unat (word_of_nat (length out) :: 16 word) = length out" using t(2) by (simp add: unat_of_nat)
  show ?thesis
    by (simp add: v50_entry_def r r2 r4 l s Let_def v50_brightness_read [OF d(1)] control_word_fields(1-3) [OF d(1)]
        v50_lamp_read v50_text_read [OF t(1) d(2)] canon50_def del: add_2_eq_Suc')
qed

lemma v50_displays_read:
  "v50_encode_displays ds unicode = Inr out \<Longrightarrow> \<forall>d \<in> set ds. dim_lamps d \<and> (\<forall>c \<in> set (ud_text d). scalar c) \<Longrightarrow>
     parse_loop (v50_entry unicode) (pre @ out) (length pre) = Inr (map canon50 ds)"
proof (induction ds arbitrary: pre out)
  case Nil
  then show ?case by (subst parse_loop.simps) simp
next
  case (Cons d ds)
  from Cons.prems(1) obtain t rest where
    t: "v50_encode_text (ud_text d) unicode = Inr t" "length t < 2 ^ 16"
    and rest: "v50_encode_displays ds unicode = Inr rest"
    and out: "out = put_le16 (ud_index d) @ put_le16 (control_word d) @ put_le16 (word_of_nat (length t)) @ t @ rest"
    by (auto simp: and_then_Inr split: if_splits)
  let ?pre = "pre @ put_le16 (ud_index d) @ put_le16 (control_word d) @ put_le16 (word_of_nat (length t)) @ t"
  have e: "v50_entry unicode (pre @ out) (length pre) = Inr (canon50 d, length pre + 6 + length t)"
    by (rule v50_entry_read [OF t]) (use Cons.prems(2) in \<open>simp_all add: out\<close>)
  have "parse_loop (v50_entry unicode) (?pre @ rest) (length ?pre) = Inr (map canon50 ds)"
    by (rule Cons.IH [OF rest]) (use Cons.prems(2) in simp)
  moreover have "?pre @ rest = pre @ out" "length ?pre = length pre + 6 + length t" by (simp_all add: out)
  ultimately have r: "parse_loop (v50_entry unicode) (pre @ out) (length pre + 6 + length t) = Inr (map canon50 ds)"
    by (simp only:)
  show ?case by (subst parse_loop.simps) (simp add: e r, simp add: out put_le16_def)
qed

definition writable :: "umd_message \<Rightarrow> bool" where
  "writable m \<longleftrightarrow> (\<forall>d \<in> set (um_displays m). dim_lamps d \<and> (\<forall>c \<in> set (ud_text d). scalar c))"

lemma v50_roundtrip:
  assumes "v50_encode m unicode = Inr p" and "writable m"
  shows "v50_decode p = Inr \<lparr>um_version = V50, um_screen = um_screen m, um_displays = map canon50 (um_displays m)\<rparr>"
proof -
  define fl :: byte where "fl = (if unicode then 0x01 else 0)"
  from assms(1) obtain ds where ne: "um_displays m \<noteq> []" and ds: "v50_encode_displays (um_displays m) unicode = Inr ds"
    and len: "length ds + 4 < 2 ^ 16" "length ds + 6 \<le> MAX_PACKET_LEN"
    and p: "p = put_le16 (word_of_nat (length ds + 4)) @ [0, fl] @ put_le16 (um_screen m) @ ds"
    by (auto simp: v50_encode_def and_then_Inr Let_def fl_def add.commute split: if_splits)
  let ?pre = "put_le16 (word_of_nat (length ds + 4)) @ [0, fl] @ put_le16 (um_screen m)"
  have lp: "length p = length ds + 6" by (simp add: p)
  have r0: "tsl_read_u16 p 0 = Inr (word_of_nat (length ds + 4))"
    using read_u16_field [of 0 "[]"] by (simp add: p)
  have r4: "tsl_read_u16 p 4 = Inr (um_screen m)"
    using read_u16_field [of 4 "put_le16 (word_of_nat (length ds + 4)) @ [0, fl]"] by (simp add: p)
  have "parse_loop (v50_entry unicode) (?pre @ ds) (length ?pre) = Inr (map canon50 (um_displays m))"
    by (rule v50_displays_read [OF ds]) (use assms(2) in \<open>auto simp: writable_def\<close>)
  then have l: "parse_loop (v50_entry unicode) p 6 = Inr (map canon50 (um_displays m))" by (simp add: p)
  have b: "tsl_read_u8 p 2 = Inr 0" "tsl_read_u8 p 3 = Inr fl"
    by (simp_all add: tsl_read_u8_def byte_at_def p nth_append)
  have u: "unat (word_of_nat (length ds + 4) :: 16 word) = length ds + 4" using len(1) by (simp add: unat_of_nat del: of_nat_add)
  have f: "fl AND 0x01 \<noteq> 0 \<longleftrightarrow> unicode" by (simp add: fl_def)
  show ?thesis
    using len(2) ne by (simp add: v50_decode_def lp r0 r4 b u f l del: of_nat_add)
qed

lemma unstuff_stuff: "unstuff (stuff raw @ [DLE, ETX]) = Inr raw"
  by (induction raw) (simp_all add: stuff_def DLE_def ETX_def)

lemma v50_stuffed_roundtrip:
  assumes "v50_encode_stuffed m unicode = Inr p" and "writable m"
  shows "v50_decode_stuffed p = Inr \<lparr>um_version = V50, um_screen = um_screen m, um_displays = map canon50 (um_displays m)\<rparr>"
proof -
  from assms(1) obtain raw where raw: "v50_encode m unicode = Inr raw" "p = DLE # STX # (stuff raw @ [DLE, ETX])"
    by (auto simp: v50_encode_stuffed_def and_then_Inr)
  show ?thesis by (simp add: v50_decode_stuffed_def raw(2) unstuff_stuff v50_roundtrip [OF raw(1) assms(2)])
qed

lemma v40_framed_roundtrip:
  assumes "v40_encode_framed d = Inr p" and "dim_lamps d"
  shows "v40_decode_framed p = Inr \<lparr>um_version = V40, um_screen = 0, um_displays = [canon40 d]\<rparr>"
proof -
  from assms(1) obtain core where core: "v40_encode_display d = Inr core" "p = DLE # STX # core"
    by (auto simp: v40_encode_framed_def and_then_Inr)
  note r = v40_roundtrip [OF core(1) assms(2)]
  have "slice 2 (length p) p = Some core" by (simp add: core(2) slice_def numeral_2_eq_2)
  then show ?thesis using r by (simp add: v40_decode_framed_def core(2) byte_at_def)
qed

lemma first_display:
  assumes "writable m" and "byte_at (um_displays m) 0 = Some d"
  shows "d = hd (um_displays m)" and "dim_lamps d"
  using assms by (auto simp: writable_def byte_at_Some hd_conv_nth)

lemma v31_message_roundtrip:
  assumes "v31_encode m = Inr p" and "writable m"
  shows "v31_decode p = Inr \<lparr>um_version = V31, um_screen = 0, um_displays = [canon31 (hd (um_displays m))]\<rparr>"
proof -
  from assms(1) obtain d where d: "byte_at (um_displays m) 0 = Some d" "v31_encode_display d = Inr p"
    by (auto simp: v31_encode_def and_then_Inr)
  from v31_roundtrip [OF d(2)] first_display [OF assms(2) d(1)] show ?thesis by simp
qed

lemma v40_message_roundtrip:
  assumes "v40_encode m = Inr p" and "writable m"
  shows "v40_decode p = Inr \<lparr>um_version = V40, um_screen = 0, um_displays = [canon40 (hd (um_displays m))]\<rparr>"
    and "v40_encode_framed (hd (um_displays m)) = Inr ([DLE, STX] @ p)"
    and "v40_decode_framed ([DLE, STX] @ p) = v40_decode p"
proof -
  from assms(1) obtain d where d: "byte_at (um_displays m) 0 = Some d" "v40_encode_display d = Inr p"
    by (auto simp: v40_encode_def and_then_Inr)
  note h = first_display [OF assms(2) d(1)]
  show r: "v40_decode p = Inr \<lparr>um_version = V40, um_screen = 0, um_displays = [canon40 (hd (um_displays m))]\<rparr>"
    using v40_roundtrip(1) [OF d(2) h(2)] h(1) by simp
  have f: "v40_encode_framed d = Inr ([DLE, STX] @ p)" by (simp add: v40_encode_framed_def d(2))
  then show "v40_encode_framed (hd (um_displays m)) = Inr ([DLE, STX] @ p)" using h(1) by simp
  show "v40_decode_framed ([DLE, STX] @ p) = v40_decode p"
    using v40_framed_roundtrip [OF f h(2)] r h(1) by simp
qed

text \<open>C32: the TSL codecs of the input and the output crate agree. For lamps of legal brightness and
  labels of Unicode scalar values, whatever the output crate's encoder accepts, the input crate's
  decoder reads back, in every version and framing: version 3.1 as the seven-bit address, the two
  on/off lamps, the brightest lit level and the unpadded label; version 4.0 (bare or framed) with
  the colours; version 5.0 (bare or byte-stuffed, ASCII or UTF-16) all displays in order, with
  every lamp at the brightest lit level. And the 4.0 checksum refuses any single changed byte.\<close>

theorem umd_roundtrip:
  assumes "writable m"
  shows "(\<forall>p. v31_encode m = Inr p \<longrightarrow>
      v31_decode p = Inr \<lparr>um_version = V31, um_screen = 0, um_displays = [canon31 (hd (um_displays m))]\<rparr>) \<and>
    (\<forall>p. v40_encode m = Inr p \<longrightarrow>
      v40_decode p = Inr \<lparr>um_version = V40, um_screen = 0, um_displays = [canon40 (hd (um_displays m))]\<rparr> \<and>
      v40_encode_framed (hd (um_displays m)) = Inr ([DLE, STX] @ p) \<and>
      v40_decode_framed ([DLE, STX] @ p) = v40_decode p \<and>
      (\<forall>i b m'. i < 19 \<and> b \<noteq> p ! i \<longrightarrow> v40_decode (p[i := b]) \<noteq> Inr m')) \<and>
    (\<forall>unicode p. v50_encode m unicode = Inr p \<longrightarrow>
      v50_decode p = Inr \<lparr>um_version = V50, um_screen = um_screen m, um_displays = map canon50 (um_displays m)\<rparr> \<and>
      v50_encode_stuffed m unicode = Inr ([DLE, STX] @ stuff p @ [DLE, ETX]) \<and>
      v50_decode_stuffed ([DLE, STX] @ stuff p @ [DLE, ETX]) = v50_decode p)"
proof -
  have s: "v50_encode_stuffed m unicode = Inr ([DLE, STX] @ stuff p @ [DLE, ETX])" if "v50_encode m unicode = Inr p" for p unicode
    by (simp add: v50_encode_stuffed_def that)
  have c: "v40_decode (p[i := b]) \<noteq> Inr m'" if "v40_encode m = Inr p" "i < 19" "b \<noteq> p ! i" for p i b m'
    by (rule v40_detects_byte [OF v40_message_roundtrip(1) [OF that(1) assms] that(2,3)])
  show ?thesis
    using v31_message_roundtrip [OF _ assms] v40_message_roundtrip [OF _ assms] c
      v50_roundtrip [OF _ assms] v50_stuffed_roundtrip [OF s assms] s
    by (intro conjI allI impI) simp_all
qed

definition two_labels :: umd_message where
  "two_labels = \<lparr>um_version = V50, um_screen = 7, um_displays =
     [\<lparr>ud_index = 3, ud_left = \<lparr>tl_color = TallyRed, tl_brightness = 2\<rparr>, ud_text_tally = lamp_off,
       ud_right = \<lparr>tl_color = TallyGreen, tl_brightness = 1\<rparr>, ud_text = [67, 65, 77]\<rparr>]\<rparr>"

lemma umd_roundtrip_witness:
  "writable two_labels \<and> (\<exists>p. v40_encode two_labels = Inr p \<and> v40_decode p = Inr \<lparr>um_version = V40, um_screen = 0,
     um_displays = [canon40 (hd (um_displays two_labels))]\<rparr>)"
proof -
  have w: "writable two_labels"
    by (simp add: writable_def dim_lamps_def two_labels_def lamp_off_def brightness_full_def scalar_def)
  have "\<not> isl (v40_encode two_labels)" by code_simp
  then obtain p where "v40_encode two_labels = Inr p" by (auto simp: isl_def) (metis sum.exhaust)
  then show ?thesis using w umd_roundtrip [OF w] by blast
qed

end
