(* ===== verification/Licence_Ladder.thy ===== *)
theory Licence_Ladder
  imports Byte_Buffer
begin

text \<open>
  The licence crate's pure data (\<open>multiview-licence/src\<close>): dated leases, the enforcement ladder
  computed from them, the published status, and the machine fingerprint score. An instant
  (chrono's \<open>DateTime<Utc>\<close>) is a number of nanoseconds since the Unix epoch, an interval a number
  of nanoseconds. Two functions of the chrono package are parameters: \<open>num_days\<close>, documented to give
  the whole days of an interval (\<open>whole_days\<close>), and \<open>from_ms\<close>, which is \<open>from_timestamp_millis\<close>.
  A Rust string is the list of its UTF-8 bytes.
\<close>

type_synonym rstr = bytes
type_synonym instant = int

definition str :: "string \<Rightarrow> rstr" where
  "str s = map of_char s"

lemma of_char_byte_eq: "(of_char c :: byte) = of_char d \<longleftrightarrow> c = d"
proof
  assume "(of_char c :: byte) = of_char d"
  then have "unat (word_of_nat (of_char c) :: byte) = unat (word_of_nat (of_char d) :: byte)"
    by (simp only: of_nat_of_char)
  moreover have "unat (word_of_nat (of_char x) :: byte) = of_char x" for x
    using nat_of_char_less_256 [of x] by (simp add: unat_of_nat del: of_nat_of_char)
  ultimately have "(of_char c :: nat) = of_char d" by simp
  then show "c = d" by simp
qed simp

section \<open>Constants\<close>

definition LEASE_FULL_DAYS :: int where "LEASE_FULL_DAYS = 35"
definition LEASE_GRACE_DAYS :: int where "LEASE_GRACE_DAYS = 14"
definition LEASE_HARD_DAYS :: int where "LEASE_HARD_DAYS = 90"
definition ACTIVATION_WINDOW_DAYS :: int where "ACTIVATION_WINDOW_DAYS = 31"
definition LAPSED_SOFT_MAX_DAYS :: int where "LAPSED_SOFT_MAX_DAYS = 45"
definition EVALUATION_WATERMARK_DAY :: int where "EVALUATION_WATERMARK_DAY = 31"
definition FINGERPRINT_MATCH_STRONG :: nat where "FINGERPRINT_MATCH_STRONG = 100"
definition FINGERPRINT_MATCH_THRESHOLD :: nat where "FINGERPRINT_MATCH_THRESHOLD = 70"

lemmas licence_constants = LEASE_FULL_DAYS_def LEASE_GRACE_DAYS_def LEASE_HARD_DAYS_def
  LAPSED_SOFT_MAX_DAYS_def EVALUATION_WATERMARK_DAY_def FINGERPRINT_MATCH_STRONG_def FINGERPRINT_MATCH_THRESHOLD_def

definition days :: "int \<Rightarrow> int" where
  "days n = n * 86400000000000"

definition whole_days :: "(int \<Rightarrow> int) \<Rightarrow> bool" where
  "whole_days num_days \<longleftrightarrow> (\<forall>d. num_days d = d sdiv days 1)"

section \<open>Entitlements and leases\<close>

datatype hardware_class = Standard | Datacenter | Edge

datatype gpu_limit = Unlimited | Limited nat

definition gpu_is_over :: "gpu_limit \<Rightarrow> nat \<Rightarrow> bool" where
  "gpu_is_over l in_use = (case l of Unlimited \<Rightarrow> False | Limited n \<Rightarrow> in_use > n)"

record entitlement_flags =
  ef_evaluation :: bool
  ef_heartbeat_present :: bool

definition flags_default :: entitlement_flags where
  "flags_default = \<lparr>ef_evaluation = False, ef_heartbeat_present = False\<rparr>"

datatype lease_source = OnlineLease | RelayLease | FileLease

definition term_days :: "lease_source \<Rightarrow> int" where
  "term_days s = (case s of FileLease \<Rightarrow> LEASE_HARD_DAYS | _ \<Rightarrow> LEASE_FULL_DAYS)"

definition lease_transport :: "lease_source \<Rightarrow> rstr" where
  "lease_transport s = (case s of OnlineLease \<Rightarrow> str ''direct'' | RelayLease \<Rightarrow> str ''relay'' | FileLease \<Rightarrow> str ''file'')"

record lease =
  ls_serial :: rstr
  ls_source :: lease_source
  ls_granted_at :: instant
  ls_expires_at :: instant
  ls_grace_days :: int
  ls_grace_until :: instant
  ls_hard_at :: instant
  ls_next_contact_due :: instant

record entitlement =
  en_tier :: rstr
  en_licensed :: hardware_class
  en_detected :: hardware_class
  en_gpu_limit :: gpu_limit
  en_lease :: lease
  en_flags :: entitlement_flags

definition lease_new :: "rstr \<Rightarrow> instant \<Rightarrow> lease_source \<Rightarrow> int \<Rightarrow> lease" where
  "lease_new serial granted_at source window =
     (let expires_at = granted_at + days (term_days source)
      in \<lparr>ls_serial = serial, ls_source = source, ls_granted_at = granted_at, ls_expires_at = expires_at,
          ls_grace_days = LEASE_GRACE_DAYS, ls_grace_until = expires_at + days LEASE_GRACE_DAYS,
          ls_hard_at = granted_at + days LEASE_HARD_DAYS, ls_next_contact_due = granted_at + days window\<rparr>)"

definition lease_new_full :: "rstr \<Rightarrow> instant \<Rightarrow> lease_source \<Rightarrow> int \<Rightarrow> lease" where
  "lease_new_full serial granted_at source window = lease_new serial granted_at source window"

definition lease_new_offline :: "rstr \<Rightarrow> instant \<Rightarrow> int \<Rightarrow> lease" where
  "lease_new_offline serial granted_at window = lease_new serial granted_at FileLease window"

definition new_online_expiring_at :: "(int \<Rightarrow> instant option) \<Rightarrow> rstr \<Rightarrow> int \<Rightarrow> int \<Rightarrow> int \<Rightarrow> lease option" where
  "new_online_expiring_at from_ms serial not_after_ms now_ms window =
     (if not_after_ms \<le> now_ms then None
      else case from_ms not_after_ms of
        None \<Rightarrow> None
      | Some expires_at \<Rightarrow>
          let granted_at = expires_at - days (term_days OnlineLease)
          in Some \<lparr>ls_serial = serial, ls_source = OnlineLease, ls_granted_at = granted_at, ls_expires_at = expires_at,
               ls_grace_days = LEASE_GRACE_DAYS, ls_grace_until = expires_at + days LEASE_GRACE_DAYS,
               ls_hard_at = granted_at + days LEASE_HARD_DAYS, ls_next_contact_due = granted_at + days window\<rparr>)"

definition days_past_expiry :: "(int \<Rightarrow> int) \<Rightarrow> lease \<Rightarrow> instant \<Rightarrow> int" where
  "days_past_expiry num_days l now = num_days (now - ls_expires_at l)"

section \<open>The ladder\<close>

datatype ladder_state =
  Compliant | Grace | LapsedSoft | LapsedHard | Evaluation | ClassMismatch | OverGpu

definition state_config_locked :: "ladder_state \<Rightarrow> bool" where
  "state_config_locked s \<longleftrightarrow> s \<in> {LapsedSoft, LapsedHard}"

definition state_watermark :: "ladder_state \<Rightarrow> bool" where
  "state_watermark s \<longleftrightarrow> s = LapsedHard"

definition state_blocks_new :: "ladder_state \<Rightarrow> bool" where
  "state_blocks_new s \<longleftrightarrow> s \<in> {LapsedSoft, LapsedHard}"

record ladder_input =
  li_lease :: lease
  li_now :: instant
  li_licensed :: hardware_class
  li_detected :: hardware_class
  li_gpu_limit :: nat
  li_gpu_in_use :: nat
  li_evaluation_started_at :: "instant option"

record ladder_outcome =
  lo_state :: ladder_state
  lo_watermark :: bool

definition lo_config_locked :: "ladder_outcome \<Rightarrow> bool" where
  "lo_config_locked oc = state_config_locked (lo_state oc)"

definition lo_blocks_new :: "ladder_outcome \<Rightarrow> bool" where
  "lo_blocks_new oc = state_blocks_new (lo_state oc)"

definition time_phase :: "(int \<Rightarrow> int) \<Rightarrow> lease \<Rightarrow> instant \<Rightarrow> ladder_state" where
  "time_phase num_days l now =
     (let past = days_past_expiry num_days l now
      in if past \<le> 0 then Compliant
         else if past \<le> LEASE_GRACE_DAYS then Grace
         else if past \<le> LAPSED_SOFT_MAX_DAYS then LapsedSoft
         else LapsedHard)"

definition primary_state :: "(int \<Rightarrow> int) \<Rightarrow> ladder_input \<Rightarrow> ladder_state" where
  "primary_state num_days i =
     (if li_licensed i \<noteq> li_detected i then ClassMismatch
      else if li_gpu_in_use i > li_gpu_limit i then OverGpu
      else if li_evaluation_started_at i \<noteq> None then Evaluation
      else time_phase num_days (li_lease i) (li_now i))"

definition evaluation_watermark :: "(int \<Rightarrow> int) \<Rightarrow> ladder_input \<Rightarrow> ladder_state \<Rightarrow> bool" where
  "evaluation_watermark num_days i s =
     (if s \<noteq> Evaluation then False
      else case li_evaluation_started_at i of
        Some start \<Rightarrow> num_days (li_now i - start) \<ge> EVALUATION_WATERMARK_DAY
      | None \<Rightarrow> False)"

definition compute_ladder_state :: "(int \<Rightarrow> int) \<Rightarrow> ladder_input \<Rightarrow> ladder_outcome" where
  "compute_ladder_state num_days i =
     (let s = primary_state num_days i
      in \<lparr>lo_state = s, lo_watermark = state_watermark s \<or> evaluation_watermark num_days i s\<rparr>)"

section \<open>The published status\<close>

datatype enforcement_level =
  Active | Warning | ConfigLocked | Watermark | BlockNewInstance | UnlicensedBuild

definition level_of_state :: "ladder_state \<Rightarrow> enforcement_level" where
  "level_of_state s =
     (case s of
        Compliant \<Rightarrow> Active
      | Grace \<Rightarrow> Warning | Evaluation \<Rightarrow> Warning | ClassMismatch \<Rightarrow> Warning | OverGpu \<Rightarrow> Warning
      | LapsedSoft \<Rightarrow> ConfigLocked
      | LapsedHard \<Rightarrow> Watermark)"

definition level_config_locked :: "enforcement_level \<Rightarrow> bool" where
  "level_config_locked l \<longleftrightarrow> l \<in> {ConfigLocked, Watermark, BlockNewInstance}"

definition level_watermark :: "enforcement_level \<Rightarrow> bool" where
  "level_watermark l \<longleftrightarrow> l \<in> {Watermark, BlockNewInstance, UnlicensedBuild}"

definition level_blocks_new :: "enforcement_level \<Rightarrow> bool" where
  "level_blocks_new l \<longleftrightarrow> l = BlockNewInstance"

record licence_status =
  st_level :: enforcement_level
  st_reasons :: "rstr list"
  st_config_locked :: bool
  st_watermark :: bool
  st_blocks_new :: bool
  st_lease :: lease

definition status_from_outcome :: "ladder_outcome \<Rightarrow> lease \<Rightarrow> rstr list \<Rightarrow> licence_status" where
  "status_from_outcome oc l reasons =
     \<lparr>st_level = level_of_state (lo_state oc), st_reasons = reasons, st_config_locked = lo_config_locked oc,
      st_watermark = lo_watermark oc, st_blocks_new = lo_blocks_new oc, st_lease = l\<rparr>"

section \<open>Fingerprints\<close>

datatype component_kind = Board | Cpu | Nic | Disk | Gpu

definition drift_penalty :: "component_kind \<Rightarrow> nat" where
  "drift_penalty k = (case k of Board \<Rightarrow> 40 | Cpu \<Rightarrow> 40 | Gpu \<Rightarrow> 20 | Nic \<Rightarrow> 15 | Disk \<Rightarrow> 15)"

record fp_component =
  fc_kind :: component_kind
  fc_digest :: bytes

type_synonym fingerprint = "fp_component list"

definition digest_for :: "component_kind \<Rightarrow> fingerprint \<Rightarrow> bytes option" where
  "digest_for k f = map_option fc_digest (find (\<lambda>c. fc_kind c = k) f)"

definition component_matched :: "fingerprint \<Rightarrow> fp_component \<Rightarrow> bool" where
  "component_matched cand c = (case digest_for (fc_kind c) cand of None \<Rightarrow> False | Some d \<Rightarrow> d = fc_digest c)"

definition score_fingerprint :: "fingerprint \<Rightarrow> fingerprint \<Rightarrow> nat" where
  "score_fingerprint ref cand =
     fold (\<lambda>c score. if component_matched cand c then score else score - drift_penalty (fc_kind c))
       ref FINGERPRINT_MATCH_STRONG"

definition is_same_machine :: "nat \<Rightarrow> bool" where
  "is_same_machine score \<longleftrightarrow> score \<ge> FINGERPRINT_MATCH_THRESHOLD"

definition rebind_needed :: "nat \<Rightarrow> bool" where
  "rebind_needed score \<longleftrightarrow> \<not> is_same_machine score"

section \<open>The ladder in real time\<close>

text \<open>Truncated days past an instant, as a bound on the nanoseconds.\<close>

lemma int_div_le_iff: "0 < k \<Longrightarrow> (d :: int) div k \<le> n \<longleftrightarrow> d < (n + 1) * k"
proof -
  assume k: "0 < k"
  define q r where "q = d div k" and "r = d mod k"
  have d: "d = q * k + r" "0 \<le> r" "r < k" using k by (simp_all add: q_def r_def)
  have "q \<le> n \<longleftrightarrow> q * k + r < (n + 1) * k"
  proof
    assume "q \<le> n"
    then have "q * k \<le> n * k" using k by (simp add: mult_right_mono)
    then show "q * k + r < (n + 1) * k" using d(3) by (simp add: distrib_right)
  next
    assume "q * k + r < (n + 1) * k"
    then have "q * k < (n + 1) * k" using d(2) by linarith
    then show "q \<le> n" using k by (simp add: mult_less_cancel_right)
  qed
  then have "q \<le> n \<longleftrightarrow> d < (n + 1) * k" by (simp only: d(1) [symmetric])
  then show ?thesis by (simp only: q_def)
qed

lemma num_days_le:
  assumes "whole_days num_days" and "0 \<le> n"
  shows "num_days d \<le> n \<longleftrightarrow> d < days (n + 1)"
proof (cases "0 \<le> d")
  case True
  then have "num_days d = d div 86400000000000"
    using assms(1) by (simp add: whole_days_def days_def sdiv_nonneg)
  moreover have "d div 86400000000000 \<le> n \<longleftrightarrow> d < (n + 1) * 86400000000000"
    by (rule int_div_le_iff) simp
  ultimately show ?thesis by (simp add: days_def)
next
  case False
  then have "num_days d \<le> 0"
    using assms(1) by (simp add: whole_days_def days_def sdiv_neg pos_imp_zdiv_nonneg_iff)
  moreover have "d < days (n + 1)" using False assms(2) by (simp add: days_def)
  ultimately show ?thesis using assms(2) by simp
qed

lemma num_days_ge: "whole_days num_days \<Longrightarrow> 1 \<le> n \<Longrightarrow> n \<le> num_days d \<longleftrightarrow> days n \<le> d"
  using num_days_le [of num_days "n - 1" d] by auto

lemma time_phase_exact:
  "whole_days num_days \<Longrightarrow> time_phase num_days l now =
     (let past = now - ls_expires_at l
      in if past < days 1 then Compliant else if past < days 15 then Grace
         else if past < days 46 then LapsedSoft else LapsedHard)"
  by (simp add: time_phase_def days_past_expiry_def num_days_le licence_constants Let_def)

lemma days_mono: "a \<le> b \<Longrightarrow> days a \<le> days b"
  by (simp add: days_def)

definition time_governed :: "ladder_input \<Rightarrow> bool" where
  "time_governed i \<longleftrightarrow> li_licensed i = li_detected i \<and> li_gpu_in_use i \<le> li_gpu_limit i \<and> li_evaluation_started_at i = None"

definition evaluating :: "ladder_input \<Rightarrow> instant option" where
  "evaluating i = (if li_licensed i = li_detected i \<and> li_gpu_in_use i \<le> li_gpu_limit i then li_evaluation_started_at i else None)"

lemma locked_exact:
  "whole_days num_days \<Longrightarrow> lo_config_locked (compute_ladder_state num_days i) \<longleftrightarrow>
     time_governed i \<and> days 15 \<le> li_now i - ls_expires_at (li_lease i)"
  using days_mono [of 15 46] days_mono [of 1 15]
  by (auto simp: lo_config_locked_def state_config_locked_def compute_ladder_state_def primary_state_def time_governed_def
      time_phase_exact Let_def)

lemma blocks_iff_locked: "lo_blocks_new oc \<longleftrightarrow> lo_config_locked oc"
  by (simp add: lo_blocks_new_def lo_config_locked_def state_blocks_new_def state_config_locked_def)

lemma watermark_exact:
  "whole_days num_days \<Longrightarrow> lo_watermark (compute_ladder_state num_days i) \<longleftrightarrow>
     time_governed i \<and> days 46 \<le> li_now i - ls_expires_at (li_lease i) \<or>
     (\<exists>start. evaluating i = Some start \<and> days 31 \<le> li_now i - start)"
  using days_mono [of 15 46] days_mono [of 1 15]
  by (auto simp: compute_ladder_state_def state_watermark_def primary_state_def time_governed_def evaluating_def
      evaluation_watermark_def time_phase_exact Let_def num_days_ge licence_constants)

lemma lease_new_expiry: "ls_expires_at (lease_new serial g source w) = g + days (term_days source)"
  by (simp add: lease_new_def Let_def)

text \<open>The ladder, to the nanosecond. Reconfiguration is denied and new instances are refused exactly
  when the hardware class matches, the GPU allowance is kept, no evaluation runs and fifteen whole days
  have passed since the lease expired; the watermark shows exactly from forty-six days, or from
  thirty-one days into an evaluation. For an online grant that is fifty and eighty-one days after the
  grant, for an offline one 105 and 136. Waiting never relaxes an outcome, and a lease that expires
  later is never treated more strictly.\<close>

theorem ladder_exact:
  assumes "whole_days num_days"
  shows "(lo_config_locked (compute_ladder_state num_days i) \<longleftrightarrow>
      time_governed i \<and> days 15 \<le> li_now i - ls_expires_at (li_lease i)) \<and>
   (lo_blocks_new (compute_ladder_state num_days i) \<longleftrightarrow> lo_config_locked (compute_ladder_state num_days i)) \<and>
   (lo_watermark (compute_ladder_state num_days i) \<longleftrightarrow>
      time_governed i \<and> days 46 \<le> li_now i - ls_expires_at (li_lease i) \<or>
      (\<exists>start. evaluating i = Some start \<and> days 31 \<le> li_now i - start)) \<and>
   (li_lease i = lease_new serial g source w \<and> time_governed i \<longrightarrow>
      (lo_config_locked (compute_ladder_state num_days i) \<longleftrightarrow> g + days (if source = FileLease then 105 else 50) \<le> li_now i) \<and>
      (lo_watermark (compute_ladder_state num_days i) \<longleftrightarrow> g + days (if source = FileLease then 136 else 81) \<le> li_now i)) \<and>
   (li_now i \<le> now' \<and> ls_expires_at l' \<le> ls_expires_at (li_lease i) \<longrightarrow>
      (lo_config_locked (compute_ladder_state num_days i) \<longrightarrow>
         lo_config_locked (compute_ladder_state num_days (i\<lparr>li_now := now', li_lease := l'\<rparr>))) \<and>
      (lo_watermark (compute_ladder_state num_days i) \<longrightarrow>
         lo_watermark (compute_ladder_state num_days (i\<lparr>li_now := now', li_lease := l'\<rparr>))))"
  unfolding blocks_iff_locked locked_exact [OF assms] watermark_exact [OF assms]
  by (cases source) (auto simp: lease_new_expiry term_days_def time_governed_def evaluating_def licence_constants days_def)

definition chrono_days :: "int \<Rightarrow> int" where
  "chrono_days d = d sdiv days 1"

definition lapsed_input :: ladder_input where
  "lapsed_input = \<lparr>li_lease = lease_new (str ''L1'') 0 OnlineLease 31, li_now = days 60, li_licensed = Edge, li_detected = Edge,
     li_gpu_limit = 1, li_gpu_in_use = 1, li_evaluation_started_at = None\<rparr>"

lemma ladder_exact_witness:
  "lo_config_locked (compute_ladder_state chrono_days lapsed_input) \<and> \<not> lo_watermark (compute_ladder_state chrono_days lapsed_input)"
proof -
  have "whole_days chrono_days" by (simp add: whole_days_def chrono_days_def)
  note * = ladder_exact [OF this, of lapsed_input "str ''L1''" 0 OnlineLease 31 0 "li_lease lapsed_input"]
  have "li_lease lapsed_input = lease_new (str ''L1'') 0 OnlineLease 31 \<and> time_governed lapsed_input"
    "li_now lapsed_input = days 60"
    by (simp_all add: lapsed_input_def time_governed_def)
  with conjunct1 [OF conjunct2 [OF conjunct2 [OF conjunct2 [OF *]]]] show ?thesis by (simp add: days_def)
qed

text \<open>
  Three dates and flags the crate publishes that the ladder does not follow. The grace state outlasts
  \<open>grace_until\<close> by up to a day; \<open>hard_at\<close> is no bound at all, an offline lease is still compliant
  there; and the level published for a soft lapse says new instances are allowed while the flag
  published beside it says they are refused.
\<close>

lemma grace_outlasts_grace_until:
  "time_phase chrono_days (lease_new s 0 OnlineLease w) (ls_grace_until (lease_new s 0 OnlineLease w) + 1) = Grace"
  by (simp add: time_phase_def days_past_expiry_def chrono_days_def lease_new_def term_days_def licence_constants days_def
      Let_def sdiv_nonneg)

lemma hard_at_not_hardest:
  "time_phase chrono_days (lease_new s 0 FileLease w) (ls_hard_at (lease_new s 0 FileLease w)) = Compliant"
  by (simp add: time_phase_def days_past_expiry_def chrono_days_def lease_new_def term_days_def licence_constants days_def
      Let_def)

lemma level_and_flag_disagree:
  "st_blocks_new (status_from_outcome \<lparr>lo_state = LapsedSoft, lo_watermark = False\<rparr> l r) \<and>
   \<not> level_blocks_new (st_level (status_from_outcome \<lparr>lo_state = LapsedSoft, lo_watermark = False\<rparr> l r))"
  by (simp add: status_from_outcome_def lo_blocks_new_def state_blocks_new_def level_of_state_def level_blocks_new_def)

section \<open>Drift\<close>

definition drifted :: "fingerprint \<Rightarrow> fingerprint \<Rightarrow> component_kind set" where
  "drifted ref cand = fc_kind ` (set ref - set cand)"

lemma component_matched_iff:
  assumes "distinct (map fc_kind cand)"
  shows "component_matched cand c \<longleftrightarrow> c \<in> set cand"
  using assms
proof (induction cand)
  case (Cons d cand)
  have "c = d \<longleftrightarrow> fc_kind c = fc_kind d \<and> fc_digest c = fc_digest d" by (cases c; cases d) simp
  then show ?case using Cons by (auto simp: component_matched_def digest_for_def)
qed (simp add: component_matched_def digest_for_def)

lemma score_sum:
  "fold (\<lambda>c score. if P c then score else score - drift_penalty (fc_kind c)) ref s =
     s - (\<Sum>c \<leftarrow> filter (\<lambda>c. \<not> P c) ref. drift_penalty (fc_kind c))"
  by (induction ref arbitrary: s) simp_all

lemma score_drift:
  assumes "distinct (map fc_kind ref)" and "distinct (map fc_kind cand)"
  shows "score_fingerprint ref cand = 100 - (\<Sum>k \<in> drifted ref cand. drift_penalty k)"
proof -
  let ?d = "filter (\<lambda>c. c \<notin> set cand) ref"
  have "distinct (map fc_kind ?d)" using assms(1) by (induction ref) auto
  then have "(\<Sum>c \<leftarrow> ?d. drift_penalty (fc_kind c)) = (\<Sum>k \<in> set (map fc_kind ?d). drift_penalty k)"
    using sum_list_distinct_conv_sum_set [of "map fc_kind ?d" drift_penalty] by (simp add: comp_def)
  moreover have "set (map fc_kind ?d) = drifted ref cand" by (auto simp: drifted_def)
  ultimately show ?thesis
    using component_matched_iff [OF assms(2)]
    by (simp add: score_fingerprint_def score_sum FINGERPRINT_MATCH_STRONG_def)
qed

lemma all_kinds: "(\<forall>k. P k) \<longleftrightarrow> P Board \<and> P Cpu \<and> P Nic \<and> P Disk \<and> P Gpu"
proof
  assume "P Board \<and> P Cpu \<and> P Nic \<and> P Disk \<and> P Gpu"
  then have "P k" for k by (cases k) simp_all
  then show "\<forall>k. P k" by simp
qed simp

lemma UNIV_kinds: "(UNIV :: component_kind set) = {Board, Cpu, Nic, Disk, Gpu}"
  using component_kind.exhaust by auto

lemma finite_kinds [simp]: "finite (K :: component_kind set)"
  by (rule finite_subset [OF subset_UNIV]) (simp add: UNIV_kinds)

lemma kinds_sum:
  "(\<Sum>k \<in> K. drift_penalty k) =
     (if Board \<in> K then 40 else 0) + (if Cpu \<in> K then 40 else 0) + (if Gpu \<in> K then 20 else 0) +
     (if Nic \<in> K then 15 else 0) + (if Disk \<in> K then 15 else 0)"
proof -
  have "(\<Sum>k \<in> K. drift_penalty k) = (\<Sum>k \<in> UNIV. if k \<in> K then drift_penalty k else 0)"
    by (rule sum.mono_neutral_cong_left [OF _ subset_UNIV]) simp_all
  then show ?thesis by (simp add: UNIV_kinds drift_penalty_def)
qed

text \<open>The drift budget of a machine. For fingerprints with one component per kind, the score is 100
  less the penalties of the components that changed or went missing, whatever their order and
  whatever was added; the machine counts as the same exactly when only network and disk components
  changed, or only a graphics card did.\<close>

theorem fingerprint_drift_budget:
  assumes "distinct (map fc_kind ref)" and "distinct (map fc_kind cand)"
  shows "score_fingerprint ref cand = 100 - (\<Sum>k \<in> drifted ref cand. drift_penalty k) \<and>
    (is_same_machine (score_fingerprint ref cand) \<longleftrightarrow> drifted ref cand \<subseteq> {Nic, Disk} \<or> drifted ref cand \<subseteq> {Gpu}) \<and>
    (rebind_needed (score_fingerprint ref cand) \<longleftrightarrow>
       Board \<in> drifted ref cand \<or> Cpu \<in> drifted ref cand \<or>
       (Gpu \<in> drifted ref cand \<and> (Nic \<in> drifted ref cand \<or> Disk \<in> drifted ref cand)))"
proof -
  have sub: "drifted ref cand \<subseteq> {Nic, Disk} \<longleftrightarrow>
      Board \<notin> drifted ref cand \<and> Cpu \<notin> drifted ref cand \<and> Gpu \<notin> drifted ref cand"
    "drifted ref cand \<subseteq> {Gpu} \<longleftrightarrow>
      Board \<notin> drifted ref cand \<and> Cpu \<notin> drifted ref cand \<and> Nic \<notin> drifted ref cand \<and> Disk \<notin> drifted ref cand"
    by (simp_all add: subset_iff all_kinds)
  show ?thesis
    unfolding sub rebind_needed_def is_same_machine_def score_drift [OF assms] kinds_sum FINGERPRINT_MATCH_THRESHOLD_def
    by simp
qed

definition fp_sample :: fingerprint where
  "fp_sample = [\<lparr>fc_kind = Board, fc_digest = [1]\<rparr>, \<lparr>fc_kind = Nic, fc_digest = [2]\<rparr>, \<lparr>fc_kind = Disk, fc_digest = [3]\<rparr>]"

lemma fingerprint_drift_budget_witness:
  "score_fingerprint fp_sample [\<lparr>fc_kind = Board, fc_digest = [1]\<rparr>] = 70 \<and>
   is_same_machine (score_fingerprint fp_sample [\<lparr>fc_kind = Board, fc_digest = [1]\<rparr>])"
proof -
  have d: "drifted fp_sample [\<lparr>fc_kind = Board, fc_digest = [1]\<rparr>] = {Nic, Disk}"
    by (auto simp: drifted_def fp_sample_def)
  have "distinct (map fc_kind fp_sample)" "distinct (map fc_kind [\<lparr>fc_kind = Board, fc_digest = [1]\<rparr>])"
    by (simp_all add: fp_sample_def)
  from fingerprint_drift_budget [OF this] show ?thesis
    by (simp add: d drift_penalty_def is_same_machine_def FINGERPRINT_MATCH_THRESHOLD_def)
qed

text \<open>A machine with two network cards does not match itself: components are looked up by kind, so the
  second card is compared with the first one's digest.\<close>

lemma two_cards_never_match:
  "score_fingerprint [\<lparr>fc_kind = Nic, fc_digest = [1]\<rparr>, \<lparr>fc_kind = Nic, fc_digest = [2]\<rparr>]
     [\<lparr>fc_kind = Nic, fc_digest = [1]\<rparr>, \<lparr>fc_kind = Nic, fc_digest = [2]\<rparr>] = 85"
  by (simp add: score_fingerprint_def component_matched_def digest_for_def drift_penalty_def FINGERPRINT_MATCH_STRONG_def)

end
