(* ===== verification/Canonical_Bytes.thy ===== *)
theory Canonical_Bytes
  imports Licence_Ladder
begin

unbundle bit_operations_syntax

text \<open>
  The byte encodings that signatures cover: length-prefixed fields (\<open>multiview-licence/src/verify.rs\<close>)
  and canonical CBOR (\<open>multiview-licence/src/heartbeat.rs\<close>). What makes a signature meaningful is that
  the encoding can be read back in only one way; the locale \<open>prefix_code\<close> states that for one item and
  carries it to sequences.
\<close>

section \<open>Encodings that can be cut in only one place\<close>

locale prefix_code =
  fixes enc :: "'a \<Rightarrow> 'b list" and ok :: "'a \<Rightarrow> bool"
  assumes cut: "ok x \<Longrightarrow> ok y \<Longrightarrow> enc x @ r = enc y @ s \<Longrightarrow> x = y \<and> r = s"
begin

lemma cut_iff: "ok x \<Longrightarrow> ok y \<Longrightarrow> enc x @ r = enc y @ s \<longleftrightarrow> x = y \<and> r = s"
  using cut by blast

lemma cut_list:
  "length xs = length ys \<Longrightarrow> \<forall>x \<in> set xs. ok x \<Longrightarrow> \<forall>y \<in> set ys. ok y \<Longrightarrow>
     concat (map enc xs) @ r = concat (map enc ys) @ s \<Longrightarrow> xs = ys \<and> r = s"
proof (induction xs ys rule: list_induct2)
  case (Cons x xs y ys)
  then have "enc x @ (concat (map enc xs) @ r) = enc y @ (concat (map enc ys) @ s)" by simp
  with Cons.prems(1,2) have "x = y \<and> concat (map enc xs) @ r = concat (map enc ys) @ s"
    by (intro cut) simp_all
  with Cons show ?case by simp
qed simp

end

text \<open>A fixed-width injective encoding is one.\<close>

lemma fixed_width_cut:
  assumes "\<And>x y. ok x \<Longrightarrow> ok y \<Longrightarrow> enc x = enc y \<Longrightarrow> x = y" and "\<And>x. length (enc x) = n"
  shows "prefix_code enc ok"
  by unfold_locales (use assms in \<open>auto simp: append_eq_append_conv\<close>)

definition put64 :: "64 word \<Rightarrow> bytes" where
  "put64 w = [ucast (drop_bit 56 w), ucast (drop_bit 48 w), ucast (drop_bit 40 w), ucast (drop_bit 32 w),
     ucast (drop_bit 24 w), ucast (drop_bit 16 w), ucast (drop_bit 8 w), ucast w]"

lemma length_put64 [simp]: "length (put64 w) = 8"
  by (simp add: put64_def)

lemma byte_of_word: "n < 8 \<Longrightarrow> k + n < LENGTH('a) \<Longrightarrow> bit (ucast (drop_bit k (w :: 'a::len word)) :: byte) n \<longleftrightarrow> bit w (k + n)"
  by (simp add: bit_simps)

lemma put64_inj: "put64 v = put64 w \<Longrightarrow> v = w"
proof (rule bit_word_eqI)
  fix n assume eq: "put64 v = put64 w" and n: "n < LENGTH(64)"
  define k where "k = n - n mod 8"
  have k: "k \<in> {0, 8, 16, 24, 32, 40, 48, 56}" "k + n mod 8 = n"
  proof -
    have "n div 8 < 8" using n by simp
    then have "n div 8 \<in> {0, 1, 2, 3, 4, 5, 6, 7}" by auto
    moreover have "k = n div 8 * 8" by (simp add: k_def minus_mod_eq_div_mult)
    ultimately show "k \<in> {0, 8, 16, 24, 32, 40, 48, 56}" by auto
  qed (simp add: k_def)
  have "(ucast (drop_bit k v) :: byte) = ucast (drop_bit k w)"
    using eq k(1) by (auto simp: put64_def)
  then have "bit (ucast (drop_bit k v) :: byte) (n mod 8) = bit (ucast (drop_bit k w) :: byte) (n mod 8)" by simp
  then show "bit v n = bit w n" using n by (simp add: byte_of_word k(2))
qed

interpretation word64: prefix_code put64 "\<lambda>_. True"
  by (rule fixed_width_cut [where n = 8]) (simp_all add: put64_inj)

lemma word_of_nat_eq: "m < 2 ^ LENGTH('a) \<Longrightarrow> n < 2 ^ LENGTH('a) \<Longrightarrow> (word_of_nat m :: 'a::len word) = word_of_nat n \<longleftrightarrow> m = n"
  by (simp add: word_of_nat_eq_iff take_bit_nat_eq_self)

lemma word_of_int_i64_eq: "in_i 64 a \<Longrightarrow> in_i 64 b \<Longrightarrow> (word_of_int a :: 64 word) = word_of_int b \<longleftrightarrow> a = b"
proof
  assume r: "in_i 64 a" "in_i 64 b" and "(word_of_int a :: 64 word) = word_of_int b"
  then have "sint (word_of_int a :: 64 word) = sint (word_of_int b :: 64 word)" by simp
  moreover have "sint (word_of_int x :: 64 word) = x" if "in_i 64 x" for x
    using that by (simp add: sint_sbintrunc' signed_take_bit_int_eq_self in_i_def i_simps)
  ultimately show "a = b" using r by simp
qed simp

section \<open>Length-prefixed fields\<close>

definition len_u64 :: "nat \<Rightarrow> nat" where
  "len_u64 n = (if n < 2 ^ 64 then n else 2 ^ 64 - 1)"

definition append_field :: "bytes \<Rightarrow> bytes" where
  "append_field bs = put64 (word_of_nat (len_u64 (length bs))) @ bs"

definition append_i64 :: "int \<Rightarrow> bytes" where
  "append_i64 v = put64 (word_of_int v)"

definition short :: "'a list \<Rightarrow> bool" where
  "short xs \<longleftrightarrow> length xs < 2 ^ 64"

interpretation field: prefix_code append_field short
proof
  fix x y r s assume "short x" "short y" "append_field x @ r = append_field y @ s"
  then have "put64 (word_of_nat (length x)) @ (x @ r) = put64 (word_of_nat (length y)) @ (y @ s)"
    by (simp add: append_field_def len_u64_def short_def)
  then have e: "(word_of_nat (length x) :: 64 word) = word_of_nat (length y) \<and> x @ r = y @ s" by (intro word64.cut) simp_all
  have "length x = length y"
    using e \<open>short x\<close> \<open>short y\<close> word_of_nat_eq [where 'a = 64, of "length x" "length y"] by (simp add: short_def)
  then show "x = y \<and> r = s" using e by simp
qed

interpretation i64: prefix_code append_i64 "in_i 64"
  by (rule fixed_width_cut [where n = 8]) (auto simp: append_i64_def dest!: put64_inj simp: word_of_int_i64_eq)

section \<open>Canonical CBOR\<close>

definition cbor_head :: "byte \<Rightarrow> nat \<Rightarrow> bytes" where
  "cbor_head major n =
     (let mt = push_bit 5 major in
      if n < 24 then [mt OR word_of_nat n]
      else if n < 2 ^ 8 then [mt OR 0x18, word_of_nat n]
      else if n < 2 ^ 16 then (mt OR 0x19) # put16 (word_of_nat n)
      else if n < 2 ^ 32 then (mt OR 0x1A) # put32 (word_of_nat n)
      else (mt OR 0x1B) # put64 (word_of_nat n))"

definition cbor_tstr :: "rstr \<Rightarrow> bytes" where
  "cbor_tstr s = cbor_head 3 (len_u64 (length s)) @ s"

definition cbor_bstr :: "bytes \<Rightarrow> bytes" where
  "cbor_bstr b = cbor_head 2 (len_u64 (length b)) @ b"

definition cbor_uint :: "int \<Rightarrow> bytes" where
  "cbor_uint n = cbor_head 0 (if 0 \<le> n then nat n else 0)"

text \<open>The first byte of a head carries the major type above five bits of argument.\<close>

lemma head_byte:
  fixes major arg :: byte
  assumes "\<And>i. bit major i \<Longrightarrow> i < 3" and "\<And>i. bit arg i \<Longrightarrow> i < 5"
  shows "drop_bit 5 (push_bit 5 major OR arg) = major" "take_bit 5 (push_bit 5 major OR arg) = arg"
proof -
  show "drop_bit 5 (push_bit 5 major OR arg) = major"
    by (rule bit_word_eqI) (auto simp: bit_simps dest: assms(2) bit_imp_le_length intro: assms(1))
  show "take_bit 5 (push_bit 5 major OR arg) = arg"
    by (rule bit_word_eqI) (auto simp: bit_simps dest: assms)
qed

definition head_arg :: "nat \<Rightarrow> byte" where
  "head_arg n = (if n < 24 then word_of_nat n else if n < 2 ^ 8 then 0x18 else if n < 2 ^ 16 then 0x19
     else if n < 2 ^ 32 then 0x1A else 0x1B)"

definition head_rest :: "nat \<Rightarrow> bytes" where
  "head_rest n = (if n < 24 then [] else if n < 2 ^ 8 then [word_of_nat n] else if n < 2 ^ 16 then put16 (word_of_nat n)
     else if n < 2 ^ 32 then put32 (word_of_nat n) else put64 (word_of_nat n))"

lemma cbor_head_parts: "cbor_head major n = (push_bit 5 major OR head_arg n) # head_rest n"
  by (simp add: cbor_head_def head_arg_def head_rest_def Let_def)

lemma unat_head_arg: "unat (head_arg n) = (if n < 24 then n else if n < 2 ^ 8 then 24 else if n < 2 ^ 16 then 25
    else if n < 2 ^ 32 then 26 else 27)"
  by (simp add: head_arg_def unat_of_nat)

lemma head_size_cases:
  fixes n :: nat
  obtains "n < 24" | "24 \<le> n" "n < 2 ^ 8" | "2 ^ 8 \<le> n" "n < 2 ^ 16" | "2 ^ 16 \<le> n" "n < 2 ^ 32" | "2 ^ 32 \<le> n"
  by fastforce

lemma head_arg_bits: "bit (head_arg n) i \<Longrightarrow> i < 5"
proof -
  assume "bit (head_arg n) i"
  then have "bit (unat (head_arg n)) i" by (simp add: bit_unsigned_iff)
  then show ?thesis by (rule nat_bit_bound [rotated]) (simp add: unat_head_arg)
qed

lemma major_bits: "unat major < 8 \<Longrightarrow> bit (major :: byte) i \<Longrightarrow> i < 3"
proof -
  assume m: "unat major < 8" and "bit major i"
  then have "bit (unat major) i" by (simp add: bit_unsigned_iff)
  then show ?thesis by (rule nat_bit_bound [rotated]) (use m in simp)
qed

lemma put16_inj: "put16 v = put16 w \<Longrightarrow> v = w"
  using be16_put16 [of v "hd (put16 v)" "put16 v ! 1"] be16_put16 [of w "hd (put16 w)" "put16 w ! 1"]
  by (simp add: put16_def)

lemma put32_inj: "put32 v = put32 w \<Longrightarrow> v = w"
proof -
  assume eq: "put32 v = put32 w"
  obtain a b c d where p: "put32 v = [a, b, c, d]" by (simp add: put32_def)
  have "be32 a b c d = v" by (rule be32_put32 [OF p])
  moreover have "be32 a b c d = w" by (rule be32_put32) (use eq p in simp)
  ultimately show ?thesis by simp
qed

lemma length_head_rest: "length (head_rest n) = (if n < 24 then 0 else if n < 2 ^ 8 then 1 else if n < 2 ^ 16 then 2
    else if n < 2 ^ 32 then 4 else 8)"
  by (simp add: head_rest_def)

lemma head_rest_inj:
  assumes "head_arg m = head_arg n" and "head_rest m = head_rest n" and "m < 2 ^ 64" and "n < 2 ^ 64"
  shows "m = n"
proof -
  have a: "unat (head_arg m) = unat (head_arg n)" using assms(1) by simp
  show ?thesis
  proof (cases n rule: head_size_cases)
    case 1
    with a have "m = n" by (simp add: unat_head_arg split: if_splits)
    then show ?thesis .
  next
    case 2
    with a have "24 \<le> m" "m < 2 ^ 8" by (simp_all add: unat_head_arg split: if_splits)
    with 2 assms(2) show ?thesis using word_of_nat_eq [where 'a = 8, of m n] by (simp add: head_rest_def)
  next
    case 3
    with a have "2 ^ 8 \<le> m" "m < 2 ^ 16" by (simp_all add: unat_head_arg split: if_splits)
    with 3 assms(2) show ?thesis using word_of_nat_eq [where 'a = 16, of m n]
      by (auto simp: head_rest_def dest!: put16_inj)
  next
    case 4
    with a have "2 ^ 16 \<le> m" "m < 2 ^ 32" by (simp_all add: unat_head_arg split: if_splits)
    with 4 assms(2) show ?thesis using word_of_nat_eq [where 'a = 32, of m n]
      by (auto simp: head_rest_def dest!: put32_inj)
  next
    case 5
    with a have "2 ^ 32 \<le> m" by (simp add: unat_head_arg split: if_splits)
    with 5 assms(2-4) show ?thesis using word_of_nat_eq [where 'a = 64, of m n]
      by (auto simp: head_rest_def dest!: put64_inj)
  qed
qed

interpretation head: prefix_code "\<lambda>(major, n). cbor_head major n" "\<lambda>(major, n). unat major < 8 \<and> n < 2 ^ 64"
proof
  fix x y :: "byte \<times> nat" and r s
  assume ok: "case x of (major, n) \<Rightarrow> unat major < 8 \<and> n < 2 ^ 64" "case y of (major, n) \<Rightarrow> unat major < 8 \<and> n < 2 ^ 64"
    and eq: "(case x of (major, n) \<Rightarrow> cbor_head major n) @ r = (case y of (major, n) \<Rightarrow> cbor_head major n) @ s"
  obtain j m k n where xy: "x = (j, m)" "y = (k, n)" by (cases x; cases y) simp
  then have j: "unat j < 8" "m < 2 ^ 64" and k: "unat k < 8" "n < 2 ^ 64"
    and b: "push_bit 5 j OR head_arg m = push_bit 5 k OR head_arg n" and t: "head_rest m @ r = head_rest n @ s"
    using ok eq by (simp_all add: cbor_head_parts)
  have jk: "j = k" and arg: "head_arg m = head_arg n"
    using head_byte [of j "head_arg m"] head_byte [of k "head_arg n"] b major_bits [OF j(1)] major_bits [OF k(1)] head_arg_bits
    by metis+
  have "unat (head_arg m) = unat (head_arg n)" by (simp only: arg)
  then have "length (head_rest m) = length (head_rest n)"
    by (simp only: unat_head_arg length_head_rest) (simp split: if_splits)
  with t have "head_rest m = head_rest n" "r = s" by simp_all
  with jk arg j k show "x = y \<and> r = s" using head_rest_inj by (simp add: xy)
qed

lemma head_cut:
  assumes "cbor_head j m @ r = cbor_head k n @ s" and "unat j < 8" and "unat k < 8" and "m < 2 ^ 64" and "n < 2 ^ 64"
  shows "j = k \<and> m = n \<and> r = s"
  using head.cut [of "(j, m)" "(k, n)" r s] assms by simp

lemma string_cut:
  assumes "cbor_head j (len_u64 (length x)) @ x @ r = cbor_head j (len_u64 (length y)) @ y @ s"
    and "unat j < 8" and "short x" and "short y"
  shows "x = y \<and> r = s"
  using head_cut [of j "length x" "x @ r" j "length y" "y @ s"] assms
  by (auto simp: short_def len_u64_def append_eq_append_conv)

interpretation tstr: prefix_code cbor_tstr short
  by unfold_locales (rule string_cut [of 3], simp_all add: cbor_tstr_def)

interpretation bstr: prefix_code cbor_bstr short
  by unfold_locales (rule string_cut [of 2], simp_all add: cbor_bstr_def)

interpretation uint: prefix_code cbor_uint "\<lambda>n. 0 \<le> n \<and> n < 2 ^ 64"
  by unfold_locales (auto simp: cbor_uint_def nat_less_iff dest!: head_cut)

lemma short_head: "short xs \<Longrightarrow> len_u64 (length xs) < 2 ^ 64"
  by (simp add: short_def len_u64_def)

text \<open>An array of text strings.\<close>

definition cbor_tstrs :: "rstr list \<Rightarrow> bytes" where
  "cbor_tstrs ids = cbor_head 4 (len_u64 (length ids)) @ concat (map cbor_tstr ids)"

interpretation tstrs: prefix_code cbor_tstrs "\<lambda>ids. short ids \<and> (\<forall>x \<in> set ids. short x)"
proof
  fix xs ys :: "rstr list" and r s
  assume ok: "short xs \<and> (\<forall>x \<in> set xs. short x)" "short ys \<and> (\<forall>x \<in> set ys. short x)"
    and "cbor_tstrs xs @ r = cbor_tstrs ys @ s"
  then have "cbor_head 4 (len_u64 (length xs)) @ (concat (map cbor_tstr xs) @ r) =
      cbor_head 4 (len_u64 (length ys)) @ (concat (map cbor_tstr ys) @ s)"
    by (simp add: cbor_tstrs_def)
  from head_cut [OF this] ok have "length xs = length ys" "concat (map cbor_tstr xs) @ r = concat (map cbor_tstr ys) @ s"
    by (simp_all add: short_head) (simp_all add: short_def len_u64_def)
  with ok show "xs = ys \<and> r = s" by (intro tstr.cut_list) simp_all
qed

end
