(* ===== verification/Lease_Store.thy ===== *)
theory Lease_Store
  imports Canonical_Bytes
begin

text \<open>
  Signed leases, the lease store every install path converges on, and the directory watcher
  (\<open>multiview-licence/src/verify.rs\<close>, \<open>store.rs\<close>, \<open>watcher.rs\<close>). The Ed25519 library is the parameter
  \<open>ed key message signature\<close> (\<open>verify_strict\<close>), the CBOR codec is part of what reading a file
  returns. The locks around the store's fields make each operation one step.
\<close>

section \<open>Signed leases\<close>

datatype licence_error = MalformedKey | MalformedSignature | BadSignature | CborError rstr

definition SIGNING_DOMAIN :: bytes where
  "SIGNING_DOMAIN = str ''multiview-licence:lease:v1'' @ [0]"

definition source_tag :: "lease \<Rightarrow> rstr" where
  "source_tag l = (case ls_source l of OnlineLease \<Rightarrow> str ''online'' | RelayLease \<Rightarrow> str ''relay'' | FileLease \<Rightarrow> str ''file'')"

text \<open>\<open>timestamp_nanos_opt().unwrap_or(0)\<close>: an instant outside the signed 64-bit range is signed as 0.\<close>

definition nanos_or_0 :: "instant \<Rightarrow> int" where
  "nanos_or_0 t = (case try_i 64 t of Some n \<Rightarrow> n | None \<Rightarrow> 0)"

definition signing_bytes :: "lease \<Rightarrow> rstr option \<Rightarrow> bytes" where
  "signing_bytes l binding_id =
     SIGNING_DOMAIN @ append_field (ls_serial l) @ append_field (source_tag l) @
     append_i64 (nanos_or_0 (ls_granted_at l)) @ append_i64 (nanos_or_0 (ls_expires_at l)) @
     append_i64 (ls_grace_days l) @ append_i64 (nanos_or_0 (ls_grace_until l)) @
     append_i64 (nanos_or_0 (ls_hard_at l)) @ append_i64 (nanos_or_0 (ls_next_contact_due l)) @
     (case binding_id of None \<Rightarrow> [0] | Some i \<Rightarrow> 1 # append_field i)"

record signed_lease =
  sl_lease :: lease
  sl_signature :: bytes

type_synonym 'k ed25519 = "'k \<Rightarrow> bytes \<Rightarrow> bytes \<Rightarrow> bool"

definition verify_signed_lease :: "'k ed25519 \<Rightarrow> signed_lease \<Rightarrow> 'k \<Rightarrow> rstr option \<Rightarrow> licence_error + lease" where
  "verify_signed_lease ed sl pinned binding_id =
     (if length (sl_signature sl) \<noteq> 64 then Inl MalformedSignature
      else if ed pinned (signing_bytes (sl_lease sl) binding_id) (sl_signature sl) then Inr (sl_lease sl)
      else Inl BadSignature)"

section \<open>The store\<close>

record lease_binding =
  lb_signed :: signed_lease
  lb_entitlement :: entitlement
  lb_score :: nat
  lb_binding_id :: "rstr option"

datatype install_error =
  SignatureInvalid | FingerprintMismatch nat nat | Stale instant instant

record installed =
  in_entitlement :: entitlement
  in_at :: instant
  in_score :: nat
  in_binding_id :: "rstr option"

record lease_store =
  sto_installed :: "installed option"
  sto_gpus_in_use :: nat

definition store_new :: lease_store where
  "store_new = \<lparr>sto_installed = None, sto_gpus_in_use = 0\<rparr>"

definition sto_current :: "lease_store \<Rightarrow> entitlement option" where
  "sto_current st = map_option in_entitlement (sto_installed st)"

definition sto_binding_id :: "lease_store \<Rightarrow> rstr option" where
  "sto_binding_id st = Option.bind (sto_installed st) in_binding_id"

definition sto_score :: "lease_store \<Rightarrow> nat option" where
  "sto_score st = map_option in_score (sto_installed st)"

definition sto_installed_at :: "lease_store \<Rightarrow> instant option" where
  "sto_installed_at st = map_option in_at (sto_installed st)"

definition set_gpus_in_use :: "nat \<Rightarrow> lease_store \<Rightarrow> lease_store" where
  "set_gpus_in_use n st = st\<lparr>sto_gpus_in_use := n\<rparr>"

definition snapshot_of :: "lease_binding \<Rightarrow> instant \<Rightarrow> installed" where
  "snapshot_of b now = \<lparr>in_entitlement = lb_entitlement b, in_at = now, in_score = lb_score b, in_binding_id = lb_binding_id b\<rparr>"

definition install_binding ::
  "'k ed25519 \<Rightarrow> lease_binding \<Rightarrow> 'k \<Rightarrow> instant \<Rightarrow> lease_store \<Rightarrow> (install_error + lease) \<times> lease_store" where
  "install_binding ed b pinned now st =
     (case verify_signed_lease ed (lb_signed b) pinned (lb_binding_id b) of
        Inl _ \<Rightarrow> (Inl SignatureInvalid, st)
      | Inr verified \<Rightarrow>
          if verified \<noteq> en_lease (lb_entitlement b) then (Inl SignatureInvalid, st)
          else if lb_score b < FINGERPRINT_MATCH_THRESHOLD
          then (Inl (FingerprintMismatch (lb_score b) FINGERPRINT_MATCH_THRESHOLD), st)
          else
            (case sto_current st of
               Some active \<Rightarrow>
                 if ls_granted_at verified < ls_granted_at (en_lease active)
                 then (Inl (Stale (ls_granted_at (en_lease active)) (ls_granted_at verified)), st)
                 else (Inr (en_lease (lb_entitlement b)), st\<lparr>sto_installed := Some (snapshot_of b now)\<rparr>)
             | None \<Rightarrow> (Inr (en_lease (lb_entitlement b)), st\<lparr>sto_installed := Some (snapshot_of b now)\<rparr>)))"

definition store_ladder_input :: "entitlement \<Rightarrow> nat \<Rightarrow> instant \<Rightarrow> ladder_input" where
  "store_ladder_input e gpus now =
     \<lparr>li_lease = en_lease e, li_now = now, li_licensed = en_licensed e, li_detected = en_detected e,
      li_gpu_limit = (case en_gpu_limit e of Unlimited \<Rightarrow> 2 ^ 32 - 1 | Limited n \<Rightarrow> n), li_gpu_in_use = gpus,
      li_evaluation_started_at = None\<rparr>"

definition reason_codes :: "ladder_state \<Rightarrow> rstr list" where
  "reason_codes s =
     [str (case s of
        Compliant \<Rightarrow> ''lease_valid'' | Grace \<Rightarrow> ''lease_in_grace'' | LapsedSoft \<Rightarrow> ''lease_lapsed_soft''
      | LapsedHard \<Rightarrow> ''lease_lapsed_hard'' | Evaluation \<Rightarrow> ''evaluation''
      | ClassMismatch \<Rightarrow> ''hardware_class_mismatch'' | OverGpu \<Rightarrow> ''gpu_over_limit'')]"

record status_view =
  sv_tier :: rstr
  sv_state :: ladder_state
  sv_enforcement :: enforcement_level
  sv_licensed :: hardware_class
  sv_detected :: hardware_class
  sv_gpu_limit :: gpu_limit
  sv_gpus_in_use :: nat
  sv_config_locked :: bool
  sv_watermark :: bool
  sv_blocks_new :: bool
  sv_lease :: lease
  sv_reasons :: "rstr list"

definition status_at :: "(int \<Rightarrow> int) \<Rightarrow> instant \<Rightarrow> lease_store \<Rightarrow> status_view option" where
  "status_at num_days now st =
     (case sto_current st of
        None \<Rightarrow> None
      | Some e \<Rightarrow>
          let outcome = compute_ladder_state num_days (store_ladder_input e (sto_gpus_in_use st) now)
          in Some \<lparr>sv_tier = en_tier e, sv_state = lo_state outcome, sv_enforcement = level_of_state (lo_state outcome),
               sv_licensed = en_licensed e, sv_detected = en_detected e, sv_gpu_limit = en_gpu_limit e,
               sv_gpus_in_use = sto_gpus_in_use st, sv_config_locked = lo_config_locked outcome,
               sv_watermark = lo_watermark outcome, sv_blocks_new = lo_blocks_new outcome, sv_lease = en_lease e,
               sv_reasons = reason_codes (lo_state outcome)\<rparr>)"

section \<open>The watcher\<close>

text \<open>One directory entry: its extension, the change token of its metadata if they can be read, and
  what reading and decoding the file gives.\<close>

record dir_entry =
  de_extension :: "rstr option"
  de_token :: "rstr option"
  de_read :: "rstr + lease_binding"

datatype poll_outcome = NothingNew | PollInstalled rstr | PollRejected nat

record watcher =
  wa_store :: lease_store
  wa_seen :: "rstr list"

definition is_candidate :: "dir_entry \<Rightarrow> bool" where
  "is_candidate e =
     (case de_extension e of None \<Rightarrow> False | Some x \<Rightarrow> x \<in> set (map str [''binding'', ''lease'', ''cbor'']))"

definition try_install :: "'k ed25519 \<Rightarrow> 'k \<Rightarrow> instant \<Rightarrow> dir_entry \<Rightarrow> lease_store \<Rightarrow> rstr option \<times> lease_store" where
  "try_install ed pinned now e st =
     (case de_read e of
        Inl _ \<Rightarrow> (None, st)
      | Inr b \<Rightarrow>
          (case install_binding ed b pinned now st of
             (Inr l, st') \<Rightarrow> (Some (ls_serial l), st')
           | (Inl _, st') \<Rightarrow> (None, st')))"

definition poll_entry ::
  "'k ed25519 \<Rightarrow> 'k \<Rightarrow> instant \<Rightarrow> dir_entry \<Rightarrow> rstr option \<times> nat \<times> watcher \<Rightarrow> rstr option \<times> nat \<times> watcher" where
  "poll_entry ed pinned now e acc =
     (case acc of (installed, rejected, w) \<Rightarrow>
        if \<not> is_candidate e then acc
        else case de_token e of
          None \<Rightarrow> acc
        | Some token \<Rightarrow>
            if token \<in> set (wa_seen w) then acc
            else
              (case try_install ed pinned now e (wa_store w) of
                 (Some serial, st') \<Rightarrow> (Some serial, rejected, \<lparr>wa_store = st', wa_seen = token # wa_seen w\<rparr>)
               | (None, st') \<Rightarrow> (installed, rejected + 1, \<lparr>wa_store = st', wa_seen = token # wa_seen w\<rparr>)))"

definition poll_once :: "'k ed25519 \<Rightarrow> 'k \<Rightarrow> instant \<Rightarrow> dir_entry list option \<Rightarrow> watcher \<Rightarrow> poll_outcome \<times> watcher" where
  "poll_once ed pinned now entries w =
     (case entries of
        None \<Rightarrow> (NothingNew, w)
      | Some es \<Rightarrow>
          (case fold (poll_entry ed pinned now) es (None, 0, w) of
             (Some serial, _, w') \<Rightarrow> (PollInstalled serial, w')
           | (None, rejected, w') \<Rightarrow> (if rejected = 0 then NothingNew else PollRejected rejected, w')))"

section \<open>What a signature covers\<close>

text \<open>A value Rust can hold: strings shorter than 2^64 bytes, a signed 64-bit number of grace days.\<close>

definition representable :: "lease \<Rightarrow> rstr option \<Rightarrow> bool" where
  "representable l b \<longleftrightarrow> short (ls_serial l) \<and> in_i 64 (ls_grace_days l) \<and> (\<forall>i \<in> set_option b. short i)"

text \<open>What a signature can tell apart. Two dates are alike when they are one instant, or when neither is
  a non-zero instant of the signed 64-bit nanosecond range (1677 to 2262).\<close>

definition alike_dates :: "instant \<Rightarrow> instant \<Rightarrow> bool" where
  "alike_dates t t' \<longleftrightarrow> t = t' \<or> ((t = 0 \<or> \<not> in_i 64 t) \<and> (t' = 0 \<or> \<not> in_i 64 t'))"

definition alike_leases :: "lease \<Rightarrow> lease \<Rightarrow> bool" where
  "alike_leases l l' \<longleftrightarrow>
     ls_serial l = ls_serial l' \<and> ls_source l = ls_source l' \<and> ls_grace_days l = ls_grace_days l' \<and>
     alike_dates (ls_granted_at l) (ls_granted_at l') \<and> alike_dates (ls_expires_at l) (ls_expires_at l') \<and>
     alike_dates (ls_grace_until l) (ls_grace_until l') \<and> alike_dates (ls_hard_at l) (ls_hard_at l') \<and>
     alike_dates (ls_next_contact_due l) (ls_next_contact_due l')"

definition dates_in_range :: "lease \<Rightarrow> bool" where
  "dates_in_range l \<longleftrightarrow>
     (\<forall>t \<in> {ls_granted_at l, ls_expires_at l, ls_grace_until l, ls_hard_at l, ls_next_contact_due l}. in_i 64 t)"

lemma nanos_or_0_in [simp]: "in_i 64 (nanos_or_0 t)"
  by (simp add: nanos_or_0_def try_i_def in_i_def i_simps)

lemma nanos_or_0_alike: "nanos_or_0 t = nanos_or_0 t' \<longleftrightarrow> alike_dates t t'"
  by (auto simp: nanos_or_0_def try_i_def alike_dates_def)

lemma alike_in_range:
  assumes "alike_leases l l'" and "dates_in_range l" and "dates_in_range l'"
  shows "l = l'"
  using assms by (cases l, cases l') (auto simp: alike_leases_def dates_in_range_def alike_dates_def)

lemma length_str [simp]: "length (str s) = length s"
  by (simp add: str_def)

lemma short_str [simp]: "short (str s) \<longleftrightarrow> short s"
  by (simp add: short_def)

lemma short_tag [simp]: "short (source_tag l)"
  by (simp add: source_tag_def short_def split: lease_source.split)

lemma source_tag_inj: "source_tag l = source_tag l' \<longleftrightarrow> ls_source l = ls_source l'"
  by (cases "ls_source l"; cases "ls_source l'") (simp_all add: source_tag_def str_def)

lemma signing_bytes_iff:
  assumes "representable l b" "representable l' b'"
  shows "signing_bytes l b = signing_bytes l' b' \<longleftrightarrow> alike_leases l l' \<and> b = b'"
proof
  assume eq: "signing_bytes l b = signing_bytes l' b'"
  have i: "short (ls_serial l)" "short (ls_serial l')" "in_i 64 (ls_grace_days l)" "in_i 64 (ls_grace_days l')"
    "\<forall>i \<in> set_option b. short i" "\<forall>i \<in> set_option b'. short i"
    using assms by (simp_all add: representable_def)
  have "ls_serial l = ls_serial l'" "source_tag l = source_tag l'" "ls_grace_days l = ls_grace_days l'"
    "nanos_or_0 (ls_granted_at l) = nanos_or_0 (ls_granted_at l')" "nanos_or_0 (ls_expires_at l) = nanos_or_0 (ls_expires_at l')"
    "nanos_or_0 (ls_grace_until l) = nanos_or_0 (ls_grace_until l')" "nanos_or_0 (ls_hard_at l) = nanos_or_0 (ls_hard_at l')"
    "nanos_or_0 (ls_next_contact_due l) = nanos_or_0 (ls_next_contact_due l')"
    and tail: "(case b of None \<Rightarrow> [0] | Some i \<Rightarrow> 1 # append_field i) = (case b' of None \<Rightarrow> [0] | Some i \<Rightarrow> 1 # append_field i)"
    using eq i by (simp_all add: signing_bytes_def field.cut_iff i64.cut_iff)
  moreover have "b = b'"
    using tail i field.cut [of _ _ "[]" "[]"] by (auto split: option.splits)
  ultimately show "alike_leases l l' \<and> b = b'" by (simp add: alike_leases_def nanos_or_0_alike source_tag_inj)
next
  assume "alike_leases l l' \<and> b = b'"
  then show "signing_bytes l b = signing_bytes l' b'"
    by (simp add: signing_bytes_def alike_leases_def source_tag_def flip: nanos_or_0_alike)
qed

text \<open>C33: A signature vouches for one lease and one device. If the pinned key verifies only messages the
  licence server signed for the leases and binding ids it issued, then what verification returns is
  the presented lease, and under the very binding id it is verified with the server issued a lease
  with the same serial, source, grace days and five dates, where two dates count as the same when they
  are one instant or when neither is a non-zero instant of the signed 64-bit nanosecond range (years
  1677 to 2262); when all dates of both lie in that range it issued this very lease. Any other lease,
  or a lease grafted onto another device or onto none, is refused. (Leases and ids are values Rust can
  hold: lengths below 2^64, grace days in 64 bits.)\<close>

theorem lease_signature_binds:
  assumes unforgeable: "\<forall>m s. ed key m s \<longrightarrow> (\<exists>(l, b) \<in> issued. m = signing_bytes l b)"
    and "\<forall>(l, b) \<in> issued. representable l b" and "representable (sl_lease sgd) b"
  shows "(verify_signed_lease ed sgd key b = Inr l \<longrightarrow>
      l = sl_lease sgd \<and>
      (\<exists>l0. (l0, b) \<in> issued \<and> alike_leases l0 l \<and> (dates_in_range l0 \<longrightarrow> dates_in_range l \<longrightarrow> l0 = l))) \<and>
    ((\<forall>l0. (l0, b) \<in> issued \<longrightarrow> \<not> alike_leases l0 (sl_lease sgd)) \<longrightarrow>
      verify_signed_lease ed sgd key b \<in> {Inl MalformedSignature, Inl BadSignature})"
proof -
  have "\<exists>l0. (l0, b) \<in> issued \<and> alike_leases l0 (sl_lease sgd)"
    if v: "ed key (signing_bytes (sl_lease sgd) b) (sl_signature sgd)"
  proof -
    have "\<exists>(l0, b0) \<in> issued. signing_bytes (sl_lease sgd) b = signing_bytes l0 b0" using unforgeable v by blast
    then obtain l0 b0 where i: "(l0, b0) \<in> issued" "signing_bytes l0 b0 = signing_bytes (sl_lease sgd) b" by auto
    then have "representable l0 b0" using assms(2) by auto
    with i assms(3) show ?thesis by (auto simp: signing_bytes_iff)
  qed
  then show ?thesis by (auto simp: verify_signed_lease_def intro: alike_in_range)
qed

definition lease_a :: lease where
  "lease_a = lease_new (str ''A'') 0 OnlineLease 31"

definition key_a :: "unit ed25519" where
  "key_a k m s \<longleftrightarrow> m = signing_bytes lease_a (Some (str ''dev-1''))"

lemma lease_signature_binds_witness:
  "verify_signed_lease key_a \<lparr>sl_lease = lease_a, sl_signature = replicate 64 0\<rparr> () (Some (str ''dev-2'')) \<noteq> Inr lease_a \<and>
   verify_signed_lease key_a \<lparr>sl_lease = lease_a, sl_signature = replicate 64 0\<rparr> () (Some (str ''dev-1'')) = Inr lease_a"
proof -
  have ok: "representable lease_a (Some (str ''dev-2''))" "representable lease_a (Some (str ''dev-1''))"
    by (simp_all add: representable_def lease_a_def lease_new_def term_days_def licence_constants
        days_def Let_def in_i_def i_simps short_def)
  have n: "Some (str ''dev-2'') \<noteq> Some (str ''dev-1'')" by (simp add: str_def)
  have u: "\<forall>m s. key_a () m s \<longrightarrow> (\<exists>(l, b) \<in> {(lease_a, Some (str ''dev-1''))}. m = signing_bytes l b)"
    by (simp add: key_a_def)
  have "\<forall>(l, b) \<in> {(lease_a, Some (str ''dev-1''))}. representable l b" using ok by simp
  from lease_signature_binds [where ed = key_a and key = "()" and sgd = "\<lparr>sl_lease = lease_a, sl_signature = replicate 64 0\<rparr>" and
      b = "Some (str ''dev-2'')" and l = lease_a, OF u this] ok n
  have "verify_signed_lease key_a \<lparr>sl_lease = lease_a, sl_signature = replicate 64 0\<rparr> () (Some (str ''dev-2'')) \<noteq> Inr lease_a"
    by auto
  then show ?thesis by (simp add: verify_signed_lease_def key_a_def)
qed

text \<open>An instant beyond the 64-bit nanosecond range (year 2262) is signed as 0, so such an expiry can be
  changed without invalidating the signature.\<close>

lemma out_of_range_expiry_unsigned:
  "\<not> in_i 64 t \<Longrightarrow> \<not> in_i 64 t' \<Longrightarrow> signing_bytes (l\<lparr>ls_expires_at := t\<rparr>) b = signing_bytes (l\<lparr>ls_expires_at := t'\<rparr>) b"
  by (simp add: signing_bytes_def nanos_or_0_def try_i_def source_tag_def)

section \<open>The newest verified lease\<close>

definition admissible :: "'k ed25519 \<Rightarrow> lease_binding \<Rightarrow> 'k \<Rightarrow> bool" where
  "admissible ed b key \<longleftrightarrow>
     length (sl_signature (lb_signed b)) = 64 \<and>
     ed key (signing_bytes (en_lease (lb_entitlement b)) (lb_binding_id b)) (sl_signature (lb_signed b)) \<and>
     sl_lease (lb_signed b) = en_lease (lb_entitlement b) \<and> FINGERPRINT_MATCH_THRESHOLD \<le> lb_score b"

definition granted :: "lease_binding \<Rightarrow> instant" where
  "granted b = ls_granted_at (en_lease (lb_entitlement b))"

definition active_grant :: "lease_store \<Rightarrow> instant option" where
  "active_grant st = map_option (\<lambda>i. ls_granted_at (en_lease (in_entitlement i))) (sto_installed st)"

lemma active_grant_snapshot [simp]:
  "active_grant (st\<lparr>sto_installed := Some (snapshot_of b now)\<rparr>) = Some (granted b)"
  by (simp add: active_grant_def snapshot_of_def granted_def)

lemma install_result:
  "install_binding ed b key now st =
     (if admissible ed b key \<and> (\<forall>g \<in> set_option (active_grant st). g \<le> granted b)
      then (Inr (en_lease (lb_entitlement b)), st\<lparr>sto_installed := Some (snapshot_of b now)\<rparr>)
      else (fst (install_binding ed b key now st), st)) \<and>
   (fst (install_binding ed b key now st) = Inr l \<longrightarrow>
      admissible ed b key \<and> (\<forall>g \<in> set_option (active_grant st). g \<le> granted b))"
  by (auto simp: install_binding_def verify_signed_lease_def admissible_def granted_def active_grant_def sto_current_def
      split: option.splits)

datatype 'k store_op = Install lease_binding 'k instant | Gpus nat

fun store_step :: "'k ed25519 \<Rightarrow> 'k store_op \<Rightarrow> lease_store \<Rightarrow> lease_store" where
  "store_step ed (Install b key now) st = snd (install_binding ed b key now st)"
| "store_step ed (Gpus n) st = set_gpus_in_use n st"

definition store_run :: "'k ed25519 \<Rightarrow> 'k store_op list \<Rightarrow> lease_store" where
  "store_run ed ops = fold (store_step ed) ops store_new"

lemma store_run_snoc: "store_run ed (ops @ [op]) = store_step ed op (store_run ed ops)"
  by (simp add: store_run_def)

lemma install_snd:
  "snd (install_binding ed b key now st) =
     (if admissible ed b key \<and> (\<forall>g \<in> set_option (active_grant st). g \<le> granted b)
      then st\<lparr>sto_installed := Some (snapshot_of b now)\<rparr> else st)"
  using install_result [of ed b key now st undefined] by (metis snd_conv)

definition newest_installed :: "'k ed25519 \<Rightarrow> 'k store_op list \<Rightarrow> lease_store \<Rightarrow> bool" where
  "newest_installed ed ops st \<longleftrightarrow>
     (case sto_installed st of
        None \<Rightarrow> \<forall>b key now. Install b key now \<in> set ops \<longrightarrow> \<not> admissible ed b key
      | Some i \<Rightarrow> \<exists>b key now. Install b key now \<in> set ops \<and> admissible ed b key \<and> i = snapshot_of b now \<and>
          (\<forall>b' key' now'. Install b' key' now' \<in> set ops \<and> admissible ed b' key' \<longrightarrow> granted b' \<le> granted b))"

lemma newest_run: "newest_installed ed ops (store_run ed ops)"
proof (induction ops rule: rev_induct)
  case Nil
  show ?case by (simp add: newest_installed_def store_run_def store_new_def)
next
  case (snoc op ops)
  show ?case
  proof (cases op)
    case (Gpus n)
    then show ?thesis using snoc by (auto simp: newest_installed_def store_run_snoc set_gpus_in_use_def split: option.splits)
  next
    case (Install b key now)
    let ?st = "store_run ed ops"
    show ?thesis
    proof (cases "admissible ed b key \<and> (\<forall>g \<in> set_option (active_grant ?st). g \<le> granted b)")
      case True
      have "granted b' \<le> granted b" if "Install b' key' now' \<in> set ops" "admissible ed b' key'" for b' key' now'
        using snoc that True unfolding newest_installed_def active_grant_def
        by (cases "sto_installed ?st") (auto simp: snapshot_of_def granted_def, meson order_trans)
      then have "\<forall>b' key' now'. Install b' key' now' \<in> set (ops @ [op]) \<and> admissible ed b' key' \<longrightarrow> granted b' \<le> granted b"
        using Install by auto
      moreover have "sto_installed (store_run ed (ops @ [op])) = Some (snapshot_of b now)"
        using True by (simp add: store_run_snoc Install install_snd)
      moreover have "Install b key now \<in> set (ops @ [op])" using Install by simp
      ultimately show ?thesis using True unfolding newest_installed_def by simp blast
    next
      case False
      then have "sto_installed (store_run ed (ops @ [op])) = sto_installed ?st"
        by (simp only: store_run_snoc Install store_step.simps install_snd if_not_P if_False)
      moreover have "admissible ed b key \<Longrightarrow> \<exists>i. sto_installed ?st = Some i \<and> granted b \<le> ls_granted_at (en_lease (in_entitlement i))"
        using False by (auto simp: active_grant_def)
      ultimately show ?thesis
        using snoc Install unfolding newest_installed_def
        by (auto simp: snapshot_of_def granted_def split: option.splits) blast+
    qed
  qed
qed

text \<open>The store holds the newest lease it can trust. After any sequence of install attempts, with any
  bindings, keys and clocks, the installed snapshot is one whole binding that was presented, whose
  signature covers its lease and device, whose score reaches the threshold, and whose grant no
  trustworthy binding presented exceeds; it is empty only if none was trustworthy. An attempt is
  accepted exactly when it is trustworthy and not older, and a refused one changes nothing.\<close>

theorem install_keeps_newest:
  "newest_installed ed ops (store_run ed ops) \<and>
   (isl (fst (install_binding ed b key now st)) \<longleftrightarrow>
      \<not> (admissible ed b key \<and> (\<forall>g \<in> set_option (active_grant st). g \<le> granted b))) \<and>
   (isl (fst (install_binding ed b key now st)) \<longrightarrow> snd (install_binding ed b key now st) = st) \<and>
   (\<forall>g \<in> set_option (active_grant (store_run ed ops)). \<exists>g' \<ge> g. active_grant (store_run ed (ops @ later)) = Some g')"
proof (intro conjI ballI impI)
  show "newest_installed ed ops (store_run ed ops)" by (rule newest_run)
  show e: "isl (fst (install_binding ed b key now st)) \<longleftrightarrow>
      \<not> (admissible ed b key \<and> (\<forall>g \<in> set_option (active_grant st). g \<le> granted b))"
    using install_result [of ed b key now st] by (cases "fst (install_binding ed b key now st)") (auto split: if_splits)
  show "snd (install_binding ed b key now st) = st" if "isl (fst (install_binding ed b key now st))"
    using that unfolding e by (simp only: install_snd if_not_P if_False)
  fix g assume g: "g \<in> set_option (active_grant (store_run ed ops))"
  show "\<exists>g' \<ge> g. active_grant (store_run ed (ops @ later)) = Some g'"
  proof (induction later rule: rev_induct)
    case Nil
    then show ?case using g by auto
  next
    case (snoc op later)
    then obtain g' where g': "g \<le> g'" "active_grant (store_run ed (ops @ later)) = Some g'" by blast
    have "store_run ed (ops @ later @ [op]) = store_step ed op (store_run ed (ops @ later))"
      using store_run_snoc [of ed "ops @ later" op] by simp
    then show ?case
      using g' by (cases op) (auto simp: install_snd set_gpus_in_use_def active_grant_def snapshot_of_def granted_def)
  qed
qed

definition binding_of :: "lease \<Rightarrow> lease_binding" where
  "binding_of l = \<lparr>lb_signed = \<lparr>sl_lease = l, sl_signature = replicate 64 0\<rparr>,
     lb_entitlement = \<lparr>en_tier = str ''pro'', en_licensed = Edge, en_detected = Edge, en_gpu_limit = Limited 1, en_lease = l,
       en_flags = flags_default\<rparr>, lb_score = 80, lb_binding_id = Some (str ''dev-1'')\<rparr>"

lemma install_keeps_newest_witness:
  "active_grant (store_run (\<lambda>_ _ _. True) [Install (binding_of (lease_new [] 9 OnlineLease 31)) () 0,
     Install (binding_of (lease_new [] 5 OnlineLease 31)) () 1]) = Some 9"
proof -
  let ?ops = "[Install (binding_of (lease_new [] 9 OnlineLease 31)) () 0, Install (binding_of (lease_new [] 5 OnlineLease 31)) () 1]"
  have a: "admissible (\<lambda>_ _ _. True) (binding_of l) ()" and g: "granted (binding_of (lease_new [] t OnlineLease 31)) = t" for l t
    by (simp_all add: admissible_def binding_of_def granted_def lease_new_def Let_def FINGERPRINT_MATCH_THRESHOLD_def)
  from install_keeps_newest [THEN conjunct1, of "\<lambda>_ _ _. True" ?ops] show ?thesis
    by (auto simp: newest_installed_def active_grant_def a g snapshot_of_def simp flip: granted_def split: option.splits)
qed

text \<open>The signature covers the lease and the device, not the rest of the binding: the GPU limit, the
  hardware class and the fingerprint score of a genuine binding can be rewritten and still install.\<close>

lemma entitlement_envelope_unsigned:
  assumes "admissible ed b key"
  shows "admissible ed (b\<lparr>lb_entitlement := (lb_entitlement b)\<lparr>en_gpu_limit := Unlimited, en_detected := c, en_licensed := c\<rparr>,
    lb_score := 100\<rparr>) key"
  using assms by (simp add: admissible_def FINGERPRINT_MATCH_THRESHOLD_def)

section \<open>Polling\<close>

lemma poll_entries_seen:
  "\<forall>e \<in> set es. \<forall>t. is_candidate e \<and> de_token e = Some t \<longrightarrow> t \<in> set (wa_seen w) \<Longrightarrow>
     fold (poll_entry ed pinned now) es (i, n, w) = (i, n, w)"
  by (induction es) (auto simp: poll_entry_def split: option.splits)

lemma poll_entry_marks:
  "case poll_entry ed pinned now e acc of (_, _, w') \<Rightarrow> set (wa_seen (snd (snd acc))) \<subseteq> set (wa_seen w') \<and>
     (\<forall>t. is_candidate e \<and> de_token e = Some t \<longrightarrow> t \<in> set (wa_seen w'))"
  by (auto simp: poll_entry_def split: prod.splits option.splits if_splits)

lemma poll_fold_marks:
  "case fold (poll_entry ed pinned now) es acc of (_, _, w') \<Rightarrow> set (wa_seen (snd (snd acc))) \<subseteq> set (wa_seen w') \<and>
     (\<forall>e \<in> set es. \<forall>t. is_candidate e \<and> de_token e = Some t \<longrightarrow> t \<in> set (wa_seen w'))"
proof (induction es arbitrary: acc)
  case (Cons e es)
  show ?case
    using Cons.IH [of "poll_entry ed pinned now e acc"] poll_entry_marks [where ed = ed and pinned = pinned and now = now and e = e and acc = acc]
    by (fastforce split: prod.splits)
qed (simp split: prod.split)

text \<open>A second poll over an unchanged directory finds nothing new and changes nothing.\<close>

lemma poll_idempotent:
  "poll_once ed pinned' now' (Some es) (snd (poll_once ed pinned now (Some es) w)) =
     (NothingNew, snd (poll_once ed pinned now (Some es) w))"
proof -
  obtain i n w' where p: "fold (poll_entry ed pinned now) es (None, 0, w) = (i, n, w')" by (metis prod_cases3)
  have "fold (poll_entry ed pinned' now') es (None, 0, w') = (None, 0, w')"
    using poll_fold_marks [where ed = ed and pinned = pinned and now = now and es = es and acc = "(None, 0, w)"] by (intro poll_entries_seen) (simp add: p)
  then show ?thesis by (simp add: poll_once_def p split: option.split)
qed

end
