(* ===== verification/Key_Trust.thy ===== *)
theory Key_Trust
  imports Canonical_Bytes
begin

text \<open>
  What the licence client believes and why (\<open>multiview-licence/src/heartbeat.rs\<close>): the byte strings
  the root, the devices and the lease signers put their signatures on, the chain from the pinned root
  through the attested intermediate keys to a lease body, and the parser of that body.

  The base64, hex, SHA-256, P-256, Ed25519, COSE and CBOR packages are the fields of the record
  \<open>crypto\<close>, an argument of every definition that calls them. A P-256 key is its SEC1 bytes.
\<close>

section \<open>The packages\<close>

datatype cbor_value =
    CInteger int | CBytes bytes | CFloat "64 word" | CText rstr | CBool bool | CNull
  | CTag nat cbor_value | CArray "cbor_value list" | CMap "(cbor_value \<times> cbor_value) list"

record 'k crypto =
  cx_url_decode :: "rstr \<Rightarrow> bytes option"
  cx_url_encode :: "bytes \<Rightarrow> rstr"
  cx_std_decode :: "rstr \<Rightarrow> bytes option"
  cx_std_encode :: "bytes \<Rightarrow> rstr"
  cx_hex_decode :: "rstr \<Rightarrow> rstr + bytes"
  cx_sha256 :: "bytes \<Rightarrow> bytes"
  cx_p256_point :: "bytes \<Rightarrow> bool"
  cx_p256_verify :: "bytes \<Rightarrow> bytes \<Rightarrow> bytes \<Rightarrow> bool"
  cx_ed_key :: "bytes \<Rightarrow> 'k option"
  cx_ed_verify :: "'k \<Rightarrow> bytes \<Rightarrow> bytes \<Rightarrow> bool"
  cx_cose_sign1 :: "(bytes \<Rightarrow> bytes) \<Rightarrow> bytes \<Rightarrow> rstr + bytes"
  cx_cbor :: "bytes \<Rightarrow> cbor_value option"

section \<open>Strings\<close>

text \<open>\<open>str::trim\<close> strips the characters with the Unicode property White_Space, here as UTF-8.\<close>

definition white_space :: "bytes list" where
  "white_space =
     [[9], [10], [11], [12], [13], [32], [0xC2, 0x85], [0xC2, 0xA0], [0xE1, 0x9A, 0x80]] @
     map (\<lambda>b. [0xE2, 0x80, b]) [0x80, 0x81, 0x82, 0x83, 0x84, 0x85, 0x86, 0x87, 0x88, 0x89, 0x8A, 0xA8, 0xA9, 0xAF] @
     [[0xE2, 0x81, 0x9F], [0xE3, 0x80, 0x80]]"

function strip_prefixes :: "bytes list \<Rightarrow> bytes \<Rightarrow> bytes" where
  "strip_prefixes ws s =
     (case find (\<lambda>w. w \<noteq> [] \<and> take (length w) s = w) ws of
        Some w \<Rightarrow> strip_prefixes ws (drop (length w) s)
      | None \<Rightarrow> s)"
  by auto
termination
proof (relation "measure (length \<circ> snd)")
  fix ws :: "bytes list" and s w
  assume "find (\<lambda>w. w \<noteq> [] \<and> take (length w) s = w) ws = Some w"
  then have "w \<noteq> []" "take (length w) s = w" by (auto simp: find_Some_iff)
  then have "s \<noteq> []" by auto
  with \<open>w \<noteq> []\<close> show "((ws, drop (length w) s), (ws, s)) \<in> measure (length \<circ> snd)" by simp
qed simp

declare strip_prefixes.simps [simp del]

definition trim :: "rstr \<Rightarrow> rstr" where
  "trim s = rev (strip_prefixes (map rev white_space) (rev (strip_prefixes white_space s)))"

definition trim_end_matches :: "byte \<Rightarrow> rstr \<Rightarrow> rstr" where
  "trim_end_matches c s = rev (dropWhile (\<lambda>b. b = c) (rev s))"

definition b64url :: "'k crypto \<Rightarrow> rstr \<Rightarrow> bytes option" where
  "b64url cx s = cx_url_decode cx (trim_end_matches 0x3D s)"

text \<open>Decimal digits, as \<open>format!\<close> prints an unsigned number.\<close>

fun decimal :: "nat \<Rightarrow> rstr" where
  "decimal n = (if n < 10 then [48 + of_nat n] else decimal (n div 10) @ [48 + of_nat (n mod 10)])"

declare decimal.simps [simp del]

lemma decimal_digit: "d < 10 \<Longrightarrow> e < 10 \<Longrightarrow> (of_nat d :: byte) = of_nat e \<longleftrightarrow> d = e"
  using word_of_nat_eq [where 'a = 8, of d e] by simp

lemma decimal_nonempty [simp]: "decimal n \<noteq> []" "[] \<noteq> decimal n"
  by (subst decimal.simps, simp)+

lemma decimal_inj: "decimal m = decimal n \<Longrightarrow> m = n"
proof (induction m arbitrary: n rule: decimal.induct)
  case (1 m)
  show ?case
  proof (cases "m < 10 \<or> n < 10")
    case True
    then show ?thesis using "1.prems"
      by (subst (asm) (1 2) decimal.simps) (auto simp: decimal_digit split: if_splits)
  next
    case False
    then have "decimal (m div 10) @ [48 + of_nat (m mod 10) :: byte] = decimal (n div 10) @ [48 + of_nat (n mod 10)]"
      using "1.prems" by (subst (asm) (1 2) decimal.simps) simp
    then have "decimal (m div 10) = decimal (n div 10)" "m mod 10 = n mod 10" by (simp_all add: decimal_digit)
    then have "m div 10 = n div 10" using "1.IH" False by simp
    with \<open>m mod 10 = n mod 10\<close> show ?thesis by (metis div_mult_mod_eq)
  qed
qed

section \<open>Signed byte strings\<close>

definition canonical_key_preimage :: "rstr \<Rightarrow> rstr \<Rightarrow> rstr \<Rightarrow> bytes \<Rightarrow> int \<Rightarrow> int \<Rightarrow> bytes" where
  "canonical_key_preimage key_id key_type statement public_key valid_from valid_until =
     cbor_head 5 6 @
     cbor_tstr (str ''key_id'') @ cbor_tstr key_id @
     cbor_tstr (str ''key_type'') @ cbor_tstr key_type @
     cbor_tstr (str ''statement'') @ cbor_tstr statement @
     cbor_tstr (str ''public_key'') @ cbor_bstr public_key @
     cbor_tstr (str ''valid_from'') @ cbor_uint valid_from @
     cbor_tstr (str ''valid_until'') @ cbor_uint valid_until"

definition canonical_revocation_preimage :: "int \<Rightarrow> rstr \<Rightarrow> rstr list \<Rightarrow> bytes" where
  "canonical_revocation_preimage issued_at statement revoked_key_ids =
     cbor_head 5 3 @
     cbor_tstr (str ''issued_at'') @ cbor_uint issued_at @
     cbor_tstr (str ''statement'') @ cbor_tstr statement @
     cbor_tstr (str ''revoked_key_ids'') @ cbor_tstrs revoked_key_ids"

datatype pop_error = PopNonce rstr | PopCose rstr

definition is_hex_digit :: "byte \<Rightarrow> bool" where
  "is_hex_digit b \<longleftrightarrow> (48 \<le> b \<and> b \<le> 57) \<or> (65 \<le> b \<and> b \<le> 70) \<or> (97 \<le> b \<and> b \<le> 102)"

definition nonce_hex_to_raw :: "'k crypto \<Rightarrow> rstr \<Rightarrow> pop_error + bytes" where
  "nonce_hex_to_raw cx nonce_hex =
     (if length nonce_hex \<noteq> 64 \<or> \<not> (\<forall>b \<in> set nonce_hex. is_hex_digit b)
      then Inl (PopNonce (str ''expected 64 hex chars, got '' @ decimal (length nonce_hex) @ str '' chars''))
      else if \<exists>b \<in> set nonce_hex. 65 \<le> b \<and> b \<le> 90 then Inl (PopNonce (str ''nonce must be lower-case hex''))
      else case cx_hex_decode cx nonce_hex of
        Inl e \<Rightarrow> Inl (PopNonce e)
      | Inr bs \<Rightarrow>
          if length bs \<noteq> 32
          then Inl (PopNonce (str ''decoded to '' @ decimal (length bs) @ str '' bytes, expected 32''))
          else Inr bs)"

definition canonical_pop_preimage ::
  "'k crypto \<Rightarrow> rstr \<Rightarrow> rstr \<Rightarrow> bytes \<Rightarrow> rstr \<Rightarrow> rstr \<Rightarrow> int \<Rightarrow> pop_error + bytes" where
  "canonical_pop_preimage cx htm htu body instance_id nonce_hex iat =
     (case nonce_hex_to_raw cx nonce_hex of
        Inl e \<Rightarrow> Inl e
      | Inr nonce_raw \<Rightarrow>
          Inr (cbor_head 5 6 @
            cbor_tstr (str ''htm'') @ cbor_tstr htm @
            cbor_tstr (str ''htu'') @ cbor_tstr htu @
            cbor_tstr (str ''sha256_body'') @ cbor_bstr (cx_sha256 cx body) @
            cbor_tstr (str ''instance_id'') @ cbor_tstr instance_id @
            cbor_tstr (str ''nonce'') @ cbor_bstr nonce_raw @
            cbor_tstr (str ''iat'') @ cbor_uint iat))"

record device_signer =
  ds_public_key :: bytes
  ds_sign :: "bytes \<Rightarrow> bytes"

definition pop_header_value ::
  "'k crypto \<Rightarrow> device_signer \<Rightarrow> rstr \<Rightarrow> rstr \<Rightarrow> bytes \<Rightarrow> rstr \<Rightarrow> rstr \<Rightarrow> int \<Rightarrow> pop_error + rstr" where
  "pop_header_value cx signer htm htu body instance_id nonce_hex iat =
     (case canonical_pop_preimage cx htm htu body instance_id nonce_hex iat of
        Inl e \<Rightarrow> Inl e
      | Inr preimage \<Rightarrow>
          (case cx_cose_sign1 cx (ds_sign signer) preimage of
             Inl e \<Rightarrow> Inl (PopCose e)
           | Inr bs \<Rightarrow> Inr (cx_std_encode cx bs)))"

section \<open>The key document and its verification\<close>

record root_descriptor =
  rd_kid :: rstr
  rd_public_key :: rstr

record attestation_contract =
  ac_key_statement :: rstr
  ac_revocation_statement :: rstr

record intermediate_key =
  ik_kid :: rstr
  ik_key_type :: rstr
  ik_public_key :: rstr
  ik_valid_from :: int
  ik_valid_until :: int
  ik_status :: rstr
  ik_root_sig :: rstr

record revocation =
  rv_statement :: rstr
  rv_issued_at :: int
  rv_revoked_key_ids :: "rstr list"
  rv_root_revocation_sig :: rstr

record licensing_keys =
  lk_root :: root_descriptor
  lk_contract :: attestation_contract
  lk_lease_keys :: "intermediate_key list"
  lk_revocation :: revocation

datatype key_trust_error =
  MalformedRoot | RootMismatch | RevocationNotAttested | IntermediateNotAttested rstr

record pinned_root =
  pr_sec1 :: bytes

definition pinned_from_sec1 :: "'k crypto \<Rightarrow> bytes \<Rightarrow> key_trust_error + pinned_root" where
  "pinned_from_sec1 cx bs = (if cx_p256_point cx bs then Inr \<lparr>pr_sec1 = bs\<rparr> else Inl MalformedRoot)"

definition pinned_from_base64url :: "'k crypto \<Rightarrow> rstr \<Rightarrow> key_trust_error + pinned_root" where
  "pinned_from_base64url cx s = (case b64url cx s of None \<Rightarrow> Inl MalformedRoot | Some bs \<Rightarrow> pinned_from_sec1 cx bs)"

definition pinned_verify :: "'k crypto \<Rightarrow> pinned_root \<Rightarrow> bytes \<Rightarrow> bytes \<Rightarrow> bool" where
  "pinned_verify cx p message raw_sig = cx_p256_verify cx (pr_sec1 p) message raw_sig"

text \<open>One pass of the loop over the intermediates: an error rejects the whole document, \<open>None\<close> skips
  the key, \<open>Some\<close> trusts it.\<close>

definition attest_key ::
  "'k crypto \<Rightarrow> pinned_root \<Rightarrow> rstr \<Rightarrow> rstr list \<Rightarrow> int \<Rightarrow> intermediate_key \<Rightarrow> key_trust_error + (rstr \<times> 'k) option" where
  "attest_key cx pinned key_statement revoked now_ms ik =
     (let err = Inl (IntermediateNotAttested (ik_kid ik))
      in case b64url cx (ik_public_key ik) of
        None \<Rightarrow> err
      | Some pubkey \<Rightarrow>
          if ik_valid_from ik < 0 \<or> ik_valid_until ik < 0 then err
          else
            let pre = canonical_key_preimage (ik_kid ik) (ik_key_type ik) key_statement pubkey (ik_valid_from ik) (ik_valid_until ik)
            in case b64url cx (ik_root_sig ik) of
                 None \<Rightarrow> err
               | Some sig \<Rightarrow>
                   if \<not> pinned_verify cx pinned pre sig then err
                   else if ik_key_type ik \<noteq> str ''lease'' then Inr None
                   else if ik_kid ik \<in> set revoked then Inr None
                   else if now_ms < ik_valid_from ik \<or> now_ms > ik_valid_until ik then Inr None
                   else if length pubkey \<noteq> 32 then err
                   else case cx_ed_key cx pubkey of
                     None \<Rightarrow> err
                   | Some vk \<Rightarrow> Inr (Some (ik_kid ik, vk)))"

type_synonym 'k trusted_keys = "(rstr \<times> 'k) list"

fun attest_keys ::
  "'k crypto \<Rightarrow> pinned_root \<Rightarrow> rstr \<Rightarrow> rstr list \<Rightarrow> int \<Rightarrow> intermediate_key list \<Rightarrow> 'k trusted_keys \<Rightarrow>
     key_trust_error + 'k trusted_keys" where
  "attest_keys cx pinned stmt revoked now_ms [] trusted = Inr trusted"
| "attest_keys cx pinned stmt revoked now_ms (ik # iks) trusted =
     (case attest_key cx pinned stmt revoked now_ms ik of
        Inl e \<Rightarrow> Inl e
      | Inr None \<Rightarrow> attest_keys cx pinned stmt revoked now_ms iks trusted
      | Inr (Some k) \<Rightarrow> attest_keys cx pinned stmt revoked now_ms iks (trusted @ [k]))"

definition trusted_keys_verify ::
  "'k crypto \<Rightarrow> licensing_keys \<Rightarrow> pinned_root \<Rightarrow> int \<Rightarrow> key_trust_error + 'k trusted_keys" where
  "trusted_keys_verify cx keys pinned now_ms =
     (case b64url cx (rd_public_key (lk_root keys)) of
        None \<Rightarrow> Inl MalformedRoot
      | Some advertised \<Rightarrow>
          (case pinned_from_sec1 cx advertised of
             Inl _ \<Rightarrow> Inl MalformedRoot
           | Inr advertised_root \<Rightarrow>
               if pr_sec1 advertised_root \<noteq> pr_sec1 pinned then Inl RootMismatch
               else
                 let rev_pre = canonical_revocation_preimage (rv_issued_at (lk_revocation keys))
                       (ac_revocation_statement (lk_contract keys)) (rv_revoked_key_ids (lk_revocation keys))
                 in case b64url cx (rv_root_revocation_sig (lk_revocation keys)) of
                      None \<Rightarrow> Inl RevocationNotAttested
                    | Some rev_sig \<Rightarrow>
                        if \<not> pinned_verify cx pinned rev_pre rev_sig then Inl RevocationNotAttested
                        else attest_keys cx pinned (ac_key_statement (lk_contract keys))
                               (rv_revoked_key_ids (lk_revocation keys)) now_ms (lk_lease_keys keys) []))"

definition lease_key :: "'k trusted_keys \<Rightarrow> rstr \<Rightarrow> 'k option" where
  "lease_key trusted signer_key_id = map_option snd (find (\<lambda>(kid, _). kid = signer_key_id) trusted)"

section \<open>Lease bodies\<close>

record server_lease =
  se_serial :: rstr
  se_licence_id :: "rstr option"
  se_instance_binding_id :: "rstr option"
  se_not_after :: int
  se_signature :: rstr
  se_signer_key_id :: rstr
  se_lease_bytes :: rstr

record lease_body =
  bo_licence_id :: rstr
  bo_instance_binding_id :: rstr
  bo_serial :: rstr
  bo_not_after :: int
  bo_gpu_limit :: "nat option"
  bo_hardware_class :: "rstr option"

definition is_expired_at :: "lease_body \<Rightarrow> int \<Rightarrow> bool" where
  "is_expired_at b now_ms \<longleftrightarrow> bo_not_after b \<le> now_ms"

datatype signed_lease_error =
  SL_UnknownSigner rstr | SL_MalformedSignature | SL_MalformedBody | SL_BadSignature

fun as_map :: "cbor_value \<Rightarrow> (cbor_value \<times> cbor_value) list option" where
  "as_map (CMap m) = Some m" | "as_map _ = None"

fun as_text :: "cbor_value \<Rightarrow> rstr option" where
  "as_text (CText s) = Some s" | "as_text _ = None"

fun as_integer :: "cbor_value \<Rightarrow> int option" where
  "as_integer (CInteger i) = Some i" | "as_integer _ = None"

definition body_get :: "(cbor_value \<times> cbor_value) list \<Rightarrow> string \<Rightarrow> cbor_value option" where
  "body_get m key = map_option snd (find (\<lambda>(k, _). as_text k = Some (str key)) m)"

definition required_text :: "(cbor_value \<times> cbor_value) list \<Rightarrow> string \<Rightarrow> rstr option" where
  "required_text m key =
     (case Option.bind (body_get m key) as_text of Some s \<Rightarrow> if s \<noteq> [] then Some s else None | None \<Rightarrow> None)"

definition body_integer :: "(cbor_value \<times> cbor_value) list \<Rightarrow> string \<Rightarrow> int option" where
  "body_integer m key = Option.bind (Option.bind (body_get m key) as_integer) (try_i 64)"

definition try_u32 :: "int \<Rightarrow> nat option" where
  "try_u32 n = (if 0 \<le> n \<and> n < 2 ^ 32 then Some (nat n) else None)"

definition gpu_field :: "(cbor_value \<times> cbor_value) list \<Rightarrow> signed_lease_error + nat option" where
  "gpu_field m =
     (case body_get m ''gpu_limit'' of
        None \<Rightarrow> Inr None
      | Some v \<Rightarrow>
          (case Option.bind (Option.bind (as_integer v) (try_i 64)) try_u32 of
             None \<Rightarrow> Inl SL_MalformedBody
           | Some n \<Rightarrow> Inr (Some n)))"

definition parse_lease_body :: "'k crypto \<Rightarrow> bytes \<Rightarrow> signed_lease_error + lease_body" where
  "parse_lease_body cx bs =
     (case Option.bind (cx_cbor cx bs) as_map of
        None \<Rightarrow> Inl SL_MalformedBody
      | Some m \<Rightarrow>
          (case (required_text m ''licence_id'', required_text m ''instance_binding_id'', required_text m ''serial'',
                 body_integer m ''not_after'', gpu_field m) of
             (Some l, Some i, Some s, Some t, Inr g) \<Rightarrow>
               Inr \<lparr>bo_licence_id = l, bo_instance_binding_id = i, bo_serial = s, bo_not_after = t, bo_gpu_limit = g,
                 bo_hardware_class = Option.bind (body_get m ''hardware_class'') as_text\<rparr>
           | _ \<Rightarrow> Inl SL_MalformedBody))"

definition verify_signed_lease_chain ::
  "'k crypto \<Rightarrow> server_lease \<Rightarrow> 'k trusted_keys \<Rightarrow> signed_lease_error + lease_body" where
  "verify_signed_lease_chain cx l trusted =
     (case lease_key trusted (se_signer_key_id l) of
        None \<Rightarrow> Inl (SL_UnknownSigner (se_signer_key_id l))
      | Some vk \<Rightarrow>
          (case cx_hex_decode cx (trim (se_signature l)) of
             Inl _ \<Rightarrow> Inl SL_MalformedSignature
           | Inr sig \<Rightarrow>
               if length sig \<noteq> 64 then Inl SL_MalformedSignature
               else
                 (case cx_std_decode cx (trim (se_lease_bytes l)) of
                    None \<Rightarrow> Inl SL_MalformedBody
                  | Some body_bytes \<Rightarrow>
                      if \<not> cx_ed_verify cx vk body_bytes sig then Inl SL_BadSignature
                      else parse_lease_body cx body_bytes)))"

text \<open>The encoder of a body.\<close>

datatype cbor_val = CUint int | CStr rstr

fun bytes_le :: "bytes \<Rightarrow> bytes \<Rightarrow> bool" where
  "bytes_le [] _ = True"
| "bytes_le (a # as) [] = False"
| "bytes_le (a # as) (b # bs) = (a < b \<or> (a = b \<and> bytes_le as bs))"

definition canonical_key_le :: "rstr \<Rightarrow> rstr \<Rightarrow> bool" where
  "canonical_key_le a b \<longleftrightarrow> length a < length b \<or> (length a = length b \<and> bytes_le a b)"

fun insert_pair :: "rstr \<times> cbor_val \<Rightarrow> (rstr \<times> cbor_val) list \<Rightarrow> (rstr \<times> cbor_val) list" where
  "insert_pair p [] = [p]"
| "insert_pair p (q # qs) = (if canonical_key_le (fst p) (fst q) then p # q # qs else q # insert_pair p qs)"

definition lease_body_cbor :: "lease_body \<Rightarrow> bytes" where
  "lease_body_cbor b =
     (let pairs =
        (case bo_gpu_limit b of None \<Rightarrow> [] | Some g \<Rightarrow> [(str ''gpu_limit'', CUint (int g))]) @
        (case bo_hardware_class b of None \<Rightarrow> [] | Some h \<Rightarrow> [(str ''hardware_class'', CStr h)]) @
        [(str ''instance_binding_id'', CStr (bo_instance_binding_id b)), (str ''licence_id'', CStr (bo_licence_id b)),
         (str ''not_after'', CUint (bo_not_after b)), (str ''serial'', CStr (bo_serial b))];
        sorted = foldr insert_pair pairs []
      in cbor_head 5 (len_u64 (length sorted)) @
         concat (map (\<lambda>(k, v). cbor_tstr k @ (case v of CUint n \<Rightarrow> cbor_uint n | CStr s \<Rightarrow> cbor_tstr s)) sorted))"

section \<open>What a signature can mean\<close>

text \<open>The three messages that are signed, each encoded by its function of the code.\<close>

datatype attestation =
    KeyAtt rstr rstr rstr bytes int int
  | RevAtt int rstr "rstr list"
  | PopAtt rstr rstr bytes rstr rstr int

fun att_bytes :: "'k crypto \<Rightarrow> attestation \<Rightarrow> bytes option" where
  "att_bytes cx (KeyAtt k t s p f u) = Some (canonical_key_preimage k t s p f u)"
| "att_bytes cx (RevAtt i s r) = Some (canonical_revocation_preimage i s r)"
| "att_bytes cx (PopAtt m u b i n t) = (case canonical_pop_preimage cx m u b i n t of Inl _ \<Rightarrow> None | Inr x \<Rightarrow> Some x)"

text \<open>Strings shorter than \<open>2\<^sup>6\<^sup>4\<close> bytes and times that are not negative; a digest of 32 bytes.\<close>

definition time_ok :: "int \<Rightarrow> bool" where
  "time_ok t \<longleftrightarrow> 0 \<le> t \<and> t < 2 ^ 64"

fun att_ok :: "'k crypto \<Rightarrow> attestation \<Rightarrow> bool" where
  "att_ok cx (KeyAtt k t s p f u) \<longleftrightarrow> short k \<and> short t \<and> short s \<and> short p \<and> time_ok f \<and> time_ok u"
| "att_ok cx (RevAtt i s r) \<longleftrightarrow> time_ok i \<and> short s \<and> short r \<and> (\<forall>x \<in> set r. short x)"
| "att_ok cx (PopAtt m u b i n t) \<longleftrightarrow> short m \<and> short u \<and> short i \<and> time_ok t \<and> length (cx_sha256 cx b) = 32"

text \<open>The facts a message states: a body is known by its digest, a nonce by its bytes.\<close>

fun att_facts :: "'k crypto \<Rightarrow> attestation \<Rightarrow> attestation" where
  "att_facts cx (PopAtt m u b i n t) =
     PopAtt m u (cx_sha256 cx b) i (case cx_hex_decode cx n of Inl e \<Rightarrow> [] | Inr x \<Rightarrow> x) t"
| "att_facts cx a = a"

lemma uint_cut: "time_ok x \<Longrightarrow> time_ok y \<Longrightarrow> cbor_uint x @ r = cbor_uint y @ s \<longleftrightarrow> x = y \<and> r = s"
  by (rule uint.cut_iff) (simp_all add: time_ok_def)

lemma uint_end: "time_ok x \<Longrightarrow> time_ok y \<Longrightarrow> cbor_uint x = cbor_uint y \<longleftrightarrow> x = y"
  using uint_cut [of x y "[]" "[]"] by simp

lemma tstrs_end:
  "short r \<Longrightarrow> short s \<Longrightarrow> \<forall>x \<in> set r. short x \<Longrightarrow> \<forall>x \<in> set s. short x \<Longrightarrow> cbor_tstrs r = cbor_tstrs s \<longleftrightarrow> r = s"
  using tstrs.cut_iff [of r s "[]" "[]"] by simp

lemma short_label [simp]: "length s < 2 ^ 64 \<Longrightarrow> short (str s)"
  by (simp add: short_def str_def)

lemma map_size_cut: "m < 24 \<Longrightarrow> n < 24 \<Longrightarrow> cbor_head 5 m @ r = cbor_head 5 n @ s \<longleftrightarrow> m = n \<and> r = s"
  using head_cut [of 5 m r 5 n s] by auto

lemmas cuts = map_size_cut tstr.cut_iff bstr.cut_iff uint_cut uint_end tstrs_end

lemma nonce_raw_ok: "nonce_hex_to_raw cx n = Inr x \<Longrightarrow> length x = 32 \<and> cx_hex_decode cx n = Inr x"
  by (auto simp: nonce_hex_to_raw_def split: if_splits sum.splits)

lemma short_32: "length x = 32 \<Longrightarrow> short x"
  by (simp add: short_def)

lemma key_bytes_inj:
  "att_ok cx (KeyAtt k t s p f u) \<Longrightarrow> att_ok cx (KeyAtt k' t' s' p' f' u') \<Longrightarrow>
     canonical_key_preimage k t s p f u = canonical_key_preimage k' t' s' p' f' u' \<Longrightarrow>
     k = k' \<and> t = t' \<and> s = s' \<and> p = p' \<and> f = f' \<and> u = u'"
  by (simp add: canonical_key_preimage_def cuts)

lemma revocation_bytes_inj:
  "att_ok cx (RevAtt i s r) \<Longrightarrow> att_ok cx (RevAtt i' s' r') \<Longrightarrow>
     canonical_revocation_preimage i s r = canonical_revocation_preimage i' s' r' \<Longrightarrow> i = i' \<and> s = s' \<and> r = r'"
  by (simp add: canonical_revocation_preimage_def cuts)

lemma pop_bytes_inj:
  "att_ok cx (PopAtt m u b i n t) \<Longrightarrow> att_ok cx (PopAtt m' u' b' i' n' t') \<Longrightarrow>
     canonical_pop_preimage cx m u b i n t = Inr x \<Longrightarrow> canonical_pop_preimage cx m' u' b' i' n' t' = Inr x \<Longrightarrow>
     att_facts cx (PopAtt m u b i n t) = att_facts cx (PopAtt m' u' b' i' n' t')"
  by (auto simp: canonical_pop_preimage_def cuts short_32 dest!: nonce_raw_ok split: sum.splits)

lemma key_not_revocation: "canonical_key_preimage k t s p f u \<noteq> canonical_revocation_preimage i s' r"
  by (simp add: canonical_key_preimage_def canonical_revocation_preimage_def map_size_cut)

lemma labels_differ: "str ''key_id'' \<noteq> str ''htm''" "str ''htm'' \<noteq> str ''key_id''"
  by (simp_all add: str_def)

lemma key_not_pop: "canonical_pop_preimage cx m u b i n iat \<noteq> Inr (canonical_key_preimage k t s p f v)"
  by (auto simp: canonical_key_preimage_def canonical_pop_preimage_def map_size_cut tstr.cut_iff labels_differ split: sum.splits)

lemma revocation_not_pop: "canonical_pop_preimage cx m u b i n iat \<noteq> Inr (canonical_revocation_preimage j s r)"
  by (auto simp: canonical_revocation_preimage_def canonical_pop_preimage_def map_size_cut split: sum.splits)

lemma same_bytes_same_facts:
  assumes "att_ok cx a" and "att_ok cx b" and "att_bytes cx a = Some x" and "att_bytes cx b = Some x"
  shows "att_facts cx a = att_facts cx b"
  using assms
  by (cases a; cases b)
    (auto dest: key_bytes_inj revocation_bytes_inj split: sum.splits
      simp del: att_facts.simps att_ok.simps simp: key_not_revocation key_not_revocation [symmetric] key_not_pop revocation_not_pop
      intro: pop_bytes_inj, simp_all?)

text \<open>One byte string, one meaning. Of the messages the root and the devices sign (a key attestation, a
  revocation list, a proof of possession), two with the same bytes state the same facts: they are of the
  same kind and agree in every field, a body being known by its digest and a nonce by its bytes. So a
  signature made for one purpose never passes for another, and no field can bleed into the next.\<close>

theorem preimages_injective:
  assumes "att_ok cx a" and "att_ok cx b" and "att_bytes cx a = Some x" and "att_bytes cx b = Some x"
  shows "att_facts cx a = att_facts cx b"
  using assms by (rule same_bytes_same_facts)

section \<open>The chain of trust\<close>

text \<open>A key of the document is a lease signer: right purpose, not revoked, inside its window.\<close>

definition lease_signer :: "'k crypto \<Rightarrow> rstr list \<Rightarrow> int \<Rightarrow> intermediate_key \<Rightarrow> bool" where
  "lease_signer cx revoked now ik \<longleftrightarrow>
     ik_key_type ik = str ''lease'' \<and> ik_kid ik \<notin> set revoked \<and> ik_valid_from ik \<le> now \<and> now \<le> ik_valid_until ik"

definition root_signed :: "'k crypto \<Rightarrow> pinned_root \<Rightarrow> bytes \<Rightarrow> bool" where
  "root_signed cx pinned m \<longleftrightarrow> (\<exists>s. pinned_verify cx pinned m s)"

definition attested :: "'k crypto \<Rightarrow> pinned_root \<Rightarrow> rstr \<Rightarrow> intermediate_key \<Rightarrow> bytes \<Rightarrow> bool" where
  "attested cx pinned stmt ik pub \<longleftrightarrow>
     b64url cx (ik_public_key ik) = Some pub \<and> 0 \<le> ik_valid_from ik \<and> 0 \<le> ik_valid_until ik \<and>
     root_signed cx pinned (canonical_key_preimage (ik_kid ik) (ik_key_type ik) stmt pub (ik_valid_from ik) (ik_valid_until ik))"

lemma attest_key_Inr:
  "attest_key cx pinned stmt revoked now ik = Inr r \<Longrightarrow>
     \<exists>pub. attested cx pinned stmt ik pub \<and>
       r = (if lease_signer cx revoked now ik then map_option (\<lambda>vk. (ik_kid ik, vk)) (cx_ed_key cx pub) else None) \<and>
       (lease_signer cx revoked now ik \<longrightarrow> r \<noteq> None)"
  by (auto simp: attest_key_def Let_def attested_def root_signed_def lease_signer_def split: option.splits if_splits)

definition signers :: "'k crypto \<Rightarrow> rstr list \<Rightarrow> int \<Rightarrow> intermediate_key list \<Rightarrow> 'k trusted_keys" where
  "signers cx revoked now iks =
     map (\<lambda>ik. (ik_kid ik, the (cx_ed_key cx (the (b64url cx (ik_public_key ik)))))) (filter (lease_signer cx revoked now) iks)"

lemma attest_keys_Inr:
  "attest_keys cx pinned stmt revoked now iks acc = Inr ks \<Longrightarrow>
     ks = acc @ signers cx revoked now iks \<and>
     (\<forall>ik \<in> set iks. \<exists>pub. attested cx pinned stmt ik pub \<and> (lease_signer cx revoked now ik \<longrightarrow> cx_ed_key cx pub \<noteq> None))"
proof (induction iks arbitrary: acc)
  case (Cons ik iks)
  then obtain r where r: "attest_key cx pinned stmt revoked now ik = Inr r"
    by (auto split: sum.splits)
  from attest_key_Inr [OF r] obtain pub where pub: "attested cx pinned stmt ik pub"
    and req: "r = (if lease_signer cx revoked now ik then map_option (\<lambda>vk. (ik_kid ik, vk)) (cx_ed_key cx pub) else None)"
    and some: "lease_signer cx revoked now ik \<longrightarrow> r \<noteq> None" by blast
  have b: "b64url cx (ik_public_key ik) = Some pub" using pub by (simp add: attested_def)
  show ?case
  proof (cases "lease_signer cx revoked now ik")
    case True
    with some req obtain vk where vk: "cx_ed_key cx pub = Some vk" by auto
    then have "attest_keys cx pinned stmt revoked now iks (acc @ [(ik_kid ik, vk)]) = Inr ks"
      using Cons.prems r req True by simp
    from Cons.IH [OF this] show ?thesis using pub vk True b by (auto simp: signers_def)
  next
    case False
    then have "attest_keys cx pinned stmt revoked now iks acc = Inr ks" using Cons.prems r req by simp
    from Cons.IH [OF this] show ?thesis using pub False by (auto simp: signers_def)
  qed
qed (simp add: signers_def)

lemma trusted_keys_Inr:
  assumes "trusted_keys_verify cx keys pinned now = Inr trusted"
  shows "trusted = signers cx (rv_revoked_key_ids (lk_revocation keys)) now (lk_lease_keys keys)"
    and "b64url cx (rd_public_key (lk_root keys)) = Some (pr_sec1 pinned)"
    and "root_signed cx pinned (canonical_revocation_preimage (rv_issued_at (lk_revocation keys))
           (ac_revocation_statement (lk_contract keys)) (rv_revoked_key_ids (lk_revocation keys)))"
    and "\<forall>ik \<in> set (lk_lease_keys keys). \<exists>pub. attested cx pinned (ac_key_statement (lk_contract keys)) ik pub \<and>
           (lease_signer cx (rv_revoked_key_ids (lk_revocation keys)) now ik \<longrightarrow> cx_ed_key cx pub \<noteq> None)"
proof -
  have a: "b64url cx (rd_public_key (lk_root keys)) = Some (pr_sec1 pinned) \<and>
      root_signed cx pinned (canonical_revocation_preimage (rv_issued_at (lk_revocation keys))
        (ac_revocation_statement (lk_contract keys)) (rv_revoked_key_ids (lk_revocation keys))) \<and>
      attest_keys cx pinned (ac_key_statement (lk_contract keys)) (rv_revoked_key_ids (lk_revocation keys)) now (lk_lease_keys keys) [] = Inr trusted"
    using assms by (auto simp: trusted_keys_verify_def pinned_from_sec1_def root_signed_def Let_def split: option.splits if_splits sum.splits)
  then show "b64url cx (rd_public_key (lk_root keys)) = Some (pr_sec1 pinned)"
    "root_signed cx pinned (canonical_revocation_preimage (rv_issued_at (lk_revocation keys))
       (ac_revocation_statement (lk_contract keys)) (rv_revoked_key_ids (lk_revocation keys)))" by simp_all
  from a attest_keys_Inr
  show "trusted = signers cx (rv_revoked_key_ids (lk_revocation keys)) now (lk_lease_keys keys)"
    "\<forall>ik \<in> set (lk_lease_keys keys). \<exists>pub. attested cx pinned (ac_key_statement (lk_contract keys)) ik pub \<and>
       (lease_signer cx (rv_revoked_key_ids (lk_revocation keys)) now ik \<longrightarrow> cx_ed_key cx pub \<noteq> None)"
    by fastforce+
qed

lemma lease_key_mem: "lease_key ks kid = Some vk \<Longrightarrow> (kid, vk) \<in> set ks"
  by (induction ks) (auto simp: lease_key_def split: if_splits)

lemma lease_key_signers:
  "lease_key (signers cx revoked now iks) kid = Some vk \<Longrightarrow>
     \<exists>ik \<in> set iks. lease_signer cx revoked now ik \<and> ik_kid ik = kid \<and>
       vk = the (cx_ed_key cx (the (b64url cx (ik_public_key ik))))"
  by (drule lease_key_mem) (auto simp: signers_def)

lemma chain_Inr:
  "verify_signed_lease_chain cx l trusted = Inr body \<longleftrightarrow>
     (\<exists>vk sig bs. lease_key trusted (se_signer_key_id l) = Some vk \<and> cx_hex_decode cx (trim (se_signature l)) = Inr sig \<and>
        length sig = 64 \<and> cx_std_decode cx (trim (se_lease_bytes l)) = Some bs \<and> cx_ed_verify cx vk bs sig \<and>
        parse_lease_body cx bs = Inr body)"
  by (auto simp: verify_signed_lease_chain_def split: option.splits sum.splits if_splits)

text \<open>The document's strings are shorter than \<open>2\<^sup>6\<^sup>4\<close> bytes and its times are \<open>i64\<close>.\<close>

definition document_ok :: "'k crypto \<Rightarrow> licensing_keys \<Rightarrow> bool" where
  "document_ok cx keys \<longleftrightarrow>
     att_ok cx (RevAtt (rv_issued_at (lk_revocation keys)) (ac_revocation_statement (lk_contract keys)) (rv_revoked_key_ids (lk_revocation keys))) \<and>
     (\<forall>ik \<in> set (lk_lease_keys keys). \<forall>pub. b64url cx (ik_public_key ik) = Some pub \<and> 0 \<le> ik_valid_from ik \<and> 0 \<le> ik_valid_until ik \<longrightarrow>
        att_ok cx (KeyAtt (ik_kid ik) (ik_key_type ik) (ac_key_statement (lk_contract keys)) pub (ik_valid_from ik) (ik_valid_until ik)))"

lemma issued_exactly:
  assumes "\<forall>m s. pinned_verify cx pinned m s \<longrightarrow> (\<exists>a \<in> issued. att_bytes cx a = Some m)"
    and "\<forall>a \<in> issued. att_ok cx a \<and> (\<forall>m u b i n t. a \<noteq> PopAtt m u b i n t)"
    and "root_signed cx pinned m" and "att_bytes cx a = Some m" and "att_ok cx a" and "\<forall>m u b i n t. a \<noteq> PopAtt m u b i n t"
  shows "a \<in> issued"
proof -
  obtain a' where a': "a' \<in> issued" "att_bytes cx a' = Some m" using assms(1,3) unfolding root_signed_def by blast
  have "att_facts cx a = att_facts cx a'"
    by (rule same_bytes_same_facts [OF assms(5) _ assms(4) a'(2)]) (use assms(2) a'(1) in blast)
  moreover have "\<forall>m u b i n t. a' \<noteq> PopAtt m u b i n t" using assms(2) a'(1) by blast
  ultimately have "a = a'" using assms(6) by (cases a; cases a') auto
  then show ?thesis using a' by simp
qed

text \<open>C34: A lease is believed only along the whole chain. If the pinned root verifies only the key
  attestations and revocation lists it issued, then a lease body that verification returns was signed,
  byte for byte, under a key the root attested for leases under the very id the lease names; the clock
  given is inside the window the root signed, and a revocation list the root issued does not name it.\<close>

theorem lease_chain_of_trust:
  assumes root: "\<forall>m s. pinned_verify cx pinned m s \<longrightarrow> (\<exists>a \<in> issued. att_bytes cx a = Some m)"
    and issued: "\<forall>a \<in> issued. att_ok cx a \<and> (\<forall>m u b i n t. a \<noteq> PopAtt m u b i n t)"
    and doc: "document_ok cx keys"
    and trust: "trusted_keys_verify cx keys pinned now = Inr trusted"
    and lease: "verify_signed_lease_chain cx l trusted = Inr body"
  shows "\<exists>stmt pub from until vk bs sig issued_at stmt' revoked.
     KeyAtt (se_signer_key_id l) (str ''lease'') stmt pub from until \<in> issued \<and> from \<le> now \<and> now \<le> until \<and>
     RevAtt issued_at stmt' revoked \<in> issued \<and> se_signer_key_id l \<notin> set revoked \<and>
     cx_ed_key cx pub = Some vk \<and> cx_ed_verify cx vk bs sig \<and> parse_lease_body cx bs = Inr body"
proof -
  let ?rev = "rv_revoked_key_ids (lk_revocation keys)" and ?stmt = "ac_key_statement (lk_contract keys)"
  obtain vk sig bs where v: "lease_key trusted (se_signer_key_id l) = Some vk" "cx_ed_verify cx vk bs sig"
    "parse_lease_body cx bs = Inr body" using lease unfolding chain_Inr by blast
  note t = trusted_keys_Inr [OF trust]
  from v(1) obtain ik where ik: "ik \<in> set (lk_lease_keys keys)" "lease_signer cx ?rev now ik" "ik_kid ik = se_signer_key_id l"
    and vk: "vk = the (cx_ed_key cx (the (b64url cx (ik_public_key ik))))" unfolding t(1) by (auto dest: lease_key_signers)
  from t(4) ik obtain pub where pub: "attested cx pinned ?stmt ik pub" "cx_ed_key cx pub \<noteq> None" by blast
  let ?k = "KeyAtt (ik_kid ik) (ik_key_type ik) ?stmt pub (ik_valid_from ik) (ik_valid_until ik)"
  let ?r = "RevAtt (rv_issued_at (lk_revocation keys)) (ac_revocation_statement (lk_contract keys)) ?rev"
  have "?k \<in> issued"
    by (rule issued_exactly [OF root issued]) (use pub doc ik in \<open>auto simp: attested_def document_ok_def\<close>)
  moreover have "?r \<in> issued"
    by (rule issued_exactly [OF root issued]) (use t(3) doc in \<open>auto simp: document_ok_def\<close>)
  moreover have "cx_ed_key cx pub = Some vk" using pub vk by (auto simp: attested_def)
  ultimately show ?thesis using ik v unfolding lease_signer_def by metis
qed

text \<open>A document and a lease that pass.\<close>

definition demo_crypto :: "bytes crypto" where
  "demo_crypto = \<lparr>cx_url_decode = Some, cx_url_encode = id, cx_std_decode = Some, cx_std_encode = id, cx_hex_decode = (\<lambda>s. Inr (replicate (if length s = 64 then 32 else 64) 0)),
     cx_sha256 = (\<lambda>_. replicate 32 0), cx_p256_point = (\<lambda>_. True),
     cx_p256_verify = (\<lambda>_ m s. m = canonical_key_preimage (str ''k'') (str ''lease'') (str ''s'') (replicate 32 1) 0 10 \<or>
        m = canonical_revocation_preimage 5 (str ''s'') [str ''j'']),
     cx_ed_key = Some, cx_ed_verify = (\<lambda>_ _ _. True), cx_cose_sign1 = (\<lambda>sign m. Inr (sign m)),
     cx_cbor = (\<lambda>_. Some (CMap [(CText (str ''licence_id''), CText [76]), (CText (str ''instance_binding_id''), CText [66]),
        (CText (str ''serial''), CText [83]), (CText (str ''not_after''), CInteger 9)]))\<rparr>"

definition demo_keys :: licensing_keys where
  "demo_keys = \<lparr>lk_root = \<lparr>rd_kid = [], rd_public_key = [4]\<rparr>,
     lk_contract = \<lparr>ac_key_statement = str ''s'', ac_revocation_statement = str ''s''\<rparr>,
     lk_lease_keys = [\<lparr>ik_kid = str ''k'', ik_key_type = str ''lease'', ik_public_key = replicate 32 1, ik_valid_from = 0,
       ik_valid_until = 10, ik_status = [], ik_root_sig = []\<rparr>],
     lk_revocation = \<lparr>rv_statement = [], rv_issued_at = 5, rv_revoked_key_ids = [str ''j''], rv_root_revocation_sig = []\<rparr>\<rparr>"

definition demo_lease :: server_lease where
  "demo_lease = \<lparr>se_serial = [], se_licence_id = None, se_instance_binding_id = None, se_not_after = 9,
     se_signature = [65], se_signer_key_id = str ''k'', se_lease_bytes = [1]\<rparr>"

definition demo_body :: lease_body where
  "demo_body = \<lparr>bo_licence_id = [76], bo_instance_binding_id = [66], bo_serial = [83], bo_not_after = 9, bo_gpu_limit = None,
     bo_hardware_class = None\<rparr>"

definition demo_issued :: "attestation set" where
  "demo_issued = {KeyAtt (str ''k'') (str ''lease'') (str ''s'') (replicate 32 1) 0 10, RevAtt 5 (str ''s'') [str ''j'']}"

lemma demo_trust: "trusted_keys_verify demo_crypto demo_keys \<lparr>pr_sec1 = [4]\<rparr> 7 = Inr [(str ''k'', replicate 32 1)]"
  by (simp add: trusted_keys_verify_def demo_crypto_def demo_keys_def b64url_def trim_end_matches_def pinned_from_sec1_def
      pinned_verify_def attest_key_def Let_def str_def)

lemma trim_letters: "trim [65] = [65]" "trim [1] = [1]"
  by (simp_all add: trim_def white_space_def strip_prefixes.simps)

lemma demo_chain: "verify_signed_lease_chain demo_crypto demo_lease [(str ''k'', replicate 32 1)] = Inr demo_body"
  by (simp add: verify_signed_lease_chain_def lease_key_def demo_lease_def trim_letters demo_crypto_def parse_lease_body_def
      required_text_def body_integer_def body_get_def gpu_field_def try_i_def in_i_def i_simps str_def demo_body_def)

lemma demo_issued_ok: "\<forall>a \<in> demo_issued. att_ok demo_crypto a \<and> (\<forall>m u b i n t. a \<noteq> PopAtt m u b i n t)"
  by (simp add: demo_issued_def short_def time_ok_def str_def)

lemma demo_document_ok: "document_ok demo_crypto demo_keys"
  by (simp add: document_ok_def demo_keys_def demo_crypto_def b64url_def trim_end_matches_def short_def time_ok_def str_def)

lemma lease_chain_of_trust_witness:
  "\<exists>stmt pub from until. KeyAtt (str ''k'') (str ''lease'') stmt pub from until \<in> demo_issued \<and> from \<le> 7 \<and> 7 \<le> until"
proof -
  have root: "\<forall>m s. pinned_verify demo_crypto \<lparr>pr_sec1 = [4]\<rparr> m s \<longrightarrow> (\<exists>a \<in> demo_issued. att_bytes demo_crypto a = Some m)"
    by (simp add: pinned_verify_def demo_crypto_def demo_issued_def)
  from lease_chain_of_trust [OF root demo_issued_ok demo_document_ok demo_trust demo_chain] show ?thesis
    by (fastforce simp: demo_lease_def)
qed

lemma preimages_injective_witness:
  "att_facts demo_crypto (PopAtt [1] [2] [3] [4] (replicate 64 48) 5) = att_facts demo_crypto (PopAtt [1] [2] [9] [4] (replicate 64 48) 5)"
proof -
  let ?a = "\<lambda>b. PopAtt [1] [2] b [4] (replicate 64 48) 5"
  have sha: "cx_sha256 demo_crypto b = replicate 32 0" for b by (simp add: demo_crypto_def)
  have "nonce_hex_to_raw demo_crypto (replicate 64 48) = Inr (replicate 32 0)"
    by (simp add: nonce_hex_to_raw_def is_hex_digit_def demo_crypto_def)
  then obtain x where x: "att_bytes demo_crypto (?a b) = Some x" for b
    by (simp add: canonical_pop_preimage_def sha)
  have ok: "att_ok demo_crypto (?a b)" for b by (simp add: short_def time_ok_def sha)
  show ?thesis by (rule preimages_injective [OF ok ok x x])
qed

section \<open>What the documents and comments leave open\<close>

text \<open>Neither the unsigned status of a key nor the statement of the revocation block, which the document
  type says must match the contract, is ever read.\<close>

lemma unread_fields:
  "trusted_keys_verify cx (keys\<lparr>lk_revocation := (lk_revocation keys)\<lparr>rv_statement := s\<rparr>\<rparr>) pinned now =
     trusted_keys_verify cx keys pinned now"
  by (simp add: trusted_keys_verify_def Let_def split: option.split sum.split)

lemma attest_key_status: "attest_key cx pinned stmt revoked now (ik\<lparr>ik_status := s\<rparr>) = attest_key cx pinned stmt revoked now ik"
  by (simp add: attest_key_def Let_def split: option.split)

text \<open>The encoder emits the keys of a body in canonical order, shortest first, not in the alphabetical
  order its comment lists.\<close>

lemma lease_body_order:
  "lease_body_cbor \<lparr>bo_licence_id = l, bo_instance_binding_id = i, bo_serial = s, bo_not_after = t, bo_gpu_limit = Some g,
     bo_hardware_class = Some h\<rparr> =
   cbor_head 5 6 @ cbor_tstr (str ''serial'') @ cbor_tstr s @ cbor_tstr (str ''gpu_limit'') @ cbor_uint (int g) @
     cbor_tstr (str ''not_after'') @ cbor_uint t @ cbor_tstr (str ''licence_id'') @ cbor_tstr l @
     cbor_tstr (str ''hardware_class'') @ cbor_tstr h @ cbor_tstr (str ''instance_binding_id'') @ cbor_tstr i"
proof -
  have six: "Suc (Suc (Suc (Suc (Suc (Suc 0))))) = 6" by simp
  show ?thesis by (simp add: lease_body_cbor_def Let_def canonical_key_le_def str_def len_u64_def, simp only: six)
qed

lemma gpu_limit_fails_closed:
  "parse_lease_body cx bs = Inr b \<Longrightarrow> cx_cbor cx bs = Some (CMap m) \<Longrightarrow>
     (bo_gpu_limit b = None \<longleftrightarrow> body_get m ''gpu_limit'' = None) \<and> (\<forall>g \<in> set_option (bo_gpu_limit b). g < 2 ^ 32)"
  by (auto simp: parse_lease_body_def gpu_field_def try_u32_def bind_eq_Some_conv split: option.splits sum.splits if_splits)

end
