(* ===== verification/Heartbeat_Wire.thy ===== *)
theory Heartbeat_Wire
  imports Lease_Store Key_Trust
begin

text \<open>
  The messages of the licence client, its configuration and errors, and the functions that build a
  request and its proof of possession (\<open>multiview-licence/src/heartbeat.rs\<close>). The JSON serialiser, the
  timestamp conversion of chrono and the key pair that seals an install envelope are the fields of
  \<open>packages\<close>, beside the cryptographic ones.
\<close>

section \<open>Requests and responses\<close>

datatype enforcement_state =
    ES_Compliant | ES_Grace | ES_LapsedSoft | ES_LapsedHard | ES_Evaluation | ES_OnHold | ES_ClassMismatch
  | ES_OverGpu | ES_Revoked

datatype transport = Direct | Relay | FileDrop

record heartbeat_request =
  hr_binding_id :: rstr
  hr_lease_serial :: "rstr option"
  hr_fingerprint_digest :: rstr
  hr_app_version :: rstr
  hr_transport :: transport
  hr_nonce :: rstr

record device_challenge =
  dc_nonce :: rstr
  dc_expires_at_ms :: int
  dc_instance_id :: rstr

record heartbeat_response =
  hp_lease :: "server_lease option"
  hp_enforcement_state :: enforcement_state
  hp_next_due :: int
  hp_next_nonce :: rstr

record activate_request =
  ar_machine_id :: rstr
  ar_fingerprint_digest :: rstr
  ar_fingerprint_score :: nat
  ar_hardware_digest :: rstr
  ar_instance_id :: rstr
  ar_instance_discriminator_hash :: rstr
  ar_instance_discriminator_digest :: rstr
  ar_device_public_key :: rstr
  ar_nonce :: rstr
  ar_claim_code :: "rstr option"

record activate_response =
  ap_lease :: "server_lease option"
  ap_enforcement_state :: enforcement_state
  ap_next_nonce :: rstr

record rebind_request =
  rr_licence_id :: rstr
  rr_binding_id :: rstr
  rr_instance_id :: rstr
  rr_instance_discriminator_hash :: rstr
  rr_fingerprint_digest :: rstr
  rr_fp_score :: nat
  rr_nonce :: rstr

record rebind_response =
  rp_rebound :: bool
  rp_lease_serial :: "rstr option"
  rp_not_after :: "int option"
  rp_enforcement_state :: enforcement_state
  rp_rebinds_this_year :: int
  rp_seat_consumed :: bool
  rp_fp_score :: nat
  rp_next_nonce :: rstr

record deactivate_request =
  dr_binding_id :: rstr
  dr_nonce :: rstr

record deactivate_response =
  dp_id :: rstr
  dp_lifecycle_state :: rstr
  dp_enforcement_state :: enforcement_state

section \<open>Identity, configuration, outcomes\<close>

record device_identity =
  di_machine_id :: rstr
  di_fingerprint_digest :: rstr
  di_fingerprint_score :: nat
  di_binding_id :: "rstr option"
  di_app_version :: rstr
  di_instance_id :: rstr
  di_hardware_digest :: rstr
  di_instance_discriminator_hash :: rstr
  di_instance_discriminator_digest :: rstr
  di_device_public_key_b64url :: rstr

text \<open>Durations are nanoseconds.\<close>

record client_config =
  cc_org_id :: rstr
  cc_api_base :: rstr
  cc_min_interval :: nat
  cc_max_backoff :: nat
  cc_enable_activate :: bool
  cc_claim_code :: "rstr option"

definition client_config_default :: client_config where
  "client_config_default = \<lparr>cc_org_id = str ''org-unset'', cc_api_base = [], cc_min_interval = 60 * 10 ^ 9,
     cc_max_backoff = 3600 * 10 ^ 9, cc_enable_activate = False, cc_claim_code = None\<rparr>"

datatype heartbeat_error =
    HE_Transport rstr | HE_ServerRejected rstr | HE_Malformed rstr | HE_KeyTrust key_trust_error
  | HE_SignedLease signed_lease_error | HE_LeaseExpired | HE_BindingMismatch | HE_FingerprintMismatch
  | HE_NonceStore rstr | HE_Pop pop_error

datatype heartbeat_outcome =
    HO_Installed rstr int
  | HO_Activated rstr int
  | HO_Rebound bool "rstr option" int bool
  | HO_Deactivated rstr rstr
  | HO_LeaseWithheld enforcement_state int
  | HO_NoBinding int

record 'k packages =
  pk_crypto :: "'k crypto"
  pk_heartbeat_json :: "heartbeat_request \<Rightarrow> rstr + bytes"
  pk_activate_json :: "activate_request \<Rightarrow> rstr + bytes"
  pk_rebind_json :: "rebind_request \<Rightarrow> rstr + bytes"
  pk_deactivate_json :: "deactivate_request \<Rightarrow> rstr + bytes"
  pk_from_ms :: "int \<Rightarrow> instant option"
  pk_seal_key :: 'k
  pk_seal_sign :: "bytes \<Rightarrow> bytes"

text \<open>The fields of the client that never change.\<close>

record 'k client_setup =
  su_packages :: "'k packages"
  su_pinned :: pinned_root
  su_config :: client_config
  su_identity :: device_identity
  su_signer :: "device_signer option"

section \<open>Building requests\<close>

definition build_heartbeat_request_for ::
  "device_identity \<Rightarrow> rstr option \<Rightarrow> rstr option \<Rightarrow> rstr \<Rightarrow> heartbeat_request" where
  "build_heartbeat_request_for i held_serial binding_id nonce =
     \<lparr>hr_binding_id = (case binding_id of None \<Rightarrow> [] | Some b \<Rightarrow> b), hr_lease_serial = held_serial,
      hr_fingerprint_digest = di_fingerprint_digest i, hr_app_version = di_app_version i, hr_transport = Direct,
      hr_nonce = nonce\<rparr>"

definition build_heartbeat_request :: "device_identity \<Rightarrow> rstr option \<Rightarrow> rstr \<Rightarrow> heartbeat_request" where
  "build_heartbeat_request i lease_serial nonce =
     \<lparr>hr_binding_id = (case di_binding_id i of None \<Rightarrow> [] | Some b \<Rightarrow> b), hr_lease_serial = lease_serial,
      hr_fingerprint_digest = di_fingerprint_digest i, hr_app_version = di_app_version i, hr_transport = Direct,
      hr_nonce = nonce\<rparr>"

definition build_activate_request ::
  "'k crypto \<Rightarrow> device_identity \<Rightarrow> bytes \<Rightarrow> device_challenge \<Rightarrow> rstr option \<Rightarrow> activate_request" where
  "build_activate_request cx i public_key_raw ch claim_code =
     \<lparr>ar_machine_id = di_machine_id i, ar_fingerprint_digest = di_fingerprint_digest i,
      ar_fingerprint_score = di_fingerprint_score i, ar_hardware_digest = di_hardware_digest i,
      ar_instance_id = dc_instance_id ch, ar_instance_discriminator_hash = di_instance_discriminator_hash i,
      ar_instance_discriminator_digest = di_instance_discriminator_digest i,
      ar_device_public_key = cx_url_encode cx public_key_raw, ar_nonce = dc_nonce ch, ar_claim_code = claim_code\<rparr>"

definition build_rebind_request_for :: "device_identity \<Rightarrow> rstr \<Rightarrow> rstr \<Rightarrow> device_challenge \<Rightarrow> rebind_request" where
  "build_rebind_request_for i licence_id binding_id ch =
     \<lparr>rr_licence_id = licence_id, rr_binding_id = binding_id, rr_instance_id = di_instance_id i,
      rr_instance_discriminator_hash = di_instance_discriminator_hash i, rr_fingerprint_digest = di_fingerprint_digest i,
      rr_fp_score = di_fingerprint_score i, rr_nonce = dc_nonce ch\<rparr>"

definition build_rebind_request :: "device_identity \<Rightarrow> rstr \<Rightarrow> device_challenge \<Rightarrow> rebind_request" where
  "build_rebind_request i licence_id ch =
     build_rebind_request_for i licence_id (case di_binding_id i of None \<Rightarrow> di_instance_id i | Some b \<Rightarrow> b) ch"

definition build_deactivate_request :: "rstr \<Rightarrow> rstr \<Rightarrow> deactivate_request" where
  "build_deactivate_request binding_id nonce = \<lparr>dr_binding_id = binding_id, dr_nonce = nonce\<rparr>"

text \<open>The proof of possession for an endpoint; the clock reading \<open>now_ms\<close> is divided as Rust divides.\<close>

definition pop_header_for ::
  "'k client_setup \<Rightarrow> rstr \<Rightarrow> rstr \<Rightarrow> int \<Rightarrow> bytes \<Rightarrow> rstr \<Rightarrow> pop_error + rstr" where
  "pop_header_for s verb instance_id now_ms body nonce_hex =
     (case su_signer s of
        None \<Rightarrow> Inl (PopCose (str ''no device signer configured''))
      | Some signer \<Rightarrow>
          let htu = cc_api_base (su_config s) @ str ''/organisations/'' @ cc_org_id (su_config s) @ str ''/'' @ verb;
              iat = now_ms sdiv 1000
          in pop_header_value (pk_crypto (su_packages s)) signer (str ''POST'') htu body instance_id nonce_hex iat)"

definition build_pop_header :: "'k client_setup \<Rightarrow> int \<Rightarrow> bytes \<Rightarrow> rstr \<Rightarrow> pop_error + rstr" where
  "build_pop_header s now_ms body nonce_hex =
     pop_header_for s (str ''heartbeat'') (di_instance_id (su_identity s)) now_ms body nonce_hex"

definition build_activate_pop_header :: "'k client_setup \<Rightarrow> int \<Rightarrow> bytes \<Rightarrow> rstr \<Rightarrow> rstr \<Rightarrow> pop_error + rstr" where
  "build_activate_pop_header s now_ms body server_instance_id nonce_hex =
     pop_header_for s (str ''activate'') server_instance_id now_ms body nonce_hex"

definition build_lifecycle_pop_header :: "'k client_setup \<Rightarrow> rstr \<Rightarrow> int \<Rightarrow> bytes \<Rightarrow> rstr \<Rightarrow> pop_error + rstr" where
  "build_lifecycle_pop_header s verb now_ms body nonce_hex =
     pop_header_for s verb (di_instance_id (su_identity s)) now_ms body nonce_hex"

section \<open>Times and hardware classes\<close>

definition parse_hardware_class :: "rstr option \<Rightarrow> hardware_class" where
  "parse_hardware_class h =
     (if h = Some (str ''datacenter'') then Datacenter else if h = Some (str ''edge'') then Edge else Standard)"

definition next_due_default :: "int \<Rightarrow> int" where
  "next_due_default now_ms = sat_add 64 now_ms (30 * 86400000)"

definition sleep_until_due :: "int \<Rightarrow> int \<Rightarrow> nat \<Rightarrow> nat" where
  "sleep_until_due next_due now min_interval =
     (let delta_ms = sat_sub 64 next_due now
      in if delta_ms \<le> 0 then min_interval
         else max (nat (delta_ms sdiv 1000) * 10 ^ 9) min_interval)"

section \<open>The install envelope\<close>

definition seal_for_install :: "'k packages \<Rightarrow> entitlement \<Rightarrow> nat \<Rightarrow> rstr \<Rightarrow> lease_binding \<times> 'k" where
  "seal_for_install p e score instance_binding_id =
     (\<lparr>lb_signed = \<lparr>sl_lease = en_lease e, sl_signature = pk_seal_sign p (signing_bytes (en_lease e) (Some instance_binding_id))\<rparr>,
       lb_entitlement = e, lb_score = score, lb_binding_id = Some instance_binding_id\<rparr>, pk_seal_key p)"

definition body_entitlement :: "lease_body \<Rightarrow> lease \<Rightarrow> entitlement" where
  "body_entitlement b l =
     (let hardware = parse_hardware_class (bo_hardware_class b)
      in \<lparr>en_tier = bo_licence_id b, en_licensed = hardware, en_detected = hardware,
          en_gpu_limit = (case bo_gpu_limit b of None \<Rightarrow> Unlimited | Some n \<Rightarrow> Limited n), en_lease = l,
          en_flags = flags_default\<rparr>)"

datatype install_outcome = IO_Installed rstr | IO_StaleNoop rstr

text \<open>\<open>HeartbeatClient::install\<close>: \<open>granted_at\<close> is the system clock, \<open>now_ms\<close> the client's.\<close>

definition client_install ::
  "'k client_setup \<Rightarrow> lease_body \<Rightarrow> rstr option \<Rightarrow> instant \<Rightarrow> int \<Rightarrow> lease_store \<Rightarrow>
     (heartbeat_error + install_outcome) \<times> lease_store" where
  "client_install s body established granted_at now_ms st =
     (if established \<noteq> None \<and> established \<noteq> Some (bo_instance_binding_id body) then (Inl HE_BindingMismatch, st)
      else
        (case new_online_expiring_at (pk_from_ms (su_packages s)) (bo_serial body) (bo_not_after body) now_ms
                ACTIVATION_WINDOW_DAYS of
           None \<Rightarrow> (Inl HE_LeaseExpired, st)
         | Some l \<Rightarrow>
             (case seal_for_install (su_packages s) (body_entitlement body l) (di_fingerprint_score (su_identity s))
                     (bo_instance_binding_id body) of
                (binding, install_pinned) \<Rightarrow>
                  (case install_binding (cx_ed_verify (pk_crypto (su_packages s))) binding install_pinned granted_at st of
                     (Inr installed, st') \<Rightarrow> (Inr (IO_Installed (ls_serial installed)), st')
                   | (Inl (Stale _ _), st') \<Rightarrow> (Inr (IO_StaleNoop (bo_serial body)), st')
                   | (Inl (FingerprintMismatch _ _), st') \<Rightarrow> (Inl HE_FingerprintMismatch, st')
                   | (Inl SignatureInvalid, st') \<Rightarrow> (Inl (HE_SignedLease SL_BadSignature), st')))))"

text \<open>What the install writes, and only when.\<close>

lemma client_install_store:
  "client_install s body established granted_at now_ms st = (r, st') \<Longrightarrow>
     (case r of
        Inr (IO_Installed serial) \<Rightarrow>
          (\<exists>l. new_online_expiring_at (pk_from_ms (su_packages s)) (bo_serial body) (bo_not_after body) now_ms ACTIVATION_WINDOW_DAYS = Some l \<and>
             (established = None \<or> established = Some (bo_instance_binding_id body)) \<and>
             FINGERPRINT_MATCH_THRESHOLD \<le> di_fingerprint_score (su_identity s) \<and>
             (\<forall>g \<in> set_option (active_grant st). g \<le> ls_granted_at l) \<and>
             st' = st\<lparr>sto_installed := Some \<lparr>in_entitlement = body_entitlement body l, in_at = granted_at,
               in_score = di_fingerprint_score (su_identity s), in_binding_id = Some (bo_instance_binding_id body)\<rparr>\<rparr>)
      | _ \<Rightarrow> st' = st)"
  by (auto simp: client_install_def seal_for_install_def install_binding_def verify_signed_lease_def snapshot_of_def
      active_grant_def sto_current_def body_entitlement_def Let_def split: if_splits option.splits)

end
