(* ===== verification/Heartbeat_Client.thy ===== *)
theory Heartbeat_Client
  imports Heartbeat_Wire
begin

text \<open>
  The licence client's cycles (\<open>multiview-licence/src/heartbeat.rs\<close>): renew, activate, rebind and
  deactivate, with the retry units that keep an idempotency key, a body and a proof together. A cycle
  is two steps, one up to the POST and one from its reply, because the cycles of different verbs
  interleave at the network call. What the clock, the server and the durable nonce store answer is an
  argument of each step. The mutexes around single fields make each access atomic.
\<close>

section \<open>State\<close>

datatype attempt_verb = Renew | Activate | Rebind | Deactivate

record pending_attempt =
  pa_verb :: attempt_verb
  pa_idempotency_key :: rstr
  pa_body :: bytes
  pa_pop_header :: rstr

record pending_slots =
  ps_renew :: "pending_attempt option"
  ps_activate :: "pending_attempt option"
  ps_rebind :: "pending_attempt option"
  ps_deactivate :: "pending_attempt option"

fun ps_slot :: "attempt_verb \<Rightarrow> pending_slots \<Rightarrow> pending_attempt option" where
  "ps_slot Renew s = ps_renew s"
| "ps_slot Activate s = ps_activate s"
| "ps_slot Rebind s = ps_rebind s"
| "ps_slot Deactivate s = ps_deactivate s"

fun ps_put :: "attempt_verb \<Rightarrow> pending_attempt option \<Rightarrow> pending_slots \<Rightarrow> pending_slots" where
  "ps_put Renew x s = s\<lparr>ps_renew := x\<rparr>"
| "ps_put Activate x s = s\<lparr>ps_activate := x\<rparr>"
| "ps_put Rebind x s = s\<lparr>ps_rebind := x\<rparr>"
| "ps_put Deactivate x s = s\<lparr>ps_deactivate := x\<rparr>"

record idempotency_state =
  is_counter :: nat
  is_current_renew :: "rstr option"
  is_current_activate :: "rstr option"
  is_current_rebind :: "rstr option"
  is_current_deactivate :: "rstr option"

fun is_current :: "attempt_verb \<Rightarrow> idempotency_state \<Rightarrow> rstr option" where
  "is_current Renew s = is_current_renew s"
| "is_current Activate s = is_current_activate s"
| "is_current Rebind s = is_current_rebind s"
| "is_current Deactivate s = is_current_deactivate s"

fun is_put :: "attempt_verb \<Rightarrow> rstr option \<Rightarrow> idempotency_state \<Rightarrow> idempotency_state" where
  "is_put Renew x s = s\<lparr>is_current_renew := x\<rparr>"
| "is_put Activate x s = s\<lparr>is_current_activate := x\<rparr>"
| "is_put Rebind x s = s\<lparr>is_current_rebind := x\<rparr>"
| "is_put Deactivate x s = s\<lparr>is_current_deactivate := x\<rparr>"

record pop_nonce =
  pn_nonce :: rstr
  pn_expires_at_ms :: int

text \<open>\<open>cl_durable\<close> is the value the durable nonce store holds; it alone outlives the process.\<close>

record client =
  cl_store :: lease_store
  cl_learned_binding_id :: "rstr option"
  cl_idempotency :: idempotency_state
  cl_durable :: nat
  cl_pop_nonce :: "pop_nonce option"
  cl_pending :: pending_slots

definition client_assemble :: "lease_store \<Rightarrow> nat \<Rightarrow> client" where
  "client_assemble st durable =
     \<lparr>cl_store = st, cl_learned_binding_id = None,
      cl_idempotency = \<lparr>is_counter = 0, is_current_renew = None, is_current_activate = None, is_current_rebind = None,
        is_current_deactivate = None\<rparr>,
      cl_durable = durable, cl_pop_nonce = None,
      cl_pending = \<lparr>ps_renew = None, ps_activate = None, ps_rebind = None, ps_deactivate = None\<rparr>\<rparr>"

subsection \<open>One slot per verb\<close>

locale verb_slots =
  fixes get :: "attempt_verb \<Rightarrow> 's \<Rightarrow> 'x option" and put :: "attempt_verb \<Rightarrow> 'x option \<Rightarrow> 's \<Rightarrow> 's"
  assumes get_put: "get v (put w x s) = (if v = w then x else get v s)"
begin

lemma own: "get v (put v x s) = x"
  by (simp add: get_put)

lemma other: "v \<noteq> w \<Longrightarrow> get v (put w x s) = get v s"
  by (simp add: get_put)

lemma upd: "(\<lambda>v. get v (put w x s)) = (\<lambda>v. get v s)(w := x)"
  by (rule ext) (simp add: get_put)

end

interpretation pin: verb_slots ps_slot ps_put
proof
  fix v w x s show "ps_slot v (ps_put w x s) = (if v = w then x else ps_slot v s)" by (cases v; cases w) simp_all
qed

interpretation cur: verb_slots is_current is_put
proof
  fix v w x s show "is_current v (is_put w x s) = (if v = w then x else is_current v s)" by (cases v; cases w) simp_all
qed

lemma counter_put [simp]: "is_counter (is_put v x s) = is_counter s"
  by (cases v) simp_all

lemma current_counter [simp]: "is_current v (s\<lparr>is_counter := n\<rparr>) = is_current v s"
  by (cases v) simp_all

section \<open>Retry units\<close>

text \<open>What one cycle observes up to its POST. A failing commit may or may not have written its value.\<close>

record prepare_env =
  pe_keys :: "heartbeat_error + licensing_keys"
  pe_now_trust :: int
  pe_now_nonce :: int
  pe_challenge :: "heartbeat_error + device_challenge"
  pe_now_challenge :: int
  pe_now_iat :: int
  pe_load_error :: "rstr option"
  pe_commit_error :: "(rstr \<times> bool) option"

definition mint_key :: "rstr \<Rightarrow> nat \<Rightarrow> rstr" where
  "mint_key machine_id counter = str ''mv-'' @ machine_id @ str ''-'' @ decimal counter"

definition idempotency_key ::
  "'k client_setup \<Rightarrow> attempt_verb \<Rightarrow> prepare_env \<Rightarrow> client \<Rightarrow> (heartbeat_error + rstr) \<times> client" where
  "idempotency_key s verb env c =
     (case is_current verb (cl_idempotency c) of
        Some existing \<Rightarrow> (Inr existing, c)
      | None \<Rightarrow>
          (case pe_load_error env of
             Some e \<Rightarrow> (Inl (HE_NonceStore e), c)
           | None \<Rightarrow>
               let counter = usat_add 64 (max (is_counter (cl_idempotency c)) (cl_durable c)) 1
               in case pe_commit_error env of
                    Some (e, written) \<Rightarrow> (Inl (HE_NonceStore e), if written then c\<lparr>cl_durable := counter\<rparr> else c)
                  | None \<Rightarrow>
                      let key = mint_key (di_machine_id (su_identity s)) counter
                      in (Inr key, c\<lparr>cl_durable := counter,
                            cl_idempotency := is_put verb (Some key) ((cl_idempotency c)\<lparr>is_counter := counter\<rparr>)\<rparr>)))"

definition rotate_idempotency :: "attempt_verb \<Rightarrow> client \<Rightarrow> client" where
  "rotate_idempotency verb c = c\<lparr>cl_idempotency := is_put verb None (cl_idempotency c)\<rparr>"

definition pinned_attempt :: "attempt_verb \<Rightarrow> client \<Rightarrow> pending_attempt option \<times> client" where
  "pinned_attempt verb c =
     (case ps_slot verb (cl_pending c) of
        Some a \<Rightarrow> if pa_verb a = verb then (Some a, c) else (None, c\<lparr>cl_pending := ps_put verb None (cl_pending c)\<rparr>)
      | None \<Rightarrow> (None, c))"

definition pin_attempt :: "pending_attempt \<Rightarrow> client \<Rightarrow> client" where
  "pin_attempt a c = c\<lparr>cl_pending := ps_put (pa_verb a) (Some a) (cl_pending c)\<rparr>"

definition clear_pending :: "attempt_verb \<Rightarrow> client \<Rightarrow> client" where
  "clear_pending verb c = rotate_idempotency verb (c\<lparr>cl_pending := ps_put verb None (cl_pending c)\<rparr>)"

definition reset_on_rejection :: "attempt_verb \<Rightarrow> client \<Rightarrow> client" where
  "reset_on_rejection verb c = (clear_pending verb c)\<lparr>cl_pop_nonce := None\<rparr>"

text \<open>The message of an expired challenge.\<close>

definition decimal_int :: "int \<Rightarrow> rstr" where
  "decimal_int n = (if n < 0 then str ''-'' @ decimal (nat (- n)) else decimal (nat n))"

definition fresh_challenge :: "string \<Rightarrow> prepare_env \<Rightarrow> heartbeat_error + device_challenge" where
  "fresh_challenge what env =
     (case pe_challenge env of
        Inl e \<Rightarrow> Inl e
      | Inr ch \<Rightarrow>
          if dc_expires_at_ms ch \<noteq> 0 \<and> dc_expires_at_ms ch \<le> pe_now_challenge env
          then Inl (HE_Pop (PopNonce (str ''fresh '' @ str what @ str '' challenge already expired (expiresAtMs '' @
                 decimal_int (dc_expires_at_ms ch) @ str '' <= now '' @ decimal_int (pe_now_challenge env) @ str '')'')))
          else Inr ch)"

definition obtain_pop_nonce :: "prepare_env \<Rightarrow> client \<Rightarrow> (heartbeat_error + rstr) \<times> client" where
  "obtain_pop_nonce env c =
     (let held = (case cl_pop_nonce c of
          Some p \<Rightarrow> if pn_expires_at_ms p = 0 \<or> pn_expires_at_ms p > pe_now_nonce env then Some (pn_nonce p) else None
        | None \<Rightarrow> None);
        c' = c\<lparr>cl_pop_nonce := None\<rparr>
      in case held of
           Some nonce \<Rightarrow> (Inr nonce, c')
         | None \<Rightarrow> (map_sum id dc_nonce (fresh_challenge ''device-PoP'' env), c'))"

definition remember_next_nonce :: "rstr \<Rightarrow> client \<Rightarrow> client" where
  "remember_next_nonce next_nonce c =
     c\<lparr>cl_pop_nonce := (if next_nonce = [] then None else Some \<lparr>pn_nonce = next_nonce, pn_expires_at_ms = 0\<rparr>)\<rparr>"

definition client_binding_id :: "client \<Rightarrow> rstr option" where
  "client_binding_id c = cl_learned_binding_id c"

definition resolve_binding_id :: "'k client_setup \<Rightarrow> client \<Rightarrow> rstr option" where
  "resolve_binding_id s c =
     (case client_binding_id c of
        Some b \<Rightarrow> Some b
      | None \<Rightarrow> (case sto_binding_id (cl_store c) of Some b \<Rightarrow> Some b | None \<Rightarrow> di_binding_id (su_identity s)))"

definition remember_binding_id :: "rstr \<Rightarrow> client \<Rightarrow> client" where
  "remember_binding_id b c = c\<lparr>cl_learned_binding_id := Some b\<rparr>"

section \<open>Up to the POST\<close>

text \<open>The tail every verb shares: mint the key last, pin the unit.\<close>

definition mint_and_pin ::
  "'k client_setup \<Rightarrow> attempt_verb \<Rightarrow> bytes \<Rightarrow> rstr \<Rightarrow> prepare_env \<Rightarrow> client \<Rightarrow> (heartbeat_error + pending_attempt) \<times> client" where
  "mint_and_pin s verb body pop_header env c =
     (case idempotency_key s verb env c of
        (Inl e, c') \<Rightarrow> (Inl e, c')
      | (Inr key, c') \<Rightarrow>
          let a = \<lparr>pa_verb = verb, pa_idempotency_key = key, pa_body = body, pa_pop_header = pop_header\<rparr>
          in (Inr a, pin_attempt a c'))"

text \<open>Serialise once, sign over those bytes, mint and pin.\<close>

definition seal_attempt ::
  "'k client_setup \<Rightarrow> attempt_verb \<Rightarrow> string \<Rightarrow> rstr + bytes \<Rightarrow> (bytes \<Rightarrow> pop_error + rstr) \<Rightarrow> prepare_env \<Rightarrow> client \<Rightarrow>
     (heartbeat_error + pending_attempt) \<times> client" where
  "seal_attempt s verb what json header env c =
     (case json of
        Inl e \<Rightarrow> (Inl (HE_Malformed (str what @ str '' body serialise: '' @ e)), c)
      | Inr body \<Rightarrow>
          (case header body of
             Inl e \<Rightarrow> (Inl (HE_Pop e), c)
           | Inr pop_header \<Rightarrow> mint_and_pin s verb body pop_header env c))"

definition renew_attempt ::
  "'k client_setup \<Rightarrow> rstr \<Rightarrow> prepare_env \<Rightarrow> client \<Rightarrow> (heartbeat_error + pending_attempt) \<times> client" where
  "renew_attempt s established env c =
     (case pinned_attempt Renew c of
        (Some a, c') \<Rightarrow> (Inr a, c')
      | (None, c') \<Rightarrow>
          let held_serial = map_option (\<lambda>e. ls_serial (en_lease e)) (sto_current (cl_store c'))
          in case obtain_pop_nonce env c' of
               (Inl e, c'') \<Rightarrow> (Inl e, c'')
             | (Inr nonce, c'') \<Rightarrow>
                 seal_attempt s Renew ''heartbeat''
                   (pk_heartbeat_json (su_packages s) (build_heartbeat_request_for (su_identity s) held_serial (Some established) nonce))
                   (\<lambda>body. build_pop_header s (pe_now_iat env) body nonce) env c'')"

definition activate_attempt ::
  "'k client_setup \<Rightarrow> prepare_env \<Rightarrow> client \<Rightarrow> (heartbeat_error + pending_attempt) \<times> client" where
  "activate_attempt s env c =
     (case pinned_attempt Activate c of
        (Some a, c') \<Rightarrow> (Inr a, c')
      | (None, c') \<Rightarrow>
          (case fresh_challenge ''activate'' env of
             Inl e \<Rightarrow> (Inl e, c')
           | Inr ch \<Rightarrow>
               (case su_signer s of
                  None \<Rightarrow> (Inl (HE_Pop (PopCose (str ''no device signer configured''))), c')
                | Some signer \<Rightarrow>
                    seal_attempt s Activate ''activate''
                      (pk_activate_json (su_packages s) (build_activate_request (pk_crypto (su_packages s)) (su_identity s)
                         (ds_public_key signer) ch (cc_claim_code (su_config s))))
                      (\<lambda>body. build_activate_pop_header s (pe_now_iat env) body (dc_instance_id ch) (dc_nonce ch)) env c')))"

definition rebind_attempt ::
  "'k client_setup \<Rightarrow> rstr \<Rightarrow> rstr \<Rightarrow> prepare_env \<Rightarrow> client \<Rightarrow> (heartbeat_error + pending_attempt) \<times> client" where
  "rebind_attempt s licence_id binding_id env c =
     (case pinned_attempt Rebind c of
        (Some a, c') \<Rightarrow> (Inr a, c')
      | (None, c') \<Rightarrow>
          (case obtain_pop_nonce env c' of
             (Inl e, c'') \<Rightarrow> (Inl e, c'')
           | (Inr nonce, c'') \<Rightarrow>
               seal_attempt s Rebind ''rebind''
                 (pk_rebind_json (su_packages s) (build_rebind_request_for (su_identity s) licence_id binding_id
                    \<lparr>dc_nonce = nonce, dc_expires_at_ms = 0, dc_instance_id = []\<rparr>))
                 (\<lambda>body. build_lifecycle_pop_header s (str ''rebind'') (pe_now_iat env) body nonce) env c''))"

definition deactivate_attempt ::
  "'k client_setup \<Rightarrow> rstr \<Rightarrow> prepare_env \<Rightarrow> client \<Rightarrow> (heartbeat_error + pending_attempt) \<times> client" where
  "deactivate_attempt s binding_id env c =
     (case pinned_attempt Deactivate c of
        (Some a, c') \<Rightarrow> (Inr a, c')
      | (None, c') \<Rightarrow>
          (case obtain_pop_nonce env c' of
             (Inl e, c'') \<Rightarrow> (Inl e, c'')
           | (Inr nonce, c'') \<Rightarrow>
               seal_attempt s Deactivate ''deactivate''
                 (pk_deactivate_json (su_packages s) (build_deactivate_request binding_id nonce))
                 (\<lambda>body. build_lifecycle_pop_header s (str ''deactivate'') (pe_now_iat env) body nonce) env c''))"

text \<open>The pre-network trust check of every verb.\<close>

definition trust_check :: "'k client_setup \<Rightarrow> heartbeat_error + licensing_keys \<Rightarrow> int \<Rightarrow> heartbeat_error + 'k trusted_keys" where
  "trust_check s fetched now_ms =
     (case fetched of
        Inl e \<Rightarrow> Inl e
      | Inr keys \<Rightarrow> map_sum HE_KeyTrust id (trusted_keys_verify (pk_crypto (su_packages s)) keys (su_pinned s) now_ms))"

datatype client_call = Cycle | RebindCall rstr | DeactivateCall

datatype prepared =
    Returned "heartbeat_error + heartbeat_outcome"
  | Sent pending_attempt "rstr option"

definition sent :: "rstr option \<Rightarrow> (heartbeat_error + pending_attempt) \<times> client \<Rightarrow> prepared \<times> client" where
  "sent established r = (case r of (Inl e, c) \<Rightarrow> (Returned (Inl e), c) | (Inr a, c) \<Rightarrow> (Sent a established, c))"

text \<open>\<open>run_once\<close>, which activates when there is nothing to renew, \<open>rebind_once\<close> and \<open>deactivate_once\<close>,
  each up to its POST.\<close>

definition activate_prepare :: "'k client_setup \<Rightarrow> prepare_env \<Rightarrow> client \<Rightarrow> prepared \<times> client" where
  "activate_prepare s env c =
     (case trust_check s (pe_keys env) (pe_now_trust env) of
        Inl e \<Rightarrow> (Returned (Inl e), c)
      | Inr _ \<Rightarrow> sent None (activate_attempt s env c))"

definition renew_prepare :: "'k client_setup \<Rightarrow> prepare_env \<Rightarrow> client \<Rightarrow> prepared \<times> client" where
  "renew_prepare s env c =
     (case resolve_binding_id s c of
        None \<Rightarrow>
          if cc_enable_activate (su_config s) then activate_prepare s env c
          else (Returned (Inr (HO_NoBinding (next_due_default (pe_now_trust env)))), c)
      | Some established \<Rightarrow>
          (case trust_check s (pe_keys env) (pe_now_trust env) of
             Inl e \<Rightarrow> (Returned (Inl e), c)
           | Inr _ \<Rightarrow> sent (Some established) (renew_attempt s established env c)))"

definition rebind_prepare :: "'k client_setup \<Rightarrow> rstr \<Rightarrow> prepare_env \<Rightarrow> client \<Rightarrow> prepared \<times> client" where
  "rebind_prepare s licence_id env c =
     (case resolve_binding_id s c of
        None \<Rightarrow> (Returned (Inl (HE_Pop (PopCose (str ''no established binding to rebind'')))), c)
      | Some binding_id \<Rightarrow>
          (case trust_check s (pe_keys env) (pe_now_trust env) of
             Inl e \<Rightarrow> (Returned (Inl e), c)
           | Inr _ \<Rightarrow> sent None (rebind_attempt s licence_id binding_id env c)))"

definition deactivate_prepare :: "'k client_setup \<Rightarrow> prepare_env \<Rightarrow> client \<Rightarrow> prepared \<times> client" where
  "deactivate_prepare s env c =
     (case resolve_binding_id s c of
        None \<Rightarrow> (Returned (Inl (HE_Pop (PopCose (str ''no established binding to deactivate'')))), c)
      | Some binding_id \<Rightarrow>
          (case trust_check s (pe_keys env) (pe_now_trust env) of
             Inl e \<Rightarrow> (Returned (Inl e), c)
           | Inr _ \<Rightarrow> sent None (deactivate_attempt s binding_id env c)))"

fun prepare_call :: "'k client_setup \<Rightarrow> client_call \<Rightarrow> prepare_env \<Rightarrow> client \<Rightarrow> prepared \<times> client" where
  "prepare_call s Cycle env c = renew_prepare s env c"
| "prepare_call s (RebindCall licence_id) env c = rebind_prepare s licence_id env c"
| "prepare_call s DeactivateCall env c = deactivate_prepare s env c"

lemmas prepare_defs = renew_prepare_def activate_prepare_def rebind_prepare_def deactivate_prepare_def

section \<open>From the reply\<close>

record accept_env =
  ae_now_due :: int
  ae_now_accept :: int
  ae_keys :: "heartbeat_error + licensing_keys"
  ae_system_now :: instant
  ae_now_install :: int

definition definitive :: "heartbeat_error \<Rightarrow> bool" where
  "definitive e = (case e of HE_ServerRejected _ \<Rightarrow> True | HE_Malformed _ \<Rightarrow> True | _ \<Rightarrow> False)"

text \<open>Verify a returned lease against freshly fetched keys, install it, learn its binding.\<close>

definition accept_lease ::
  "'k client_setup \<Rightarrow> accept_env \<Rightarrow> server_lease \<Rightarrow> rstr option \<Rightarrow> client \<Rightarrow> (heartbeat_error + rstr) \<times> client" where
  "accept_lease s env l established c =
     (case trust_check s (ae_keys env) (ae_now_accept env) of
        Inl e \<Rightarrow> (Inl e, c)
      | Inr trusted \<Rightarrow>
          (case verify_signed_lease_chain (pk_crypto (su_packages s)) l trusted of
             Inl e \<Rightarrow> (Inl (HE_SignedLease e), c)
           | Inr body \<Rightarrow>
               (case client_install s body established (ae_system_now env) (ae_now_install env) (cl_store c) of
                  (Inl e, st) \<Rightarrow> (Inl e, c\<lparr>cl_store := st\<rparr>)
                | (Inr (IO_Installed serial), st) \<Rightarrow>
                    (Inr serial, remember_binding_id (bo_instance_binding_id body) (c\<lparr>cl_store := st\<rparr>))
                | (Inr (IO_StaleNoop serial), st) \<Rightarrow> (Inr serial, c\<lparr>cl_store := st\<rparr>))))"

definition on_error ::
  "attempt_verb \<Rightarrow> heartbeat_error \<Rightarrow> client \<Rightarrow> (heartbeat_error + heartbeat_outcome) \<times> client" where
  "on_error verb e c = (Inl e, if definitive e then reset_on_rejection verb c else c)"

definition contact_done :: "attempt_verb \<Rightarrow> rstr \<Rightarrow> client \<Rightarrow> client" where
  "contact_done verb next_nonce c = remember_next_nonce next_nonce (clear_pending verb c)"

datatype server_reply =
    RenewReply "heartbeat_error + heartbeat_response"
  | ActivateReply "heartbeat_error + activate_response"
  | RebindReply "heartbeat_error + rebind_response"
  | DeactivateReply "heartbeat_error + deactivate_response"

definition renew_finish ::
  "'k client_setup \<Rightarrow> accept_env \<Rightarrow> rstr option \<Rightarrow> heartbeat_error + heartbeat_response \<Rightarrow> client \<Rightarrow>
     (heartbeat_error + heartbeat_outcome) \<times> client" where
  "renew_finish s env established reply c =
     (case reply of
        Inl e \<Rightarrow> on_error Renew e c
      | Inr resp \<Rightarrow>
          let c' = contact_done Renew (hp_next_nonce resp) c
          in case hp_lease resp of
               None \<Rightarrow> (Inr (HO_LeaseWithheld (hp_enforcement_state resp) (hp_next_due resp)), c')
             | Some l \<Rightarrow>
                 (case accept_lease s env l established c' of
                    (Inl e, c'') \<Rightarrow> (Inl e, c'')
                  | (Inr serial, c'') \<Rightarrow> (Inr (HO_Installed serial (hp_next_due resp)), c'')))"

definition activate_finish ::
  "'k client_setup \<Rightarrow> accept_env \<Rightarrow> heartbeat_error + activate_response \<Rightarrow> client \<Rightarrow>
     (heartbeat_error + heartbeat_outcome) \<times> client" where
  "activate_finish s env reply c =
     (case reply of
        Inl e \<Rightarrow> on_error Activate e c
      | Inr resp \<Rightarrow>
          let c' = contact_done Activate (ap_next_nonce resp) c; next_due = next_due_default (ae_now_due env)
          in case ap_lease resp of
               None \<Rightarrow> (Inr (HO_NoBinding next_due), c')
             | Some l \<Rightarrow>
                 (case accept_lease s env l None c' of
                    (Inl e, c'') \<Rightarrow> (Inl e, c'')
                  | (Inr serial, c'') \<Rightarrow> (Inr (HO_Activated serial next_due), c'')))"

definition rebind_finish :: "heartbeat_error + rebind_response \<Rightarrow> client \<Rightarrow> (heartbeat_error + heartbeat_outcome) \<times> client" where
  "rebind_finish reply c =
     (case reply of
        Inl e \<Rightarrow> on_error Rebind e c
      | Inr resp \<Rightarrow>
          (Inr (HO_Rebound (rp_rebound resp) (rp_lease_serial resp) (rp_rebinds_this_year resp) (rp_seat_consumed resp)),
           contact_done Rebind (rp_next_nonce resp) c))"

definition deactivate_finish :: "heartbeat_error + deactivate_response \<Rightarrow> client \<Rightarrow> (heartbeat_error + heartbeat_outcome) \<times> client" where
  "deactivate_finish reply c =
     (case reply of
        Inl e \<Rightarrow> on_error Deactivate e c
      | Inr resp \<Rightarrow> (Inr (HO_Deactivated (dp_id resp) (dp_lifecycle_state resp)), contact_done Deactivate [] c))"

fun finish_call ::
  "'k client_setup \<Rightarrow> accept_env \<Rightarrow> rstr option \<Rightarrow> server_reply \<Rightarrow> client \<Rightarrow> (heartbeat_error + heartbeat_outcome) \<times> client" where
  "finish_call s env established (RenewReply r) c = renew_finish s env established r c"
| "finish_call s env established (ActivateReply r) c = activate_finish s env r c"
| "finish_call s env established (RebindReply r) c = rebind_finish r c"
| "finish_call s env established (DeactivateReply r) c = deactivate_finish r c"

lemmas finish_defs = renew_finish_def activate_finish_def rebind_finish_def deactivate_finish_def

fun reply_verb :: "server_reply \<Rightarrow> attempt_verb" where
  "reply_verb (RenewReply _) = Renew"
| "reply_verb (ActivateReply _) = Activate"
| "reply_verb (RebindReply _) = Rebind"
| "reply_verb (DeactivateReply _) = Deactivate"

fun received :: "server_reply \<Rightarrow> bool" where
  "received (RenewReply (Inl e)) = definitive e"
| "received (ActivateReply (Inl e)) = definitive e"
| "received (RebindReply (Inl e)) = definitive e"
| "received (DeactivateReply (Inl e)) = definitive e"
| "received _ = True"

text \<open>A whole call, when nothing interleaves: the server answers the attempt it is sent.\<close>

definition run_call ::
  "'k client_setup \<Rightarrow> (pending_attempt \<Rightarrow> server_reply) \<Rightarrow> client_call \<Rightarrow> prepare_env \<Rightarrow> accept_env \<Rightarrow> client \<Rightarrow>
     (heartbeat_error + heartbeat_outcome) \<times> client" where
  "run_call s server call penv aenv c =
     (case prepare_call s call penv c of
        (Returned r, c') \<Rightarrow> (r, c')
      | (Sent a established, c') \<Rightarrow> finish_call s aenv established (server a) c')"

section \<open>The loop's cadence\<close>

text \<open>One pass of \<open>run_forever\<close> after a cycle: how long to sleep, and the next back-off.\<close>

definition forever_step ::
  "client_config \<Rightarrow> heartbeat_error + heartbeat_outcome \<Rightarrow> int \<Rightarrow> nat \<Rightarrow> nat \<times> nat" where
  "forever_step cfg r now backoff =
     (case r of
        Inr (HO_Installed _ due) \<Rightarrow> (sleep_until_due due now (cc_min_interval cfg), cc_min_interval cfg)
      | Inr (HO_Activated _ due) \<Rightarrow> (sleep_until_due due now (cc_min_interval cfg), cc_min_interval cfg)
      | Inr (HO_LeaseWithheld _ due) \<Rightarrow> (sleep_until_due due now (cc_min_interval cfg), cc_min_interval cfg)
      | Inr (HO_NoBinding due) \<Rightarrow> (sleep_until_due due now (cc_min_interval cfg), cc_min_interval cfg)
      | Inr (HO_Rebound _ _ _ _) \<Rightarrow> (cc_min_interval cfg, cc_min_interval cfg)
      | Inr (HO_Deactivated _ _) \<Rightarrow> (cc_min_interval cfg, cc_min_interval cfg)
      | Inl _ \<Rightarrow> (backoff, min (backoff * 2) (cc_max_backoff cfg)))"

end
