(* ===== verification/Heartbeat_Calls.thy ===== *)
theory Heartbeat_Calls
  imports Heartbeat_Client
begin

text \<open>
  The calls of the licence client cut at their awaits (\<open>multiview-licence/src/heartbeat.rs\<close>: \<open>run_once\<close>,
  \<open>activate_once\<close>, \<open>rebind_once\<close>, \<open>deactivate_once\<close>). A call awaits the key document, then a challenge when
  it holds no usable nonce, then the answer to its POST, then, for a returned lease, a fresh key
  document; at each await other calls of the same client may run. The methods take \<open>&self\<close>, so any
  number of calls may be under way. The whole calls of \<open>Heartbeat_Client\<close> are these steps in a row.
\<close>

section \<open>What a call has decided\<close>

text \<open>The verb, with the binding it was resolved to and the licence it was asked for.\<close>

datatype intent = RenewIntent rstr | ActivateIntent | RebindIntent rstr rstr | DeactivateIntent rstr

fun intent_verb :: "intent \<Rightarrow> attempt_verb" where
  "intent_verb (RenewIntent _) = Renew"
| "intent_verb ActivateIntent = Activate"
| "intent_verb (RebindIntent _ _) = Rebind"
| "intent_verb (DeactivateIntent _) = Deactivate"

fun intent_established :: "intent \<Rightarrow> rstr option" where
  "intent_established (RenewIntent b) = Some b"
| "intent_established _ = None"

text \<open>The first lines of a call: what it is about, or what it returns without a server.\<close>

fun begin_call :: "'k client_setup \<Rightarrow> client_call \<Rightarrow> int \<Rightarrow> client \<Rightarrow> (heartbeat_error + heartbeat_outcome) + intent" where
  "begin_call s Cycle now c =
     (case resolve_binding_id s c of
        Some b \<Rightarrow> Inr (RenewIntent b)
      | None \<Rightarrow>
          if cc_enable_activate (su_config s) then Inr ActivateIntent
          else Inl (Inr (HO_NoBinding (next_due_default now))))"
| "begin_call s (RebindCall licence_id) now c =
     (case resolve_binding_id s c of
        None \<Rightarrow> Inl (Inl (HE_Pop (PopCose (str ''no established binding to rebind''))))
      | Some b \<Rightarrow> Inr (RebindIntent licence_id b))"
| "begin_call s DeactivateCall now c =
     (case resolve_binding_id s c of
        None \<Rightarrow> Inl (Inl (HE_Pop (PopCose (str ''no established binding to deactivate''))))
      | Some b \<Rightarrow> Inr (DeactivateIntent b))"

section \<open>Up to the POST\<close>

text \<open>Where a step leaves the call: returned, awaiting a challenge (the held lease's serial already
  read), or posting.\<close>

datatype call_stage =
    Stops "heartbeat_error + heartbeat_outcome"
  | Fetches intent "rstr option"
  | Posts pending_attempt "rstr option"

definition held_serial :: "client \<Rightarrow> rstr option" where
  "held_serial c = map_option (\<lambda>e. ls_serial (en_lease e)) (sto_current (cl_store c))"

text \<open>The held nonce, taken whether or not it is still usable.\<close>

definition take_nonce :: "int \<Rightarrow> client \<Rightarrow> rstr option \<times> client" where
  "take_nonce now c =
     ((case cl_pop_nonce c of
         Some p \<Rightarrow> if pn_expires_at_ms p = 0 \<or> pn_expires_at_ms p > now then Some (pn_nonce p) else None
       | None \<Rightarrow> None), c\<lparr>cl_pop_nonce := None\<rparr>)"

text \<open>Build, sign, mint and pin, from a nonce in hand.\<close>

fun build_attempt ::
  "'k client_setup \<Rightarrow> intent \<Rightarrow> rstr option \<Rightarrow> device_challenge \<Rightarrow> prepare_env \<Rightarrow> client \<Rightarrow>
     (heartbeat_error + pending_attempt) \<times> client" where
  "build_attempt s (RenewIntent b) held ch env c =
     seal_attempt s Renew ''heartbeat''
       (pk_heartbeat_json (su_packages s) (build_heartbeat_request_for (su_identity s) held (Some b) (dc_nonce ch)))
       (\<lambda>body. build_pop_header s (pe_now_iat env) body (dc_nonce ch)) env c"
| "build_attempt s ActivateIntent held ch env c =
     (case su_signer s of
        None \<Rightarrow> (Inl (HE_Pop (PopCose (str ''no device signer configured''))), c)
      | Some signer \<Rightarrow>
          seal_attempt s Activate ''activate''
            (pk_activate_json (su_packages s) (build_activate_request (pk_crypto (su_packages s)) (su_identity s)
               (ds_public_key signer) ch (cc_claim_code (su_config s))))
            (\<lambda>body. build_activate_pop_header s (pe_now_iat env) body (dc_instance_id ch) (dc_nonce ch)) env c)"
| "build_attempt s (RebindIntent licence_id b) held ch env c =
     seal_attempt s Rebind ''rebind''
       (pk_rebind_json (su_packages s) (build_rebind_request_for (su_identity s) licence_id b
          \<lparr>dc_nonce = dc_nonce ch, dc_expires_at_ms = 0, dc_instance_id = []\<rparr>))
       (\<lambda>body. build_lifecycle_pop_header s (str ''rebind'') (pe_now_iat env) body (dc_nonce ch)) env c"
| "build_attempt s (DeactivateIntent b) held ch env c =
     seal_attempt s Deactivate ''deactivate''
       (pk_deactivate_json (su_packages s) (build_deactivate_request b (dc_nonce ch)))
       (\<lambda>body. build_lifecycle_pop_header s (str ''deactivate'') (pe_now_iat env) body (dc_nonce ch)) env c"

definition posting :: "intent \<Rightarrow> (heartbeat_error + pending_attempt) \<times> client \<Rightarrow> call_stage \<times> client" where
  "posting i r = (case r of (Inl e, c) \<Rightarrow> (Stops (Inl e), c) | (Inr a, c) \<Rightarrow> (Posts a (intent_established i), c))"

text \<open>The key document has arrived: check trust, replay the pinned attempt, or start a new one. An
  activate always fetches a challenge, for the instance id it carries.\<close>

definition keys_step :: "'k client_setup \<Rightarrow> intent \<Rightarrow> prepare_env \<Rightarrow> client \<Rightarrow> call_stage \<times> client" where
  "keys_step s i env c =
     (case trust_check s (pe_keys env) (pe_now_trust env) of
        Inl e \<Rightarrow> (Stops (Inl e), c)
      | Inr _ \<Rightarrow>
          (case pinned_attempt (intent_verb i) c of
             (Some a, c') \<Rightarrow> (Posts a (intent_established i), c')
           | (None, c') \<Rightarrow>
               if i = ActivateIntent then (Fetches i None, c')
               else
                 (case take_nonce (pe_now_nonce env) c' of
                    (Some n, c'') \<Rightarrow>
                      posting i (build_attempt s i (held_serial c')
                        \<lparr>dc_nonce = n, dc_expires_at_ms = 0, dc_instance_id = []\<rparr> env c'')
                  | (None, c'') \<Rightarrow> (Fetches i (held_serial c'), c''))))"

text \<open>The challenge has arrived, or its fetch failed.\<close>

definition challenge_step :: "'k client_setup \<Rightarrow> intent \<Rightarrow> rstr option \<Rightarrow> prepare_env \<Rightarrow> client \<Rightarrow> call_stage \<times> client" where
  "challenge_step s i held env c =
     (case fresh_challenge (if i = ActivateIntent then ''activate'' else ''device-PoP'') env of
        Inl e \<Rightarrow> (Stops (Inl e), c)
      | Inr ch \<Rightarrow> posting i (build_attempt s i held ch env c))"

fun prepared_of :: "call_stage \<Rightarrow> prepared" where
  "prepared_of (Stops r) = Returned r"
| "prepared_of (Posts a established) = Sent a established"
| "prepared_of (Fetches i held) = Returned (Inl (HE_Transport []))"

text \<open>A call up to its POST is these steps in a row, when nothing comes between.\<close>

definition staged_call :: "'k client_setup \<Rightarrow> client_call \<Rightarrow> prepare_env \<Rightarrow> client \<Rightarrow> prepared \<times> client" where
  "staged_call s call env c =
     (case begin_call s call (pe_now_trust env) c of
        Inl r \<Rightarrow> (Returned r, c)
      | Inr i \<Rightarrow>
          (case keys_step s i env c of
             (Fetches j held, c') \<Rightarrow> map_prod prepared_of id (challenge_step s j held env c')
           | (stage, c') \<Rightarrow> (prepared_of stage, c')))"

lemma posting_sent: "map_prod prepared_of id (posting i r) = sent (intent_established i) r"
  by (simp add: posting_def sent_def split: prod.split sum.split)

lemma obtain_takes:
  "obtain_pop_nonce env c =
     (case take_nonce (pe_now_nonce env) c of
        (Some n, c') \<Rightarrow> (Inr n, c')
      | (None, c') \<Rightarrow> (map_sum id dc_nonce (fresh_challenge ''device-PoP'' env), c'))"
  by (simp add: obtain_pop_nonce_def take_nonce_def Let_def split: option.split)

lemma build_nonce_only:
  assumes "i \<noteq> ActivateIntent" and "dc_nonce ch = dc_nonce ch'"
  shows "build_attempt s i held ch env c = build_attempt s i held ch' env c"
  using assms by (cases i) simp_all

text \<open>With no attempt pinned: the rest of a call that needs a nonce, the held one or a fetched one.\<close>

lemma nonce_in_a_row:
  assumes "i \<noteq> ActivateIntent"
  shows "(case take_nonce (pe_now_nonce env) c of
      (Some n, c') \<Rightarrow> map_prod prepared_of id (posting i (build_attempt s i h \<lparr>dc_nonce = n, dc_expires_at_ms = 0, dc_instance_id = []\<rparr> env c'))
    | (None, c') \<Rightarrow> map_prod prepared_of id (challenge_step s i h env c')) =
    sent (intent_established i)
      (case obtain_pop_nonce env c of
         (Inl e, c') \<Rightarrow> (Inl e, c')
       | (Inr n, c') \<Rightarrow> build_attempt s i h \<lparr>dc_nonce = n, dc_expires_at_ms = 0, dc_instance_id = []\<rparr> env c')"
proof -
  obtain x c' where t: "take_nonce (pe_now_nonce env) c = (x, c')" by fastforce
  show ?thesis
  proof (cases x)
    case (Some n)
    then show ?thesis using t by (simp add: obtain_takes posting_sent)
  next
    case None
    then show ?thesis
      using t assms build_nonce_only [OF assms, of "\<lparr>dc_nonce = dc_nonce ch, dc_expires_at_ms = 0, dc_instance_id = []\<rparr>" ch s h env c' for ch]
      by (cases "fresh_challenge ''device-PoP'' env") (simp_all add: obtain_takes challenge_step_def posting_sent, simp add: sent_def)
  qed
qed

definition rest_of_call :: "'k client_setup \<Rightarrow> intent \<Rightarrow> prepare_env \<Rightarrow> client \<Rightarrow> prepared \<times> client" where
  "rest_of_call s i env c =
     (case keys_step s i env c of
        (Fetches j held, c') \<Rightarrow> map_prod prepared_of id (challenge_step s j held env c')
      | (stage, c') \<Rightarrow> (prepared_of stage, c'))"

lemma posting_not_fetches: "posting i r = (x, c') \<Longrightarrow> x \<noteq> Fetches j h"
  by (auto simp: posting_def split: prod.splits sum.splits)

lemma rest_needs_nonce:
  assumes "i \<noteq> ActivateIntent"
  shows "rest_of_call s i env c =
    (case trust_check s (pe_keys env) (pe_now_trust env) of
       Inl e \<Rightarrow> (Returned (Inl e), c)
     | Inr _ \<Rightarrow>
         (case pinned_attempt (intent_verb i) c of
            (Some a, c') \<Rightarrow> (Sent a (intent_established i), c')
          | (None, c') \<Rightarrow>
              sent (intent_established i)
                (case obtain_pop_nonce env c' of
                   (Inl e, c'') \<Rightarrow> (Inl e, c'')
                 | (Inr n, c'') \<Rightarrow>
                     build_attempt s i (held_serial c') \<lparr>dc_nonce = n, dc_expires_at_ms = 0, dc_instance_id = []\<rparr> env c'')))"
  unfolding nonce_in_a_row [OF assms, symmetric] using assms
  by (auto simp: rest_of_call_def keys_step_def dest: posting_not_fetches split: sum.split prod.split option.split call_stage.split)

lemma rest_activate:
  "rest_of_call s ActivateIntent env c = activate_prepare s env c"
  by (simp add: rest_of_call_def keys_step_def activate_prepare_def activate_attempt_def challenge_step_def posting_sent
      sent_def split: sum.split prod.split option.split)

lemma sent_case: "sent e (Inr a, c) = (Sent a e, c)" "sent e (Inl x, c) = (Returned (Inl x), c)"
  by (simp_all add: sent_def)

lemma call_rests:
  "prepare_call s call env c =
     (case begin_call s call (pe_now_trust env) c of Inl r \<Rightarrow> (Returned r, c) | Inr i \<Rightarrow> rest_of_call s i env c)"
proof (cases call)
  case Cycle
  then show ?thesis
    by (auto simp: renew_prepare_def rest_activate rest_needs_nonce renew_attempt_def held_serial_def Let_def sent_case
        split: option.split sum.split prod.split)
next
  case (RebindCall l)
  then show ?thesis
    by (auto simp: rebind_prepare_def rest_needs_nonce rebind_attempt_def sent_case split: option.split sum.split prod.split)
next
  case DeactivateCall
  then show ?thesis
    by (auto simp: deactivate_prepare_def rest_needs_nonce deactivate_attempt_def sent_case split: option.split sum.split prod.split)
qed

lemma staged_is_whole: "staged_call s call env c = prepare_call s call env c"
  unfolding call_rests staged_call_def rest_of_call_def by (rule refl)

section \<open>From the answer\<close>

text \<open>The answer's effect before anything else is awaited: the unit is closed when the answer was received.\<close>

definition reply_received :: "server_reply \<Rightarrow> client \<Rightarrow> client" where
  "reply_received r c =
     (case r of
        RenewReply (Inl e) \<Rightarrow> snd (on_error Renew e c)
      | RenewReply (Inr resp) \<Rightarrow> contact_done Renew (hp_next_nonce resp) c
      | ActivateReply (Inl e) \<Rightarrow> snd (on_error Activate e c)
      | ActivateReply (Inr resp) \<Rightarrow> contact_done Activate (ap_next_nonce resp) c
      | RebindReply (Inl e) \<Rightarrow> snd (on_error Rebind e c)
      | RebindReply (Inr resp) \<Rightarrow> contact_done Rebind (rp_next_nonce resp) c
      | DeactivateReply (Inl e) \<Rightarrow> snd (on_error Deactivate e c)
      | DeactivateReply (Inr resp) \<Rightarrow> contact_done Deactivate [] c)"

text \<open>The lease of a reply, and the binding it must name: a renewal's, none for a first contact.\<close>

fun reply_lease :: "server_reply \<Rightarrow> server_lease option" where
  "reply_lease (RenewReply (Inr r)) = hp_lease r"
| "reply_lease (ActivateReply (Inr r)) = ap_lease r"
| "reply_lease _ = None"

definition anchor :: "server_reply \<Rightarrow> rstr option \<Rightarrow> rstr option" where
  "anchor r established = (case r of RenewReply _ \<Rightarrow> established | _ \<Rightarrow> None)"

lemma snd_case_sum: "snd (case p of (Inl e, c) \<Rightarrow> (f e, c) | (Inr x, c) \<Rightarrow> (g x, c)) = snd p"
  by (simp split: prod.split sum.split)

lemma finish_in_steps:
  "snd (finish_call s env established r c) =
     (case reply_lease r of
        None \<Rightarrow> reply_received r c
      | Some l \<Rightarrow> snd (accept_lease s env l (anchor r established) (reply_received r c)))"
proof (cases r)
  case (RenewReply x)
  then show ?thesis
    by (cases x) (simp_all add: renew_finish_def reply_received_def anchor_def Let_def snd_case_sum split: option.split)
next
  case (ActivateReply x)
  then show ?thesis
    by (cases x) (simp_all add: activate_finish_def reply_received_def anchor_def Let_def snd_case_sum split: option.split)
next
  case (RebindReply x)
  then show ?thesis by (cases x) (simp_all add: rebind_finish_def reply_received_def)
next
  case (DeactivateReply x)
  then show ?thesis by (cases x) (simp_all add: deactivate_finish_def reply_received_def)
qed

end
