(* ===== verification/Retry_Units.thy ===== *)
theory Retry_Units
  imports Heartbeat_Calls
begin

text \<open>
  Properties of the licence client (\<open>multiview-licence/src/heartbeat.rs\<close>) over whole runs: any number of
  calls under way, interleaved at their awaits (\<open>Heartbeat_Calls\<close>), with answers, leases installed by
  other surfaces, calls dropped and restarts in any order, and any answers of the environment.
\<close>

section \<open>Runs\<close>

datatype hb_event = Posted attempt_verb rstr bytes rstr | Received rstr | Restarted

text \<open>What a call under way awaits.\<close>

datatype call_phase =
    AwaitKeys intent
  | AwaitChallenge intent "rstr option"
  | AwaitReply pending_attempt "rstr option"
  | AwaitTrust attempt_verb server_lease "rstr option"
  | Ended

fun phase_verb :: "call_phase \<Rightarrow> attempt_verb option" where
  "phase_verb (AwaitKeys i) = Some (intent_verb i)"
| "phase_verb (AwaitChallenge i _) = Some (intent_verb i)"
| "phase_verb (AwaitReply a _) = Some (pa_verb a)"
| "phase_verb (AwaitTrust v _ _) = Some v"
| "phase_verb Ended = None"

record hb_system =
  sy_client :: client
  sy_calls :: "call_phase list"
  sy_trace :: "hb_event list"

text \<open>Calls are numbered as they begin. A call may begin at any time, whatever is under way; an event
  that does not fit the phase of its call cannot occur. A restart keeps the durable counter and
  whatever lease is reloaded.\<close>

datatype hb_action =
    Begin client_call int
  | KeysIn nat prepare_env
  | ChallengeIn nat prepare_env
  | Answer nat server_reply
  | TrustIn nat accept_env
  | Abandon nat
  | StoreChange lease_store
  | Restart lease_store

definition awaits :: "hb_system \<Rightarrow> nat \<Rightarrow> call_phase" where
  "awaits y i = (if i < length (sy_calls y) then sy_calls y ! i else Ended)"

definition goes_on :: "nat \<Rightarrow> call_stage \<times> client \<Rightarrow> hb_system \<Rightarrow> hb_system" where
  "goes_on i r y =
     (case r of
        (Stops x, c) \<Rightarrow> y\<lparr>sy_client := c, sy_calls := (sy_calls y)[i := Ended]\<rparr>
      | (Fetches t held, c) \<Rightarrow> y\<lparr>sy_client := c, sy_calls := (sy_calls y)[i := AwaitChallenge t held]\<rparr>
      | (Posts a established, c) \<Rightarrow>
          y\<lparr>sy_client := c, sy_calls := (sy_calls y)[i := AwaitReply a established],
            sy_trace := sy_trace y @ [Posted (pa_verb a) (pa_idempotency_key a) (pa_body a) (pa_pop_header a)]\<rparr>)"

fun hb_step :: "'k client_setup \<Rightarrow> hb_action \<Rightarrow> hb_system \<Rightarrow> hb_system" where
  "hb_step s (Begin call now) y =
     (case begin_call s call now (sy_client y) of
        Inl _ \<Rightarrow> y
      | Inr t \<Rightarrow> y\<lparr>sy_calls := sy_calls y @ [AwaitKeys t]\<rparr>)"
| "hb_step s (KeysIn i env) y =
     (case awaits y i of AwaitKeys t \<Rightarrow> goes_on i (keys_step s t env (sy_client y)) y | _ \<Rightarrow> y)"
| "hb_step s (ChallengeIn i env) y =
     (case awaits y i of AwaitChallenge t held \<Rightarrow> goes_on i (challenge_step s t held env (sy_client y)) y | _ \<Rightarrow> y)"
| "hb_step s (Answer i r) y =
     (case awaits y i of
        AwaitReply a established \<Rightarrow>
          if reply_verb r = pa_verb a
          then y\<lparr>sy_client := reply_received r (sy_client y),
                 sy_calls := (sy_calls y)[i := (case reply_lease r of
                   None \<Rightarrow> Ended | Some l \<Rightarrow> AwaitTrust (reply_verb r) l (anchor r established))],
                 sy_trace := sy_trace y @ (if received r then [Received (pa_idempotency_key a)] else [])\<rparr>
          else y
      | _ \<Rightarrow> y)"
| "hb_step s (TrustIn i env) y =
     (case awaits y i of
        AwaitTrust v l b \<Rightarrow>
          y\<lparr>sy_client := snd (accept_lease s env l b (sy_client y)), sy_calls := (sy_calls y)[i := Ended]\<rparr>
      | _ \<Rightarrow> y)"
| "hb_step s (Abandon i) y = y\<lparr>sy_calls := (sy_calls y)[i := Ended]\<rparr>"
| "hb_step s (StoreChange st) y = y\<lparr>sy_client := (sy_client y)\<lparr>cl_store := st\<rparr>\<rparr>"
| "hb_step s (Restart st) y =
     y\<lparr>sy_client := client_assemble st (cl_durable (sy_client y)), sy_calls := [], sy_trace := sy_trace y @ [Restarted]\<rparr>"

definition hb_start :: "lease_store \<Rightarrow> nat \<Rightarrow> hb_system" where
  "hb_start st durable = \<lparr>sy_client = client_assemble st durable, sy_calls = [], sy_trace = []\<rparr>"

definition hb_run :: "'k client_setup \<Rightarrow> lease_store \<Rightarrow> nat \<Rightarrow> hb_action list \<Rightarrow> hb_system" where
  "hb_run s st durable acts = fold (hb_step s) acts (hb_start st durable)"

text \<open>No two calls of one verb are under way. The client does not enforce it.\<close>

definition one_per_verb :: "hb_system \<Rightarrow> bool" where
  "one_per_verb y \<longleftrightarrow>
     (\<forall>i < length (sy_calls y). \<forall>j < length (sy_calls y).
        phase_verb (sy_calls y ! i) \<noteq> None \<longrightarrow> phase_verb (sy_calls y ! i) = phase_verb (sy_calls y ! j) \<longrightarrow> i = j)"

definition never_overlapping :: "'k client_setup \<Rightarrow> lease_store \<Rightarrow> nat \<Rightarrow> hb_action list \<Rightarrow> bool" where
  "never_overlapping s st durable acts \<longleftrightarrow> (\<forall>n < length acts. one_per_verb (hb_run s st durable (take n acts)))"

section \<open>What preparing and finishing touch\<close>

text \<open>The pinned attempts and the current keys, as functions of the verb.\<close>

definition pins :: "client \<Rightarrow> attempt_verb \<Rightarrow> pending_attempt option" where
  "pins c v = ps_slot v (cl_pending c)"

definition keys_now :: "client \<Rightarrow> attempt_verb \<Rightarrow> rstr option" where
  "keys_now c v = is_current v (cl_idempotency c)"

definition high_water :: "client \<Rightarrow> nat" where
  "high_water c = max (is_counter (cl_idempotency c)) (cl_durable c)"

definition fresh_number :: "client \<Rightarrow> nat" where
  "fresh_number c = usat_add 64 (high_water c) 1"

lemma retry_state_other [simp]:
  "pins (c\<lparr>cl_pop_nonce := n\<rparr>) = pins c" "pins (c\<lparr>cl_durable := d\<rparr>) = pins c" "pins (c\<lparr>cl_idempotency := i\<rparr>) = pins c"
  "pins (c\<lparr>cl_store := st\<rparr>) = pins c" "pins (c\<lparr>cl_learned_binding_id := b\<rparr>) = pins c"
  "keys_now (c\<lparr>cl_pop_nonce := n\<rparr>) = keys_now c" "keys_now (c\<lparr>cl_durable := d\<rparr>) = keys_now c"
  "keys_now (c\<lparr>cl_pending := p\<rparr>) = keys_now c" "keys_now (c\<lparr>cl_store := st\<rparr>) = keys_now c"
  "keys_now (c\<lparr>cl_learned_binding_id := b\<rparr>) = keys_now c"
  by (auto simp: pins_def keys_now_def)

lemma retry_state_own [simp]:
  "pins (c\<lparr>cl_pending := ps_put v x p\<rparr>) = (\<lambda>w. ps_slot w p)(v := x)"
  "keys_now (c\<lparr>cl_idempotency := is_put v k i\<rparr>) = (\<lambda>w. is_current w i)(v := k)"
  by (auto simp: pins_def keys_now_def pin.get_put cur.get_put)

text \<open>A quiet step leaves the retry state alone; a durable write without a key may raise the mark.\<close>

definition quiet :: "client \<Rightarrow> client \<Rightarrow> bool" where
  "quiet c c' \<longleftrightarrow> pins c' = pins c \<and> keys_now c' = keys_now c \<and> is_counter (cl_idempotency c') = is_counter (cl_idempotency c) \<and>
     (cl_durable c' = cl_durable c \<or> cl_durable c' = fresh_number c)"

lemma quiet_refl [simp]: "quiet c c"
  by (simp add: quiet_def)

text \<open>A minted attempt: its key is the next number, it is pinned and current in its own slot only.\<close>

definition minted :: "'k client_setup \<Rightarrow> attempt_verb \<Rightarrow> client \<Rightarrow> pending_attempt \<Rightarrow> client \<Rightarrow> bool" where
  "minted s v c a c' \<longleftrightarrow>
     pa_verb a = v \<and> pa_idempotency_key a = mint_key (di_machine_id (su_identity s)) (fresh_number c) \<and>
     pins c' = (pins c)(v \<mapsto> a) \<and> keys_now c' = (keys_now c)(v \<mapsto> pa_idempotency_key a) \<and>
     is_counter (cl_idempotency c') = fresh_number c \<and> cl_durable c' = fresh_number c"

text \<open>The two go together when the slots agree.\<close>

definition in_step :: "client \<Rightarrow> bool" where
  "in_step c \<longleftrightarrow> (\<forall>v. keys_now c v = map_option pa_idempotency_key (pins c v)) \<and>
     (\<forall>v a. pins c v = Some a \<longrightarrow> pa_verb a = v) \<and> is_counter (cl_idempotency c) \<le> cl_durable c"

lemma mint_and_pin_cases:
  assumes "keys_now c v = None" and "mint_and_pin s v body h env c = (r, c')"
  shows "case r of Inl e \<Rightarrow> quiet c c' | Inr a \<Rightarrow> minted s v c a c'"
proof (cases "pe_load_error env")
  case (Some e)
  then show ?thesis using assms by (auto simp: mint_and_pin_def idempotency_key_def keys_now_def)
next
  case None
  show ?thesis
  proof (cases "pe_commit_error env")
    case (Some w)
    then show ?thesis using assms None
      by (auto simp: mint_and_pin_def idempotency_key_def keys_now_def [of c v] Let_def quiet_def high_water_def fresh_number_def
          split: prod.splits if_splits)
  next
    case none: None
    then have "r = Inr \<lparr>pa_verb = v, pa_idempotency_key = mint_key (di_machine_id (su_identity s)) (fresh_number c), pa_body = body,
         pa_pop_header = h\<rparr>"
      "c' = pin_attempt \<lparr>pa_verb = v, pa_idempotency_key = mint_key (di_machine_id (su_identity s)) (fresh_number c), pa_body = body,
         pa_pop_header = h\<rparr> (c\<lparr>cl_durable := fresh_number c, cl_idempotency := is_put v
           (Some (mint_key (di_machine_id (su_identity s)) (fresh_number c))) ((cl_idempotency c)\<lparr>is_counter := fresh_number c\<rparr>)\<rparr>)"
      using assms None by (auto simp: mint_and_pin_def idempotency_key_def keys_now_def Let_def fresh_number_def high_water_def)
    then show ?thesis
      by (auto simp: minted_def pin_attempt_def pins_def keys_now_def)
  qed
qed

definition prepared_ok :: "'k client_setup \<Rightarrow> attempt_verb \<Rightarrow> client \<Rightarrow> (heartbeat_error + pending_attempt) \<times> client \<Rightarrow> bool" where
  "prepared_ok s v c r \<longleftrightarrow>
     (case r of
        (Inl e, c') \<Rightarrow> quiet c c'
      | (Inr a, c') \<Rightarrow> (pins c v = Some a \<and> quiet c c') \<or> (pins c v = None \<and> minted s v c a c'))"

lemma seal_attempt_ok:
  assumes "keys_now c v = None" and "pins c v = None"
  shows "prepared_ok s v c (seal_attempt s v what json header env c)"
  using mint_and_pin_cases [OF assms(1)] assms(2)
  by (fastforce simp: seal_attempt_def prepared_ok_def split: sum.splits prod.splits)

text \<open>Consuming the held nonce is invisible to the retry state.\<close>

lemma nonce_invisible [simp]:
  "high_water (c\<lparr>cl_pop_nonce := n\<rparr>) = high_water c" "fresh_number (c\<lparr>cl_pop_nonce := n\<rparr>) = fresh_number c"
  by (simp_all add: high_water_def fresh_number_def)

lemma quiet_nonce [simp]: "quiet (c\<lparr>cl_pop_nonce := n\<rparr>) c' \<longleftrightarrow> quiet c c'" "quiet c (c\<lparr>cl_pop_nonce := n\<rparr>)"
  by (simp_all add: quiet_def)

lemma minted_nonce [simp]: "minted s v (c\<lparr>cl_pop_nonce := n\<rparr>) a c' \<longleftrightarrow> minted s v c a c'"
  by (simp add: minted_def)

lemma prepared_nonce [simp]: "prepared_ok s v (c\<lparr>cl_pop_nonce := n\<rparr>) r \<longleftrightarrow> prepared_ok s v c r"
  by (simp add: prepared_ok_def split: prod.split sum.split)

lemma take_nonce_state: "take_nonce now c = (x, c') \<Longrightarrow> c' = c\<lparr>cl_pop_nonce := None\<rparr>"
  by (simp add: take_nonce_def)

lemma pinned_in_step:
  assumes "in_step c"
  shows "pinned_attempt v c = (pins c v, c)"
  using assms by (auto simp: pinned_attempt_def pins_def in_step_def split: option.splits)

lemma build_ok:
  assumes "in_step c" and "pins c (intent_verb i) = None"
  shows "prepared_ok s (intent_verb i) c (build_attempt s i held ch env c)"
proof -
  have "keys_now c (intent_verb i) = None" using assms by (simp add: in_step_def)
  then show ?thesis
    using assms(2) by (cases i) (auto simp: prepared_ok_def [where r = "(Inl _, _)"] intro: seal_attempt_ok split: option.split)
qed

text \<open>A step of a call towards its POST: what is posted was pinned or freshly minted.\<close>

definition stage_ok :: "'k client_setup \<Rightarrow> attempt_verb \<Rightarrow> client \<Rightarrow> call_stage \<times> client \<Rightarrow> bool" where
  "stage_ok s v c r \<longleftrightarrow>
     (case r of
        (Stops x, c') \<Rightarrow> quiet c c'
      | (Fetches i held, c') \<Rightarrow> intent_verb i = v \<and> pins c v = None \<and> quiet c c'
      | (Posts a established, c') \<Rightarrow> pa_verb a = v \<and>
          ((pins c v = Some a \<and> quiet c c') \<or> (pins c v = None \<and> minted s v c a c')))"

lemma posting_ok:
  assumes "in_step c" and "prepared_ok s v c r"
  shows "stage_ok s v c (posting i r)"
  using assms by (fastforce simp: posting_def stage_ok_def prepared_ok_def in_step_def minted_def split: prod.split sum.split)

lemma stage_nonce [simp]: "stage_ok s v (c\<lparr>cl_pop_nonce := n\<rparr>) r \<longleftrightarrow> stage_ok s v c r"
  by (simp add: stage_ok_def split: prod.split call_stage.split)

lemma in_step_nonce [simp]: "in_step (c\<lparr>cl_pop_nonce := n\<rparr>) \<longleftrightarrow> in_step c"
  by (simp add: in_step_def)

lemma keys_ok:
  assumes "in_step c"
  shows "stage_ok s (intent_verb i) c (keys_step s i env c)"
proof (cases "trust_check s (pe_keys env) (pe_now_trust env)")
  case (Inl e)
  then show ?thesis by (simp add: keys_step_def stage_ok_def)
next
  case (Inr keys)
  show ?thesis
  proof (cases "pins c (intent_verb i)")
    case (Some a)
    then have "pa_verb a = intent_verb i" using assms by (simp add: in_step_def)
    then show ?thesis using Some Inr by (simp add: keys_step_def pinned_in_step [OF assms] stage_ok_def)
  next
    case None
    obtain x where t: "take_nonce (pe_now_nonce env) c = (x, c\<lparr>cl_pop_nonce := None\<rparr>)" by (simp add: take_nonce_def)
    have "stage_ok s (intent_verb i) (c\<lparr>cl_pop_nonce := None\<rparr>)
        (posting i (build_attempt s i held ch env (c\<lparr>cl_pop_nonce := None\<rparr>)))" for held ch
      using assms None by (intro posting_ok build_ok) simp_all
    then show ?thesis
      using Inr None t by (cases x) (auto simp: keys_step_def pinned_in_step [OF assms] stage_ok_def [where r = "(Fetches _ _, _)"])
  qed
qed

lemma challenge_ok:
  assumes "in_step c" and "pins c (intent_verb i) = None"
  shows "stage_ok s (intent_verb i) c (challenge_step s i held env c)"
proof (cases "fresh_challenge (if i = ActivateIntent then ''activate'' else ''device-PoP'') env")
  case (Inl e)
  then show ?thesis by (simp only: challenge_step_def sum.case) (simp add: stage_ok_def)
next
  case (Inr ch)
  then show ?thesis by (simp only: challenge_step_def sum.case posting_ok [OF assms(1) build_ok [OF assms]])
qed

text \<open>A received answer closes its verb's unit, any other leaves the retry state alone.\<close>

lemma clear_pending_state [simp]:
  "pins (clear_pending v c) = (pins c)(v := None)" "keys_now (clear_pending v c) = (keys_now c)(v := None)"
  "is_counter (cl_idempotency (clear_pending v c)) = is_counter (cl_idempotency c)" "cl_durable (clear_pending v c) = cl_durable c"
  by (auto simp: clear_pending_def rotate_idempotency_def pins_def keys_now_def pin.get_put cur.get_put)

definition retry_state :: "client \<Rightarrow> (attempt_verb \<Rightarrow> pending_attempt option) \<times> (attempt_verb \<Rightarrow> rstr option) \<times> nat \<times> nat" where
  "retry_state c = (pins c, keys_now c, is_counter (cl_idempotency c), cl_durable c)"

lemma accept_retry [simp]: "retry_state (snd (accept_lease s env l b c)) = retry_state c"
  by (auto simp: accept_lease_def retry_state_def remember_binding_id_def split: sum.split prod.split install_outcome.split)

lemma contact_retry [simp]: "retry_state (contact_done v n c) = retry_state (clear_pending v c)"
  by (simp add: contact_done_def remember_next_nonce_def retry_state_def)

lemma on_error_retry [simp]:
  "retry_state (snd (on_error v e c)) = (if definitive e then retry_state (clear_pending v c) else retry_state c)"
  by (simp add: on_error_def reset_on_rejection_def retry_state_def)

lemma reply_retry:
  "retry_state (reply_received r c) =
     (if received r then retry_state (clear_pending (reply_verb r) c) else retry_state c)"
  by (simp add: reply_received_def split: server_reply.split sum.split)

section \<open>The law of the trace\<close>

fun unit_event :: "attempt_verb \<Rightarrow> hb_event \<Rightarrow> rstr option \<Rightarrow> rstr option" where
  "unit_event v (Posted w k b h) u = (if w = v then Some k else u)"
| "unit_event v (Received k) u = (if u = Some k then None else u)"
| "unit_event v Restarted u = None"

text \<open>The key whose POST of this verb still awaits an answer.\<close>

definition open_unit :: "attempt_verb \<Rightarrow> hb_event list \<Rightarrow> rstr option" where
  "open_unit v tr = fold (unit_event v) tr None"

fun lawful :: "'k client_setup \<Rightarrow> nat \<Rightarrow> hb_event list \<Rightarrow> hb_event \<Rightarrow> bool" where
  "lawful s d0 xs (Posted v k b h) \<longleftrightarrow>
     (\<exists>n > d0. k = mint_key (di_machine_id (su_identity s)) n) \<and> Received k \<notin> set xs \<and> open_unit v xs \<in> {None, Some k} \<and>
     (\<forall>v' b' h'. Posted v' k b' h' \<in> set xs \<longrightarrow> v' = v \<and> b' = b \<and> h' = h)"
| "lawful s d0 xs (Received k) \<longleftrightarrow> (\<exists>v b h. Posted v k b h \<in> set xs)"
| "lawful s d0 xs Restarted \<longleftrightarrow> True"

definition every :: "('a list \<Rightarrow> 'a \<Rightarrow> bool) \<Rightarrow> 'a list \<Rightarrow> bool" where
  "every P tr \<longleftrightarrow> (\<forall>xs e ys. tr = xs @ e # ys \<longrightarrow> P xs e)"

lemma every_Nil [simp]: "every P []"
  by (simp add: every_def)

lemma every_snoc [simp]: "every P (tr @ [e]) \<longleftrightarrow> every P tr \<and> P tr e"
proof
  assume "every P (tr @ [e])"
  then show "every P tr \<and> P tr e" unfolding every_def by (metis append.assoc append_Cons append_Nil2 append_self_conv)
next
  assume h: "every P tr \<and> P tr e"
  show "every P (tr @ [e])" unfolding every_def
  proof (intro allI impI)
    fix xs x ys assume eq: "tr @ [e] = xs @ x # ys"
    show "P xs x"
      by (cases ys rule: rev_cases) (use eq h in \<open>auto simp: every_def simp flip: append_assoc append_Cons\<close>)
  qed
qed

lemma open_unit_snoc [simp]: "open_unit v (tr @ [e]) = unit_event v e (open_unit v tr)"
  by (simp add: open_unit_def)

lemma mint_key_inj [simp]: "mint_key m a = mint_key m b \<longleftrightarrow> a = b"
  by (auto simp: mint_key_def dest: decimal_inj)

definition numbered :: "'k client_setup \<Rightarrow> nat \<Rightarrow> nat \<Rightarrow> rstr \<Rightarrow> bool" where
  "numbered s d0 d k \<longleftrightarrow> (\<exists>n. d0 < n \<and> n \<le> d \<and> k = mint_key (di_machine_id (su_identity s)) n)"

lemma numbered_mono: "numbered s d0 d k \<Longrightarrow> d \<le> d' \<Longrightarrow> numbered s d0 d' k"
  by (auto simp: numbered_def)

fun event_key :: "hb_event \<Rightarrow> rstr option" where
  "event_key (Posted v k b h) = Some k" | "event_key (Received k) = Some k" | "event_key Restarted = None"

text \<open>The retry state and what was posted tell the same story.\<close>

definition story :: "'k client_setup \<Rightarrow> nat \<Rightarrow> client \<Rightarrow> hb_event list \<Rightarrow> bool" where
  "story s d0 c tr \<longleftrightarrow>
     in_step c \<and> d0 \<le> cl_durable c \<and> every (lawful s d0) tr \<and>
     (\<forall>e \<in> set tr. \<forall>k \<in> set_option (event_key e). numbered s d0 (cl_durable c) k) \<and>
     (\<forall>v. open_unit v tr = map_option pa_idempotency_key (pins c v)) \<and>
     (\<forall>v a. pins c v = Some a \<longrightarrow>
        Posted v (pa_idempotency_key a) (pa_body a) (pa_pop_header a) \<in> set tr \<and> Received (pa_idempotency_key a) \<notin> set tr) \<and>
     (\<forall>v b h v' b' h' k. Posted v k b h \<in> set tr \<longrightarrow> Posted v' k b' h' \<in> set tr \<longrightarrow> v' = v \<and> b' = b \<and> h' = h)"

text \<open>What a call under way relies on.\<close>

fun relies_ok :: "client \<Rightarrow> call_phase \<Rightarrow> bool" where
  "relies_ok c (AwaitChallenge i held) \<longleftrightarrow> pins c (intent_verb i) = None"
| "relies_ok c (AwaitReply a established) \<longleftrightarrow> pins c (pa_verb a) = Some a"
| "relies_ok c _ \<longleftrightarrow> True"

definition hb_inv :: "'k client_setup \<Rightarrow> nat \<Rightarrow> hb_system \<Rightarrow> bool" where
  "hb_inv s d0 y \<longleftrightarrow> story s d0 (sy_client y) (sy_trace y) \<and> (\<forall>p \<in> set (sy_calls y). relies_ok (sy_client y) p)"

section \<open>Every step keeps the law\<close>

lemma fresh_exact:
  "in_step c \<Longrightarrow> cl_durable c < 2 ^ 64 - 1 \<Longrightarrow> fresh_number c = Suc (cl_durable c)"
  by (simp add: fresh_number_def usat_add_def high_water_def in_step_def max_def)

lemma story_same:
  assumes "story s d0 c tr" and "retry_state c' = retry_state c"
  shows "story s d0 c' tr"
  using assms by (simp add: story_def in_step_def retry_state_def)

lemma story_quiet:
  assumes st: "story s d0 c tr" and q: "quiet c c'" and d: "cl_durable c < 2 ^ 64 - 1"
  shows "story s d0 c' tr \<and> cl_durable c' \<le> Suc (cl_durable c)"
proof -
  have "in_step c" using st by (simp add: story_def)
  then have le: "cl_durable c \<le> cl_durable c'" "cl_durable c' \<le> Suc (cl_durable c)"
    using q fresh_exact d by (auto simp: quiet_def)
  have "pins c' = pins c" "keys_now c' = keys_now c" "in_step c'"
    using q st le by (auto simp: quiet_def in_step_def story_def)
  with st le show ?thesis
    by (simp add: story_def) (meson numbered_mono)
qed

lemma story_repost:
  assumes st: "story s d0 c tr" and p: "pins c (pa_verb a) = Some a"
  shows "story s d0 c (tr @ [Posted (pa_verb a) (pa_idempotency_key a) (pa_body a) (pa_pop_header a)])"
proof -
  let ?e = "Posted (pa_verb a) (pa_idempotency_key a) (pa_body a) (pa_pop_header a)"
  have old: "?e \<in> set tr" and opn: "open_unit (pa_verb a) tr = Some (pa_idempotency_key a)"
    and nr: "Received (pa_idempotency_key a) \<notin> set tr"
    using st p by (simp_all add: story_def)
  have num: "numbered s d0 (cl_durable c) (pa_idempotency_key a)"
    using st old unfolding story_def by (metis event_key.simps(1) option.set_intros)
  have uniq: "\<forall>v' b' h'. Posted v' (pa_idempotency_key a) b' h' \<in> set tr \<longrightarrow> v' = pa_verb a \<and> b' = pa_body a \<and> h' = pa_pop_header a"
    using st old unfolding story_def by blast
  have "lawful s d0 tr ?e" using num nr opn uniq by (auto simp: numbered_def)
  moreover have "set (tr @ [?e]) = set tr" using old by auto
  moreover have "open_unit v (tr @ [?e]) = open_unit v tr" for v using opn by auto
  ultimately show ?thesis using st p unfolding story_def by simp
qed

lemma story_mint:
  assumes st: "story s d0 c tr" and none: "pins c (pa_verb a) = None" and m: "minted s (pa_verb a) c a c'"
    and d: "cl_durable c < 2 ^ 64 - 1"
  shows "story s d0 c' (tr @ [Posted (pa_verb a) (pa_idempotency_key a) (pa_body a) (pa_pop_header a)]) \<and>
    cl_durable c' = Suc (cl_durable c)"
proof -
  let ?k = "pa_idempotency_key a" and ?d = "cl_durable c"
  have step: "in_step c" and d0: "d0 \<le> ?d" using st by (simp_all add: story_def)
  have fresh: "fresh_number c = Suc ?d" by (rule fresh_exact [OF step d])
  then have key: "?k = mint_key (di_machine_id (su_identity s)) (Suc ?d)" and dur: "cl_durable c' = Suc ?d"
    and cnt: "is_counter (cl_idempotency c') = Suc ?d"
    and pins: "pins c' = (pins c)(pa_verb a \<mapsto> a)" and keys: "keys_now c' = (keys_now c)(pa_verb a \<mapsto> ?k)"
    using m by (simp_all add: minted_def)
  have nums: "\<forall>e \<in> set tr. \<forall>k \<in> set_option (event_key e). numbered s d0 ?d k" using st by (simp add: story_def)
  have new: "\<forall>e \<in> set tr. event_key e \<noteq> Some ?k"
    using nums by (fastforce simp: numbered_def key)
  then have new': "Received ?k \<notin> set tr" "\<forall>v b h. Posted v ?k b h \<notin> set tr" by force+
  have law: "lawful s d0 tr (Posted (pa_verb a) ?k (pa_body a) (pa_pop_header a))"
    using new' st none d0 by (auto simp: story_def key)
  have "in_step c'" using step by (auto simp: in_step_def pins keys dur cnt)
  moreover have "numbered s d0 (Suc ?d) ?k" using d0 by (auto simp: numbered_def key)
  moreover have "\<forall>e \<in> set tr. \<forall>k \<in> set_option (event_key e). numbered s d0 (Suc ?d) k" using nums numbered_mono le_SucI by blast
  ultimately show ?thesis using st law new' dur d0 unfolding story_def by (auto simp: pins)
qed

lemma story_answer:
  assumes st: "story s d0 c tr" and pin: "pins c v = Some a" and c': "retry_state c' = retry_state (clear_pending v c)"
  shows "story s d0 c' (tr @ [Received (pa_idempotency_key a)])"
proof -
  have c: "pins c' = (pins c)(v := None)" "keys_now c' = (keys_now c)(v := None)"
    "is_counter (cl_idempotency c') = is_counter (cl_idempotency c)" "cl_durable c' = cl_durable c"
    using c' by (simp_all add: retry_state_def)
  have posted: "Posted v (pa_idempotency_key a) (pa_body a) (pa_pop_header a) \<in> set tr"
    using st pin unfolding story_def by blast
  have other: "pa_idempotency_key b \<noteq> pa_idempotency_key a" if "pins c w = Some b" "w \<noteq> v" for w b
  proof
    assume "pa_idempotency_key b = pa_idempotency_key a"
    moreover have "Posted w (pa_idempotency_key b) (pa_body b) (pa_pop_header b) \<in> set tr"
      using st that unfolding story_def by blast
    ultimately show False using st posted that(2) unfolding story_def by metis
  qed
  have num: "numbered s d0 (cl_durable c) (pa_idempotency_key a)"
    using st posted unfolding story_def by (metis event_key.simps(1) option.set_intros)
  have law: "lawful s d0 tr (Received (pa_idempotency_key a))" using posted by auto
  have opn: "unit_event w (Received (pa_idempotency_key a)) (open_unit w tr) = map_option pa_idempotency_key (pins c' w)" for w
    using st pin other by (cases "pins c w") (auto simp: story_def c)
  have "in_step c'" using st by (auto simp: story_def in_step_def c)
  then show ?thesis using st num law opn other c unfolding story_def by simp
qed

lemma assembled [simp]:
  "pins (client_assemble st d) v = None" "keys_now (client_assemble st d) v = None"
  "is_counter (cl_idempotency (client_assemble st d)) = 0" "cl_durable (client_assemble st d) = d"
  by (cases v, simp_all add: pins_def keys_now_def client_assemble_def)+

lemma story_restart: "story s d0 c tr \<Longrightarrow> story s d0 (client_assemble st (cl_durable c)) (tr @ [Restarted])"
  by (simp add: story_def in_step_def)

subsection \<open>Steps of one call\<close>

text \<open>While one call of a verb moves, the calls of the other verbs keep what they rely on.\<close>

lemma relies_pins: "(\<And>v. phase_verb p = Some v \<Longrightarrow> pins c' v = pins c v) \<Longrightarrow> relies_ok c' p \<longleftrightarrow> relies_ok c p"
  by (cases p) simp_all

lemma others_kept:
  assumes one: "one_per_verb y" and i: "i < length (sy_calls y)" and v: "phase_verb (sy_calls y ! i) = Some v"
    and ok: "\<forall>p \<in> set (sy_calls y). relies_ok (sy_client y) p" and same: "\<And>w. w \<noteq> v \<Longrightarrow> pins c w = pins (sy_client y) w"
    and new: "relies_ok c p'"
  shows "\<forall>p \<in> set ((sy_calls y)[i := p']). relies_ok c p"
proof
  fix p assume "p \<in> set ((sy_calls y)[i := p'])"
  then obtain j where j: "j < length (sy_calls y)" "p = (sy_calls y)[i := p'] ! j" by (auto simp: in_set_conv_nth)
  show "relies_ok c p"
  proof (cases "j = i")
    case True
    then show ?thesis using j new by simp
  next
    case False
    then have p: "p = sy_calls y ! j" using j by simp
    have "phase_verb p \<noteq> Some v" using one i j(1) v False unfolding one_per_verb_def p by force
    then have "relies_ok c p \<longleftrightarrow> relies_ok (sy_client y) p" by (intro relies_pins) (use same in auto)
    then show ?thesis using ok j(1) p by simp
  qed
qed

lemma inv_goes_on:
  assumes inv: "hb_inv s d0 y" and one: "one_per_verb y" and d: "cl_durable (sy_client y) < 2 ^ 64 - 1"
    and i: "i < length (sy_calls y)" and v: "phase_verb (sy_calls y ! i) = Some v" and r: "stage_ok s v (sy_client y) r"
  shows "hb_inv s d0 (goes_on i r y) \<and> cl_durable (sy_client (goes_on i r y)) \<le> Suc (cl_durable (sy_client y))"
proof -
  obtain x c where x: "r = (x, c)" by fastforce
  have st: "story s d0 (sy_client y) (sy_trace y)" and ok: "\<forall>p \<in> set (sy_calls y). relies_ok (sy_client y) p"
    using inv by (simp_all add: hb_inv_def)
  note kept = others_kept [OF one i v ok]
  have q: "story s d0 c (sy_trace y)" "cl_durable c \<le> Suc (cl_durable (sy_client y))" "pins c = pins (sy_client y)"
    if "quiet (sy_client y) c" using story_quiet [OF st that d] that by (simp_all add: quiet_def)
  show ?thesis
  proof (cases x)
    case (Stops z)
    then have "quiet (sy_client y) c" using r x by (simp add: stage_ok_def)
    then show ?thesis using q kept [of c Ended] Stops x by (simp add: hb_inv_def goes_on_def)
  next
    case (Fetches t held)
    then have "quiet (sy_client y) c" "intent_verb t = v" "pins (sy_client y) v = None" using r x by (simp_all add: stage_ok_def)
    then show ?thesis using q kept [of c "AwaitChallenge t held"] Fetches x by (simp add: hb_inv_def goes_on_def)
  next
    case (Posts a established)
    have a: "pa_verb a = v" using r x Posts by (simp add: stage_ok_def)
    from r x Posts consider "pins (sy_client y) v = Some a" "quiet (sy_client y) c"
      | "pins (sy_client y) v = None" "minted s v (sy_client y) a c" by (auto simp: stage_ok_def)
    then show ?thesis
    proof cases
      case 1
      then show ?thesis using q [OF 1(2)] kept [of c "AwaitReply a established"] story_repost [of s d0 c "sy_trace y" a] Posts x a
        by (simp add: hb_inv_def goes_on_def)
    next
      case 2
      have "pins c = (pins (sy_client y))(v \<mapsto> a)" using 2 by (simp add: minted_def)
      then show ?thesis using kept [of c "AwaitReply a established"] story_mint [OF st, of a c] 2 d Posts x a
        by (simp add: hb_inv_def goes_on_def)
    qed
  qed
qed

lemma phase_under_way: "awaits y i \<noteq> Ended \<Longrightarrow> i < length (sy_calls y) \<and> sy_calls y ! i = awaits y i"
  by (simp add: awaits_def split: if_splits)

lemma in_step_inv: "hb_inv s d0 y \<Longrightarrow> in_step (sy_client y)"
  by (simp add: hb_inv_def story_def)

lemma relies_nth: "hb_inv s d0 y \<Longrightarrow> i < length (sy_calls y) \<Longrightarrow> relies_ok (sy_client y) (sy_calls y ! i)"
  by (simp add: hb_inv_def)

lemma inv_to_post:
  assumes "hb_inv s d0 y" and "one_per_verb y" and "cl_durable (sy_client y) < 2 ^ 64 - 1"
  shows "hb_inv s d0 (hb_step s (KeysIn i env) y) \<and>
      cl_durable (sy_client (hb_step s (KeysIn i env) y)) \<le> Suc (cl_durable (sy_client y))"
    and "hb_inv s d0 (hb_step s (ChallengeIn i env) y) \<and>
      cl_durable (sy_client (hb_step s (ChallengeIn i env) y)) \<le> Suc (cl_durable (sy_client y))"
proof -
  note p = phase_under_way [of y i] and go = inv_goes_on [OF assms, of i]
  show "hb_inv s d0 (hb_step s (KeysIn i env) y) \<and>
      cl_durable (sy_client (hb_step s (KeysIn i env) y)) \<le> Suc (cl_durable (sy_client y))"
    using assms(1) p go [OF _ _ keys_ok [OF in_step_inv [OF assms(1)]]] by (cases "awaits y i") simp_all
  show "hb_inv s d0 (hb_step s (ChallengeIn i env) y) \<and>
      cl_durable (sy_client (hb_step s (ChallengeIn i env) y)) \<le> Suc (cl_durable (sy_client y))"
  proof (cases "awaits y i")
    case (AwaitChallenge t held)
    then have i: "i < length (sy_calls y)" "sy_calls y ! i = AwaitChallenge t held" using p by simp_all
    then have "pins (sy_client y) (intent_verb t) = None" using relies_nth [OF assms(1)] by fastforce
    then show ?thesis using AwaitChallenge go [OF i(1) _ challenge_ok [OF in_step_inv [OF assms(1)]]] i by simp
  qed (use assms(1) in simp_all)
qed

lemma inv_answer:
  assumes inv: "hb_inv s d0 y" and one: "one_per_verb y"
  shows "hb_inv s d0 (hb_step s (Answer i r) y) \<and>
    cl_durable (sy_client (hb_step s (Answer i r) y)) = cl_durable (sy_client y)"
proof (cases "awaits y i")
  case (AwaitReply a established)
  then have i: "i < length (sy_calls y)" "sy_calls y ! i = AwaitReply a established" using phase_under_way [of y i] by simp_all
  then have pin: "pins (sy_client y) (pa_verb a) = Some a" using relies_nth [OF inv] by fastforce
  have st: "story s d0 (sy_client y) (sy_trace y)" and ok: "\<forall>p \<in> set (sy_calls y). relies_ok (sy_client y) p"
    using inv by (simp_all add: hb_inv_def)
  let ?c = "reply_received r (sy_client y)" and ?p = "case reply_lease r of None \<Rightarrow> Ended | Some l \<Rightarrow> AwaitTrust (reply_verb r) l (anchor r established)"
  have new: "relies_ok c ?p" for c by (simp split: option.split)
  note r = reply_retry [of r "sy_client y"]
  then have same: "pins ?c w = pins (sy_client y) w" if "w \<noteq> reply_verb r" for w
    using that by (auto simp: retry_state_def split: if_splits)
  have "cl_durable ?c = cl_durable (sy_client y)" using r by (auto simp: retry_state_def split: if_splits)
  moreover have "story s d0 ?c (sy_trace y @ (if received r then [Received (pa_idempotency_key a)] else []))"
    if "reply_verb r = pa_verb a" using r that story_answer [OF st pin, of ?c] story_same [OF st, of ?c] by auto
  ultimately show ?thesis
    using AwaitReply inv others_kept [OF one i(1) _ ok, of "pa_verb a" ?c ?p] same new i by (simp add: hb_inv_def)
qed (use inv in simp_all)

lemma inv_rest:
  assumes inv: "hb_inv s d0 y"
  shows "hb_inv s d0 (hb_step s (Begin call now) y)" "hb_inv s d0 (hb_step s (TrustIn i aenv) y)"
    "hb_inv s d0 (hb_step s (Abandon i) y)" "hb_inv s d0 (hb_step s (StoreChange st) y)" "hb_inv s d0 (hb_step s (Restart st) y)"
    "cl_durable (sy_client (hb_step s (TrustIn i aenv) y)) = cl_durable (sy_client y)"
proof -
  have ended: "\<forall>p \<in> set ((sy_calls y)[i := Ended]). relies_ok c p" if "pins c = pins (sy_client y)" for c
    using inv that relies_pins [of _ c "sy_client y"] set_update_subset_insert [of "sy_calls y" i Ended] by (fastforce simp: hb_inv_def)
  show "hb_inv s d0 (hb_step s (Begin call now) y)" using inv by (auto simp: hb_inv_def split: sum.split)
  show "hb_inv s d0 (hb_step s (Abandon i) y)" using inv ended [of "sy_client y"] by (simp add: hb_inv_def)
  show "hb_inv s d0 (hb_step s (Restart st) y)" using inv by (simp add: hb_inv_def story_restart)
  have st: "retry_state ((sy_client y)\<lparr>cl_store := st\<rparr>) = retry_state (sy_client y)" by (simp add: retry_state_def)
  then have "pins ((sy_client y)\<lparr>cl_store := st\<rparr>) = pins (sy_client y)" by simp
  then show "hb_inv s d0 (hb_step s (StoreChange st) y)"
    using inv relies_pins [of _ "(sy_client y)\<lparr>cl_store := st\<rparr>" "sy_client y"] by (simp add: hb_inv_def story_same [OF _ st])
  have a: "retry_state (snd (accept_lease s aenv l b (sy_client y))) = retry_state (sy_client y)" for l b by simp
  then have "pins (snd (accept_lease s aenv l b (sy_client y))) = pins (sy_client y)"
    "cl_durable (snd (accept_lease s aenv l b (sy_client y))) = cl_durable (sy_client y)" for l b
    unfolding retry_state_def by simp_all
  then show "hb_inv s d0 (hb_step s (TrustIn i aenv) y)"
    "cl_durable (sy_client (hb_step s (TrustIn i aenv) y)) = cl_durable (sy_client y)"
    using inv ended by (cases "awaits y i"; simp add: hb_inv_def story_same [OF _ a])+
qed

lemma durable_rest [simp]:
  "cl_durable (sy_client (hb_step s (Begin call now) y)) = cl_durable (sy_client y)"
  "cl_durable (sy_client (hb_step s (Abandon i) y)) = cl_durable (sy_client y)"
  "cl_durable (sy_client (hb_step s (StoreChange st) y)) = cl_durable (sy_client y)"
  "cl_durable (sy_client (hb_step s (Restart st) y)) = cl_durable (sy_client y)"
  by (simp_all split: sum.split)

lemma inv_step:
  assumes "hb_inv s d0 y" and "one_per_verb y" and "cl_durable (sy_client y) < 2 ^ 64 - 1"
  shows "hb_inv s d0 (hb_step s act y) \<and> cl_durable (sy_client (hb_step s act y)) \<le> Suc (cl_durable (sy_client y))"
  using inv_to_post [OF assms] inv_answer [OF assms(1,2)] inv_rest [OF assms(1)]
  by (cases act) (simp_all only: durable_rest le_SucI order_refl simp_thms)

lemma inv_start: "hb_inv s d (hb_start st d)"
  by (simp add: hb_inv_def story_def hb_start_def in_step_def open_unit_def)

lemma inv_run:
  "d0 + length acts < 2 ^ 64 \<Longrightarrow> never_overlapping s st d0 acts \<Longrightarrow>
     hb_inv s d0 (hb_run s st d0 acts) \<and> cl_durable (sy_client (hb_run s st d0 acts)) \<le> d0 + length acts"
proof (induction acts rule: rev_induct)
  case Nil
  then show ?case using inv_start [of s d0 st] by (simp add: hb_run_def hb_start_def client_assemble_def)
next
  case (snoc act acts)
  let ?y = "hb_run s st d0 acts"
  have one: "one_per_verb ?y"
    using snoc.prems(2) unfolding never_overlapping_def by (metis append_eq_conv_conj length_append_singleton lessI)
  have "never_overlapping s st d0 acts" using snoc.prems(2) by (fastforce simp: never_overlapping_def)
  then have "hb_inv s d0 ?y" "cl_durable (sy_client ?y) < 2 ^ 64 - 1" "cl_durable (sy_client ?y) \<le> d0 + length acts"
    using snoc by auto
  from inv_step [OF this(1) one this(2), of act] this(3) show ?case by (simp add: hb_run_def)
qed

text \<open>C35: Retry units never mix. Take any run of the client, its calls interleaved at every await with calls
  of other verbs, dropped calls, leases from other surfaces and restarts, whatever the clocks, the
  server and the durable store answer, in which no two calls of one verb are ever under way together
  and the durable counter cannot reach its limit. (The client does not enforce the first condition;
  two overlapping rebinds break the claim, see below.) Then each POST carries a numbered key above
  every number of an earlier lifetime; POSTs with one key are one verb, one body and one proof, byte
  for byte; a key is never posted again once its answer was received; and a verb posts a new key only
  when its previous one was answered or the process restarted, so an unanswered POST is replayed and
  nothing else.\<close>

theorem retry_units_never_mix:
  assumes "d0 + length acts < 2 ^ 64" and "never_overlapping s st d0 acts"
    and "sy_trace (hb_run s st d0 acts) = xs @ Posted v k b h # ys"
  shows "(\<exists>n > d0. k = mint_key (di_machine_id (su_identity s)) n) \<and>
    (\<forall>v' b' h'. Posted v' k b' h' \<in> set xs \<longrightarrow> v' = v \<and> b' = b \<and> h' = h) \<and>
    Received k \<notin> set xs \<and> open_unit v xs \<in> {None, Some k}"
proof -
  have "every (lawful s d0) (sy_trace (hb_run s st d0 acts))" using inv_run [OF assms(1,2)] by (simp add: hb_inv_def story_def)
  then have "lawful s d0 xs (Posted v k b h)" using assms(3) unfolding every_def by blast
  then show ?thesis by auto
qed

definition demo_setup :: "bytes client_setup" where
  "demo_setup = \<lparr>su_packages = \<lparr>pk_crypto = demo_crypto, pk_heartbeat_json = (\<lambda>r. Inr (hr_nonce r)), pk_activate_json = (\<lambda>r. Inr (ar_nonce r)),
       pk_rebind_json = (\<lambda>r. Inr (rr_nonce r)), pk_deactivate_json = (\<lambda>r. Inr (dr_nonce r)), pk_from_ms = Some, pk_seal_key = [1],
       pk_seal_sign = (\<lambda>_. replicate 64 0)\<rparr>,
     su_pinned = \<lparr>pr_sec1 = [4]\<rparr>, su_config = client_config_default,
     su_identity = \<lparr>di_machine_id = [77], di_fingerprint_digest = [], di_fingerprint_score = 90, di_binding_id = Some [66],
       di_app_version = [], di_instance_id = [73], di_hardware_digest = [], di_instance_discriminator_hash = [],
       di_instance_discriminator_digest = [], di_device_public_key_b64url = []\<rparr>,
     su_signer = Some \<lparr>ds_public_key = [], ds_sign = (\<lambda>_. [7])\<rparr>\<rparr>"

definition demo_env :: prepare_env where
  "demo_env = \<lparr>pe_keys = Inr demo_keys, pe_now_trust = 7, pe_now_nonce = 7,
     pe_challenge = Inr \<lparr>dc_nonce = replicate 64 48, dc_expires_at_ms = 0, dc_instance_id = []\<rparr>, pe_now_challenge = 7,
     pe_now_iat = 7000, pe_load_error = None, pe_commit_error = None\<rparr>"

definition demo_accept :: accept_env where
  "demo_accept = \<lparr>ae_now_due = 7, ae_now_accept = 7, ae_keys = Inr demo_keys, ae_system_now = 0, ae_now_install = 7\<rparr>"

definition demo_post :: pending_attempt where
  "demo_post = \<lparr>pa_verb = Deactivate, pa_idempotency_key = mint_key [77] 1, pa_body = replicate 64 48, pa_pop_header = [7]\<rparr>"

lemma demo_header:
  "d \<in> {48, 49} \<Longrightarrow> pop_header_for demo_setup verb inst now body (replicate 64 d) = Inr [7]"
proof -
  assume "d \<in> {48, 49}"
  then have "nonce_hex_to_raw demo_crypto (replicate 64 d) = Inr (replicate 32 0)"
    by (auto simp: nonce_hex_to_raw_def is_hex_digit_def demo_crypto_def)
  then show ?thesis
    by (simp add: pop_header_for_def pop_header_value_def canonical_pop_preimage_def demo_setup_def, simp add: demo_crypto_def)
qed

text \<open>The first attempt of a verb in a new process, and the client that has pinned it.\<close>

definition demo_attempt :: "attempt_verb \<Rightarrow> pending_attempt" where
  "demo_attempt v = \<lparr>pa_verb = v, pa_idempotency_key = mint_key [77] 1, pa_body = replicate 64 48, pa_pop_header = [7]\<rparr>"

definition demo_pinned :: "attempt_verb \<Rightarrow> pending_attempt \<Rightarrow> client" where
  "demo_pinned v a = (let c = client_assemble store_new 0 in pin_attempt a (c\<lparr>cl_durable := 1,
     cl_idempotency := is_put v (Some (mint_key [77] 1)) ((cl_idempotency c)\<lparr>is_counter := 1\<rparr>)\<rparr>))"

lemma demo_binding:
  "resolve_binding_id demo_setup (client_assemble store_new 0) = Some [66]"
  "resolve_binding_id demo_setup (demo_pinned v a) = Some [66]"
  by (simp_all add: resolve_binding_id_def client_binding_id_def client_assemble_def store_new_def sto_binding_id_def demo_setup_def
      demo_pinned_def pin_attempt_def Let_def)

lemma demo_trust_ok: "trust_check demo_setup (Inr demo_keys) 7 = Inr [(str ''k'', replicate 32 1)]"
  by (simp add: trust_check_def demo_setup_def demo_trust)

lemma demo_env_trust: "pe_keys demo_env = Inr demo_keys" "pe_now_trust demo_env = 7"
  by (simp_all add: demo_env_def)

lemma demo_json:
  "pk_deactivate_json (su_packages demo_setup) (build_deactivate_request b n) = Inr n"
  "pk_rebind_json (su_packages demo_setup) (build_rebind_request_for (su_identity demo_setup) l b \<lparr>dc_nonce = n, dc_expires_at_ms = t, dc_instance_id = i\<rparr>) = Inr n"
  by (simp_all add: demo_setup_def build_deactivate_request_def build_rebind_request_for_def)

text \<open>The key document arrives in a new process: no attempt is pinned and no nonce held.\<close>

lemma demo_keys_step:
  assumes "i \<noteq> ActivateIntent"
  shows "keys_step demo_setup i demo_env (client_assemble store_new 0) = (Fetches i None, client_assemble store_new 0)"
proof -
  have "pinned_attempt v (client_assemble store_new 0) = (None, client_assemble store_new 0)" for v
    by (cases v) (simp_all add: pinned_attempt_def client_assemble_def)
  moreover have "take_nonce n (client_assemble store_new 0) = (None, client_assemble store_new 0)" for n
    by (simp add: take_nonce_def client_assemble_def)
  moreover have "held_serial (client_assemble store_new 0) = None"
    by (simp add: held_serial_def client_assemble_def store_new_def sto_current_def)
  ultimately show ?thesis using assms by (simp add: keys_step_def demo_trust_ok demo_env_trust)
qed

definition demo_challenge :: "byte \<Rightarrow> prepare_env" where
  "demo_challenge d = demo_env\<lparr>pe_challenge := Inr \<lparr>dc_nonce = replicate 64 d, dc_expires_at_ms = 0, dc_instance_id = []\<rparr>\<rparr>"

lemma demo_fresh: "fresh_challenge what (demo_challenge d) = Inr \<lparr>dc_nonce = replicate 64 d, dc_expires_at_ms = 0, dc_instance_id = []\<rparr>"
  by (simp add: fresh_challenge_def demo_challenge_def demo_env_def)

lemma demo_mint:
  "mint_and_pin demo_setup v (replicate 64 48) [7] (demo_challenge d) (client_assemble store_new 0) =
     (Inr (demo_attempt v), demo_pinned v (demo_attempt v))"
  by (cases v) (simp_all add: mint_and_pin_def idempotency_key_def client_assemble_def demo_env_def demo_challenge_def usat_add_def Let_def
      demo_attempt_def demo_pinned_def demo_setup_def)

lemma demo_challenge_step:
  "challenge_step demo_setup (DeactivateIntent [66]) None (demo_challenge 48) (client_assemble store_new 0) =
     (Posts (demo_attempt Deactivate) None, demo_pinned Deactivate (demo_attempt Deactivate))"
  "challenge_step demo_setup (RebindIntent l [66]) None (demo_challenge 48) (client_assemble store_new 0) =
     (Posts (demo_attempt Rebind) None, demo_pinned Rebind (demo_attempt Rebind))"
  by (simp_all add: challenge_step_def demo_fresh seal_attempt_def build_lifecycle_pop_header_def demo_json demo_header demo_mint posting_def)

lemma demo_repost:
  "keys_step demo_setup (DeactivateIntent [66]) demo_env (demo_pinned Deactivate (demo_attempt Deactivate)) =
     (Posts (demo_attempt Deactivate) None, demo_pinned Deactivate (demo_attempt Deactivate))"
proof -
  have "pinned_attempt Deactivate (demo_pinned Deactivate (demo_attempt Deactivate)) =
      (Some (demo_attempt Deactivate), demo_pinned Deactivate (demo_attempt Deactivate))"
    by (simp add: pinned_attempt_def demo_pinned_def pin_attempt_def demo_attempt_def Let_def)
  then show ?thesis by (simp add: keys_step_def demo_trust_ok demo_env_trust)
qed

lemmas demo_steps = hb_run_def hb_start_def demo_binding demo_keys_step demo_challenge_step demo_repost awaits_def goes_on_def
  reply_received_def on_error_def definitive_def

text \<open>A deactivate whose answer is lost, with a renewal under way, is posted again, unchanged.\<close>

lemma retry_units_never_mix_witness:
  "\<exists>xs ys. sy_trace (hb_run demo_setup store_new 0
      [Begin DeactivateCall 7, Begin Cycle 7, KeysIn 0 demo_env, ChallengeIn 0 (demo_challenge 48),
       Answer 0 (DeactivateReply (Inl (HE_Transport []))), Begin DeactivateCall 7, KeysIn 2 demo_env]) =
    xs @ Posted Deactivate (mint_key [77] 1) (replicate 64 48) [7] # ys \<and>
    xs = [Posted Deactivate (mint_key [77] 1) (replicate 64 48) [7]] \<and> Received (mint_key [77] 1) \<notin> set xs"
proof -
  let ?e = "Posted Deactivate (mint_key [77] 1) (replicate 64 48) [7]"
  let ?acts = "[Begin DeactivateCall 7, Begin Cycle 7, KeysIn 0 demo_env, ChallengeIn 0 (demo_challenge 48),
       Answer 0 (DeactivateReply (Inl (HE_Transport []))), Begin DeactivateCall 7, KeysIn 2 demo_env]"
  have t: "sy_trace (hb_run demo_setup store_new 0 ?acts) = [?e] @ ?e # []"
    by (simp add: demo_steps) (simp add: demo_attempt_def)
  have "never_overlapping demo_setup store_new 0 ?acts"
    by (simp add: never_overlapping_def All_less_Suc one_per_verb_def demo_steps) (simp add: demo_attempt_def)
  from retry_units_never_mix [OF _ this t] t show ?thesis by fastforce
qed

section \<open>Overlapping calls\<close>

text \<open>Nothing keeps an operator from asking for a second rebind while the first awaits its challenge. Both
  calls build a body of their own, and the second is given the key the first has just minted: one key
  is posted with two bodies, which the type of the pinned attempt says cannot happen.\<close>

lemma overlapping_calls_mix:
  "sy_trace (hb_run demo_setup store_new 0
      [Begin (RebindCall l) 7, Begin (RebindCall l) 7, KeysIn 0 demo_env, KeysIn 1 demo_env,
       ChallengeIn 0 (demo_challenge 48), ChallengeIn 1 (demo_challenge 49)]) =
    [Posted Rebind (mint_key [77] 1) (replicate 64 48) [7], Posted Rebind (mint_key [77] 1) (replicate 64 49) [7]]"
proof -
  have "idempotency_key demo_setup Rebind (demo_challenge 49) (demo_pinned Rebind (demo_attempt Rebind)) =
      (Inr (mint_key [77] 1), demo_pinned Rebind (demo_attempt Rebind))"
    by (simp add: idempotency_key_def demo_pinned_def pin_attempt_def Let_def)
  then have "\<exists>c. challenge_step demo_setup (RebindIntent l [66]) None (demo_challenge 49) (demo_pinned Rebind (demo_attempt Rebind)) =
      (Posts ((demo_attempt Rebind)\<lparr>pa_body := replicate 64 49\<rparr>) None, c)"
    by (simp add: challenge_step_def demo_fresh seal_attempt_def build_lifecycle_pop_header_def demo_json demo_header
        mint_and_pin_def posting_def demo_attempt_def Let_def)
  then show ?thesis by (auto simp: demo_steps) (simp_all add: demo_attempt_def)
qed

section \<open>What a renewal may install\<close>

declare prepare_defs [simp] finish_defs [simp]

text \<open>What must hold for a lease body to become the entitlement of the store: it was signed along the
  chain of trust of the key document fetched after the answer, it names the binding to renew if there
  is one, it is not expired at the clock read last, the device's own score passes, and the lease made
  of it is granted no earlier than the one in force.\<close>

definition installable :: "'k client_setup \<Rightarrow> accept_env \<Rightarrow> server_lease \<Rightarrow> rstr option \<Rightarrow> lease_store \<Rightarrow> lease_body \<Rightarrow> lease \<Rightarrow> bool" where
  "installable s env l b st body le \<longleftrightarrow>
     (\<exists>keys trusted. ae_keys env = Inr keys \<and>
        trusted_keys_verify (pk_crypto (su_packages s)) keys (su_pinned s) (ae_now_accept env) = Inr trusted \<and>
        verify_signed_lease_chain (pk_crypto (su_packages s)) l trusted = Inr body) \<and>
     (b = None \<or> b = Some (bo_instance_binding_id body)) \<and> ae_now_install env < bo_not_after body \<and>
     pk_from_ms (su_packages s) (bo_not_after body) = Some (ls_expires_at le) \<and>
     le = lease_new (bo_serial body) (ls_expires_at le - days (term_days OnlineLease)) OnlineLease ACTIVATION_WINDOW_DAYS \<and>
     FINGERPRINT_MATCH_THRESHOLD \<le> di_fingerprint_score (su_identity s) \<and> (\<forall>g \<in> set_option (active_grant st). g \<le> ls_granted_at le)"

definition in_force :: "'k client_setup \<Rightarrow> accept_env \<Rightarrow> lease_body \<Rightarrow> lease \<Rightarrow> client \<Rightarrow> client \<Rightarrow> bool" where
  "in_force s env body le c c' \<longleftrightarrow>
     cl_store c' = (cl_store c)\<lparr>sto_installed := Some \<lparr>in_entitlement = body_entitlement body le, in_at = ae_system_now env,
       in_score = di_fingerprint_score (su_identity s), in_binding_id = Some (bo_instance_binding_id body)\<rparr>\<rparr> \<and>
     cl_learned_binding_id c' = Some (bo_instance_binding_id body)"

definition kept :: "client \<Rightarrow> client \<Rightarrow> bool" where
  "kept c c' \<longleftrightarrow> cl_store c' = cl_store c \<and> cl_learned_binding_id c' = cl_learned_binding_id c"

lemma new_online_iff:
  "new_online_expiring_at from_ms serial not_after now w = Some l \<longleftrightarrow>
     now < not_after \<and> from_ms not_after = Some (ls_expires_at l) \<and>
     l = lease_new serial (ls_expires_at l - days (term_days OnlineLease)) OnlineLease w"
  by (auto simp: new_online_expiring_at_def lease_new_def Let_def split: option.splits)

lemma clear_store [simp]:
  "cl_store (contact_done v n c) = cl_store c" "cl_store (snd (on_error v e c)) = cl_store c"
  "cl_learned_binding_id (contact_done v n c) = cl_learned_binding_id c"
  "cl_learned_binding_id (snd (on_error v e c)) = cl_learned_binding_id c"
  by (simp_all add: contact_done_def remember_next_nonce_def clear_pending_def rotate_idempotency_def on_error_def reset_on_rejection_def)

lemma reply_keeps: "kept c (reply_received r c)"
  by (simp add: kept_def reply_received_def split: server_reply.split sum.split)

text \<open>The signing of the local envelope: what the client seals, the store can verify.\<close>

definition seals :: "'k packages \<Rightarrow> bool" where
  "seals p \<longleftrightarrow> (\<forall>m. cx_ed_verify (pk_crypto p) (pk_seal_key p) m (pk_seal_sign p m) \<and> length (pk_seal_sign p m) = 64)"

lemma accept_installs:
  assumes "seals (su_packages s)" and i: "installable s env l b (cl_store c) body le"
  shows "fst (accept_lease s env l b c) = Inr (bo_serial body) \<and> in_force s env body le c (snd (accept_lease s env l b c))"
proof -
  obtain keys trusted where k: "ae_keys env = Inr keys"
    "trusted_keys_verify (pk_crypto (su_packages s)) keys (su_pinned s) (ae_now_accept env) = Inr trusted"
    "verify_signed_lease_chain (pk_crypto (su_packages s)) l trusted = Inr body" using i by (auto simp: installable_def)
  have t: "trust_check s (Inr keys) (ae_now_accept env) = Inr trusted" by (simp add: trust_check_def k)
  have le: "new_online_expiring_at (pk_from_ms (su_packages s)) (bo_serial body) (bo_not_after body) (ae_now_install env)
      ACTIVATION_WINDOW_DAYS = Some le" using i by (simp add: new_online_iff installable_def)
  then have "ls_serial le = bo_serial body" by (auto simp: new_online_expiring_at_def Let_def split: if_splits option.splits)
  then have "client_install s body b (ae_system_now env) (ae_now_install env) (cl_store c) =
      (Inr (IO_Installed (bo_serial body)), (cl_store c)\<lparr>sto_installed := Some \<lparr>in_entitlement = body_entitlement body le,
        in_at = ae_system_now env, in_score = di_fingerprint_score (su_identity s),
        in_binding_id = Some (bo_instance_binding_id body)\<rparr>\<rparr>)"
    using i assms(1) le
    by (auto simp: client_install_def seal_for_install_def install_binding_def verify_signed_lease_def snapshot_of_def
        active_grant_def sto_current_def body_entitlement_def Let_def installable_def seals_def split: option.splits)
  then show ?thesis by (simp add: accept_lease_def t k in_force_def remember_binding_id_def)
qed

lemma accept_keeps:
  assumes "\<forall>body le. \<not> installable s env l b (cl_store c) body le"
  shows "kept c (snd (accept_lease s env l b c))"
proof (cases "trust_check s (ae_keys env) (ae_now_accept env)")
  case (Inl e)
  then show ?thesis by (simp add: accept_lease_def kept_def)
next
  case (Inr trusted)
  then have keys: "\<exists>keys. ae_keys env = Inr keys \<and>
      trusted_keys_verify (pk_crypto (su_packages s)) keys (su_pinned s) (ae_now_accept env) = Inr trusted"
    by (auto simp: trust_check_def map_sum_def split: sum.splits)
  show ?thesis
  proof (cases "verify_signed_lease_chain (pk_crypto (su_packages s)) l trusted")
    case (Inl e)
    then show ?thesis using Inr by (simp add: accept_lease_def kept_def)
  next
    case chain: (Inr body)
    obtain x st where i: "client_install s body b (ae_system_now env) (ae_now_install env) (cl_store c) = (x, st)" by fastforce
    have "\<not> (\<exists>serial. x = Inr (IO_Installed serial))"
      using client_install_store [OF i] assms chain keys by (fastforce simp: installable_def new_online_iff)
    moreover from this have "st = cl_store c" using client_install_store [OF i] by (auto split: sum.splits install_outcome.splits)
    ultimately show ?thesis using Inr chain i by (auto simp: accept_lease_def kept_def split: sum.splits install_outcome.splits)
  qed
qed

lemma obtain_state: "snd (obtain_pop_nonce env c) = c\<lparr>cl_pop_nonce := None\<rparr>"
  by (simp add: obtain_pop_nonce_def Let_def split: option.split)

lemma prepare_keeps_store: "kept c (snd (prepare_call s call env c))"
proof -
  have "kept c (snd (mint_and_pin s v body h env c'))" if "kept c c'" for v body h c'
    using that by (auto simp: kept_def mint_and_pin_def idempotency_key_def pin_attempt_def Let_def split: option.split prod.split sum.split)
  then have seal: "kept c (snd (seal_attempt s v what json hd env c'))" if "kept c c'" for v what json hd c'
    using that by (auto simp: seal_attempt_def split: sum.split)
  have pin: "kept c (snd (pinned_attempt v c))" for v
    by (auto simp: kept_def pinned_attempt_def split: option.split)
  have nonce: "kept c c''" if "obtain_pop_nonce env c' = (x, c'')" "kept c c'" for c' c'' x
    using that obtain_state [of env c'] by (simp add: kept_def)
  have sent: "snd (sent est r) = snd r" for est r by (simp add: sent_def split: prod.split sum.split)
  have refl: "kept c c" by (simp add: kept_def)
  have att: "kept c (snd (renew_attempt s b env c))" "kept c (snd (activate_attempt s env c))"
    "kept c (snd (rebind_attempt s lic b env c))" "kept c (snd (deactivate_attempt s b env c))" for b lic
    using pin [of Renew] pin [of Activate] pin [of Rebind] pin [of Deactivate]
    by (auto simp: renew_attempt_def activate_attempt_def rebind_attempt_def deactivate_attempt_def Let_def
        split: prod.split option.split sum.split intro!: seal dest: nonce)
  show ?thesis
    by (cases call) (auto simp: sent refl att split: option.split sum.split)
qed

lemma finish_outcome:
  "reply_lease r = Some l \<Longrightarrow> isl (fst (finish_call s env established r c)) \<longleftrightarrow>
     isl (fst (accept_lease s env l (anchor r established) (reply_received r c)))"
  by (cases r rule: reply_lease.cases)
     (auto simp: reply_received_def anchor_def Let_def split: prod.split sum.split)

lemma cycle_anchor: "prepare_call s Cycle env c = (Sent a e, c') \<Longrightarrow> e = resolve_binding_id s c"
  by (auto simp: sent_def split: option.splits if_splits sum.splits prod.splits)

text \<open>C36: A renewal installs what it has verified and nothing else. No call up to its POST, no failed answer and
  no answer without a lease changes the lease in force or the learned binding. An answer with a lease
  changes them exactly when the lease's body was signed along the chain of trust of the key document
  fetched after the answer, is not expired at the clock read last, the device's own score passes, the
  grant computed from it is not older than the one in force, and, for a renewal, the body names the
  binding the cycle set out to renew (a first contact has no binding yet, so it takes whatever binding
  the signed body names). Then the call succeeds, what is installed is the entitlement of that body,
  expiring when the body says, and its binding is learned with it. (The signing package is assumed to
  verify its own 64-byte signatures, for the envelope the client hands to its own store.)\<close>

theorem renewal_installs_verified_lease:
  assumes "seals (su_packages s)"
  shows "kept c (snd (prepare_call s call penv c)) \<and>
    (prepare_call s Cycle penv c = (Sent a e, c1) \<longrightarrow> e = resolve_binding_id s c) \<and>
    (case reply_lease r of
       None \<Rightarrow> kept c (snd (finish_call s env established r c))
     | Some l \<Rightarrow>
         (\<forall>body le. installable s env l (anchor r established) (cl_store c) body le \<longrightarrow>
            \<not> isl (fst (finish_call s env established r c)) \<and> in_force s env body le c (snd (finish_call s env established r c))) \<and>
         ((\<forall>body le. \<not> installable s env l (anchor r established) (cl_store c) body le) \<longrightarrow>
            kept c (snd (finish_call s env established r c))))"
proof -
  let ?c = "reply_received r c"
  have k: "cl_store ?c = cl_store c" "cl_learned_binding_id ?c = cl_learned_binding_id c" using reply_keeps by (simp_all add: kept_def)
  have "(case reply_lease r of
       None \<Rightarrow> kept c (snd (finish_call s env established r c))
     | Some l \<Rightarrow>
         (\<forall>body le. installable s env l (anchor r established) (cl_store c) body le \<longrightarrow>
            \<not> isl (fst (finish_call s env established r c)) \<and> in_force s env body le c (snd (finish_call s env established r c))) \<and>
         ((\<forall>body le. \<not> installable s env l (anchor r established) (cl_store c) body le) \<longrightarrow>
            kept c (snd (finish_call s env established r c))))"
  proof (cases "reply_lease r")
    case None
    then show ?thesis using reply_keeps by (simp add: finish_in_steps)
  next
    case (Some l)
    have "\<not> isl (fst (finish_call s env established r c)) \<and> in_force s env body le c (snd (finish_call s env established r c))"
      if "installable s env l (anchor r established) (cl_store c) body le" for body le
      using accept_installs [OF assms, of env l "anchor r established" ?c body le] that k
      by (simp add: finish_outcome [OF Some] finish_in_steps Some in_force_def)
    moreover have "kept c (snd (finish_call s env established r c))"
      if "\<forall>body le. \<not> installable s env l (anchor r established) (cl_store c) body le"
      using accept_keeps [of s env l "anchor r established" ?c] that k by (simp add: finish_in_steps Some kept_def)
    ultimately show ?thesis by (simp add: Some)
  qed
  with prepare_keeps_store cycle_anchor show ?thesis by blast
qed

text \<open>A device that holds no lease, bound as \<open>B\<close>, renews: the lease of the answer is installed.\<close>

lemma renewal_installs_verified_lease_witness:
  "\<exists>resp. hp_lease resp = Some demo_lease \<and>
     sto_current (cl_store (snd (finish_call demo_setup demo_accept (Some [66]) (RenewReply (Inr resp)) (client_assemble store_new 0)))) =
       Some (body_entitlement demo_body (lease_new [83] (9 - days (term_days OnlineLease)) OnlineLease ACTIVATION_WINDOW_DAYS)) \<and>
     cl_learned_binding_id (snd (finish_call demo_setup demo_accept (Some [66]) (RenewReply (Inr resp)) (client_assemble store_new 0))) =
       Some [66]"
proof -
  let ?le = "lease_new [83] (9 - days (term_days OnlineLease)) OnlineLease ACTIVATION_WINDOW_DAYS"
  obtain resp :: heartbeat_response where resp: "hp_lease resp = Some demo_lease" by (metis heartbeat_response.select_convs(1))
  have seals: "seals (su_packages demo_setup)" by (simp add: seals_def demo_setup_def demo_crypto_def)
  have "installable demo_setup demo_accept demo_lease (anchor (RenewReply (Inr resp)) (Some [66]))
      (cl_store (client_assemble store_new 0)) demo_body ?le"
    by (simp add: installable_def demo_accept_def demo_setup_def demo_trust demo_chain anchor_def client_assemble_def store_new_def
        active_grant_def lease_new_def Let_def, simp add: demo_body_def licence_constants)
  with renewal_installs_verified_lease [OF seals, where c = "client_assemble store_new 0" and r = "RenewReply (Inr resp)" and
      env = demo_accept and established = "Some [66]" and call = Cycle and penv = demo_env] resp
  have "in_force demo_setup demo_accept demo_body ?le (client_assemble store_new 0)
      (snd (finish_call demo_setup demo_accept (Some [66]) (RenewReply (Inr resp)) (client_assemble store_new 0)))"
    by (simp del: finish_call.simps prepare_call.simps)
  with resp show ?thesis by (auto simp: in_force_def sto_current_def demo_body_def simp del: finish_call.simps)
qed

section \<open>What the comments say and the code does\<close>

text \<open>A lease older than the one in force is reported as installed.\<close>

lemma stale_reported_installed:
  assumes "accept_lease s env l b (contact_done Renew (hp_next_nonce resp) c) = (Inr serial, c')" and "hp_lease resp = Some l"
    and "kept c c'"
  shows "fst (finish_call s env b (RenewReply (Inr resp)) c) = Inr (HO_Installed serial (hp_next_due resp)) \<and>
    cl_store (snd (finish_call s env b (RenewReply (Inr resp)) c)) = cl_store c"
  using assms by (simp add: kept_def)

text \<open>A pinned rebind is replayed even for another licence.\<close>

lemma rebind_replays_other_licence:
  assumes "in_step c" and "pins c Rebind = Some a"
  shows "rebind_attempt s licence b env c = (Inr a, c)"
  using assms by (simp add: rebind_attempt_def pinned_in_step)

text \<open>What the client installs always has the detected hardware class equal to the licensed one, so the
  ladder's class mismatch cannot arise from a renewal.\<close>

lemma renewal_never_mismatches_class:
  "e = body_entitlement body le \<Longrightarrow>
     primary_state num_days (store_ladder_input e gpus now) \<noteq> ClassMismatch"
  by (auto simp: body_entitlement_def Let_def store_ladder_input_def primary_state_def time_phase_def)

text \<open>A surrendered binding is still the one the next cycle renews.\<close>

lemma renews_after_deactivate:
  "resolve_binding_id s (snd (finish_call s env b (DeactivateReply (Inr resp)) c)) = resolve_binding_id s c"
  by (simp add: resolve_binding_id_def client_binding_id_def split: option.split)

section \<open>The cadence\<close>

lemma sleep_floor: "cc_min_interval cfg \<le> fst (forever_step cfg (Inr x) now b)"
  by (cases x) (simp_all add: forever_step_def sleep_until_due_def Let_def)

text \<open>The sleeps of a run of the loop.\<close>

fun sleeps :: "client_config \<Rightarrow> nat \<Rightarrow> ((heartbeat_error + heartbeat_outcome) \<times> int) list \<Rightarrow> nat list" where
  "sleeps cfg b [] = []"
| "sleeps cfg b ((r, now) # rs) = (case forever_step cfg r now b of (d, b') \<Rightarrow> d # sleeps cfg b' rs)"

lemma sleeps_bounded:
  "cc_min_interval cfg \<le> b \<Longrightarrow> cc_min_interval cfg \<le> cc_max_backoff cfg \<Longrightarrow> d \<in> set (sleeps cfg b rs) \<Longrightarrow> cc_min_interval cfg \<le> d"
proof (induction rs arbitrary: b)
  case (Cons x rs)
  obtain r now where x: "x = (r, now)" by fastforce
  show ?case
  proof (cases r)
    case (Inl e)
    then show ?thesis using Cons.prems Cons.IH [of "min (b * 2) (cc_max_backoff cfg)"] x by (auto simp: forever_step_def)
  next
    case (Inr y)
    have "snd (forever_step cfg r now b) = cc_min_interval cfg" by (cases y) (simp_all add: forever_step_def Inr)
    then show ?thesis using Cons.prems Cons.IH [of "cc_min_interval cfg"] sleep_floor [of cfg y now b] x Inr
      by (cases "forever_step cfg (Inr y) now b") auto
  qed
qed simp

end
