(* ===== verification/Ptp_Reference.thy ===== *)
theory Ptp_Reference
  imports Isolation
begin

text \<open>
  \<open>multiview-engine/src/ptp.rs\<close>: the PTP servo, the lock-state machine of the disciplined
  reference and the sampler that reads a hardware clock and publishes the machine's status. Offsets,
  delays and instants are \<open>i64\<close> nanoseconds; \<open>div_euclid\<close> by a positive divisor is \<open>div\<close>. The
  hardware clock is the environment: a reading is an argument of the step that takes it.
\<close>

definition sat_abs :: "nat \<Rightarrow> int \<Rightarrow> int" where
  "sat_abs w x = sat w \<bar>x\<bar>"

lemma sat_abs_le: "0 \<le> b \<Longrightarrow> sat_abs w x \<le> b \<longleftrightarrow> \<bar>x\<bar> \<le> b \<or> i_max w \<le> b"
  using i_min_neg [of w] i_max_nonneg [of w] unfolding sat_abs_def sat_def by linarith

section \<open>The servo\<close>

record ptp_sample =
  sample_offset_ns :: int
  sample_delay_ns :: int

definition ptp_sample_new :: "int \<Rightarrow> int \<Rightarrow> ptp_sample" where
  "ptp_sample_new offset_ns delay_ns =
     \<lparr>sample_offset_ns = offset_ns, sample_delay_ns = (if delay_ns < 0 then 0 else delay_ns)\<rparr>"

record servo_config =
  alpha_recip :: int
  step_threshold_ns :: int
  delay_outlier_pct :: int

definition servo_config_default :: servo_config where
  "servo_config_default =
     \<lparr>alpha_recip = 8, step_threshold_ns = 1000000, delay_outlier_pct = 400\<rparr>"

record ptp_servo =
  servo_cfg :: servo_config
  servo_offset_ns :: int
  frequency_ppb :: int
  avg_delay_ns :: int
  servo_locked :: bool
  servo_accepted :: nat

definition servo_new :: "servo_config \<Rightarrow> ptp_servo" where
  "servo_new c =
     \<lparr>servo_cfg = c\<lparr>alpha_recip := max 1 (alpha_recip c)\<rparr>, servo_offset_ns = 0, frequency_ppb = 0,
      avg_delay_ns = 0, servo_locked = False, servo_accepted = 0\<rparr>"

definition master_from_local :: "ptp_servo \<Rightarrow> int \<Rightarrow> int" where
  "master_from_local v local_ns = sat_sub 64 local_ns (servo_offset_ns v)"

definition delay_outlier :: "ptp_servo \<Rightarrow> ptp_sample \<Rightarrow> bool" where
  "delay_outlier v s \<longleftrightarrow>
     servo_locked v \<and> 0 < delay_outlier_pct (servo_cfg v) \<and> 0 < avg_delay_ns v \<and>
     sat_mul 128 (avg_delay_ns v) (delay_outlier_pct (servo_cfg v)) sdiv 100 < sample_delay_ns s"

definition next_avg_delay :: "ptp_servo \<Rightarrow> ptp_sample \<Rightarrow> int" where
  "next_avg_delay v s =
     (if servo_locked v
      then let recip = max 1 (alpha_recip (servo_cfg v));
               delta = sat_sub 64 (sample_delay_ns s) (avg_delay_ns v)
           in sat_add 64 (avg_delay_ns v) (delta div recip)
      else sample_delay_ns s)"

definition servo_update :: "ptp_sample \<Rightarrow> ptp_servo \<Rightarrow> bool \<times> ptp_servo" where
  "servo_update s v =
     (if delay_outlier v s then (False, v)
      else
        let v1 = v\<lparr>avg_delay_ns := next_avg_delay v s\<rparr> in
        if \<not> servo_locked v1 then
          (True, v1\<lparr>servo_offset_ns := sample_offset_ns s, frequency_ppb := 0,
                    servo_locked := True, servo_accepted := usat_add 64 (servo_accepted v1) 1\<rparr>)
        else
          let error = sat_sub 64 (sample_offset_ns s) (servo_offset_ns v1);
              v2 = (if step_threshold_ns (servo_cfg v1) < sat_abs 64 error
                    then v1\<lparr>servo_offset_ns := sample_offset_ns s, frequency_ppb := 0\<rparr>
                    else
                      let recip = max 1 (alpha_recip (servo_cfg v1));
                          correction = error div recip;
                          freq_delta = sat_sub 64 correction (frequency_ppb v1)
                      in v1\<lparr>servo_offset_ns := sat_add 64 (servo_offset_ns v1) correction,
                            frequency_ppb := sat_add 64 (frequency_ppb v1) (freq_delta div recip)\<rparr>)
          in (True, v2\<lparr>servo_accepted := usat_add 64 (servo_accepted v2) 1\<rparr>))"

section \<open>The lock-state machine\<close>

datatype lock_state = Freerun | Acquiring | Locked | Holdover

fun lock_label :: "lock_state \<Rightarrow> string" where
  "lock_label Freerun = ''freerun''"
| "lock_label Acquiring = ''acquiring''"
| "lock_label Locked = ''locked''"
| "lock_label Holdover = ''holdover''"

definition is_disciplined :: "lock_state \<Rightarrow> bool" where
  "is_disciplined s \<longleftrightarrow> s \<in> {Locked, Holdover}"

record reference_config =
  ref_servo :: servo_config
  lock_tolerance_ns :: int
  lock_samples :: nat
  stale_after_ns :: int
  holdover_window_ns :: int

definition reference_config_default :: reference_config where
  "reference_config_default =
     \<lparr>ref_servo = servo_config_default, lock_tolerance_ns = 50000, lock_samples = 8,
      stale_after_ns = 2000000000, holdover_window_ns = 10000000000\<rparr>"

record reference_status =
  status_state :: lock_state
  status_offset_ns :: int
  status_frequency_ppb :: int
  status_accepted :: nat
  status_disciplined :: bool

record reference_tracker =
  trk_config :: reference_config
  trk_servo :: ptp_servo
  trk_state :: lock_state
  in_tolerance_streak :: nat
  last_sample_ns :: "int option"
  trk_now_ns :: int

definition tracker_new :: "reference_config \<Rightarrow> reference_tracker" where
  "tracker_new c =
     \<lparr>trk_config = c, trk_servo = servo_new (ref_servo c), trk_state = Freerun,
      in_tolerance_streak = 0, last_sample_ns = None, trk_now_ns = 0\<rparr>"

definition tracker_status :: "reference_tracker \<Rightarrow> reference_status" where
  "tracker_status t =
     \<lparr>status_state = trk_state t, status_offset_ns = servo_offset_ns (trk_servo t),
      status_frequency_ppb = frequency_ppb (trk_servo t),
      status_accepted = servo_accepted (trk_servo t),
      status_disciplined = is_disciplined (trk_state t)\<rparr>"

definition locks_needed :: "reference_tracker \<Rightarrow> nat" where
  "locks_needed t = max 1 (lock_samples (trk_config t))"

definition in_tolerance :: "reference_tracker \<Rightarrow> ptp_sample \<Rightarrow> bool" where
  "in_tolerance t s \<longleftrightarrow>
     sat_abs 64 (sat_sub 64 (sample_offset_ns s) (servo_offset_ns (trk_servo t)))
       \<le> lock_tolerance_ns (trk_config t)"

definition tracker_observe ::
  "ptp_sample \<Rightarrow> int \<Rightarrow> reference_tracker \<Rightarrow> bool \<times> reference_tracker" where
  "tracker_observe s now_ns t =
     (let t1 = t\<lparr>trk_now_ns := max now_ns (trk_now_ns t)\<rparr>;
          (accepted, servo) = servo_update s (trk_servo t1);
          t2 = t1\<lparr>trk_servo := servo\<rparr>
      in if \<not> accepted then (False, t2)
         else
           let streak = (if in_tolerance t1 s then usat_add 32 (in_tolerance_streak t2) 1 else 0)
           in (True, t2\<lparr>last_sample_ns := Some now_ns, in_tolerance_streak := streak,
                       trk_state := (if locks_needed t2 \<le> streak then Locked else Acquiring)\<rparr>))"

definition tracker_tick :: "int \<Rightarrow> reference_tracker \<Rightarrow> reference_tracker" where
  "tracker_tick now_ns t =
     (let t1 = t\<lparr>trk_now_ns := max now_ns (trk_now_ns t)\<rparr> in
      case last_sample_ns t1 of
        None \<Rightarrow> t1
      | Some last_ns \<Rightarrow>
          let age = sat_sub 64 (trk_now_ns t1) last_ns; c = trk_config t1 in
          if holdover_window_ns c \<le> age \<and> 0 < holdover_window_ns c
          then t1\<lparr>trk_state := Freerun, in_tolerance_streak := 0\<rparr>
          else if stale_after_ns c \<le> age \<and> 0 < stale_after_ns c
          then case trk_state t1 of
                 Locked \<Rightarrow> t1\<lparr>trk_state := Holdover, in_tolerance_streak := 0\<rparr>
               | Acquiring \<Rightarrow> t1\<lparr>trk_state := Holdover, in_tolerance_streak := 0\<rparr>
               | Holdover \<Rightarrow> t1
               | Freerun \<Rightarrow> t1
          else t1)"

section \<open>The hardware-clock sampler\<close>

record phc_reading =
  sys_before_ns :: int
  phc_ns :: int
  sys_after_ns :: int

definition reading_offset_ns :: "phc_reading \<Rightarrow> int" where
  "reading_offset_ns r =
     (let span = sat_sub 64 (sys_after_ns r) (sys_before_ns r);
          midpoint = sat_add 64 (sys_before_ns r) (span div 2)
      in sat_sub 64 midpoint (phc_ns r))"

definition reading_delay_ns :: "phc_reading \<Rightarrow> int" where
  "reading_delay_ns r =
     (let span = sat_sub 64 (sys_after_ns r) (sys_before_ns r)
      in if span < 0 then 0 else span div 2)"

definition reading_to_sample :: "phc_reading \<Rightarrow> ptp_sample" where
  "reading_to_sample r = ptp_sample_new (reading_offset_ns r) (reading_delay_ns r)"

datatype phc_error = PhcOpen string | PhcRead string | PhcUnsupported

definition timespec_to_ns :: "int \<Rightarrow> int \<Rightarrow> int" where
  "timespec_to_ns secs nanos = sat_add 64 (sat_mul 64 secs 1000000000) nanos"

record phc_sampler =
  phc_tracker :: reference_tracker
  phc_status :: "reference_status latest_state"

definition phc_publish :: "reference_tracker \<Rightarrow> phc_sampler \<Rightarrow> reference_status \<times> phc_sampler" where
  "phc_publish t p =
     (let st = tracker_status t
      in (st, p\<lparr>phc_tracker := t, phc_status := snd (latest_publish st (phc_status p))\<rparr>))"

definition phc_sampler_new :: "reference_config \<Rightarrow> phc_sampler" where
  "phc_sampler_new c =
     (let t = tracker_new c
      in \<lparr>phc_tracker = t, phc_status = snd (latest_publish (tracker_status t) latest_new)\<rparr>)"

definition phc_sample_once ::
  "phc_error + phc_reading \<Rightarrow> int \<Rightarrow> phc_sampler \<Rightarrow> reference_status \<times> phc_sampler" where
  "phc_sample_once r now_ns p =
     (case r of
        Inr reading \<Rightarrow> phc_publish (snd (tracker_observe (reading_to_sample reading) now_ns (phc_tracker p))) p
      | Inl _ \<Rightarrow> phc_publish (tracker_tick now_ns (phc_tracker p)) p)"

definition phc_tick :: "int \<Rightarrow> phc_sampler \<Rightarrow> reference_status \<times> phc_sampler" where
  "phc_tick now_ns p = phc_publish (tracker_tick now_ns (phc_tracker p)) p"

section \<open>The servo settles\<close>

definition servo_ok :: "ptp_servo \<Rightarrow> bool" where
  "servo_ok v \<longleftrightarrow> servo_locked v \<and> 1 \<le> alpha_recip (servo_cfg v) \<and>
     in_i 64 (servo_offset_ns v) \<and> in_i 64 (avg_delay_ns v) \<and> 0 \<le> avg_delay_ns v \<and>
     in_i 64 (delay_outlier_pct (servo_cfg v))"

definition sample_ok :: "ptp_sample \<Rightarrow> bool" where
  "sample_ok s \<longleftrightarrow> in_i 64 (sample_offset_ns s) \<and> in_i 64 (sample_delay_ns s) \<and> 0 \<le> sample_delay_ns s"

definition delay_ok :: "ptp_servo \<Rightarrow> ptp_sample \<Rightarrow> bool" where
  "delay_ok v s \<longleftrightarrow>
     delay_outlier_pct (servo_cfg v) \<le> 0 \<or> sample_delay_ns s = 0 \<or>
     100 \<le> delay_outlier_pct (servo_cfg v) \<and> 0 < avg_delay_ns v \<and>
     sample_delay_ns s \<le> avg_delay_ns v * delay_outlier_pct (servo_cfg v) div 100"

definition servo_run :: "ptp_sample list \<Rightarrow> ptp_servo \<Rightarrow> ptp_servo" where
  "servo_run ss v = fold (\<lambda>s v. snd (servo_update s v)) ss v"

definition servo_error :: "ptp_sample \<Rightarrow> ptp_servo \<Rightarrow> int" where
  "servo_error s v = sample_offset_ns s - servo_offset_ns v"

lemma servo_run_simps [simp]:
  "servo_run [] v = v" "servo_run (s # ss) v = servo_run ss (snd (servo_update s v))"
  by (simp_all add: servo_run_def)

text \<open>One step of the slew: the error shrinks by its floor quotient.\<close>

lemma slew_shrinks:
  fixes e r :: int
  assumes "1 \<le> r"
  shows "0 \<le> e \<Longrightarrow> 0 \<le> e - e div r \<and> e - e div r \<le> e"
    and "r \<le> e \<Longrightarrow> e - e div r < e"
    and "e < 0 \<Longrightarrow> e < e - e div r \<and> e - e div r \<le> 0"
proof -
  have r: "0 < r" using assms by simp
  show "0 \<le> e \<Longrightarrow> 0 \<le> e - e div r \<and> e - e div r \<le> e"
    using zdiv_mono2 [of e 1 r] assms pos_imp_zdiv_nonneg_iff [OF r, of e] by simp
  show "r \<le> e \<Longrightarrow> e - e div r < e"
    using zdiv_mono1 [of r e r] r by simp
  assume neg: "e < 0"
  have "e div r < 0" using neg r by (simp add: neg_imp_zdiv_neg_iff pos_imp_zdiv_neg_iff)
  moreover have "e \<le> e div r" using zdiv_mono2_neg [of e 1 r] neg assms by simp
  ultimately show "e < e - e div r \<and> e - e div r \<le> 0" by linarith
qed

lemma in_i_between: "in_i w a \<Longrightarrow> in_i w b \<Longrightarrow> a \<le> x \<Longrightarrow> x \<le> b \<Longrightarrow> in_i w x"
  by (simp add: in_i_def)

lemma in_i_shrunk: "in_i w e \<Longrightarrow> 0 \<le> x \<and> x \<le> e \<or> e \<le> x \<and> x \<le> 0 \<Longrightarrow> in_i w x"
  using i_min_neg [of w] i_max_nonneg [of w] unfolding in_i_def by linarith

lemma delay_limit:
  assumes "0 \<le> a" and "in_i 64 a" and "0 \<le> p" and "in_i 64 p"
  shows "sat_mul 128 a p sdiv 100 = a * p div 100"
proof -
  have "a * p \<le> i_max 64 * i_max 64" using assms by (intro mult_mono) (simp_all add: in_i_def)
  moreover have "0 \<le> a * p" using assms(1,3) by simp
  ultimately have "in_i 128 (a * p)" unfolding in_i_def i_simps by linarith
  then show ?thesis using assms(1,3) by (simp add: sat_mul_def sdiv_nonneg)
qed

lemma delay_ok_accepted:
  "servo_ok v \<Longrightarrow> sample_ok s \<Longrightarrow> delay_ok v s \<Longrightarrow> \<not> delay_outlier v s"
  using delay_limit [of "avg_delay_ns v" "delay_outlier_pct (servo_cfg v)"]
  by (auto simp: servo_ok_def sample_ok_def delay_ok_def delay_outlier_def pos_imp_zdiv_nonneg_iff not_less)

text \<open>The running average moves towards the delay and never past it.\<close>

lemma next_avg_between:
  assumes "servo_ok v" and "sample_ok s"
  shows "min (avg_delay_ns v) (sample_delay_ns s) \<le> next_avg_delay v s"
    and "next_avg_delay v s \<le> max (avg_delay_ns v) (sample_delay_ns s)"
    and "in_i 64 (next_avg_delay v s)"
proof -
  define a d r where "a = avg_delay_ns v" and "d = sample_delay_ns s" and "r = alpha_recip (servo_cfg v)"
  have h: "0 \<le> a" "in_i 64 a" "0 \<le> d" "in_i 64 d" "1 \<le> r" "servo_locked v" "max 1 r = r"
    using assms by (simp_all add: servo_ok_def sample_ok_def a_def d_def r_def)
  have dif: "sat_sub 64 d a = d - a"
    using h by (simp add: sat_sub_def in_i_def i_simps sat_def)
  have q: "min a d \<le> a + (d - a) div r" "a + (d - a) div r \<le> max a d"
    using slew_shrinks(1) [OF h(5), of "d - a"] slew_shrinks(3) [OF h(5), of "d - a"]
    by (cases "0 \<le> d - a"; simp)+
  have i: "in_i 64 (a + (d - a) div r)"
    using q h(1-4) by (auto simp: in_i_def min_def max_def split: if_splits)
  have e: "next_avg_delay v s = a + (d - a) div r"
    using h dif i by (simp add: next_avg_delay_def Let_def sat_add_def flip: a_def d_def r_def)
  show "min (avg_delay_ns v) (sample_delay_ns s) \<le> next_avg_delay v s"
    "next_avg_delay v s \<le> max (avg_delay_ns v) (sample_delay_ns s)"
    "in_i 64 (next_avg_delay v s)"
    using q i by (simp_all add: e a_def d_def)
qed

lemma next_avg_limit:
  assumes "servo_ok v" and "sample_ok s" and "100 \<le> p" and "0 < avg_delay_ns v" and "0 < sample_delay_ns s"
    and "sample_delay_ns s \<le> avg_delay_ns v * p div 100"
  shows "0 < next_avg_delay v s \<and> sample_delay_ns s \<le> next_avg_delay v s * p div 100"
proof -
  note b = next_avg_between(1) [OF assms(1,2)]
  have pos: "0 < next_avg_delay v s" using b assms(4,5) by simp
  have ge: "x \<le> x * p div 100" if "0 \<le> x" for x :: int
    using zdiv_mono1 [of "x * 100" "x * p" 100] mult_left_mono [OF assms(3) that] by simp
  show ?thesis
  proof (cases "sample_delay_ns s \<le> avg_delay_ns v")
    case True
    then have "sample_delay_ns s \<le> next_avg_delay v s" using b by simp
    then show ?thesis using pos ge [of "next_avg_delay v s"] by linarith
  next
    case False
    then have "avg_delay_ns v * p \<le> next_avg_delay v s * p" using b assms(3) by (intro mult_right_mono) simp_all
    then have "avg_delay_ns v * p div 100 \<le> next_avg_delay v s * p div 100" by (rule zdiv_mono1) simp
    then show ?thesis using pos assms(6) by linarith
  qed
qed

lemma servo_update_accepted:
  assumes v: "servo_ok v" and s: "sample_ok s" and acc: "\<not> delay_outlier v s"
    and e: "in_i 64 (servo_error s v)"
  shows "fst (servo_update s v) \<and> servo_ok (snd (servo_update s v)) \<and>
     servo_cfg (snd (servo_update s v)) = servo_cfg v \<and>
     avg_delay_ns (snd (servo_update s v)) = next_avg_delay v s \<and>
     servo_error s (snd (servo_update s v)) =
       (if step_threshold_ns (servo_cfg v) < sat_abs 64 (servo_error s v) then 0
        else servo_error s v - servo_error s v div alpha_recip (servo_cfg v))"
proof -
  define err r where "err = servo_error s v" and "r = alpha_recip (servo_cfg v)"
  have h: "servo_locked v" "1 \<le> r" "max 1 r = r" "in_i 64 (servo_offset_ns v)" "in_i 64 (sample_offset_ns s)"
    using v s by (simp_all add: servo_ok_def sample_ok_def r_def)
  have sub: "sat_sub 64 (sample_offset_ns s) (servo_offset_ns v) = err"
    using e by (simp add: sat_sub_def servo_error_def err_def)
  have q: "err - err div r \<in> {min 0 err..max 0 err}"
    using slew_shrinks(1) [OF h(2), of err] slew_shrinks(3) [OF h(2), of err] by (cases "0 \<le> err"; simp)
  have new: "in_i 64 (servo_offset_ns v + err div r)"
    using q h(4,5) by (auto simp: in_i_def err_def servo_error_def min_def max_def split: if_splits)
  have avg: "in_i 64 (next_avg_delay v s)" "0 \<le> next_avg_delay v s"
    using next_avg_between [OF v s] v s by (auto simp: servo_ok_def sample_ok_def min_def split: if_splits)
  show ?thesis
    using h acc avg new v sub
    by (simp add: servo_update_def Let_def servo_ok_def sat_add_def servo_error_def err_def r_def)
qed

lemma servo_update_settles:
  assumes v: "servo_ok v" and s: "sample_ok s" and d: "delay_ok v s" and e: "in_i 64 (servo_error s v)"
  defines "w \<equiv> snd (servo_update s v)"
  shows "servo_ok w \<and> delay_ok w s \<and> in_i 64 (servo_error s w) \<and> servo_cfg w = servo_cfg v"
    and "servo_error s w \<in> {0..<alpha_recip (servo_cfg v)} \<or> \<bar>servo_error s w\<bar> < \<bar>servo_error s v\<bar>"
proof -
  note u = servo_update_accepted [OF v s delay_ok_accepted [OF v s d] e]
  have r: "1 \<le> alpha_recip (servo_cfg v)" using v by (simp add: servo_ok_def)
  have "delay_ok w s"
    using u d next_avg_limit [OF v s, of "delay_outlier_pct (servo_cfg v)"] s
    by (auto simp: w_def delay_ok_def sample_ok_def)
  moreover have "in_i 64 (servo_error s w)"
    using u e slew_shrinks(1,3) [OF r, of "servo_error s v"]
    by (cases "0 \<le> servo_error s v") (auto simp: w_def intro: in_i_shrunk)
  ultimately show "servo_ok w \<and> delay_ok w s \<and> in_i 64 (servo_error s w) \<and> servo_cfg w = servo_cfg v"
    using u by (simp add: w_def)
  show "servo_error s w \<in> {0..<alpha_recip (servo_cfg v)} \<or> \<bar>servo_error s w\<bar> < \<bar>servo_error s v\<bar>"
    using u r slew_shrinks [OF r, of "servo_error s v"]
    by (cases "servo_error s v < 0"; cases "alpha_recip (servo_cfg v) \<le> servo_error s v") (auto simp: w_def)
qed

lemma servo_settled_stays:
  "servo_ok w \<Longrightarrow> sample_ok s \<Longrightarrow> delay_ok w s \<Longrightarrow> servo_error s w \<in> {0..<alpha_recip (servo_cfg w)} \<Longrightarrow>
   in_i 64 (servo_error s w) \<Longrightarrow>
   servo_error s (servo_run (replicate n s) w) \<in> {0..<alpha_recip (servo_cfg w)}"
proof (induction n arbitrary: w)
  case 0
  then show ?case by simp
next
  case (Suc n)
  note st = servo_update_settles [OF Suc.prems(1-3,5)]
  have "servo_error s (snd (servo_update s w)) \<in> {0..<alpha_recip (servo_cfg w)}"
    using servo_update_accepted [OF Suc.prems(1,2) delay_ok_accepted [OF Suc.prems(1-3)] Suc.prems(5)]
      Suc.prems(1,4) by (auto simp: servo_ok_def div_pos_pos_trivial)
  then show ?case using Suc.IH [of "snd (servo_update s w)"] st(1) Suc.prems(2) by simp
qed

lemma servo_run_settles:
  "servo_ok v \<Longrightarrow> sample_ok s \<Longrightarrow> delay_ok v s \<Longrightarrow> in_i 64 (servo_error s v) \<Longrightarrow>
   nat \<bar>servo_error s v\<bar> \<le> n \<Longrightarrow>
   servo_error s (servo_run (replicate n s) v) \<in> {0..<alpha_recip (servo_cfg v)}"
proof (induction n arbitrary: v)
  case 0
  then show ?case by (simp add: servo_ok_def)
next
  case (Suc n)
  define w where "w = snd (servo_update s v)"
  note st = servo_update_settles [OF Suc.prems(1-4), folded w_def]
  show ?case
  proof (cases "nat \<bar>servo_error s w\<bar> \<le> n")
    case True
    then show ?thesis using Suc.IH [of w] st(1) Suc.prems(2) by (simp flip: w_def)
  next
    case False
    then have "servo_error s w \<in> {0..<alpha_recip (servo_cfg v)}" using st(2) Suc.prems(5) by auto
    then show ?thesis using st(1) Suc.prems(2) servo_settled_stays [of w s n] by (simp flip: w_def)
  qed
qed

text \<open>C38: The estimate converges. Take an anchored servo, with a non-negative average delay and \<open>alpha_recip\<close> at
  least 1, and a sample with a non-negative delay that the outlier guard will keep accepting: the
  guard is off (\<open>delay_outlier_pct\<close> not positive), or the delay is zero, or the limit is at least 100
  percent of a positive average delay and the sample is within it. If all these numbers and the
  initial error fit in 64 bits, then the same measurement repeated as many times as the initial error
  has nanoseconds leaves the smoothed offset below the measured one by less than \<open>alpha_recip\<close>
  nanoseconds, and never above it. (A guard that merely accepts the next sample is not enough: from a
  zero average it may reject the same sample ever after, see below.)\<close>

theorem servo_settles:
  assumes "servo_ok v" and "sample_ok s" and "delay_ok v s" and "in_i 64 (servo_error s v)"
    and "nat \<bar>servo_error s v\<bar> \<le> n"
  shows "0 \<le> servo_error s (servo_run (replicate n s) v) \<and>
     servo_error s (servo_run (replicate n s) v) < alpha_recip (servo_cfg v)"
  using servo_run_settles [OF assms] by simp

theorem servo_settles_witness:
  "servo_error (ptp_sample_new (- 37000000000) 400)
     (servo_run (replicate 37000000500 (ptp_sample_new (- 37000000000) 400))
       \<lparr>servo_cfg = servo_config_default, servo_offset_ns = 500, frequency_ppb = 3,
        avg_delay_ns = 350, servo_locked = True, servo_accepted = 1\<rparr>) < 8"
  using servo_settles [of "\<lparr>servo_cfg = servo_config_default, servo_offset_ns = 500, frequency_ppb = 3,
        avg_delay_ns = 350, servo_locked = True, servo_accepted = 1\<rparr>"
      "ptp_sample_new (- 37000000000) 400" 37000000500]
  by (simp add: servo_ok_def sample_ok_def delay_ok_def servo_error_def ptp_sample_new_def in_i_def
      i_simps servo_config_default_def)

text \<open>Anchored on a sample without delay, the default servo accepts an ordinary sample once, because the
  guard is skipped while the average is zero; the average then creeps up to an eighth of the delay,
  and the same sample is an outlier for ever: the estimate stays wrong by the remaining seven eighths.\<close>

lemma zero_delay_anchor_jams:
  defines "s \<equiv> ptp_sample_new 800000 1000"
  defines "v \<equiv> snd (servo_update (ptp_sample_new 0 0) (servo_new servo_config_default))"
  shows "fst (servo_update s v)"
    and "servo_error s (servo_run (replicate (Suc n) s) v) = 700000"
    and "\<not> fst (servo_update s (servo_run (replicate (Suc n) s) v))"
proof -
  define w where "w = snd (servo_update s v)"
  note defs = servo_new_def servo_update_def next_avg_delay_def delay_outlier_def ptp_sample_new_def servo_config_default_def
    sat_abs_def sat_add_def sat_sub_def sat_mul_def in_i_def i_simps usat_add_def sdiv_nonneg
  show "fst (servo_update s v)" by (simp add: s_def v_def defs)
  have rejected: "servo_update s w = (False, w)" and error: "servo_error s w = 700000"
    by (simp_all add: w_def s_def v_def defs servo_error_def)
  have "servo_run (replicate n s) w = w" by (induction n) (simp_all add: rejected)
  then have "servo_run (replicate (Suc n) s) v = w" by (simp add: w_def)
  then show "servo_error s (servo_run (replicate (Suc n) s) v) = 700000"
    "\<not> fst (servo_update s (servo_run (replicate (Suc n) s) v))" by (simp_all add: rejected error)
qed

section \<open>A lock is earned\<close>

datatype trk_event = Observe ptp_sample int | Tick int

fun trk_step :: "trk_event \<Rightarrow> reference_tracker \<Rightarrow> reference_tracker" where
  "trk_step (Observe s now_ns) t = snd (tracker_observe s now_ns t)"
| "trk_step (Tick now_ns) t = tracker_tick now_ns t"

definition trk_run :: "trk_event list \<Rightarrow> reference_tracker \<Rightarrow> reference_tracker" where
  "trk_run es t = fold trk_step es t"

text \<open>A watcher beside the tracker, which keeps its own time of the last accepted sample and its own clock,
  and notes what each event says about the lock: an accepted sample in tolerance supports it, an
  accepted sample out of tolerance restarts acquisition, a tick at which the last accepted sample is
  \<open>stale_after_ns\<close> old finds the feed stale, a rejected sample and a tick in time say nothing.\<close>

datatype verdict = Supports | Restarts | GoesStale | Silent

record watch =
  wt_tracker :: reference_tracker
  wt_heard :: "int option"
  wt_clock :: int
  wt_verdicts :: "verdict list"

definition feed_stale :: "reference_config \<Rightarrow> int option \<Rightarrow> int \<Rightarrow> bool" where
  "feed_stale c heard clock \<longleftrightarrow> (case heard of None \<Rightarrow> False | Some l \<Rightarrow> stale_after_ns c \<le> clock - l)"

fun watch_step :: "trk_event \<Rightarrow> watch \<Rightarrow> watch" where
  "watch_step (Observe s now_ns) w =
     (let t = wt_tracker w; outlier = delay_outlier (trk_servo t) s
      in \<lparr>wt_tracker = trk_step (Observe s now_ns) t, wt_heard = (if outlier then wt_heard w else Some now_ns),
          wt_clock = max now_ns (wt_clock w),
          wt_verdicts = wt_verdicts w @ [if outlier then Silent else if in_tolerance t s then Supports else Restarts]\<rparr>)"
| "watch_step (Tick now_ns) w =
     (let t = wt_tracker w; clock = max now_ns (wt_clock w)
      in \<lparr>wt_tracker = trk_step (Tick now_ns) t, wt_heard = wt_heard w, wt_clock = clock,
          wt_verdicts = wt_verdicts w @ [if feed_stale (trk_config t) (wt_heard w) clock then GoesStale else Silent]\<rparr>)"

definition watch_run :: "trk_event list \<Rightarrow> reference_config \<Rightarrow> watch" where
  "watch_run es c = fold watch_step es \<lparr>wt_tracker = tracker_new c, wt_heard = None, wt_clock = 0, wt_verdicts = []\<rparr>"

definition verdicts :: "trk_event list \<Rightarrow> reference_config \<Rightarrow> verdict list" where
  "verdicts es c = wt_verdicts (watch_run es c)"

definition breaks :: "verdict \<Rightarrow> bool" where
  "breaks v \<longleftrightarrow> v \<in> {Restarts, GoesStale}"

definition support :: "verdict list \<Rightarrow> nat" where
  "support vs = length (filter ((=) Supports) (takeWhile (\<lambda>v. \<not> breaks v) (rev vs)))"

lemma support_snoc [simp]:
  "support [] = 0" "support (vs @ [Supports]) = Suc (support vs)"
  "support (vs @ [Restarts]) = 0" "support (vs @ [GoesStale]) = 0" "support (vs @ [Silent]) = support vs"
  by (simp_all add: support_def breaks_def)

lemma trk_run_snoc [simp]: "trk_run [] t = t" "trk_run (es @ [e]) t = trk_step e (trk_run es t)"
  by (simp_all add: trk_run_def)

lemma trk_run_Cons: "trk_run (e # es) t = trk_run es (trk_step e t)"
  by (simp add: trk_run_def)

lemma watch_run_snoc: "watch_run (es @ [e]) c = watch_step e (watch_run es c)"
  by (simp add: watch_run_def)

lemma watch_tracker: "wt_tracker (watch_run es c) = trk_run es (tracker_new c)"
proof (induction es rule: rev_induct)
  case (snoc e es)
  then show ?case by (cases e) (simp_all add: watch_run_snoc Let_def)
qed (simp add: watch_run_def)

lemma servo_update_rejects: "delay_outlier v s \<Longrightarrow> servo_update s v = (False, v)"
  by (simp add: servo_update_def)

lemma servo_update_fst [simp]: "fst (servo_update s v) \<longleftrightarrow> \<not> delay_outlier v s"
  by (simp add: servo_update_def Let_def)

lemma observe_rejected:
  "delay_outlier (trk_servo t) s \<Longrightarrow>
     tracker_observe s now_ns t = (False, t\<lparr>trk_now_ns := max now_ns (trk_now_ns t)\<rparr>)"
  by (simp add: tracker_observe_def servo_update_rejects)

lemma observe_accepted:
  fixes now_ns :: int
  assumes "\<not> delay_outlier (trk_servo t) s"
  defines "u \<equiv> snd (tracker_observe s now_ns t)"
  shows "in_tolerance_streak u = (if in_tolerance t s then usat_add 32 (in_tolerance_streak t) 1 else 0)"
    and "trk_state u = (if locks_needed t \<le> in_tolerance_streak u then Locked else Acquiring)"
    and "trk_config u = trk_config t" and "last_sample_ns u = Some now_ns"
    and "trk_now_ns u = max now_ns (trk_now_ns t)"
  using assms(1) servo_update_fst [of s "trk_servo t"]
  by (simp_all add: u_def tracker_observe_def Let_def case_prod_beta locks_needed_def in_tolerance_def)

lemma tick_cases:
  "trk_config (tracker_tick now_ns t) = trk_config t"
  "last_sample_ns (tracker_tick now_ns t) = last_sample_ns t"
  "trk_state (tracker_tick now_ns t) = trk_state t \<and>
     in_tolerance_streak (tracker_tick now_ns t) = in_tolerance_streak t \<or>
   trk_state (tracker_tick now_ns t) \<in> {Freerun, Holdover} \<and>
     in_tolerance_streak (tracker_tick now_ns t) = 0"
  by (auto simp: tracker_tick_def Let_def split: option.split lock_state.split)

text \<open>The invariant ties the state to the streak, and the streak to the history.\<close>

definition streak_inv :: "reference_tracker \<Rightarrow> nat \<Rightarrow> bool" where
  "streak_inv t k \<longleftrightarrow>
     in_tolerance_streak t = min (2 ^ 32 - 1) k \<and>
     (trk_state t = Locked \<longleftrightarrow> locks_needed t \<le> in_tolerance_streak t) \<and>
     (trk_state t \<in> {Freerun, Holdover} \<longrightarrow> in_tolerance_streak t = 0) \<and>
     (last_sample_ns t = None \<longrightarrow> trk_state t = Freerun)"

lemma locks_needed_step: "locks_needed (trk_step e t) = locks_needed t"
proof (cases e)
  case (Observe s now_ns)
  then show ?thesis
    by (cases "delay_outlier (trk_servo t) s")
      (simp_all add: observe_rejected observe_accepted(3) locks_needed_def)
qed (simp add: tick_cases(1) locks_needed_def)

text \<open>A configuration as its fields are documented and typed.\<close>

definition config_ok :: "reference_config \<Rightarrow> bool" where
  "config_ok c \<longleftrightarrow> lock_samples c < 2 ^ 32 \<and> 0 < stale_after_ns c \<and> stale_after_ns c \<le> holdover_window_ns c \<and>
     holdover_window_ns c \<le> i_max 64"

lemma age_saturates: "0 < b \<Longrightarrow> b \<le> i_max 64 \<Longrightarrow> b \<le> sat_sub 64 x y \<longleftrightarrow> b \<le> x - y"
  using i_min_neg [of 64] unfolding sat_sub_def sat_def by linarith

lemma tick_by_age:
  fixes now_ns :: int
  assumes "config_ok (trk_config t)"
  defines "u \<equiv> tracker_tick now_ns t" and "clock \<equiv> max now_ns (trk_now_ns t)"
  shows "trk_now_ns u = clock" "last_sample_ns u = last_sample_ns t"
    and "\<not> feed_stale (trk_config t) (last_sample_ns t) clock \<Longrightarrow>
      trk_state u = trk_state t \<and> in_tolerance_streak u = in_tolerance_streak t"
    and "feed_stale (trk_config t) (last_sample_ns t) clock \<Longrightarrow>
      trk_state u \<in> {Freerun, Holdover} \<and> (in_tolerance_streak u = 0 \<or> trk_state t \<in> {Freerun, Holdover} \<and>
        in_tolerance_streak u = in_tolerance_streak t)"
proof -
  let ?c = "trk_config t"
  have h: "0 < stale_after_ns ?c" "0 < holdover_window_ns ?c" "stale_after_ns ?c \<le> i_max 64" "holdover_window_ns ?c \<le> i_max 64"
    "stale_after_ns ?c \<le> holdover_window_ns ?c" using assms(1) by (simp_all add: config_ok_def)
  show "trk_now_ns u = clock" "last_sample_ns u = last_sample_ns t"
    by (simp_all add: u_def clock_def tracker_tick_def Let_def split: option.split lock_state.split)
  have u: "u = (case last_sample_ns t of None \<Rightarrow> t\<lparr>trk_now_ns := clock\<rparr>
      | Some l \<Rightarrow>
          if holdover_window_ns ?c \<le> clock - l then t\<lparr>trk_now_ns := clock, trk_state := Freerun, in_tolerance_streak := 0\<rparr>
          else if stale_after_ns ?c \<le> clock - l \<and> trk_state t \<in> {Locked, Acquiring}
          then t\<lparr>trk_now_ns := clock, trk_state := Holdover, in_tolerance_streak := 0\<rparr>
          else t\<lparr>trk_now_ns := clock\<rparr>)"
    using h(1,2) age_saturates [OF h(1,3)] age_saturates [OF h(2,4)]
    by (simp add: u_def clock_def tracker_tick_def Let_def split: option.split lock_state.split)
  show "trk_state u = trk_state t \<and> in_tolerance_streak u = in_tolerance_streak t"
    if "\<not> feed_stale ?c (last_sample_ns t) clock"
    using that h(5) by (auto simp: u feed_stale_def split: option.splits)
  show "trk_state u \<in> {Freerun, Holdover} \<and> (in_tolerance_streak u = 0 \<or> trk_state t \<in> {Freerun, Holdover} \<and>
        in_tolerance_streak u = in_tolerance_streak t)"
    if "feed_stale ?c (last_sample_ns t) clock"
    using that by (cases "trk_state t") (auto simp: u feed_stale_def split: option.splits)
qed

lemma streak_observe:
  assumes "streak_inv t k"
  shows "streak_inv (trk_step (Observe s now_ns) t)
    (if delay_outlier (trk_servo t) s then k else if in_tolerance t s then Suc k else 0)"
proof (cases "delay_outlier (trk_servo t) s")
  case True
  then show ?thesis using assms by (auto simp: observe_rejected streak_inv_def locks_needed_def)
next
  case False
  note n = locks_needed_step [of "Observe s now_ns" t]
  note a = observe_accepted [OF False, of now_ns]
  show ?thesis using assms False n a
    by (auto simp: streak_inv_def usat_add_def min_def locks_needed_def)
qed

definition watch_inv :: "reference_config \<Rightarrow> watch \<Rightarrow> bool" where
  "watch_inv c w \<longleftrightarrow> trk_config (wt_tracker w) = c \<and> wt_heard w = last_sample_ns (wt_tracker w) \<and>
     wt_clock w = trk_now_ns (wt_tracker w) \<and> streak_inv (wt_tracker w) (support (wt_verdicts w))"

lemma watch_inv_step:
  assumes inv: "watch_inv c w" and c: "config_ok c"
  shows "watch_inv c (watch_step e w)"
proof (cases e)
  case (Observe s now_ns)
  let ?t = "wt_tracker w"
  define u where "u = trk_step (Observe s now_ns) ?t"
  have w: "wt_tracker (watch_step e w) = u" "wt_heard (watch_step e w) = last_sample_ns u" "wt_clock (watch_step e w) = trk_now_ns u"
    "trk_config u = trk_config ?t"
    using inv by (cases "delay_outlier (trk_servo ?t) s"; simp add: Observe Let_def watch_inv_def u_def observe_rejected observe_accepted)+
  have "support (wt_verdicts (watch_step e w)) =
      (if delay_outlier (trk_servo ?t) s then support (wt_verdicts w) else if in_tolerance ?t s then Suc (support (wt_verdicts w)) else 0)"
    by (simp add: Observe Let_def)
  then show ?thesis using inv streak_observe [of ?t "support (wt_verdicts w)" s now_ns, folded u_def] w by (simp only: watch_inv_def)
next
  case (Tick now_ns)
  let ?t = "wt_tracker w"
  have "config_ok (trk_config ?t)" using inv c by (simp add: watch_inv_def)
  note t = tick_by_age [OF this, of now_ns]
  define u where "u = tracker_tick now_ns ?t"
  have step: "wt_tracker (watch_step e w) = u" "wt_heard (watch_step e w) = last_sample_ns u" "wt_clock (watch_step e w) = trk_now_ns u"
    using inv t(1,2) by (simp_all add: Tick Let_def watch_inv_def u_def)
  have c': "trk_config u = trk_config ?t" "locks_needed u = locks_needed ?t" "1 \<le> locks_needed ?t"
    using locks_needed_step [of e ?t] by (simp_all add: u_def tick_cases(1) locks_needed_def)
  have heard: "last_sample_ns u = last_sample_ns ?t" using t(2) by (simp add: u_def)
  show ?thesis
  proof (cases "feed_stale (trk_config ?t) (last_sample_ns ?t) (max now_ns (trk_now_ns ?t))")
    case True
    then have v: "support (wt_verdicts (watch_step e w)) = 0" using inv by (simp add: Tick Let_def watch_inv_def)
    have "last_sample_ns ?t \<noteq> None" using True by (auto simp: feed_stale_def split: option.splits)
    moreover have "trk_state u \<in> {Freerun, Holdover}" "in_tolerance_streak u = 0"
      using t(4) [OF True] inv by (auto simp: u_def watch_inv_def streak_inv_def)
    ultimately have "streak_inv u 0" using c' heard by (auto simp: streak_inv_def)
    then show ?thesis using inv c' v by (simp add: watch_inv_def step)
  next
    case False
    then have v: "support (wt_verdicts (watch_step e w)) = support (wt_verdicts w)" using inv by (simp add: Tick Let_def watch_inv_def)
    have "streak_inv u k \<longleftrightarrow> streak_inv ?t k" for k
      using t(3) [OF False] c' heard by (simp add: streak_inv_def u_def)
    then show ?thesis using inv c' v by (simp add: watch_inv_def step)
  qed
qed

lemma watch_inv_run: "config_ok c \<Longrightarrow> watch_inv c (watch_run es c)"
proof (induction es rule: rev_induct)
  case Nil
  then show ?case by (simp add: watch_inv_def watch_run_def streak_inv_def tracker_new_def locks_needed_def)
next
  case (snoc e es)
  then show ?case using watch_inv_step by (simp add: watch_run_snoc)
qed

lemma locks_needed_run: "locks_needed (trk_run es t) = locks_needed t"
  by (induction es rule: rev_induct) (simp_all add: locks_needed_step)

lemma support_ge_if:
  assumes "\<forall>v \<in> set (drop k vs). \<not> breaks v"
  shows "length (filter ((=) Supports) (drop k vs)) \<le> support vs"
proof -
  have "rev vs = rev (drop k vs) @ rev (take k vs)" by (metis append_take_drop_id rev_append)
  moreover have "takeWhile (\<lambda>v. \<not> breaks v) (rev (drop k vs) @ rev (take k vs)) =
      rev (drop k vs) @ takeWhile (\<lambda>v. \<not> breaks v) (rev (take k vs))"
    using assms by (intro takeWhile_append2) auto
  ultimately have "takeWhile (\<lambda>v. \<not> breaks v) (rev vs) =
      rev (drop k vs) @ takeWhile (\<lambda>v. \<not> breaks v) (rev (take k vs))" by simp
  then show ?thesis by (simp add: support_def flip: rev_filter)
qed

lemma support_tail: "\<exists>k. (\<forall>v \<in> set (drop k vs). \<not> breaks v) \<and> support vs = length (filter ((=) Supports) (drop k vs))"
proof -
  define w where "w = takeWhile (\<lambda>v. \<not> breaks v) (rev vs)"
  have "vs = rev (dropWhile (\<lambda>v. \<not> breaks v) (rev vs)) @ rev w"
    unfolding w_def by (metis rev_append rev_rev_ident takeWhile_dropWhile_id)
  then have d: "drop (length (dropWhile (\<lambda>v. \<not> breaks v) (rev vs))) vs = rev w"
    by (metis append_eq_conv_conj length_rev)
  moreover have "\<forall>v \<in> set w. \<not> breaks v" unfolding w_def by (metis (full_types) set_takeWhileD)
  moreover have "support vs = length (filter ((=) Supports) (rev w))"
    by (simp add: support_def w_def flip: rev_filter)
  ultimately show ?thesis by (metis set_rev)
qed

lemma support_ge:
  "n \<le> support vs \<longleftrightarrow>
     (\<exists>k. (\<forall>v \<in> set (drop k vs). \<not> breaks v) \<and> n \<le> length (filter ((=) Supports) (drop k vs)))"
  using support_tail [of vs] by (metis le_trans support_ge_if)

lemma lock_iff_support:
  assumes "config_ok c"
  shows "trk_state (trk_run es (tracker_new c)) = Locked \<longleftrightarrow> max 1 (lock_samples c) \<le> support (verdicts es c)"
proof -
  have "locks_needed (trk_run es (tracker_new c)) = max 1 (lock_samples c)"
    by (simp add: locks_needed_run) (simp add: locks_needed_def tracker_new_def)
  then show ?thesis using watch_inv_run [OF assms, of es] assms
    by (auto simp: watch_inv_def streak_inv_def config_ok_def watch_tracker verdicts_def)
qed

text \<open>C37: A lock is earned, and only so. With a positive \<open>stale_after_ns\<close>, a holdover window at least as
  long and all fields within their machine types, call a tick stale when the last accepted sample is then \<open>stale_after_ns\<close> old or older. A tracker
  is locked whenever its history ends in a stretch with at least \<open>lock_samples\<close> (at least one) accepted
  samples in tolerance and no accepted sample out of tolerance and no stale tick. And it is locked
  only if the history ends in such a stretch, possibly opened by one accepted sample out of tolerance
  that is counted too: whether the sample that restarts acquisition is itself the first of the new
  streak is left open here, since the comment in \<open>observe\<close> says it is and the code starts from zero.\<close>

theorem lock_is_earned:
  assumes "config_ok c"
  shows "((\<exists>k. set (drop k (verdicts es c)) \<subseteq> {Supports, Silent} \<and>
        max 1 (lock_samples c) \<le> length (filter (\<lambda>v. v = Supports) (drop k (verdicts es c)))) \<longrightarrow>
      trk_state (trk_run es (tracker_new c)) = Locked) \<and>
    (trk_state (trk_run es (tracker_new c)) = Locked \<longrightarrow>
      (\<exists>k. GoesStale \<notin> set (drop k (verdicts es c)) \<and> Restarts \<notin> set (drop (Suc k) (verdicts es c)) \<and>
        max 1 (lock_samples c) \<le> length (filter (\<lambda>v. v = Supports \<or> v = Restarts) (drop k (verdicts es c)))))"
proof -
  define vs where "vs = verdicts es c"
  have lock: "trk_state (trk_run es (tracker_new c)) = Locked \<longleftrightarrow>
      (\<exists>k. (\<forall>v \<in> set (drop k vs). \<not> breaks v) \<and> max 1 (lock_samples c) \<le> length (filter ((=) Supports) (drop k vs)))"
    using lock_iff_support [OF assms, of es] by (simp only: support_ge vs_def)
  have eq: "filter ((=) Supports) xs = filter (\<lambda>v. v = Supports) xs" for xs by (rule filter_cong) auto
  have "\<forall>v \<in> set xs. \<not> breaks v" if "set xs \<subseteq> {Supports, Silent}" for xs using that by (auto simp: breaks_def)
  then have "(\<exists>k. set (drop k vs) \<subseteq> {Supports, Silent} \<and> max 1 (lock_samples c) \<le> length (filter (\<lambda>v. v = Supports) (drop k vs))) \<longrightarrow>
      trk_state (trk_run es (tracker_new c)) = Locked" unfolding lock eq by blast
  moreover have "\<exists>k. GoesStale \<notin> set (drop k vs) \<and> Restarts \<notin> set (drop (Suc k) vs) \<and>
      max 1 (lock_samples c) \<le> length (filter (\<lambda>v. v = Supports \<or> v = Restarts) (drop k vs))"
    if locked: "trk_state (trk_run es (tracker_new c)) = Locked"
  proof -
    from locked obtain k where k: "\<forall>v \<in> set (drop k vs). \<not> breaks v"
      "max 1 (lock_samples c) \<le> length (filter (\<lambda>v. v = Supports) (drop k vs))" unfolding lock eq by blast
    have "filter (\<lambda>v. v = Supports \<or> v = Restarts) (drop k vs) = filter (\<lambda>v. v = Supports) (drop k vs)"
      using k(1) by (intro filter_cong) (auto simp: breaks_def)
    moreover have "set (drop (Suc k) vs) \<subseteq> set (drop k vs)" by (rule set_drop_subset_set_drop) simp
    ultimately show ?thesis using k by (intro exI [of _ k]) (auto simp: breaks_def)
  qed
  ultimately show ?thesis unfolding vs_def by blast
qed

lemmas ptp_defs =
  trk_run_def tracker_new_def tracker_observe_def tracker_tick_def servo_new_def servo_update_def
  next_avg_delay_def delay_outlier_def in_tolerance_def locks_needed_def ptp_sample_new_def
  sat_abs_def sat_add_def sat_sub_def sat_mul_def in_i_def i_simps usat_add_def

theorem lock_is_earned_witness:
  "trk_state (trk_run [Observe (ptp_sample_new 900000 100) 0, Observe (ptp_sample_new 900008 100) 1,
       Tick 2, Observe (ptp_sample_new 900007 100) 3]
     (tracker_new (reference_config_default\<lparr>lock_samples := 2\<rparr>))) = Locked \<and>
   trk_state (trk_run [Observe (ptp_sample_new 900000 100) 0, Observe (ptp_sample_new 900008 100) 1,
       Observe (ptp_sample_new 900007 100) 3, Tick 2000000003]
     (tracker_new (reference_config_default\<lparr>lock_samples := 2\<rparr>))) \<noteq> Locked"
proof -
  define c where "c = reference_config_default\<lparr>lock_samples := 2\<rparr>"
  define es where "es = [Observe (ptp_sample_new 900000 100) 0, Observe (ptp_sample_new 900008 100) 1,
       Tick 2, Observe (ptp_sample_new 900007 100) 3]"
  define fs where "fs = [Observe (ptp_sample_new 900000 100) 0, Observe (ptp_sample_new 900008 100) 1,
       Observe (ptp_sample_new 900007 100) 3, Tick 2000000003]"
  have c: "config_ok c" "lock_samples c = 2" by (simp_all add: c_def config_ok_def reference_config_default_def i_simps)
  have v: "verdicts es c = [Restarts, Supports, Silent, Supports]"
    by (simp add: verdicts_def watch_run_def feed_stale_def Let_def es_def c_def reference_config_default_def servo_config_default_def ptp_defs)
  then have "set (drop 1 (verdicts es c)) \<subseteq> {Supports, Silent} \<and>
      max 1 (lock_samples c) \<le> length (filter (\<lambda>v. v = Supports) (drop 1 (verdicts es c)))" by (simp add: c)
  then have locked: "trk_state (trk_run es (tracker_new c)) = Locked" using lock_is_earned [OF c(1), of es] by blast
  have v': "verdicts fs c = [Restarts, Supports, Supports, GoesStale]"
    by (simp add: verdicts_def watch_run_def feed_stale_def Let_def fs_def c_def reference_config_default_def servo_config_default_def ptp_defs)
  have "GoesStale \<in> set (drop k (verdicts fs c)) \<or> drop k (verdicts fs c) = []" for k
    by (cases "k < 4") (auto simp: v' less_Suc_eq numeral_eq_Suc)
  moreover have "\<not> max 1 (lock_samples c) \<le> length (filter P [])" for P :: "verdict \<Rightarrow> bool" by simp
  ultimately have "trk_state (trk_run fs (tracker_new c)) \<noteq> Locked"
    using lock_is_earned [OF c(1), of fs] by metis
  with locked show ?thesis unfolding es_def fs_def c_def by (rule conjI)
qed

section \<open>Freshness\<close>

lemma freerun_unheard:
  "last_sample_ns (trk_run es (tracker_new c)) = None \<longrightarrow> trk_state (trk_run es (tracker_new c)) = Freerun"
proof (induction es rule: rev_induct)
  case (snoc e es)
  then show ?case
    by (cases e; cases "delay_outlier (trk_servo (trk_run es (tracker_new c))) (case e of Observe s n \<Rightarrow> s)")
      (auto simp: observe_rejected observe_accepted(4) tick_cases(2), auto simp: tracker_tick_def)
qed (simp add: tracker_new_def)

text \<open>After a tick, a reference that still counts as disciplined is younger than its windows.\<close>

lemma tick_freshness:
  assumes "last_sample_ns t = None \<longrightarrow> trk_state t = Freerun"
    and "0 < stale_after_ns (trk_config t)" and "0 < holdover_window_ns (trk_config t)"
    and "stale_after_ns (trk_config t) \<le> i_max 64" and "holdover_window_ns (trk_config t) \<le> i_max 64"
  shows "(trk_state (tracker_tick now_ns t) \<in> {Locked, Acquiring} \<longrightarrow>
       (\<exists>l. last_sample_ns t = Some l \<and> max now_ns (trk_now_ns t) - l < stale_after_ns (trk_config t))) \<and>
     (trk_state (tracker_tick now_ns t) \<noteq> Freerun \<longrightarrow>
       (\<exists>l. last_sample_ns t = Some l \<and> max now_ns (trk_now_ns t) - l < holdover_window_ns (trk_config t)))"
proof (cases "last_sample_ns t")
  case None
  then show ?thesis using assms(1) by (simp add: tracker_tick_def)
next
  case (Some l)
  have age: "b \<le> sat_sub 64 x y \<longleftrightarrow> b \<le> x - y" if "0 < b" "b \<le> i_max 64" for b x y
    using that i_min_neg [of 64] unfolding sat_sub_def sat_def by linarith
  show ?thesis
    using Some assms(2-5) age
    by (auto simp: tracker_tick_def Let_def split: lock_state.split)
qed

definition windows_ok :: "reference_config \<Rightarrow> bool" where
  "windows_ok c \<longleftrightarrow> lock_samples c < 2 ^ 32 \<and> 0 < stale_after_ns c \<and> stale_after_ns c \<le> i_max 64 \<and>
     0 < holdover_window_ns c \<and> holdover_window_ns c \<le> i_max 64"

lemma trk_config_run [simp]: "trk_config (trk_run es t) = trk_config t"
proof (induction es rule: rev_induct)
  case (snoc e es)
  then show ?case
    by (cases e; cases "delay_outlier (trk_servo (trk_run es t)) (case e of Observe s n \<Rightarrow> s)")
      (simp_all add: observe_rejected observe_accepted(3) tick_cases(1))
qed simp

definition phc_run :: "((phc_error + phc_reading) \<times> int) list \<Rightarrow> phc_sampler \<Rightarrow> phc_sampler" where
  "phc_run rs p = fold (\<lambda>(r, now_ns) p. snd (phc_sample_once r now_ns p)) rs p"

fun reading_event :: "(phc_error + phc_reading) \<times> int \<Rightarrow> trk_event" where
  "reading_event (Inr reading, now_ns) = Observe (reading_to_sample reading) now_ns"
| "reading_event (Inl e, now_ns) = Tick now_ns"

lemma phc_run_tracker:
  "phc_tracker (phc_run rs p) = trk_run (map reading_event rs) (phc_tracker p)"
proof (induction rs arbitrary: p)
  case Nil
  then show ?case by (simp add: phc_run_def)
next
  case (Cons a rs)
  have "phc_tracker (snd (phc_sample_once (fst a) (snd a) p)) = trk_step (reading_event a) (phc_tracker p)"
    by (cases a; cases "fst a") (simp_all add: phc_sample_once_def phc_publish_def Let_def)
  then show ?case
    using Cons.IH [of "snd (phc_sample_once (fst a) (snd a) p)"]
    by (simp add: phc_run_def trk_run_Cons case_prod_beta)
qed

text \<open>A failed reading ages the reference. Whatever readings came before, once the sampler has taken
  a failed reading at an instant, the status it publishes is locked or acquiring only if the last
  accepted sample is younger than \<open>stale_after_ns\<close>, and disciplined only if it is younger than
  \<open>holdover_window_ns\<close>; and what a consumer loads is that status.\<close>

theorem failed_reading_ages_reference:
  assumes "windows_ok c" and "p = phc_run rs (phc_sampler_new c)"
    and "phc_sample_once (Inl err) now_ns p = (st, p')"
    and "age = (case last_sample_ns (phc_tracker p) of None \<Rightarrow> None
                | Some l \<Rightarrow> Some (max now_ns (trk_now_ns (phc_tracker p)) - l))"
  shows "(status_state st \<in> {Locked, Acquiring} \<longrightarrow> (\<exists>a. age = Some a \<and> a < stale_after_ns c)) \<and>
     (status_disciplined st \<longrightarrow> (\<exists>a. age = Some a \<and> a < holdover_window_ns c)) \<and>
     latest_of (phc_status p') = Some st"
proof -
  define t where "t = phc_tracker p"
  have t: "t = trk_run (map reading_event rs) (tracker_new c)"
    by (simp add: t_def assms(2) phc_run_tracker phc_sampler_new_def Let_def)
  have c: "trk_config t = c" by (simp add: t) (simp add: tracker_new_def)
  have "last_sample_ns t = None \<longrightarrow> trk_state t = Freerun"
    using freerun_unheard [of "map reading_event rs" c] by (simp add: t)
  moreover have st: "st = tracker_status (tracker_tick now_ns t)" "latest_of (phc_status p') = Some st"
    using assms(3) by (auto simp: phc_sample_once_def phc_publish_def Let_def t_def latest_of_def
        latest_publish_def)
  ultimately show ?thesis
    using tick_freshness [of t now_ns] assms(1,4) c
    by (auto simp: windows_ok_def tracker_status_def is_disciplined_def simp flip: t_def)
qed

theorem failed_reading_ages_reference_witness:
  "\<not> status_disciplined (fst (phc_sample_once (Inl PhcUnsupported) 10000000005
      (phc_run [(Inr \<lparr>sys_before_ns = 100, phc_ns = 90, sys_after_ns = 104\<rparr>, 5)]
        (phc_sampler_new reference_config_default))))"
proof -
  define p where "p = phc_run [(Inr \<lparr>sys_before_ns = 100, phc_ns = 90, sys_after_ns = 104\<rparr>, 5)]
        (phc_sampler_new reference_config_default)"
  obtain st p' where r: "phc_sample_once (Inl PhcUnsupported) 10000000005 p = (st, p')" by force
  have w: "windows_ok reference_config_default"
    by (simp add: windows_ok_def reference_config_default_def i_simps)
  have l: "last_sample_ns (phc_tracker p) = Some 5"
    by (simp add: p_def phc_run_tracker phc_sampler_new_def reading_to_sample_def reading_offset_ns_def
        reading_delay_ns_def reference_config_default_def servo_config_default_def ptp_defs Let_def)
  from failed_reading_ages_reference [OF w p_def r refl] l
  have "status_disciplined st \<longrightarrow> max 10000000005 (trk_now_ns (phc_tracker p)) - 5 < 10000000000"
    by (simp add: reference_config_default_def)
  then show ?thesis using r by (auto simp flip: p_def)
qed

text \<open>A rejected reading does not age the reference. While every reading is a delay outlier, the
  sampler's published status and the servo never change, however far the clock advances.\<close>

lemma observe_outlier_status:
  assumes "delay_outlier (trk_servo t) s"
  shows "tracker_status (snd (tracker_observe s now_ns t)) = tracker_status t"
    and "trk_servo (snd (tracker_observe s now_ns t)) = trk_servo t"
  using assms by (simp_all add: observe_rejected tracker_status_def)

lemma outliers_freeze_status:
  assumes "\<forall>(r, n) \<in> set rs. delay_outlier (trk_servo (phc_tracker p)) (reading_to_sample r)"
  shows "tracker_status (phc_tracker (phc_run (map (map_prod Inr id) rs) p)) = tracker_status (phc_tracker p) \<and>
     trk_servo (phc_tracker (phc_run (map (map_prod Inr id) rs) p)) = trk_servo (phc_tracker p)"
  using assms
proof (induction rs arbitrary: p)
  case Nil
  then show ?case by (simp add: phc_run_def)
next
  case (Cons a rs)
  obtain r n where a: "a = (r, n)" by force
  define q where "q = snd (phc_sample_once (Inr r) n p)"
  have o: "delay_outlier (trk_servo (phc_tracker p)) (reading_to_sample r)" using Cons.prems a by simp
  have q: "tracker_status (phc_tracker q) = tracker_status (phc_tracker p)"
    "trk_servo (phc_tracker q) = trk_servo (phc_tracker p)"
    using observe_outlier_status [OF o, of n]
    by (simp_all add: q_def phc_sample_once_def phc_publish_def Let_def)
  then show ?case using Cons.IH [of q] Cons.prems by (simp add: a phc_run_def q_def)
qed

text \<open>A reference that never locked is reported disciplined when its feed goes stale: one sample, then
  a tick two seconds later.\<close>

lemma stale_acquiring_disciplined:
  "trk_state (trk_run [Observe (ptp_sample_new 5000000 100) 0] (tracker_new reference_config_default)) = Acquiring"
  "status_disciplined (tracker_status (trk_run [Observe (ptp_sample_new 5000000 100) 0, Tick 2000000000]
     (tracker_new reference_config_default)))"
  by (simp_all add: reference_config_default_def servo_config_default_def ptp_defs tracker_status_def
      is_disciplined_def)

end
