(* ===== verification/System_Reference.thy ===== *)
theory System_Reference
  imports Ptp_Reference
begin

text \<open>
  \<open>multiview-engine/src/sysref.rs\<close>: how well the kernel disciplines the system clock, and the
  arbitration between that discipline and the PTP reference. A kernel reading is an argument, absent
  when the read failed. The reference source and badge status come from
  \<open>multiview-overlay/src/clock.rs\<close>.
\<close>

unbundle bit_operations_syntax

datatype ref_source = RefNtp | RefPtp | RefSystem

fun ref_source_label :: "ref_source \<Rightarrow> string" where
  "ref_source_label RefNtp = ''NTP''"
| "ref_source_label RefPtp = ''PTP''"
| "ref_source_label RefSystem = ''SYS''"

datatype ref_status = StatusLocked | StatusHoldover | StatusFreerun | StatusRefLoss

section \<open>The kernel's discipline\<close>

type_synonym ntp_status_flags = "32 word"

definition STA_UNSYNC :: "32 word" where "STA_UNSYNC = 0x0040"
definition STA_FREQHOLD :: "32 word" where "STA_FREQHOLD = 0x0080"
definition STA_NANO :: "32 word" where "STA_NANO = 0x2000"

definition is_unsynchronized :: "ntp_status_flags \<Rightarrow> bool" where
  "is_unsynchronized bits \<longleftrightarrow> bits AND STA_UNSYNC \<noteq> 0"

definition is_freq_held :: "ntp_status_flags \<Rightarrow> bool" where
  "is_freq_held bits \<longleftrightarrow> bits AND STA_FREQHOLD \<noteq> 0"

definition is_nano_resolution :: "ntp_status_flags \<Rightarrow> bool" where
  "is_nano_resolution bits \<longleftrightarrow> bits AND STA_NANO \<noteq> 0"

datatype ntp_clock_state =
  ClockOk | InsertLeap | DeleteLeap | LeapInProgress | LeapOccurred | ClockError

definition clock_state_from_code :: "int \<Rightarrow> ntp_clock_state" where
  "clock_state_from_code code =
     (if code = 0 then ClockOk else if code = 1 then InsertLeap else if code = 2 then DeleteLeap
      else if code = 3 then LeapInProgress else if code = 4 then LeapOccurred else ClockError)"

definition is_synchronized :: "ntp_clock_state \<Rightarrow> bool" where
  "is_synchronized st \<longleftrightarrow> st \<noteq> ClockError"

record ntp_reading =
  ntp_status :: ntp_status_flags
  ntp_clock_state :: ntp_clock_state
  est_error_ns :: int
  max_error_ns :: int
  ntp_offset_ns :: int

record system_ref_config =
  est_error_tolerance_ns :: int
  assumed_when_unavailable :: lock_state

definition system_ref_default :: system_ref_config where
  "system_ref_default = \<lparr>est_error_tolerance_ns = 100000, assumed_when_unavailable = Locked\<rparr>"

definition system_ref_conservative :: system_ref_config where
  "system_ref_conservative = \<lparr>est_error_tolerance_ns = 100000, assumed_when_unavailable = Freerun\<rparr>"

definition classify_system :: "ntp_reading \<Rightarrow> system_ref_config \<Rightarrow> lock_state" where
  "classify_system r c =
     (if is_unsynchronized (ntp_status r) then Freerun
      else if \<not> is_synchronized (ntp_clock_state r) then Holdover
      else if est_error_ns r \<le> est_error_tolerance_ns c then Locked
      else Holdover)"

record system_ref_tracker =
  sys_config :: system_ref_config
  sys_state :: lock_state
  sys_offset_ns :: int
  sys_available :: bool

definition system_ref_new :: "system_ref_config \<Rightarrow> system_ref_tracker" where
  "system_ref_new c =
     \<lparr>sys_config = c, sys_state = assumed_when_unavailable c, sys_offset_ns = 0, sys_available = False\<rparr>"

definition system_ref_sample :: "ntp_reading option \<Rightarrow> system_ref_tracker \<Rightarrow> lock_state \<times> system_ref_tracker" where
  "system_ref_sample q t =
     (let t' = (case q of
          Some r \<Rightarrow> t\<lparr>sys_state := classify_system r (sys_config t), sys_offset_ns := ntp_offset_ns r,
                      sys_available := True\<rparr>
        | None \<Rightarrow> t\<lparr>sys_state := assumed_when_unavailable (sys_config t), sys_available := False\<rparr>)
      in (sys_state t', t'))"

section \<open>Arbitration\<close>

record selected_reference =
  sel_source :: ref_source
  sel_state :: lock_state
  sel_offset_ns :: int

fun ref_status_of :: "lock_state \<Rightarrow> ref_status" where
  "ref_status_of Locked = StatusLocked"
| "ref_status_of Holdover = StatusHoldover"
| "ref_status_of Freerun = StatusFreerun"
| "ref_status_of Acquiring = StatusFreerun"

definition to_time_ref :: "selected_reference \<Rightarrow> ref_source \<times> ref_status" where
  "to_time_ref s = (sel_source s, ref_status_of (sel_state s))"

definition select_reference :: "lock_state \<Rightarrow> int \<Rightarrow> reference_status \<Rightarrow> selected_reference" where
  "select_reference system_state system_offset_ns ptp =
     (if is_disciplined (status_state ptp)
      then \<lparr>sel_source = RefPtp, sel_state = status_state ptp, sel_offset_ns = status_offset_ns ptp\<rparr>
      else \<lparr>sel_source = RefSystem, sel_state = system_state, sel_offset_ns = system_offset_ns\<rparr>)"

lemma select_reference_ptp:
  "sel_source (select_reference st off p) = RefPtp \<longleftrightarrow> is_disciplined (status_state p)"
  "sel_source (select_reference st off p) \<in> {RefPtp, RefSystem}"
  by (simp_all add: select_reference_def)

lemma classify_locked:
  "classify_system r c = Locked \<longleftrightarrow>
     \<not> is_unsynchronized (ntp_status r) \<and> ntp_clock_state r \<noteq> ClockError \<and>
     est_error_ns r \<le> est_error_tolerance_ns c"
  by (simp add: classify_system_def is_synchronized_def)

fun kernel_locks :: "ntp_reading option \<Rightarrow> system_ref_config \<Rightarrow> bool" where
  "kernel_locks (Some r) c \<longleftrightarrow> \<not> is_unsynchronized (ntp_status r) \<and> ntp_clock_state r \<noteq> ClockError \<and>
     est_error_ns r \<le> est_error_tolerance_ns c"
| "kernel_locks None c \<longleftrightarrow> assumed_when_unavailable c = Locked"

definition sys_run :: "ntp_reading option list \<Rightarrow> system_ref_tracker \<Rightarrow> system_ref_tracker" where
  "sys_run qs t = fold (\<lambda>q t. snd (system_ref_sample q t)) qs t"

lemma sys_run_snoc [simp]:
  "sys_run [] t = t" "sys_run (qs @ [q]) t = snd (system_ref_sample q (sys_run qs t))"
  by (simp_all add: sys_run_def)

lemma sys_config_run [simp]: "sys_config (sys_run qs t) = sys_config t"
  by (induction qs rule: rev_induct) (simp_all add: system_ref_sample_def Let_def split: option.split)

text \<open>The badge never shows a lock nobody reported. Over any history of kernel readings, the arbitrated
  reference reads locked only if the PTP tracker is locked, or the PTP reference is not disciplined
  and the last kernel reading is synchronised within tolerance, or there was none and the
  configuration assumes a lock.\<close>

theorem badge_lock_is_reported:
  assumes "t = sys_run qs (system_ref_new c)" and "q = (if qs = [] then None else last qs)"
    and "to_time_ref (select_reference (sys_state t) (sys_offset_ns t) ptp) = (src, StatusLocked)"
  shows "src = RefPtp \<and> status_state ptp = Locked \<or>
     src = RefSystem \<and> \<not> is_disciplined (status_state ptp) \<and> kernel_locks q c"
proof -
  have ok: "ref_status_of st = StatusLocked \<longleftrightarrow> st = Locked" for st by (cases st) simp_all
  have src: "src = sel_source (select_reference (sys_state t) (sys_offset_ns t) ptp)"
    and lock: "sel_state (select_reference (sys_state t) (sys_offset_ns t) ptp) = Locked"
    using assms(3) by (simp_all add: to_time_ref_def ok)
  have sys: "sys_state t = (case q of Some r \<Rightarrow> classify_system r c | None \<Rightarrow> assumed_when_unavailable c)"
  proof (cases qs rule: rev_cases)
    case Nil
    then show ?thesis by (simp add: assms(1,2) system_ref_new_def)
  next
    case (snoc ys q')
    have "sys_config (sys_run ys (system_ref_new c)) = c" by simp (simp add: system_ref_new_def)
    then show ?thesis
      by (simp add: assms(1,2) snoc system_ref_sample_def Let_def split: option.split)
  qed
  show ?thesis
  proof (cases "is_disciplined (status_state ptp)")
    case True
    then show ?thesis using src lock by (simp add: select_reference_def)
  next
    case False
    then have "sys_state t = Locked" "src = RefSystem" using src lock by (simp_all add: select_reference_def)
    then show ?thesis using sys False by (cases q) (simp_all add: classify_locked)
  qed
qed

theorem badge_lock_is_reported_witness:
  "kernel_locks (Some \<lparr>ntp_status = STA_NANO, ntp_clock_state = InsertLeap, est_error_ns = 90000,
       max_error_ns = 500000, ntp_offset_ns = 12\<rparr>) system_ref_conservative"
proof -
  let ?r = "\<lparr>ntp_status = STA_NANO, ntp_clock_state = InsertLeap, est_error_ns = 90000,
       max_error_ns = 500000, ntp_offset_ns = 12\<rparr>"
  define qs where "qs = [None, Some ?r]"
  have "to_time_ref (select_reference (sys_state (sys_run qs (system_ref_new system_ref_conservative)))
      (sys_offset_ns (sys_run qs (system_ref_new system_ref_conservative)))
      (tracker_status (tracker_new reference_config_default))) = (RefSystem, StatusLocked)"
    by (simp add: qs_def sys_run_def system_ref_sample_def system_ref_new_def system_ref_conservative_def
        classify_system_def is_unsynchronized_def is_synchronized_def STA_NANO_def STA_UNSYNC_def
        select_reference_def tracker_status_def tracker_new_def is_disciplined_def to_time_ref_def Let_def)
  from badge_lock_is_reported [OF refl refl this] show ?thesis by (simp add: qs_def)
qed

text \<open>A kernel that reports \<open>TIME_ERROR\<close> is classified as coasting, not as free-running.\<close>

lemma time_error_is_holdover:
  "\<not> is_unsynchronized (ntp_status r) \<Longrightarrow> ntp_clock_state r = ClockError \<Longrightarrow>
     classify_system r c = Holdover \<and> is_disciplined (classify_system r c)"
  by (simp add: classify_system_def is_synchronized_def is_disciplined_def)

end
