(* ===== verification/Presentation_Epoch.thy ===== *)
theory Presentation_Epoch
  imports System_Reference Wallclock
begin

text \<open>
  \<open>multiview-engine/src/epoch.rs\<close>: the map from output stamps to wall-clock time that presenters share.
  A sampler derives one candidate map per observation from a wall reading bracketed by monotonic
  reads, the kernel's discipline and the PTP snapshot; a tracker folds candidates into the published
  map by holding, slewing or stepping. The readings are arguments. \<open>clamp\<close> panics when its bounds
  are crossed, which is the value \<open>None\<close>.
\<close>

definition EPOCH_RATE :: rational where "EPOCH_RATE = rat_new 1000000000 1"

definition DEFAULT_PTP_UTC_OFFSET_NS :: int where "DEFAULT_PTP_UTC_OFFSET_NS = 37000000000"

definition UTC_RESIDUAL_GUARD_NS :: int where "UTC_RESIDUAL_GUARD_NS = 30000000000"

section \<open>The re-anchor policy\<close>

record epoch_policy =
  deadband_ns :: int
  slew_max_ns :: int
  epoch_step_ns :: int

definition epoch_policy_default :: epoch_policy where
  "epoch_policy_default = \<lparr>deadband_ns = 2000000, slew_max_ns = 5000000, epoch_step_ns = 250000000\<rparr>"

datatype epoch_update = Anchored | HeldEpoch | Slewed int | Stepped int

record epoch_tracker =
  ep_policy :: epoch_policy
  ep_current :: "wallclock_ref option"

definition epoch_tracker_new :: "epoch_policy \<Rightarrow> epoch_tracker" where
  "epoch_tracker_new p = \<lparr>ep_policy = p, ep_current = None\<rparr>"

definition wallclock_ref_new :: "int \<Rightarrow> int \<Rightarrow> rational \<Rightarrow> wallclock_ref" where
  "wallclock_ref_new w m r = \<lparr>wall_at_anchor_ns = w, media_at_anchor = m, rate = r\<rparr>"

definition clamp_i :: "int \<Rightarrow> int \<Rightarrow> int \<Rightarrow> int option" where
  "clamp_i lo hi x = (if lo \<le> hi then Some (max lo (min hi x)) else None)"

definition epoch_error :: "wallclock_ref \<Rightarrow> wallclock_ref \<Rightarrow> int" where
  "epoch_error cur candidate =
     sat_sub 64 (wall_at candidate (media_at_anchor cur)) (wall_at_anchor_ns cur)"

definition epoch_observe :: "wallclock_ref \<Rightarrow> epoch_tracker \<Rightarrow> (epoch_update \<times> epoch_tracker) option" where
  "epoch_observe candidate t =
     (case ep_current t of
        None \<Rightarrow> Some (Anchored, t\<lparr>ep_current := Some candidate\<rparr>)
      | Some cur \<Rightarrow>
          let error_ns = epoch_error cur candidate in
          if \<not> rational_eq (rate cur) (rate candidate)
          then Some (Stepped error_ns, t\<lparr>ep_current := Some candidate\<rparr>)
          else if sat_abs 64 error_ns \<le> deadband_ns (ep_policy t) then Some (HeldEpoch, t)
          else if epoch_step_ns (ep_policy t) < sat_abs 64 error_ns
          then Some (Stepped error_ns,
                 t\<lparr>ep_current := Some (wallclock_ref_new (sat_add 64 (wall_at_anchor_ns cur) error_ns)
                     (media_at_anchor cur) (rate cur))\<rparr>)
          else
            (case clamp_i (wrap_neg 64 (slew_max_ns (ep_policy t))) (slew_max_ns (ep_policy t)) error_ns of
               None \<Rightarrow> None
             | Some adjustment_ns \<Rightarrow>
                 Some (Slewed adjustment_ns,
                   t\<lparr>ep_current := Some (wallclock_ref_new
                       (sat_add 64 (wall_at_anchor_ns cur) adjustment_ns)
                       (media_at_anchor cur) (rate cur))\<rparr>)))"

section \<open>The sampler\<close>

record wall_sample =
  mono_before_ns :: int
  sample_wall_ns :: int
  mono_after_ns :: int

definition mono_mid_ns :: "wall_sample \<Rightarrow> int" where
  "mono_mid_ns s =
     (let span = sat_sub 64 (mono_after_ns s) (mono_before_ns s)
      in sat_add 64 (mono_before_ns s) (span div 2))"

text \<open>The system clock as nanoseconds past the epoch: the duration since 1970, or before it.\<close>

definition unix_now_ns :: "nat + nat \<Rightarrow> int" where
  "unix_now_ns d =
     (case d of
        Inr since \<Rightarrow> (case try_i 64 (int since) of Some x \<Rightarrow> x | None \<Rightarrow> i_max 64)
      | Inl before \<Rightarrow> sat 64 (- (case try_i 64 (int before) of Some x \<Rightarrow> x | None \<Rightarrow> i_max 64)))"

record epoch_sampler_config =
  cfg_policy :: epoch_policy
  cfg_sys :: system_ref_config
  cfg_utc_offset_ns :: int

definition epoch_sampler_default :: epoch_sampler_config where
  "epoch_sampler_default =
     \<lparr>cfg_policy = epoch_policy_default, cfg_sys = system_ref_conservative,
      cfg_utc_offset_ns = DEFAULT_PTP_UTC_OFFSET_NS\<rparr>"

datatype clock_source = SourcePtp | SourceSystem

datatype clock_quality = QualityLocked | QualityHoldover | QualityAcquiring | QualityFreerun

record epoch_status =
  es_epoch :: wallclock_ref
  es_source :: clock_source
  es_quality :: clock_quality
  es_update :: epoch_update

fun clock_source_of :: "ref_source \<Rightarrow> clock_source" where
  "clock_source_of RefPtp = SourcePtp"
| "clock_source_of RefNtp = SourceSystem"
| "clock_source_of RefSystem = SourceSystem"

fun clock_quality_of :: "lock_state \<Rightarrow> clock_quality" where
  "clock_quality_of Locked = QualityLocked"
| "clock_quality_of Holdover = QualityHoldover"
| "clock_quality_of Acquiring = QualityAcquiring"
| "clock_quality_of Freerun = QualityFreerun"

record epoch_sampler =
  sam_seed_nanos :: int
  sam_sys :: system_ref_tracker
  sam_tracker :: epoch_tracker
  ptp_utc_offset_ns :: int
  utc_guard_tripped :: bool

definition epoch_sampler_new :: "int \<Rightarrow> epoch_sampler_config \<Rightarrow> epoch_sampler" where
  "epoch_sampler_new seed_nanos c =
     \<lparr>sam_seed_nanos = seed_nanos, sam_sys = system_ref_new (cfg_sys c),
      sam_tracker = epoch_tracker_new (cfg_policy c), ptp_utc_offset_ns = cfg_utc_offset_ns c,
      utc_guard_tripped = False\<rparr>"

definition default_ptp_status :: reference_status where
  "default_ptp_status =
     \<lparr>status_state = Freerun, status_offset_ns = 0, status_frequency_ppb = 0, status_accepted = 0,
      status_disciplined = False\<rparr>"

text \<open>What one observation reads: the wall sample, the kernel, and the PTP slot if one is attached.\<close>

record epoch_reading =
  er_wall :: wall_sample
  er_kernel :: "ntp_reading option"
  er_ptp :: "reference_status latest_state option"

definition ptp_status_of :: "reference_status latest_state option \<Rightarrow> reference_status" where
  "ptp_status_of h =
     (case h of None \<Rightarrow> default_ptp_status
      | Some slot \<Rightarrow> (case latest_of slot of None \<Rightarrow> default_ptp_status | Some s \<Rightarrow> s))"

text \<open>The wall estimate, its source and its state, and the guard's latch.\<close>

definition wall_estimate ::
  "int \<Rightarrow> bool \<Rightarrow> int \<Rightarrow> lock_state \<Rightarrow> selected_reference \<Rightarrow> (int \<times> ref_source \<times> lock_state) \<times> bool" where
  "wall_estimate utc_offset tripped wall_ns sys_st sel =
     (case sel_source sel of
        RefPtp \<Rightarrow>
          let utc_estimate_ns = sat_sub 64 (sat_sub 64 wall_ns (sel_offset_ns sel)) utc_offset;
              residual_ns = sat_sub 64 utc_estimate_ns wall_ns
          in if UTC_RESIDUAL_GUARD_NS \<le> sat_abs 64 residual_ns
             then ((wall_ns, RefSystem, if sys_st = Locked then Holdover else sys_st), True)
             else ((utc_estimate_ns, RefPtp, sel_state sel), False)
      | other \<Rightarrow> ((wall_ns, other, sel_state sel), tripped))"

definition epoch_sample_once ::
  "epoch_reading \<Rightarrow> epoch_sampler \<Rightarrow> (epoch_status \<times> epoch_sampler) option" where
  "epoch_sample_once e m =
     (let sample = er_wall e;
          (sys_st, sys') = system_ref_sample (er_kernel e) (sam_sys m);
          selected = select_reference sys_st (sys_offset_ns sys') (ptp_status_of (er_ptp e));
          ((wall_ns, source, state), tripped) =
            wall_estimate (ptp_utc_offset_ns m) (utc_guard_tripped m) (sample_wall_ns sample) sys_st selected;
          elapsed = sat_sub 64 (mono_mid_ns sample) (sam_seed_nanos m);
          candidate = wallclock_ref_new (sat_sub 64 wall_ns elapsed) 0 EPOCH_RATE
      in case epoch_observe candidate (sam_tracker m) of
           None \<Rightarrow> None
         | Some (update, tracker') \<Rightarrow>
             Some (\<lparr>es_epoch = (case ep_current tracker' of Some ep \<Rightarrow> ep | None \<Rightarrow> candidate),
                    es_source = clock_source_of source, es_quality = clock_quality_of state,
                    es_update = update\<rparr>,
                   m\<lparr>sam_sys := sys', sam_tracker := tracker', utc_guard_tripped := tripped\<rparr>))"

section \<open>One observation\<close>

definition slew_policy_ok :: "epoch_policy \<Rightarrow> bool" where
  "slew_policy_ok p \<longleftrightarrow> 0 \<le> deadband_ns p \<and> 0 < slew_max_ns p \<and> in_i 64 (slew_max_ns p) \<and>
     deadband_ns p < i_max 64 \<and> 0 \<le> epoch_step_ns p \<and> epoch_step_ns p < i_max 64"

text \<open>The fields of a policy are public and signed: all that is asked of them here is that the thresholds
  are below the largest 64-bit value and that the slew bound can be negated.\<close>

definition policy_fits :: "epoch_policy \<Rightarrow> bool" where
  "policy_fits p \<longleftrightarrow> deadband_ns p < i_max 64 \<and> epoch_step_ns p < i_max 64 \<and> - i_max 64 \<le> slew_max_ns p \<and> slew_max_ns p \<le> i_max 64"

definition epoch_gap :: "wallclock_ref \<Rightarrow> wallclock_ref \<Rightarrow> int" where
  "epoch_gap cur candidate = wall_at candidate (media_at_anchor cur) - wall_at_anchor_ns cur"

lemma wall_at_own_anchor:
  assumes "cadence_ok (rate w)" and "in_i 64 (wall_at_anchor_ns w)"
  shows "wall_at w (media_at_anchor w) = wall_at_anchor_ns w"
proof -
  have "tick_exact (rate w) 0 = 0"
    using cadence_okD(1) [OF assms(1)] rha_mult [of "num (rate w)" 0] by (simp add: tick_exact_def)
  then have "from_tick 0 (rate w) = 0"
    using from_tick_exact [OF assms(1), of 0] by (simp add: tick_fits_def)
  then show ?thesis using assms(2) by (simp add: wall_at_from_tick sat_sub_def sat_add_def)
qed

lemma epoch_rate_ok: "cadence_ok EPOCH_RATE"
  by (simp add: cadence_ok_def rational_ok_def in_i_def i_simps has_subnanosecond_period_def
    sat_mul_def sat_def NANOS_PER_SEC_def EPOCH_RATE_def)

lemma epoch_rate_anchor:
  "in_i 64 w \<Longrightarrow> wall_at \<lparr>wall_at_anchor_ns = w, media_at_anchor = 0, rate = EPOCH_RATE\<rparr> 0 = w"
  "rational_eq EPOCH_RATE EPOCH_RATE"
  using wall_at_own_anchor [of "\<lparr>wall_at_anchor_ns = w, media_at_anchor = 0, rate = EPOCH_RATE\<rparr>"] epoch_rate_ok
  by (simp_all add: rational_eq_def rational_cmp_def cross_terms_def Let_def)

lemma sat_abs_cmp:
  "b < i_max w \<Longrightarrow> sat_abs w x \<le> b \<longleftrightarrow> \<bar>x\<bar> \<le> b"
  "b < i_max w \<Longrightarrow> b < sat_abs w x \<longleftrightarrow> b < \<bar>x\<bar>"
  using i_min_neg [of w] unfolding sat_abs_def sat_def by linarith+

definition epoch_moved :: "wallclock_ref \<Rightarrow> int \<Rightarrow> wallclock_ref" where
  "epoch_moved cur d = cur\<lparr>wall_at_anchor_ns := wall_at_anchor_ns cur + d\<rparr>"

lemma observe_any_policy:
  assumes "policy_fits (ep_policy t)" and "ep_current t = Some cur" and "rational_eq (rate cur) (rate cand)"
    and "in_i 64 (wall_at_anchor_ns cur)" and "in_i 64 (wall_at cand (media_at_anchor cur))"
    and "in_i 64 (epoch_gap cur cand)"
  defines "g \<equiv> epoch_gap cur cand"
  shows "epoch_observe cand t =
     (if \<bar>g\<bar> \<le> deadband_ns (ep_policy t) then Some (HeldEpoch, t)
      else if epoch_step_ns (ep_policy t) < \<bar>g\<bar>
      then Some (Stepped g, t\<lparr>ep_current := Some (epoch_moved cur g)\<rparr>)
      else if slew_max_ns (ep_policy t) < 0 then None
      else let d = max (- slew_max_ns (ep_policy t)) (min (slew_max_ns (ep_policy t)) g)
           in Some (Slewed d, t\<lparr>ep_current := Some (epoch_moved cur d)\<rparr>))"
proof -
  let ?s = "slew_max_ns (ep_policy t)"
  have e: "epoch_error cur cand = g"
    using assms(6) by (simp add: epoch_error_def g_def epoch_gap_def sat_sub_def)
  have n: "wrap_neg 64 ?s = - ?s"
    using assms(1) by (intro wrap_neg_id) (simp_all add: policy_fits_def in_i_def i_simps)
  define d where "d = max (- ?s) (min ?s g)"
  have w: "in_i 64 (wall_at_anchor_ns cur + g)" using assms(5) by (simp add: g_def epoch_gap_def)
  have wd: "in_i 64 (wall_at_anchor_ns cur + d)" if "0 \<le> ?s"
  proof -
    have "d \<in> {min 0 g..max 0 g}" using that by (auto simp: d_def)
    then show ?thesis using w assms(4) by (auto simp: in_i_def min_def max_def split: if_splits)
  qed
  have new: "wallclock_ref_new (wall_at_anchor_ns cur + k) (media_at_anchor cur) (rate cur) = epoch_moved cur k" for k
    by (simp add: wallclock_ref_new_def epoch_moved_def)
  show ?thesis
  proof (cases "?s < 0")
    case True
    then show ?thesis
      using assms(1-3) n w by (simp add: epoch_observe_def e clamp_i_def sat_add_def new Let_def sat_abs_cmp policy_fits_def)
  next
    case False
    then show ?thesis
      using assms(1-3) n w wd
      by (simp add: epoch_observe_def e clamp_i_def sat_add_def new Let_def sat_abs_cmp policy_fits_def flip: d_def)
  qed
qed

lemma slew_policy_fits: "slew_policy_ok p \<Longrightarrow> policy_fits p"
  by (simp add: slew_policy_ok_def policy_fits_def in_i_def i_simps)

lemma observe_same_rate:
  assumes "slew_policy_ok (ep_policy t)" and "ep_current t = Some cur" and "rational_eq (rate cur) (rate cand)"
    and "in_i 64 (wall_at_anchor_ns cur)" and "in_i 64 (wall_at cand (media_at_anchor cur))"
    and "in_i 64 (epoch_gap cur cand)"
  defines "g \<equiv> epoch_gap cur cand"
  shows "epoch_observe cand t =
     (if \<bar>g\<bar> \<le> deadband_ns (ep_policy t) then Some (HeldEpoch, t)
      else if epoch_step_ns (ep_policy t) < \<bar>g\<bar>
      then Some (Stepped g, t\<lparr>ep_current := Some (epoch_moved cur g)\<rparr>)
      else let d = max (- slew_max_ns (ep_policy t)) (min (slew_max_ns (ep_policy t)) g)
           in Some (Slewed d, t\<lparr>ep_current := Some (epoch_moved cur d)\<rparr>))"
proof -
  have "\<not> slew_max_ns (ep_policy t) < 0" using assms(1) by (simp add: slew_policy_ok_def)
  then show ?thesis
    unfolding g_def observe_any_policy [OF slew_policy_fits [OF assms(1)] assms(2-6)] by (simp only: if_False)
qed

lemma epoch_moved_gap [simp]: "epoch_gap (epoch_moved cur d) cand = epoch_gap cur cand - d"
  by (simp add: epoch_gap_def epoch_moved_def)

lemma epoch_moved_simps [simp]:
  "media_at_anchor (epoch_moved cur d) = media_at_anchor cur" "rate (epoch_moved cur d) = rate cur"
  "wall_at_anchor_ns (epoch_moved cur d) = wall_at_anchor_ns cur + d"
  by (simp_all add: epoch_moved_def)

definition epoch_fits :: "wallclock_ref \<Rightarrow> wallclock_ref \<Rightarrow> bool" where
  "epoch_fits cur cand \<longleftrightarrow> rational_eq (rate cur) (rate cand) \<and> in_i 64 (wall_at_anchor_ns cur) \<and>
     in_i 64 (wall_at cand (media_at_anchor cur)) \<and> in_i 64 (epoch_gap cur cand)"

lemma observe_moves:
  assumes "slew_policy_ok (ep_policy t)" and "ep_current t = Some cur" and "epoch_fits cur cand"
  obtains u t' d where "epoch_observe cand t = Some (u, t')" and "ep_current t' = Some (epoch_moved cur d)"
    and "ep_policy t' = ep_policy t" and "min 0 (epoch_gap cur cand) \<le> d" and "d \<le> max 0 (epoch_gap cur cand)"
    and "\<bar>epoch_gap cur cand - d\<bar> \<le> max (deadband_ns (ep_policy t)) (\<bar>epoch_gap cur cand\<bar> - slew_max_ns (ep_policy t))"
proof -
  define g where "g = epoch_gap cur cand"
  define s where "s = slew_max_ns (ep_policy t)"
  have o: "epoch_observe cand t =
     (if \<bar>g\<bar> \<le> deadband_ns (ep_policy t) then Some (HeldEpoch, t)
      else if epoch_step_ns (ep_policy t) < \<bar>g\<bar>
      then Some (Stepped g, t\<lparr>ep_current := Some (epoch_moved cur g)\<rparr>)
      else let d = max (- s) (min s g) in Some (Slewed d, t\<lparr>ep_current := Some (epoch_moved cur d)\<rparr>))"
    using assms unfolding g_def s_def by (intro observe_same_rate) (simp_all add: epoch_fits_def)
  have p: "0 < s" "0 \<le> deadband_ns (ep_policy t)" using assms(1) by (simp_all add: slew_policy_ok_def s_def)
  have stay: "epoch_moved cur 0 = cur" by (simp add: epoch_moved_def)
  consider (hold) "\<bar>g\<bar> \<le> deadband_ns (ep_policy t)"
    | (move) "\<not> \<bar>g\<bar> \<le> deadband_ns (ep_policy t)" "epoch_step_ns (ep_policy t) < \<bar>g\<bar>"
    | (slew) "\<not> \<bar>g\<bar> \<le> deadband_ns (ep_policy t)" "\<not> epoch_step_ns (ep_policy t) < \<bar>g\<bar>"
    by blast
  then show ?thesis
  proof cases
    case hold
    then show ?thesis using o assms(2) stay that [of HeldEpoch t 0] by (simp flip: g_def)
  next
    case move
    then show ?thesis
      using o p that [of "Stepped g" "t\<lparr>ep_current := Some (epoch_moved cur g)\<rparr>" g] by (simp flip: g_def s_def)
  next
    case slew
    define d where "d = max (- s) (min s g)"
    have "min 0 g \<le> d" "d \<le> max 0 g" "\<bar>g - d\<bar> \<le> max (deadband_ns (ep_policy t)) (\<bar>g\<bar> - s)"
      using p by (auto simp: d_def max_def min_def)
    then show ?thesis
      using slew o that [of "Slewed d" "t\<lparr>ep_current := Some (epoch_moved cur d)\<rparr>" d]
      by (simp add: Let_def flip: g_def s_def d_def)
  qed
qed

lemma epoch_fits_moved:
  assumes "epoch_fits cur cand" and "min 0 (epoch_gap cur cand) \<le> d" and "d \<le> max 0 (epoch_gap cur cand)"
  shows "epoch_fits (epoch_moved cur d) cand"
  using assms by (auto simp: epoch_fits_def epoch_gap_def in_i_def i_simps min_def max_def split: if_splits)

text \<open>C39: The published map never jumps unless it must. Take any policy whose thresholds are below the largest
  64-bit value (and whose slew bound is not the smallest one), a current map, and a candidate of the
  same rate, their clock values and their distance fitting 64 bits; the distance is measured at the
  media anchor of the current map. If it is within the dead band, nothing changes. Otherwise, if it
  exceeds the step threshold, the map lands exactly on the candidate. Otherwise the wall anchor moves
  towards the candidate by \<open>slew_max_ns\<close> or the whole distance, whichever is less, and never past it.
  The media anchor and the rate are always kept. An observation panics exactly when it has to slew
  and the bound \<open>slew_max_ns\<close>, a public signed field, is negative.\<close>

theorem epoch_never_jumps:
  assumes "policy_fits (ep_policy t)" and "ep_current t = Some cur" and "epoch_fits cur cand"
  defines "g \<equiv> epoch_gap cur cand"
  shows "if \<bar>g\<bar> \<le> deadband_ns (ep_policy t) then epoch_observe cand t = Some (HeldEpoch, t)
    else if epoch_step_ns (ep_policy t) < \<bar>g\<bar>
    then \<exists>new. epoch_observe cand t = Some (Stepped g, t\<lparr>ep_current := Some new\<rparr>) \<and> epoch_gap new cand = 0 \<and>
      media_at_anchor new = media_at_anchor cur \<and> rate new = rate cur
    else if slew_max_ns (ep_policy t) < 0 then epoch_observe cand t = None
    else \<exists>d new. epoch_observe cand t = Some (Slewed d, t\<lparr>ep_current := Some new\<rparr>) \<and>
      \<bar>d\<bar> = min (slew_max_ns (ep_policy t)) \<bar>g\<bar> \<and> \<bar>epoch_gap new cand\<bar> = \<bar>g\<bar> - \<bar>d\<bar> \<and>
      wall_at_anchor_ns new = wall_at_anchor_ns cur + d \<and>
      media_at_anchor new = media_at_anchor cur \<and> rate new = rate cur"
proof -
  define s where "s = slew_max_ns (ep_policy t)"
  have o: "epoch_observe cand t =
     (if \<bar>g\<bar> \<le> deadband_ns (ep_policy t) then Some (HeldEpoch, t)
      else if epoch_step_ns (ep_policy t) < \<bar>g\<bar> then Some (Stepped g, t\<lparr>ep_current := Some (epoch_moved cur g)\<rparr>)
      else if s < 0 then None
      else let d = max (- s) (min s g) in Some (Slewed d, t\<lparr>ep_current := Some (epoch_moved cur d)\<rparr>))"
    unfolding g_def s_def using assms(1-3) by (intro observe_any_policy) (simp_all add: epoch_fits_def)
  define d where "d = max (- s) (min s g)"
  have d: "\<not> s < 0 \<Longrightarrow> \<bar>d\<bar> = min s \<bar>g\<bar> \<and> \<bar>g - d\<bar> = \<bar>g\<bar> - \<bar>d\<bar>" by (auto simp: d_def max_def min_def)
  have g: "epoch_gap (epoch_moved cur k) cand = g - k" for k by (simp add: g_def)
  show ?thesis
  proof (cases "\<bar>g\<bar> \<le> deadband_ns (ep_policy t)")
    case False
    show ?thesis
    proof (cases "epoch_step_ns (ep_policy t) < \<bar>g\<bar>")
      case True
      then show ?thesis using False o g [of g] by (simp add: exI [of _ "epoch_moved cur g"])
    next
      case slew: False
      then show ?thesis
        using False o d g [of d] by (simp add: Let_def flip: d_def s_def) (intro impI exI [of _ "epoch_moved cur d"], simp)
    qed
  qed (use o in simp)
qed

theorem epoch_never_jumps_witness:
  "\<exists>new. epoch_observe (wallclock_ref_new 1700000000040000000 0 EPOCH_RATE)
     \<lparr>ep_policy = epoch_policy_default,
      ep_current = Some (wallclock_ref_new 1700000000000000000 0 EPOCH_RATE)\<rparr> =
     Some (Slewed 5000000, \<lparr>ep_policy = epoch_policy_default, ep_current = Some new\<rparr>) \<and>
     wall_at_anchor_ns new = 1700000000005000000"
proof -
  have fits: "epoch_fits (wallclock_ref_new 1700000000000000000 0 EPOCH_RATE)
      (wallclock_ref_new 1700000000040000000 0 EPOCH_RATE)"
    and gap: "epoch_gap (wallclock_ref_new 1700000000000000000 0 EPOCH_RATE)
      (wallclock_ref_new 1700000000040000000 0 EPOCH_RATE) = 40000000"
    by (simp_all add: epoch_fits_def epoch_gap_def wallclock_ref_new_def epoch_rate_anchor in_i_def i_simps)
  let ?t = "\<lparr>ep_policy = epoch_policy_default, ep_current = Some (wallclock_ref_new 1700000000000000000 0 EPOCH_RATE)\<rparr>"
  have "policy_fits (ep_policy ?t)" by (simp add: policy_fits_def epoch_policy_default_def i_simps)
  from epoch_never_jumps [OF this _ fits, unfolded gap] obtain d new where
    n: "epoch_observe (wallclock_ref_new 1700000000040000000 0 EPOCH_RATE) ?t = Some (Slewed d, ?t\<lparr>ep_current := Some new\<rparr>)"
      "\<bar>d\<bar> = 5000000" "\<bar>epoch_gap new (wallclock_ref_new 1700000000040000000 0 EPOCH_RATE)\<bar> = 35000000"
      "wall_at_anchor_ns new = 1700000000000000000 + d" "media_at_anchor new = 0"
    by (auto simp: epoch_policy_default_def wallclock_ref_new_def)
  then have "d = 5000000" by (auto simp: epoch_gap_def wallclock_ref_new_def epoch_rate_anchor in_i_def i_simps abs_if split: if_splits)
  with n show ?thesis by auto
qed

text \<open>With a negative bound the first correction panics: ten milliseconds are beyond the dead band.\<close>

lemma negative_slew_panics:
  "epoch_observe (wallclock_ref_new 10000000 0 EPOCH_RATE)
     \<lparr>ep_policy = epoch_policy_default\<lparr>slew_max_ns := - 1\<rparr>, ep_current = Some (wallclock_ref_new 0 0 EPOCH_RATE)\<rparr> = None"
proof -
  let ?cur = "wallclock_ref_new 0 0 EPOCH_RATE" and ?cand = "wallclock_ref_new 10000000 0 EPOCH_RATE"
  have g: "epoch_gap ?cur ?cand = 10000000" and fits: "epoch_fits ?cur ?cand"
    by (simp_all add: epoch_fits_def epoch_gap_def wallclock_ref_new_def epoch_rate_anchor in_i_def i_simps)
  show ?thesis
    using observe_any_policy [of "\<lparr>ep_policy = epoch_policy_default\<lparr>slew_max_ns := - 1\<rparr>, ep_current = Some ?cur\<rparr>" ?cur ?cand] fits
    by (simp add: epoch_fits_def g policy_fits_def epoch_policy_default_def i_simps)
qed

section \<open>Convergence\<close>

definition epoch_repeat :: "nat \<Rightarrow> wallclock_ref \<Rightarrow> epoch_tracker \<Rightarrow> epoch_tracker option" where
  "epoch_repeat n cand t =
     ((\<lambda>m. case m of None \<Rightarrow> None | Some t \<Rightarrow> map_option snd (epoch_observe cand t)) ^^ n) (Some t)"

lemma epoch_repeat_Suc:
  "epoch_repeat (Suc n) cand t =
     (case epoch_observe cand t of None \<Rightarrow> None | Some (u, t') \<Rightarrow> epoch_repeat n cand t')"
proof -
  have none: "((\<lambda>m. case m of None \<Rightarrow> None | Some t \<Rightarrow> map_option snd (epoch_observe cand t)) ^^ n) None = None"
    by (induction n) simp_all
  show ?thesis
    by (simp add: epoch_repeat_def funpow_swap1 none split: option.split)
qed

text \<open>A steady clock is reached: repeating one candidate brings the map within the dead band after at
  most as many observations as the slew bound fits into the initial error, and it stays.\<close>

lemma epoch_repeat_settles:
  "slew_policy_ok (ep_policy t) \<Longrightarrow> ep_current t = Some cur \<Longrightarrow> epoch_fits cur cand \<Longrightarrow>
   \<bar>epoch_gap cur cand\<bar> \<le> deadband_ns (ep_policy t) + int n * slew_max_ns (ep_policy t) \<Longrightarrow>
   \<exists>t' new. epoch_repeat n cand t = Some t' \<and> ep_current t' = Some new \<and>
     \<bar>epoch_gap new cand\<bar> \<le> deadband_ns (ep_policy t)"
proof (induction n arbitrary: t cur)
  case 0
  then show ?case by (simp add: epoch_repeat_def)
next
  case (Suc n)
  obtain u t' d where o: "epoch_observe cand t = Some (u, t')" "ep_current t' = Some (epoch_moved cur d)"
    and p: "ep_policy t' = ep_policy t" and d: "min 0 (epoch_gap cur cand) \<le> d" "d \<le> max 0 (epoch_gap cur cand)"
    and g: "\<bar>epoch_gap cur cand - d\<bar> \<le>
        max (deadband_ns (ep_policy t)) (\<bar>epoch_gap cur cand\<bar> - slew_max_ns (ep_policy t))"
    using observe_moves [OF Suc.prems(1-3)] by metis
  have "\<bar>epoch_gap (epoch_moved cur d) cand\<bar> \<le> deadband_ns (ep_policy t) + int n * slew_max_ns (ep_policy t)"
  proof -
    have "0 \<le> int n * slew_max_ns (ep_policy t)" using Suc.prems(1) by (simp add: slew_policy_ok_def)
    then show ?thesis using g Suc.prems(4) by (simp add: distrib_right max_def split: if_splits)
  qed
  then show ?case
    using Suc.IH [of t' "epoch_moved cur d"] Suc.prems(1) o p epoch_fits_moved [OF Suc.prems(3) d]
    by (simp add: epoch_repeat_Suc)
qed

section \<open>The guard\<close>

lemma guard_keeps_near:
  assumes "in_i 64 wall_ns" and "wall_estimate off tripped wall_ns sys_st sel = ((w, src, st), tripped')"
  shows "\<bar>w - wall_ns\<bar> < UTC_RESIDUAL_GUARD_NS \<and> in_i 64 w \<and>
     (src = RefPtp \<longrightarrow> sel_source sel = RefPtp \<and> st = sel_state sel) \<and>
     (tripped' \<and> sel_source sel = RefPtp \<longrightarrow> src = RefSystem \<and> st \<noteq> Locked)"
proof -
  have near: "\<bar>x - wall_ns\<bar> < UTC_RESIDUAL_GUARD_NS"
    if "\<not> UTC_RESIDUAL_GUARD_NS \<le> sat_abs 64 (sat_sub 64 x wall_ns)" for x
    using that by (auto simp: UTC_RESIDUAL_GUARD_NS_def sat_abs_def sat_sub_def sat_def i_simps)
  have g: "0 < UTC_RESIDUAL_GUARD_NS" by (simp add: UTC_RESIDUAL_GUARD_NS_def)
  show ?thesis
    using assms near g
    by (auto simp: wall_estimate_def Let_def split: ref_source.splits if_splits)
qed

text \<open>A run of observations, each of which may fail only by panicking.\<close>

fun epoch_run :: "epoch_reading list \<Rightarrow> epoch_sampler \<Rightarrow> (epoch_status list \<times> epoch_sampler) option" where
  "epoch_run [] m = Some ([], m)"
| "epoch_run (e # es) m =
     (case epoch_sample_once e m of
        None \<Rightarrow> None
      | Some (st, m') \<Rightarrow> map_option (apfst ((#) st)) (epoch_run es m'))"

text \<open>A host whose system clock is right: each wall reading, projected back to tick 0 over the monotonic
  time since the seed, lies within \<open>j\<close> of one instant \<open>k\<close>.\<close>

definition host_clock_ok :: "int \<Rightarrow> int \<Rightarrow> int \<Rightarrow> wall_sample \<Rightarrow> bool" where
  "host_clock_ok seed k j s \<longleftrightarrow>
     0 \<le> mono_before_ns s \<and> mono_before_ns s \<le> mono_after_ns s \<and> mono_after_ns s \<le> 2 ^ 61 \<and>
     0 \<le> sample_wall_ns s \<and> sample_wall_ns s \<le> 2 ^ 62 \<and>
     \<bar>sample_wall_ns s - (mono_before_ns s + (mono_after_ns s - mono_before_ns s) div 2 - seed) - k\<bar> \<le> j"

definition tracked_near :: "int \<Rightarrow> int \<Rightarrow> epoch_tracker \<Rightarrow> bool" where
  "tracked_near k r t \<longleftrightarrow> slew_policy_ok (ep_policy t) \<and>
     (\<forall>cur. ep_current t = Some cur \<longrightarrow> media_at_anchor cur = 0 \<and> rate cur = EPOCH_RATE \<and>
        \<bar>wall_at_anchor_ns cur - k\<bar> < r)"

lemma tracked_near_observe:
  assumes "tracked_near k r t" and "\<bar>w - k\<bar> < r" and "\<bar>k\<bar> \<le> 2 ^ 62" and "r \<le> 2 ^ 61"
  shows "\<exists>u t' cur. epoch_observe (wallclock_ref_new w 0 EPOCH_RATE) t = Some (u, t') \<and>
     tracked_near k r t' \<and> ep_current t' = Some cur"
proof (cases "ep_current t")
  case None
  then show ?thesis using assms by (simp add: epoch_observe_def tracked_near_def wallclock_ref_new_def)
next
  case (Some cur)
  let ?c = "wallclock_ref_new w 0 EPOCH_RATE"
  have cur: "media_at_anchor cur = 0" "rate cur = EPOCH_RATE" "\<bar>wall_at_anchor_ns cur - k\<bar> < r"
    using assms(1) Some by (simp_all add: tracked_near_def)
  have w: "in_i 64 w" "in_i 64 (wall_at_anchor_ns cur)" "in_i 64 (w - wall_at_anchor_ns cur)"
    using assms(2-4) cur(3) by (auto simp: in_i_def i_simps)
  have at0: "wall_at ?c 0 = w" using w(1) by (simp add: wallclock_ref_new_def epoch_rate_anchor)
  have "epoch_fits cur ?c"
    using w cur at0 by (simp add: epoch_fits_def epoch_gap_def epoch_rate_anchor(2)) (simp add: wallclock_ref_new_def epoch_rate_anchor(2))
  moreover have "slew_policy_ok (ep_policy t)" using assms(1) by (simp add: tracked_near_def)
  ultimately obtain u t' d where o: "epoch_observe ?c t = Some (u, t')" "ep_current t' = Some (epoch_moved cur d)"
      "ep_policy t' = ep_policy t" "min 0 (epoch_gap cur ?c) \<le> d" "d \<le> max 0 (epoch_gap cur ?c)"
    using observe_moves [OF _ Some] by metis
  then have "\<bar>wall_at_anchor_ns cur + d - k\<bar> < r"
    using assms(2) cur at0 by (simp add: epoch_gap_def min_def max_def split: if_splits)
  then show ?thesis
    using o cur assms(1) by (auto simp: tracked_near_def)
qed

lemma mid_exact:
  assumes "0 \<le> mono_before_ns s" and "mono_before_ns s \<le> mono_after_ns s" and "mono_after_ns s \<le> 2 ^ 61"
  shows "mono_mid_ns s = mono_before_ns s + (mono_after_ns s - mono_before_ns s) div 2"
    and "mono_before_ns s \<le> mono_mid_ns s" and "mono_mid_ns s \<le> mono_after_ns s"
proof -
  define span where "span = mono_after_ns s - mono_before_ns s"
  have h: "0 \<le> span" "0 \<le> span div 2" "span div 2 \<le> span"
    using assms(2) zdiv_mono2 [of span 1 2] by (simp_all add: span_def)
  have "in_i 64 span" "in_i 64 (mono_before_ns s + span div 2)"
    using h assms by (simp_all add: span_def in_i_def i_simps)
  then show e: "mono_mid_ns s = mono_before_ns s + (mono_after_ns s - mono_before_ns s) div 2"
    by (simp add: mono_mid_ns_def sat_sub_def sat_add_def Let_def span_def)
  show "mono_before_ns s \<le> mono_mid_ns s" "mono_mid_ns s \<le> mono_after_ns s"
    using h e by (simp_all add: span_def)
qed

lemma sample_once_near:
  assumes near: "tracked_near k (j + UTC_RESIDUAL_GUARD_NS) (sam_tracker m)"
    and seed: "0 \<le> sam_seed_nanos m" "sam_seed_nanos m \<le> 2 ^ 61"
    and host: "host_clock_ok (sam_seed_nanos m) k j (er_wall e)" and j: "j \<le> 2 ^ 60" and k: "\<bar>k\<bar> \<le> 2 ^ 62"
  shows "\<exists>st m'. epoch_sample_once e m = Some (st, m') \<and>
     tracked_near k (j + UTC_RESIDUAL_GUARD_NS) (sam_tracker m') \<and> sam_seed_nanos m' = sam_seed_nanos m \<and>
     media_at_anchor (es_epoch st) = 0 \<and> rate (es_epoch st) = EPOCH_RATE \<and>
     \<bar>wall_at_anchor_ns (es_epoch st) - k\<bar> < j + UTC_RESIDUAL_GUARD_NS"
proof -
  define s where "s = er_wall e"
  obtain q sys' where q: "system_ref_sample (er_kernel e) (sam_sys m) = (q, sys')" by force
  obtain w src st trip where w: "wall_estimate (ptp_utc_offset_ns m) (utc_guard_tripped m) (sample_wall_ns s) q
      (select_reference q (sys_offset_ns sys') (ptp_status_of (er_ptp e))) = ((w, src, st), trip)"
    by (metis prod.exhaust)
  have hs: "0 \<le> mono_before_ns s" "mono_before_ns s \<le> mono_after_ns s" "mono_after_ns s \<le> 2 ^ 61"
      "0 \<le> sample_wall_ns s" "sample_wall_ns s \<le> 2 ^ 62"
    using host by (simp_all add: host_clock_ok_def s_def)
  note mid = mid_exact [OF hs(1-3)]
  have "in_i 64 (sample_wall_ns s)" using hs by (simp add: in_i_def i_simps)
  then have g: "\<bar>w - sample_wall_ns s\<bar> < UTC_RESIDUAL_GUARD_NS" using guard_keeps_near w by metis
  define el where "el = mono_mid_ns s - sam_seed_nanos m"
  have "in_i 64 el" using mid(2,3) hs seed by (simp add: el_def in_i_def i_simps)
  then have el: "sat_sub 64 (mono_mid_ns s) (sam_seed_nanos m) = el" by (simp add: sat_sub_def el_def)
  have "in_i 64 (w - el)"
    using g mid(2,3) hs seed unfolding el_def in_i_def i_simps UTC_RESIDUAL_GUARD_NS_def by auto
  then have c: "sat_sub 64 w el = w - el" by (simp add: sat_sub_def)
  have "\<bar>sample_wall_ns s - el - k\<bar> \<le> j"
    using host mid(1) by (simp add: host_clock_ok_def el_def flip: s_def)
  then have near': "\<bar>w - el - k\<bar> < j + UTC_RESIDUAL_GUARD_NS" using g by linarith
  obtain u t' cur where o: "epoch_observe (wallclock_ref_new (w - el) 0 EPOCH_RATE) (sam_tracker m) = Some (u, t')"
      "tracked_near k (j + UTC_RESIDUAL_GUARD_NS) t'" "ep_current t' = Some cur"
    using tracked_near_observe [OF near near' k] j by (auto simp: UTC_RESIDUAL_GUARD_NS_def)
  show ?thesis
    using o q w el c by (simp add: epoch_sample_once_def Let_def tracked_near_def flip: s_def)
qed

lemma epoch_run_near:
  assumes "0 \<le> seed" "seed \<le> 2 ^ 61" and "j \<le> 2 ^ 60" and "\<bar>k\<bar> \<le> 2 ^ 62"
  shows "tracked_near k (j + UTC_RESIDUAL_GUARD_NS) (sam_tracker m) \<Longrightarrow> sam_seed_nanos m = seed \<Longrightarrow>
     \<forall>e\<in>set es. host_clock_ok seed k j (er_wall e) \<Longrightarrow>
     \<exists>sts m'. epoch_run es m = Some (sts, m') \<and> length sts = length es \<and>
       (\<forall>st\<in>set sts. media_at_anchor (es_epoch st) = 0 \<and> rate (es_epoch st) = EPOCH_RATE \<and>
          \<bar>wall_at_anchor_ns (es_epoch st) - k\<bar> < j + UTC_RESIDUAL_GUARD_NS)"
proof (induction es arbitrary: m)
  case Nil
  then show ?case by simp
next
  case (Cons e es)
  have "host_clock_ok (sam_seed_nanos m) k j (er_wall e)" using Cons.prems by simp
  from sample_once_near [OF Cons.prems(1) _ _ this assms(3,4)] assms(1,2) Cons.prems(2)
  obtain st m' where s: "epoch_sample_once e m = Some (st, m')"
     "tracked_near k (j + UTC_RESIDUAL_GUARD_NS) (sam_tracker m')" "sam_seed_nanos m' = seed"
     "media_at_anchor (es_epoch st) = 0 \<and> rate (es_epoch st) = EPOCH_RATE \<and>
      \<bar>wall_at_anchor_ns (es_epoch st) - k\<bar> < j + UTC_RESIDUAL_GUARD_NS"
    by auto
  have "\<forall>e\<in>set es. host_clock_ok seed k j (er_wall e)" using Cons.prems(3) by simp
  from Cons.IH [OF s(2,3) this] s(1,4) show ?case by auto
qed

text \<open>No PTP reference can drag the published epoch away from the host clock. On a host whose system
  clock is right to within \<open>j\<close>, over any number of observations, with any kernel discipline and
  any PTP status whatever, the sampler never panics and every map it publishes places tick 0
  within 30 seconds plus \<open>j\<close> of the true instant.\<close>

theorem epoch_stays_near_host_clock:
  assumes "slew_policy_ok (cfg_policy c)" and "0 \<le> seed" and "seed \<le> 2 ^ 61"
    and "0 \<le> j" and "j \<le> 2 ^ 60" and "\<bar>k\<bar> \<le> 2 ^ 62"
    and "\<forall>e\<in>set es. host_clock_ok seed k j (er_wall e)"
  shows "\<exists>sts m. epoch_run es (epoch_sampler_new seed c) = Some (sts, m) \<and> length sts = length es \<and>
     (\<forall>st\<in>set sts. \<bar>wall_at (es_epoch st) 0 - k\<bar> < UTC_RESIDUAL_GUARD_NS + j)"
proof -
  have "tracked_near k (j + UTC_RESIDUAL_GUARD_NS) (sam_tracker (epoch_sampler_new seed c))"
    using assms(1) by (simp add: tracked_near_def epoch_sampler_new_def epoch_tracker_new_def)
  from epoch_run_near [OF assms(2,3,5,6) this _ assms(7)]
  obtain sts m where r: "epoch_run es (epoch_sampler_new seed c) = Some (sts, m)" "length sts = length es"
    "\<forall>st\<in>set sts. media_at_anchor (es_epoch st) = 0 \<and> rate (es_epoch st) = EPOCH_RATE \<and>
       \<bar>wall_at_anchor_ns (es_epoch st) - k\<bar> < j + UTC_RESIDUAL_GUARD_NS"
    by (auto simp: epoch_sampler_new_def)
  have "wall_at (es_epoch st) 0 = wall_at_anchor_ns (es_epoch st)" if "st \<in> set sts" for st
  proof -
    have n: "media_at_anchor (es_epoch st) = 0" "cadence_ok (rate (es_epoch st))"
      "\<bar>wall_at_anchor_ns (es_epoch st) - k\<bar> < j + UTC_RESIDUAL_GUARD_NS"
      using r(3) that epoch_rate_ok by simp_all
    have "in_i 64 (wall_at_anchor_ns (es_epoch st))"
      using n(3) assms(5,6) by (auto simp: in_i_def i_simps UTC_RESIDUAL_GUARD_NS_def)
    then show ?thesis using wall_at_own_anchor n(1,2) by metis
  qed
  then show ?thesis using r by (auto simp: add.commute)
qed

theorem epoch_stays_near_host_clock_witness:
  "\<exists>sts m. epoch_run [\<lparr>er_wall = \<lparr>mono_before_ns = 5000, sample_wall_ns = 1700000000000005000, mono_after_ns = 5010\<rparr>,
         er_kernel = None,
         er_ptp = Some (snd (latest_publish \<lparr>status_state = Locked, status_offset_ns = - 900000000000,
            status_frequency_ppb = 0, status_accepted = 9, status_disciplined = True\<rparr> latest_new))\<rparr>]
       (epoch_sampler_new 1000 epoch_sampler_default) = Some (sts, m) \<and> length sts = 1"
proof -
  let ?es = "[\<lparr>er_wall = \<lparr>mono_before_ns = 5000, sample_wall_ns = 1700000000000005000, mono_after_ns = 5010\<rparr>,
         er_kernel = None,
         er_ptp = Some (snd (latest_publish \<lparr>status_state = Locked, status_offset_ns = - 900000000000,
            status_frequency_ppb = 0, status_accepted = 9, status_disciplined = True\<rparr> latest_new))\<rparr>]"
  have p: "slew_policy_ok (cfg_policy epoch_sampler_default)"
    by (simp add: slew_policy_ok_def epoch_sampler_default_def epoch_policy_default_def in_i_def i_simps)
  have h: "\<forall>e\<in>set ?es. host_clock_ok 1000 1700000000000001000 10 (er_wall e)"
    by (simp add: host_clock_ok_def)
  from epoch_stays_near_host_clock [OF p _ _ _ _ _ h] show ?thesis by auto
qed

text \<open>A PTP label is never claimed for a reference that is not disciplined, and an observation that the
  guard rejects never claims a lock.\<close>

lemma labels_are_honest:
  assumes "epoch_sample_once e m = Some (st, m')" and "in_i 64 (sample_wall_ns (er_wall e))"
  shows "(es_source st = SourcePtp \<longrightarrow> is_disciplined (status_state (ptp_status_of (er_ptp e))) \<and>
       es_quality st = clock_quality_of (status_state (ptp_status_of (er_ptp e)))) \<and>
     (utc_guard_tripped m' \<and> is_disciplined (status_state (ptp_status_of (er_ptp e))) \<longrightarrow>
       es_source st = SourceSystem \<and> es_quality st \<noteq> QualityLocked)"
proof -
  obtain q sys' where q: "system_ref_sample (er_kernel e) (sam_sys m) = (q, sys')" by force
  define sel where "sel = select_reference q (sys_offset_ns sys') (ptp_status_of (er_ptp e))"
  obtain w src ls trip where w: "wall_estimate (ptp_utc_offset_ns m) (utc_guard_tripped m)
      (sample_wall_ns (er_wall e)) q sel = ((w, src, ls), trip)"
    by (metis prod.exhaust)
  note g = guard_keeps_near [OF assms(2) w]
  have lab: "es_source st = clock_source_of src" "es_quality st = clock_quality_of ls" "utc_guard_tripped m' = trip"
    using assms(1) q w by (auto simp: epoch_sample_once_def Let_def sel_def split: option.splits prod.splits)
  have s: "sel_source sel = RefPtp \<longleftrightarrow> is_disciplined (status_state (ptp_status_of (er_ptp e)))"
    "sel_source sel = RefPtp \<longrightarrow> sel_state sel = status_state (ptp_status_of (er_ptp e))"
    by (simp_all add: sel_def select_reference_def)
  have "clock_source_of src = SourcePtp \<longleftrightarrow> src = RefPtp" "clock_quality_of ls = QualityLocked \<longleftrightarrow> ls = Locked"
    by (cases src; simp) (cases ls; simp)
  then show ?thesis using g lab s by auto
qed

end
