(* ===== verification/Stream_Identity.thy ===== *)
theory Stream_Identity
  imports Key_Trust Media_Time
begin

text \<open>
  \<open>multiview-core/src/stream.rs\<close>: what identifies one elementary stream of an input. Kinds and their
  classification from a codec name, language tags (parsed and normalised), stable identifiers with
  their stability tier, descriptors and inventories. Strings are their UTF-8 bytes. The digest of the
  standard library's \<open>DefaultHasher\<close>, whose algorithm is unspecified, is an argument.
\<close>

section \<open>ASCII\<close>

definition ascii_upper_letter :: "byte \<Rightarrow> bool" where
  "ascii_upper_letter b \<longleftrightarrow> 65 \<le> b \<and> b \<le> 90"

definition ascii_lower_letter :: "byte \<Rightarrow> bool" where
  "ascii_lower_letter b \<longleftrightarrow> 97 \<le> b \<and> b \<le> 122"

definition ascii_alphabetic :: "byte \<Rightarrow> bool" where
  "ascii_alphabetic b \<longleftrightarrow> ascii_upper_letter b \<or> ascii_lower_letter b"

definition ascii_alphanumeric :: "byte \<Rightarrow> bool" where
  "ascii_alphanumeric b \<longleftrightarrow> ascii_alphabetic b \<or> (48 \<le> b \<and> b \<le> 57)"

definition ascii_lower :: "byte \<Rightarrow> byte" where
  "ascii_lower b = (if ascii_upper_letter b then b + 32 else b)"

definition ascii_upper :: "byte \<Rightarrow> byte" where
  "ascii_upper b = (if ascii_lower_letter b then b - 32 else b)"

definition eq_ignore_ascii_case :: "rstr \<Rightarrow> rstr \<Rightarrow> bool" where
  "eq_ignore_ascii_case a b \<longleftrightarrow> map ascii_lower a = map ascii_lower b"

lemmas ascii_defs = ascii_lower_def ascii_upper_def ascii_alphabetic_def ascii_alphanumeric_def
  ascii_upper_letter_def ascii_lower_letter_def

lemma upper_to_lower: "ascii_upper_letter b \<Longrightarrow> ascii_lower_letter (b + 32)"
  unfolding ascii_upper_letter_def ascii_lower_letter_def
  by (simp add: word_le_nat_alt unat_word_ariths)

lemma lower_to_upper: "ascii_lower_letter b \<Longrightarrow> ascii_upper_letter (b - 32)"
  unfolding ascii_upper_letter_def ascii_lower_letter_def
  by (auto simp: word_le_nat_alt unat_sub)

lemma letter_cases_disjoint: "ascii_lower_letter b \<Longrightarrow> \<not> ascii_upper_letter b"
  unfolding ascii_upper_letter_def ascii_lower_letter_def by (simp add: word_le_nat_alt)

lemma ascii_lower_cases:
  "ascii_lower b = (if ascii_upper_letter b then b + 32 else b)"
  "ascii_upper b = (if ascii_lower_letter b then b - 32 else b)"
  by (simp_all add: ascii_lower_def ascii_upper_def)

lemma ascii_case_simps [simp]:
  "ascii_lower (ascii_lower b) = ascii_lower b" "ascii_upper (ascii_upper b) = ascii_upper b"
  "ascii_lower (ascii_upper b) = ascii_lower b" "ascii_upper (ascii_lower b) = ascii_upper b"
  "ascii_alphabetic (ascii_lower b) = ascii_alphabetic b" "ascii_alphabetic (ascii_upper b) = ascii_alphabetic b"
  using upper_to_lower [of b] lower_to_upper [of b] letter_cases_disjoint [of b]
    letter_cases_disjoint [of "b + 32"] letter_cases_disjoint [of "b - 32"]
  by (auto simp: ascii_lower_def ascii_upper_def ascii_alphabetic_def)

lemma ascii_not_letter [simp]:
  "\<not> ascii_alphabetic b \<Longrightarrow> ascii_lower b = b" "\<not> ascii_alphabetic b \<Longrightarrow> ascii_upper b = b"
  by (auto simp: ascii_lower_def ascii_upper_def ascii_alphabetic_def)

lemma ascii_alnum_case [simp]:
  "ascii_alphanumeric (ascii_lower b) = ascii_alphanumeric b"
  "ascii_alphanumeric (ascii_upper b) = ascii_alphanumeric b"
  by (cases "ascii_alphabetic b"; simp add: ascii_alphanumeric_def)+

section \<open>Kinds\<close>

datatype data_kind = Scte35 | Klv

datatype tc_source_kind = Ltc | Vitc | AtcRp188 | TcGenerated

datatype stream_kind = Video | Audio | Subtitle | Data data_kind | Timecode tc_source_kind

datatype coarse_media_kind = CoarseVideo | CoarseAudio | CoarseSubtitle | CoarseOther

fun stream_kind_of_coarse :: "coarse_media_kind \<Rightarrow> stream_kind" where
  "stream_kind_of_coarse CoarseVideo = Video"
| "stream_kind_of_coarse CoarseAudio = Audio"
| "stream_kind_of_coarse CoarseSubtitle = Subtitle"
| "stream_kind_of_coarse CoarseOther = Data Klv"

text \<open>\<open>str::contains\<close> of a pattern.\<close>

fun contains :: "rstr \<Rightarrow> rstr \<Rightarrow> bool" where
  "contains [] p \<longleftrightarrow> p = []"
| "contains (b # bs) p \<longleftrightarrow> take (length p) (b # bs) = p \<or> contains bs p"

definition classify_other :: "rstr \<Rightarrow> stream_kind" where
  "classify_other codec_name =
     (let compact = map ascii_lower (filter ascii_alphanumeric codec_name)
      in if contains compact (str ''scte35'') then Data Scte35
         else if contains compact (str ''klv'') then Data Klv
         else if contains compact (str ''timedid3'') \<or> contains compact (str ''timecode'') then Timecode AtcRp188
         else Data Klv)"

definition from_coarse_and_codec :: "coarse_media_kind \<Rightarrow> rstr \<Rightarrow> stream_kind" where
  "from_coarse_and_codec coarse codec_name =
     (case coarse of CoarseVideo \<Rightarrow> Video | CoarseAudio \<Rightarrow> Audio | CoarseSubtitle \<Rightarrow> Subtitle
      | CoarseOther \<Rightarrow> classify_other codec_name)"

definition kind_is_video :: "stream_kind \<Rightarrow> bool" where "kind_is_video k \<longleftrightarrow> k = Video"
definition kind_is_audio :: "stream_kind \<Rightarrow> bool" where "kind_is_audio k \<longleftrightarrow> k = Audio"
definition is_subtitle :: "stream_kind \<Rightarrow> bool" where "is_subtitle k \<longleftrightarrow> k = Subtitle"

fun is_data :: "stream_kind \<Rightarrow> bool" where
  "is_data (Data d) = True" | "is_data Video = False" | "is_data Audio = False"
| "is_data Subtitle = False" | "is_data (Timecode t) = False"

fun is_timecode :: "stream_kind \<Rightarrow> bool" where
  "is_timecode (Timecode t) = True" | "is_timecode Video = False" | "is_timecode Audio = False"
| "is_timecode Subtitle = False" | "is_timecode (Data d) = False"

fun scope_char :: "stream_kind \<Rightarrow> byte" where
  "scope_char Video = 118"
| "scope_char Audio = 97"
| "scope_char Subtitle = 115"
| "scope_char (Data d) = 100"
| "scope_char (Timecode t) = 116"

section \<open>Language tags\<close>

type_synonym bcp47 = rstr

datatype bcp47_error = EmptyTag | InvalidPrimary rstr | InvalidSubtag rstr | Undetermined

text \<open>\<open>split(['-', '_'])\<close>.\<close>

definition tag_separator :: "byte \<Rightarrow> bool" where
  "tag_separator b \<longleftrightarrow> b = 45 \<or> b = 95"

fun split_tags :: "rstr \<Rightarrow> rstr list" where
  "split_tags [] = [[]]"
| "split_tags (b # bs) =
     (if tag_separator b then [] # split_tags bs
      else case split_tags bs of [] \<Rightarrow> [[b]] | p # ps \<Rightarrow> (b # p) # ps)"

definition normalise_subtag :: "rstr \<Rightarrow> rstr" where
  "normalise_subtag s =
     (if length s = 2 \<and> list_all ascii_alphabetic s then map ascii_upper s
      else if length s = 4 \<and> list_all ascii_alphabetic s
      then (case s of [] \<Rightarrow> [] | b # bs \<Rightarrow> ascii_upper b # map ascii_lower bs)
      else map ascii_lower s)"

definition subtag_ok :: "rstr \<Rightarrow> bool" where
  "subtag_ok s \<longleftrightarrow> s \<noteq> [] \<and> length s \<le> 8 \<and> list_all ascii_alphanumeric s"

fun append_subtags :: "rstr \<Rightarrow> rstr list \<Rightarrow> bcp47_error + bcp47" where
  "append_subtags normalised [] = Inr normalised"
| "append_subtags normalised (s # ss) =
     (if \<not> subtag_ok s then Inl (InvalidSubtag s)
      else append_subtags (normalised @ [45] @ normalise_subtag s) ss)"

definition primary_ok :: "rstr \<Rightarrow> bool" where
  "primary_ok p \<longleftrightarrow> 2 \<le> length p \<and> length p \<le> 3 \<and> list_all ascii_alphabetic p"

definition bcp47_parse :: "rstr \<Rightarrow> bcp47_error + bcp47" where
  "bcp47_parse raw =
     (let trimmed = trim raw in
      if trimmed = [] then Inl EmptyTag
      else case split_tags trimmed of
             [] \<Rightarrow> Inl EmptyTag
           | primary_raw # subtags \<Rightarrow>
               let primary = map ascii_lower primary_raw in
               if \<not> primary_ok primary then Inl (InvalidPrimary primary_raw)
               else if primary = str ''und'' then Inl Undetermined
               else append_subtags primary subtags)"

section \<open>Stable identifiers\<close>

datatype stability_tier = Hard | Soft

record stable_stream_id =
  kind_scope :: byte
  id_key :: rstr
  id_tier :: stability_tier

definition from_ts_pid :: "stream_kind \<Rightarrow> nat \<Rightarrow> stable_stream_id" where
  "from_ts_pid kind pid =
     \<lparr>kind_scope = scope_char kind, id_key = str ''pid:'' @ decimal pid, id_tier = Hard\<rparr>"

definition from_hls :: "stream_kind \<Rightarrow> rstr \<Rightarrow> rstr \<Rightarrow> stable_stream_id" where
  "from_hls kind group_id name =
     \<lparr>kind_scope = scope_char kind,
      id_key = str ''hls:'' @ decimal (length group_id) @ [58] @ group_id @ [58] @
        decimal (length name) @ [58] @ name,
      id_tier = Hard\<rparr>"

definition hex_digit :: "nat \<Rightarrow> byte" where
  "hex_digit n = (if n < 10 then 48 + of_nat n else 87 + of_nat n)"

fun hex_fixed :: "nat \<Rightarrow> nat \<Rightarrow> rstr" where
  "hex_fixed 0 n = []"
| "hex_fixed (Suc w) n = hex_fixed w (n div 16) @ [hex_digit (n mod 16)]"

type_synonym stream_digest = "stream_kind \<times> nat \<times> rstr \<times> rstr option \<times> rstr option \<Rightarrow> nat"

definition from_general ::
  "stream_digest \<Rightarrow> stream_kind \<Rightarrow> nat \<Rightarrow> rstr \<Rightarrow> bcp47 option \<Rightarrow> rstr option \<Rightarrow> stable_stream_id" where
  "from_general digest kind ordinal codec language title =
     \<lparr>kind_scope = scope_char kind,
      id_key = str ''gen:'' @ hex_fixed 16 (digest (kind, ordinal, map ascii_lower codec, language, title)),
      id_tier = Soft\<rparr>"

definition id_display :: "stable_stream_id \<Rightarrow> rstr" where
  "id_display i = [kind_scope i, 47] @ id_key i"

section \<open>Descriptors and inventories\<close>

datatype stream_detail =
  VideoDetail nat nat "rational option" | AudioDetail nat nat | SubtitleDetail bool | Passthrough

fun video_geometry :: "stream_detail \<Rightarrow> (nat \<times> nat) option" where
  "video_geometry (VideoDetail w h r) = Some (w, h)"
| "video_geometry (AudioDetail c s) = None"
| "video_geometry (SubtitleDetail f) = None"
| "video_geometry Passthrough = None"

fun audio_layout :: "stream_detail \<Rightarrow> (nat \<times> nat) option" where
  "audio_layout (AudioDetail c s) = Some (c, s)"
| "audio_layout (VideoDetail w h r) = None"
| "audio_layout (SubtitleDetail f) = None"
| "audio_layout Passthrough = None"

record stream_descriptor =
  sd_id :: stable_stream_id
  sd_kind :: stream_kind
  sd_language :: "bcp47 option"
  sd_codec :: rstr
  sd_title :: "rstr option"
  sd_default :: bool
  sd_detail :: stream_detail

definition descriptor_new :: "stable_stream_id \<Rightarrow> stream_kind \<Rightarrow> rstr \<Rightarrow> stream_detail \<Rightarrow> stream_descriptor" where
  "descriptor_new i kind codec detail =
     \<lparr>sd_id = i, sd_kind = kind, sd_language = None, sd_codec = codec, sd_title = None,
      sd_default = False, sd_detail = detail\<rparr>"

record stream_inventory =
  inv_input_id :: "rstr option"
  inv_streams :: "stream_descriptor list"

definition by_kind :: "(stream_kind \<Rightarrow> bool) \<Rightarrow> stream_inventory \<Rightarrow> stream_descriptor list" where
  "by_kind predicate iv = filter (\<lambda>s. predicate (sd_kind s)) (inv_streams iv)"

fun default_loop :: "stream_descriptor option \<Rightarrow> stream_descriptor list \<Rightarrow> stream_descriptor option" where
  "default_loop fst_seen [] = fst_seen"
| "default_loop fst_seen (s # ss) =
     (if sd_default s then Some s
      else default_loop (case fst_seen of None \<Rightarrow> Some s | Some f \<Rightarrow> Some f) ss)"

definition default_for :: "(stream_kind \<Rightarrow> bool) \<Rightarrow> stream_inventory \<Rightarrow> stream_descriptor option" where
  "default_for predicate iv = default_loop None (by_kind predicate iv)"

text \<open>The loop is: the first flagged stream, else the first stream.\<close>

lemma default_loop_spec:
  "default_loop f ss =
     (case find sd_default ss of Some s \<Rightarrow> Some s
      | None \<Rightarrow> (case f of Some x \<Rightarrow> Some x | None \<Rightarrow> (case ss of [] \<Rightarrow> None | s # _ \<Rightarrow> Some s)))"
  by (induction ss arbitrary: f) (auto split: option.splits list.splits)

lemma default_loop_member:
  "default_loop f ss = Some s \<Longrightarrow> s \<in> set ss \<or> f = Some s"
  "default_loop f ss = None \<longleftrightarrow> f = None \<and> ss = []"
  by (induction ss arbitrary: f) (fastforce split: if_splits option.splits)+

lemma default_for_member:
  "default_for P iv = Some s \<Longrightarrow> s \<in> set (inv_streams iv) \<and> P (sd_kind s)"
  "default_for P iv = None \<longleftrightarrow> by_kind P iv = []"
  by (auto simp: default_for_def default_loop_member(2) by_kind_def dest: default_loop_member(1))

section \<open>Tags are normal forms\<close>

lemma separator_plain: "tag_separator b \<Longrightarrow> \<not> ascii_alphanumeric b"
  by (auto simp: tag_separator_def ascii_defs)

lemma split_tags_nonempty [simp]: "split_tags s \<noteq> []" "[] \<noteq> split_tags s"
  by (cases s; simp split: list.split)+

fun join_tags :: "rstr list \<Rightarrow> rstr" where
  "join_tags [] = []"
| "join_tags [p] = p"
| "join_tags (p # q # ps) = p @ [45] @ join_tags (q # ps)"

lemma split_tags_plain: "\<forall>b\<in>set p. \<not> tag_separator b \<Longrightarrow> split_tags p = [p]"
  by (induction p) simp_all

lemma split_tags_append:
  "\<forall>b\<in>set p. \<not> tag_separator b \<Longrightarrow> split_tags (p @ 45 # s) = p # split_tags s"
  by (induction p) (simp_all add: tag_separator_def)

lemma split_join:
  "ps \<noteq> [] \<Longrightarrow> \<forall>p\<in>set ps. \<forall>b\<in>set p. \<not> tag_separator b \<Longrightarrow> split_tags (join_tags ps) = ps"
  by (induction ps rule: join_tags.induct) (simp_all add: split_tags_plain split_tags_append)

lemma join_tags_snoc: "ps \<noteq> [] \<Longrightarrow> join_tags (ps @ [q]) = join_tags ps @ [45] @ q"
  by (induction ps rule: join_tags.induct) simp_all

lemma append_subtags_join:
  "ps \<noteq> [] \<Longrightarrow>
   append_subtags (join_tags ps) ss =
     (case find (\<lambda>s. \<not> subtag_ok s) ss of Some s \<Rightarrow> Inl (InvalidSubtag s)
      | None \<Rightarrow> Inr (join_tags (ps @ map normalise_subtag ss)))"
proof (induction ss arbitrary: ps)
  case Nil
  then show ?case by simp
next
  case (Cons s ss)
  have "append_subtags (join_tags ps @ [45] @ normalise_subtag s) ss =
      (case find (\<lambda>s. \<not> subtag_ok s) ss of Some s \<Rightarrow> Inl (InvalidSubtag s)
      | None \<Rightarrow> Inr (join_tags (ps @ map normalise_subtag (s # ss))))"
    using Cons.IH [of "ps @ [normalise_subtag s]"] Cons.prems
    by (simp add: join_tags_snoc split: option.split)
  then show ?case by simp
qed

lemma ascii_case_comp [simp]:
  "ascii_alphabetic \<circ> ascii_lower = ascii_alphabetic" "ascii_alphabetic \<circ> ascii_upper = ascii_alphabetic"
  "ascii_alphanumeric \<circ> ascii_lower = ascii_alphanumeric"
  "ascii_alphanumeric \<circ> ascii_upper = ascii_alphanumeric"
  "ascii_lower \<circ> ascii_lower = ascii_lower" "ascii_upper \<circ> ascii_upper = ascii_upper"
  "ascii_lower \<circ> ascii_upper = ascii_lower"
  by (simp_all add: fun_eq_iff)

lemma normalise_subtag_idem [simp]: "normalise_subtag (normalise_subtag s) = normalise_subtag s"
  by (cases s) (simp_all add: normalise_subtag_def list.pred_map)

lemma normalise_subtag_shape [simp]:
  "length (normalise_subtag s) = length s"
  "list_all ascii_alphanumeric (normalise_subtag s) = list_all ascii_alphanumeric s"
  by (cases s; simp add: normalise_subtag_def list.pred_map)+

lemma normalise_subtag_ok [simp]: "subtag_ok (normalise_subtag s) = subtag_ok s"
  using normalise_subtag_shape(1) [of s] by (simp add: subtag_ok_def flip: length_greater_0_conv)

definition tag_parts_ok :: "rstr list \<Rightarrow> bool" where
  "tag_parts_ok ps \<longleftrightarrow> ps \<noteq> [] \<and> primary_ok (hd ps) \<and> hd ps \<noteq> str ''und'' \<and> list_all subtag_ok (tl ps)"

definition canonical_parts :: "rstr list \<Rightarrow> rstr list" where
  "canonical_parts ps = map ascii_lower (hd ps) # map normalise_subtag (tl ps)"

lemma primary_ok_lower [simp]: "primary_ok (map ascii_lower p) = primary_ok p"
  by (simp add: primary_ok_def list.pred_map)

lemma bcp47_parse_parts:
  "bcp47_parse raw = Inr t \<longleftrightarrow>
     trim raw \<noteq> [] \<and> tag_parts_ok (map ascii_lower (hd (split_tags (trim raw))) # tl (split_tags (trim raw))) \<and>
     t = join_tags (canonical_parts (split_tags (trim raw)))"
proof -
  obtain p ss where s: "split_tags (trim raw) = p # ss" by (cases "split_tags (trim raw)") simp_all
  have "append_subtags (map ascii_lower p) ss =
      (case find (\<lambda>s. \<not> subtag_ok s) ss of Some s \<Rightarrow> Inl (InvalidSubtag s)
      | None \<Rightarrow> Inr (join_tags (canonical_parts (p # ss))))"
    using append_subtags_join [of "[map ascii_lower p]" ss]
    by (simp add: canonical_parts_def split: option.split)
  moreover have "find (\<lambda>s. \<not> subtag_ok s) ss = None \<longleftrightarrow> list_all subtag_ok ss"
    by (auto simp: find_None_iff list_all_iff)
  ultimately show ?thesis
    by (auto simp: bcp47_parse_def Let_def s tag_parts_ok_def split: option.splits)
qed

text \<open>A tag's bytes are letters, digits and dashes, so trimming leaves it alone.\<close>

lemma strip_prefixes_stop:
  "\<forall>w\<in>set ws. w \<noteq> [] \<longrightarrow> hd w \<noteq> b \<Longrightarrow> strip_prefixes ws (b # s) = b # s"
  by (subst strip_prefixes.simps) (auto split: option.splits simp: find_Some_iff neq_Nil_conv dest!: nth_mem)

lemma white_space_not_alnum: "ascii_alphanumeric b \<Longrightarrow> \<forall>w\<in>set white_space. hd w \<noteq> b \<and> last w \<noteq> b"
  by (auto simp: white_space_def ascii_defs)

lemma trim_alnum_ends:
  assumes "s \<noteq> []" and "ascii_alphanumeric (hd s)" and "ascii_alphanumeric (last s)"
  shows "trim s = s"
proof -
  obtain b bs where s: "s = b # bs" using assms(1) by (cases s) simp_all
  have front: "strip_prefixes white_space s = s"
    using white_space_not_alnum [OF assms(2)] strip_prefixes_stop [of white_space b bs] by (simp add: s)
  obtain c cs where r: "rev s = c # cs" using assms(1) by (cases "rev s") simp_all
  then have c: "c = last s" by (metis last_rev list.sel(1) rev_rev_ident hd_rev)
  have "\<forall>w\<in>set (map rev white_space). w \<noteq> [] \<longrightarrow> hd w \<noteq> c"
    using white_space_not_alnum [OF assms(3)] by (auto simp: c hd_rev)
  then have "strip_prefixes (map rev white_space) (rev s) = rev s"
    using strip_prefixes_stop [of "map rev white_space" c cs] by (simp add: r)
  then show ?thesis by (simp add: trim_def front)
qed

lemma alnum_no_separator: "list_all ascii_alphanumeric p \<Longrightarrow> \<forall>b\<in>set p. \<not> tag_separator b"
  using separator_plain by (auto simp: list_all_iff)

lemma alphabetic_alnum: "list_all ascii_alphabetic p \<Longrightarrow> list_all ascii_alphanumeric p"
  by (auto simp: list_all_iff ascii_alphanumeric_def)

lemma join_tags_ends:
  "ps \<noteq> [] \<Longrightarrow> \<forall>p\<in>set ps. p \<noteq> [] \<and> list_all ascii_alphanumeric p \<Longrightarrow>
     join_tags ps \<noteq> [] \<and> ascii_alphanumeric (hd (join_tags ps)) \<and> ascii_alphanumeric (last (join_tags ps))"
  by (induction ps rule: join_tags.induct) (auto simp: list_all_iff)

lemma canonical_parts_alnum:
  assumes "tag_parts_ok (map ascii_lower (hd ps) # tl ps)"
  shows "\<forall>p\<in>set (canonical_parts ps). p \<noteq> [] \<and> list_all ascii_alphanumeric p"
proof -
  have "subtag_ok (normalise_subtag s)" if "s \<in> set (tl ps)" for s
    using assms that by (simp add: tag_parts_ok_def list_all_iff)
  moreover have "hd ps \<noteq> []" "list_all ascii_alphanumeric (map ascii_lower (hd ps))"
    using assms by (auto simp: tag_parts_ok_def primary_ok_def list.pred_map alphabetic_alnum)
  ultimately show ?thesis by (auto simp: canonical_parts_def subtag_ok_def)
qed

lemma split_canonical:
  assumes "tag_parts_ok (map ascii_lower (hd ps) # tl ps)"
  shows "split_tags (trim (join_tags (canonical_parts ps))) = canonical_parts ps"
    and "trim (join_tags (canonical_parts ps)) \<noteq> []"
proof -
  note a = canonical_parts_alnum [OF assms]
  have ne: "canonical_parts ps \<noteq> []" by (simp add: canonical_parts_def)
  have t: "trim (join_tags (canonical_parts ps)) = join_tags (canonical_parts ps)"
    using trim_alnum_ends join_tags_ends [OF ne a] by blast
  have "\<forall>p\<in>set (canonical_parts ps). \<forall>b\<in>set p. \<not> tag_separator b"
    using a alnum_no_separator by blast
  then show "split_tags (trim (join_tags (canonical_parts ps))) = canonical_parts ps"
    using split_join [OF ne] t by simp
  show "trim (join_tags (canonical_parts ps)) \<noteq> []" using join_tags_ends [OF ne a] t by simp
qed

lemma canonical_parts_idem: "canonical_parts (canonical_parts ps) = canonical_parts ps"
  by (simp add: canonical_parts_def)

lemma parse_idempotent:
  assumes "bcp47_parse raw = Inr t"
  shows "bcp47_parse t = Inr t"
proof -
  define ps where "ps = split_tags (trim raw)"
  have p: "tag_parts_ok (map ascii_lower (hd ps) # tl ps)" "t = join_tags (canonical_parts ps)"
    using assms by (simp_all add: bcp47_parse_parts ps_def)
  have "tag_parts_ok (map ascii_lower (hd (canonical_parts ps)) # tl (canonical_parts ps))"
    using p(1) by (simp add: tag_parts_ok_def canonical_parts_def list.pred_map comp_def)
  then show ?thesis
    using split_canonical [OF p(1)] by (simp add: bcp47_parse_parts p(2) canonical_parts_idem)
qed

text \<open>Spelling: letter case and the choice of separator do not matter.\<close>

definition tag_fold :: "byte \<Rightarrow> byte" where
  "tag_fold b = (if b = 95 then 45 else ascii_lower b)"

lemma tag_fold_white:
  "w \<in> set white_space \<Longrightarrow> b \<in> set w \<Longrightarrow> tag_fold c = b \<longleftrightarrow> c = b"
proof -
  assume "w \<in> set white_space" "b \<in> set w"
  then have "\<not> ascii_alphabetic b" "b \<noteq> 45" "b \<noteq> 95"
    by (auto simp: white_space_def ascii_defs)
  then show ?thesis
    by (metis ascii_case_simps(5) ascii_not_letter(1) tag_fold_def)
qed

lemma take_fold_white:
  assumes "\<forall>b\<in>set w. \<forall>c. tag_fold c = b \<longleftrightarrow> c = b"
  shows "take (length w) (map tag_fold s) = w \<longleftrightarrow> take (length w) s = w"
  using assms
proof (induction w arbitrary: s)
  case (Cons b w)
  then show ?case by (cases s) simp_all
qed simp

lemma strip_prefixes_fold:
  "\<forall>w\<in>set ws. \<forall>b\<in>set w. \<forall>c. tag_fold c = b \<longleftrightarrow> c = b \<Longrightarrow>
     strip_prefixes ws (map tag_fold s) = map tag_fold (strip_prefixes ws s)"
proof (induction ws s rule: strip_prefixes.induct)
  case (1 ws s)
  have f: "find (\<lambda>w. w \<noteq> [] \<and> take (length w) (map tag_fold s) = w) ws =
      find (\<lambda>w. w \<noteq> [] \<and> take (length w) s = w) ws"
    using "1.prems" take_fold_white by (intro find_cong) auto
  show ?case
    using "1.IH" "1.prems" by (subst (1 2) strip_prefixes.simps) (simp add: f drop_map split: option.split)
qed

lemma trim_fold: "trim (map tag_fold s) = map tag_fold (trim s)"
proof -
  have "\<forall>w\<in>set white_space. \<forall>b\<in>set w. \<forall>c. tag_fold c = b \<longleftrightarrow> c = b"
    using tag_fold_white by blast
  moreover from this have "\<forall>w\<in>set (map rev white_space). \<forall>b\<in>set w. \<forall>c. tag_fold c = b \<longleftrightarrow> c = b"
    by simp
  ultimately show ?thesis by (simp add: trim_def strip_prefixes_fold rev_map)
qed

lemma split_tags_fold: "split_tags (map tag_fold s) = map (map ascii_lower) (split_tags s)"
proof (induction s)
  case (Cons b s)
  have "tag_separator (tag_fold b) \<longleftrightarrow> tag_separator b"
  proof (cases "ascii_alphabetic b")
    case True
    then show ?thesis
      using separator_plain [of b] separator_plain [of "ascii_lower b"]
      by (auto simp: tag_fold_def ascii_alphanumeric_def tag_separator_def)
  next
    case False
    then show ?thesis by (simp add: tag_fold_def tag_separator_def)
  qed
  moreover have "\<not> tag_separator b \<Longrightarrow> tag_fold b = ascii_lower b"
    by (simp add: tag_fold_def tag_separator_def)
  ultimately show ?case using Cons by (simp split: list.split)
qed simp

lemma normalise_subtag_lower: "normalise_subtag (map ascii_lower s) = normalise_subtag s"
  by (cases s) (simp_all add: normalise_subtag_def list.pred_map)

lemma subtag_ok_lower: "subtag_ok (map ascii_lower s) = subtag_ok s"
  by (simp add: subtag_ok_def list.pred_map)

lemma parse_fold: "bcp47_parse (map tag_fold raw) = Inr t \<longleftrightarrow> bcp47_parse raw = Inr t"
proof -
  obtain p ss where s: "split_tags (trim raw) = p # ss" by (cases "split_tags (trim raw)") simp_all
  show ?thesis
    by (simp add: bcp47_parse_parts trim_fold split_tags_fold s tag_parts_ok_def canonical_parts_def
        list.pred_map comp_def subtag_ok_lower normalise_subtag_lower)
qed

lemma parse_primary:
  assumes "bcp47_parse raw = Inr t"
  shows "\<exists>p ss. split_tags t = p # ss \<and> primary_ok p \<and> map ascii_lower p = p \<and> p \<noteq> str ''und'' \<and>
     list_all subtag_ok ss"
proof -
  define ps where "ps = split_tags (trim raw)"
  have p: "tag_parts_ok (map ascii_lower (hd ps) # tl ps)" "t = join_tags (canonical_parts ps)"
    using assms by (simp_all add: bcp47_parse_parts ps_def)
  have "trim t = t"
    using canonical_parts_alnum [OF p(1)] join_tags_ends [of "canonical_parts ps"] trim_alnum_ends
    by (simp add: p(2) canonical_parts_def)
  then have "split_tags t = canonical_parts ps" using split_canonical [OF p(1)] by (simp add: p(2))
  then show ?thesis
    using p(1) by (simp add: canonical_parts_def tag_parts_ok_def list.pred_map comp_def)
qed

text \<open>A language tag is a normal form. Parsing a parsed tag returns it unchanged; a spelling that
  differs only in letter case and in the separator parses to the same tag; and the tag has a primary
  of two or three lower-case letters other than \<open>und\<close>, followed by well-formed subtags.\<close>

theorem bcp47_normal_form:
  assumes "bcp47_parse raw = Inr t" and "map tag_fold other = map tag_fold raw"
  shows "bcp47_parse t = Inr t \<and> bcp47_parse other = Inr t \<and>
     (\<exists>p ss. split_tags t = p # ss \<and> primary_ok p \<and> map ascii_lower p = p \<and> p \<noteq> str ''und'' \<and>
        list_all subtag_ok ss)"
  using parse_idempotent [OF assms(1)] parse_primary [OF assms(1)] parse_fold [of raw t] parse_fold [of other t]
    assms by simp

theorem bcp47_normal_form_witness:
  "bcp47_parse (str ''zh-HANT_tw'') = Inr (str ''zh-Hant-TW'')"
proof -
  have "bcp47_parse (str ''ZH_hant-TW'') = Inr (str ''zh-Hant-TW'')" by code_simp
  moreover have "map tag_fold (str ''zh-HANT_tw'') = map tag_fold (str ''ZH_hant-TW'')" by code_simp
  ultimately show ?thesis using bcp47_normal_form by blast
qed

section \<open>Identifiers never alias\<close>

lemma decimal_digits: "b \<in> set (decimal n) \<Longrightarrow> 48 \<le> b \<and> b \<le> 57"
proof (induction n rule: decimal.induct)
  case (1 n)
  have d: "48 \<le> (48 + of_nat k :: byte) \<and> (48 + of_nat k :: byte) \<le> 57" if "k < 10" for k
    using that by (simp add: word_le_nat_alt unat_word_ariths unat_of_nat)
  show ?case
  proof (cases "n < 10")
    case True
    then show ?thesis using "1.prems" d [of n] by (subst (asm) decimal.simps) simp
  next
    case False
    then have "b \<in> set (decimal (n div 10)) \<or> b = 48 + of_nat (n mod 10)"
      using "1.prems" by (subst (asm) decimal.simps) auto
    then show ?thesis using "1.IH" False d [of "n mod 10"] by auto
  qed
qed

lemma decimal_colon:
  assumes "decimal m @ c # x = decimal n @ c # y" and "\<not> (48 \<le> c \<and> c \<le> 57)"
  shows "m = n \<and> x = y"
proof -
  have t: "takeWhile (\<lambda>b. b \<noteq> c) (decimal k @ c # z) = decimal k" for k z
    using decimal_digits [of _ k] assms(2) by (subst takeWhile_append2) auto
  have "decimal m = decimal n" using t [of m x] t [of n y] assms(1) by metis
  then show ?thesis using assms(1) decimal_inj by auto
qed

lemma from_hls_inj:
  assumes "from_hls k g n = from_hls k' g' n'"
  shows "scope_char k = scope_char k' \<and> g = g' \<and> n = n'"
proof -
  have k: "scope_char k = scope_char k'"
    and e: "decimal (length g) @ 58 # (g @ 58 # decimal (length n) @ 58 # n) =
      decimal (length g') @ 58 # (g' @ 58 # decimal (length n') @ 58 # n')"
    using assms by (simp_all add: from_hls_def)
  have "length g = length g' \<and> g @ 58 # decimal (length n) @ 58 # n = g' @ 58 # decimal (length n') @ 58 # n'"
    by (rule decimal_colon [OF e]) simp
  then have "g = g'" "decimal (length n) @ 58 # n = decimal (length n') @ 58 # n'" by auto
  then show ?thesis using decimal_colon [of "length n" 58 n "length n'" n'] k by auto
qed

lemma from_ts_pid_inj: "from_ts_pid k p = from_ts_pid k' p' \<Longrightarrow> scope_char k = scope_char k' \<and> p = p'"
  by (auto simp: from_ts_pid_def dest: decimal_inj)

lemma ids_disjoint:
  "from_ts_pid k p \<noteq> from_hls k' g n" "from_ts_pid k p \<noteq> from_general d k' o' c l t"
  "from_hls k' g n \<noteq> from_general d k'' o' c l t"
  by (simp_all add: from_ts_pid_def from_hls_def from_general_def str_def)

lemma id_display_inj: "id_display i = id_display j \<Longrightarrow> kind_scope i = kind_scope j \<and> id_key i = id_key j"
  by (simp add: id_display_def)

lemma tier_hard_iff: "id_tier (from_ts_pid k p) = Hard" "id_tier (from_hls k g n) = Hard"
  "id_tier (from_general d k o' c l t) = Soft"
  by (simp_all add: from_ts_pid_def from_hls_def from_general_def)

end
