(* ===== verification/Routing_Table.thy ===== *)
theory Routing_Table
  imports Stream_Identity
begin

unbundle bit_operations_syntax

text \<open>
  \<open>multiview-config/src/routing.rs\<close> and \<open>audio.rs\<close>, and the parts of \<open>lib.rs\<close> that join them to a
  document: crosspoint tables, the audio routing block, their validation, and the table desugared from
  a document that has none. A validation error carries the
  fixed part of its message and the identifiers the message prints. A gain is its 32-bit IEEE pattern.

  The locale \<open>seen_loop\<close> is the shape of every validation loop that also rejects duplicates.
\<close>

section \<open>Loops that stop at the first error\<close>

fun for_each :: "('a \<Rightarrow> 's \<Rightarrow> 'e + 's) \<Rightarrow> 'a list \<Rightarrow> 's \<Rightarrow> 'e + 's" where
  "for_each f [] s = Inr s"
| "for_each f (x # xs) s = (case f x s of Inl e \<Rightarrow> Inl e | Inr s' \<Rightarrow> for_each f xs s')"

definition ok_unit :: "'e + 's \<Rightarrow> 'e + unit" where
  "ok_unit r = (case r of Inl e \<Rightarrow> Inl e | Inr _ \<Rightarrow> Inr ())"

fun after_check :: "'e + unit \<Rightarrow> 'e + 's \<Rightarrow> 'e + 's" where
  "after_check (Inl e) r = Inl e"
| "after_check (Inr u) r = r"

lemma ok_unit_Inr [simp]: "ok_unit r = Inr u \<longleftrightarrow> (\<exists>s. r = Inr s)"
  by (auto simp: ok_unit_def split: sum.split)

lemma after_check_Inr [simp]: "after_check a r = Inr s \<longleftrightarrow> a = Inr () \<and> r = Inr s"
  by (cases a) auto

lemma for_each_Inr_Cons:
  "for_each f (x # xs) s = Inr t \<longleftrightarrow> (\<exists>s'. f x s = Inr s' \<and> for_each f xs s' = Inr t)"
  by (auto split: sum.splits)

locale seen_loop =
  fixes step :: "'a \<Rightarrow> 'k set \<Rightarrow> 'e + 'k set"
    and good :: "'a \<Rightarrow> bool"
    and key :: "'a \<Rightarrow> 'k"
  assumes step_iff: "step x seen = Inr seen' \<longleftrightarrow> good x \<and> key x \<notin> seen \<and> seen' = insert (key x) seen"
begin

lemma loop_iff:
  "for_each step xs seen = Inr seen' \<longleftrightarrow>
     (\<forall>x\<in>set xs. good x) \<and> distinct (map key xs) \<and> set (map key xs) \<inter> seen = {} \<and>
     seen' = set (map key xs) \<union> seen"
proof (induction xs arbitrary: seen)
  case Nil
  then show ?case by auto
next
  case (Cons x xs)
  show ?case by (simp only: for_each_Inr_Cons step_iff Cons.IH) auto
qed

lemma accepts_iff:
  "ok_unit (for_each step xs {}) = Inr () \<longleftrightarrow> (\<forall>x\<in>set xs. good x) \<and> distinct (map key xs)"
  by (auto simp: loop_iff)

lemma accepts_app:
  "ok_unit (for_each step (xs @ ys) {}) = Inr () \<Longrightarrow>
     ok_unit (for_each step xs {}) = Inr () \<and> set (map key xs) \<inter> set (map key ys) = {}"
  unfolding accepts_iff by auto

end

section \<open>Crosspoints\<close>

datatype stream_selector = ByIndex nat | ByLanguage rstr | Best | ByStreamId rstr

record stream_ref =
  ref_input_id :: rstr
  ref_kind :: stream_kind
  ref_selector :: stream_selector

definition ref_best :: "rstr \<Rightarrow> stream_kind \<Rightarrow> stream_ref" where
  "ref_best input_id kind = \<lparr>ref_input_id = input_id, ref_kind = kind, ref_selector = Best\<rparr>"

record video_crosspoint =
  vx_cell :: rstr
  vx_source :: stream_ref

record audio_crosspoint =
  ax_target :: rstr
  ax_source :: stream_ref
  ax_gain_db :: "32 word"
  ax_mute :: bool

record subtitle_crosspoint =
  sx_layer :: rstr
  sx_source :: stream_ref

record output_crosspoint =
  ox_output :: rstr
  ox_program :: rstr

definition MAIN_PROGRAM :: rstr where "MAIN_PROGRAM = str ''main''"

definition PROGRAM_TRACK :: rstr where "PROGRAM_TRACK = str ''prog''"

record routing_table =
  rt_video :: "video_crosspoint list"
  rt_audio :: "audio_crosspoint list"
  rt_subtitle :: "subtitle_crosspoint list"
  rt_output :: "output_crosspoint list"

record routing_refs =
  rr_sources :: "rstr set"
  rr_cells :: "rstr set"
  rr_tracks :: "rstr set"
  rr_layers :: "rstr set"
  rr_outputs :: "rstr set"

text \<open>An IEEE single is finite unless its exponent is all ones.\<close>

definition f32_is_finite :: "32 word \<Rightarrow> bool" where
  "f32_is_finite g \<longleftrightarrow> g AND 0x7F800000 \<noteq> 0x7F800000"

datatype config_error = Validation string "rstr list" | AudioCapability rstr

definition validate_source :: "routing_refs \<Rightarrow> stream_ref \<Rightarrow> config_error + unit" where
  "validate_source refs source =
     (if ref_input_id source \<notin> rr_sources refs then Inl (Validation ''routing crosspoint binds unknown source'' [ref_input_id source]) else Inr ())"

definition video_step :: "routing_refs \<Rightarrow> video_crosspoint \<Rightarrow> rstr set \<Rightarrow> config_error + rstr set" where
  "video_step refs xp seen =
     after_check (validate_source refs (vx_source xp))
       (if ref_kind (vx_source xp) \<noteq> Video then Inl (Validation ''video crosspoint sources a non-video stream'' [vx_cell xp])
        else if vx_cell xp \<notin> rr_cells refs then Inl (Validation ''video crosspoint binds unknown cell'' [vx_cell xp])
        else if vx_cell xp \<in> seen then Inl (Validation ''two video crosspoints bind the same cell'' [vx_cell xp])
        else Inr (insert (vx_cell xp) seen))"

definition audio_step :: "routing_refs \<Rightarrow> audio_crosspoint \<Rightarrow> rstr set \<Rightarrow> config_error + rstr set" where
  "audio_step refs xp seen =
     after_check (validate_source refs (ax_source xp))
       (if ref_kind (ax_source xp) \<noteq> Audio then Inl (Validation ''audio crosspoint sources a non-audio stream'' [ax_target xp])
        else if \<not> f32_is_finite (ax_gain_db xp) then Inl (Validation ''audio crosspoint: gain_db must be finite'' [ax_target xp])
        else if ax_target xp \<notin> rr_tracks refs then Inl (Validation ''audio crosspoint binds unknown track/bus target'' [ax_target xp])
        else if ax_target xp \<in> seen then Inl (Validation ''two audio crosspoints bind the same target'' [ax_target xp])
        else Inr (insert (ax_target xp) seen))"

definition subtitle_step :: "routing_refs \<Rightarrow> subtitle_crosspoint \<Rightarrow> rstr set \<Rightarrow> config_error + rstr set" where
  "subtitle_step refs xp seen =
     after_check (validate_source refs (sx_source xp))
       (if ref_kind (sx_source xp) \<noteq> Subtitle then Inl (Validation ''subtitle crosspoint sources a non-subtitle stream'' [sx_layer xp])
        else if sx_layer xp \<notin> rr_layers refs then Inl (Validation ''subtitle crosspoint binds unknown layer'' [sx_layer xp])
        else if sx_layer xp \<in> seen then Inl (Validation ''two subtitle crosspoints bind the same layer'' [sx_layer xp])
        else Inr (insert (sx_layer xp) seen))"

definition output_step :: "routing_refs \<Rightarrow> output_crosspoint \<Rightarrow> rstr set \<Rightarrow> config_error + rstr set" where
  "output_step refs xp seen =
     (if ox_program xp = [] then Inl (Validation ''output crosspoint has an empty program'' [ox_output xp])
      else if ox_output xp \<notin> rr_outputs refs then Inl (Validation ''output crosspoint binds unknown output'' [ox_output xp])
      else if ox_output xp \<in> seen then Inl (Validation ''two output crosspoints bind the same output'' [ox_output xp])
      else Inr (insert (ox_output xp) seen))"

definition routing_validate :: "routing_refs \<Rightarrow> routing_table \<Rightarrow> config_error + unit" where
  "routing_validate refs t =
     after_check (ok_unit (for_each (video_step refs) (rt_video t) {}))
      (after_check (ok_unit (for_each (audio_step refs) (rt_audio t) {}))
        (after_check (ok_unit (for_each (subtitle_step refs) (rt_subtitle t) {}))
          (ok_unit (for_each (output_step refs) (rt_output t) {}))))"

section \<open>What a validated table is\<close>

definition source_ok :: "routing_refs \<Rightarrow> stream_kind \<Rightarrow> stream_ref \<Rightarrow> bool" where
  "source_ok refs kind r \<longleftrightarrow> ref_input_id r \<in> rr_sources refs \<and> ref_kind r = kind"

lemma validate_source_Inr [simp]: "validate_source refs r = Inr u \<longleftrightarrow> ref_input_id r \<in> rr_sources refs"
  by (simp add: validate_source_def)

interpretation video_loop: seen_loop "video_step refs"
    "\<lambda>xp. source_ok refs Video (vx_source xp) \<and> vx_cell xp \<in> rr_cells refs" vx_cell for refs
  by unfold_locales (auto simp: video_step_def source_ok_def)

interpretation audio_loop: seen_loop "audio_step refs"
    "\<lambda>xp. source_ok refs Audio (ax_source xp) \<and> f32_is_finite (ax_gain_db xp) \<and> ax_target xp \<in> rr_tracks refs"
    ax_target for refs
  by unfold_locales (auto simp: audio_step_def source_ok_def)

interpretation subtitle_loop: seen_loop "subtitle_step refs"
    "\<lambda>xp. source_ok refs Subtitle (sx_source xp) \<and> sx_layer xp \<in> rr_layers refs" sx_layer for refs
  by unfold_locales (auto simp: subtitle_step_def source_ok_def)

interpretation output_loop: seen_loop "output_step refs"
    "\<lambda>xp. ox_program xp \<noteq> [] \<and> ox_output xp \<in> rr_outputs refs" ox_output for refs
  by unfold_locales (auto simp: output_step_def)

definition table_ok :: "routing_refs \<Rightarrow> routing_table \<Rightarrow> bool" where
  "table_ok refs t \<longleftrightarrow>
     (\<forall>x\<in>set (rt_video t). source_ok refs Video (vx_source x) \<and> vx_cell x \<in> rr_cells refs) \<and>
     (\<forall>x\<in>set (rt_audio t). source_ok refs Audio (ax_source x) \<and> f32_is_finite (ax_gain_db x) \<and>
        ax_target x \<in> rr_tracks refs) \<and>
     (\<forall>x\<in>set (rt_subtitle t). source_ok refs Subtitle (sx_source x) \<and> sx_layer x \<in> rr_layers refs) \<and>
     (\<forall>x\<in>set (rt_output t). ox_program x \<noteq> [] \<and> ox_output x \<in> rr_outputs refs) \<and>
     distinct (map vx_cell (rt_video t)) \<and> distinct (map ax_target (rt_audio t)) \<and>
     distinct (map sx_layer (rt_subtitle t)) \<and> distinct (map ox_output (rt_output t))"

lemma routing_validate_iff: "routing_validate refs t = Inr () \<longleftrightarrow> table_ok refs t"
  by (simp only: routing_validate_def after_check_Inr video_loop.accepts_iff audio_loop.accepts_iff
      subtitle_loop.accepts_iff output_loop.accepts_iff table_ok_def) blast

section \<open>The audio block\<close>

datatype audio_channels = Mono | Stereo | FivePointOne

fun channel_count :: "audio_channels \<Rightarrow> nat" where
  "channel_count Mono = 1"
| "channel_count Stereo = 2"
| "channel_count FivePointOne = 6"

record audio_route =
  ar_input_id :: rstr
  ar_channels :: audio_channels
  ar_target_track :: "rstr option"
  ar_language :: "rstr option"
  ar_title :: "rstr option"
  ar_include_in_program_bus :: bool
  ar_gain_db :: "32 word"
  ar_mute :: bool

definition audio_route_validate :: "audio_route \<Rightarrow> config_error + unit" where
  "audio_route_validate r =
     (if ar_input_id r = [] then Inl (Validation ''an audio route has an empty input_id'' [])
      else if \<not> f32_is_finite (ar_gain_db r) then Inl (Validation ''gain_db must be finite'' [ar_input_id r])
      else if ar_target_track r = Some [] then Inl (Validation ''target_track is empty'' [ar_input_id r])
      else if ar_language r = Some [] then Inl (Validation ''language is empty'' [ar_input_id r])
      else if ar_title r = Some [] then Inl (Validation ''title is empty'' [ar_input_id r])
      else Inr ())"

definition contributes_to_program :: "audio_route \<Rightarrow> bool" where
  "contributes_to_program r \<longleftrightarrow> ar_include_in_program_bus r \<and> \<not> ar_mute r"

record audio_routing =
  au_sample_rate_hz :: nat
  au_routes :: "audio_route list"

fun declared_from :: "rstr list \<Rightarrow> audio_route list \<Rightarrow> rstr list" where
  "declared_from tracks [] = tracks"
| "declared_from tracks (r # rs) =
     (case ar_target_track r of
        None \<Rightarrow> declared_from tracks rs
      | Some t \<Rightarrow> declared_from (if t \<in> set tracks then tracks else tracks @ [t]) rs)"

definition declared_tracks :: "audio_routing \<Rightarrow> rstr list" where
  "declared_tracks a = declared_from [PROGRAM_TRACK] (au_routes a)"

record audio_loop_state =
  seen_inputs :: "rstr set"
  seen_tracks :: "rstr set"
  any_request :: bool
  any_contributor :: bool

definition route_track_step ::
  "rstr list \<Rightarrow> audio_route \<Rightarrow> audio_loop_state \<Rightarrow> config_error + audio_loop_state" where
  "route_track_step selectable r st =
     (case ar_target_track r of
        None \<Rightarrow> Inr st
      | Some t \<Rightarrow>
          if t = PROGRAM_TRACK then Inl (Validation ''target_track is reserved for the mixed program bus'' [ar_input_id r, t])
          else if t \<in> seen_tracks st then Inl (Validation ''two audio routes target the same discrete track'' [t])
          else if t \<notin> set selectable then Inl (Validation ''target_track is not a selectable track'' [ar_input_id r, t])
          else Inr (st\<lparr>seen_tracks := insert t (seen_tracks st)\<rparr>))"

definition route_step ::
  "rstr list \<Rightarrow> rstr list \<Rightarrow> audio_route \<Rightarrow> audio_loop_state \<Rightarrow> config_error + audio_loop_state" where
  "route_step source_ids selectable r st =
     after_check (audio_route_validate r)
       (if ar_input_id r \<notin> set source_ids then Inl (Validation ''audio route binds unknown source'' [ar_input_id r])
        else if ar_input_id r \<in> seen_inputs st then Inl (Validation ''duplicate audio route'' [ar_input_id r])
        else
          case route_track_step selectable r (st\<lparr>seen_inputs := insert (ar_input_id r) (seen_inputs st)\<rparr>) of
            Inl e \<Rightarrow> Inl e
          | Inr st' \<Rightarrow> Inr (if ar_include_in_program_bus r
              then st'\<lparr>any_request := True, any_contributor := any_contributor st' \<or> contributes_to_program r\<rparr>
              else st'))"

definition audio_loop_start :: audio_loop_state where
  "audio_loop_start = \<lparr>seen_inputs = {}, seen_tracks = {}, any_request = False, any_contributor = False\<rparr>"

definition audio_routing_validate :: "rstr list \<Rightarrow> rstr list \<Rightarrow> audio_routing \<Rightarrow> config_error + unit" where
  "audio_routing_validate source_ids selectable a =
     (if au_sample_rate_hz a = 0 then Inl (Validation ''audio.sample_rate_hz must be > 0'' [])
      else case for_each (route_step source_ids selectable) (au_routes a) audio_loop_start of
             Inl e \<Rightarrow> Inl e
           | Inr st \<Rightarrow> if any_request st \<and> \<not> any_contributor st
                        then Inl (Validation ''the program bus has no contributing member'' []) else Inr ())"

datatype output_audio_mode = ProgramMode | TracksMode

record output_audio =
  oa_mode :: output_audio_mode
  oa_tracks :: "rstr list"

definition selection_step :: "rstr \<Rightarrow> rstr list \<Rightarrow> rstr \<Rightarrow> rstr set \<Rightarrow> config_error + rstr set" where
  "selection_step label selectable t seen =
     (if t \<in> seen then Inl (Validation ''selects track more than once'' [label, t])
      else if t \<notin> set selectable then Inl (Validation ''selects unknown audio track'' [label, t])
      else Inr (insert t seen))"

definition output_audio_validate :: "rstr \<Rightarrow> rstr list \<Rightarrow> output_audio \<Rightarrow> config_error + unit" where
  "output_audio_validate label selectable oa =
     (if oa_mode oa = ProgramMode then Inr ()
      else if oa_tracks oa = [] then Inl (Validation ''audio mode is tracks but no tracks are selected'' [label])
      else ok_unit (for_each (selection_step label selectable) (oa_tracks oa) {}))"

text \<open>The count of distinct tracks other than the program bus, saturating at 32 bits.\<close>

fun discrete_count_from :: "rstr set \<Rightarrow> nat \<Rightarrow> rstr list \<Rightarrow> nat" where
  "discrete_count_from seen count [] = count"
| "discrete_count_from seen count (t # ts) =
     (if t = PROGRAM_TRACK then discrete_count_from seen count ts
      else if t \<in> seen then discrete_count_from seen count ts
      else discrete_count_from (insert t seen) (usat_add 32 count 1) ts)"

definition discrete_track_count :: "output_audio \<Rightarrow> nat" where
  "discrete_track_count oa =
     (if oa_mode oa = ProgramMode then 0 else discrete_count_from {} 0 (oa_tracks oa))"

datatype track_capacity = Unlimited | AtMost nat

fun capacity_accepts :: "track_capacity \<Rightarrow> nat \<Rightarrow> bool" where
  "capacity_accepts Unlimited n \<longleftrightarrow> True"
| "capacity_accepts (AtMost m) n \<longleftrightarrow> n \<le> m"

definition validate_against_capability ::
  "rstr \<Rightarrow> rstr list \<Rightarrow> track_capacity \<Rightarrow> output_audio \<Rightarrow> config_error + unit" where
  "validate_against_capability label selectable capacity oa =
     after_check (output_audio_validate label selectable oa)
       (if \<not> capacity_accepts capacity (discrete_track_count oa) then Inl (AudioCapability label) else Inr ())"

section \<open>The document\<close>

text \<open>The parts of a document that routing reads. An output is its transport with the endpoint its label
  prints, its explicit id, its codec where the transport has one, and its audio selection.\<close>

datatype out_transport =
  RtspServer rstr | LlHls rstr | Hls rstr | NdiOut rstr | Rtmp rstr bool | Srt rstr | Rist rstr
| Webrtc rstr | WhipPush rstr | Aes67 rstr | Display rstr

fun transport_label :: "out_transport \<Rightarrow> rstr" where
  "transport_label (RtspServer mount) = str ''rtsp_server '' @ mount"
| "transport_label (LlHls path) = str ''ll_hls '' @ path"
| "transport_label (Hls path) = str ''hls '' @ path"
| "transport_label (NdiOut name) = str ''ndi '' @ name"
| "transport_label (Rtmp url multitrack) = str ''rtmp '' @ url"
| "transport_label (Srt url) = str ''srt '' @ url"
| "transport_label (Rist url) = str ''rist '' @ url"
| "transport_label (WhipPush url) = str ''whip_push '' @ url"
| "transport_label (Webrtc label) = label"
| "transport_label (Aes67 label) = label"
| "transport_label (Display connector) = str ''display '' @ connector"

fun transport_capacity :: "out_transport \<Rightarrow> track_capacity" where
  "transport_capacity (RtspServer m) = Unlimited"
| "transport_capacity (Srt u) = Unlimited"
| "transport_capacity (Rist u) = Unlimited"
| "transport_capacity (Hls p) = Unlimited"
| "transport_capacity (LlHls p) = Unlimited"
| "transport_capacity (NdiOut n) = AtMost 0"
| "transport_capacity (Aes67 l) = AtMost 0"
| "transport_capacity (Display k) = AtMost 0"
| "transport_capacity (Webrtc l) = AtMost 1"
| "transport_capacity (WhipPush u) = AtMost 1"
| "transport_capacity (Rtmp u multitrack) = (if multitrack then Unlimited else AtMost 1)"

record config_cell =
  cc_id :: rstr
  cc_input_id :: "rstr option"
  cc_inline_kind :: bool

record config_output =
  co_explicit_id :: "rstr option"
  co_transport :: out_transport
  co_codec :: "rstr option"
  co_audio :: "output_audio option"

definition co_label :: "config_output \<Rightarrow> rstr" where
  "co_label co = transport_label (co_transport co)"

definition output_id :: "config_output \<Rightarrow> rstr" where
  "output_id co = (case co_explicit_id co of Some i \<Rightarrow> i | None \<Rightarrow> co_label co)"

text \<open>The checks of \<open>Output::validate\<close> that every transport shares: codec and explicit id. The ones of
  a single transport (GPU pin, display mode, RIST options, metadata, orientation, WebRTC) are left
  out.\<close>

definition output_validate :: "config_output \<Rightarrow> config_error + unit" where
  "output_validate co =
     (if co_codec co = Some [] then Inl (Validation ''an output declares an empty codec'' [])
      else if co_explicit_id co = Some [] then Inl (Validation ''output declares an empty id'' [co_label co])
      else Inr ())"

record document =
  doc_sources :: "rstr list"
  doc_cells :: "config_cell list"
  doc_outputs :: "config_output list"
  doc_audio :: "audio_routing option"
  doc_overlays :: "rstr list"
  doc_routing :: "routing_table option"

definition source_id_step :: "rstr \<Rightarrow> rstr set \<Rightarrow> config_error + rstr set" where
  "source_id_step i seen =
     (if i = [] then Inl (Validation ''a source has an empty id'' [])
      else if i \<in> seen then Inl (Validation ''duplicate source id'' [i]) else Inr (insert i seen))"

definition cell_id_step :: "config_cell \<Rightarrow> rstr set \<Rightarrow> config_error + rstr set" where
  "cell_id_step c seen =
     (if cc_id c = [] then Inl (Validation ''a cell has an empty id'' [])
      else if cc_id c \<in> seen then Inl (Validation ''duplicate cell id'' [cc_id c]) else Inr (insert (cc_id c) seen))"

definition validate_unique_ids :: "document \<Rightarrow> config_error + unit" where
  "validate_unique_ids d =
     after_check (ok_unit (for_each source_id_step (doc_sources d) {}))
       (ok_unit (for_each cell_id_step (doc_cells d) {}))"

definition cell_binding_step :: "document \<Rightarrow> config_cell \<Rightarrow> unit \<Rightarrow> config_error + unit" where
  "cell_binding_step d c u =
     (case cc_input_id c of
        Some i \<Rightarrow> if i \<notin> set (doc_sources d) then Inl (Validation ''cell binds unknown source'' [cc_id c, i]) else Inr ()
      | None \<Rightarrow> if \<not> cc_inline_kind c then Inl (Validation ''cell has no source binding'' [cc_id c]) else Inr ())"

definition validate_cell_bindings :: "document \<Rightarrow> config_error + unit" where
  "validate_cell_bindings d = for_each (cell_binding_step d) (doc_cells d) ()"

definition output_id_step :: "config_output \<Rightarrow> rstr set \<Rightarrow> config_error + rstr set" where
  "output_id_step co seen =
     after_check (output_validate co)
     (if output_id co \<in> seen then Inl (Validation ''duplicate output id'' [output_id co])
      else Inr (insert (output_id co) seen))"

definition validate_outputs :: "document \<Rightarrow> config_error + unit" where
  "validate_outputs d =
     (if doc_outputs d = [] then Inl (Validation ''at least one output must be declared'' [])
      else ok_unit (for_each output_id_step (doc_outputs d) {}))"

definition selectable_tracks :: "document \<Rightarrow> rstr list" where
  "selectable_tracks d = (case doc_audio d of Some a \<Rightarrow> declared_tracks a | None \<Rightarrow> [PROGRAM_TRACK])"

definition output_audio_step :: "document \<Rightarrow> config_output \<Rightarrow> unit \<Rightarrow> config_error + unit" where
  "output_audio_step d co u =
     (case co_audio co of
        None \<Rightarrow> Inr ()
      | Some oa \<Rightarrow> validate_against_capability (co_label co) (selectable_tracks d)
            (transport_capacity (co_transport co)) oa)"

definition validate_audio :: "document \<Rightarrow> config_error + unit" where
  "validate_audio d =
     after_check
       (case doc_audio d of
          None \<Rightarrow> Inr ()
        | Some a \<Rightarrow> audio_routing_validate (doc_sources d) (selectable_tracks d) a)
       (for_each (output_audio_step d) (doc_outputs d) ())"

definition doc_refs :: "document \<Rightarrow> routing_refs" where
  "doc_refs d =
     \<lparr>rr_sources = set (doc_sources d), rr_cells = set (map cc_id (doc_cells d)),
      rr_tracks = set (selectable_tracks d), rr_layers = set (doc_overlays d),
      rr_outputs = set (map output_id (doc_outputs d))\<rparr>"

definition contradiction_step :: "document \<Rightarrow> video_crosspoint \<Rightarrow> unit \<Rightarrow> config_error + unit" where
  "contradiction_step d xp u =
     for_each (\<lambda>c u. case cc_input_id c of
          None \<Rightarrow> Inr ()
        | Some legacy \<Rightarrow>
            if cc_id c = vx_cell xp \<and> legacy \<noteq> ref_input_id (vx_source xp)
            then Inl (Validation ''cell is bound differently by cells and by a routing crosspoint''
                   [vx_cell xp, legacy, ref_input_id (vx_source xp)])
            else Inr ())
       (doc_cells d) ()"

definition validate_routing :: "document \<Rightarrow> config_error + unit" where
  "validate_routing d =
     (case doc_routing d of
        None \<Rightarrow> Inr ()
      | Some t \<Rightarrow> after_check (routing_validate (doc_refs d) t) (for_each (contradiction_step d) (rt_video t) ()))"

definition validate_document_routing :: "document \<Rightarrow> config_error + unit" where
  "validate_document_routing d =
     after_check (validate_unique_ids d) (after_check (validate_cell_bindings d)
       (after_check (validate_outputs d) (after_check (validate_audio d) (validate_routing d))))"

definition desugared_routing_table :: "document \<Rightarrow> routing_table" where
  "desugared_routing_table d =
     \<lparr>rt_video = concat (map (\<lambda>c. case cc_input_id c of None \<Rightarrow> []
          | Some i \<Rightarrow> [\<lparr>vx_cell = cc_id c, vx_source = ref_best i Video\<rparr>]) (doc_cells d)),
      rt_audio = (case doc_audio d of None \<Rightarrow> []
          | Some a \<Rightarrow> map (\<lambda>r. \<lparr>ax_target = (case ar_target_track r of Some t \<Rightarrow> t | None \<Rightarrow> PROGRAM_TRACK),
              ax_source = ref_best (ar_input_id r) Audio, ax_gain_db = ar_gain_db r, ax_mute = ar_mute r\<rparr>) (au_routes a)),
      rt_subtitle = [],
      rt_output = map (\<lambda>co. \<lparr>ox_output = output_id co, ox_program = MAIN_PROGRAM\<rparr>) (doc_outputs d)\<rparr>"

definition doc_routing_table :: "document \<Rightarrow> routing_table" where
  "doc_routing_table d = (case doc_routing d of Some t \<Rightarrow> t | None \<Rightarrow> desugared_routing_table d)"

section \<open>A validated document routes\<close>

interpretation source_id_loop: seen_loop source_id_step "\<lambda>i. i \<noteq> []" "\<lambda>i. i"
  by unfold_locales (auto simp: source_id_step_def)

interpretation cell_id_loop: seen_loop cell_id_step "\<lambda>c. cc_id c \<noteq> []" cc_id
  by unfold_locales (auto simp: cell_id_step_def)

lemma output_validate_iff: "output_validate co = Inr () \<longleftrightarrow> co_codec co \<noteq> Some [] \<and> co_explicit_id co \<noteq> Some []"
  by (simp add: output_validate_def)

interpretation output_id_loop: seen_loop output_id_step "\<lambda>co. output_validate co = Inr ()" output_id
  by unfold_locales (auto simp: output_id_step_def)

interpretation selection_loop: seen_loop "selection_step label selectable" "\<lambda>t. t \<in> set selectable" "\<lambda>t. t"
  for label selectable
  by unfold_locales (auto simp: selection_step_def)

lemma for_each_unit: "for_each f xs () = Inr () \<longleftrightarrow> (\<forall>x\<in>set xs. f x () = Inr ())"
  by (induction xs) (auto split: sum.split)

lemma declared_from_set:
  "set (declared_from ts rs) = set ts \<union> {t. \<exists>r\<in>set rs. ar_target_track r = Some t}"
  by (induction rs arbitrary: ts) (auto split: option.split)

text \<open>What the loop over the audio routes accepts.\<close>

definition route_ok :: "rstr list \<Rightarrow> rstr list \<Rightarrow> audio_route \<Rightarrow> bool" where
  "route_ok sources selectable r \<longleftrightarrow> audio_route_validate r = Inr () \<and> ar_input_id r \<in> set sources \<and>
     (\<forall>t. ar_target_track r = Some t \<longrightarrow> t \<noteq> PROGRAM_TRACK \<and> t \<in> set selectable)"

fun target_names :: "audio_route list \<Rightarrow> rstr list" where
  "target_names [] = []"
| "target_names (r # rs) = (case ar_target_track r of None \<Rightarrow> target_names rs | Some t \<Rightarrow> t # target_names rs)"

lemma route_step_Inr:
  "route_step sources selectable r st = Inr st' \<Longrightarrow>
     route_ok sources selectable r \<and> ar_input_id r \<notin> seen_inputs st \<and>
     seen_inputs st' = insert (ar_input_id r) (seen_inputs st) \<and>
     (case ar_target_track r of None \<Rightarrow> seen_tracks st' = seen_tracks st
      | Some t \<Rightarrow> t \<notin> seen_tracks st \<and> seen_tracks st' = insert t (seen_tracks st))"
  by (auto simp: route_step_def route_track_step_def route_ok_def split: option.splits if_splits)

lemma route_loop_Inr:
  "for_each (route_step sources selectable) rs st = Inr st' \<Longrightarrow>
     (\<forall>r\<in>set rs. route_ok sources selectable r) \<and> distinct (map ar_input_id rs) \<and>
     distinct (target_names rs) \<and> set (map ar_input_id rs) \<inter> seen_inputs st = {} \<and>
     set (target_names rs) \<inter> seen_tracks st = {}"
proof (induction rs arbitrary: st)
  case Nil
  then show ?case by simp
next
  case (Cons r rs)
  obtain s where s: "route_step sources selectable r st = Inr s" "for_each (route_step sources selectable) rs s = Inr st'"
    using Cons.prems by (simp only: for_each_Inr_Cons) blast
  show ?case using Cons.IH [OF s(2)] route_step_Inr [OF s(1)] by (auto split: option.splits)
qed

lemma audio_routing_valid:
  assumes "audio_routing_validate sources selectable a = Inr ()"
  shows "(\<forall>r\<in>set (au_routes a). route_ok sources selectable r) \<and> distinct (target_names (au_routes a))"
  using assms route_loop_Inr [of sources selectable "au_routes a" audio_loop_start]
  by (auto simp: audio_routing_validate_def split: if_splits sum.splits)

definition untargeted :: "document \<Rightarrow> nat" where
  "untargeted d =
     (case doc_audio d of None \<Rightarrow> 0 | Some a \<Rightarrow> length (filter (\<lambda>r. ar_target_track r = None) (au_routes a)))"

definition audio_target :: "audio_route \<Rightarrow> rstr" where
  "audio_target r = (case ar_target_track r of Some t \<Rightarrow> t | None \<Rightarrow> PROGRAM_TRACK)"

lemma targets_distinct_iff:
  assumes "distinct (target_names rs)" and "\<forall>r\<in>set rs. ar_target_track r \<noteq> Some PROGRAM_TRACK"
  shows "distinct (map audio_target rs) \<longleftrightarrow> length (filter (\<lambda>r. ar_target_track r = None) rs) \<le> 1"
  using assms
proof (induction rs)
  case (Cons r rs)
  have names: "audio_target x = t \<longleftrightarrow> ar_target_track x = Some t \<or> ar_target_track x = None \<and> t = PROGRAM_TRACK" for x t
    by (auto simp: audio_target_def split: option.split)
  have in_names: "t \<in> set (target_names rs) \<longleftrightarrow> (\<exists>x\<in>set rs. ar_target_track x = Some t)" for t
    by (induction rs) (auto split: option.split)
  show ?case
  proof (cases "ar_target_track r")
    case None
    then have "audio_target r = PROGRAM_TRACK" by (simp add: audio_target_def)
    moreover have "PROGRAM_TRACK \<in> audio_target ` set rs \<longleftrightarrow> filter (\<lambda>r. ar_target_track r = None) rs \<noteq> []"
    proof -
      have "PROGRAM_TRACK = audio_target x \<longleftrightarrow> ar_target_track x = None" if "x \<in> set rs" for x
        using Cons.prems(2) names [of x PROGRAM_TRACK] that by auto
      then show ?thesis by (auto simp: filter_empty_conv image_iff)
    qed
    ultimately show ?thesis
      using Cons None by (cases "filter (\<lambda>r. ar_target_track r = None) rs") auto
  next
    case (Some t)
    then have "audio_target r \<notin> audio_target ` set rs"
      using Cons.prems in_names [of t] names by (auto simp: audio_target_def split: option.splits)
    then show ?thesis using Cons Some by simp
  qed
qed simp

lemma document_parts:
  assumes "validate_document_routing d = Inr ()"
  shows "distinct (map cc_id (doc_cells d))" and "distinct (map output_id (doc_outputs d))"
    and "\<And>c i. c \<in> set (doc_cells d) \<Longrightarrow> cc_input_id c = Some i \<Longrightarrow> i \<in> set (doc_sources d)"
    and "\<And>a. doc_audio d = Some a \<Longrightarrow>
           (\<forall>r\<in>set (au_routes a). route_ok (doc_sources d) (selectable_tracks d) r) \<and> distinct (target_names (au_routes a))"
    and "\<And>t. doc_routing d = Some t \<Longrightarrow> table_ok (doc_refs d) t"
proof -
  have h: "validate_unique_ids d = Inr ()" "validate_cell_bindings d = Inr ()" "validate_outputs d = Inr ()"
    "validate_audio d = Inr ()" "validate_routing d = Inr ()"
    using assms by (simp_all add: validate_document_routing_def)
  show "distinct (map cc_id (doc_cells d))"
    using h(1) by (simp only: validate_unique_ids_def after_check_Inr cell_id_loop.accepts_iff)
  show "distinct (map output_id (doc_outputs d))"
    using h(3) output_id_loop.accepts_iff [of "doc_outputs d"] by (simp add: validate_outputs_def split: if_splits)
  show "i \<in> set (doc_sources d)" if "c \<in> set (doc_cells d)" "cc_input_id c = Some i" for c i
  proof -
    have "cell_binding_step d c () = Inr ()"
      using h(2) that(1) by (simp add: validate_cell_bindings_def for_each_unit)
    then show ?thesis using that(2) by (simp add: cell_binding_step_def split: if_splits)
  qed
  show "(\<forall>r\<in>set (au_routes a). route_ok (doc_sources d) (selectable_tracks d) r) \<and> distinct (target_names (au_routes a))"
    if "doc_audio d = Some a" for a
    using h(4) that audio_routing_valid [of "doc_sources d" "selectable_tracks d" a] by (simp add: validate_audio_def)
  show "table_ok (doc_refs d) t" if "doc_routing d = Some t" for t
    using h(5) that routing_validate_iff by (simp add: validate_routing_def)
qed

lemma concat_option_map:
  "x \<in> set (concat (map (\<lambda>c. case f c of None \<Rightarrow> [] | Some i \<Rightarrow> [g c i]) cs)) \<longleftrightarrow>
     (\<exists>c\<in>set cs. \<exists>i. f c = Some i \<and> x = g c i)"
  by (induction cs) (force split: option.splits)+

lemma desugared_video_distinct:
  "distinct (map cc_id cs) \<Longrightarrow>
     distinct (map vx_cell (concat (map (\<lambda>c. case cc_input_id c of None \<Rightarrow> []
          | Some i \<Rightarrow> [\<lparr>vx_cell = cc_id c, vx_source = ref_best i Video\<rparr>]) cs)))"
proof (induction cs)
  case (Cons c cs)
  have "x \<in> cc_id ` set cs" if "x \<in> vx_cell ` set (concat (map (\<lambda>c. case cc_input_id c of None \<Rightarrow> []
          | Some i \<Rightarrow> [\<lparr>vx_cell = cc_id c, vx_source = ref_best i Video\<rparr>]) cs))" for x
    using that by (auto split: option.splits)
  then show ?case using Cons by (auto split: option.split)
qed simp

lemma desugared_table_ok_iff:
  assumes "validate_document_routing d = Inr ()"
  shows "table_ok (doc_refs d) (desugared_routing_table d) \<longleftrightarrow> untargeted d \<le> 1"
proof -
  note p = document_parts [OF assms]
  have video: "\<forall>x\<in>set (rt_video (desugared_routing_table d)).
      source_ok (doc_refs d) Video (vx_source x) \<and> vx_cell x \<in> rr_cells (doc_refs d)"
    using p(3) by (auto simp: desugared_routing_table_def source_ok_def doc_refs_def ref_best_def split: option.splits)
  have outputs: "\<forall>x\<in>set (rt_output (desugared_routing_table d)).
      ox_program x \<noteq> [] \<and> ox_output x \<in> rr_outputs (doc_refs d)"
    "distinct (map ox_output (rt_output (desugared_routing_table d)))"
    using p(2) by (auto simp: desugared_routing_table_def doc_refs_def MAIN_PROGRAM_def str_def comp_def)
  have vd: "distinct (map vx_cell (rt_video (desugared_routing_table d)))"
    using desugared_video_distinct [OF p(1)] by (simp add: desugared_routing_table_def)
  have audio: "(\<forall>x\<in>set (rt_audio (desugared_routing_table d)). source_ok (doc_refs d) Audio (ax_source x) \<and>
        f32_is_finite (ax_gain_db x) \<and> ax_target x \<in> rr_tracks (doc_refs d)) \<and>
      (distinct (map ax_target (rt_audio (desugared_routing_table d))) \<longleftrightarrow> untargeted d \<le> 1)"
  proof (cases "doc_audio d")
    case None
    then show ?thesis by (simp add: desugared_routing_table_def untargeted_def)
  next
    case (Some a)
    note r = p(4) [OF Some]
    have prog: "PROGRAM_TRACK \<in> set (selectable_tracks d)"
      using Some by (simp add: selectable_tracks_def declared_tracks_def declared_from_set)
    have one: "source_ok (doc_refs d) Audio (ref_best (ar_input_id x) Audio)" "f32_is_finite (ar_gain_db x)"
      "audio_target x \<in> set (selectable_tracks d)" if "x \<in> set (au_routes a)" for x
      using r that prog
      by (auto simp: route_ok_def source_ok_def doc_refs_def ref_best_def audio_target_def audio_route_validate_def
          split: if_splits option.splits)
    have "\<forall>x\<in>set (au_routes a). ar_target_track x \<noteq> Some PROGRAM_TRACK"
      using r by (auto simp: route_ok_def)
    from targets_distinct_iff [OF conjunct2 [OF r] this]
    have "distinct (map audio_target (au_routes a)) \<longleftrightarrow> untargeted d \<le> 1" by (simp add: untargeted_def Some)
    then show ?thesis using one
      by (simp add: desugared_routing_table_def Some comp_def doc_refs_def flip: audio_target_def)
  qed
  show ?thesis using video outputs vd audio by (auto simp: table_ok_def desugared_routing_table_def)
qed

text \<open>C40: A document that validates has a well-formed routing table: every crosspoint binds a declared
  destination to a declared source of the right kind, and no destination is bound twice. For a
  document without an explicit table this needs that at most one audio route goes to the program bus
  alone.\<close>

theorem validated_routing_table_ok:
  assumes "validate_document_routing d = Inr ()" and "doc_routing d = None \<longrightarrow> untargeted d \<le> 1"
  shows "table_ok (doc_refs d) (doc_routing_table d) \<and> routing_validate (doc_refs d) (doc_routing_table d) = Inr ()"
proof -
  have "table_ok (doc_refs d) (doc_routing_table d)"
  proof (cases "doc_routing d")
    case None
    then show ?thesis
      using desugared_table_ok_iff [OF assms(1)] assms(2) by (simp add: doc_routing_table_def)
  next
    case (Some t)
    then show ?thesis using document_parts(5) [OF assms(1)] by (simp add: doc_routing_table_def)
  qed
  then show ?thesis using routing_validate_iff by blast
qed

definition bus_route :: "rstr \<Rightarrow> audio_route" where
  "bus_route i = \<lparr>ar_input_id = i, ar_channels = Stereo, ar_target_track = None, ar_language = None,
     ar_title = None, ar_include_in_program_bus = True, ar_gain_db = 0, ar_mute = False\<rparr>"

definition two_camera_doc :: "rstr list \<Rightarrow> document" where
  "two_camera_doc on_bus =
     \<lparr>doc_sources = [[97], [98]],
      doc_cells = [\<lparr>cc_id = [108], cc_input_id = Some [97], cc_inline_kind = False\<rparr>,
                   \<lparr>cc_id = [114], cc_input_id = Some [98], cc_inline_kind = False\<rparr>],
      doc_outputs = [\<lparr>co_explicit_id = None, co_transport = Srt [120], co_codec = Some [104], co_audio = None\<rparr>],
      doc_audio = Some \<lparr>au_sample_rate_hz = 48000, au_routes = map bus_route on_bus\<rparr>,
      doc_overlays = [], doc_routing = None\<rparr>"

lemmas validation_defs =
  validate_document_routing_def validate_unique_ids_def validate_cell_bindings_def validate_outputs_def
  validate_audio_def validate_routing_def source_id_step_def cell_id_step_def cell_binding_step_def
  output_id_step_def output_validate_def audio_routing_validate_def route_step_def route_track_step_def
  audio_route_validate_def audio_loop_start_def contributes_to_program_def output_audio_step_def
  f32_is_finite_def ok_unit_def

lemma two_camera_valid:
  "validate_document_routing (two_camera_doc [[97]]) = Inr ()"
  "validate_document_routing (two_camera_doc [[97], [98]]) = Inr ()"
  by (simp_all add: validation_defs two_camera_doc_def bus_route_def)

theorem validated_routing_table_ok_witness:
  "table_ok (doc_refs (two_camera_doc [[97]])) (doc_routing_table (two_camera_doc [[97]]))"
  using validated_routing_table_ok [OF two_camera_valid(1)]
  by (simp add: untargeted_def two_camera_doc_def bus_route_def)

text \<open>Two inputs mixed to the program bus: the document validates, its own desugared table does not.\<close>

lemma desugared_bus_mix_rejected:
  "routing_validate (doc_refs (two_camera_doc [[97], [98]])) (doc_routing_table (two_camera_doc [[97], [98]]))
     \<noteq> Inr ()"
  using desugared_table_ok_iff [OF two_camera_valid(2)]
  by (simp add: routing_validate_iff doc_routing_table_def untargeted_def two_camera_doc_def bus_route_def)

end
