(* ===== verification/Route_Apply.thy ===== *)
theory Route_Apply
  imports Routing_Table
begin

text \<open>
  \<open>multiview-engine/src/route.rs\<close>, the cell bindings of \<open>drive.rs\<close> and the subtitle layer of
  \<open>multiview-overlay/src/subtitle_route.rs\<close>: resolving a stream reference against an inventory, and
  applying a drained batch of route intents, coalesced to the last route per destination. Live handles
  (audio stores, cue sources, bus points) are opaque; the program bus's re-point is an argument.

  The locale \<open>crosspoints\<close> is what coalescing needs of a destination: a re-point overwrites, and
  re-points of two destinations commute.
\<close>

section \<open>Selectors\<close>

definition nth_opt :: "'a list \<Rightarrow> nat \<Rightarrow> 'a option" where
  "nth_opt xs i = (if i < length xs then Some (xs ! i) else None)"

definition primary_subtag :: "rstr \<Rightarrow> rstr" where
  "primary_subtag t = (case split_tags t of [] \<Rightarrow> map ascii_lower t | p # _ \<Rightarrow> map ascii_lower p)"

definition starts_with :: "rstr \<Rightarrow> rstr \<Rightarrow> bool" where
  "starts_with s p \<longleftrightarrow> take (length p) s = p"

definition language_matches :: "rstr \<Rightarrow> rstr \<Rightarrow> bool" where
  "language_matches have_tag want =
     (if eq_ignore_ascii_case have_tag want then True
      else let h = primary_subtag have_tag; w = primary_subtag want
           in h = w \<or> starts_with h w \<or> starts_with w h)"

definition resolve_selector ::
  "stream_inventory \<Rightarrow> stream_kind \<Rightarrow> stream_selector \<Rightarrow> stream_descriptor option" where
  "resolve_selector iv kind selector =
     (let of_kind = filter (\<lambda>s. sd_kind s = kind) (inv_streams iv) in
      case selector of
        Best \<Rightarrow> default_for (\<lambda>k. k = kind) iv
      | ByIndex index \<Rightarrow> nth_opt of_kind index
      | ByLanguage language \<Rightarrow>
          find (\<lambda>s. case sd_language s of None \<Rightarrow> False | Some tag \<Rightarrow> language_matches tag language) of_kind
      | ByStreamId i \<Rightarrow> find (\<lambda>s. id_display (sd_id s) = i) of_kind)"

section \<open>Reference keys\<close>

fun kind_tag :: "stream_kind \<Rightarrow> rstr" where
  "kind_tag Video = str ''v''"
| "kind_tag Audio = str ''a''"
| "kind_tag Subtitle = str ''s''"
| "kind_tag (Data Scte35) = str ''d:Scte35''"
| "kind_tag (Data Klv) = str ''d:Klv''"
| "kind_tag (Timecode Ltc) = str ''t:Ltc''"
| "kind_tag (Timecode Vitc) = str ''t:Vitc''"
| "kind_tag (Timecode AtcRp188) = str ''t:AtcRp188''"
| "kind_tag (Timecode TcGenerated) = str ''t:Generated''"

fun selector_key :: "stream_selector \<Rightarrow> rstr" where
  "selector_key Best = str ''best''"
| "selector_key (ByIndex index) = str ''idx:'' @ decimal index"
| "selector_key (ByLanguage language) = str ''lang:'' @ language"
| "selector_key (ByStreamId i) = str ''id:'' @ i"

definition ref_key :: "stream_ref \<Rightarrow> rstr" where
  "ref_key r =
     decimal (length (ref_input_id r)) @ [58] @ ref_input_id r @ [124] @ kind_tag (ref_kind r) @ [124] @
     selector_key (ref_selector r)"

section \<open>Resolution\<close>

record ('st, 'cue, 'pt) route_resolution =
  rs_inventories :: "rstr \<Rightarrow> stream_inventory option"
  rs_video_keys :: "rstr \<Rightarrow> rstr option"
  rs_audio_stores :: "rstr \<Rightarrow> 'st option"
  rs_cues :: "rstr \<Rightarrow> 'cue option"
  rs_channels :: "rstr \<Rightarrow> 'pt option"

definition resolution_new :: "(rstr \<Rightarrow> stream_inventory option) \<Rightarrow> ('st, 'cue, 'pt) route_resolution" where
  "resolution_new inventories =
     \<lparr>rs_inventories = inventories, rs_video_keys = (\<lambda>k. None), rs_audio_stores = (\<lambda>k. None),
      rs_cues = (\<lambda>k. None), rs_channels = (\<lambda>k. None)\<rparr>"

definition set_video_store_key ::
  "stream_ref \<Rightarrow> rstr \<Rightarrow> ('st, 'cue, 'pt) route_resolution \<Rightarrow> ('st, 'cue, 'pt) route_resolution" where
  "set_video_store_key r key rs = rs\<lparr>rs_video_keys := (rs_video_keys rs)(ref_key r \<mapsto> key)\<rparr>"

definition set_audio_store ::
  "stream_ref \<Rightarrow> 'st \<Rightarrow> ('st, 'cue, 'pt) route_resolution \<Rightarrow> ('st, 'cue, 'pt) route_resolution" where
  "set_audio_store r store rs = rs\<lparr>rs_audio_stores := (rs_audio_stores rs)(ref_key r \<mapsto> store)\<rparr>"

definition set_cue_source ::
  "stream_ref \<Rightarrow> 'cue \<Rightarrow> ('st, 'cue, 'pt) route_resolution \<Rightarrow> ('st, 'cue, 'pt) route_resolution" where
  "set_cue_source r cue rs = rs\<lparr>rs_cues := (rs_cues rs)(ref_key r \<mapsto> cue)\<rparr>"

definition set_audio_channel ::
  "rstr \<Rightarrow> 'pt \<Rightarrow> ('st, 'cue, 'pt) route_resolution \<Rightarrow> ('st, 'cue, 'pt) route_resolution" where
  "set_audio_channel target point rs = rs\<lparr>rs_channels := (rs_channels rs)(target \<mapsto> point)\<rparr>"

definition validate_ref :: "('st, 'cue, 'pt) route_resolution \<Rightarrow> stream_ref \<Rightarrow> rstr option" where
  "validate_ref rs r =
     (case rs_inventories rs (ref_input_id r) of
        None \<Rightarrow> None
      | Some iv \<Rightarrow> map_option (\<lambda>d. id_display (sd_id d)) (resolve_selector iv (ref_kind r) (ref_selector r)))"

datatype route_error =
  Unresolved stream_ref | NoHandle stream_ref | UnknownTarget rstr
| UnknownCell rstr | NoStore rstr rstr | IndexOutOfRange rstr nat | BusFailed rstr

definition check_ref :: "('st, 'cue, 'pt) route_resolution \<Rightarrow> stream_ref \<Rightarrow> route_error + unit" where
  "check_ref rs r =
     (if rs_inventories rs (ref_input_id r) \<noteq> None \<and> validate_ref rs r = None
      then Inl (Unresolved r) else Inr ())"

definition resolve_video_key :: "('st, 'cue, 'pt) route_resolution \<Rightarrow> stream_ref \<Rightarrow> route_error + rstr" where
  "resolve_video_key rs r =
     after_check (check_ref rs r)
       (case rs_video_keys rs (ref_key r) of None \<Rightarrow> Inl (NoHandle r) | Some key \<Rightarrow> Inr key)"

section \<open>The drive's bindings\<close>

record drive_bindings =
  dr_stores :: "rstr set"
  dr_cells :: "rstr option list"
  dr_cell_index :: "rstr \<Rightarrow> nat option"

fun index_cells :: "nat \<Rightarrow> nat \<Rightarrow> rstr option list \<Rightarrow> (rstr \<Rightarrow> nat option) \<Rightarrow> rstr \<Rightarrow> nat option" where
  "index_cells n index [] m = m"
| "index_cells n index (i # ids) m =
     (if n \<le> index then m
      else index_cells n (Suc index) ids (case i of None \<Rightarrow> m | Some c \<Rightarrow> m(c \<mapsto> index)))"

definition set_cell_ids :: "rstr option list \<Rightarrow> drive_bindings \<Rightarrow> drive_bindings" where
  "set_cell_ids ids d = d\<lparr>dr_cell_index := index_cells (length (dr_cells d)) 0 ids (\<lambda>c. None)\<rparr>"

definition rebind_cell :: "rstr \<Rightarrow> rstr \<Rightarrow> drive_bindings \<Rightarrow> route_error + drive_bindings" where
  "rebind_cell cell_id source_id d =
     (case dr_cell_index d cell_id of
        None \<Rightarrow> Inl (UnknownCell cell_id)
      | Some index \<Rightarrow>
          if source_id \<notin> dr_stores d then Inl (NoStore cell_id source_id)
          else if length (dr_cells d) \<le> index then Inl (IndexOutOfRange cell_id index)
          else Inr (d\<lparr>dr_cells := (dr_cells d)[index := Some source_id]\<rparr>))"

section \<open>Intents and coalescing\<close>

datatype route_intent =
  VideoIntent rstr stream_ref
| AudioIntent rstr stream_ref "32 word" bool
| SubtitleIntent rstr stream_ref
| OutputIntent rstr rstr rstr

definition swap_source :: "rstr \<Rightarrow> rstr \<Rightarrow> route_intent" where
  "swap_source tile source = VideoIntent tile (ref_best source Video)"

fun video_route :: "route_intent \<Rightarrow> (rstr \<times> stream_ref) option" where
  "video_route (VideoIntent cell r) = Some (cell, r)"
| "video_route (AudioIntent t r g m) = None"
| "video_route (SubtitleIntent l r) = None"
| "video_route (OutputIntent s f t) = None"

fun audio_route_of :: "route_intent \<Rightarrow> (rstr \<times> stream_ref) option" where
  "audio_route_of (AudioIntent t r g m) = Some (t, r)"
| "audio_route_of (VideoIntent cell r) = None"
| "audio_route_of (SubtitleIntent l r) = None"
| "audio_route_of (OutputIntent s f t) = None"

fun subtitle_route :: "route_intent \<Rightarrow> (rstr \<times> stream_ref) option" where
  "subtitle_route (SubtitleIntent l r) = Some (l, r)"
| "subtitle_route (VideoIntent cell r) = None"
| "subtitle_route (AudioIntent t r g m) = None"
| "subtitle_route (OutputIntent s f t) = None"

fun coalesce_loop ::
  "('i \<Rightarrow> ('d \<times> 'r) option) \<Rightarrow> 'i list \<Rightarrow> ('d \<Rightarrow> 'r option) \<Rightarrow> 'd list \<Rightarrow> ('d \<Rightarrow> 'r option) \<times> 'd list" where
  "coalesce_loop pick [] m order = (m, order)"
| "coalesce_loop pick (i # is) m order =
     (case pick i of
        None \<Rightarrow> coalesce_loop pick is m order
      | Some (d, r) \<Rightarrow> coalesce_loop pick is (m(d \<mapsto> r)) (if m d = None then order @ [d] else order))"

text \<open>Apply the surviving route of each destination in order; stop at the first error, keeping what was
  applied. The count is of the routes applied.\<close>

fun apply_order ::
  "('d \<Rightarrow> 'r \<Rightarrow> 's \<Rightarrow> 'e + 's) \<Rightarrow> ('d \<Rightarrow> 'r option) \<Rightarrow> 'd list \<Rightarrow> nat \<Rightarrow> 's \<Rightarrow> ('e + nat) \<times> 's" where
  "apply_order f m [] n s = (Inr n, s)"
| "apply_order f m (d # ds) n s =
     (case m d of
        None \<Rightarrow> apply_order f m ds n s
      | Some r \<Rightarrow> (case f d r s of Inl e \<Rightarrow> (Inl e, s) | Inr s' \<Rightarrow> apply_order f m ds (Suc n) s'))"

definition apply_coalesced ::
  "('i \<Rightarrow> ('d \<times> 'r) option) \<Rightarrow> ('d \<Rightarrow> 'r \<Rightarrow> 's \<Rightarrow> 'e + 's) \<Rightarrow> 'i list \<Rightarrow> 's \<Rightarrow> ('e + nat) \<times> 's" where
  "apply_coalesced pick f batch s =
     (let (m, order) = coalesce_loop pick batch (\<lambda>d. None) [] in apply_order f m order 0 s)"

definition video_repoint ::
  "('st, 'cue, 'pt) route_resolution \<Rightarrow> rstr \<Rightarrow> stream_ref \<Rightarrow> drive_bindings \<Rightarrow> route_error + drive_bindings" where
  "video_repoint rs cell r d =
     (case resolve_video_key rs r of Inl e \<Rightarrow> Inl e | Inr key \<Rightarrow> rebind_cell cell key d)"

definition apply_video ::
  "('st, 'cue, 'pt) route_resolution \<Rightarrow> route_intent list \<Rightarrow> drive_bindings \<Rightarrow> (route_error + nat) \<times> drive_bindings" where
  "apply_video rs batch d = apply_coalesced video_route (video_repoint rs) batch d"

type_synonym ('pt, 'st, 'b) bus_repoint = "'pt \<Rightarrow> 'st \<Rightarrow> nat \<Rightarrow> 'b \<Rightarrow> rstr + 'b"

definition audio_repoint ::
  "('pt, 'st, 'b) bus_repoint \<Rightarrow> nat \<Rightarrow> ('st, 'cue, 'pt) route_resolution \<Rightarrow>
   rstr \<Rightarrow> stream_ref \<Rightarrow> 'b \<Rightarrow> route_error + 'b" where
  "audio_repoint bus ramp_frames rs target r b =
     after_check (check_ref rs r)
       (case rs_audio_stores rs (ref_key r) of
          None \<Rightarrow> Inl (NoHandle r)
        | Some store \<Rightarrow>
            (case rs_channels rs target of
               None \<Rightarrow> Inl (UnknownTarget target)
             | Some point \<Rightarrow>
                 (case bus point store ramp_frames b of Inl e \<Rightarrow> Inl (BusFailed e) | Inr b' \<Rightarrow> Inr b')))"

definition apply_audio ::
  "('pt, 'st, 'b) bus_repoint \<Rightarrow> nat \<Rightarrow> ('st, 'cue, 'pt) route_resolution \<Rightarrow> route_intent list \<Rightarrow> 'b \<Rightarrow>
   (route_error + nat) \<times> 'b" where
  "apply_audio bus ramp_frames rs batch b = apply_coalesced audio_route_of (audio_repoint bus ramp_frames rs) batch b"

text \<open>A subtitle layer: its cue source and the armed clear-on-switch seam.\<close>

record 'cue subtitle_layer =
  sl_source :: 'cue
  sl_seam_armed :: bool

definition layer_repoint :: "'cue \<Rightarrow> 'cue subtitle_layer \<Rightarrow> 'cue subtitle_layer" where
  "layer_repoint cue l = l\<lparr>sl_source := cue, sl_seam_armed := True\<rparr>"

definition subtitle_repoint ::
  "('st, 'cue, 'pt) route_resolution \<Rightarrow> rstr \<Rightarrow> stream_ref \<Rightarrow> (rstr \<Rightarrow> 'cue subtitle_layer option) \<Rightarrow>
   route_error + (rstr \<Rightarrow> 'cue subtitle_layer option)" where
  "subtitle_repoint rs layer r ls =
     after_check (check_ref rs r)
       (case rs_cues rs (ref_key r) of
          None \<Rightarrow> Inl (NoHandle r)
        | Some cue \<Rightarrow>
            (case ls layer of
               None \<Rightarrow> Inl (UnknownTarget layer)
             | Some l \<Rightarrow> Inr (ls(layer \<mapsto> layer_repoint cue l))))"

definition apply_subtitle ::
  "('st, 'cue, 'pt) route_resolution \<Rightarrow> route_intent list \<Rightarrow> (rstr \<Rightarrow> 'cue subtitle_layer option) \<Rightarrow>
   (route_error + nat) \<times> (rstr \<Rightarrow> 'cue subtitle_layer option)" where
  "apply_subtitle rs batch ls = apply_coalesced subtitle_route (subtitle_repoint rs) batch ls"

section \<open>Coalescing\<close>

fun coalesced :: "('d \<times> 'r) list \<Rightarrow> ('d \<times> 'r) list" where
  "coalesced [] = []"
| "coalesced ((d, r) # xs) =
     (d, case map_of (rev xs) d of Some r' \<Rightarrow> r' | None \<Rightarrow> r) # filter (\<lambda>p. fst p \<noteq> d) (coalesced xs)"

lemma map_of_rev_Cons: "map_of (rev (x # xs)) = [fst x \<mapsto> snd x] ++ map_of (rev xs)"
  by (cases x) (simp add: map_of_append)

lemma coalesced_dests: "fst ` set (coalesced xs) = fst ` set xs"
  by (induction xs rule: coalesced.induct) (auto simp: image_iff)

lemma coalesced_distinct: "distinct (map fst (coalesced xs))"
proof (induction xs rule: coalesced.induct)
  case (2 d r xs)
  then show ?case by (auto simp: filter_map [symmetric] intro: distinct_map_filter)
qed simp

lemma coalesced_last: "(d, r) \<in> set (coalesced xs) \<longleftrightarrow> map_of (rev xs) d = Some r"
proof (induction xs arbitrary: r rule: coalesced.induct)
  case (2 d' r' xs)
  show ?case
    unfolding map_of_rev_Cons using "2.IH" [of r]
    by (cases "d = d'") (auto simp: map_add_def split: option.splits)
qed simp

lemma coalesce_loop_pairs:
  "coalesce_loop pick is m order = coalesce_loop Some (List.map_filter pick is) m order"
  by (induction "is" arbitrary: m order) (auto simp: map_filter_simps split: option.split)

lemma coalesce_loop_spec:
  "coalesce_loop Some xs m order =
     (m ++ map_of (rev xs), order @ map fst (filter (\<lambda>p. m (fst p) = None) (coalesced xs)))"
proof (induction xs arbitrary: m order)
  case Nil
  then show ?case by simp
next
  case (Cons x xs)
  obtain d r where x: "x = (d, r)" by force
  have m: "m(d \<mapsto> r) ++ map_of (rev xs) = m ++ map_of (rev (x # xs))"
    unfolding map_of_rev_Cons by (simp add: x)
  have o: "filter (\<lambda>p. (m(d \<mapsto> r)) (fst p) = None) (coalesced xs) =
      filter (\<lambda>p. m (fst p) = None) (filter (\<lambda>p. fst p \<noteq> d) (coalesced xs))"
    by (simp add: conj_commute) (rule filter_cong, auto)
  have "coalesce_loop Some (x # xs) m order =
      (m(d \<mapsto> r) ++ map_of (rev xs),
       (if m d = None then order @ [d] else order) @ map fst (filter (\<lambda>p. (m(d \<mapsto> r)) (fst p) = None) (coalesced xs)))"
    by (simp add: x Cons.IH del: fun_upd_apply) (simp only: fun_upd_def)?
  also have "(if m d = None then order @ [d] else order) @ map fst (filter (\<lambda>p. (m(d \<mapsto> r)) (fst p) = None) (coalesced xs)) =
      order @ map fst (filter (\<lambda>p. m (fst p) = None) (coalesced (x # xs)))"
    by (simp only: o) (simp add: x)
  finally show ?case by (simp only: m)
qed

lemma apply_order_run:
  "(\<forall>d\<in>set ds. m d \<noteq> None) \<Longrightarrow>
   for_each (\<lambda>(d, r). f d r) (map (\<lambda>d. (d, the (m d))) ds) s = Inr s' \<Longrightarrow>
   apply_order f m ds n s = (Inr (n + length ds), s')"
  by (induction ds arbitrary: n s) (auto split: sum.splits)

lemma apply_coalesced_run:
  assumes "xs = List.map_filter pick batch" and "for_each (\<lambda>(d, r). f d r) (coalesced xs) s = Inr s'"
  shows "apply_coalesced pick f batch s = (Inr (card (fst ` set xs)), s')"
proof -
  define m where "m = map_of (rev xs)"
  define ds where "ds = map fst (coalesced xs)"
  have "(d, the (m d)) = p" if "p \<in> set (coalesced xs)" "fst p = d" for p d
    using that coalesced_last [of d "snd p" xs] unfolding m_def by (cases p) auto
  then have "map (\<lambda>d. (d, the (m d))) ds = coalesced xs"
    by (auto simp: ds_def comp_def intro!: map_idI)
  moreover have "\<forall>d\<in>set ds. m d \<noteq> None"
    using coalesced_last [of _ _ xs] by (auto simp: ds_def m_def)
  moreover have "length ds = card (fst ` set xs)"
    using distinct_card [OF coalesced_distinct [of xs]] coalesced_dests [of xs] by (simp add: ds_def)
  ultimately have "apply_order f m ds 0 s = (Inr (card (fst ` set xs)), s')"
    using apply_order_run [of ds m f s s' 0] assms(2) by simp
  then show ?thesis
    by (simp add: apply_coalesced_def coalesce_loop_pairs [of pick] coalesce_loop_spec m_def ds_def
        flip: assms(1))
qed

locale crosspoints =
  fixes repoint :: "'d \<Rightarrow> 'r \<Rightarrow> 's \<Rightarrow> 'e + 's"
    and good :: "'s \<Rightarrow> bool"
  assumes keeps: "good s \<Longrightarrow> repoint d r s = Inr s' \<Longrightarrow> good s'"
    and overwrites: "good s \<Longrightarrow> repoint d r s = Inr s' \<Longrightarrow> repoint d r' s' = repoint d r' s"
    and commutes: "good s \<Longrightarrow> d \<noteq> d' \<Longrightarrow> repoint d r s = Inr s1 \<Longrightarrow> repoint d' r' s1 = Inr s2 \<Longrightarrow>
           \<exists>t. repoint d' r' s = Inr t \<and> repoint d r t = Inr s2"
begin

definition run_log :: "('d \<times> 'r) list \<Rightarrow> 's \<Rightarrow> 'e + 's" where
  "run_log xs s = for_each (\<lambda>(d, r). repoint d r) xs s"

lemma run_simps [simp]:
  "run_log [] s = Inr s"
  "run_log ((d, r) # xs) s = Inr t \<longleftrightarrow> (\<exists>s'. repoint d r s = Inr s' \<and> run_log xs s' = Inr t)"
  by (auto simp: run_log_def split: sum.split)

lemma run_log_append: "run_log (xs @ ys) s = Inr t \<longleftrightarrow> (\<exists>s'. run_log xs s = Inr s' \<and> run_log ys s' = Inr t)"
  by (induction xs arbitrary: s) auto

lemma run_keeps: "good s \<Longrightarrow> run_log xs s = Inr t \<Longrightarrow> good t"
  by (induction xs arbitrary: s) (auto, metis keeps)

lemma pull_front:
  "good s \<Longrightarrow> d \<notin> fst ` set xs \<Longrightarrow> run_log xs s = Inr t \<Longrightarrow> repoint d r t = Inr u \<Longrightarrow>
     \<exists>v. repoint d r s = Inr v \<and> run_log xs v = Inr u"
proof (induction xs arbitrary: s)
  case Nil
  then show ?case by simp
next
  case (Cons x xs)
  obtain d' r' where x: "x = (d', r')" by force
  obtain s1 where s1: "repoint d' r' s = Inr s1" "run_log xs s1 = Inr t" using Cons.prems(3) by (auto simp: x)
  obtain v where v: "repoint d r s1 = Inr v" "run_log xs v = Inr u"
    using Cons.IH [of s1] keeps [OF Cons.prems(1) s1(1)] s1(2) Cons.prems by auto
  have "d' \<noteq> d" using Cons.prems(2) by (auto simp: x)
  from commutes [OF Cons.prems(1) this s1(1) v(1)] v(2) show ?case by (auto simp: x)
qed

lemma coalesced_run: "good s \<Longrightarrow> run_log xs s = Inr t \<Longrightarrow> run_log (coalesced xs) s = Inr t"
proof (induction xs arbitrary: s)
  case Nil
  then show ?case by simp
next
  case (Cons x xs)
  obtain d r where x: "x = (d, r)" by force
  obtain s1 where s1: "repoint d r s = Inr s1" "run_log xs s1 = Inr t" using Cons.prems(2) by (auto simp: x)
  have IH: "run_log (coalesced xs) s1 = Inr t" using Cons.IH keeps [OF Cons.prems(1) s1(1)] s1(2) by blast
  show ?case
  proof (cases "map_of (rev xs) d")
    case None
    then have "d \<notin> fst ` set (coalesced xs)" using coalesced_dests [of xs] by (auto simp: map_of_eq_None_iff)
    then have "filter (\<lambda>p. fst p \<noteq> d) (coalesced xs) = coalesced xs" by (auto intro!: filter_True)
    then show ?thesis using IH s1(1) None by (simp add: x)
  next
    case (Some r')
    then have "(d, r') \<in> set (coalesced xs)" by (simp add: coalesced_last)
    then obtain as bs where ab: "coalesced xs = as @ (d, r') # bs" by (auto simp: in_set_conv_decomp)
    have d: "d \<notin> fst ` set as" "d \<notin> fst ` set bs" using coalesced_distinct [of xs] by (auto simp: ab)
    obtain a b where r: "run_log as s1 = Inr a" "repoint d r' a = Inr b" "run_log bs b = Inr t"
      using IH by (auto simp: ab run_log_append)
    obtain v where v: "repoint d r' s1 = Inr v" "run_log as v = Inr b"
      using pull_front [OF keeps [OF Cons.prems(1) s1(1)] d(1) r(1,2)] by blast
    have "filter (\<lambda>p. fst p \<noteq> d) (coalesced xs) = as @ bs"
    proof -
      have "filter (\<lambda>p. fst p \<noteq> d) ys = ys" if "d \<notin> fst ` set ys" for ys :: "('d \<times> 'r) list"
        using that by (auto intro!: filter_True)
      then show ?thesis using d by (simp add: ab)
    qed
    moreover have "repoint d r' s = Inr v" using overwrites [OF Cons.prems(1) s1(1)] v(1) by simp
    ultimately show ?thesis using v(2) r(3) Some by (simp add: x run_log_append)
  qed
qed

text \<open>A batch that would apply route by route applies coalesced to the same state, with one re-point per
  destination.\<close>

lemma coalesced_sequential:
  assumes "good s" and "xs = List.map_filter pick batch" and "for_each (\<lambda>(d, r). repoint d r) xs s = Inr t"
  shows "apply_coalesced pick repoint batch s = (Inr (card (fst ` set xs)), t)"
  using apply_coalesced_run [OF assms(2), of repoint s t] coalesced_run [OF assms(1), of xs t] assms(3)
  by (simp add: run_log_def)

end

section \<open>The drive and the subtitle layers\<close>

definition index_injective :: "drive_bindings \<Rightarrow> bool" where
  "index_injective d \<longleftrightarrow> inj_on (dr_cell_index d) (dom (dr_cell_index d))"

lemma index_cells_range:
  "index_cells n k ids m c = Some i \<Longrightarrow> m c = Some i \<or> k \<le> i \<and> i < n"
  by (induction n k ids m rule: index_cells.induct) (fastforce split: if_splits option.splits)+

lemma index_cells_inj:
  "inj_on m (dom m) \<Longrightarrow> (\<forall>c i. m c = Some i \<longrightarrow> i < k) \<Longrightarrow>
     inj_on (index_cells n k ids m) (dom (index_cells n k ids m))"
proof (induction n k ids m rule: index_cells.induct)
  case (2 n k i ids m)
  show ?case
  proof (cases "n \<le> k")
    case True
    then show ?thesis using "2.prems" by simp
  next
    case False
    have less: "\<forall>c j. m c = Some j \<longrightarrow> j < Suc k" using "2.prems"(2) less_Suc_eq by auto
    show ?thesis
    proof (cases i)
      case None
      then show ?thesis using "2.IH" False "2.prems"(1) less by simp
    next
      case (Some c)
      have "inj_on (m(c \<mapsto> k)) (dom (m(c \<mapsto> k)))"
        using "2.prems" by (auto simp: inj_on_def dom_def) (metis nat_less_le)+
      moreover have "\<forall>c' j. (m(c \<mapsto> k)) c' = Some j \<longrightarrow> j < Suc k" using less by auto
      ultimately show ?thesis using "2.IH" False Some by (simp flip: fun_upd_def)
    qed
  qed
qed simp

lemma set_cell_ids_injective: "index_injective (set_cell_ids ids d)"
  unfolding index_injective_def set_cell_ids_def
  using index_cells_inj [of "\<lambda>c. None" 0] by simp

lemma rebind_cell_Inr:
  "rebind_cell c k d = Inr d' \<longleftrightarrow>
     (\<exists>i. dr_cell_index d c = Some i \<and> k \<in> dr_stores d \<and> i < length (dr_cells d) \<and>
        d' = d\<lparr>dr_cells := (dr_cells d)[i := Some k]\<rparr>)"
  by (auto simp: rebind_cell_def split: option.splits)

lemma video_repoint_Inr:
  "video_repoint rs c r d = Inr d' \<longleftrightarrow> (\<exists>k. resolve_video_key rs r = Inr k \<and> rebind_cell c k d = Inr d')"
  by (auto simp: video_repoint_def split: sum.splits)

interpretation video_points: crosspoints "video_repoint rs" index_injective for rs
proof
  fix s s' d r assume "index_injective s" "video_repoint rs d r s = Inr s'"
  then show "index_injective s'" by (auto simp: video_repoint_Inr rebind_cell_Inr index_injective_def)
next
  fix s s' d r r' assume "video_repoint rs d r s = Inr s'"
  then show "video_repoint rs d r' s' = video_repoint rs d r' s"
    by (auto simp: video_repoint_Inr rebind_cell_Inr)
      (auto simp: video_repoint_def rebind_cell_def split: sum.split)
next
  fix s s1 s2 d d' r r'
  assume h: "index_injective s" "d \<noteq> d'" "video_repoint rs d r s = Inr s1" "video_repoint rs d' r' s1 = Inr s2"
  obtain k i where k: "resolve_video_key rs r = Inr k" "dr_cell_index s d = Some i" "k \<in> dr_stores s"
    "i < length (dr_cells s)" "s1 = s\<lparr>dr_cells := (dr_cells s)[i := Some k]\<rparr>"
    using h(3) by (auto simp: video_repoint_Inr rebind_cell_Inr)
  obtain k' i' where k': "resolve_video_key rs r' = Inr k'" "dr_cell_index s d' = Some i'" "k' \<in> dr_stores s"
    "i' < length (dr_cells s)" "s2 = s\<lparr>dr_cells := (dr_cells s)[i := Some k, i' := Some k']\<rparr>"
    using h(4) by (auto simp: video_repoint_Inr rebind_cell_Inr k(5))
  have "i \<noteq> i'"
    using h(1,2) k(2) k'(2) unfolding index_injective_def inj_on_def by (metis domI)
  then show "\<exists>t. video_repoint rs d' r' s = Inr t \<and> video_repoint rs d r t = Inr s2"
    using k k' by (auto simp: video_repoint_Inr rebind_cell_Inr list_update_swap)
qed

lemma subtitle_repoint_Inr:
  "subtitle_repoint rs x r ls = Inr ls' \<longleftrightarrow>
     (\<exists>cue l. check_ref rs r = Inr () \<and> rs_cues rs (ref_key r) = Some cue \<and> ls x = Some l \<and>
        ls' = ls(x \<mapsto> layer_repoint cue l))"
  by (auto simp: subtitle_repoint_def split: option.splits)

interpretation subtitle_points: crosspoints "subtitle_repoint rs" "\<lambda>ls. True" for rs
proof
  fix s s' d r r' assume "subtitle_repoint rs d r s = Inr s'"
  then show "subtitle_repoint rs d r' s' = subtitle_repoint rs d r' s"
    by (auto simp: subtitle_repoint_Inr) (auto simp: subtitle_repoint_def layer_repoint_def split: option.split)
next
  fix s s1 s2 d d' r r'
  assume "d \<noteq> d'" "subtitle_repoint rs d r s = Inr s1" "subtitle_repoint rs d' r' s1 = Inr s2"
  then show "\<exists>t. subtitle_repoint rs d' r' s = Inr t \<and> subtitle_repoint rs d r t = Inr s2"
    by (auto simp: subtitle_repoint_Inr fun_upd_twist)
qed simp

text \<open>A storm of routes is one re-point per cell. If the batch's video routes would all apply one after
  another, applying them coalesced gives the same bindings, and the count it returns is the number of
  distinct cells.\<close>

theorem video_storm_coalesces:
  assumes "xs = List.map_filter video_route batch"
    and "for_each (\<lambda>(cell, r). video_repoint rs cell r) xs (set_cell_ids ids d) = Inr d'"
  shows "apply_video rs batch (set_cell_ids ids d) = (Inr (card (fst ` set xs)), d')"
  unfolding apply_video_def
  using video_points.coalesced_sequential [OF set_cell_ids_injective assms] .

lemma subtitle_storm_coalesces:
  assumes "xs = List.map_filter subtitle_route batch"
    and "for_each (\<lambda>(layer, r). subtitle_repoint rs layer r) xs ls = Inr ls'"
  shows "apply_subtitle rs batch ls = (Inr (card (fst ` set xs)), ls')"
  unfolding apply_subtitle_def using subtitle_points.coalesced_sequential [OF TrueI assms] .

definition demo_drive :: "rstr option list \<Rightarrow> drive_bindings" where
  "demo_drive cells = set_cell_ids [Some [97], Some [98]]
     \<lparr>dr_stores = {[107]}, dr_cells = cells, dr_cell_index = (\<lambda>c. None)\<rparr>"

definition demo_resolution :: "(unit, unit, unit) route_resolution" where
  "demo_resolution = (resolution_new (\<lambda>i. None))\<lparr>rs_video_keys := (\<lambda>k. Some [107])\<rparr>"

lemmas demo_route_defs = demo_drive_def demo_resolution_def video_repoint_def resolve_video_key_def
  check_ref_def rebind_cell_def set_cell_ids_def resolution_new_def

theorem video_storm_coalesces_witness:
  "apply_video demo_resolution [swap_source [97] [120], swap_source [98] [120], swap_source [97] [121]]
     (demo_drive [None, None]) = (Inr 2, demo_drive [Some [107], Some [107]])"
proof -
  define batch where "batch = [swap_source [97] [120], swap_source [98] [120], swap_source [97] [121]]"
  define xs where "xs = List.map_filter video_route batch"
  have xs: "xs = [([97], ref_best [120] Video), ([98], ref_best [120] Video), ([97], ref_best [121] Video)]"
    by (simp add: xs_def batch_def swap_source_def map_filter_simps)
  have "for_each (\<lambda>(cell, r). video_repoint demo_resolution cell r) xs (demo_drive [None, None]) =
      Inr (demo_drive [Some [107], Some [107]])"
    by (simp add: xs demo_route_defs)
  then have "apply_video demo_resolution batch (demo_drive [None, None]) =
      (Inr (card (fst ` set xs)), demo_drive [Some [107], Some [107]])"
    unfolding demo_drive_def [of "[None, None]"] by (rule video_storm_coalesces [OF xs_def])
  moreover have "card (fst ` set xs) = 2" by (simp add: xs insert_commute)
  ultimately show ?thesis by (simp add: batch_def)
qed

section \<open>Keys never collide\<close>

lemma kind_tag_plain: "124 \<notin> set (kind_tag k)"
  by (cases k rule: kind_tag.cases) (simp_all add: str_def)

lemma kind_tag_inj: "kind_tag k = kind_tag k' \<Longrightarrow> k = k'"
  by (cases k rule: kind_tag.cases; cases k' rule: kind_tag.cases) (simp_all add: str_def)

lemma selector_key_inj: "selector_key a = selector_key b \<Longrightarrow> a = b"
  by (cases a; cases b) (auto simp: str_def dest: decimal_inj)

lemma split_at_bar:
  assumes "a @ (124 :: byte) # x = b @ 124 # y" and "124 \<notin> set a" and "124 \<notin> set b"
  shows "a = b \<and> x = y"
proof -
  have t: "takeWhile (\<lambda>c. c \<noteq> 124) (p @ 124 # z) = p" if "124 \<notin> set p" for p z :: bytes
    using that by (subst takeWhile_append2) auto
  have "a = b" using t [OF assms(2), of x] t [OF assms(3), of y] assms(1) by metis
  then show ?thesis using assms(1) by simp
qed

text \<open>The table a route looks its handle up in never confuses two references: equal keys mean equal
  input, kind and selector, whatever characters the identifiers contain.\<close>

theorem ref_keys_never_collide:
  "ref_key r = ref_key r' \<longleftrightarrow>
     ref_input_id r = ref_input_id r' \<and> ref_kind r = ref_kind r' \<and> ref_selector r = ref_selector r'"
proof
  assume "ref_key r = ref_key r'"
  then have "decimal (length (ref_input_id r)) @ 58 # (ref_input_id r @ 124 # kind_tag (ref_kind r) @ 124 # selector_key (ref_selector r)) =
     decimal (length (ref_input_id r')) @ 58 # (ref_input_id r' @ 124 # kind_tag (ref_kind r') @ 124 # selector_key (ref_selector r'))"
    by (simp add: ref_key_def)
  from decimal_colon [OF this]
  have l: "length (ref_input_id r) = length (ref_input_id r')"
    "ref_input_id r @ 124 # kind_tag (ref_kind r) @ 124 # selector_key (ref_selector r) =
     ref_input_id r' @ 124 # kind_tag (ref_kind r') @ 124 # selector_key (ref_selector r')"
    by simp_all
  then have i: "ref_input_id r = ref_input_id r'"
    "kind_tag (ref_kind r) @ 124 # selector_key (ref_selector r) = kind_tag (ref_kind r') @ 124 # selector_key (ref_selector r')"
    by simp_all
  with split_at_bar [OF i(2) kind_tag_plain kind_tag_plain] kind_tag_inj selector_key_inj
  show "ref_input_id r = ref_input_id r' \<and> ref_kind r = ref_kind r' \<and> ref_selector r = ref_selector r'" by blast
qed (simp add: ref_key_def)

section \<open>Errors\<close>

text \<open>A failing batch is not undone: two cells, the second route unresolvable, and the first cell stays
  re-pointed.\<close>

lemma failed_batch_half_applied:
  assumes "c1 \<noteq> c2" and "video_repoint rs c1 r1 d = Inr d1" and "video_repoint rs c2 r2 d1 = Inl e"
  shows "apply_video rs [VideoIntent c1 r1, VideoIntent c2 r2] d = (Inl e, d1)"
  using assms by (simp add: apply_video_def apply_coalesced_def)

text \<open>The gain and the mute of an audio intent have no effect.\<close>

lemma audio_gain_ignored:
  "apply_audio bus ramp rs [AudioIntent t r g m] b = apply_audio bus ramp rs [AudioIntent t r g' m'] b"
  by (simp add: apply_audio_def apply_coalesced_def)

text \<open>The primary-subtag prefix rule confuses languages: a request for Spanish takes an Estonian track,
  and an empty request takes any.\<close>

lemma language_prefix_confusion:
  "language_matches (str ''est'') (str ''es'')"
  "language_matches (str ''fil'') (str ''fi'')"
  "language_matches tag []"
  "\<not> language_matches (str ''spa'') (str ''es'')"
proof -
  show "language_matches tag []" by (simp add: language_matches_def primary_subtag_def starts_with_def)
qed code_simp+

end
