(* ===== verification/Automation.thy ===== *)
theory Automation
  imports Tally Media_Time
begin

text \<open>
  \<open>multiview-engine/src/salvo.rs\<close> and \<open>scheduler.rs\<close>: preset recalls that are armed, taken or cancelled,
  and the rules that decide when an action fires. Both are pure: they return what the engine is to
  apply. Instants are \<open>i64\<close> nanoseconds; the plain \<open>+\<close> of the step count wraps.
\<close>

section \<open>Salvos\<close>

datatype salvo_change =
  LayoutChange string string
| SourceBind nat "string option"
| TallyChange nat tally_color
| UmdChange nat string

record salvo_batch =
  batch_name :: string
  batch_changes :: "salvo_change list"

datatype salvo_phase = SalvoIdle | SalvoArmed | SalvoTaken

record salvo =
  sv_name :: string
  sv_changes :: "salvo_change list"
  sv_phase :: salvo_phase

definition salvo_new :: "string \<Rightarrow> salvo_change list \<Rightarrow> salvo" where
  "salvo_new name changes = \<lparr>sv_name = name, sv_changes = changes, sv_phase = SalvoIdle\<rparr>"

definition salvo_is_armed :: "salvo \<Rightarrow> bool" where
  "salvo_is_armed s \<longleftrightarrow> sv_phase s = SalvoArmed"

definition salvo_arm :: "salvo \<Rightarrow> bool \<times> salvo" where
  "salvo_arm s = (if sv_phase s = SalvoArmed then (False, s) else (True, s\<lparr>sv_phase := SalvoArmed\<rparr>))"

definition salvo_cancel :: "salvo \<Rightarrow> bool \<times> salvo" where
  "salvo_cancel s = (if sv_phase s = SalvoArmed then (True, s\<lparr>sv_phase := SalvoIdle\<rparr>) else (False, s))"

definition salvo_take :: "salvo \<Rightarrow> salvo_batch option \<times> salvo" where
  "salvo_take s =
     (if sv_phase s = SalvoArmed
      then (Some \<lparr>batch_name = sv_name s, batch_changes = sv_changes s\<rparr>, s\<lparr>sv_phase := SalvoTaken\<rparr>)
      else (None, s))"

datatype salvo_op = Arm | Cancel | Take

fun salvo_step :: "salvo_op \<Rightarrow> salvo \<Rightarrow> salvo_batch list \<times> salvo" where
  "salvo_step Arm s = ([], snd (salvo_arm s))"
| "salvo_step Cancel s = ([], snd (salvo_cancel s))"
| "salvo_step Take s =
     (case salvo_take s of (None, s') \<Rightarrow> ([], s') | (Some b, s') \<Rightarrow> ([b], s'))"

fun salvo_run :: "salvo_op list \<Rightarrow> salvo \<Rightarrow> salvo_batch list \<times> salvo" where
  "salvo_run [] s = ([], s)"
| "salvo_run (x # xs) s =
     (let (bs, s') = salvo_step x s; (cs, s'') = salvo_run xs s' in (bs @ cs, s''))"

text \<open>The number of takes that directly follow an arm, as later arms and no-op cancels see it.\<close>

fun commits :: "bool \<Rightarrow> salvo_op list \<Rightarrow> nat" where
  "commits armed [] = 0"
| "commits armed (Arm # xs) = commits True xs"
| "commits armed (Cancel # xs) = commits False xs"
| "commits armed (Take # xs) = (if armed then Suc (commits False xs) else commits False xs)"

lemma salvo_run_commits:
  "fst (salvo_run xs s) =
     replicate (commits (salvo_is_armed s) xs) \<lparr>batch_name = sv_name s, batch_changes = sv_changes s\<rparr>"
proof (induction xs arbitrary: s)
  case (Cons x xs)
  then show ?case
    by (cases x) (auto simp: salvo_arm_def salvo_cancel_def salvo_take_def salvo_is_armed_def case_prod_beta Let_def)
qed simp

lemma commits_le_arms: "commits a xs \<le> length (filter ((=) Arm) xs) + (if a then 1 else 0)"
  by (induction a xs rule: commits.induct) auto

text \<open>A take never applies twice: however operators interleave, a salvo hands out at most one batch per
  arm, and every batch is the whole, unchanged set of changes.\<close>

lemma salvo_never_double_applies:
  "length (fst (salvo_run xs (salvo_new name changes))) \<le> length (filter ((=) Arm) xs) \<and>
   (\<forall>b\<in>set (fst (salvo_run xs (salvo_new name changes))). batch_name b = name \<and> batch_changes b = changes)"
  using commits_le_arms [of False xs]
  by (simp add: salvo_run_commits salvo_new_def salvo_is_armed_def)

section \<open>The scheduler\<close>

datatype event_kind = AlarmEvent | CueEvent | GpiEvent

record trigger_event =
  te_kind :: event_kind
  te_name :: string

datatype scheduled_action = TakeSalvo string

datatype trigger =
  Interval media_time media_time media_time
| OnEvent event_kind string

record rule =
  rule_trigger :: trigger
  rule_action :: scheduled_action

type_synonym scheduler = "rule list"

definition sched_every ::
  "media_time \<Rightarrow> media_time \<Rightarrow> scheduled_action \<Rightarrow> scheduler \<Rightarrow> bool \<times> scheduler" where
  "sched_every base interval action s =
     (if interval \<le> 0 then (False, s)
      else (True, s @ [\<lparr>rule_trigger = Interval base interval base, rule_action = action\<rparr>]))"

definition sched_on_event :: "event_kind \<Rightarrow> string \<Rightarrow> scheduled_action \<Rightarrow> scheduler \<Rightarrow> scheduler" where
  "sched_on_event kind name action s = s @ [\<lparr>rule_trigger = OnEvent kind name, rule_action = action\<rparr>]"

definition advance_past :: "media_time \<Rightarrow> media_time \<Rightarrow> media_time \<Rightarrow> media_time" where
  "advance_past base interval now =
     (let interval_ns = max interval 1 in
      if now < base then base
      else let elapsed = sat_sub 64 now base;
               steps = wrap_add 64 (elapsed sdiv interval_ns) 1
           in sat_add 64 base (sat_mul 64 steps interval_ns))"

definition rule_step :: "media_time \<Rightarrow> trigger_event list \<Rightarrow> rule \<Rightarrow> scheduled_action list \<times> rule" where
  "rule_step now events r =
     (case rule_trigger r of
        Interval base interval nxt \<Rightarrow>
          if nxt \<le> now
          then ([rule_action r], r\<lparr>rule_trigger := Interval base interval (advance_past base interval now)\<rparr>)
          else ([], r)
      | OnEvent kind name \<Rightarrow>
          (if \<exists>e\<in>set events. te_kind e = kind \<and> te_name e = name then ([rule_action r], r) else ([], r)))"

definition sched_tick :: "media_time \<Rightarrow> trigger_event list \<Rightarrow> scheduler \<Rightarrow> scheduled_action list \<times> scheduler" where
  "sched_tick now events s =
     (concat (map (fst \<circ> rule_step now events) s), map (snd \<circ> rule_step now events) s)"

fun sched_run :: "(media_time \<times> trigger_event list) list \<Rightarrow> scheduler \<Rightarrow> scheduled_action list list \<times> scheduler" where
  "sched_run [] s = ([], s)"
| "sched_run ((now, events) # ticks) s =
     (let (as, s') = sched_tick now events s; (ass, s'') = sched_run ticks s' in (as # ass, s''))"

section \<open>Each due instant once\<close>

definition sched_fits :: "media_time \<Rightarrow> media_time \<Rightarrow> media_time \<Rightarrow> bool" where
  "sched_fits base interval now \<longleftrightarrow> in_i 64 base \<and> in_i 64 now \<and> in_i 64 (now - base + interval) \<and> now + interval \<le> i_max 64"

text \<open>In range, the cursor is the first grid instant after \<open>now\<close>.\<close>

lemma advance_past_exact:
  assumes "0 < interval" and "base \<le> now" and "sched_fits base interval now"
  shows "advance_past base interval now = base + ((now - base) div interval + 1) * interval"
    and "now < advance_past base interval now" and "advance_past base interval now \<le> now + interval"
proof -
  define q where "q = (now - base) div interval"
  have q: "0 \<le> q" "q * interval \<le> now - base" "now - base < (q + 1) * interval"
    using assms(1,2) div_bounds [OF assms(1), of "now - base"]
    by (simp_all add: q_def pos_imp_zdiv_nonneg_iff distrib_right)
  have f: "in_i 64 (now - base)" "in_i 64 (q + 1)" "in_i 64 ((q + 1) * interval)" "in_i 64 (base + (q + 1) * interval)"
  proof -
    have h: "in_i 64 base" "in_i 64 (now - base + interval)" "now + interval \<le> i_max 64" "base \<le> now"
      using assms by (simp_all add: sched_fits_def)
    then show "in_i 64 (now - base)" using assms(1) by (simp add: in_i_def i_simps)
    have le: "(q + 1) * interval \<le> now - base + interval" using q(2) by (simp add: algebra_simps)
    have qi: "q + 1 \<le> (q + 1) * interval"
      using mult_left_mono [of 1 interval "q + 1"] q(1) assms(1) by simp
    show "in_i 64 (q + 1)" "in_i 64 ((q + 1) * interval)" "in_i 64 (base + (q + 1) * interval)"
      using h le qi q(1) unfolding in_i_def i_simps by linarith+
  qed
  have e: "advance_past base interval now = base + (q + 1) * interval"
    using assms(1,2) f
    by (simp add: advance_past_def Let_def sat_sub_def sdiv_nonneg wrap_add_id sat_mul_def sat_add_def flip: q_def)
  show "advance_past base interval now = base + ((now - base) div interval + 1) * interval"
    using e by (simp add: q_def)
  show "now < advance_past base interval now" "advance_past base interval now \<le> now + interval"
    using e q by (simp_all add: algebra_simps)
qed

definition first_after :: "media_time \<Rightarrow> media_time \<Rightarrow> media_time list \<Rightarrow> media_time \<Rightarrow> bool" where
  "first_after base interval seen nxt \<longleftrightarrow>
     (\<exists>k::nat. nxt = base + int k * interval) \<and> (\<forall>t\<in>set seen. t < nxt) \<and>
     (nxt = base \<or> (\<exists>t\<in>set seen. nxt - interval \<le> t))"

lemma first_after_due:
  assumes "0 < interval" and "first_after base interval seen nxt"
  shows "nxt \<le> now \<longleftrightarrow> (\<exists>k::nat. base + int k * interval \<le> now \<and> (\<forall>t\<in>set seen. t < base + int k * interval))"
proof
  assume "nxt \<le> now"
  then show "\<exists>k::nat. base + int k * interval \<le> now \<and> (\<forall>t\<in>set seen. t < base + int k * interval)"
    using assms(2) by (auto simp: first_after_def)
next
  assume "\<exists>k::nat. base + int k * interval \<le> now \<and> (\<forall>t\<in>set seen. t < base + int k * interval)"
  then obtain k :: nat where k: "base + int k * interval \<le> now" "\<forall>t\<in>set seen. t < base + int k * interval" by blast
  obtain m :: nat where m: "nxt = base + int m * interval" using assms(2) by (auto simp: first_after_def)
  have "m \<le> k"
  proof (cases "nxt = base")
    case True
    then show ?thesis using m assms(1) by simp
  next
    case False
    then obtain t where t: "t \<in> set seen" "nxt - interval \<le> t" using assms(2) by (auto simp: first_after_def)
    then have "int m * interval < (int k + 1) * interval" using k(2) m by (force simp: algebra_simps)
    then show ?thesis using assms(1) by (simp add: mult_less_cancel_right)
  qed
  then have "int m * interval \<le> int k * interval" using assms(1) by (intro mult_right_mono) simp_all
  then show "nxt \<le> now" using k(1) m by linarith
qed

lemma first_after_step:
  assumes "0 < interval" and "first_after base interval seen nxt" and "sched_fits base interval now"
  shows "first_after base interval (seen @ [now]) (if nxt \<le> now then advance_past base interval now else nxt)"
proof (cases "nxt \<le> now")
  case True
  obtain m :: nat where m: "nxt = base + int m * interval" using assms(2) by (auto simp: first_after_def)
  then have b: "base \<le> now" using True assms(1) mult_nonneg_nonneg [of "int m" interval] by linarith
  note a = advance_past_exact [OF assms(1) b assms(3)]
  have "advance_past base interval now = base + int (nat ((now - base) div interval + 1)) * interval"
    using a(1) b assms(1) by (simp add: pos_imp_zdiv_nonneg_iff)
  then have "\<exists>k::nat. advance_past base interval now = base + int k * interval" by blast
  moreover have "\<forall>t\<in>set seen. t < advance_past base interval now"
  proof
    fix t assume "t \<in> set seen"
    then have "t < nxt" using assms(2) by (simp add: first_after_def)
    then show "t < advance_past base interval now" using True a(2) by linarith
  qed
  moreover have "advance_past base interval now - interval \<le> now" using a(3) by simp
  ultimately show ?thesis using True a(2) unfolding first_after_def by simp
next
  case False
  then show ?thesis using assms(2) by (auto simp: first_after_def)
qed

lemma interval_run:
  assumes "0 < interval"
  shows "first_after base interval seen nxt \<Longrightarrow> \<forall>(t, es)\<in>set ticks. sched_fits base interval t \<Longrightarrow>
     i < length ticks \<Longrightarrow>
     fst (sched_run ticks [\<lparr>rule_trigger = Interval base interval nxt, rule_action = a\<rparr>]) ! i =
       (if \<exists>k::nat. base + int k * interval \<le> fst (ticks ! i) \<and>
             (\<forall>t\<in>set (seen @ map fst (take i ticks)). t < base + int k * interval)
        then [a] else [])"
proof (induction ticks arbitrary: seen nxt i)
  case (Cons tick ticks)
  obtain now es where t: "tick = (now, es)" by force
  define nxt' where "nxt' = (if nxt \<le> now then advance_past base interval now else nxt)"
  have step: "sched_tick now es [\<lparr>rule_trigger = Interval base interval nxt, rule_action = a\<rparr>] =
      (if nxt \<le> now then [a] else [], [\<lparr>rule_trigger = Interval base interval nxt', rule_action = a\<rparr>])"
    by (simp add: sched_tick_def rule_step_def nxt'_def)
  have f: "first_after base interval (seen @ [now]) nxt'"
    using first_after_step [OF assms Cons.prems(1), of now] Cons.prems(2) by (simp add: nxt'_def t)
  show ?case
  proof (cases i)
    case 0
    then show ?thesis using first_after_due [OF assms Cons.prems(1), of now]
      by (simp add: t step case_prod_beta Let_def)
  next
    case (Suc j)
    then show ?thesis using Cons.IH [OF f, of j] Cons.prems
      by (simp add: t step case_prod_beta Let_def)
  qed
qed simp

text \<open>An interval rule fires exactly for its due instants. Whatever the tick times, late, bunched or
  running backwards, the rule fires at a tick if and only if some grid instant \<open>base + k * interval\<close>
  has been reached by it and by no tick before: each window fires once, and missed windows coalesce
  into one firing.\<close>

theorem interval_fires_due_windows_once:
  assumes "sched_every base interval a [] = (True, s)"
    and "\<forall>(t, es)\<in>set ticks. sched_fits base interval t" and "i < length ticks"
  shows "fst (sched_run ticks s) ! i =
     (if \<exists>k::nat. base + int k * interval \<le> fst (ticks ! i) \<and>
           (\<forall>j<i. fst (ticks ! j) < base + int k * interval)
      then [a] else [])"
proof -
  have s: "0 < interval" "s = [\<lparr>rule_trigger = Interval base interval base, rule_action = a\<rparr>]"
    using assms(1) by (auto simp: sched_every_def split: if_splits)
  have f: "first_after base interval [] base" by (auto simp: first_after_def intro: exI [of _ 0])
  have "(\<forall>t\<in>set (map fst (take i ticks)). t < b) \<longleftrightarrow> (\<forall>j<i. fst (ticks ! j) < b)" for b
    using assms(3) by (auto simp: set_conv_nth)
  then show ?thesis using interval_run [OF s(1) f assms(2,3), of a] by (simp add: s(2))
qed

theorem interval_fires_due_windows_once_witness:
  "fst (sched_run [(5, []), (47, []), (12, []), (48, [])]
     [\<lparr>rule_trigger = Interval 10 10 10, rule_action = TakeSalvo ''break''\<rparr>]) ! 1 = [TakeSalvo ''break'']"
proof -
  have "sched_every 10 10 (TakeSalvo ''break'') [] =
      (True, [\<lparr>rule_trigger = Interval 10 10 10, rule_action = TakeSalvo ''break''\<rparr>])"
    by (simp add: sched_every_def)
  from interval_fires_due_windows_once [OF this, of "[(5, []), (47, []), (12, []), (48, [])]" 1]
  show ?thesis by (auto simp: sched_fits_def in_i_def i_simps intro: exI [of _ "1::nat"])
qed

end
