(* ===== verification/Video_Wall.thy ===== *)
theory Video_Wall
  imports Routing_Table Media_Time
begin

text \<open>
  The canvas, head and wall model of \<open>multiview-core/src/layout.rs\<close> with its validation, and
  \<open>multiview-engine/src/heads.rs\<close>, which places the heads of a wall with bezel gaps and binds sources to
  them. Pixel counts are \<open>u32\<close> held as naturals; a \<open>checked_add\<close> that overflows is an error.
\<close>

section \<open>Canvases, heads and walls\<close>

datatype fit_mode = Contain | Cover | Fill

datatype quarter_turn = NoTurn | Cw90 | Cw180 | Cw270

fun turn_degrees :: "quarter_turn \<Rightarrow> nat" where
  "turn_degrees NoTurn = 0"
| "turn_degrees Cw90 = 90"
| "turn_degrees Cw180 = 180"
| "turn_degrees Cw270 = 270"

definition turn_swaps_axes :: "quarter_turn \<Rightarrow> bool" where
  "turn_swaps_axes t \<longleftrightarrow> t = Cw90 \<or> t = Cw270"

datatype orientation = Landscape | Portrait

definition orientation_swaps_axes :: "orientation \<Rightarrow> bool" where
  "orientation_swaps_axes ot \<longleftrightarrow> ot = Portrait"

record canvas =
  cv_width :: nat
  cv_height :: nat
  cv_fps_num :: int
  cv_fps_den :: int

definition canvas_cadence :: "canvas \<Rightarrow> rational" where
  "canvas_cadence c = rat_new (cv_fps_num c) (cv_fps_den c)"

definition same_signal :: "canvas \<Rightarrow> canvas \<Rightarrow> bool" where
  "same_signal a b \<longleftrightarrow> cv_width a = cv_width b \<and> cv_height a = cv_height b \<and>
     rational_eq (canvas_cadence a) (canvas_cadence b)"

definition canvas_validate :: "canvas \<Rightarrow> config_error + unit" where
  "canvas_validate c =
     (if cv_width c = 0 then Inl (Validation ''canvas width must be > 0'' [])
      else if cv_height c = 0 then Inl (Validation ''canvas height must be > 0'' [])
      else if cv_fps_num c \<le> 0 then Inl (Validation ''canvas fps_num must be > 0'' [])
      else if cv_fps_den c \<le> 0 then Inl (Validation ''canvas fps_den must be > 0'' [])
      else if \<not> is_valid (canvas_cadence c) then Inl (Validation ''canvas cadence is not a valid rational'' [])
      else if has_subnanosecond_period (canvas_cadence c)
      then Inl (Validation ''canvas cadence is too fast'' [])
      else Inr ())"

record bezel =
  horizontal_px :: int
  vertical_px :: int

definition bezel_validate :: "bezel \<Rightarrow> config_error + unit" where
  "bezel_validate b =
     (if horizontal_px b < 0 then Inl (Validation ''bezel horizontal_px must be >= 0'' [])
      else if vertical_px b < 0 then Inl (Validation ''bezel vertical_px must be >= 0'' [])
      else Inr ())"

record head =
  hd_id :: rstr
  hd_canvas :: canvas
  hd_orientation :: orientation
  hd_layout :: rstr

definition head_validate :: "head \<Rightarrow> config_error + unit" where
  "head_validate h =
     (if hd_id h = [] then Inl (Validation ''head id must not be empty'' [])
      else if hd_layout h = [] then Inl (Validation ''layout name must not be empty'' [hd_id h])
      else canvas_validate (hd_canvas h))"

record video_wall =
  vw_name :: rstr
  vw_cols :: nat
  vw_rows :: nat
  vw_bezel :: bezel
  vw_heads :: "head list"

text \<open>The loop over the heads, with those already seen.\<close>

definition wall_head_step :: "head \<Rightarrow> rstr set \<Rightarrow> config_error + rstr set" where
  "wall_head_step h seen =
     after_check (head_validate h)
       (if hd_id h \<in> seen then Inl (Validation ''duplicate head id'' [hd_id h]) else Inr (insert (hd_id h) seen))"

definition wall_validate :: "video_wall \<Rightarrow> config_error + unit" where
  "wall_validate w =
     (if vw_cols w = 0 \<or> vw_rows w = 0 then Inl (Validation ''grid must be positive on both axes'' [vw_name w])
      else if length (vw_heads w) \<noteq> min (2 ^ 64 - 1) (vw_cols w * vw_rows w)
      then Inl (Validation ''wrong number of heads'' [vw_name w])
      else after_check (bezel_validate (vw_bezel w)) (ok_unit (for_each wall_head_step (vw_heads w) {})))"

interpretation wall_head_loop: seen_loop wall_head_step "\<lambda>h. head_validate h = Inr ()" hd_id
  by unfold_locales (auto simp: wall_head_step_def)

section \<open>Placement\<close>

record head_placement =
  hp_x :: nat
  hp_y :: nat
  hp_width :: nat
  hp_height :: nat

datatype layout_error = InvalidWall config_error | WidthOverflow | HeightOverflow | MissingHead nat nat

definition checked_add32 :: "nat \<Rightarrow> nat \<Rightarrow> nat option" where
  "checked_add32 a b = (if a + b < 2 ^ 32 then Some (a + b) else None)"

definition gap_px :: "int \<Rightarrow> nat" where
  "gap_px px = nat (max 0 px)"

definition head_at :: "video_wall \<Rightarrow> nat \<Rightarrow> nat \<Rightarrow> layout_error + head" where
  "head_at w row col =
     (let idx = row * vw_cols w + col
      in if idx < length (vw_heads w) then Inr (vw_heads w ! idx) else Inl (MissingHead row col))"

definition track_step ::
  "layout_error \<Rightarrow> (nat \<Rightarrow> layout_error + nat) \<Rightarrow> nat \<Rightarrow> nat \<Rightarrow> nat \<Rightarrow> nat \<times> nat list \<Rightarrow> layout_error + nat \<times> nat list" where
  "track_step overflow px_of gap count i st =
     (case st of (cursor, origins) \<Rightarrow>
        (case px_of i of
           Inl e \<Rightarrow> Inl e
         | Inr px \<Rightarrow>
             let g = (if i + 1 < count then gap else 0) in
             (case checked_add32 cursor px of
                None \<Rightarrow> Inl overflow
              | Some x \<Rightarrow> (case checked_add32 x g of
                             None \<Rightarrow> Inl overflow
                           | Some x' \<Rightarrow> Inr (x', origins @ [cursor])))))"

definition map_head :: "(head \<Rightarrow> nat) \<Rightarrow> layout_error + head \<Rightarrow> layout_error + nat" where
  "map_head f r = (case r of Inl e \<Rightarrow> Inl e | Inr h \<Rightarrow> Inr (f h))"

definition col_origins :: "video_wall \<Rightarrow> layout_error + nat \<times> nat list" where
  "col_origins w =
     for_each (track_step WidthOverflow (\<lambda>col. map_head (cv_width \<circ> hd_canvas) (head_at w 0 col))
       (gap_px (horizontal_px (vw_bezel w))) (vw_cols w)) [0..<vw_cols w] (0, [])"

definition row_origins :: "video_wall \<Rightarrow> layout_error + nat \<times> nat list" where
  "row_origins w =
     for_each (track_step HeightOverflow (\<lambda>row. map_head (cv_height \<circ> hd_canvas) (head_at w row 0))
       (gap_px (vertical_px (vw_bezel w))) (vw_rows w)) [0..<vw_rows w] (0, [])"

definition place_one ::
  "video_wall \<Rightarrow> nat list \<Rightarrow> nat list \<Rightarrow> nat \<times> nat \<Rightarrow> head_placement list \<Rightarrow> layout_error + head_placement list" where
  "place_one w col_x row_y pos acc =
     (case pos of (row, col) \<Rightarrow>
        (case head_at w row col of
           Inl e \<Rightarrow> Inl e
         | Inr h \<Rightarrow> Inr (acc @ [\<lparr>hp_x = col_x ! col, hp_y = row_y ! row, hp_width = cv_width (hd_canvas h),
                                 hp_height = cv_height (hd_canvas h)\<rparr>])))"

definition place_heads :: "video_wall \<Rightarrow> layout_error + head_placement list" where
  "place_heads w =
     (case col_origins w of
        Inl e \<Rightarrow> Inl e
      | Inr (x, col_x) \<Rightarrow>
          (case row_origins w of
             Inl e \<Rightarrow> Inl e
           | Inr (y, row_y) \<Rightarrow>
               for_each (place_one w col_x row_y)
                 (concat (map (\<lambda>row. map (Pair row) [0..<vw_cols w]) [0..<vw_rows w])) []))"

definition wall_extent :: "head_placement list \<Rightarrow> nat \<times> nat" where
  "wall_extent ps =
     fold (\<lambda>p (w, h). (max w (usat_add 32 (hp_x p) (hp_width p)), max h (usat_add 32 (hp_y p) (hp_height p)))) ps (0, 0)"

record head_binding =
  hb_head_id :: rstr
  hb_sources :: "rstr option list"
  hb_overlays :: "rstr list"

record wall_composition =
  wc_name :: rstr
  wc_grid :: "nat \<times> nat"
  wc_placements :: "head_placement list"
  wc_bindings :: "head_binding list"
  wc_extent :: "nat \<times> nat"

definition resolve_wall :: "video_wall \<Rightarrow> layout_error + wall_composition" where
  "resolve_wall w =
     (case wall_validate w of
        Inl e \<Rightarrow> Inl (InvalidWall e)
      | Inr u \<Rightarrow>
          (case place_heads w of
             Inl e \<Rightarrow> Inl e
           | Inr ps \<Rightarrow>
               Inr \<lparr>wc_name = vw_name w, wc_grid = (vw_cols w, vw_rows w), wc_placements = ps,
                    wc_bindings = map (\<lambda>h. \<lparr>hb_head_id = hd_id h, hb_sources = [], hb_overlays = []\<rparr>) (vw_heads w),
                    wc_extent = wall_extent ps\<rparr>))"

fun replace_binding :: "head_binding \<Rightarrow> head_binding list \<Rightarrow> bool \<times> head_binding list" where
  "replace_binding b [] = (False, [])"
| "replace_binding b (x # xs) =
     (if hb_head_id x = hb_head_id b then (True, b # xs)
      else (let (found, ys) = replace_binding b xs in (found, x # ys)))"

definition bind_head :: "head_binding \<Rightarrow> wall_composition \<Rightarrow> bool \<times> wall_composition" where
  "bind_head b c = (let (found, bs) = replace_binding b (wc_bindings c) in (found, c\<lparr>wc_bindings := bs\<rparr>))"

section \<open>A validated canvas drives the clock\<close>

lemma canvas_validate_iff:
  "canvas_validate c = Inr () \<longleftrightarrow>
     0 < cv_width c \<and> 0 < cv_height c \<and> 0 < cv_fps_num c \<and> 0 < cv_fps_den c \<and>
     is_valid (canvas_cadence c) \<and> \<not> has_subnanosecond_period (canvas_cadence c)"
  by (auto simp: canvas_validate_def)

text \<open>Validation is exactly the precondition of the output clock: a canvas of \<open>i64\<close> fields validates if
  and only if it has pixels and its cadence is one on which successive ticks have strictly
  increasing stamps.\<close>

theorem validated_canvas_cadence:
  assumes "in_i 64 (cv_fps_num c)" and "in_i 64 (cv_fps_den c)"
  shows "canvas_validate c = Inr () \<longleftrightarrow> 0 < cv_width c \<and> 0 < cv_height c \<and> cadence_ok (canvas_cadence c)"
  using assms
  by (auto simp: canvas_validate_iff cadence_ok_def rational_ok_def canvas_cadence_def is_valid_def)

theorem validated_canvas_cadence_witness:
  "cadence_ok (canvas_cadence \<lparr>cv_width = 1920, cv_height = 1080, cv_fps_num = 30000, cv_fps_den = 1001\<rparr>)"
proof -
  have "canvas_validate \<lparr>cv_width = 1920, cv_height = 1080, cv_fps_num = 30000, cv_fps_den = 1001\<rparr> = Inr ()"
    by (simp add: canvas_validate_iff canvas_cadence_def is_valid_def has_subnanosecond_period_def
        sat_mul_def sat_def i_simps NANOS_PER_SEC_def)
  then show ?thesis
    using validated_canvas_cadence [of "\<lparr>cv_width = 1920, cv_height = 1080, cv_fps_num = 30000, cv_fps_den = 1001\<rparr>"]
    by (simp add: in_i_def i_simps)
qed

section \<open>Heads tile the wall\<close>

lemma for_each_append:
  "for_each f (xs @ ys) s = (case for_each f xs s of Inl e \<Rightarrow> Inl e | Inr t \<Rightarrow> for_each f ys t)"
  by (induction xs arbitrary: s) (auto split: sum.split)

lemma checked_add32_Some: "checked_add32 a b = Some c \<longleftrightarrow> c = a + b \<and> a + b < 2 ^ 32"
  by (auto simp: checked_add32_def)

lemma track_step_Inr:
  "track_step ov px_of gap n i (x, os) = Inr (x', os') \<longleftrightarrow>
     (\<exists>px. px_of i = Inr px \<and> os' = os @ [x] \<and> x' = x + px + (if i + 1 < n then gap else 0) \<and> x' < 2 ^ 32)"
  by (auto simp: track_step_def Let_def checked_add32_Some split: sum.split option.split)
     (auto simp: checked_add32_def split: if_splits)

text \<open>What a finished track holds: every index has an origin, its extent ends before every later
  origin and before the final cursor, and the cursor is a \<open>u32\<close>.\<close>

definition track_ok :: "(nat \<Rightarrow> layout_error + nat) \<Rightarrow> nat \<Rightarrow> nat \<times> nat list \<Rightarrow> bool" where
  "track_ok px_of m st =
     (case st of (x, os) \<Rightarrow> length os = m \<and> x < 2 ^ 32 \<and>
        (\<forall>c<m. \<exists>px. px_of c = Inr px \<and> os ! c + px \<le> x \<and> (\<forall>d. c < d \<and> d < m \<longrightarrow> os ! c + px \<le> os ! d)))"

lemma track_run:
  "for_each (track_step ov px_of gap n) [0..<m] (0, []) = Inr st \<Longrightarrow> track_ok px_of m st"
proof (induction m arbitrary: st)
  case 0
  then show ?case by (auto simp: track_ok_def)
next
  case (Suc m)
  obtain x os where run: "for_each (track_step ov px_of gap n) [0..<m] (0, []) = Inr (x, os)"
    and step: "track_step ov px_of gap n m (x, os) = Inr st"
    using Suc.prems by (auto simp: for_each_append split: sum.splits)
  obtain px x' where px: "px_of m = Inr px" "st = (x', os @ [x])" "x + px \<le> x'" "x' < 2 ^ 32"
    using step by (cases st) (auto simp: track_step_Inr)
  have ih: "length os = m" "\<forall>c<m. \<exists>px. px_of c = Inr px \<and> os ! c + px \<le> x \<and> (\<forall>d. c < d \<and> d < m \<longrightarrow> os ! c + px \<le> os ! d)"
    using Suc.IH [OF run] by (auto simp: track_ok_def)
  have "\<exists>q. px_of c = Inr q \<and> (os @ [x]) ! c + q \<le> x' \<and> (\<forall>d. c < d \<and> d < Suc m \<longrightarrow> (os @ [x]) ! c + q \<le> (os @ [x]) ! d)"
    if "c < Suc m" for c
  proof (cases "c < m")
    case True
    then obtain q where "px_of c = Inr q" "os ! c + q \<le> x" "\<forall>d. c < d \<and> d < m \<longrightarrow> os ! c + q \<le> os ! d"
      using ih(2) by blast
    then show ?thesis using True ih(1) px(3) by (auto simp: nth_append less_Suc_eq)
  next
    case False
    then show ?thesis using that ih(1) px by (auto simp: nth_append less_Suc_eq)
  qed
  then show ?case using ih(1) px by (auto simp: track_ok_def)
qed

lemma track_apart:
  assumes "track_ok px_of m (x, os)" and "px_of c = Inr px" and "c < m"
  shows "os ! c + px \<le> x" and "x < 2 ^ 32" and "c < d \<Longrightarrow> d < m \<Longrightarrow> os ! c + px \<le> os ! d"
proof -
  obtain q where q: "px_of c = Inr q" "os ! c + q \<le> x" "\<forall>d. c < d \<and> d < m \<longrightarrow> os ! c + q \<le> os ! d"
    using assms(1,3) by (auto simp: track_ok_def)
  show "os ! c + px \<le> x" using q assms(2) by simp
  show "x < 2 ^ 32" using assms(1) by (simp add: track_ok_def)
  show "os ! c + px \<le> os ! d" if "c < d" "d < m" using q assms(2) that by simp
qed

lemma place_one_Inr:
  "place_one w col_x row_y (row, col) acc = Inr acc' \<longleftrightarrow>
     (\<exists>h. head_at w row col = Inr h \<and>
        acc' = acc @ [\<lparr>hp_x = col_x ! col, hp_y = row_y ! row, hp_width = cv_width (hd_canvas h), hp_height = cv_height (hd_canvas h)\<rparr>])"
  by (auto simp: place_one_def split: sum.splits)

lemma place_one_run:
  "for_each (place_one w col_x row_y) poss acc = Inr ps \<Longrightarrow>
     length ps = length acc + length poss \<and> take (length acc) ps = acc \<and>
     (\<forall>i<length poss. case poss ! i of (row, col) \<Rightarrow> \<exists>h. head_at w row col = Inr h \<and>
        ps ! (length acc + i) = \<lparr>hp_x = col_x ! col, hp_y = row_y ! row, hp_width = cv_width (hd_canvas h),
                                hp_height = cv_height (hd_canvas h)\<rparr>)"
proof (induction poss arbitrary: acc)
  case Nil
  then show ?case by auto
next
  case (Cons pos poss)
  obtain row col where pos: "pos = (row, col)" by (cases pos)
  obtain h where h: "head_at w row col = Inr h"
    and rest: "for_each (place_one w col_x row_y) poss
      (acc @ [\<lparr>hp_x = col_x ! col, hp_y = row_y ! row, hp_width = cv_width (hd_canvas h), hp_height = cv_height (hd_canvas h)\<rparr>]) = Inr ps"
    using Cons.prems unfolding for_each_Inr_Cons pos place_one_Inr by blast
  note ih = Cons.IH [OF rest]
  let ?p = "\<lparr>hp_x = col_x ! col, hp_y = row_y ! row, hp_width = cv_width (hd_canvas h), hp_height = cv_height (hd_canvas h)\<rparr>"
  have pre: "take (Suc (length acc)) ps = acc @ [?p]" using ih by simp
  have "ps ! length acc = take (Suc (length acc)) ps ! length acc" by simp
  then have first: "ps ! length acc = ?p" unfolding pre by simp
  have "take (length acc) (take (Suc (length acc)) ps) = acc" unfolding pre by simp
  then have "take (length acc) ps = acc" by (simp add: min_def)
  moreover have "case (pos # poss) ! i of (row, col) \<Rightarrow> \<exists>h. head_at w row col = Inr h \<and>
      ps ! (length acc + i) = \<lparr>hp_x = col_x ! col, hp_y = row_y ! row, hp_width = cv_width (hd_canvas h), hp_height = cv_height (hd_canvas h)\<rparr>"
    if "i < length (pos # poss)" for i
  proof (cases i)
    case 0
    then show ?thesis using first h pos by simp
  next
    case (Suc k)
    then show ?thesis using ih that by auto
  qed
  ultimately show ?case using ih by auto
qed

lemma extent_bounds:
  "(\<forall>p\<in>set ps. hp_x p + hp_width p < 2 ^ 32 \<and> hp_y p + hp_height p < 2 ^ 32) \<Longrightarrow>
   fold (\<lambda>p (w, h). (max w (usat_add 32 (hp_x p) (hp_width p)), max h (usat_add 32 (hp_y p) (hp_height p)))) ps (a, b) = (x, y) \<Longrightarrow>
   a \<le> x \<and> b \<le> y \<and> (\<forall>p\<in>set ps. hp_x p + hp_width p \<le> x \<and> hp_y p + hp_height p \<le> y)"
proof (induction ps arbitrary: a b)
  case Nil
  then show ?case by simp
next
  case (Cons p ps)
  note ih = Cons.IH [of "max a (usat_add 32 (hp_x p) (hp_width p))" "max b (usat_add 32 (hp_y p) (hp_height p))"]
  show ?case using ih Cons.prems by (auto simp: usat_add_def)
qed

text \<open>Two rectangles do not overlap: one ends before the other starts on some axis.\<close>

definition rects_apart :: "head_placement \<Rightarrow> head_placement \<Rightarrow> bool" where
  "rects_apart p q \<longleftrightarrow>
     hp_x p + hp_width p \<le> hp_x q \<or> hp_x q + hp_width q \<le> hp_x p \<or>
     hp_y p + hp_height p \<le> hp_y q \<or> hp_y q + hp_height q \<le> hp_y p"

definition inside_extent :: "nat \<times> nat \<Rightarrow> head_placement \<Rightarrow> bool" where
  "inside_extent e p \<longleftrightarrow> hp_x p + hp_width p \<le> fst e \<and> hp_y p + hp_height p \<le> snd e"

text \<open>Every head fits the first head of its column in width and the first head of its row in height,
  which is what the placement sizes its tracks by.\<close>

definition heads_fit :: "video_wall \<Rightarrow> bool" where
  "heads_fit w \<longleftrightarrow>
     (\<forall>i<length (vw_heads w).
        cv_width (hd_canvas (vw_heads w ! i)) \<le> cv_width (hd_canvas (vw_heads w ! (i mod vw_cols w))) \<and>
        cv_height (hd_canvas (vw_heads w ! i)) \<le> cv_height (hd_canvas (vw_heads w ! (i div vw_cols w * vw_cols w))))"

lemma head_at_Inr: "head_at w row col = Inr h \<longleftrightarrow> row * vw_cols w + col < length (vw_heads w) \<and> h = vw_heads w ! (row * vw_cols w + col)"
  by (auto simp: head_at_def Let_def)

lemma map_head_Inr: "map_head f r = Inr n \<longleftrightarrow> (\<exists>h. r = Inr h \<and> n = f h)"
  by (cases r) (auto simp: map_head_def)

lemma place_heads_shape:
  assumes "place_heads w = Inr ps"
  obtains x col_x y row_y where "col_origins w = Inr (x, col_x)" and "row_origins w = Inr (y, row_y)"
    and "length ps = vw_rows w * vw_cols w"
    and "\<And>i. i < vw_rows w * vw_cols w \<Longrightarrow> i < length (vw_heads w) \<and>
           ps ! i = \<lparr>hp_x = col_x ! (i mod vw_cols w), hp_y = row_y ! (i div vw_cols w),
                     hp_width = cv_width (hd_canvas (vw_heads w ! i)), hp_height = cv_height (hd_canvas (vw_heads w ! i))\<rparr>"
proof -
  let ?poss = "List.product [0..<vw_rows w] [0..<vw_cols w]"
  obtain x col_x y row_y where o: "col_origins w = Inr (x, col_x)" "row_origins w = Inr (y, row_y)"
    and run: "for_each (place_one w col_x row_y) ?poss [] = Inr ps"
    using assms by (auto simp: place_heads_def product_concat_map split: sum.splits)
  note r = place_one_run [OF run]
  have nth: "?poss ! i = (i div vw_cols w, i mod vw_cols w)" if "i < vw_rows w * vw_cols w" for i
  proof -
    have "0 < vw_cols w" using that by (cases "vw_cols w") auto
    moreover have "i div vw_cols w < vw_rows w" using that by (simp add: less_mult_imp_div_less)
    ultimately show ?thesis using that by (simp add: product_nth)
  qed
  show thesis
  proof (rule that [OF o])
    show "length ps = vw_rows w * vw_cols w" using r by simp
    fix i
    assume i: "i < vw_rows w * vw_cols w"
    have "case ?poss ! i of (row, col) \<Rightarrow> \<exists>h. head_at w row col = Inr h \<and>
      ps ! i = \<lparr>hp_x = col_x ! col, hp_y = row_y ! row, hp_width = cv_width (hd_canvas h), hp_height = cv_height (hd_canvas h)\<rparr>"
      using r i by simp
    then show "i < length (vw_heads w) \<and> ps ! i = \<lparr>hp_x = col_x ! (i mod vw_cols w), hp_y = row_y ! (i div vw_cols w),
                     hp_width = cv_width (hd_canvas (vw_heads w ! i)), hp_height = cv_height (hd_canvas (vw_heads w ! i))\<rparr>"
      by (simp add: nth [OF i] head_at_Inr)
  qed
qed

lemma resolve_wall_Inr:
  assumes "resolve_wall w = Inr c"
  shows "place_heads w = Inr (wc_placements c)" and "wc_extent c = wall_extent (wc_placements c)"
    and "wall_validate w = Inr ()"
  using assms by (auto simp: resolve_wall_def split: sum.splits)

text \<open>A placement against the two tracks: it starts at its column's and row's origin and, when the heads
  fit, ends before any later column or row and before the end of the wall.\<close>

lemma place_tracks:
  assumes pl: "place_heads w = Inr ps" and fit: "heads_fit w"
  obtains x y where "x < 2 ^ 32" and "y < 2 ^ 32"
    and "\<And>i. i < length ps \<Longrightarrow> hp_x (ps ! i) + hp_width (ps ! i) \<le> x \<and> hp_y (ps ! i) + hp_height (ps ! i) \<le> y"
    and "\<And>i j. i < length ps \<Longrightarrow> j < length ps \<Longrightarrow> i mod vw_cols w < j mod vw_cols w \<Longrightarrow>
           hp_x (ps ! i) + hp_width (ps ! i) \<le> hp_x (ps ! j)"
    and "\<And>i j. i < length ps \<Longrightarrow> j < length ps \<Longrightarrow> i div vw_cols w < j div vw_cols w \<Longrightarrow>
           hp_y (ps ! i) + hp_height (ps ! i) \<le> hp_y (ps ! j)"
proof -
  obtain x col_x y row_y where o: "col_origins w = Inr (x, col_x)" "row_origins w = Inr (y, row_y)"
    and len: "length ps = vw_rows w * vw_cols w"
    and ps: "\<And>i. i < vw_rows w * vw_cols w \<Longrightarrow> i < length (vw_heads w) \<and>
           ps ! i = \<lparr>hp_x = col_x ! (i mod vw_cols w), hp_y = row_y ! (i div vw_cols w),
                     hp_width = cv_width (hd_canvas (vw_heads w ! i)), hp_height = cv_height (hd_canvas (vw_heads w ! i))\<rparr>"
    by (rule place_heads_shape [OF pl]) (rule that)
  let ?cs = "\<lambda>col. map_head (cv_width \<circ> hd_canvas) (head_at w 0 col)"
  let ?rs = "\<lambda>row. map_head (cv_height \<circ> hd_canvas) (head_at w row 0)"
  have ct: "track_ok ?cs (vw_cols w) (x, col_x)" using o(1) by (auto simp: col_origins_def dest: track_run)
  have rt: "track_ok ?rs (vw_rows w) (y, row_y)" using o(2) by (auto simp: row_origins_def dest: track_run)
  have at: "i mod vw_cols w < vw_cols w" "i div vw_cols w < vw_rows w" "i < length (vw_heads w)"
    if "i < length ps" for i
    using that ps [of i] len by (auto simp: less_mult_imp_div_less) (cases "vw_cols w", auto)
  have cs: "?cs (i mod vw_cols w) = Inr (cv_width (hd_canvas (vw_heads w ! (i mod vw_cols w))))" if "i < length ps" for i
  proof -
    have "i mod vw_cols w < length (vw_heads w)" using at(3) [OF that] by (meson le_less_trans mod_less_eq_dividend)
    then show ?thesis by (simp add: head_at_def map_head_def)
  qed
  have rs: "?rs (i div vw_cols w) = Inr (cv_height (hd_canvas (vw_heads w ! (i div vw_cols w * vw_cols w))))" if "i < length ps" for i
  proof -
    have "i div vw_cols w * vw_cols w < length (vw_heads w)" using at(3) [OF that] by (meson le_less_trans div_times_less_eq_dividend)
    then show ?thesis by (simp add: head_at_def map_head_def)
  qed
  have wd: "hp_width (ps ! i) \<le> cv_width (hd_canvas (vw_heads w ! (i mod vw_cols w)))"
    "hp_height (ps ! i) \<le> cv_height (hd_canvas (vw_heads w ! (i div vw_cols w * vw_cols w)))"
    "hp_x (ps ! i) = col_x ! (i mod vw_cols w)" "hp_y (ps ! i) = row_y ! (i div vw_cols w)" if "i < length ps" for i
    using fit ps [of i] that len by (auto simp: heads_fit_def)
  note c = track_apart [OF ct cs at(1)] and r = track_apart [OF rt rs at(2)]
  show thesis
  proof (rule that [of x y])
    show "x < 2 ^ 32" using ct by (auto simp: track_ok_def)
    show "y < 2 ^ 32" using rt by (auto simp: track_ok_def)
  next
    fix i
    assume i: "i < length ps"
    show "hp_x (ps ! i) + hp_width (ps ! i) \<le> x \<and> hp_y (ps ! i) + hp_height (ps ! i) \<le> y"
      using c(1) [OF i i] r(1) [OF i i] wd [OF i] by simp
  next
    fix i j
    assume i: "i < length ps" and j: "j < length ps" and lt: "i mod vw_cols w < j mod vw_cols w"
    show "hp_x (ps ! i) + hp_width (ps ! i) \<le> hp_x (ps ! j)"
      using c(3) [OF i i lt at(1) [OF j]] wd [OF i] wd(3) [OF j] by simp
  next
    fix i j
    assume i: "i < length ps" and j: "j < length ps" and lt: "i div vw_cols w < j div vw_cols w"
    show "hp_y (ps ! i) + hp_height (ps ! i) \<le> hp_y (ps ! j)"
      using r(3) [OF i i lt at(2) [OF j]] wd [OF i] wd(4) [OF j] by simp
  qed
qed

text \<open>The heads of a resolved wall tile it: when every head fits the first head of its column and row,
  no two placements overlap, whatever the bezel gaps, and all of them lie inside the extent the
  composition reports.\<close>

theorem wall_heads_tile:
  assumes "resolve_wall w = Inr c" and "heads_fit w"
    and "i < j" and "j < length (wc_placements c)"
  shows "rects_apart (wc_placements c ! i) (wc_placements c ! j) \<and>
     inside_extent (wc_extent c) (wc_placements c ! i) \<and> inside_extent (wc_extent c) (wc_placements c ! j)"
proof -
  let ?ps = "wc_placements c"
  note rw = resolve_wall_Inr [OF assms(1)]
  obtain x y where t: "x < 2 ^ 32" "y < 2 ^ 32"
    "\<And>i. i < length ?ps \<Longrightarrow> hp_x (?ps ! i) + hp_width (?ps ! i) \<le> x \<and> hp_y (?ps ! i) + hp_height (?ps ! i) \<le> y"
    "\<And>i j. i < length ?ps \<Longrightarrow> j < length ?ps \<Longrightarrow> i mod vw_cols w < j mod vw_cols w \<Longrightarrow>
       hp_x (?ps ! i) + hp_width (?ps ! i) \<le> hp_x (?ps ! j)"
    "\<And>i j. i < length ?ps \<Longrightarrow> j < length ?ps \<Longrightarrow> i div vw_cols w < j div vw_cols w \<Longrightarrow>
       hp_y (?ps ! i) + hp_height (?ps ! i) \<le> hp_y (?ps ! j)"
    by (rule place_tracks [OF rw(1) assms(2)]) (rule that)
  have i: "i < length ?ps" using assms(3,4) by simp
  have "i mod vw_cols w \<noteq> j mod vw_cols w \<or> i div vw_cols w \<noteq> j div vw_cols w"
    using assms(3) by (metis div_mult_mod_eq less_irrefl)
  then have apart: "rects_apart (?ps ! i) (?ps ! j)"
    using t(4) [OF i assms(4)] t(4) [OF assms(4) i] t(5) [OF i assms(4)] t(5) [OF assms(4) i]
    unfolding rects_apart_def by linarith
  have "\<forall>p\<in>set ?ps. hp_x p + hp_width p < 2 ^ 32 \<and> hp_y p + hp_height p < 2 ^ 32"
    using t(1-3) by (fastforce simp: in_set_conv_nth)
  then have "\<forall>p\<in>set ?ps. inside_extent (wc_extent c) p"
    unfolding rw(2) inside_extent_def wall_extent_def
    using extent_bounds [OF _ surjective_pairing, of ?ps 0 0] by blast
  then show ?thesis using apart i assms(4) nth_mem by blast
qed


definition demo_head :: "nat \<Rightarrow> nat \<Rightarrow> nat \<Rightarrow> orientation \<Rightarrow> head" where
  "demo_head k wd ht ot =
     \<lparr>hd_id = [48 + of_nat k], hd_canvas = \<lparr>cv_width = wd, cv_height = ht, cv_fps_num = 25, cv_fps_den = 1\<rparr>,
      hd_orientation = ot, hd_layout = [108]\<rparr>"

definition demo_wall :: "head list \<Rightarrow> video_wall" where
  "demo_wall hs = \<lparr>vw_name = [119], vw_cols = 2, vw_rows = 2, vw_bezel = \<lparr>horizontal_px = 10, vertical_px = 20\<rparr>, vw_heads = hs\<rparr>"

lemmas demo_wall_eval =
  demo_wall_def demo_head_def resolve_wall_def wall_validate_def wall_head_step_def head_validate_def canvas_validate_def
  canvas_cadence_def is_valid_def has_subnanosecond_period_def sat_mul_def sat_def i_simps NANOS_PER_SEC_def
  bezel_validate_def ok_unit_def place_heads_def col_origins_def row_origins_def track_step_def
  head_at_def map_head_def gap_px_def checked_add32_def place_one_def wall_extent_def usat_add_def upt_conv_Cons

lemma demo_wall_placements:
  "resolve_wall (demo_wall [demo_head 0 1920 1080 Landscape, demo_head 1 1280 1080 Landscape,
       demo_head 2 1920 720 Landscape, demo_head 3 1280 720 Landscape]) =
     Inr \<lparr>wc_name = [119], wc_grid = (2, 2),
       wc_placements = [\<lparr>hp_x = 0, hp_y = 0, hp_width = 1920, hp_height = 1080\<rparr>,
         \<lparr>hp_x = 1930, hp_y = 0, hp_width = 1280, hp_height = 1080\<rparr>,
         \<lparr>hp_x = 0, hp_y = 1100, hp_width = 1920, hp_height = 720\<rparr>,
         \<lparr>hp_x = 1930, hp_y = 1100, hp_width = 1280, hp_height = 720\<rparr>],
       wc_bindings = map (\<lambda>k. \<lparr>hb_head_id = [48 + of_nat k], hb_sources = [], hb_overlays = []\<rparr>) [0, 1, 2, 3],
       wc_extent = (3210, 1820)\<rparr>"
  by (simp add: demo_wall_eval)

theorem wall_heads_tile_witness:
  "rects_apart \<lparr>hp_x = 1930, hp_y = 0, hp_width = 1280, hp_height = 1080\<rparr> \<lparr>hp_x = 0, hp_y = 1100, hp_width = 1920, hp_height = 720\<rparr>"
proof -
  let ?w = "demo_wall [demo_head 0 1920 1080 Landscape, demo_head 1 1280 1080 Landscape,
       demo_head 2 1920 720 Landscape, demo_head 3 1280 720 Landscape]"
  have "heads_fit ?w"
    by (simp add: heads_fit_def demo_wall_def demo_head_def All_less_Suc)
  then show ?thesis
    using wall_heads_tile [OF demo_wall_placements, of 1 2] by simp
qed

text \<open>A portrait head is placed by its unswapped canvas: the orientation has no effect on the placement.\<close>

lemma orientation_not_placed:
  "place_heads (w\<lparr>vw_heads := map (\<lambda>h. h\<lparr>hd_orientation := ot\<rparr>) (vw_heads w)\<rparr>) = place_heads w"
proof -
  let ?w = "w\<lparr>vw_heads := map (\<lambda>h. h\<lparr>hd_orientation := ot\<rparr>) (vw_heads w)\<rparr>"
  have mh: "map_head (f \<circ> hd_canvas) (head_at ?w r k) = map_head (f \<circ> hd_canvas) (head_at w r k)" for f r k
    by (auto simp: head_at_def map_head_def Let_def)
  have "place_one ?w cx ry pos acc = place_one w cx ry pos acc" for cx ry pos acc
    by (cases pos) (auto simp: place_one_def head_at_def Let_def)
  then have "place_one ?w = place_one w" by (intro ext)
  moreover have "col_origins ?w = col_origins w" and "row_origins ?w = row_origins w"
    by (simp_all add: col_origins_def row_origins_def mh)
  moreover have "vw_cols ?w = vw_cols w" and "vw_rows ?w = vw_rows w" by simp_all
  ultimately show ?thesis unfolding place_heads_def by (simp only:)
qed

text \<open>A validated wall of mixed resolutions may draw one head over another.\<close>

lemma mixed_heads_overlap:
  assumes "w = demo_wall [demo_head 0 1280 720 Landscape, demo_head 1 1280 720 Landscape,
       demo_head 2 1920 1080 Landscape, demo_head 3 1920 1080 Landscape]"
  shows "case resolve_wall w of Inl e \<Rightarrow> False
     | Inr c \<Rightarrow> \<not> rects_apart (wc_placements c ! 2) (wc_placements c ! 3)"
  unfolding assms by (simp add: demo_wall_eval rects_apart_def)

text \<open>Binding replaces the first binding of the id and nothing else.\<close>

lemma replace_binding_missing:
  "hb_head_id b \<notin> hb_head_id ` set bs \<Longrightarrow> replace_binding b bs = (False, bs)"
  by (induction b bs rule: replace_binding.induct) auto

lemma replace_binding_found:
  "hb_head_id b \<notin> hb_head_id ` set xs \<Longrightarrow> hb_head_id x = hb_head_id b \<Longrightarrow>
     replace_binding b (xs @ x # ys) = (True, xs @ b # ys)"
  by (induction xs) auto

end
