(* ===== verification/Traces.thy ===== *)
theory Traces
  imports Prelude
begin

text \<open>
  Interleavings of concurrent code: an event is one critical section or one atomic operation, a guarded
  step returns \<open>None\<close> where the event is not enabled, and a run is a list of events. What every enabled
  event keeps holds after every run.
\<close>

fun guarded_run :: "('e \<Rightarrow> 's \<Rightarrow> 's option) \<Rightarrow> 'e list \<Rightarrow> 's \<Rightarrow> 's option" where
  "guarded_run step [] s = Some s"
| "guarded_run step (e # es) s = (case step e s of None \<Rightarrow> None | Some s' \<Rightarrow> guarded_run step es s')"

lemma guarded_run_append:
  "guarded_run step (xs @ ys) s = (case guarded_run step xs s of None \<Rightarrow> None | Some s' \<Rightarrow> guarded_run step ys s')"
  by (induction xs arbitrary: s) (auto split: option.splits)

locale trace_invariant =
  fixes step :: "'e \<Rightarrow> 's \<Rightarrow> 's option" and ok :: "nat \<Rightarrow> 's \<Rightarrow> bool"
  assumes keeps: "ok n s \<Longrightarrow> step e s = Some s' \<Longrightarrow> ok (Suc n) s'"
begin

lemma run_from: "guarded_run step es s = Some s' \<Longrightarrow> ok n s \<Longrightarrow> ok (n + length es) s'"
proof (induction es arbitrary: s n)
  case (Cons e es)
  then obtain s1 where s: "step e s = Some s1" "guarded_run step es s1 = Some s'" by (auto split: option.splits)
  then show ?case using Cons.IH [of s1 "Suc n"] keeps [OF Cons.prems(2) s(1)] by simp
qed simp

lemma run_ok: "guarded_run step es s = Some s' \<Longrightarrow> ok 0 s \<Longrightarrow> ok (length es) s'"
  using run_from [of es s s' 0] by simp

end

end
