(* ===== verification/Degradation.thy ===== *)
theory Degradation
  imports Complex_Main Prelude
begin

text \<open>
  The degradation ladder of \<open>multiview-hal/src/degradation.rs\<close>, its hysteresis controller, and the step
  of the control loop in \<open>multiview-engine/src/degrade.rs\<close> that drives it. Pressures and thresholds are
  \<open>f64\<close>; they are only compared, so a finite one is the rational number it denotes.
\<close>

section \<open>Readings\<close>

datatype f64 = NotANumber | MinusInfinity | Finite rat | PlusInfinity

fun f64_is_finite :: "f64 \<Rightarrow> bool" where
  "f64_is_finite (Finite q) = True"
| "f64_is_finite NotANumber = False"
| "f64_is_finite MinusInfinity = False"
| "f64_is_finite PlusInfinity = False"

fun f64_less :: "f64 \<Rightarrow> f64 \<Rightarrow> bool" where
  "f64_less (Finite a) (Finite b) \<longleftrightarrow> a < b"
| "f64_less MinusInfinity (Finite b) \<longleftrightarrow> True"
| "f64_less MinusInfinity PlusInfinity \<longleftrightarrow> True"
| "f64_less (Finite a) PlusInfinity \<longleftrightarrow> True"
| "f64_less x y \<longleftrightarrow> False"

fun f64_le :: "f64 \<Rightarrow> f64 \<Rightarrow> bool" where
  "f64_le NotANumber y \<longleftrightarrow> False"
| "f64_le x NotANumber \<longleftrightarrow> False"
| "f64_le x y \<longleftrightarrow> x = y \<or> f64_less x y"

section \<open>The ladder\<close>

datatype degradation_action =
  ShedFocusWhep | DropPreviewGridFps | DropPreviewGridRes | DropOffAirCueDecoders | SuspendPreviewEntirely
| DropTileResolution | DropTileFps | SimplerScaler
| FasterEncoderPreset | LowerOutputBitrate | LowerOutputFps | LowerOutputResolution | ShedTiles

definition LADDER :: "degradation_action list" where
  "LADDER =
     [ShedFocusWhep, DropPreviewGridFps, DropPreviewGridRes, DropOffAirCueDecoders, SuspendPreviewEntirely,
      DropTileResolution, DropTileFps, SimplerScaler,
      FasterEncoderPreset, LowerOutputBitrate, LowerOutputFps, LowerOutputResolution, ShedTiles]"

fun action_rung :: "degradation_action \<Rightarrow> nat" where
  "action_rung ShedFocusWhep = 0"
| "action_rung DropPreviewGridFps = 1"
| "action_rung DropPreviewGridRes = 2"
| "action_rung DropOffAirCueDecoders = 3"
| "action_rung SuspendPreviewEntirely = 4"
| "action_rung DropTileResolution = 5"
| "action_rung DropTileFps = 6"
| "action_rung SimplerScaler = 7"
| "action_rung FasterEncoderPreset = 8"
| "action_rung LowerOutputBitrate = 9"
| "action_rung LowerOutputFps = 10"
| "action_rung LowerOutputResolution = 11"
| "action_rung ShedTiles = 12"

definition first_non_preview_level :: nat where
  "first_non_preview_level = action_rung DropTileResolution"

definition first_program_level :: nat where
  "first_program_level = action_rung FasterEncoderPreset"

definition affects_preview :: "degradation_action \<Rightarrow> bool" where
  "affects_preview a \<longleftrightarrow> action_rung a < first_non_preview_level"

definition affects_program :: "degradation_action \<Rightarrow> bool" where
  "affects_program a \<longleftrightarrow> first_program_level \<le> action_rung a"

definition MAX_LEVEL :: nat where
  "MAX_LEVEL = length LADDER"

definition actions_at_level :: "nat \<Rightarrow> degradation_action list" where
  "actions_at_level level = take (min level MAX_LEVEL) LADDER"

section \<open>The controller\<close>

datatype ladder_move = MoveDown | MoveUp | MoveHold

record hysteresis_config =
  hy_low :: f64
  hy_high :: f64
  recover_cooldown_ticks :: nat

text \<open>The doubles nearest to 0.7 and 0.9.\<close>

definition ladder_hysteresis_default :: hysteresis_config where
  "ladder_hysteresis_default =
     \<lparr>hy_low = Finite (3152519739159347 / 4503599627370496),
      hy_high = Finite (8106479329266893 / 9007199254740992), recover_cooldown_ticks = 5\<rparr>"

definition in_unit :: "f64 \<Rightarrow> bool" where
  "in_unit x \<longleftrightarrow> f64_le (Finite 0) x \<and> f64_le x (Finite 1)"

definition hysteresis_validate :: "hysteresis_config \<Rightarrow> string + unit" where
  "hysteresis_validate c =
     (if \<not> f64_is_finite (hy_low c) \<or> \<not> f64_is_finite (hy_high c)
      then Inl ''hysteresis thresholds must be finite''
      else if \<not> in_unit (hy_low c) \<or> \<not> in_unit (hy_high c)
      then Inl ''hysteresis thresholds must lie within 0.0..=1.0''
      else if f64_le (hy_high c) (hy_low c)
      then Inl ''hysteresis requires low < high (a positive-width band)''
      else Inr ())"

definition hysteresis_try_new :: "f64 \<Rightarrow> f64 \<Rightarrow> nat \<Rightarrow> string + hysteresis_config" where
  "hysteresis_try_new low high ticks =
     (let c = \<lparr>hy_low = low, hy_high = high, recover_cooldown_ticks = ticks\<rparr>
      in case hysteresis_validate c of Inl e \<Rightarrow> Inl e | Inr u \<Rightarrow> Inr c)"

record hysteresis =
  hs_config :: hysteresis_config
  hs_level :: nat
  hs_cooldown :: nat

definition ladder_hysteresis_new :: "hysteresis_config \<Rightarrow> hysteresis" where
  "ladder_hysteresis_new c = \<lparr>hs_config = c, hs_level = 0, hs_cooldown = 0\<rparr>"

definition active_actions :: "hysteresis \<Rightarrow> degradation_action list" where
  "active_actions h = actions_at_level (hs_level h)"

definition tick_cooldown :: "hysteresis \<Rightarrow> hysteresis" where
  "tick_cooldown h = h\<lparr>hs_cooldown := hs_cooldown h - 1\<rparr>"

definition pressure_observe :: "f64 \<Rightarrow> hysteresis \<Rightarrow> ladder_move \<times> hysteresis" where
  "pressure_observe pressure h =
     (if \<not> f64_is_finite pressure then (MoveHold, tick_cooldown h)
      else if f64_less (hy_high (hs_config h)) pressure \<and> hs_level h < MAX_LEVEL
      then (MoveDown, h\<lparr>hs_level := hs_level h + 1, hs_cooldown := recover_cooldown_ticks (hs_config h)\<rparr>)
      else if f64_less pressure (hy_low (hs_config h)) \<and> 0 < hs_level h
      then (if 0 < hs_cooldown h then (MoveHold, tick_cooldown h)
            else (MoveUp, h\<lparr>hs_level := hs_level h - 1, hs_cooldown := recover_cooldown_ticks (hs_config h)\<rparr>))
      else (MoveHold, tick_cooldown h))"

record control_step =
  cs_move :: ladder_move
  cs_level :: nat
  cs_active :: "degradation_action list"
  cs_pressure :: f64

definition step_affects_program :: "control_step \<Rightarrow> bool" where
  "step_affects_program s \<longleftrightarrow> list_ex affects_program (cs_active s)"

definition control_loop_step :: "f64 \<Rightarrow> hysteresis \<Rightarrow> control_step \<times> hysteresis" where
  "control_loop_step pressure h =
     (let (mv, h') = pressure_observe pressure h; level = hs_level h'
      in (\<lparr>cs_move = mv, cs_level = level, cs_active = actions_at_level level, cs_pressure = pressure\<rparr>, h'))"

fun control_run :: "f64 list \<Rightarrow> hysteresis \<Rightarrow> control_step list \<times> hysteresis" where
  "control_run [] h = ([], h)"
| "control_run (p # ps) h =
     (let (s, h') = control_loop_step p h; (ss, h'') = control_run ps h' in (s # ss, h''))"

section \<open>Cheapest impact first\<close>

lemma LADDER_rung: "i < MAX_LEVEL \<Longrightarrow> action_rung (LADDER ! i) = i"
  by (auto simp: MAX_LEVEL_def LADDER_def less_Suc_eq numeral_eq_Suc)

lemma rung_less: "action_rung a < MAX_LEVEL"
  by (cases a) (simp_all add: MAX_LEVEL_def LADDER_def)

lemma LADDER_nth_rung: "LADDER ! action_rung a = a"
  by (cases a) (simp_all add: LADDER_def)

lemma actions_at_level_iff: "a \<in> set (actions_at_level n) \<longleftrightarrow> action_rung a < n"
proof
  assume "a \<in> set (actions_at_level n)"
  then obtain i where "i < min n MAX_LEVEL" "a = LADDER ! i"
    by (auto simp: actions_at_level_def in_set_conv_nth MAX_LEVEL_def)
  then show "action_rung a < n" by (simp add: LADDER_rung)
next
  assume "action_rung a < n"
  then have "action_rung a < min n MAX_LEVEL" using rung_less by simp
  then have "take (min n MAX_LEVEL) LADDER ! action_rung a \<in> set (actions_at_level n)"
    unfolding actions_at_level_def by (intro nth_mem) (simp add: MAX_LEVEL_def)
  then show "a \<in> set (actions_at_level n)" using \<open>action_rung a < min n MAX_LEVEL\<close> by (simp add: LADDER_nth_rung)
qed

lemma level_affects_program: "list_ex affects_program (actions_at_level n) \<longleftrightarrow> first_program_level < n"
proof
  assume "list_ex affects_program (actions_at_level n)"
  then show "first_program_level < n"
    by (auto simp: list_ex_iff actions_at_level_iff affects_program_def)
next
  assume "first_program_level < n"
  then have "FasterEncoderPreset \<in> set (actions_at_level n)"
    by (simp add: actions_at_level_iff first_program_level_def)
  then show "list_ex affects_program (actions_at_level n)"
    by (auto simp: list_ex_iff affects_program_def first_program_level_def intro!: bexI [of _ FasterEncoderPreset])
qed

section \<open>No flapping\<close>

lemma control_run_Cons_simps [simp]:
  "fst (control_run (p # ps) h) = fst (control_loop_step p h) # fst (control_run ps (snd (control_loop_step p h)))"
  "snd (control_run (p # ps) h) = snd (control_run ps (snd (control_loop_step p h)))"
  by (simp_all add: case_prod_beta Let_def)

lemma control_run_length [simp]: "length (fst (control_run ps h)) = length ps"
  by (induction ps arbitrary: h) (simp_all del: control_run.simps(2))

lemma config_step [simp]: "hs_config (snd (control_loop_step p h)) = hs_config h"
  by (simp add: control_loop_step_def pressure_observe_def tick_cooldown_def case_prod_beta Let_def)

lemma loop_step_cooldown:
  "cs_move (fst (control_loop_step p h)) = MoveUp \<Longrightarrow> hs_cooldown h = 0"
  "cs_move (fst (control_loop_step p h)) \<noteq> MoveHold \<Longrightarrow>
     hs_cooldown (snd (control_loop_step p h)) = recover_cooldown_ticks (hs_config h)"
  "hs_cooldown h - 1 \<le> hs_cooldown (snd (control_loop_step p h)) \<or> cs_move (fst (control_loop_step p h)) \<noteq> MoveHold"
  by (auto simp: control_loop_step_def pressure_observe_def tick_cooldown_def case_prod_beta Let_def split: if_splits)

text \<open>After a reading that leaves \<open>c\<close> ticks of cooldown, no recovery happens for \<open>c\<close> readings unless
  another change comes first.\<close>

lemma no_up_in_cooldown:
  "i < length ps \<Longrightarrow> cs_move (fst (control_run ps h) ! i) = MoveUp \<Longrightarrow>
     \<forall>j<i. cs_move (fst (control_run ps h) ! j) = MoveHold \<Longrightarrow> hs_cooldown h \<le> i"
proof (induction ps arbitrary: h i)
  case (Cons p ps)
  show ?case
  proof (cases i)
    case 0
    then show ?thesis using Cons.prems loop_step_cooldown(1) [of p h] by (simp del: control_run.simps(2))
  next
    case (Suc k)
    have hold: "cs_move (fst (control_loop_step p h)) = MoveHold"
      using Cons.prems(3) Suc by (auto simp del: control_run.simps(2) dest: spec [of _ 0])
    have "\<forall>j<k. cs_move (fst (control_run ps (snd (control_loop_step p h))) ! j) = MoveHold"
      using Cons.prems(3) Suc by (auto simp del: control_run.simps(2) dest: spec [of _ "Suc j" for j])
    then have "hs_cooldown (snd (control_loop_step p h)) \<le> k"
      using Cons.IH [of k "snd (control_loop_step p h)"] Cons.prems(1,2) Suc by (simp del: control_run.simps(2))
    then show ?thesis using loop_step_cooldown(3) [of h p] hold Suc by simp
  qed
qed simp

lemma dwell_after_change:
  "i < length ps \<Longrightarrow> j < i \<Longrightarrow> cs_move (fst (control_run ps h) ! i) = MoveUp \<Longrightarrow>
     cs_move (fst (control_run ps h) ! j) \<noteq> MoveHold \<Longrightarrow> \<forall>k. j < k \<and> k < i \<longrightarrow> cs_move (fst (control_run ps h) ! k) = MoveHold \<Longrightarrow>
     j + recover_cooldown_ticks (hs_config h) < i"
proof (induction ps arbitrary: h i j)
  case (Cons p ps)
  let ?h = "snd (control_loop_step p h)"
  obtain i' where i: "i = Suc i'" using Cons.prems(2) by (cases i) auto
  show ?case
  proof (cases j)
    case 0
    have "\<forall>k<i'. cs_move (fst (control_run ps ?h) ! k) = MoveHold"
      using Cons.prems(5) i 0 by (auto simp del: control_run.simps(2) dest: spec [of _ "Suc k" for k])
    then have "hs_cooldown ?h \<le> i'"
      using no_up_in_cooldown [of i' ps ?h] Cons.prems(1,3) i by (simp del: control_run.simps(2))
    moreover have "hs_cooldown ?h = recover_cooldown_ticks (hs_config h)"
      using loop_step_cooldown(2) [of p h] Cons.prems(4) 0 by (simp del: control_run.simps(2))
    ultimately show ?thesis using i 0 by simp
  next
    case (Suc j')
    have "\<forall>k. j' < k \<and> k < i' \<longrightarrow> cs_move (fst (control_run ps ?h) ! k) = MoveHold"
      using Cons.prems(5) i Suc by (auto simp del: control_run.simps(2) dest: spec [of _ "Suc k" for k])
    then have "j' + recover_cooldown_ticks (hs_config ?h) < i'"
      using Cons.IH [of i' j' ?h] Cons.prems i Suc by (simp del: control_run.simps(2))
    then show ?thesis using i Suc by simp
  qed
qed simp

text \<open>C25: Recovery waits out its dwell, and the program is touched last. In every run of the control
  loop from full quality, whatever the readings (an infinite or undefined one included), a recovery is
  more than \<open>recover_cooldown_ticks\<close> readings later than every change before it; and a step degrades the
  program only when every preview and every tile action is active already.\<close>

theorem recovery_waits_out_dwell:
  assumes "ss = fst (control_run ps (ladder_hysteresis_new c))" and "i < length ps"
  shows "(cs_move (ss ! i) = MoveUp \<longrightarrow>
       (\<forall>j<i. cs_move (ss ! j) \<noteq> MoveHold \<longrightarrow> j + recover_cooldown_ticks c < i)) \<and>
     (step_affects_program (ss ! i) \<longrightarrow>
       (\<forall>a. \<not> affects_program a \<longrightarrow> a \<in> set (cs_active (ss ! i))))"
proof (intro conjI impI allI)
  fix j
  assume up: "cs_move (ss ! i) = MoveUp" and j: "j < i" and ch: "cs_move (ss ! j) \<noteq> MoveHold"
  define k where "k = Max {k. k < i \<and> cs_move (ss ! k) \<noteq> MoveHold}"
  have fin: "finite {k. k < i \<and> cs_move (ss ! k) \<noteq> MoveHold}" by simp
  have k: "k < i" "cs_move (ss ! k) \<noteq> MoveHold" "j \<le> k"
    using Max_in [OF fin] Max_ge [OF fin, of j] j ch unfolding k_def by blast+
  have "\<forall>l. k < l \<and> l < i \<longrightarrow> cs_move (ss ! l) = MoveHold"
    using Max_ge [OF fin] unfolding k_def [symmetric] by (auto simp: not_le [symmetric])
  then have "k + recover_cooldown_ticks c < i"
    using dwell_after_change [of i ps k "ladder_hysteresis_new c"] assms k up by (simp add: ladder_hysteresis_new_def)
  then show "j + recover_cooldown_ticks c < i" using k(3) by simp
next
  fix a
  assume prog: "step_affects_program (ss ! i)" and a: "\<not> affects_program a"
  have "\<exists>n. cs_active (fst (control_run ps h) ! i) = actions_at_level n" if "i < length ps" for i h
    using that
  proof (induction ps arbitrary: h i)
    case (Cons p ps)
    then show ?case
      by (cases i) (auto simp del: control_run.simps(2) simp: control_loop_step_def case_prod_beta Let_def)
  qed simp
  then obtain n where "cs_active (ss ! i) = actions_at_level n" using assms by blast
  then show "a \<in> set (cs_active (ss ! i))"
    using prog a by (auto simp: step_affects_program_def level_affects_program actions_at_level_iff affects_program_def)
qed

theorem recovery_waits_out_dwell_witness:
  "cs_move (fst (control_run ([Finite 1] @ replicate 5 (Finite 0)) (ladder_hysteresis_new ladder_hysteresis_default)) ! 5) \<noteq> MoveUp"
proof -
  let ?ps = "[Finite 1] @ replicate 5 (Finite 0)"
  have "cs_move (fst (control_run ?ps (ladder_hysteresis_new ladder_hysteresis_default)) ! 0) = MoveDown"
    by (simp add: control_loop_step_def pressure_observe_def ladder_hysteresis_new_def ladder_hysteresis_default_def MAX_LEVEL_def
        LADDER_def case_prod_beta Let_def)
  then show ?thesis
    using recovery_waits_out_dwell [OF refl, of 5 ?ps ladder_hysteresis_default]
    by (auto simp: ladder_hysteresis_default_def dest: spec [of _ 0])
qed

section \<open>It sheds and it recovers\<close>

lemma step_down:
  "f64_is_finite p \<Longrightarrow> f64_less (hy_high (hs_config h)) p \<Longrightarrow> hs_level h < MAX_LEVEL \<Longrightarrow>
     hs_level (snd (control_loop_step p h)) = hs_level h + 1"
  by (simp add: control_loop_step_def pressure_observe_def case_prod_beta Let_def)

lemma sheds:
  assumes "f64_is_finite p" and "f64_less (hy_high (hs_config h)) p" and "hs_level h + n \<le> MAX_LEVEL"
  shows "hs_level (snd (control_run (replicate n p) h)) = hs_level h + n"
  using assms
proof (induction n arbitrary: h)
  case (Suc n)
  then have "hs_level (snd (control_loop_step p h)) = hs_level h + 1" by (intro step_down) auto
  then show ?case using Suc.IH [of "snd (control_loop_step p h)"] Suc.prems
    by (simp del: control_run.simps(2))
qed simp

lemma finite_less_chain: "f64_is_finite p \<Longrightarrow> f64_less p a \<Longrightarrow> f64_less a b \<Longrightarrow> \<not> f64_less b p"
  by (cases p; cases a; cases b) auto

lemma step_low:
  assumes "f64_is_finite p" and "f64_less p (hy_low (hs_config h))"
    and "f64_less (hy_low (hs_config h)) (hy_high (hs_config h))" and "0 < hs_level h"
  shows "snd (control_loop_step p h) =
     (if 0 < hs_cooldown h then h\<lparr>hs_cooldown := hs_cooldown h - 1\<rparr>
      else h\<lparr>hs_level := hs_level h - 1, hs_cooldown := recover_cooldown_ticks (hs_config h)\<rparr>)"
  using assms finite_less_chain [OF assms(1-3)]
  by (simp add: control_loop_step_def pressure_observe_def tick_cooldown_def case_prod_beta Let_def)

lemma control_run_append:
  "snd (control_run (ps @ qs) h) = snd (control_run qs (snd (control_run ps h)))"
  by (induction ps arbitrary: h) (simp_all del: control_run.simps(2))

lemma one_rung:
  assumes "f64_is_finite p" and "f64_less p (hy_low (hs_config h))"
    and "f64_less (hy_low (hs_config h)) (hy_high (hs_config h))" and "0 < hs_level h" and "hs_cooldown h = n"
  shows "snd (control_run (replicate (Suc n) p) h) =
     h\<lparr>hs_level := hs_level h - 1, hs_cooldown := recover_cooldown_ticks (hs_config h)\<rparr>"
  using assms
proof (induction n arbitrary: h)
  case 0
  then show ?case by (simp add: step_low del: control_run.simps(2))
next
  case (Suc n)
  have s: "snd (control_loop_step p h) = h\<lparr>hs_cooldown := n\<rparr>" using Suc.prems by (simp add: step_low)
  then show ?case using Suc.IH [of "h\<lparr>hs_cooldown := n\<rparr>"] Suc.prems
    by (simp del: control_run.simps(2) replicate.simps add: replicate_Suc [of "Suc n"])
qed

lemma recovers:
  assumes "f64_is_finite p" and "f64_less p (hy_low (hs_config h))"
    and "f64_less (hy_low (hs_config h)) (hy_high (hs_config h))"
    and "hs_cooldown h = recover_cooldown_ticks (hs_config h)"
  shows "hs_level (snd (control_run (replicate (n * Suc (recover_cooldown_ticks (hs_config h))) p) h)) = hs_level h - n"
  using assms
proof (induction n arbitrary: h)
  case (Suc n)
  let ?N = "recover_cooldown_ticks (hs_config h)"
  have split: "replicate (Suc n * Suc ?N) p = replicate (Suc ?N) p @ replicate (n * Suc ?N) p"
    by (simp add: replicate_add [symmetric] del: replicate.simps)
  show ?case
  proof (cases "hs_level h = 0")
    case True
    have low: "hs_level (snd (control_run (replicate k p) h)) = 0" if "hs_level h = 0" "hs_config h = hs_config h0"
      "f64_less p (hy_low (hs_config h0))" "f64_less (hy_low (hs_config h0)) (hy_high (hs_config h0))" for k h h0
      using that
    proof (induction k arbitrary: h)
      case (Suc k)
      have nl: "\<not> f64_less (hy_high (hs_config h)) p"
        using finite_less_chain [OF assms(1)] Suc.prems by metis
      have "hs_level (snd (control_loop_step p h)) = 0"
        using Suc.prems(1) nl by (simp add: control_loop_step_def pressure_observe_def tick_cooldown_def case_prod_beta Let_def)
      then show ?case using Suc.IH [of "snd (control_loop_step p h)"] Suc.prems by (simp del: control_run.simps(2))
    qed simp
    show ?thesis using low [OF True refl Suc.prems(2,3)] True by (simp only: diff_0_eq_0)
  next
    case False
    let ?h = "h\<lparr>hs_level := hs_level h - 1, hs_cooldown := ?N\<rparr>"
    have "snd (control_run (replicate (Suc ?N) p) h) = ?h"
      using one_rung [of p h ?N] Suc.prems False by simp
    then have "snd (control_run (replicate (Suc n * Suc ?N) p) h) = snd (control_run (replicate (n * Suc ?N) p) ?h)"
      unfolding split control_run_append by (rule arg_cong)
    moreover have "hs_level (snd (control_run (replicate (n * Suc ?N) p) ?h)) = hs_level h - Suc n"
      using Suc.IH [of ?h] Suc.prems by simp
    ultimately show ?thesis by (simp only:)
  qed
qed simp

text \<open>The ladder sheds promptly and recovers fully. Under a validated configuration, thirteen readings
  above the band from any state bring the whole ladder down (one rung each until the floor), and then
  \<open>recover_cooldown_ticks + 1\<close> readings below the band bring back one rung each, to full quality.\<close>

theorem ladder_sheds_and_recovers:
  assumes "hysteresis_validate c = Inr ()"
    and "f64_is_finite high" and "f64_less (hy_high c) high" and "f64_is_finite low" and "f64_less low (hy_low c)"
    and "0 < n" and "n \<le> 13"
  shows "hs_level (snd (control_run (replicate n high) (ladder_hysteresis_new c))) = n \<and>
     hs_level (snd (control_run (replicate n high @ replicate (k * Suc (recover_cooldown_ticks c)) low) (ladder_hysteresis_new c))) = n - k"
proof -
  let ?h = "snd (control_run (replicate n high) (ladder_hysteresis_new c))"
  have "f64_less (hy_low c) (hy_high c)"
    using assms(1) by (cases "hy_low c"; cases "hy_high c") (auto simp: hysteresis_validate_def split: if_splits)
  moreover have level: "hs_level ?h = n"
    using sheds [of high "ladder_hysteresis_new c" n] assms by (simp add: ladder_hysteresis_new_def MAX_LEVEL_def LADDER_def)
  moreover have cfg: "hs_config (snd (control_run ps h)) = hs_config h" for ps h
    by (induction ps arbitrary: h) (simp_all del: control_run.simps(2))
  moreover have "hs_cooldown ?h = recover_cooldown_ticks c"
  proof -
    obtain m where n: "n = Suc m" using assms(6) by (cases n) auto
    have "replicate n high = replicate m high @ [high]" by (simp add: n replicate_append_same)
    moreover have "hs_level (snd (control_run (replicate m high) (ladder_hysteresis_new c))) = m"
      using sheds [of high "ladder_hysteresis_new c" m] assms n by (simp add: ladder_hysteresis_new_def MAX_LEVEL_def LADDER_def)
    ultimately show ?thesis
      using assms n cfg [of "replicate m high" "ladder_hysteresis_new c"]
      by (simp add: control_run_append control_loop_step_def pressure_observe_def case_prod_beta Let_def MAX_LEVEL_def
          LADDER_def ladder_hysteresis_new_def)
  qed
  ultimately show ?thesis
    using recovers [of low ?h k] assms(4,5) by (simp add: control_run_append ladder_hysteresis_new_def)
qed

theorem ladder_sheds_and_recovers_witness:
  "hs_level (snd (control_run (replicate 13 (Finite 1) @ replicate (13 * Suc 5) (Finite 0)) (ladder_hysteresis_new ladder_hysteresis_default))) = 0"
proof -
  have "hysteresis_validate ladder_hysteresis_default = Inr ()"
    by (simp add: hysteresis_validate_def ladder_hysteresis_default_def in_unit_def)
  then show ?thesis
    using ladder_sheds_and_recovers [of ladder_hysteresis_default "Finite 1" "Finite 0" 13 13]
    by (simp add: ladder_hysteresis_default_def)
qed

end
