(* ===== verification/Fanout.thy ===== *)
theory Fanout
  imports Prelude
begin

text \<open>
  The encode-once fan-out of \<open>multiview-output/src/fanout.rs\<close> and the output crosspoint of
  \<open>multiview-engine/src/migration.rs\<close> over it. A sink is its identifier and the handle it keeps while it
  is moved; delivering to it is recorded in the result. The routing table is a hash map: the order in
  which its keys are enumerated is an argument wherever the code iterates.
\<close>

section \<open>The router\<close>

type_synonym rendition_id = string

datatype packet_kind = VideoKeyframe | VideoDelta | AudioPacket

definition is_keyframe :: "packet_kind \<Rightarrow> bool" where
  "is_keyframe k \<longleftrightarrow> k = VideoKeyframe"

record encoded_packet =
  pk_rendition :: rendition_id
  pk_kind :: packet_kind
  pk_pts :: int
  pk_dts :: int
  pk_duration :: int
  pk_data :: "nat list"

record packet_sink =
  sink_id :: string
  sink_handle :: nat

type_synonym packet_router = "rendition_id \<Rightarrow> packet_sink list option"

definition router_new :: packet_router where
  "router_new = (\<lambda>r. None)"

text \<open>Replace the first sink of the identifier, or append.\<close>

fun put_sink :: "packet_sink \<Rightarrow> packet_sink list \<Rightarrow> packet_sink list" where
  "put_sink s [] = [s]"
| "put_sink s (x # xs) = (if sink_id x = sink_id s then s # xs else x # put_sink s xs)"

definition register_sink :: "rendition_id \<Rightarrow> packet_sink \<Rightarrow> packet_router \<Rightarrow> packet_router" where
  "register_sink r s m = m(r \<mapsto> put_sink s (case m r of None \<Rightarrow> [] | Some sinks \<Rightarrow> sinks))"

definition store_sinks :: "rendition_id \<Rightarrow> packet_sink list \<Rightarrow> packet_router \<Rightarrow> packet_router" where
  "store_sinks r sinks m = (if sinks = [] then m(r := None) else m(r \<mapsto> sinks))"

definition deregister_sink :: "rendition_id \<Rightarrow> string \<Rightarrow> packet_router \<Rightarrow> bool \<times> packet_router" where
  "deregister_sink r i m =
     (case m r of
        None \<Rightarrow> (False, m)
      | Some sinks \<Rightarrow>
          let kept = filter (\<lambda>s. sink_id s \<noteq> i) sinks
          in (length kept \<noteq> length sinks, store_sinks r kept m))"

fun position_of :: "('a \<Rightarrow> bool) \<Rightarrow> 'a list \<Rightarrow> nat option" where
  "position_of P [] = None"
| "position_of P (x # xs) = (if P x then Some 0 else map_option Suc (position_of P xs))"

definition swap_remove :: "nat \<Rightarrow> 'a list \<Rightarrow> 'a \<times> 'a list" where
  "swap_remove i xs = (xs ! i, butlast (xs[i := last xs]))"

definition move_sink :: "string \<Rightarrow> rendition_id \<Rightarrow> rendition_id \<Rightarrow> packet_router \<Rightarrow> bool \<times> packet_router" where
  "move_sink i src dst m =
     (case m src of
        None \<Rightarrow> (False, m)
      | Some sinks \<Rightarrow>
          (case position_of (\<lambda>s. sink_id s = i) sinks of
             None \<Rightarrow> (False, m)
           | Some pos \<Rightarrow>
               let (s, rest) = swap_remove pos sinks
               in (True, register_sink dst s (store_sinks src rest m))))"

type_synonym delivery = "packet_sink \<times> encoded_packet"

definition route_packet :: "encoded_packet \<Rightarrow> packet_router \<Rightarrow> delivery list \<times> nat" where
  "route_packet p m =
     (case m (pk_rendition p) of
        None \<Rightarrow> ([], 0)
      | Some sinks \<Rightarrow> (map (\<lambda>s. (s, p)) sinks, length sinks))"

definition sink_count :: "rendition_id \<Rightarrow> packet_router \<Rightarrow> nat" where
  "sink_count r m = (case m r of None \<Rightarrow> 0 | Some sinks \<Rightarrow> length sinks)"

text \<open>One tick: encode every active rendition, in the order the map enumerates its keys, and deliver the
  packet to its sinks. The log holds the renditions encoded.\<close>

type_synonym encoder = "rendition_id \<Rightarrow> nat \<Rightarrow> encoded_packet"

fun tick_loop :: "encoder \<Rightarrow> nat \<Rightarrow> rendition_id list \<Rightarrow> packet_router \<Rightarrow> rendition_id list \<times> delivery list" where
  "tick_loop enc n [] m = ([], [])"
| "tick_loop enc n (r # rs) m =
     (let (es, ds) = tick_loop enc n rs m
      in (r # es, fst (route_packet (enc r n) m) @ ds))"

definition fanout_tick ::
  "encoder \<Rightarrow> nat \<Rightarrow> rendition_id list \<Rightarrow> packet_router \<Rightarrow> (rendition_id list \<times> delivery list) \<times> nat" where
  "fanout_tick enc n order m = (tick_loop enc n order m, length order)"

definition enumerates :: "rendition_id list \<Rightarrow> packet_router \<Rightarrow> bool" where
  "enumerates order m \<longleftrightarrow> distinct order \<and> set order = dom m"

section \<open>Well-formed routing tables\<close>

text \<open>Every rendition in the table has a sink, and no identifier occurs twice under one rendition.\<close>

definition router_ok :: "packet_router \<Rightarrow> bool" where
  "router_ok m \<longleftrightarrow> (\<forall>r sinks. m r = Some sinks \<longrightarrow> sinks \<noteq> [] \<and> distinct (map sink_id sinks))"

definition sinks_of :: "packet_router \<Rightarrow> rendition_id \<Rightarrow> packet_sink set" where
  "sinks_of m r = (case m r of None \<Rightarrow> {} | Some sinks \<Rightarrow> set sinks)"

lemma put_sink_ids:
  "sink_id ` set (put_sink s xs) = insert (sink_id s) (sink_id ` set xs)"
  by (induction s xs rule: put_sink.induct) auto

lemma put_sink_distinct: "distinct (map sink_id xs) \<Longrightarrow> distinct (map sink_id (put_sink s xs))"
proof (induction s xs rule: put_sink.induct)
  case (2 s x xs)
  then show ?case using put_sink_ids [of s xs] by (auto simp flip: image_set)
qed simp

lemma put_sink_set:
  "distinct (map sink_id xs) \<Longrightarrow> set (put_sink s xs) = insert s {x \<in> set xs. sink_id x \<noteq> sink_id s}"
  by (induction s xs rule: put_sink.induct) (auto simp: rev_image_eqI)

lemma put_sink_nonempty [simp]: "put_sink s xs \<noteq> []"
  by (cases xs) auto

lemma position_of_Some:
  "position_of P xs = Some i \<Longrightarrow> i < length xs \<and> P (xs ! i)"
  by (induction xs arbitrary: i) (auto split: if_splits)

lemma position_of_None: "position_of P xs = None \<longleftrightarrow> (\<forall>x\<in>set xs. \<not> P x)"
  by (induction xs) auto

lemma swap_remove_mset:
  assumes "i < length xs"
  shows "xs = take i xs @ xs ! i # drop (Suc i) xs"
    and "set (snd (swap_remove i xs)) = set (take i xs @ drop (Suc i) xs)"
    and "distinct (map f xs) \<Longrightarrow> distinct (map f (snd (swap_remove i xs)))"
proof -
  show split: "xs = take i xs @ xs ! i # drop (Suc i) xs" using assms by (rule id_take_nth_drop)
  obtain ys z where ys: "xs = ys @ [z]" using assms by (cases xs rule: rev_cases) auto
  show "set (snd (swap_remove i xs)) = set (take i xs @ drop (Suc i) xs)"
  proof (cases "i = length ys")
    case True
    then show ?thesis by (simp add: swap_remove_def ys)
  next
    case False
    then have i: "i < length ys" using assms ys by simp
    then have "snd (swap_remove i xs) = take i ys @ z # drop (Suc i) ys"
      by (simp add: swap_remove_def ys list_update_append upd_conv_take_nth_drop butlast_append)
    then show ?thesis using i by (auto simp: ys)
  qed
  assume d: "distinct (map f xs)"
  show "distinct (map f (snd (swap_remove i xs)))"
  proof (cases "i = length ys")
    case True
    then show ?thesis using d by (simp add: swap_remove_def ys)
  next
    case False
    then have i: "i < length ys" using assms ys by simp
    have "distinct (map f (take i ys @ ys ! i # drop (Suc i) ys) @ [f z])"
      using d i by (simp add: ys flip: id_take_nth_drop)
    then show ?thesis
      using i by (auto simp: swap_remove_def ys list_update_append upd_conv_take_nth_drop butlast_append)
  qed
qed

lemma router_ok_new: "router_ok router_new"
  by (simp add: router_ok_def router_new_def)

lemma register_ok: "router_ok m \<Longrightarrow> router_ok (register_sink r s m)"
  by (auto simp: router_ok_def register_sink_def intro!: put_sink_distinct split: option.splits)

lemma deregister_ok: "router_ok m \<Longrightarrow> router_ok (snd (deregister_sink r i m))"
  by (auto simp: router_ok_def deregister_sink_def store_sinks_def Let_def distinct_map_filter split: option.splits)

lemma store_sinks_ok: "router_ok m \<Longrightarrow> distinct (map sink_id sinks) \<Longrightarrow> router_ok (store_sinks r sinks m)"
  by (auto simp: router_ok_def store_sinks_def)

lemma move_ok: "router_ok m \<Longrightarrow> router_ok (snd (move_sink i src dst m))"
proof -
  assume ok: "router_ok m"
  have "router_ok (register_sink dst (fst (swap_remove pos sinks)) (store_sinks src (snd (swap_remove pos sinks)) m))"
    if "m src = Some sinks" "pos < length sinks" for sinks pos
    using ok that by (intro register_ok store_sinks_ok swap_remove_mset(3)) (auto simp: router_ok_def)
  then show ?thesis
    using ok by (auto simp: move_sink_def Let_def case_prod_beta dest: position_of_Some split: option.splits)
qed

lemma sinks_of_register:
  "router_ok m \<Longrightarrow> sinks_of (register_sink r s m) r' =
     (if r' = r then insert s {x \<in> sinks_of m r. sink_id x \<noteq> sink_id s} else sinks_of m r')"
  by (auto simp: sinks_of_def register_sink_def router_ok_def put_sink_set split: option.splits)

lemma dom_register: "dom (register_sink r s m) = insert r (dom m)"
  by (auto simp: register_sink_def)

lemma sinks_of_store: "sinks_of (store_sinks r sinks m) r' = (if r' = r then set sinks else sinks_of m r')"
  by (simp add: sinks_of_def store_sinks_def)

lemma dom_store: "dom (store_sinks r sinks m) = (if sinks = [] then dom m - {r} else insert r (dom m))"
  by (auto simp: store_sinks_def)

lemma sinks_of_deregister:
  "sinks_of (snd (deregister_sink r i m)) r' =
     (if r' = r then {x \<in> sinks_of m r. sink_id x \<noteq> i} else sinks_of m r')"
proof (cases "m r")
  case None
  then show ?thesis by (auto simp: deregister_sink_def sinks_of_def)
next
  case (Some sinks)
  then have "sinks_of (snd (deregister_sink r i m)) r' = (if r' = r then {x \<in> set sinks. sink_id x \<noteq> i} else sinks_of m r')"
    by (simp add: deregister_sink_def Let_def sinks_of_store)
  then show ?thesis using Some by (simp add: sinks_of_def)
qed

lemma dom_iff_sinks: "router_ok m \<Longrightarrow> r \<in> dom m \<longleftrightarrow> sinks_of m r \<noteq> {}"
  by (auto simp: sinks_of_def router_ok_def split: option.splits)

lemma move_sink_spec:
  assumes ok: "router_ok m" and s: "s \<in> sinks_of m src" "sink_id s = i" and d: "src \<noteq> dst"
  shows "fst (move_sink i src dst m)"
    and "sinks_of (snd (move_sink i src dst m)) src = sinks_of m src - {s}"
    and "sinks_of (snd (move_sink i src dst m)) dst = insert s {x \<in> sinks_of m dst. sink_id x \<noteq> i}"
    and "r \<noteq> src \<Longrightarrow> r \<noteq> dst \<Longrightarrow> sinks_of (snd (move_sink i src dst m)) r = sinks_of m r"
proof -
  obtain sinks where m: "m src = Some sinks" "s \<in> set sinks" "distinct (map sink_id sinks)"
    using ok s by (auto simp: sinks_of_def router_ok_def split: option.splits)
  obtain pos where pos: "position_of (\<lambda>x. sink_id x = i) sinks = Some pos"
    using m(2) s(2) position_of_None [of "\<lambda>x. sink_id x = i" sinks] by (cases "position_of (\<lambda>x. sink_id x = i) sinks") auto
  have p: "pos < length sinks" "sink_id (sinks ! pos) = i" using position_of_Some [OF pos] by auto
  have at_pos: "sinks ! pos = s"
    using m(2,3) p s(2) by (metis distinct_map inj_onD nth_mem)
  have sp: "sinks = take pos sinks @ s # drop (Suc pos) sinks" using swap_remove_mset(1) [OF p(1)] at_pos by simp
  have rest: "set (snd (swap_remove pos sinks)) = set sinks - {s}"
  proof -
    have "distinct sinks" using m(3) by (simp add: distinct_map)
    then have "s \<notin> set (take pos sinks @ drop (Suc pos) sinks)" by (subst (asm) sp) auto
    moreover have "set sinks = insert s (set (take pos sinks @ drop (Suc pos) sinks))" by (subst sp) auto
    ultimately show ?thesis unfolding swap_remove_mset(2) [OF p(1)] by blast
  qed
  have fs: "fst (swap_remove pos sinks) = s" by (simp add: swap_remove_def at_pos)
  let ?m = "store_sinks src (snd (swap_remove pos sinks)) m"
  have mv: "move_sink i src dst m = (True, register_sink dst s ?m)"
    by (simp add: move_sink_def m(1) pos Let_def case_prod_beta fs)
  have ok': "router_ok ?m" using ok m p by (intro store_sinks_ok swap_remove_mset(3)) auto
  show "fst (move_sink i src dst m)" by (simp add: mv)
  show "sinks_of (snd (move_sink i src dst m)) src = sinks_of m src - {s}"
    using d rest by (simp add: mv sinks_of_register [OF ok'] sinks_of_store) (simp add: sinks_of_def m(1))
  show "sinks_of (snd (move_sink i src dst m)) dst = insert s {x \<in> sinks_of m dst. sink_id x \<noteq> i}"
    using d s(2) by (simp add: mv sinks_of_register [OF ok'] sinks_of_store)
  show "sinks_of (snd (move_sink i src dst m)) r = sinks_of m r" if "r \<noteq> src" "r \<noteq> dst"
    using that by (simp add: mv sinks_of_register [OF ok'] sinks_of_store)
qed

section \<open>Encode once, mux many\<close>

lemma tick_loop_encodes [simp]: "fst (tick_loop enc n order m) = order"
  by (induction order) (simp_all add: case_prod_beta Let_def)

lemma tick_loop_deliveries:
  "snd (tick_loop enc n order m) = concat (map (\<lambda>r. fst (route_packet (enc r n) m)) order)"
  by (induction order) (simp_all add: case_prod_beta Let_def)

text \<open>How many packets of a rendition one sink receives in a list of deliveries.\<close>

definition packets_received :: "packet_sink \<Rightarrow> rendition_id \<Rightarrow> delivery list \<Rightarrow> nat" where
  "packets_received s r ds = length (filter (\<lambda>d. fst d = s \<and> pk_rendition (snd d) = r) ds)"

lemma packets_received_append [simp]: "packets_received s r (xs @ ys) = packets_received s r xs + packets_received s r ys"
  by (simp add: packets_received_def)

lemma count_unique: "distinct (map f xs) \<Longrightarrow> length (filter (\<lambda>x. x = s) xs) = (if s \<in> set xs then 1 else 0)"
proof (induction xs)
  case (Cons x xs)
  have "filter (\<lambda>y. y = s) xs = []" if "s \<notin> set xs" using that by (auto simp: filter_empty_conv)
  moreover have "x = s \<Longrightarrow> s \<notin> set xs" using Cons.prems by auto
  ultimately show ?case using Cons by auto
qed simp

lemma received_route:
  assumes "router_ok m" and "pk_rendition p = r'"
  shows "packets_received s r (fst (route_packet p m)) = (if r = r' \<and> s \<in> sinks_of m r then 1 else 0)"
proof (cases "m r'")
  case None
  then show ?thesis using assms(2) by (auto simp: route_packet_def sinks_of_def packets_received_def)
next
  case (Some sinks)
  have "length (filter (\<lambda>x. x = s) sinks) = (if s \<in> set sinks then 1 else 0)"
    using assms(1) Some by (intro count_unique [of sink_id]) (auto simp: router_ok_def)
  then show ?thesis
    using assms(2) Some by (auto simp: route_packet_def sinks_of_def packets_received_def filter_map comp_def)
qed

lemma received_tick:
  assumes "router_ok m" and "\<forall>r. pk_rendition (enc r n) = r" and "distinct order"
  shows "packets_received s r (snd (tick_loop enc n order m)) = (if r \<in> set order \<and> s \<in> sinks_of m r then 1 else 0)"
  using assms(3)
proof (induction order)
  case Nil
  then show ?case by (simp add: packets_received_def)
next
  case (Cons a order)
  then show ?case
    using received_route [OF assms(1), of "enc a n" a s r] assms(2)
    by (auto simp: case_prod_beta Let_def)
qed

text \<open>C9: Encode once, mux many. On a well-formed routing table, however the map enumerates its keys, a
  tick encodes every rendition that has a sink exactly once and no other, and every registered sink
  receives exactly one packet of each rendition it is registered under, and none of any other.\<close>

theorem encode_once_mux_many:
  assumes "router_ok m" and "enumerates order m" and "\<forall>r. pk_rendition (enc r n) = r"
    and "fanout_tick enc n order m = ((encoded, ds), count)"
  shows "distinct encoded \<and> set encoded = {r. sinks_of m r \<noteq> {}} \<and> count = card {r. sinks_of m r \<noteq> {}} \<and>
     packets_received s r ds = (if s \<in> sinks_of m r then 1 else 0)"
proof -
  have e: "encoded = order" "ds = snd (tick_loop enc n order m)" "count = length order"
    using assms(4) tick_loop_encodes [of enc n order m] by (auto simp: fanout_tick_def)
  have d: "{r. sinks_of m r \<noteq> {}} = dom m" using dom_iff_sinks [OF assms(1)] by blast
  have o: "distinct order" "set order = dom m" using assms(2) by (simp_all add: enumerates_def)
  have "s \<in> sinks_of m r \<Longrightarrow> r \<in> dom m" using dom_iff_sinks [OF assms(1), of r] by blast
  then show ?thesis
    using received_tick [OF assms(1), of enc n order s r] assms(3) o distinct_card [OF o(1)] unfolding e d by auto
qed

definition demo_router :: packet_router where
  "demo_router = register_sink ''hd'' \<lparr>sink_id = ''rtsp'', sink_handle = 1\<rparr>
     (register_sink ''hd'' \<lparr>sink_id = ''hls'', sink_handle = 2\<rparr>
     (register_sink ''sd'' \<lparr>sink_id = ''ndi'', sink_handle = 3\<rparr> router_new))"

definition demo_encoder :: encoder where
  "demo_encoder r n = \<lparr>pk_rendition = r, pk_kind = VideoDelta, pk_pts = int n, pk_dts = int n, pk_duration = 1, pk_data = []\<rparr>"

theorem encode_once_mux_many_witness:
  "packets_received \<lparr>sink_id = ''hls'', sink_handle = 2\<rparr> ''hd'' (snd (fst (fanout_tick demo_encoder 7 [''sd'', ''hd''] demo_router))) = 1"
proof -
  have ok: "router_ok demo_router" by (simp add: demo_router_def register_ok router_ok_new)
  have en: "enumerates [''sd'', ''hd''] demo_router"
    by (auto simp: enumerates_def demo_router_def dom_register router_new_def)
  have enc: "\<forall>r. pk_rendition (demo_encoder r 7) = r" by (simp add: demo_encoder_def)
  obtain encoded ds count where t: "fanout_tick demo_encoder 7 [''sd'', ''hd''] demo_router = ((encoded, ds), count)"
    by (metis surj_pair)
  have "packets_received \<lparr>sink_id = ''hls'', sink_handle = 2\<rparr> ''hd'' (snd (fst (fanout_tick demo_encoder 7 [''sd'', ''hd''] demo_router))) =
     (if \<lparr>sink_id = ''hls'', sink_handle = 2\<rparr> \<in> sinks_of demo_router ''hd'' then 1 else 0)"
    using encode_once_mux_many [OF ok en enc t] by (simp add: t)
  then show ?thesis by (simp add: demo_router_def sinks_of_def register_sink_def router_new_def)
qed

section \<open>Make before break\<close>

text \<open>The crosspoint operations of a migration: warm the new rendition with a keepalive, move the
  consumer, drop the keepalive.\<close>

definition attach_keepalive :: "rendition_id \<Rightarrow> packet_sink \<Rightarrow> packet_router \<Rightarrow> packet_router" where
  "attach_keepalive = register_sink"

definition warm :: "rendition_id \<Rightarrow> packet_sink \<Rightarrow> packet_router \<Rightarrow> packet_router" where
  "warm dst k m = attach_keepalive dst k m"

definition swap :: "string \<Rightarrow> rendition_id \<Rightarrow> rendition_id \<Rightarrow> packet_router \<Rightarrow> packet_router" where
  "swap i src dst m = snd (move_sink i src dst m)"

definition cool :: "rendition_id \<Rightarrow> string \<Rightarrow> packet_router \<Rightarrow> packet_router" where
  "cool dst k m = snd (deregister_sink dst k m)"

text \<open>C10: The cut-over starts no encode and loses no consumer but a namesake. In a router as its operations
  keep it (no idle entries, distinct consumers within a rendition), with another rendition warmed
  by a keepalive whose identifier no sink of that rendition and not the moved consumer has, neither moving
  the consumer nor dropping the keepalive makes any rendition active that was not; afterwards the very
  same sink is registered under the new rendition and no longer under the old one, the keepalive is gone,
  and every other consumer is where it was, except that a sink registered under the new rendition with
  the moved consumer's own identifier is replaced by it.\<close>

theorem swap_starts_no_encode:
  assumes ok: "router_ok m" and s: "s \<in> sinks_of m src" and d: "src \<noteq> dst"
    and k: "\<forall>x\<in>sinks_of m dst. sink_id x \<noteq> sink_id k" and ks: "sink_id k \<noteq> sink_id s"
    and steps: "m1 = warm dst k m" "m2 = swap (sink_id s) src dst m1" "m3 = cool dst (sink_id k) m2"
  shows "{r. sinks_of m2 r \<noteq> {}} \<subseteq> {r. sinks_of m1 r \<noteq> {}} \<and> {r. sinks_of m3 r \<noteq> {}} \<subseteq> {r. sinks_of m2 r \<noteq> {}} \<and>
     sinks_of m3 src = sinks_of m src - {s} \<and>
     sinks_of m3 dst = insert s {x \<in> sinks_of m dst. sink_id x \<noteq> sink_id s} \<and>
     (\<forall>r. r \<noteq> src \<and> r \<noteq> dst \<longrightarrow> sinks_of m3 r = sinks_of m r)"
proof -
  have ok1: "router_ok m1" by (simp add: steps(1) warm_def attach_keepalive_def register_ok [OF ok])
  have m1: "sinks_of m1 r = (if r = dst then insert k (sinks_of m dst) else sinks_of m r)" for r
    using k by (auto simp: steps(1) warm_def attach_keepalive_def sinks_of_register [OF ok])
  have s1: "s \<in> sinks_of m1 src" using s d by (simp add: m1)
  note mv = move_sink_spec [OF ok1 s1 refl d, folded swap_def steps(2)]
  have m2: "sinks_of m2 r = (if r = src then sinks_of m src - {s}
      else if r = dst then insert s (insert k {x \<in> sinks_of m dst. sink_id x \<noteq> sink_id s}) else sinks_of m r)" for r
    using mv(2-4) d ks by (auto simp: m1)
  have m3: "sinks_of m3 r = (if r = dst then {x \<in> sinks_of m2 dst. sink_id x \<noteq> sink_id k} else sinks_of m2 r)" for r
    by (simp add: steps(3) cool_def sinks_of_deregister)
  have m3d: "sinks_of m3 dst = insert s {x \<in> sinks_of m dst. sink_id x \<noteq> sink_id s}" using d k ks by (auto simp: m3 m2)
  show ?thesis
  proof (intro conjI)
    show "{r. sinks_of m2 r \<noteq> {}} \<subseteq> {r. sinks_of m1 r \<noteq> {}}" by (auto simp: m1 m2)
    show "{r. sinks_of m3 r \<noteq> {}} \<subseteq> {r. sinks_of m2 r \<noteq> {}}" by (auto simp: m3)
    show "sinks_of m3 src = sinks_of m src - {s}" using d by (simp add: m3 m2)
    show "sinks_of m3 dst = insert s {x \<in> sinks_of m dst. sink_id x \<noteq> sink_id s}" by (rule m3d)
    show "\<forall>r. r \<noteq> src \<and> r \<noteq> dst \<longrightarrow> sinks_of m3 r = sinks_of m r" by (simp add: m3 m2)
  qed
qed

theorem swap_starts_no_encode_witness:
  "sinks_of (cool ''sd'' ''keep'' (swap ''hls'' ''hd'' ''sd'' (warm ''sd'' \<lparr>sink_id = ''keep'', sink_handle = 9\<rparr> demo_router))) ''hd'' =
     {\<lparr>sink_id = ''rtsp'', sink_handle = 1\<rparr>}"
proof -
  let ?s = "\<lparr>sink_id = ''hls'', sink_handle = 2\<rparr>" and ?k = "\<lparr>sink_id = ''keep'', sink_handle = 9\<rparr>"
  have ok: "router_ok demo_router" by (simp add: demo_router_def register_ok router_ok_new)
  have so: "sinks_of demo_router ''hd'' = {?s, \<lparr>sink_id = ''rtsp'', sink_handle = 1\<rparr>}"
    "sinks_of demo_router ''sd'' = {\<lparr>sink_id = ''ndi'', sink_handle = 3\<rparr>}"
    by (auto simp: demo_router_def sinks_of_def register_sink_def router_new_def)
  show ?thesis
    using swap_starts_no_encode [OF ok, of ?s "''hd''" "''sd''" ?k, OF _ _ _ _ refl refl refl]
    by (auto simp: so)
qed

text \<open>Without the keepalive a move onto a cold rendition does start an encode.\<close>

lemma cold_move_starts_encode:
  assumes "router_ok m" and "s \<in> sinks_of m src" and "src \<noteq> dst" and "sinks_of m dst = {}"
  shows "sinks_of (swap (sink_id s) src dst m) dst \<noteq> {}"
  using move_sink_spec(3) [OF assms(1,2) refl assms(3)] by (simp add: swap_def)

text \<open>A move onto a rendition that already holds another sink of the same identifier silently drops that
  sink.\<close>

lemma move_replaces_namesake:
  assumes "router_ok m" and "s \<in> sinks_of m src" and "src \<noteq> dst" and "x \<in> sinks_of m dst"
    and "sink_id x = sink_id s" and "x \<noteq> s"
  shows "x \<notin> sinks_of (swap (sink_id s) src dst m) dst"
  using move_sink_spec(3) [OF assms(1,2) refl assms(3)] assms(5,6) by (simp add: swap_def)

section \<open>A cut-over inside a tick\<close>

text \<open>The crosspoint's own tick takes the lock once for the snapshot of the active renditions and once for
  every packet, so a swap may fall between two of its packets. Deliveries of a tick whose table changes
  from \<open>m\<close> to \<open>m'\<close> after the first packets:\<close>

definition crosspoint_tick ::
  "encoder \<Rightarrow> nat \<Rightarrow> rendition_id list \<Rightarrow> rendition_id list \<Rightarrow> packet_router \<Rightarrow> packet_router \<Rightarrow> delivery list" where
  "crosspoint_tick enc n before after m m' =
     snd (tick_loop enc n before m) @ snd (tick_loop enc n after m')"

lemma crosspoint_tick_undisturbed:
  "crosspoint_tick enc n before after m m = snd (tick_loop enc n (before @ after) m)"
  by (simp add: crosspoint_tick_def tick_loop_deliveries)

text \<open>A consumer moved between the two packets receives both or neither, depending on the order in which
  the hash map enumerated its keys.\<close>

lemma swap_inside_tick:
  assumes ok: "router_ok m" and enc: "\<forall>r. pk_rendition (enc r n) = r" and s: "s \<in> sinks_of m src" and d: "src \<noteq> dst"
    and free: "sinks_of m dst \<noteq> {}" "s \<notin> sinks_of m dst"
  shows "packets_received s src (crosspoint_tick enc n [src] [dst] m (swap (sink_id s) src dst m)) = 1"
    and "packets_received s dst (crosspoint_tick enc n [src] [dst] m (swap (sink_id s) src dst m)) = 1"
    and "packets_received s src (crosspoint_tick enc n [dst] [src] m (swap (sink_id s) src dst m)) = 0"
    and "packets_received s dst (crosspoint_tick enc n [dst] [src] m (swap (sink_id s) src dst m)) = 0"
proof -
  let ?m = "swap (sink_id s) src dst m"
  have ok': "router_ok ?m" by (simp add: swap_def move_ok [OF ok])
  have sd: "s \<in> sinks_of ?m dst" "s \<notin> sinks_of ?m src"
    using move_sink_spec(2,3) [OF ok s refl d] by (simp_all add: swap_def)
  note r = received_tick [where order = "[src]" and enc = enc and n = n] received_tick [where order = "[dst]" and enc = enc and n = n]
  show "packets_received s src (crosspoint_tick enc n [src] [dst] m ?m) = 1"
    using r(1) [OF ok enc, of s src] r(2) [OF ok' enc, of s src] s d by (simp add: crosspoint_tick_def del: tick_loop.simps)
  show "packets_received s dst (crosspoint_tick enc n [src] [dst] m ?m) = 1"
    using r(1) [OF ok enc, of s dst] r(2) [OF ok' enc, of s dst] sd d by (simp add: crosspoint_tick_def del: tick_loop.simps)
  show "packets_received s src (crosspoint_tick enc n [dst] [src] m ?m) = 0"
    using r(2) [OF ok enc, of s src] r(1) [OF ok' enc, of s src] sd d by (simp add: crosspoint_tick_def del: tick_loop.simps)
  show "packets_received s dst (crosspoint_tick enc n [dst] [src] m ?m) = 0"
    using r(2) [OF ok enc, of s dst] r(1) [OF ok' enc, of s dst] free d by (simp add: crosspoint_tick_def del: tick_loop.simps)
qed

end
