(* ===== verification/Source_Registry.thy ===== *)
theory Source_Registry
  imports Traces "HOL-Library.Multiset"
begin

text \<open>
  The source registry of \<open>multiview-engine/src/registry.rs\<close>: decode once, use many, and a bounded pool
  that tears decodes down. Threads interleave: an event is one critical section or one atomic operation
  of the code, so an acquire that runs its factory is two events (\<open>AcquireHit\<close> missed, then
  \<open>AcquireBuilt\<close>), and a last release is up to four. Stores and decode actors are numbers; what the clients
  hold, the threads between two events and the actors signalled to stop are fields of the state beside
  those of the code. Reserving a slot is a compare-and-swap loop, one event here. The joining of the
  workers on shutdown only waits and is left out.
\<close>

section \<open>Sizes, entries, state\<close>

record requested_size =
  rq_width :: nat
  rq_height :: nat

definition size_supremum :: "requested_size \<Rightarrow> requested_size \<Rightarrow> requested_size" where
  "size_supremum a b = \<lparr>rq_width = max (rq_width a) (rq_width b), rq_height = max (rq_height a) (rq_height b)\<rparr>"

type_synonym source_key = string

record registry_entry =
  se_store :: nat
  se_actor :: "nat option"
  se_refcount :: nat
  se_supremum :: requested_size

definition TEARDOWN_WORKERS :: nat where "TEARDOWN_WORKERS = 2"
definition TEARDOWN_QUEUE_DEPTH :: nat where "TEARDOWN_QUEUE_DEPTH = 32"
definition TEARDOWN_CAPACITY :: nat where "TEARDOWN_CAPACITY = TEARDOWN_QUEUE_DEPTH + TEARDOWN_WORKERS"
definition TEARDOWN_SPAWN_ATTEMPTS :: nat where "TEARDOWN_SPAWN_ATTEMPTS = 64"

record source_registry =
  rg_entries :: "source_key \<Rightarrow> registry_entry option"
  rg_workers :: nat
  rg_sender :: bool
  rg_queue :: "nat list"
  rg_busy :: "nat list"
  rg_pending :: nat
  rg_handles :: "source_key \<Rightarrow> nat list"
  rg_releasing :: "nat list"
  rg_reserved :: "nat list"
  rg_sending :: "(nat \<times> bool) list"
  rg_signalled :: "nat list"
  rg_built :: "nat list"

text \<open>A worker is spawned with up to \<open>TEARDOWN_SPAWN_ATTEMPTS\<close> tries; one that never spawns is missing.\<close>

fun spawn_with_retry :: "nat \<Rightarrow> nat \<Rightarrow> (nat \<Rightarrow> bool) \<Rightarrow> bool" where
  "spawn_with_retry attempt 0 spawns = False"
| "spawn_with_retry attempt (Suc left) spawns = (if spawns attempt then True else spawn_with_retry (Suc attempt) left spawns)"

definition build_teardown_pool :: "(nat \<Rightarrow> nat \<Rightarrow> bool) \<Rightarrow> nat" where
  "build_teardown_pool spawns =
     length (filter (\<lambda>i. spawn_with_retry 0 TEARDOWN_SPAWN_ATTEMPTS (spawns i)) [0..<TEARDOWN_WORKERS])"

definition registry_new :: "(nat \<Rightarrow> nat \<Rightarrow> bool) \<Rightarrow> source_registry" where
  "registry_new spawns =
     \<lparr>rg_entries = (\<lambda>k. None), rg_workers = build_teardown_pool spawns, rg_sender = True, rg_queue = [],
      rg_busy = [], rg_pending = 0, rg_handles = (\<lambda>k. []), rg_releasing = [], rg_reserved = [],
      rg_sending = [], rg_signalled = [], rg_built = []\<rparr>"

section \<open>Acquire\<close>

text \<open>A new reference to an existing entry: bump the count, grow the recorded size, share the store.\<close>

definition bump_entry :: "requested_size \<Rightarrow> registry_entry \<Rightarrow> registry_entry" where
  "bump_entry sz e = e\<lparr>se_refcount := usat_add 64 (se_refcount e) 1, se_supremum := size_supremum (se_supremum e) sz\<rparr>"

definition share_entry :: "source_key \<Rightarrow> requested_size \<Rightarrow> registry_entry \<Rightarrow> source_registry \<Rightarrow> source_registry" where
  "share_entry k sz e g =
     g\<lparr>rg_entries := (rg_entries g)(k \<mapsto> bump_entry sz e), rg_handles := (rg_handles g)(k := se_store e # rg_handles g k)\<rparr>"

definition acquire_hit :: "source_key \<Rightarrow> requested_size \<Rightarrow> source_registry \<Rightarrow> source_registry option" where
  "acquire_hit k sz g =
     (case rg_entries g k of None \<Rightarrow> None | Some e \<Rightarrow> Some (share_entry k sz e g))"

text \<open>An actor that no worker will run: signalled to stop, then detached.\<close>

definition signal_and_detach :: "nat \<Rightarrow> source_registry \<Rightarrow> source_registry" where
  "signal_and_detach a g = g\<lparr>rg_signalled := a # rg_signalled g\<rparr>"

definition acquire_built ::
  "source_key \<Rightarrow> requested_size \<Rightarrow> nat \<Rightarrow> nat option \<Rightarrow> source_registry \<Rightarrow> source_registry" where
  "acquire_built k sz store actor g =
     (let g = g\<lparr>rg_built := (case actor of None \<Rightarrow> rg_built g | Some a \<Rightarrow> a # rg_built g)\<rparr> in
      case rg_entries g k of
        None \<Rightarrow>
          g\<lparr>rg_entries := (rg_entries g)(k \<mapsto> \<lparr>se_store = store, se_actor = actor, se_refcount = 1, se_supremum = sz\<rparr>),
            rg_handles := (rg_handles g)(k := store # rg_handles g k)\<rparr>
      | Some e \<Rightarrow>
          let g' = share_entry k sz e g
          in (case actor of None \<Rightarrow> g' | Some a \<Rightarrow> signal_and_detach a g'))"

section \<open>Release and teardown\<close>

definition release_handle :: "source_key \<Rightarrow> source_registry \<Rightarrow> source_registry" where
  "release_handle k g =
     (let g = g\<lparr>rg_handles := (rg_handles g)(k := tl (rg_handles g k))\<rparr> in
      case rg_entries g k of
        None \<Rightarrow> g
      | Some e \<Rightarrow>
          let n = se_refcount e - 1 in
          if n = 0
          then g\<lparr>rg_entries := (rg_entries g)(k := None),
                 rg_releasing := (case se_actor e of None \<Rightarrow> rg_releasing g | Some a \<Rightarrow> a # rg_releasing g)\<rparr>
          else g\<lparr>rg_entries := (rg_entries g)(k \<mapsto> e\<lparr>se_refcount := n\<rparr>)\<rparr>)"

definition reserve_slot :: "nat \<Rightarrow> nat option" where
  "reserve_slot pending = (if TEARDOWN_CAPACITY \<le> pending then None else Some (pending + 1))"

definition free_slot :: "nat \<Rightarrow> nat" where
  "free_slot pending = (pending + (2 ^ 64 - 1)) mod 2 ^ 64"

definition teardown_reserve :: "nat \<Rightarrow> source_registry \<Rightarrow> source_registry" where
  "teardown_reserve a g =
     (let g = g\<lparr>rg_releasing := remove1 a (rg_releasing g)\<rparr> in
      case reserve_slot (rg_pending g) of
        None \<Rightarrow> signal_and_detach a g
      | Some p \<Rightarrow> g\<lparr>rg_pending := p, rg_reserved := a # rg_reserved g\<rparr>)"

text \<open>Take the sender, or find it gone.\<close>

definition clone_sender :: "nat \<Rightarrow> source_registry \<Rightarrow> source_registry" where
  "clone_sender a g = g\<lparr>rg_reserved := remove1 a (rg_reserved g), rg_sending := (a, rg_sender g) # rg_sending g\<rparr>"

text \<open>The receiver lives in the workers: without any the channel is disconnected.\<close>

definition try_send :: "nat \<times> bool \<Rightarrow> source_registry \<Rightarrow> source_registry" where
  "try_send s g =
     (let g = g\<lparr>rg_sending := remove1 s (rg_sending g)\<rparr> in
      if snd s \<and> 0 < rg_workers g \<and> length (rg_queue g) < TEARDOWN_QUEUE_DEPTH
      then g\<lparr>rg_queue := rg_queue g @ [fst s]\<rparr>
      else (signal_and_detach (fst s) g)\<lparr>rg_pending := free_slot (rg_pending g)\<rparr>)"

text \<open>A worker takes the oldest teardown, signals it first and then runs its blocking shutdown; when that
  returns or panics the slot is freed.\<close>

definition worker_take :: "source_registry \<Rightarrow> source_registry option" where
  "worker_take g =
     (case rg_queue g of
        [] \<Rightarrow> None
      | a # q \<Rightarrow>
          if length (rg_busy g) < rg_workers g
          then Some (signal_and_detach a (g\<lparr>rg_queue := q, rg_busy := a # rg_busy g\<rparr>))
          else None)"

definition worker_done :: "nat \<Rightarrow> source_registry \<Rightarrow> source_registry" where
  "worker_done a g = g\<lparr>rg_busy := remove1 a (rg_busy g), rg_pending := free_slot (rg_pending g)\<rparr>"

definition registry_close :: "source_registry \<Rightarrow> source_registry" where
  "registry_close g = g\<lparr>rg_sender := False\<rparr>"

section \<open>Runs\<close>

datatype registry_event =
  AcquireHit source_key requested_size
| AcquireBuilt source_key requested_size nat "nat option"
| AcquireFailed source_key
| ReleaseHandle source_key
| ReserveSlot nat
| CloneSender nat
| TrySend nat bool
| WorkerTake
| WorkerDone nat
| CloseRegistry

text \<open>An event happens only where the program can be: a handle is released by who holds it, an actor is
  passed on by the thread that has it, and a factory builds a new actor.\<close>

fun registry_step :: "registry_event \<Rightarrow> source_registry \<Rightarrow> source_registry option" where
  "registry_step (AcquireHit k sz) g = acquire_hit k sz g"
| "registry_step (AcquireBuilt k sz store actor) g =
     (if (case actor of None \<Rightarrow> True | Some a \<Rightarrow> a \<notin> set (rg_built g)) then Some (acquire_built k sz store actor g) else None)"
| "registry_step (AcquireFailed k) g = Some g"
| "registry_step (ReleaseHandle k) g = (if rg_handles g k \<noteq> [] then Some (release_handle k g) else None)"
| "registry_step (ReserveSlot a) g = (if a \<in> set (rg_releasing g) then Some (teardown_reserve a g) else None)"
| "registry_step (CloneSender a) g = (if a \<in> set (rg_reserved g) then Some (clone_sender a g) else None)"
| "registry_step (TrySend a b) g = (if (a, b) \<in> set (rg_sending g) then Some (try_send (a, b) g) else None)"
| "registry_step WorkerTake g = worker_take g"
| "registry_step (WorkerDone a) g = (if a \<in> set (rg_busy g) then Some (worker_done a g) else None)"
| "registry_step CloseRegistry g = Some (registry_close g)"

abbreviation registry_run :: "registry_event list \<Rightarrow> source_registry \<Rightarrow> source_registry option" where
  "registry_run \<equiv> guarded_run registry_step"

section \<open>Decode once\<close>

fun share_ok :: "nat \<Rightarrow> nat list \<Rightarrow> registry_entry option \<Rightarrow> bool" where
  "share_ok n hs None \<longleftrightarrow> hs = []"
| "share_ok n hs (Some e) \<longleftrightarrow>
     hs \<noteq> [] \<and> set hs = {se_store e} \<and> length hs \<le> n \<and> se_refcount e = length hs"

definition shares_ok :: "nat \<Rightarrow> source_registry \<Rightarrow> bool" where
  "shares_ok n g \<longleftrightarrow> (\<forall>k. share_ok n (rg_handles g k) (rg_entries g k))"

lemma share_ok_Suc: "share_ok n hs x \<Longrightarrow> share_ok (Suc n) hs x"
  by (cases x) auto

lemma shares_frame:
  "shares_ok n g \<Longrightarrow> rg_entries g' = rg_entries g \<Longrightarrow> rg_handles g' = rg_handles g \<Longrightarrow> shares_ok (Suc n) g'"
  by (simp add: shares_ok_def share_ok_Suc)

lemma shares_upd:
  assumes "shares_ok n g" and "share_ok (Suc n) hs x"
    and "rg_handles g' = (rg_handles g)(k := hs)" and "rg_entries g' = (rg_entries g)(k := x)"
  shows "shares_ok (Suc n) g'"
  using assms by (simp add: shares_ok_def share_ok_Suc)

lemma shares_share:
  assumes "shares_ok n g" and "rg_entries g k = Some e" and "Suc n < 2 ^ 64"
  shows "shares_ok (Suc n) (share_entry k sz e g)"
proof (rule shares_upd [OF assms(1), where k = k and hs = "se_store e # rg_handles g k" and x = "Some (bump_entry sz e)"])
  have "share_ok n (rg_handles g k) (Some e)" using assms(1,2) unfolding shares_ok_def by metis
  then show "share_ok (Suc n) (se_store e # rg_handles g k) (Some (bump_entry sz e))"
    using assms(3) by (simp add: bump_entry_def usat_add_def)
qed (simp_all add: share_entry_def)

lemma tl_same: "set xs = {a} \<Longrightarrow> 1 < length xs \<Longrightarrow> tl xs \<noteq> [] \<and> set (tl xs) = {a}"
  by (cases xs; cases "tl xs") auto

lemma shares_release:
  assumes ok: "shares_ok n g" and h: "rg_handles g k \<noteq> []"
  shows "shares_ok (Suc n) (release_handle k g)"
proof -
  have inv: "share_ok n (rg_handles g k) (rg_entries g k)" using ok by (simp add: shares_ok_def)
  then obtain e where e: "rg_entries g k = Some e" using h by (cases "rg_entries g k") auto
  then have c: "se_refcount e = length (rg_handles g k)" "set (rg_handles g k) = {se_store e}"
    "length (rg_handles g k) \<le> n" using inv by auto
  show ?thesis
  proof (cases "length (rg_handles g k) = 1")
    case True
    then obtain a where hs: "rg_handles g k = [a]" by (auto simp: length_Suc_conv)
    then have "se_refcount e = 1" using c(1) by simp
    then show ?thesis
      by (intro shares_upd [OF ok, where k = k and hs = "[]" and x = None])
        (simp_all add: release_handle_def e hs Let_def)
  next
    case False
    then have l: "1 < length (rg_handles g k)" using h by (cases "rg_handles g k") auto
    then have "share_ok (Suc n) (tl (rg_handles g k)) (Some (e\<lparr>se_refcount := se_refcount e - 1\<rparr>))"
      using c tl_same [OF c(2) l] by simp
    then show ?thesis
      using e c l by (intro shares_upd [OF ok]) (simp_all add: release_handle_def)
  qed
qed

lemma signal_fields [simp]:
  "rg_entries (signal_and_detach a g) = rg_entries g" "rg_handles (signal_and_detach a g) = rg_handles g"
  "rg_queue (signal_and_detach a g) = rg_queue g" "rg_busy (signal_and_detach a g) = rg_busy g"
  "rg_pending (signal_and_detach a g) = rg_pending g" "rg_releasing (signal_and_detach a g) = rg_releasing g"
  "rg_reserved (signal_and_detach a g) = rg_reserved g" "rg_sending (signal_and_detach a g) = rg_sending g"
  "rg_built (signal_and_detach a g) = rg_built g" "rg_workers (signal_and_detach a g) = rg_workers g"
  "rg_sender (signal_and_detach a g) = rg_sender g" "rg_signalled (signal_and_detach a g) = a # rg_signalled g"
  by (simp_all add: signal_and_detach_def)

lemma shares_signal [simp]: "shares_ok n (signal_and_detach a g) = shares_ok n g"
  by (simp add: shares_ok_def)

lemma shares_built:
  assumes "shares_ok n g" and "Suc n < 2 ^ 64"
  shows "shares_ok (Suc n) (acquire_built k sz store actor g)"
proof (cases "rg_entries g k")
  case None
  let ?e = "\<lparr>se_store = store, se_actor = actor, se_refcount = 1, se_supremum = sz\<rparr>"
  have "share_ok n (rg_handles g k) None" using assms(1) None unfolding shares_ok_def by metis
  then show ?thesis
    using None by (intro shares_upd [OF assms(1), where k = k and hs = "[store]" and x = "Some ?e"])
      (simp_all add: acquire_built_def)
next
  case (Some e)
  have "shares_ok n (g\<lparr>rg_built := b\<rparr>)" for b using assms(1) by (simp add: shares_ok_def)
  then have "shares_ok (Suc n) (share_entry k sz e (g\<lparr>rg_built := b\<rparr>))" for b
    using Some by (intro shares_share assms(2)) auto
  moreover have "shares_ok (Suc n) (share_entry k sz e g)" using Some by (intro shares_share assms)
  ultimately show ?thesis using Some by (cases actor) (simp_all add: acquire_built_def Let_def)
qed

lemma shares_step:
  assumes ok: "shares_ok n g" and n: "Suc n < 2 ^ 64" and s: "registry_step e g = Some g'"
  shows "shares_ok (Suc n) g'"
proof (cases e)
  case (AcquireHit k sz)
  then show ?thesis using s shares_share [OF ok _ n] by (auto simp: acquire_hit_def split: option.splits)
next
  case (AcquireBuilt k sz store actor)
  then show ?thesis using s shares_built [OF ok n] by (auto split: if_splits)
next
  case (AcquireFailed k)
  then show ?thesis using s ok by (auto intro: shares_frame)
next
  case (ReleaseHandle k)
  then show ?thesis using s shares_release [OF ok] by (auto split: if_splits)
next
  case (ReserveSlot a)
  then show ?thesis using s by (intro shares_frame [OF ok]) (auto simp: teardown_reserve_def Let_def split: if_splits option.splits)
next
  case (CloneSender a)
  then show ?thesis using s by (intro shares_frame [OF ok]) (auto simp: clone_sender_def split: if_splits)
next
  case (TrySend a b)
  then show ?thesis using s by (intro shares_frame [OF ok]) (auto simp: try_send_def Let_def split: if_splits)
next
  case WorkerTake
  then show ?thesis using s by (intro shares_frame [OF ok]) (auto simp: worker_take_def split: list.splits if_splits)
next
  case (WorkerDone a)
  then show ?thesis using s by (intro shares_frame [OF ok]) (auto simp: worker_done_def split: if_splits)
next
  case CloseRegistry
  then show ?thesis using s by (intro shares_frame [OF ok]) (auto simp: registry_close_def)
qed

interpretation shares: trace_invariant registry_step "\<lambda>n g. n < 2 ^ 64 \<longrightarrow> shares_ok n g"
  by unfold_locales (meson Suc_lessD shares_step)

lemma shares_run:
  assumes "registry_run es (registry_new spawns) = Some g" and "length es < 2 ^ 64"
  shows "shares_ok (length es) g"
  using shares.run_ok [OF assms(1)] assms(2) by (simp add: shares_ok_def registry_new_def)

text \<open>C6: Decode once. However acquires, lost races, failing factories and releases interleave, a source is
  registered exactly while somebody holds a handle to it, and all its handles hold one and the same
  store.\<close>

theorem registry_decodes_once:
  assumes "registry_run es (registry_new spawns) = Some g" and "length es < 2 ^ 64"
  shows "(rg_entries g k = None \<longleftrightarrow> rg_handles g k = []) \<and>
     (\<forall>a\<in>set (rg_handles g k). \<forall>b\<in>set (rg_handles g k). a = b) \<and>
     (\<forall>e. rg_entries g k = Some e \<longrightarrow> se_refcount e = length (rg_handles g k))"
proof -
  have "share_ok (length es) (rg_handles g k) (rg_entries g k)"
    using shares_run [OF assms] by (simp add: shares_ok_def)
  then show ?thesis by (cases "rg_entries g k") auto
qed

theorem registry_decodes_once_witness:
  "\<exists>g. registry_run [AcquireHit ''cam'' \<lparr>rq_width = 640, rq_height = 360\<rparr>] (registry_new (\<lambda>i n. True)) = None \<and>
     registry_run [AcquireBuilt ''cam'' \<lparr>rq_width = 640, rq_height = 360\<rparr> 7 (Some 1),
        AcquireBuilt ''cam'' \<lparr>rq_width = 320, rq_height = 720\<rparr> 8 (Some 2)] (registry_new (\<lambda>i n. True)) = Some g \<and>
     rg_handles g ''cam'' = [7, 7] \<and> rg_signalled g = [2] \<and> rg_entries g ''cam'' \<noteq> None"
proof -
  define es where "es = [AcquireBuilt ''cam'' \<lparr>rq_width = 640, rq_height = 360\<rparr> 7 (Some 1),
        AcquireBuilt ''cam'' \<lparr>rq_width = 320, rq_height = 720\<rparr> 8 (Some 2)]"
  obtain g where g: "registry_run es (registry_new (\<lambda>i n. True)) = Some g" "rg_handles g ''cam'' = [7, 7]" "rg_signalled g = [2]"
    by (simp add: es_def registry_new_def acquire_built_def share_entry_def)
  have "length es < 2 ^ 64" by (simp add: es_def)
  from registry_decodes_once [OF g(1) this, of "''cam''"] g(2) have "rg_entries g ''cam'' \<noteq> None" by simp
  with g show ?thesis by (simp add: es_def registry_new_def acquire_hit_def)
qed

section \<open>A bounded pool\<close>

definition pool_ok :: "source_registry \<Rightarrow> bool" where
  "pool_ok g \<longleftrightarrow>
     rg_pending g = length (rg_reserved g) + length (rg_sending g) + length (rg_queue g) + length (rg_busy g) \<and>
     rg_pending g \<le> TEARDOWN_CAPACITY \<and> length (rg_queue g) \<le> TEARDOWN_QUEUE_DEPTH \<and>
     length (rg_busy g) \<le> rg_workers g \<and> rg_workers g \<le> TEARDOWN_WORKERS"

lemma free_slot_pred: "0 < p \<Longrightarrow> p \<le> TEARDOWN_CAPACITY \<Longrightarrow> free_slot p = p - 1"
  by (cases p) (simp_all add: free_slot_def TEARDOWN_CAPACITY_def TEARDOWN_QUEUE_DEPTH_def TEARDOWN_WORKERS_def)

lemma length_remove1_less: "a \<in> set xs \<Longrightarrow> Suc (length (remove1 a xs)) = length xs"
  by (induction xs) auto

lemma pool_frame:
  "pool_ok g \<Longrightarrow> rg_pending g' = rg_pending g \<Longrightarrow> rg_reserved g' = rg_reserved g \<Longrightarrow> rg_sending g' = rg_sending g \<Longrightarrow>
     rg_queue g' = rg_queue g \<Longrightarrow> rg_busy g' = rg_busy g \<Longrightarrow> rg_workers g' = rg_workers g \<Longrightarrow> pool_ok g'"
  by (simp add: pool_ok_def)

lemma share_entry_frame [simp]:
  "rg_pending (share_entry k sz e g) = rg_pending g" "rg_reserved (share_entry k sz e g) = rg_reserved g"
  "rg_sending (share_entry k sz e g) = rg_sending g" "rg_queue (share_entry k sz e g) = rg_queue g"
  "rg_busy (share_entry k sz e g) = rg_busy g" "rg_workers (share_entry k sz e g) = rg_workers g"
  "rg_releasing (share_entry k sz e g) = rg_releasing g" "rg_signalled (share_entry k sz e g) = rg_signalled g"
  "rg_built (share_entry k sz e g) = rg_built g"
  by (simp_all add: share_entry_def)

lemma pool_send:
  assumes ok: "pool_ok g" and s: "s \<in> set (rg_sending g)"
  shows "pool_ok (try_send s g)"
proof -
  have l: "length (rg_sending g) = Suc (length (remove1 s (rg_sending g)))" using length_remove1_less [OF s] by simp
  then have "free_slot (rg_pending g) = rg_pending g - 1" using ok by (intro free_slot_pred) (auto simp: pool_ok_def)
  then show ?thesis using ok l by (auto simp: pool_ok_def try_send_def Let_def)
qed

lemma pool_step:
  assumes ok: "pool_ok g" and s: "registry_step e g = Some g'"
  shows "pool_ok g'"
proof (cases e)
  case (AcquireHit k sz)
  then show ?thesis using s by (intro pool_frame [OF ok]) (auto simp: acquire_hit_def split: option.splits)
next
  case (AcquireBuilt k sz store actor)
  then show ?thesis using s
    by (intro pool_frame [OF ok]) (auto simp: acquire_built_def Let_def split: if_splits option.splits)
next
  case (AcquireFailed k)
  then show ?thesis using s ok by simp
next
  case (ReleaseHandle k)
  then show ?thesis using s
    by (intro pool_frame [OF ok]) (auto simp: release_handle_def Let_def split: if_splits option.splits)
next
  case (ReserveSlot a)
  then show ?thesis using s ok
    by (auto simp: pool_ok_def teardown_reserve_def reserve_slot_def Let_def split: if_splits)
next
  case (CloneSender a)
  then show ?thesis using s ok length_remove1_less [of a "rg_reserved g"]
    by (auto simp: pool_ok_def clone_sender_def split: if_splits)
next
  case (TrySend a b)
  then show ?thesis using s pool_send [OF ok] by (auto split: if_splits)
next
  case WorkerTake
  then show ?thesis using s ok by (auto simp: pool_ok_def worker_take_def split: list.splits if_splits)
next
  case (WorkerDone a)
  then have a: "a \<in> set (rg_busy g)" and g': "g' = worker_done a g" using s by (auto split: if_splits)
  have "free_slot (rg_pending g) = rg_pending g - 1"
    using ok length_remove1_less [OF a] by (intro free_slot_pred) (auto simp: pool_ok_def)
  then show ?thesis using ok length_remove1_less [OF a] by (auto simp: pool_ok_def worker_done_def g')
next
  case CloseRegistry
  then show ?thesis using s ok by (auto simp: registry_close_def pool_ok_def)
qed

interpretation pool: trace_invariant registry_step "\<lambda>n. pool_ok"
  by unfold_locales (rule pool_step)

lemma pool_run:
  assumes "registry_run es (registry_new spawns) = Some g"
  shows "pool_ok g"
proof (rule pool.run_ok [OF assms])
  have "length (filter P [0..<TEARDOWN_WORKERS]) \<le> TEARDOWN_WORKERS" for P
    using length_filter_le [of P "[0..<TEARDOWN_WORKERS]"] by simp
  then show "pool_ok (registry_new spawns)" by (simp add: pool_ok_def registry_new_def build_teardown_pool_def)
qed

text \<open>C8: The teardown pool is bounded. However many last releases contend, workers wedge or fail to spawn,
  and whenever the registry is closed, the published count is exactly the number of reserved teardowns
  (in a thread's hands, queued, or running), never exceeds 34, and at most 32 are queued and two run.\<close>

theorem teardown_pool_bounded:
  assumes "registry_run es (registry_new spawns) = Some g"
  shows "rg_pending g = length (rg_reserved g) + length (rg_sending g) + length (rg_queue g) + length (rg_busy g) \<and>
     rg_pending g \<le> 34 \<and> length (rg_queue g) \<le> 32 \<and> length (rg_busy g) \<le> 2"
  using pool_run [OF assms] by (simp add: pool_ok_def TEARDOWN_CAPACITY_def TEARDOWN_QUEUE_DEPTH_def TEARDOWN_WORKERS_def)

definition demo_teardown :: "registry_event list" where
  "demo_teardown =
     [AcquireBuilt ''cam'' \<lparr>rq_width = 640, rq_height = 360\<rparr> 7 (Some 1), ReleaseHandle ''cam'', ReserveSlot 1,
      CloneSender 1, CloseRegistry, TrySend 1 True, WorkerTake]"

lemma demo_teardown_run:
  "\<exists>g. registry_run demo_teardown (registry_new (\<lambda>i n. True)) = Some g \<and> rg_busy g = [1] \<and> rg_pending g = 1 \<and>
     rg_releasing g = [] \<and> rg_reserved g = [] \<and> rg_sending g = [] \<and> rg_queue g = [] \<and> rg_built g = [1] \<and>
     rg_signalled g = [1]"
  by (simp add: demo_teardown_def registry_new_def acquire_built_def release_handle_def teardown_reserve_def
      reserve_slot_def clone_sender_def registry_close_def try_send_def worker_take_def signal_and_detach_def Let_def
      TEARDOWN_CAPACITY_def TEARDOWN_QUEUE_DEPTH_def TEARDOWN_WORKERS_def build_teardown_pool_def
      TEARDOWN_SPAWN_ATTEMPTS_def numeral_eq_Suc)

theorem teardown_pool_bounded_witness:
  "\<exists>g. registry_run demo_teardown (registry_new (\<lambda>i n. True)) = Some g \<and> rg_pending g = 1 \<and> rg_pending g \<le> 34"
  using demo_teardown_run teardown_pool_bounded [of demo_teardown "\<lambda>i n. True"] by blast

section \<open>No decode leaks\<close>

definition owner_of :: "source_registry \<Rightarrow> source_key \<Rightarrow> nat option" where
  "owner_of g k = (case rg_entries g k of None \<Rightarrow> None | Some e \<Rightarrow> se_actor e)"

definition limbo :: "source_registry \<Rightarrow> nat list" where
  "limbo g = rg_releasing g @ rg_reserved g @ map fst (rg_sending g) @ rg_queue g @ rg_signalled g"

definition life_ok :: "source_registry \<Rightarrow> bool" where
  "life_ok g \<longleftrightarrow>
     distinct (limbo g) \<and> (\<forall>k a. owner_of g k = Some a \<longrightarrow> a \<notin> set (limbo g)) \<and>
     (\<forall>k k' a. owner_of g k = Some a \<longrightarrow> owner_of g k' = Some a \<longrightarrow> k = k') \<and>
     set (rg_built g) = {a. \<exists>k. owner_of g k = Some a} \<union> set (limbo g)"

lemma life_frame:
  assumes "life_ok g" and "mset (limbo g') = mset (limbo g)" and "owner_of g' = owner_of g" and "rg_built g' = rg_built g"
  shows "life_ok g'"
  using assms mset_eq_imp_distinct_iff [OF assms(2)] mset_eq_setD [OF assms(2)] by (simp add: life_ok_def)

lemma mset_map_remove1: "x \<in> set xs \<Longrightarrow> add_mset (f x) (mset (map f (remove1 x xs))) = mset (map f xs)"
  by (induction xs) auto

lemma owner_share: "rg_entries g k = Some e \<Longrightarrow> owner_of (share_entry k sz e g) = owner_of g"
  by (auto simp: owner_of_def share_entry_def bump_entry_def)

lemma life_hit: "life_ok g \<Longrightarrow> acquire_hit k sz g = Some g' \<Longrightarrow> life_ok g'"
  by (auto simp: acquire_hit_def owner_share limbo_def intro: life_frame split: option.splits)

lemma owner_built: "owner_of (g\<lparr>rg_built := b\<rparr>) = owner_of g"
  by (simp add: owner_of_def fun_eq_iff)

lemma life_add:
  assumes "life_ok g" and "a \<notin> set (rg_built g)" and "set (rg_built g') = insert a (set (rg_built g))"
    and "mset (limbo g') = add_mset a (mset (limbo g))" and "owner_of g' = owner_of g"
  shows "life_ok g'"
proof -
  have "set (limbo g') = insert a (set (limbo g))" using assms(4) by (metis set_mset_add_mset_insert set_mset_mset)
  moreover have "distinct (limbo g') \<longleftrightarrow> distinct (a # limbo g)"
    by (rule mset_eq_imp_distinct_iff) (simp add: assms(4))
  ultimately show ?thesis using assms by (auto simp: life_ok_def)
qed

lemma life_built:
  assumes ok: "life_ok g" and fresh: "case actor of None \<Rightarrow> True | Some a \<Rightarrow> a \<notin> set (rg_built g)"
  shows "life_ok (acquire_built k sz store actor g)"
proof (cases "rg_entries g k")
  case None
  let ?g = "acquire_built k sz store actor g"
  have o: "owner_of ?g = (owner_of g)(k := actor)" and l: "limbo ?g = limbo g"
    using None by (auto simp: acquire_built_def Let_def owner_of_def limbo_def)
  have ok': "owner_of g k = None" using None by (simp add: owner_of_def)
  show ?thesis
  proof (cases actor)
    case None
    then have "owner_of ?g = owner_of g" "rg_built ?g = rg_built g"
      using o ok' \<open>rg_entries g k = None\<close> by (auto simp: acquire_built_def Let_def)
    then show ?thesis using ok l by (auto intro: life_frame)
  next
    case (Some a)
    have b: "set (rg_built ?g) = insert a (set (rg_built g))"
      using Some \<open>rg_entries g k = None\<close> by (simp add: acquire_built_def Let_def)
    have "{x. \<exists>j. ((owner_of g)(k := Some a)) j = Some x} = insert a {x. \<exists>j. owner_of g j = Some x}"
      using ran_map_upd [of "owner_of g" k a, OF ok'] by (simp only: ran_def)
    then show ?thesis using ok fresh b Some ok' unfolding life_ok_def o l by auto
  qed
next
  case (Some e)
  show ?thesis
  proof (cases actor)
    case None
    then show ?thesis using ok Some
      by (intro life_frame [OF ok]) (simp_all add: acquire_built_def Let_def limbo_def owner_share)
  next
    case actor: (Some a)
    have "owner_of (signal_and_detach a (share_entry k sz e (g\<lparr>rg_built := a # rg_built g\<rparr>))) =
        owner_of (share_entry k sz e (g\<lparr>rg_built := a # rg_built g\<rparr>))"
      by (simp add: owner_of_def fun_eq_iff)
    also have "\<dots> = owner_of g" using owner_share [of "g\<lparr>rg_built := a # rg_built g\<rparr>" k e sz] Some by (simp add: owner_built)
    finally show ?thesis
      using Some actor fresh by (intro life_add [OF ok, of a]) (simp_all add: acquire_built_def Let_def limbo_def)
  qed
qed

lemma life_release:
  assumes ok: "life_ok g"
  shows "life_ok (release_handle k g)"
proof (cases "rg_entries g k")
  case None
  then show ?thesis by (intro life_frame [OF ok]) (simp_all add: release_handle_def Let_def limbo_def owner_of_def fun_eq_iff)
next
  case (Some e)
  show ?thesis
  proof (cases "se_refcount e - 1 = 0")
    case False
    then show ?thesis using Some
      by (intro life_frame [OF ok]) (auto simp: release_handle_def Let_def limbo_def owner_of_def fun_eq_iff)
  next
    case True
    have o: "owner_of (release_handle k g) = (owner_of g)(k := None)" and b: "rg_built (release_handle k g) = rg_built g"
      and l: "limbo (release_handle k g) = (case owner_of g k of None \<Rightarrow> limbo g | Some a \<Rightarrow> a # limbo g)"
      using Some True by (auto simp: release_handle_def Let_def limbo_def owner_of_def fun_eq_iff split: option.splits)
    show ?thesis
    proof (cases "owner_of g k")
      case None
      then have "owner_of (release_handle k g) = owner_of g" using o by (simp add: fun_upd_idem_iff)
      then show ?thesis using None l b by (intro life_frame [OF ok]) simp_all
    next
      case (Some a)
      then have "{x. \<exists>j. owner_of g j = Some x} = insert a {x. \<exists>j. ((owner_of g)(k := None)) j = Some x}"
        using ran_map_upd [of "(owner_of g)(k := None)" k a] by (simp add: ran_def fun_upd_idem)
      then show ?thesis using ok Some unfolding life_ok_def o b l by auto
    qed
  qed
qed

lemma owner_frame: "rg_entries g' = rg_entries g \<Longrightarrow> owner_of g' = owner_of g"
  by (simp add: owner_of_def fun_eq_iff)

lemma life_step:
  assumes ok: "life_ok g" and s: "registry_step e g = Some g'"
  shows "life_ok g'"
proof (cases e)
  case (AcquireHit k sz)
  then show ?thesis using s life_hit [OF ok] by simp
next
  case (AcquireBuilt k sz store actor)
  then show ?thesis using s life_built [OF ok] by (auto split: if_splits)
next
  case (AcquireFailed k)
  then show ?thesis using s ok by simp
next
  case (ReleaseHandle k)
  then show ?thesis using s life_release [OF ok] by (auto split: if_splits)
next
  case (ReserveSlot a)
  then have "a \<in> set (rg_releasing g)" "g' = teardown_reserve a g" using s by (auto split: if_splits)
  then show ?thesis
    by (intro life_frame [OF ok] owner_frame)
      (auto simp: teardown_reserve_def Let_def limbo_def dest: mset_map_remove1 [where f = id] split: option.split)
next
  case (CloneSender a)
  then have "a \<in> set (rg_reserved g)" "g' = clone_sender a g" using s by (auto split: if_splits)
  then show ?thesis
    by (intro life_frame [OF ok] owner_frame)
      (auto simp: clone_sender_def Let_def limbo_def dest: mset_map_remove1 [where f = id])
next
  case (TrySend a b)
  then have "(a, b) \<in> set (rg_sending g)" "g' = try_send (a, b) g" using s by (auto split: if_splits)
  then show ?thesis using mset_map_remove1 [of "(a, b)" "rg_sending g" fst]
    by (intro life_frame [OF ok] owner_frame) (auto simp: try_send_def Let_def limbo_def)
next
  case WorkerTake
  then show ?thesis using s
    by (intro life_frame [OF ok] owner_frame) (auto simp: worker_take_def limbo_def split: list.splits if_splits)
next
  case (WorkerDone a)
  then show ?thesis using s
    by (intro life_frame [OF ok] owner_frame) (auto simp: worker_done_def limbo_def split: if_splits)
next
  case CloseRegistry
  then show ?thesis using s by (intro life_frame [OF ok] owner_frame) (auto simp: registry_close_def limbo_def)
qed

interpretation life: trace_invariant registry_step "\<lambda>n. life_ok"
  by unfold_locales (rule life_step)

lemma life_run:
  assumes "registry_run es (registry_new spawns) = Some g"
  shows "life_ok g"
  by (rule life.run_ok [OF assms]) (simp add: life_ok_def registry_new_def limbo_def owner_of_def)

text \<open>C7: No decode is stopped in use and none leaks. In every interleaving, the decode of a registered source
  has not been signalled and no teardown of it is under way; every decode ever built is, in every state,
  registered, on its way to teardown (released, reserved, being sent or queued) or signalled, and only one
  of these, and is signalled at most once; so whenever no teardown is in flight, every decode that is not
  registered has been told to stop.\<close>

theorem no_decode_leaks:
  assumes "registry_run es (registry_new spawns) = Some g"
  shows "(rg_entries g k = Some e \<and> se_actor e = Some a \<longrightarrow> a \<notin> set (limbo g)) \<and>
     distinct (rg_releasing g @ rg_reserved g @ map fst (rg_sending g) @ rg_queue g @ rg_signalled g) \<and>
     (\<forall>b\<in>set (rg_built g). (\<exists>j e'. rg_entries g j = Some e' \<and> se_actor e' = Some b) \<or>
        b \<in> set (rg_releasing g) \<or> b \<in> set (rg_reserved g) \<or> b \<in> fst ` set (rg_sending g) \<or>
        b \<in> set (rg_queue g) \<or> b \<in> set (rg_signalled g)) \<and>
     (rg_releasing g = [] \<and> rg_reserved g = [] \<and> rg_sending g = [] \<and> rg_queue g = [] \<longrightarrow>
        (\<forall>b\<in>set (rg_built g). b \<in> set (rg_signalled g) \<or> (\<exists>j. owner_of g j = Some b)))"
proof -
  have ok: "life_ok g" by (rule life_run [OF assms])
  have "a \<notin> set (limbo g)" if "rg_entries g k = Some e \<and> se_actor e = Some a"
  proof -
    have "owner_of g k = Some a" using that by (simp add: owner_of_def)
    then show ?thesis using ok unfolding life_ok_def by blast
  qed
  moreover have "distinct (limbo g)" using ok unfolding life_ok_def by blast
  moreover have built: "(\<exists>j. owner_of g j = Some b) \<or> b \<in> set (limbo g)" if "b \<in> set (rg_built g)" for b
    using ok that unfolding life_ok_def by blast
  have "\<exists>e'. rg_entries g j = Some e' \<and> se_actor e' = Some b" if "owner_of g j = Some b" for j b
    using that by (auto simp: owner_of_def split: option.splits)
  then have placed: "(\<exists>j e'. rg_entries g j = Some e' \<and> se_actor e' = Some b) \<or>
        b \<in> set (rg_releasing g) \<or> b \<in> set (rg_reserved g) \<or> b \<in> fst ` set (rg_sending g) \<or>
        b \<in> set (rg_queue g) \<or> b \<in> set (rg_signalled g)" if "b \<in> set (rg_built g)" for b
    using built [OF that] by (simp add: limbo_def) blast
  moreover have "b \<in> set (rg_signalled g) \<or> (\<exists>j. owner_of g j = Some b)"
    if "rg_releasing g = [] \<and> rg_reserved g = [] \<and> rg_sending g = [] \<and> rg_queue g = []" "b \<in> set (rg_built g)" for b
    using built [OF that(2)] that(1) by (simp add: limbo_def) blast
  ultimately show ?thesis unfolding limbo_def by blast
qed

theorem no_decode_leaks_witness:
  "\<exists>g. registry_run demo_teardown (registry_new (\<lambda>i n. True)) = Some g \<and>
     (\<forall>b\<in>{1}. b \<in> set (rg_signalled g) \<or> (\<exists>j. owner_of g j = Some b))"
proof -
  obtain g where g: "registry_run demo_teardown (registry_new (\<lambda>i n. True)) = Some g" "rg_releasing g = []"
    "rg_reserved g = []" "rg_sending g = []" "rg_queue g = []" "rg_built g = [1]"
    using demo_teardown_run by blast
  then show ?thesis using no_decode_leaks [OF g(1)] by auto
qed

end
