(* ===== verification/Access_Control.thy ===== *)
theory Access_Control
  imports Traces Key_Trust
begin

text \<open>
  Who may do what on the control plane: roles, scopes and the API-key store of
  \<open>multiview-control/src/auth.rs\<close>, the declared keys of \<open>multiview-config/src/api.rs\<close>, the realtime
  tickets and the live re-authorisation of \<open>multiview-control/src/realtime.rs\<close>, and the error taxonomy of
  \<open>error.rs\<close>. Strings are their bytes. HMAC-SHA256, the JWT validator and the random values are arguments.
  The prose of an error is left out; its constructor and the values it carries are kept.
\<close>

section \<open>Errors\<close>

datatype control_error =
    NotFound rstr rstr | VersionConflict rstr rstr rstr rstr | PreconditionRequired rstr | Validation
  | Conflict | Unauthenticated | Forbidden | EngineBusy | Repository

fun into_problem :: "control_error \<Rightarrow> nat \<times> string" where
  "into_problem (NotFound k i) = (404, ''not-found'')"
| "into_problem (VersionConflict k i e a) = (412, ''version-conflict'')"
| "into_problem (PreconditionRequired k) = (428, ''precondition-required'')"
| "into_problem Validation = (422, ''validation'')"
| "into_problem Conflict = (409, ''conflict'')"
| "into_problem Unauthenticated = (401, ''unauthenticated'')"
| "into_problem Forbidden = (403, ''forbidden'')"
| "into_problem EngineBusy = (503, ''engine-busy'')"
| "into_problem Repository = (500, ''repository'')"

section \<open>Roles and scopes\<close>

datatype role = ReadOnly | Viewer | Operator | Admin
datatype action = Read | Write | Administer

fun can :: "role \<Rightarrow> action \<Rightarrow> bool" where
  "can Admin a = True"
| "can Operator a = (a = Read \<or> a = Write)"
| "can Viewer a = (a = Read)"
| "can ReadOnly a = (a = Read)"

definition require_role :: "role \<Rightarrow> action \<Rightarrow> control_error + unit" where
  "require_role r a = (if can r a then Inr () else Inl Forbidden)"

record authz_scopes =
  az_objects :: "rstr list option"
  az_outputs :: "rstr list option"
  az_domains :: "rstr list option"

record principal =
  pr_key_id :: rstr
  pr_role :: role
  pr_scopes :: authz_scopes

definition scopes_global :: "authz_scopes \<Rightarrow> bool" where
  "scopes_global z \<longleftrightarrow> az_objects z = None \<and> az_outputs z = None \<and> az_domains z = None"

definition no_scopes :: authz_scopes where
  "no_scopes = \<lparr>az_objects = None, az_outputs = None, az_domains = None\<rparr>"

definition local_admin :: principal where
  "local_admin = \<lparr>pr_key_id = str ''local-admin'', pr_role = Admin, pr_scopes = no_scopes\<rparr>"

definition strip_prefix :: "rstr \<Rightarrow> rstr \<Rightarrow> rstr option" where
  "strip_prefix p s = (if take (length p) s = p then Some (drop (length p) s) else None)"

definition PROGRAM_SCOPE_PREFIX :: rstr where
  "PROGRAM_SCOPE_PREFIX = [112, 114, 111, 103, 114, 97, 109, 58]"

fun allowlist_permits :: "rstr list option \<Rightarrow> rstr option \<Rightarrow> bool" where
  "allowlist_permits None i = True"
| "allowlist_permits (Some allowed) (Some i) = list_ex (\<lambda>e. e = i) allowed"
| "allowlist_permits (Some allowed) None = False"

fun output_scope_permits :: "rstr list option \<Rightarrow> rstr \<Rightarrow> bool" where
  "output_scope_permits None i = True"
| "output_scope_permits (Some allowed) i =
     list_ex (\<lambda>e. strip_prefix PROGRAM_SCOPE_PREFIX e = None \<and> e = i) allowed"

fun program_scope_permits :: "rstr list option \<Rightarrow> rstr \<Rightarrow> bool" where
  "program_scope_permits None i = True"
| "program_scope_permits (Some allowed) i =
     list_ex (\<lambda>e. strip_prefix PROGRAM_SCOPE_PREFIX e = Some i) allowed"

datatype authz_scope =
    PublicScope | ObjectScope rstr | OutputScope rstr | ProgramScope rstr
  | DiscoveryScope "rstr option" | ObjectAndOutputScope rstr rstr

fun scope_permits :: "authz_scopes \<Rightarrow> authz_scope \<Rightarrow> bool" where
  "scope_permits z PublicScope = True"
| "scope_permits z (ObjectScope i) = allowlist_permits (az_objects z) (Some i)"
| "scope_permits z (OutputScope i) = output_scope_permits (az_outputs z) i"
| "scope_permits z (ProgramScope i) = program_scope_permits (az_outputs z) i"
| "scope_permits z (DiscoveryScope d) = allowlist_permits (az_domains z) d"
| "scope_permits z (ObjectAndOutputScope ob out) =
     (allowlist_permits (az_objects z) (Some ob) \<and> output_scope_permits (az_outputs z) out)"

definition authorize_scope :: "principal \<Rightarrow> authz_scope \<Rightarrow> control_error + unit" where
  "authorize_scope p s = (if scope_permits (pr_scopes p) s then Inr () else Inl Forbidden)"

definition authorize_object :: "principal \<Rightarrow> rstr \<Rightarrow> control_error + unit" where
  "authorize_object p i = authorize_scope p (ObjectScope i)"

definition authorize_output :: "principal \<Rightarrow> rstr \<Rightarrow> control_error + unit" where
  "authorize_output p i = authorize_scope p (OutputScope i)"

definition require_unscoped_for_whole_system :: "principal \<Rightarrow> control_error + unit" where
  "require_unscoped_for_whole_system p = (if scopes_global (pr_scopes p) then Inr () else Inl Forbidden)"

text \<open>A plain grant never reaches the program namespace, nor a program grant the outputs.\<close>

lemma output_program_disjoint:
  "\<not> (output_scope_permits (Some [e]) i \<and> program_scope_permits (Some [e]) j)"
  by auto

section \<open>The key store\<close>

record key_record =
  kr_digest :: bytes
  kr_principal :: principal

record key_store =
  ks_pepper :: bytes
  ks_keys :: "rstr \<Rightarrow> key_record option"
  ks_generation :: "64 word"

type_synonym hmac = "bytes \<Rightarrow> bytes \<Rightarrow> bytes"

definition key_store_new :: "bytes \<Rightarrow> key_store" where
  "key_store_new pepper = \<lparr>ks_pepper = pepper, ks_keys = Map.empty, ks_generation = 0\<rparr>"

definition digest :: "hmac \<Rightarrow> key_store \<Rightarrow> rstr \<Rightarrow> bytes" where
  "digest mac st secret = mac (ks_pepper st) secret"

definition register :: "hmac \<Rightarrow> rstr \<Rightarrow> rstr \<Rightarrow> principal \<Rightarrow> key_store \<Rightarrow> key_store" where
  "register mac k secret p st =
     st\<lparr>ks_keys := (ks_keys st)(k \<mapsto> \<lparr>kr_digest = digest mac st secret, kr_principal = p\<rparr>)\<rparr>"

fun split_once :: "byte \<Rightarrow> rstr \<Rightarrow> (rstr \<times> rstr) option" where
  "split_once c [] = None"
| "split_once c (b # s) =
     (if b = c then Some ([], s) else (case split_once c s of None \<Rightarrow> None | Some (l, r) \<Rightarrow> Some (b # l, r)))"

definition verify :: "hmac \<Rightarrow> key_store \<Rightarrow> rstr \<Rightarrow> control_error + principal" where
  "verify mac st token =
     (case split_once 46 token of
        None \<Rightarrow> Inl Unauthenticated
      | Some (key_id, secret) \<Rightarrow>
          (case ks_keys st key_id of
             None \<Rightarrow> Inl Unauthenticated
           | Some rec \<Rightarrow>
               if digest mac st secret = kr_digest rec then Inr (kr_principal rec) else Inl Unauthenticated))"

definition principal_for_key :: "key_store \<Rightarrow> rstr \<Rightarrow> principal option" where
  "principal_for_key st k = map_option kr_principal (ks_keys st k)"

definition revoke :: "rstr \<Rightarrow> key_store \<Rightarrow> bool \<times> key_store" where
  "revoke k st =
     (case ks_keys st k of
        None \<Rightarrow> (False, st)
      | Some rec \<Rightarrow> (True, st\<lparr>ks_keys := (ks_keys st)(k := None), ks_generation := ks_generation st + 1\<rparr>))"

definition set_principal :: "rstr \<Rightarrow> principal \<Rightarrow> key_store \<Rightarrow> bool \<times> key_store" where
  "set_principal k p st =
     (case ks_keys st k of
        None \<Rightarrow> (False, st)
      | Some rec \<Rightarrow> (True, st\<lparr>ks_keys := (ks_keys st)(k \<mapsto> rec\<lparr>kr_principal := p\<rparr>), ks_generation := ks_generation st + 1\<rparr>))"

definition BEARER :: rstr where "BEARER = [66, 101, 97, 114, 101, 114, 32]"
definition bearer_lower :: rstr where "bearer_lower = [98, 101, 97, 114, 101, 114, 32]"

definition verify_authorization :: "hmac \<Rightarrow> key_store \<Rightarrow> rstr option \<Rightarrow> control_error + principal" where
  "verify_authorization mac st header =
     (case header of
        None \<Rightarrow> Inl Unauthenticated
      | Some value \<Rightarrow>
          (case (case strip_prefix BEARER value of Some t \<Rightarrow> Some t | None \<Rightarrow> strip_prefix bearer_lower value) of
             None \<Rightarrow> Inl Unauthenticated
           | Some token \<Rightarrow> verify mac st (trim token)))"

section \<open>Bootstrap and declared keys\<close>

definition BOOTSTRAP_ADMIN_KEY_ID :: rstr where "BOOTSTRAP_ADMIN_KEY_ID = [97, 100, 109, 105, 110]"

text \<open>\<open>pepper\<close> and \<open>fresh\<close> are the random values drawn for this run.\<close>

definition provision_admin_keys :: "hmac \<Rightarrow> bytes \<Rightarrow> rstr \<Rightarrow> rstr option \<Rightarrow> key_store \<times> rstr option" where
  "provision_admin_keys mac pepper fresh admin_secret =
     (let (secret, token) = (case admin_secret of
            Some s \<Rightarrow> (s, None)
          | None \<Rightarrow> (fresh, Some (BOOTSTRAP_ADMIN_KEY_ID @ [46] @ fresh)))
      in (register mac BOOTSTRAP_ADMIN_KEY_ID secret
            \<lparr>pr_key_id = BOOTSTRAP_ADMIN_KEY_ID, pr_role = Admin, pr_scopes = no_scopes\<rparr> (key_store_new pepper),
          token))"

datatype api_key_role = KeyReadOnly | KeyViewer | KeyOperator

record api_key_config =
  ak_key_id :: rstr
  ak_secret_env :: rstr
  ak_role :: api_key_role
  ak_scopes :: authz_scopes

fun role_from_config :: "api_key_role \<Rightarrow> role" where
  "role_from_config KeyReadOnly = ReadOnly"
| "role_from_config KeyViewer = Viewer"
| "role_from_config KeyOperator = Operator"

definition principal_from_config :: "api_key_config \<Rightarrow> principal" where
  "principal_from_config key = \<lparr>pr_key_id = ak_key_id key, pr_role = role_from_config (ak_role key), pr_scopes = ak_scopes key\<rparr>"

datatype key_refusal = ReservedKeyId rstr | AlreadyRegistered rstr | NoSecret rstr rstr

text \<open>The store is changed in place: a refusal leaves the keys registered before it.\<close>

fun register_config_api_keys ::
  "hmac \<Rightarrow> (rstr \<Rightarrow> rstr option) \<Rightarrow> api_key_config list \<Rightarrow> key_store \<Rightarrow> (key_refusal + unit) \<times> key_store" where
  "register_config_api_keys mac resolve [] st = (Inr (), st)"
| "register_config_api_keys mac resolve (key # keys) st =
     (if ak_key_id key = BOOTSTRAP_ADMIN_KEY_ID then (Inl (ReservedKeyId (ak_key_id key)), st)
      else if principal_for_key st (ak_key_id key) \<noteq> None then (Inl (AlreadyRegistered (ak_key_id key)), st)
      else (case resolve (ak_secret_env key) of
              None \<Rightarrow> (Inl (NoSecret (ak_key_id key) (ak_secret_env key)), st)
            | Some secret \<Rightarrow>
                if secret = [] then (Inl (NoSecret (ak_key_id key) (ak_secret_env key)), st)
                else register_config_api_keys mac resolve keys
                       (register mac (ak_key_id key) secret (principal_from_config key) st)))"

text \<open>\<open>ApiConfig::validate\<close> and \<open>validate_discovery_domain\<close>.\<close>

datatype key_config_error =
    EmptyKeyId | DuplicateKeyId rstr | EmptySecretEnv rstr | EmptyObjectScope rstr
  | EmptyOutputScope rstr | EmptyProgramScope rstr | BadDomain rstr rstr

definition discovery_domain_ok :: "rstr \<Rightarrow> bool" where
  "discovery_domain_ok d \<longleftrightarrow> d \<noteq> [] \<and> length d \<le> 64 \<and>
     list_all (\<lambda>b. (97 \<le> b \<and> b \<le> 122) \<or> (48 \<le> b \<and> b \<le> 57) \<or> b = 45) d"

definition validate_key :: "rstr list \<Rightarrow> api_key_config \<Rightarrow> key_config_error + unit" where
  "validate_key seen key =
     (if trim (ak_key_id key) = [] then Inl EmptyKeyId
      else if ak_key_id key \<in> set seen then Inl (DuplicateKeyId (ak_key_id key))
      else if trim (ak_secret_env key) = [] then Inl (EmptySecretEnv (ak_key_id key))
      else if (case az_objects (ak_scopes key) of None \<Rightarrow> False | Some l \<Rightarrow> list_ex (\<lambda>e. e = []) l)
      then Inl (EmptyObjectScope (ak_key_id key))
      else (case (case az_outputs (ak_scopes key) of None \<Rightarrow> None
                  | Some l \<Rightarrow> find (\<lambda>e. e = [] \<or> strip_prefix PROGRAM_SCOPE_PREFIX e = Some []) l) of
              Some e \<Rightarrow> Inl (if e = [] then EmptyOutputScope (ak_key_id key) else EmptyProgramScope (ak_key_id key))
            | None \<Rightarrow>
                (case (case az_domains (ak_scopes key) of None \<Rightarrow> None | Some l \<Rightarrow> find (\<lambda>d. \<not> discovery_domain_ok d) l) of
                   Some d \<Rightarrow> Inl (BadDomain (ak_key_id key) d)
                 | None \<Rightarrow> Inr ())))"

fun validate_keys :: "rstr list \<Rightarrow> api_key_config list \<Rightarrow> key_config_error + unit" where
  "validate_keys seen [] = Inr ()"
| "validate_keys seen (key # keys) =
     (case validate_key seen key of
        Inl e \<Rightarrow> Inl e
      | Inr u \<Rightarrow> validate_keys (ak_key_id key # seen) keys)"

section \<open>Realtime tickets\<close>

text \<open>Instants are nanoseconds; \<open>add\<close> is the platform's \<open>Instant::checked_add\<close>.\<close>

definition WS_TICKET_TTL :: nat where "WS_TICKET_TTL = 30 * 1000000000"
definition WS_TICKET_CAPACITY :: nat where "WS_TICKET_CAPACITY = 4096"

type_synonym grant = "principal \<times> 64 word option"

record ticket_record =
  tk_grant :: grant
  tk_expires_at :: nat

record ticket_store =
  ts_tickets :: "rstr \<Rightarrow> ticket_record option"
  ts_order :: "rstr list"

definition tickets_new :: ticket_store where "tickets_new = \<lparr>ts_tickets = Map.empty, ts_order = []\<rparr>"

fun sweep_expired :: "nat \<Rightarrow> rstr list \<Rightarrow> (rstr \<Rightarrow> ticket_record option) \<Rightarrow> ticket_store" where
  "sweep_expired now [] m = \<lparr>ts_tickets = m, ts_order = []\<rparr>"
| "sweep_expired now (front # order) m =
     (if (case m front of Some rec \<Rightarrow> tk_expires_at rec \<le> now | None \<Rightarrow> True)
      then sweep_expired now order (m(front := None))
      else \<lparr>ts_tickets = m, ts_order = front # order\<rparr>)"

fun drop_oldest :: "rstr list \<Rightarrow> (rstr \<Rightarrow> ticket_record option) \<Rightarrow> ticket_store" where
  "drop_oldest [] m = \<lparr>ts_tickets = m, ts_order = []\<rparr>"
| "drop_oldest (old # order) m =
     (if WS_TICKET_CAPACITY \<le> length (old # order) then drop_oldest order (m(old := None))
      else \<lparr>ts_tickets = m, ts_order = old # order\<rparr>)"

definition mint_at ::
  "(nat \<Rightarrow> nat \<Rightarrow> nat option) \<Rightarrow> rstr \<Rightarrow> grant \<Rightarrow> nat \<Rightarrow> ticket_store \<Rightarrow> ticket_store" where
  "mint_at add token g now ts =
     (let ts1 = sweep_expired now (ts_order ts) (ts_tickets ts);
          ts2 = drop_oldest (ts_order ts1) (ts_tickets ts1);
          expires = (case add now WS_TICKET_TTL of Some t \<Rightarrow> t | None \<Rightarrow> now)
      in \<lparr>ts_tickets = (ts_tickets ts2)(token \<mapsto> \<lparr>tk_grant = g, tk_expires_at = expires\<rparr>),
          ts_order = ts_order ts2 @ [token]\<rparr>)"

definition consume_at :: "rstr \<Rightarrow> nat \<Rightarrow> ticket_store \<Rightarrow> grant option \<times> ticket_store" where
  "consume_at token now ts =
     (case ts_tickets ts token of
        None \<Rightarrow> (None, ts)
      | Some rec \<Rightarrow>
          (if tk_expires_at rec \<le> now then None else Some (tk_grant rec),
           ts\<lparr>ts_tickets := (ts_tickets ts)(token := None)\<rparr>))"

section \<open>Realtime sessions\<close>

record live_authz =
  la_key_id :: rstr
  la_role :: role
  la_generation :: "64 word"

record session_stream =
  ss_scopes :: authz_scopes
  ss_live :: "live_authz option"
  ss_next_seq :: "64 word"
  ss_resume_after :: "64 word option"
  ss_watermark :: "64 word option"

text \<open>
  Authentication of a realtime connection. \<open>baseline\<close> is the generation the caller loaded before the key
  lookup; \<open>jwt\<close> is the configured JWT validator on the header.
\<close>

definition resolve_principal ::
  "hmac \<Rightarrow> bool \<Rightarrow> (rstr option \<Rightarrow> (control_error + principal) option) \<Rightarrow> key_store \<Rightarrow> 64 word \<Rightarrow> rstr option \<Rightarrow>
   rstr option \<Rightarrow> nat \<Rightarrow> ticket_store \<Rightarrow> (control_error + grant) \<times> ticket_store" where
  "resolve_principal mac auth_disabled jwt st baseline header ticket now ts =
     (if auth_disabled then (Inr (local_admin, None), ts)
      else (case verify_authorization mac st header of
              Inr p \<Rightarrow> (Inr (p, Some baseline), ts)
            | Inl e \<Rightarrow>
                (case jwt header of
                   Some (Inr p) \<Rightarrow> (Inr (p, None), ts)
                 | _ \<Rightarrow>
                     (case ticket of
                        None \<Rightarrow> (Inl Unauthenticated, ts)
                      | Some token \<Rightarrow>
                          (case consume_at token now ts of
                             (Some g, ts') \<Rightarrow> (Inr g, ts')
                           | (None, ts') \<Rightarrow> (Inl Unauthenticated, ts'))))))"

definition install_live_reauth :: "grant \<Rightarrow> session_stream \<Rightarrow> session_stream" where
  "install_live_reauth g s =
     s\<lparr>ss_scopes := pr_scopes (fst g),
       ss_live := (case snd g of
          Some b \<Rightarrow> Some \<lparr>la_key_id = pr_key_id (fst g), la_role = pr_role (fst g), la_generation = b\<rparr>
        | None \<Rightarrow> ss_live s)\<rparr>"

definition session_new :: "64 word option \<Rightarrow> 64 word option \<Rightarrow> session_stream" where
  "session_new resume watermark =
     \<lparr>ss_scopes = no_scopes, ss_live = None, ss_next_seq = 0, ss_resume_after = resume, ss_watermark = watermark\<rparr>"

datatype reauth_outcome = AuthUnchanged | AuthScopeChanged | AuthDisconnect

text \<open>\<open>reauthorize\<close> in its two halves: the load of the generation, and the lookup under the read lock.\<close>

definition reauth_load :: "key_store \<Rightarrow> session_stream \<Rightarrow> 64 word option" where
  "reauth_load st s =
     (case ss_live s of
        None \<Rightarrow> None
      | Some live \<Rightarrow> if ks_generation st = la_generation live then None else Some (ks_generation st))"

definition reauth_resolve :: "key_store \<Rightarrow> 64 word \<Rightarrow> session_stream \<Rightarrow> reauth_outcome \<times> session_stream" where
  "reauth_resolve st current_gen s =
     (case ss_live s of
        None \<Rightarrow> (AuthUnchanged, s)
      | Some live0 \<Rightarrow>
          (let live = live0\<lparr>la_generation := current_gen\<rparr>
           in case principal_for_key st (la_key_id live0) of
                Some p \<Rightarrow>
                  if can (pr_role p) Read then
                    (if ss_scopes s \<noteq> pr_scopes p
                     then (AuthScopeChanged, s\<lparr>ss_live := Some (live\<lparr>la_role := pr_role p\<rparr>), ss_scopes := pr_scopes p\<rparr>)
                     else (AuthUnchanged, s\<lparr>ss_live := Some (live\<lparr>la_role := pr_role p\<rparr>)\<rparr>))
                  else (AuthDisconnect, s\<lparr>ss_live := Some live\<rparr>)
              | None \<Rightarrow> (AuthDisconnect, s\<lparr>ss_live := Some live\<rparr>)))"

definition reauthorize :: "key_store \<Rightarrow> session_stream \<Rightarrow> reauth_outcome \<times> session_stream" where
  "reauthorize st s = (case reauth_load st s of None \<Rightarrow> (AuthUnchanged, s) | Some g \<Rightarrow> reauth_resolve st g s)"

text \<open>What \<open>frame_for\<close> asks of an event: its sequence number, its classification and its scope.\<close>

record session_event =
  ev_seq :: "64 word"
  ev_high_rate :: bool
  ev_conflated :: bool
  ev_snapshot_backed :: bool
  ev_scope :: authz_scope

definition issue_seq :: "session_stream \<Rightarrow> 64 word \<times> session_stream" where
  "issue_seq s =
     (ss_next_seq s,
      s\<lparr>ss_next_seq := (if ss_next_seq s = 0xFFFFFFFFFFFFFFFF then 0xFFFFFFFFFFFFFFFF else ss_next_seq s + 1)\<rparr>)"

definition frame_for :: "session_event \<Rightarrow> session_stream \<Rightarrow> 64 word option \<times> session_stream" where
  "frame_for ev s =
     (if (case ss_resume_after s of None \<Rightarrow> False
          | Some after \<Rightarrow> ev_seq ev \<le> after \<or> ev_high_rate ev \<or> ev_conflated ev) then (None, s)
      else if (case ss_watermark s of None \<Rightarrow> False | Some w \<Rightarrow> ev_seq ev \<le> w \<and> ev_snapshot_backed ev) then (None, s)
      else if \<not> scope_permits (ss_scopes s) (ev_scope ev) then (None, s)
      else (case issue_seq s of (q, s') \<Rightarrow> (Some q, s')))"

section \<open>Connections and key changes, interleaved\<close>

text \<open>
  A connection loads the generation, authenticates (perhaps into a ticket another connection redeems),
  installs its session, and then re-authorises again and again; between any two of these an
  administrator may revoke or re-scope a key. A key is re-scoped under its own id.
\<close>

record auth_world =
  aw_store :: key_store
  aw_tickets :: ticket_store
  aw_sampled :: "nat \<Rightarrow> 64 word option"
  aw_granted :: "nat \<Rightarrow> grant option"
  aw_sessions :: "nat \<Rightarrow> session_stream option"
  aw_loaded :: "nat \<Rightarrow> 64 word option"

datatype auth_event =
    RevokeKey rstr | RescopeKey rstr principal
  | SampleGeneration nat | Authenticate nat "rstr option" "rstr option" nat
  | MintTicket nat rstr nat | InstallSession nat "64 word"
  | LoadGeneration nat | ResolveKey nat

fun auth_step ::
  "hmac \<Rightarrow> (rstr option \<Rightarrow> (control_error + principal) option) \<Rightarrow> (nat \<Rightarrow> nat \<Rightarrow> nat option) \<Rightarrow>
   auth_event \<Rightarrow> auth_world \<Rightarrow> auth_world option" where
  "auth_step mac jwt add (RevokeKey k) w = Some (w\<lparr>aw_store := snd (revoke k (aw_store w))\<rparr>)"
| "auth_step mac jwt add (RescopeKey k p) w =
     (if pr_key_id p = k then Some (w\<lparr>aw_store := snd (set_principal k p (aw_store w))\<rparr>) else None)"
| "auth_step mac jwt add (SampleGeneration i) w =
     (if aw_sampled w i = None \<and> aw_granted w i = None \<and> aw_sessions w i = None
      then Some (w\<lparr>aw_sampled := (aw_sampled w)(i \<mapsto> ks_generation (aw_store w))\<rparr>) else None)"
| "auth_step mac jwt add (Authenticate i header ticket now) w =
     (case aw_sampled w i of
        None \<Rightarrow> None
      | Some baseline \<Rightarrow>
          (case resolve_principal mac False jwt (aw_store w) baseline header ticket now (aw_tickets w) of
             (Inr g, ts) \<Rightarrow>
               Some (w\<lparr>aw_tickets := ts, aw_sampled := (aw_sampled w)(i := None), aw_granted := (aw_granted w)(i \<mapsto> g)\<rparr>)
           | (Inl e, ts) \<Rightarrow> Some (w\<lparr>aw_tickets := ts, aw_sampled := (aw_sampled w)(i := None)\<rparr>)))"
| "auth_step mac jwt add (MintTicket i token now) w =
     (case aw_granted w i of
        None \<Rightarrow> None
      | Some g \<Rightarrow> Some (w\<lparr>aw_tickets := mint_at add token g now (aw_tickets w), aw_granted := (aw_granted w)(i := None)\<rparr>))"
| "auth_step mac jwt add (InstallSession i watermark) w =
     (case aw_granted w i of
        None \<Rightarrow> None
      | Some g \<Rightarrow> Some (w\<lparr>aw_granted := (aw_granted w)(i := None),
                        aw_sessions := (aw_sessions w)(i \<mapsto> install_live_reauth g (session_new None (Some watermark)))\<rparr>))"
| "auth_step mac jwt add (LoadGeneration i) w =
     (case aw_sessions w i of
        None \<Rightarrow> None
      | Some s \<Rightarrow> if aw_loaded w i \<noteq> None then None
                  else Some (w\<lparr>aw_loaded := (aw_loaded w)(i := reauth_load (aw_store w) s)\<rparr>))"
| "auth_step mac jwt add (ResolveKey i) w =
     (case aw_sessions w i of
        None \<Rightarrow> None
      | Some s \<Rightarrow>
          (case aw_loaded w i of
             None \<Rightarrow> None
           | Some g \<Rightarrow>
               (case reauth_resolve (aw_store w) g s of
                  (out, s') \<Rightarrow>
                    Some (w\<lparr>aw_loaded := (aw_loaded w)(i := None),
                            aw_sessions := (aw_sessions w)(i := if out = AuthDisconnect then None else Some s')\<rparr>))))"

definition auth_world_new :: "key_store \<Rightarrow> auth_world" where
  "auth_world_new st =
     \<lparr>aw_store = st, aw_tickets = tickets_new, aw_sampled = Map.empty, aw_granted = Map.empty,
      aw_sessions = Map.empty, aw_loaded = Map.empty\<rparr>"

section \<open>Only the bootstrap key is an administrator\<close>

lemma declared_not_admin [simp]: "pr_role (principal_from_config key) \<noteq> Admin"
  by (cases "ak_role key") (simp_all add: principal_from_config_def)

lemma register_config_step:
  "register_config_api_keys mac resolve (key # keys) st = (out, st') \<Longrightarrow>
     (st' = st \<and> out \<noteq> Inr ()) \<or>
     (\<exists>secret. ak_key_id key \<noteq> BOOTSTRAP_ADMIN_KEY_ID \<and> principal_for_key st (ak_key_id key) = None \<and>
        resolve (ak_secret_env key) = Some secret \<and> secret \<noteq> [] \<and>
        register_config_api_keys mac resolve keys (register mac (ak_key_id key) secret (principal_from_config key) st) = (out, st'))"
  by (auto split: if_splits option.splits)

lemma register_config_keeps:
  assumes "register_config_api_keys mac resolve keys st = (out, st')" and "ks_keys st k = Some rec"
  shows "ks_keys st' k = Some rec"
  using assms
proof (induction keys arbitrary: st)
  case (Cons key keys)
  from register_config_step [OF Cons.prems(1)] show ?case
  proof (elim disjE exE conjE)
    fix secret
    assume "principal_for_key st (ak_key_id key) = None"
      and r: "register_config_api_keys mac resolve keys (register mac (ak_key_id key) secret (principal_from_config key) st) = (out, st')"
    then have "k \<noteq> ak_key_id key" using Cons.prems(2) by (auto simp: principal_for_key_def)
    then show ?case by (intro Cons.IH [OF r]) (simp add: register_def Cons.prems(2))
  qed (use Cons.prems in simp)
qed simp

lemma register_config_pepper:
  "ks_pepper (snd (register_config_api_keys mac resolve keys st)) = ks_pepper st \<and>
   ks_generation (snd (register_config_api_keys mac resolve keys st)) = ks_generation st"
  by (induction mac resolve keys st rule: register_config_api_keys.induct)
     (auto simp: register_def split: option.splits)

definition own_id :: "key_store \<Rightarrow> bool" where
  "own_id st \<longleftrightarrow> (\<forall>k rec. ks_keys st k = Some rec \<longrightarrow> pr_key_id (kr_principal rec) = k)"

lemma register_config_new:
  assumes "register_config_api_keys mac resolve keys st = (out, st')" and "ks_keys st' k = Some rec" and "ks_keys st k \<noteq> Some rec"
  shows "pr_role (kr_principal rec) \<noteq> Admin \<and> k \<noteq> BOOTSTRAP_ADMIN_KEY_ID \<and> pr_key_id (kr_principal rec) = k"
  using assms
proof (induction keys arbitrary: st)
  case (Cons key keys)
  from register_config_step [OF Cons.prems(1)] show ?case
  proof (elim disjE exE conjE)
    fix secret
    let ?st = "register mac (ak_key_id key) secret (principal_from_config key) st"
    assume n: "ak_key_id key \<noteq> BOOTSTRAP_ADMIN_KEY_ID"
      and r: "register_config_api_keys mac resolve keys ?st = (out, st')"
    show ?case
    proof (cases "ks_keys ?st k = Some rec")
      case True
      then have "k = ak_key_id key" "kr_principal rec = principal_from_config key"
        using Cons.prems(3) by (auto simp: register_def split: if_splits)
      moreover have "pr_key_id (principal_from_config key) = ak_key_id key" by (simp add: principal_from_config_def)
      ultimately show ?thesis using n by simp
    qed (rule Cons.IH [OF r Cons.prems(2)])
  qed (use Cons.prems in simp)
qed simp

lemma own_id_daemon: "own_id (snd (register_config_api_keys mac resolve keys (fst (provision_admin_keys mac pepper fresh sec))))"
proof (unfold own_id_def, intro allI impI)
  fix k rec
  let ?st = "fst (provision_admin_keys mac pepper fresh sec)"
  note new = register_config_new [OF prod.collapse [symmetric], of mac resolve keys ?st k rec]
  assume a: "ks_keys (snd (register_config_api_keys mac resolve keys ?st)) k = Some rec"
  show "pr_key_id (kr_principal rec) = k"
  proof (cases "ks_keys ?st k = Some rec")
    case True
    then show ?thesis
      by (auto simp: provision_admin_keys_def register_def key_store_new_def split: if_splits option.splits)
  next
    case False
    then show ?thesis using new a by blast
  qed
qed

text \<open>C20: Declared keys never gain the administrator's rights. However the configuration declares its keys and
  whichever is refused, a request that authenticates with the administrator role presented the
  bootstrap key's id and a secret with the bootstrap secret's digest.\<close>

theorem only_bootstrap_is_admin:
  assumes "verify_authorization mac (snd (register_config_api_keys mac resolve keys (fst (provision_admin_keys mac pepper fresh sec)))) header = Inr p"
    and "pr_role p = Admin"
  shows "\<exists>value token secret. header = Some value \<and> (value = BEARER @ token \<or> value = bearer_lower @ token) \<and>
     split_once 46 (trim token) = Some (BOOTSTRAP_ADMIN_KEY_ID, secret) \<and>
     mac pepper secret = mac pepper (case sec of Some s \<Rightarrow> s | None \<Rightarrow> fresh)"
proof -
  let ?boot = "fst (provision_admin_keys mac pepper fresh sec)"
  let ?st = "snd (register_config_api_keys mac resolve keys ?boot)"
  have pre: "v = q @ t" if "strip_prefix q v = Some t" for q v t
    using that append_take_drop_id [of "length q" v] unfolding strip_prefix_def by (metis option.distinct(1) option.inject)
  from assms(1) obtain hv token where hv: "header = Some hv"
    "strip_prefix BEARER hv = Some token \<or> strip_prefix bearer_lower hv = Some token" and v: "verify mac ?st (trim token) = Inr p"
    by (auto simp: verify_authorization_def split: option.splits)
  then have h: "header = Some hv" "hv = BEARER @ token \<or> hv = bearer_lower @ token" using pre by blast+
  from v obtain k secret rec where k: "split_once 46 (trim token) = Some (k, secret)" "ks_keys ?st k = Some rec"
    "digest mac ?st secret = kr_digest rec" "kr_principal rec = p"
    by (auto simp: verify_def split: option.splits prod.splits if_splits)
  have old: "ks_keys ?boot k = Some rec"
    using register_config_new [OF prod.collapse [symmetric], of mac resolve keys ?boot k rec] k(2,4) assms(2) by blast
  have "digest mac ?st secret = mac pepper secret"
    using register_config_pepper [of mac resolve keys ?boot]
    by (auto simp: digest_def provision_admin_keys_def register_def key_store_new_def split: option.splits)
  moreover have "k = BOOTSTRAP_ADMIN_KEY_ID \<and> kr_digest rec = mac pepper (case sec of Some s \<Rightarrow> s | None \<Rightarrow> fresh)"
    using old by (auto simp: provision_admin_keys_def register_def key_store_new_def digest_def split: if_splits option.splits)
  ultimately show ?thesis using h k(1,3) by auto
qed

section \<open>Sessions follow the store\<close>

definition grant_fresh :: "key_store \<Rightarrow> grant \<Rightarrow> bool" where
  "grant_fresh st g \<longleftrightarrow> (\<forall>b. snd g = Some b \<longrightarrow> b \<le> ks_generation st \<and>
     (b = ks_generation st \<longrightarrow> principal_for_key st (pr_key_id (fst g)) = Some (fst g)))"

definition session_fresh :: "key_store \<Rightarrow> session_stream \<Rightarrow> bool" where
  "session_fresh st s \<longleftrightarrow> (\<forall>l. ss_live s = Some l \<longrightarrow> la_generation l \<le> ks_generation st \<and>
     (la_generation l = ks_generation st \<longrightarrow>
        (\<exists>p. principal_for_key st (la_key_id l) = Some p \<and> pr_role p = la_role l \<and> pr_scopes p = ss_scopes s)))"

definition auth_ok :: "nat \<Rightarrow> auth_world \<Rightarrow> bool" where
  "auth_ok n w \<longleftrightarrow> unat (ks_generation (aw_store w)) \<le> n \<and> own_id (aw_store w) \<and>
     (\<forall>i g. aw_sampled w i = Some g \<longrightarrow> g \<le> ks_generation (aw_store w)) \<and>
     (\<forall>i g. aw_loaded w i = Some g \<longrightarrow> g \<le> ks_generation (aw_store w)) \<and>
     (\<forall>i g. aw_granted w i = Some g \<longrightarrow> grant_fresh (aw_store w) g) \<and>
     (\<forall>t r. ts_tickets (aw_tickets w) t = Some r \<longrightarrow> grant_fresh (aw_store w) (tk_grant r)) \<and>
     (\<forall>i s. aw_sessions w i = Some s \<longrightarrow> session_fresh (aw_store w) s)"

lemma bump:
  fixes b g :: "64 word"
  assumes "b \<le> g" and "unat g \<le> n" and "Suc n < 2 ^ 64"
  shows "b \<le> g + 1" and "b \<noteq> g + 1" and "unat (g + 1) \<le> Suc n"
proof -
  have "unat (g + 1) = unat g + 1" using assms(2,3) by (simp add: unat_word_ariths)
  then show "b \<le> g + 1" "b \<noteq> g + 1" "unat (g + 1) \<le> Suc n" using assms by (auto simp: word_le_nat_alt)
qed

lemma grant_fresh_bump:
  assumes "grant_fresh st g" and "ks_generation st' = ks_generation st + 1"
    and "unat (ks_generation st) \<le> n" and "Suc n < 2 ^ 64"
  shows "grant_fresh st' g"
  using assms bump [OF _ assms(3,4)] by (auto simp: grant_fresh_def)

lemma session_fresh_bump:
  assumes "session_fresh st s" and "ks_generation st' = ks_generation st + 1"
    and "unat (ks_generation st) \<le> n" and "Suc n < 2 ^ 64"
  shows "session_fresh st' s"
  using assms bump [OF _ assms(3,4)] by (auto simp: session_fresh_def)

lemma auth_ok_store:
  assumes ok: "auth_ok n w" and "Suc n < 2 ^ 64" and "own_id st'"
    and "st' = aw_store w \<or> ks_generation st' = ks_generation (aw_store w) + 1"
  shows "auth_ok (Suc n) (w\<lparr>aw_store := st'\<rparr>)"
proof (cases "st' = aw_store w")
  case True
  then show ?thesis using ok by (auto simp: auth_ok_def)
next
  case False
  then have g: "ks_generation st' = ks_generation (aw_store w) + 1" using assms(4) by blast
  have u: "unat (ks_generation (aw_store w)) \<le> n" using ok by (simp add: auth_ok_def)
  show ?thesis
    using ok g assms(3) bump [OF _ u assms(2)] grant_fresh_bump [OF _ g u assms(2)] session_fresh_bump [OF _ g u assms(2)]
    unfolding auth_ok_def by auto
qed

lemma sweep_expired_sub: "ts_tickets (sweep_expired now order m) t = Some r \<Longrightarrow> m t = Some r"
  by (induction now order m rule: sweep_expired.induct) (auto split: if_splits option.splits)

lemma drop_oldest_sub: "ts_tickets (drop_oldest order m) t = Some r \<Longrightarrow> m t = Some r"
  by (induction order m rule: drop_oldest.induct) (auto split: if_splits)

lemma mint_tickets:
  "ts_tickets (mint_at add token g now ts) t = Some r \<Longrightarrow>
     (t = token \<and> tk_grant r = g \<and> tk_expires_at r = (case add now WS_TICKET_TTL of Some t \<Rightarrow> t | None \<Rightarrow> now)) \<or>
     (t \<noteq> token \<and> ts_tickets ts t = Some r)"
  by (auto simp: mint_at_def Let_def dest!: drop_oldest_sub sweep_expired_sub split: if_splits)

lemma consume_tickets:
  assumes "consume_at token now ts = (out, ts')"
  shows "\<And>t r. ts_tickets ts' t = Some r \<Longrightarrow> t \<noteq> token \<and> ts_tickets ts t = Some r"
    and "\<And>g. out = Some g \<Longrightarrow> \<exists>r. ts_tickets ts token = Some r \<and> tk_grant r = g \<and> now < tk_expires_at r"
  using assms by (auto simp: consume_at_def split: option.splits if_splits)

lemma verify_grant:
  assumes "own_id st" and "verify_authorization mac st header = Inr p"
  shows "principal_for_key st (pr_key_id p) = Some p"
  using assms
  by (auto simp: verify_authorization_def verify_def principal_for_key_def own_id_def
      split: option.splits prod.splits if_splits)

lemma resolve_grant:
  assumes "resolve_principal mac False jwt st baseline header ticket now ts = (out, ts')"
    and "own_id st" and "baseline \<le> ks_generation st"
    and "\<And>t r. ts_tickets ts t = Some r \<Longrightarrow> grant_fresh st (tk_grant r)"
  shows "ts_tickets ts' t = Some r \<Longrightarrow> grant_fresh st (tk_grant r)" and "out = Inr g \<Longrightarrow> grant_fresh st g"
proof -
  have "(\<forall>t r. ts_tickets ts' t = Some r \<longrightarrow> grant_fresh st (tk_grant r)) \<and> (\<forall>g. out = Inr g \<longrightarrow> grant_fresh st g)"
  proof (cases "verify_authorization mac st header")
    case (Inr p)
    then show ?thesis using assms verify_grant [OF assms(2) Inr]
      by (auto simp: resolve_principal_def grant_fresh_def)
  next
    case (Inl e)
    show ?thesis
    proof (cases "\<exists>p. jwt header = Some (Inr p)")
      case True
      then show ?thesis using Inl assms(1,4) by (auto simp: resolve_principal_def grant_fresh_def)
    next
      case False
      then have "(out, ts') = (case ticket of None \<Rightarrow> (Inl Unauthenticated, ts)
          | Some token \<Rightarrow> (case consume_at token now ts of (Some g, ts') \<Rightarrow> (Inr g, ts') | (None, ts') \<Rightarrow> (Inl Unauthenticated, ts')))"
        using Inl assms(1) by (auto simp: resolve_principal_def split: option.splits sum.splits)
      moreover have "(\<forall>t r. ts_tickets ts1 t = Some r \<longrightarrow> grant_fresh st (tk_grant r)) \<and> (\<forall>g. o1 = Some g \<longrightarrow> grant_fresh st g)"
        if "consume_at token now ts = (o1, ts1)" for token o1 ts1
        using consume_tickets [OF that] assms(4) by metis
      ultimately show ?thesis using assms(4) by (auto split: option.splits prod.splits)
    qed
  qed
  then show "ts_tickets ts' t = Some r \<Longrightarrow> grant_fresh st (tk_grant r)" "out = Inr g \<Longrightarrow> grant_fresh st g" by blast+
qed

lemma can_read [simp]: "can r Read"
  by (cases r) auto

lemma install_fresh: "grant_fresh st g \<Longrightarrow> session_fresh st (install_live_reauth g (session_new None (Some watermark)))"
  by (auto simp: grant_fresh_def session_fresh_def install_live_reauth_def session_new_def split: option.splits)

lemma resolve_fresh:
  assumes "reauth_resolve st g s = (out, s')" and "g \<le> ks_generation st" and "out \<noteq> AuthDisconnect" and "session_fresh st s"
  shows "session_fresh st s'"
  using assms by (auto simp: reauth_resolve_def session_fresh_def Let_def split: option.splits if_splits)

lemma auth_ok_step:
  assumes ok: "auth_ok n w" and step: "auth_step mac jwt add e w = Some w'" and n: "Suc n < 2 ^ 64"
  shows "auth_ok (Suc n) w'"
proof (cases e)
  case (RevokeKey k)
  let ?st = "snd (revoke k (aw_store w))"
  have "own_id ?st" using ok by (auto simp: auth_ok_def own_id_def revoke_def split: option.splits if_splits)
  moreover have "?st = aw_store w \<or> ks_generation ?st = ks_generation (aw_store w) + 1"
    by (simp add: revoke_def split: option.splits)
  ultimately show ?thesis using auth_ok_store [OF ok n] step RevokeKey by fastforce
next
  case (RescopeKey k p)
  let ?st = "snd (set_principal k p (aw_store w))"
  have "own_id ?st" if "pr_key_id p = k"
    using ok that by (auto simp: auth_ok_def own_id_def set_principal_def split: option.splits if_splits)
  moreover have "?st = aw_store w \<or> ks_generation ?st = ks_generation (aw_store w) + 1"
    by (simp add: set_principal_def split: option.splits)
  ultimately show ?thesis using auth_ok_store [OF ok n] step RescopeKey by (fastforce split: if_splits)
next
  case (SampleGeneration i)
  then show ?thesis using ok step by (auto simp: auth_ok_def split: if_splits)
next
  case (Authenticate i header ticket now)
  then obtain baseline out ts where b: "aw_sampled w i = Some baseline"
    and r: "resolve_principal mac False jwt (aw_store w) baseline header ticket now (aw_tickets w) = (out, ts)"
    using step by (auto split: option.splits prod.splits)
  have "own_id (aw_store w)" "baseline \<le> ks_generation (aw_store w)"
    "\<And>t r. ts_tickets (aw_tickets w) t = Some r \<Longrightarrow> grant_fresh (aw_store w) (tk_grant r)"
    using ok b by (auto simp: auth_ok_def)
  note fresh = resolve_grant [OF r this]
  show ?thesis using ok step Authenticate b r fresh
    by (cases out) (auto simp: auth_ok_def split: if_splits)
next
  case (MintTicket i token now)
  then obtain g where g: "aw_granted w i = Some g"
    and w': "w' = w\<lparr>aw_tickets := mint_at add token g now (aw_tickets w), aw_granted := (aw_granted w)(i := None)\<rparr>"
    using step by (auto split: option.splits)
  have "grant_fresh (aw_store w) (tk_grant r)" if "ts_tickets (mint_at add token g now (aw_tickets w)) t = Some r" for t r
    using mint_tickets [OF that] ok g unfolding auth_ok_def by blast
  then show ?thesis using ok w' by (auto simp: auth_ok_def split: if_splits)
next
  case (InstallSession i watermark)
  then show ?thesis using ok step install_fresh
    by (auto simp: auth_ok_def split: option.splits if_splits)
next
  case (LoadGeneration i)
  then show ?thesis using ok step
    by (auto simp: auth_ok_def reauth_load_def split: option.splits if_splits)
next
  case (ResolveKey i)
  then obtain s g out s' where s: "aw_sessions w i = Some s" "aw_loaded w i = Some g"
    and r: "reauth_resolve (aw_store w) g s = (out, s')"
    and w': "w' = w\<lparr>aw_loaded := (aw_loaded w)(i := None), aw_sessions := (aw_sessions w)(i := if out = AuthDisconnect then None else Some s')\<rparr>"
    using step by (auto split: option.splits prod.splits)
  have "session_fresh (aw_store w) s'" if "out \<noteq> AuthDisconnect"
    using resolve_fresh [OF r _ that] ok s by (simp add: auth_ok_def)
  then show ?thesis using ok w' by (auto simp: auth_ok_def split: if_splits)
qed

interpretation auth: trace_invariant "auth_step mac jwt add" "\<lambda>n w. n < 2 ^ 64 \<longrightarrow> auth_ok n w"
  for mac jwt add
  by unfold_locales (use auth_ok_step in auto)

lemma daemon_generation:
  "ks_generation (snd (register_config_api_keys mac resolve keys (fst (provision_admin_keys mac pepper fresh sec)))) = 0"
  using register_config_pepper
  by (auto simp: provision_admin_keys_def register_def key_store_new_def split: option.splits)

lemma reauthorize_current:
  assumes "session_fresh st s" and "ss_live s = Some l"
  shows "case principal_for_key st (la_key_id l) of
      None \<Rightarrow> fst (reauthorize st s) = AuthDisconnect
    | Some p \<Rightarrow> fst (reauthorize st s) \<noteq> AuthDisconnect \<and> ss_scopes (snd (reauthorize st s)) = pr_scopes p \<and>
        map_option la_role (ss_live (snd (reauthorize st s))) = Some (pr_role p)"
  using assms
  by (auto simp: session_fresh_def reauthorize_def reauth_load_def reauth_resolve_def Let_def split: option.splits if_splits)

lemma frame_permitted: "frame_for ev s = (Some q, s') \<Longrightarrow> scope_permits (ss_scopes s) (ev_scope ev)"
  by (auto simp: frame_for_def split: if_splits option.splits)

text \<open>C19: Revocations and re-scopings reach every live session. Whatever order connections authenticate, redeem
  tickets, install and re-authorise in, and keys are revoked or re-scoped in between (fewer than 2^64
  changes), a session backed by an API key that re-authorises is disconnected when its key is gone, and
  otherwise has exactly the role and scopes the store grants that key now, so what it delivers next is
  within them.\<close>

theorem sessions_follow_authorization:
  assumes "guarded_run (auth_step mac jwt add) es (auth_world_new (snd (register_config_api_keys mac resolve keys
       (fst (provision_admin_keys mac pepper fresh sec))))) = Some w"
    and "length es < 2 ^ 64" and "aw_sessions w i = Some s" and "ss_live s = Some l"
    and "reauthorize (aw_store w) s = (out, s')"
  shows "(case principal_for_key (aw_store w) (la_key_id l) of
      None \<Rightarrow> out = AuthDisconnect
    | Some p \<Rightarrow> out \<noteq> AuthDisconnect \<and> ss_scopes s' = pr_scopes p \<and> map_option la_role (ss_live s') = Some (pr_role p) \<and>
        (\<forall>ev q s''. frame_for ev s' = (Some q, s'') \<longrightarrow> scope_permits (pr_scopes p) (ev_scope ev)))"
proof -
  have "auth_ok 0 (auth_world_new (snd (register_config_api_keys mac resolve keys (fst (provision_admin_keys mac pepper fresh sec)))))"
    using own_id_daemon daemon_generation by (simp add: auth_ok_def auth_world_new_def tickets_new_def)
  with auth.run_ok [OF assms(1)] assms(2,3) have "session_fresh (aw_store w) s" by (simp add: auth_ok_def)
  from reauthorize_current [OF this assms(4)] show ?thesis using frame_permitted assms(5)
    by (fastforce split: option.splits)
qed

lemma demo_token: "trim (BOOTSTRAP_ADMIN_KEY_ID @ [46, 115]) = BOOTSTRAP_ADMIN_KEY_ID @ [46, 115]"
  by (simp add: trim_def white_space_def strip_prefixes.simps BOOTSTRAP_ADMIN_KEY_ID_def)

definition demo_auth_store :: key_store where
  "demo_auth_store = snd (register_config_api_keys (\<lambda>p s. s) (\<lambda>v. None) [] (fst (provision_admin_keys (\<lambda>p s. s) [1] [2] (Some [115]))))"

lemma demo_verify:
  "verify_authorization (\<lambda>p s. s) demo_auth_store (Some (BEARER @ BOOTSTRAP_ADMIN_KEY_ID @ [46, 115])) =
     Inr \<lparr>pr_key_id = BOOTSTRAP_ADMIN_KEY_ID, pr_role = Admin, pr_scopes = no_scopes\<rparr>"
  by (simp add: verify_authorization_def strip_prefix_def demo_token)
     (simp add: verify_def BOOTSTRAP_ADMIN_KEY_ID_def demo_auth_store_def provision_admin_keys_def register_def
       key_store_new_def digest_def)

theorem only_bootstrap_is_admin_witness:
  "\<exists>value token secret. Some (BEARER @ BOOTSTRAP_ADMIN_KEY_ID @ [46, 115]) = Some value \<and>
     (value = BEARER @ token \<or> value = bearer_lower @ token) \<and>
     split_once 46 (trim token) = Some (BOOTSTRAP_ADMIN_KEY_ID, secret)"
  using only_bootstrap_is_admin [OF demo_verify [unfolded demo_auth_store_def]] by fastforce

definition demo_auth_events :: "auth_event list" where
  "demo_auth_events =
     [SampleGeneration 0, Authenticate 0 (Some (BEARER @ BOOTSTRAP_ADMIN_KEY_ID @ [46, 115])) None 0, InstallSession 0 0,
      RevokeKey BOOTSTRAP_ADMIN_KEY_ID]"

definition demo_session :: session_stream where
  "demo_session = \<lparr>ss_scopes = no_scopes,
     ss_live = Some \<lparr>la_key_id = BOOTSTRAP_ADMIN_KEY_ID, la_role = Admin, la_generation = 0\<rparr>,
     ss_next_seq = 0, ss_resume_after = None, ss_watermark = Some 0\<rparr>"

lemma demo_auth_run:
  "\<exists>w. guarded_run (auth_step (\<lambda>p s. s) (\<lambda>h. None) (\<lambda>a b. Some (a + b))) demo_auth_events (auth_world_new demo_auth_store) = Some w \<and>
     aw_sessions w 0 = Some demo_session \<and> principal_for_key (aw_store w) BOOTSTRAP_ADMIN_KEY_ID = None"
proof -
  have "ks_generation demo_auth_store = 0" "ks_keys demo_auth_store BOOTSTRAP_ADMIN_KEY_ID \<noteq> None"
    by (simp_all add: demo_auth_store_def provision_admin_keys_def register_def key_store_new_def)
  then show ?thesis
    by (auto simp: demo_auth_events_def auth_world_new_def resolve_principal_def demo_verify install_live_reauth_def
        session_new_def demo_session_def revoke_def principal_for_key_def)
qed

theorem sessions_follow_authorization_witness:
  "\<exists>st. principal_for_key st BOOTSTRAP_ADMIN_KEY_ID = None \<and> fst (reauthorize st demo_session) = AuthDisconnect"
proof -
  obtain w where w: "guarded_run (auth_step (\<lambda>p s. s) (\<lambda>h. None) (\<lambda>a b. Some (a + b))) demo_auth_events (auth_world_new demo_auth_store) = Some w"
    "aw_sessions w 0 = Some demo_session" "principal_for_key (aw_store w) BOOTSTRAP_ADMIN_KEY_ID = None"
    using demo_auth_run by blast
  have "ss_live demo_session = Some \<lparr>la_key_id = BOOTSTRAP_ADMIN_KEY_ID, la_role = Admin, la_generation = 0\<rparr>"
    by (simp add: demo_session_def)
  from sessions_follow_authorization [OF w(1) [unfolded demo_auth_store_def] _ w(2) this prod.collapse [symmetric]] w(3)
  have "fst (reauthorize (aw_store w) demo_session) = AuthDisconnect" by (simp add: demo_auth_events_def)
  then show ?thesis using w(3) by blast
qed

text \<open>
  A declared key whose id holds a dot passes the validation and is registered, yet its token is cut at
  the first dot, so the lookup is under the part before it.
\<close>

lemma split_first_dot: "split_once c (l @ c # r) = Some (takeWhile (\<lambda>b. b \<noteq> c) l, drop (Suc (length (takeWhile (\<lambda>b. b \<noteq> c) l))) (l @ c # r))"
  by (induction l) auto

lemma dotted_key_never_authenticates:
  assumes "ks_keys st [97] = None"
  shows "verify mac st ([97, 46, 98] @ [46] @ secret) = Inl Unauthenticated"
  using assms by (simp add: verify_def)

section \<open>Tickets are redeemed once\<close>

datatype ticket_op = MintOp rstr grant nat | RedeemOp rstr nat

fun ticket_trace ::
  "(nat \<Rightarrow> nat \<Rightarrow> nat option) \<Rightarrow> ticket_op list \<Rightarrow> ticket_store \<Rightarrow> (rstr \<times> grant \<times> nat) list \<times> ticket_store" where
  "ticket_trace add [] ts = ([], ts)"
| "ticket_trace add (MintOp t g now # ops) ts = ticket_trace add ops (mint_at add t g now ts)"
| "ticket_trace add (RedeemOp t now # ops) ts =
     (case consume_at t now ts of
        (r, ts1) \<Rightarrow>
          (case ticket_trace add ops ts1 of
             (rs, ts2) \<Rightarrow> ((case r of None \<Rightarrow> rs | Some g \<Rightarrow> (t, g, now) # rs), ts2)))"

fun tickets_minted :: "ticket_op list \<Rightarrow> rstr list" where
  "tickets_minted [] = []"
| "tickets_minted (MintOp t g now # ops) = t # tickets_minted ops"
| "tickets_minted (RedeemOp t now # ops) = tickets_minted ops"

definition redeemable :: "(nat \<Rightarrow> nat \<Rightarrow> nat option) \<Rightarrow> ticket_op list \<Rightarrow> ticket_store \<Rightarrow> rstr \<times> grant \<times> nat \<Rightarrow> bool" where
  "redeemable add ops ts = (\<lambda>(t, g, now).
     (\<exists>r. ts_tickets ts t = Some r \<and> tk_grant r = g \<and> now < tk_expires_at r) \<or>
     (\<exists>t0. MintOp t g t0 \<in> set ops \<and> now < (case add t0 WS_TICKET_TTL of Some e \<Rightarrow> e | None \<Rightarrow> t0)))"

lemma redeemable_mint:
  assumes "redeemable add ops (mint_at add t g now ts) (u, h, n)"
  shows "redeemable add (MintOp t g now # ops) ts (u, h, n)"
proof -
  from assms consider (old) r where "ts_tickets (mint_at add t g now ts) u = Some r" "tk_grant r = h" "n < tk_expires_at r"
    | (new) t0 where "MintOp u h t0 \<in> set ops" "n < (case add t0 WS_TICKET_TTL of Some e \<Rightarrow> e | None \<Rightarrow> t0)"
    unfolding redeemable_def by blast
  then show ?thesis
  proof cases
    case old
    from mint_tickets [OF old(1)] old(2,3) show ?thesis unfolding redeemable_def by auto
  next
    case new
    then show ?thesis unfolding redeemable_def by auto
  qed
qed

lemma redeemable_consume:
  assumes "consume_at t now ts = (r, ts1)" and "redeemable add ops ts1 (u, h, n)"
  shows "redeemable add (RedeemOp t now # ops) ts (u, h, n)"
proof -
  from assms(2) consider (old) rec where "ts_tickets ts1 u = Some rec" "tk_grant rec = h" "n < tk_expires_at rec"
    | (new) t0 where "MintOp u h t0 \<in> set ops" "n < (case add t0 WS_TICKET_TTL of Some e \<Rightarrow> e | None \<Rightarrow> t0)"
    unfolding redeemable_def by blast
  then show ?thesis
  proof cases
    case old
    from consume_tickets(1) [OF assms(1) old(1)] old(2,3) show ?thesis unfolding redeemable_def by auto
  next
    case new
    then show ?thesis unfolding redeemable_def by auto
  qed
qed

lemma ticket_trace_sound:
  assumes "ticket_trace add ops ts = (rs, ts')" and "distinct (tickets_minted ops)"
    and "\<And>t. t \<in> set (tickets_minted ops) \<Longrightarrow> ts_tickets ts t = None"
  shows "distinct (map fst rs) \<and> (\<forall>x \<in> set rs. redeemable add ops ts x) \<and>
     fst ` set rs \<subseteq> dom (ts_tickets ts) \<union> set (tickets_minted ops)"
  using assms
proof (induction add ops ts arbitrary: rs ts' rule: ticket_trace.induct)
  case (2 add t g now ops ts)
  let ?ts = "mint_at add t g now ts"
  have t1: "ticket_trace add ops ?ts = (rs, ts')" "distinct (tickets_minted ops)" using "2.prems"(1,2) by simp_all
  have "ts_tickets ?ts u = None" if "u \<in> set (tickets_minted ops)" for u
    using mint_tickets [of add t g now ts u] "2.prems"(2,3) that by (cases "ts_tickets ?ts u") auto
  note ih = "2.IH" [OF t1 this]
  have "dom (ts_tickets ?ts) \<subseteq> insert t (dom (ts_tickets ts))" using mint_tickets [of add t g now ts] by auto
  then have "fst ` set rs \<subseteq> dom (ts_tickets ts) \<union> set (tickets_minted (MintOp t g now # ops))"
    using ih unfolding tickets_minted.simps list.set by blast
  moreover have "redeemable add (MintOp t g now # ops) ts x" if "x \<in> set rs" for x
    using ih that redeemable_mint by (cases x) metis
  ultimately show ?case using ih by blast
next
  case (3 add t now ops ts)
  obtain r ts1 where c: "consume_at t now ts = (r, ts1)" by (cases "consume_at t now ts") auto
  obtain rs1 where t1: "ticket_trace add ops ts1 = (rs1, ts')" and rs: "rs = (case r of None \<Rightarrow> rs1 | Some g \<Rightarrow> (t, g, now) # rs1)"
    using "3.prems"(1) c by (auto split: prod.splits)
  note sub = consume_tickets [OF c]
  have none: "ts_tickets ts1 u = None" if "u \<in> set (tickets_minted ops)" for u
    using sub(1) [of u] "3.prems"(3) that by (cases "ts_tickets ts1 u") auto
  have "distinct (tickets_minted ops)" using "3.prems"(2) by simp
  note ih = "3.IH" [OF c [symmetric] t1 this none]
  have dm: "dom (ts_tickets ts1) \<subseteq> dom (ts_tickets ts) - {t}" using sub(1) by auto
  have old: "fst ` set rs1 \<subseteq> dom (ts_tickets ts) \<union> set (tickets_minted (RedeemOp t now # ops))"
    using ih dm unfolding tickets_minted.simps by blast
  have red: "redeemable add (RedeemOp t now # ops) ts x" if "x \<in> set rs1" for x
    using ih that redeemable_consume [OF c] by (cases x) metis
  show ?case
  proof (cases r)
    case None
    then show ?thesis using ih old rs red by simp
  next
    case (Some g)
    obtain rec where rec: "ts_tickets ts t = Some rec" "tk_grant rec = g" "now < tk_expires_at rec" using sub(2) [OF Some] by blast
    then have "redeemable add (RedeemOp t now # ops) ts (t, g, now)" by (auto simp: redeemable_def)
    moreover have "t \<notin> set (tickets_minted ops)" using "3.prems"(3) [of t] rec(1) by auto
    then have "t \<notin> fst ` set rs1" using ih dm by blast
    ultimately show ?thesis using ih old rs Some rec(1) red by auto
  qed
qed auto

definition tickets_ok :: "ticket_store \<Rightarrow> bool" where
  "tickets_ok ts \<longleftrightarrow> dom (ts_tickets ts) \<subseteq> set (ts_order ts) \<and> length (ts_order ts) \<le> WS_TICKET_CAPACITY"

lemma sweep_ok:
  "dom m \<subseteq> set order \<Longrightarrow> length order \<le> k \<Longrightarrow>
     dom (ts_tickets (sweep_expired now order m)) \<subseteq> set (ts_order (sweep_expired now order m)) \<and>
     length (ts_order (sweep_expired now order m)) \<le> k"
proof (induction now order m rule: sweep_expired.induct)
  case (2 now front order m)
  show ?case
  proof (cases "case m front of Some rec \<Rightarrow> tk_expires_at rec \<le> now | None \<Rightarrow> True")
    case True
    have "dom (m(front := None)) \<subseteq> set order" "length order \<le> k" using "2.prems" by auto
    from "2.IH" [OF True this] show ?thesis by (simp only: sweep_expired.simps True if_True)
  qed (use "2.prems" in simp)
qed simp

lemma drop_ok:
  "dom m \<subseteq> set order \<Longrightarrow>
     dom (ts_tickets (drop_oldest order m)) \<subseteq> set (ts_order (drop_oldest order m)) \<and>
     length (ts_order (drop_oldest order m)) < WS_TICKET_CAPACITY"
proof (induction order m rule: drop_oldest.induct)
  case (2 old order m)
  show ?case
  proof (cases "WS_TICKET_CAPACITY \<le> length (old # order)")
    case True
    have "dom (m(old := None)) \<subseteq> set order" using "2.prems" by auto
    from "2.IH" [OF True this] show ?thesis by (simp only: drop_oldest.simps True if_True)
  qed (use "2.prems" in simp)
qed (simp add: WS_TICKET_CAPACITY_def)

lemma mint_ok: "tickets_ok ts \<Longrightarrow> tickets_ok (mint_at add t g now ts)"
proof -
  assume ok: "tickets_ok ts"
  let ?s = "sweep_expired now (ts_order ts) (ts_tickets ts)"
  let ?d = "drop_oldest (ts_order ?s) (ts_tickets ?s)"
  have "dom (ts_tickets ?s) \<subseteq> set (ts_order ?s)" using sweep_ok [of "ts_tickets ts" "ts_order ts" _ now] ok by (auto simp: tickets_ok_def)
  from drop_ok [OF this] show ?thesis by (auto simp: tickets_ok_def mint_at_def Let_def)
qed

lemma consume_ok: "tickets_ok ts \<Longrightarrow> consume_at t now ts = (r, ts') \<Longrightarrow> tickets_ok ts'"
  unfolding tickets_ok_def
proof (elim conjE, intro conjI)
  assume d: "dom (ts_tickets ts) \<subseteq> set (ts_order ts)" and l: "length (ts_order ts) \<le> WS_TICKET_CAPACITY"
    and c: "consume_at t now ts = (r, ts')"
  have o: "ts_order ts' = ts_order ts" using c by (auto simp: consume_at_def split: option.splits)
  show "dom (ts_tickets ts') \<subseteq> set (ts_order ts')" using d consume_tickets(1) [OF c] o by (auto dest!: domD)
  show "length (ts_order ts') \<le> WS_TICKET_CAPACITY" using l o by simp
qed

lemma ticket_trace_ok: "ticket_trace add ops ts = (rs, ts') \<Longrightarrow> tickets_ok ts \<Longrightarrow> tickets_ok ts'"
  by (induction add ops ts arbitrary: rs ts' rule: ticket_trace.induct) (auto split: prod.splits dest: mint_ok consume_ok)

text \<open>C23: A realtime ticket buys one connection. Over every sequence of mints, under distinct tokens, and
  attempts to redeem, each token is redeemed at most once, only as the grant it was minted for and
  strictly before its expiry, and the store never keeps more than 4096 tickets.\<close>

theorem tickets_are_single_use:
  assumes "ticket_trace add ops tickets_new = (rs, ts)" and "distinct (tickets_minted ops)"
  shows "distinct (map fst rs) \<and> card (dom (ts_tickets ts)) \<le> 4096 \<and>
     (\<forall>(t, g, now) \<in> set rs. \<exists>t0. MintOp t g t0 \<in> set ops \<and>
        now < (case add t0 WS_TICKET_TTL of Some e \<Rightarrow> e | None \<Rightarrow> t0))"
proof -
  have "tickets_ok ts" using ticket_trace_ok [OF assms(1)] by (simp add: tickets_ok_def tickets_new_def)
  then have "card (dom (ts_tickets ts)) \<le> card (set (ts_order ts))" "card (set (ts_order ts)) \<le> 4096"
    using card_length [of "ts_order ts"] by (auto simp: tickets_ok_def WS_TICKET_CAPACITY_def intro: card_mono)
  then have c: "card (dom (ts_tickets ts)) \<le> 4096" by simp
  have "distinct (map fst rs) \<and> (\<forall>(t, g, now) \<in> set rs. \<exists>t0. MintOp t g t0 \<in> set ops \<and>
        now < (case add t0 WS_TICKET_TTL of Some e \<Rightarrow> e | None \<Rightarrow> t0))"
    using ticket_trace_sound [OF assms] by (auto simp: tickets_new_def redeemable_def)
  with c show ?thesis by blast
qed

theorem tickets_are_single_use_witness:
  "let g = (local_admin, None); ops = [MintOp [1] g 0, RedeemOp [1] 5, RedeemOp [1] 6] in
     ticket_trace (\<lambda>a b. Some (a + b)) ops tickets_new = ([([1], g, 5)], snd (ticket_trace (\<lambda>a b. Some (a + b)) ops tickets_new)) \<and>
     distinct (map fst [([1::byte], g, 5::nat)])"
proof -
  let ?g = "(local_admin, None) :: grant"
  let ?ops = "[MintOp [1] ?g 0, RedeemOp [1] 5, RedeemOp [1] 6]"
  have e: "ticket_trace (\<lambda>a b. Some (a + b)) ?ops tickets_new = ([([1], ?g, 5)], snd (ticket_trace (\<lambda>a b. Some (a + b)) ?ops tickets_new))"
    by (simp add: tickets_new_def mint_at_def consume_at_def WS_TICKET_TTL_def)
  from tickets_are_single_use [OF e] have "distinct (map fst [([1::byte], ?g, 5::nat)])" by simp
  with e show ?thesis by (simp add: Let_def)
qed

end
