(* ===== verification/Control_Store.thy ===== *)
theory Control_Store
  imports Access_Control Stream_Identity Alarm_Types "HOL-Library.AList" "HOL-Library.List_Lexorder"
begin

text \<open>
  The versioned resources of the control plane: versions and entity tags, the \<open>If-Match\<close> precondition
  (\<open>multiview-control/src/concurrency.rs\<close>), the in-memory stores of documents and alarms
  (\<open>resource_store.rs\<close>, \<open>repository.rs\<close>, \<open>salvo_store.rs\<close>, \<open>alarm_store.rs\<close>) and the handlers that create,
  replace and delete a document (\<open>routes/\<close>), one request at a time and interleaved. A hash map is an
  association list in an arbitrary order. A JSON body is a value of the type variable, and the typed
  validation of a body is an argument.
\<close>

section \<open>Versions and entity tags\<close>

definition INITIAL_VERSION :: nat where "INITIAL_VERSION = 1"

definition resource_version_next :: "nat \<Rightarrow> nat" where
  "resource_version_next v = usat_add 64 v 1"

definition to_etag :: "nat \<Rightarrow> rstr" where
  "to_etag v = [87, 47, 34] @ decimal v @ [34]"

fun parse_digits :: "nat \<Rightarrow> rstr \<Rightarrow> nat option" where
  "parse_digits acc [] = Some acc"
| "parse_digits acc (b # s) =
     (if 48 \<le> b \<and> b \<le> 57
      then (let v = acc * 10 + (unat b - 48) in if v < 2 ^ 64 then parse_digits v s else None)
      else None)"

text \<open>\<open>str::parse::<u64>\<close>: one leading plus sign is allowed, an empty number is not.\<close>

definition parse_u64 :: "rstr \<Rightarrow> nat option" where
  "parse_u64 s = (let digits = (case s of b # r \<Rightarrow> if b = 43 then r else s | [] \<Rightarrow> []) in
     if digits = [] then None else parse_digits 0 digits)"

definition trim_matches :: "byte \<Rightarrow> rstr \<Rightarrow> rstr" where
  "trim_matches c s = trim_end_matches c (dropWhile (\<lambda>b. b = c) s)"

definition parse_etag :: "rstr \<Rightarrow> nat option" where
  "parse_etag raw =
     (let trimmed = trim raw;
          without_weak = (case strip_prefix [87, 47] trimmed of Some r \<Rightarrow> r | None \<Rightarrow> trimmed)
      in parse_u64 (trim_matches 34 (trim without_weak)))"

record if_match =
  im_expected :: "nat option"
  im_raw :: "rstr option"

definition if_match_of_header :: "rstr option \<Rightarrow> if_match" where
  "if_match_of_header raw =
     \<lparr>im_expected = (case raw of None \<Rightarrow> None | Some r \<Rightarrow> parse_etag r), im_raw = raw\<rparr>"

definition if_match_require :: "rstr \<Rightarrow> rstr \<Rightarrow> nat \<Rightarrow> if_match \<Rightarrow> control_error + unit" where
  "if_match_require kind i current im =
     (case im_expected im of
        None \<Rightarrow> Inl (PreconditionRequired kind)
      | Some expected \<Rightarrow>
          if expected = current then Inr ()
          else Inl (VersionConflict kind i (decimal expected) (decimal current)))"

section \<open>The document store\<close>

record 'j resource =
  re_id :: rstr
  re_name :: rstr
  re_body :: 'j

record 'j resource_input =
  ri_name :: rstr
  ri_body :: 'j

record 'v versioned =
  vr_version :: nat
  vr_value :: 'v

type_synonym 'j documents = "(rstr \<times> 'j resource versioned) list"

definition resource_of :: "rstr \<Rightarrow> 'j resource_input \<Rightarrow> 'j resource" where
  "resource_of i input = \<lparr>re_id = i, re_name = ri_name input, re_body = ri_body input\<rparr>"

definition store_list :: "'j documents \<Rightarrow> 'j resource versioned list" where
  "store_list st = sort_key (\<lambda>v. re_id (vr_value v)) (map snd st)"

definition store_get :: "rstr \<Rightarrow> rstr \<Rightarrow> (rstr \<times> 'v versioned) list \<Rightarrow> control_error + 'v versioned" where
  "store_get kind i st = (case map_of st i of None \<Rightarrow> Inl (NotFound kind i) | Some v \<Rightarrow> Inr v)"

definition store_create ::
  "rstr \<Rightarrow> rstr \<Rightarrow> 'j resource_input \<Rightarrow> 'j documents \<Rightarrow> (control_error + 'j resource versioned) \<times> 'j documents" where
  "store_create kind i input st =
     (if map_of st i \<noteq> None then (Inl Validation, st)
      else (let v = \<lparr>vr_version = INITIAL_VERSION, vr_value = resource_of i input\<rparr>
            in (Inr v, AList.update i v st)))"

definition store_update ::
  "rstr \<Rightarrow> rstr \<Rightarrow> 'j resource_input \<Rightarrow> 'j documents \<Rightarrow> (control_error + 'j resource versioned) \<times> 'j documents" where
  "store_update kind i input st =
     (case map_of st i of
        None \<Rightarrow> (Inl (NotFound kind i), st)
      | Some existing \<Rightarrow>
          (let next = \<lparr>vr_version = resource_version_next (vr_version existing), vr_value = resource_of i input\<rparr>
           in (Inr next, AList.update i next st)))"

definition store_delete ::
  "rstr \<Rightarrow> rstr \<Rightarrow> (rstr \<times> 'v versioned) list \<Rightarrow> (control_error + unit) \<times> (rstr \<times> 'v versioned) list" where
  "store_delete kind i st =
     (if map_of st i \<noteq> None then (Inr (), AList.delete i st) else (Inl (NotFound kind i), st))"

section \<open>The handlers\<close>

datatype 'j request =
    ListDocs | GetDoc rstr | CreateDoc rstr "'j resource_input"
  | PutDoc rstr if_match "'j resource_input" | DeleteDoc rstr if_match

datatype 'j response =
    Listed "'j resource list" | Found nat "'j resource" | Created nat "'j resource"
  | Replaced nat "'j resource" | Deleted | Refused control_error

text \<open>The body after the typed validation of its collection, or the refusal.\<close>

type_synonym 'j body_check = "rstr \<Rightarrow> 'j \<Rightarrow> control_error + 'j"

text \<open>
  What \<open>update_*\<close> and \<open>delete_*\<close> do before they write: the role, the object scope, the current version and
  the precondition; then the write, under a lock of its own.
\<close>

definition put_check ::
  "rstr \<Rightarrow> 'j body_check \<Rightarrow> principal \<Rightarrow> rstr \<Rightarrow> if_match \<Rightarrow> 'j resource_input \<Rightarrow> 'j documents \<Rightarrow>
   control_error + 'j resource_input" where
  "put_check kind check p i im input st =
     (case require_role (pr_role p) Write of
        Inl e \<Rightarrow> Inl e
      | Inr _ \<Rightarrow>
          (case authorize_object p i of
             Inl e \<Rightarrow> Inl e
           | Inr _ \<Rightarrow>
               (case store_get kind i st of
                  Inl e \<Rightarrow> Inl e
                | Inr current \<Rightarrow>
                    (case if_match_require kind i (vr_version current) im of
                       Inl e \<Rightarrow> Inl e
                     | Inr _ \<Rightarrow>
                         (case check i (ri_body input) of
                            Inl e \<Rightarrow> Inl e
                          | Inr body \<Rightarrow> Inr (input\<lparr>ri_body := body\<rparr>))))))"

definition put_write ::
  "rstr \<Rightarrow> rstr \<Rightarrow> 'j resource_input \<Rightarrow> 'j documents \<Rightarrow> 'j response \<times> 'j documents" where
  "put_write kind i input st =
     (case store_update kind i input st of
        (Inl e, st') \<Rightarrow> (Refused e, st')
      | (Inr v, st') \<Rightarrow> (Replaced (vr_version v) (vr_value v), st'))"

definition delete_check ::
  "rstr \<Rightarrow> principal \<Rightarrow> rstr \<Rightarrow> if_match \<Rightarrow> 'j documents \<Rightarrow> control_error + unit" where
  "delete_check kind p i im st =
     (case require_role (pr_role p) Administer of
        Inl e \<Rightarrow> Inl e
      | Inr _ \<Rightarrow>
          (case authorize_object p i of
             Inl e \<Rightarrow> Inl e
           | Inr _ \<Rightarrow>
               (case store_get kind i st of
                  Inl e \<Rightarrow> Inl e
                | Inr current \<Rightarrow> if_match_require kind i (vr_version current) im)))"

definition delete_write :: "rstr \<Rightarrow> rstr \<Rightarrow> 'j documents \<Rightarrow> 'j response \<times> 'j documents" where
  "delete_write kind i st =
     (case store_delete kind i st of (Inl e, st') \<Rightarrow> (Refused e, st') | (Inr _, st') \<Rightarrow> (Deleted, st'))"

definition create_doc ::
  "rstr \<Rightarrow> 'j body_check \<Rightarrow> principal \<Rightarrow> rstr \<Rightarrow> 'j resource_input \<Rightarrow> 'j documents \<Rightarrow> 'j response \<times> 'j documents" where
  "create_doc kind check p i input st =
     (case require_role (pr_role p) Write of
        Inl e \<Rightarrow> (Refused e, st)
      | Inr _ \<Rightarrow>
          (case authorize_object p i of
             Inl e \<Rightarrow> (Refused e, st)
           | Inr _ \<Rightarrow>
               (case check i (ri_body input) of
                  Inl e \<Rightarrow> (Refused e, st)
                | Inr body \<Rightarrow>
                    (case store_create kind i (input\<lparr>ri_body := body\<rparr>) st of
                       (Inl e, st') \<Rightarrow> (Refused e, st')
                     | (Inr v, st') \<Rightarrow> (Created (vr_version v) (vr_value v), st')))))"

fun serve ::
  "rstr \<Rightarrow> 'j body_check \<Rightarrow> principal \<Rightarrow> 'j request \<Rightarrow> 'j documents \<Rightarrow> 'j response \<times> 'j documents" where
  "serve kind check p ListDocs st =
     (case require_role (pr_role p) Read of
        Inl e \<Rightarrow> (Refused e, st)
      | Inr _ \<Rightarrow> (Listed (filter (\<lambda>d. authorize_object p (re_id d) = Inr ()) (map vr_value (store_list st))), st))"
| "serve kind check p (GetDoc i) st =
     (case require_role (pr_role p) Read of
        Inl e \<Rightarrow> (Refused e, st)
      | Inr _ \<Rightarrow>
          (case authorize_object p i of
             Inl e \<Rightarrow> (Refused e, st)
           | Inr _ \<Rightarrow>
               (case store_get kind i st of
                  Inl e \<Rightarrow> (Refused e, st)
                | Inr v \<Rightarrow> (Found (vr_version v) (vr_value v), st))))"
| "serve kind check p (CreateDoc i input) st = create_doc kind check p i input st"
| "serve kind check p (PutDoc i im input) st =
     (case put_check kind check p i im input st of
        Inl e \<Rightarrow> (Refused e, st)
      | Inr input' \<Rightarrow> put_write kind i input' st)"
| "serve kind check p (DeleteDoc i im) st =
     (case delete_check kind p i im st of
        Inl e \<Rightarrow> (Refused e, st)
      | Inr _ \<Rightarrow> delete_write kind i st)"

fun serve_all ::
  "rstr \<Rightarrow> 'j body_check \<Rightarrow> (principal \<times> 'j request) list \<Rightarrow> 'j documents \<Rightarrow> 'j response list \<times> 'j documents" where
  "serve_all kind check [] st = ([], st)"
| "serve_all kind check ((p, r) # rs) st =
     (case serve kind check p r st of
        (resp, st1) \<Rightarrow> (case serve_all kind check rs st1 of (resps, st2) \<Rightarrow> (resp # resps, st2)))"

section \<open>The alarm store\<close>

definition ALARM_KIND :: rstr where "ALARM_KIND = str ''alarm''"

record alarm_filter =
  af_min_severity :: "perceived_severity option"
  af_active :: "bool option"
  af_scope_kind :: "string option"

fun scope_tag :: "alarm_scope \<Rightarrow> string" where
  "scope_tag (ScopeProbe p) = ''probe''"
| "scope_tag (ScopeTile t) = ''tile''"
| "scope_tag (ScopeGroup g) = ''group''"
| "scope_tag ScopeSystem = ''system''"

definition alarm_filter_matches :: "alarm_filter \<Rightarrow> alarm_record \<Rightarrow> bool" where
  "alarm_filter_matches f rec \<longleftrightarrow>
     (case af_min_severity f of None \<Rightarrow> True | Some m \<Rightarrow> m \<le> ar_severity rec) \<and>
     (case af_active f of None \<Rightarrow> True | Some a \<Rightarrow> record_is_active rec = a) \<and>
     (case af_scope_kind f of None \<Rightarrow> True | Some k \<Rightarrow> scope_tag (ar_scope rec) = k)"

type_synonym alarms = "(rstr \<times> alarm_record versioned) list"

definition alarms_list :: "alarm_filter \<Rightarrow> alarms \<Rightarrow> alarm_record versioned list" where
  "alarms_list f st = sort_key (\<lambda>v. str (ar_id (vr_value v))) (filter (\<lambda>v. alarm_filter_matches f (vr_value v)) (map snd st))"

definition alarms_upsert :: "alarm_record \<Rightarrow> alarms \<Rightarrow> alarm_record versioned \<times> alarms" where
  "alarms_upsert rec st =
     (let key = str (ar_id rec) in
      case map_of st key of
        Some existing \<Rightarrow>
          if vr_value existing = rec then (existing, st)
          else (let next = \<lparr>vr_version = resource_version_next (vr_version existing), vr_value = rec\<rparr>
                in (next, AList.update key next st))
      | None \<Rightarrow> (let next = \<lparr>vr_version = INITIAL_VERSION, vr_value = rec\<rparr> in (next, AList.update key next st)))"

definition alarms_acknowledge ::
  "rstr \<Rightarrow> string \<Rightarrow> media_time \<Rightarrow> alarms \<Rightarrow> (control_error + alarm_record versioned) \<times> alarms" where
  "alarms_acknowledge i who t st =
     (case map_of st i of
        None \<Rightarrow> (Inl (NotFound ALARM_KIND i), st)
      | Some existing \<Rightarrow>
          (let next = \<lparr>vr_version = resource_version_next (vr_version existing),
                       vr_value = (vr_value existing)\<lparr>ar_ack := Acked who t\<rparr>\<rparr>
           in (Inr next, AList.update i next st)))"

definition ack_alarm ::
  "principal \<Rightarrow> string \<Rightarrow> rstr \<Rightarrow> if_match \<Rightarrow> media_time \<Rightarrow> alarms \<Rightarrow> (control_error + alarm_record versioned) \<times> alarms" where
  "ack_alarm p who i im t st =
     (case require_role (pr_role p) Write of
        Inl e \<Rightarrow> (Inl e, st)
      | Inr _ \<Rightarrow>
          (case store_get ALARM_KIND i st of
             Inl e \<Rightarrow> (Inl e, st)
           | Inr current \<Rightarrow>
               (case if_match_require ALARM_KIND i (vr_version current) im of
                  Inl e \<Rightarrow> (Inl e, st)
                | Inr _ \<Rightarrow> alarms_acknowledge i who t st)))"

section \<open>Entity tags round-trip\<close>

lemma trim_plain_ends:
  assumes "s \<noteq> []" and "32 < hd s" "hd s < 128" and "32 < last s" "last s < 128"
  shows "trim s = s"
proof -
  have ws: "\<forall>w\<in>set white_space. hd w \<noteq> b \<and> last w \<noteq> b" if "32 < b" "b < 128" for b
    using that by (auto simp: white_space_def)
  obtain b bs where s: "s = b # bs" using assms(1) by (cases s) simp_all
  have front: "strip_prefixes white_space s = s"
    using ws [OF assms(2,3)] strip_prefixes_stop [of white_space b bs] by (simp add: s)
  obtain c cs where r: "rev s = c # cs" using assms(1) by (cases "rev s") simp_all
  then have c: "c = last s" by (metis last_rev list.sel(1) rev_rev_ident hd_rev)
  have "\<forall>w\<in>set (map rev white_space). w \<noteq> [] \<longrightarrow> hd w \<noteq> c"
    using ws [OF assms(4,5)] by (auto simp: c hd_rev)
  then have "strip_prefixes (map rev white_space) (rev s) = rev s"
    using strip_prefixes_stop [of "map rev white_space" c cs] by (simp add: r)
  then show ?thesis by (simp add: trim_def front)
qed

lemma parse_digits_append:
  "parse_digits acc (xs @ ys) = (case parse_digits acc xs of None \<Rightarrow> None | Some v \<Rightarrow> parse_digits v ys)"
  by (induction acc xs rule: parse_digits.induct) (auto simp: Let_def)

lemma digit_byte: "d < 10 \<Longrightarrow> 48 \<le> (48 + of_nat d :: byte) \<and> (48 + of_nat d :: byte) \<le> 57 \<and> unat (48 + of_nat d :: byte) - 48 = d"
  by (simp add: word_le_nat_alt unat_word_ariths unat_of_nat)

lemma parse_decimal: "n < 2 ^ 64 \<Longrightarrow> parse_digits 0 (decimal n) = Some n"
proof (induction n rule: decimal.induct)
  case (1 n)
  show ?case
  proof (cases "n < 10")
    case True
    then show ?thesis using digit_byte [of n] by (subst decimal.simps) (simp add: Let_def)
  next
    case False
    have "parse_digits 0 (decimal (n div 10)) = Some (n div 10)" using "1.IH" False "1.prems" by simp
    moreover have "n div 10 * 10 + n mod 10 = n" by simp
    ultimately show ?thesis using False digit_byte [of "n mod 10"] "1.prems"
      by (subst decimal.simps) (simp add: parse_digits_append Let_def)
  qed
qed

lemma decimal_ends: "48 \<le> hd (decimal n) \<and> hd (decimal n) \<le> 57 \<and> 48 \<le> last (decimal n) \<and> last (decimal n) \<le> 57"
  using decimal_digits [of "hd (decimal n)" n] decimal_digits [of "last (decimal n)" n] by simp

lemma parse_u64_decimal: "n < 2 ^ 64 \<Longrightarrow> parse_u64 (decimal n) = Some n"
proof -
  assume n: "n < 2 ^ 64"
  obtain b r where d: "decimal n = b # r" by (cases "decimal n") simp_all
  then have "b \<noteq> 43" using decimal_ends [of n] by auto
  then show ?thesis using parse_decimal [OF n] by (simp add: parse_u64_def d Let_def)
qed

lemma dropWhile_quote: "dropWhile (\<lambda>b. b = 34) (decimal n) = decimal n"
  using decimal_ends [of n] by (cases "decimal n") auto

lemma trim_quotes: "trim_matches 34 (decimal n) = decimal n" "trim_matches 34 (34 # decimal n @ [34]) = decimal n"
proof -
  have r: "dropWhile (\<lambda>b. b = 34) (rev (decimal n)) = rev (decimal n)"
    using decimal_ends [of n] by (cases "decimal n" rule: rev_cases) auto
  then show "trim_matches 34 (decimal n) = decimal n"
    by (simp add: trim_matches_def trim_end_matches_def dropWhile_quote)
  have "dropWhile (\<lambda>b. b = 34) (34 # decimal n @ [34]) = decimal n @ [34]"
    using decimal_ends [of n] by (cases "decimal n") auto
  then show "trim_matches 34 (34 # decimal n @ [34]) = decimal n"
    using r by (simp add: trim_matches_def trim_end_matches_def)
qed

text \<open>Every version survives its entity tag. A client may send back the weak tag it was given, the tag
  without its weakness prefix, or the bare number, and the precondition reads the same version.\<close>

theorem etag_roundtrip:
  assumes "v < 2 ^ 64"
  shows "parse_etag (to_etag v) = Some v \<and> parse_etag (34 # decimal v @ [34]) = Some v \<and> parse_etag (decimal v) = Some v"
proof -
  have plain: "32 < (87::byte)" "(87::byte) < 128" "32 < (34::byte)" "(34::byte) < 128" by simp_all
  have t1: "trim ([87, 47, 34] @ decimal v @ [34]) = [87, 47, 34] @ decimal v @ [34]"
    by (rule trim_plain_ends) simp_all
  have t2: "trim (34 # decimal v @ [34]) = 34 # decimal v @ [34]"
    by (rule trim_plain_ends) simp_all
  have de: "32 < hd (decimal v)" "hd (decimal v) < 128" "32 < last (decimal v)" "last (decimal v) < 128"
    using decimal_ends [of v] by (auto simp: word_less_nat_alt word_le_nat_alt)
  have t3: "trim (decimal v) = decimal v" by (rule trim_plain_ends) (use de in simp_all)
  have np: "strip_prefix [87, 47] (decimal v) = None"
    using decimal_ends [of v] by (cases "decimal v") (auto simp: strip_prefix_def)
  have "parse_etag (to_etag v) = parse_u64 (trim_matches 34 (trim (34 # decimal v @ [34])))"
    using t1 by (simp add: parse_etag_def to_etag_def strip_prefix_def)
  moreover have "parse_etag (34 # decimal v @ [34]) = parse_u64 (trim_matches 34 (trim (34 # decimal v @ [34])))"
    using t2 by (simp add: parse_etag_def strip_prefix_def)
  moreover have "parse_etag (decimal v) = parse_u64 (trim_matches 34 (decimal v))"
    using t3 np by (simp add: parse_etag_def)
  ultimately show ?thesis using t2 trim_quotes parse_u64_decimal [OF assms] by simp
qed

theorem etag_roundtrip_witness: "parse_etag (to_etag 5) = Some 5"
  using etag_roundtrip [of 5] by simp

section \<open>A version is consumed once\<close>

definition version_of :: "rstr \<Rightarrow> (rstr \<times> 'v versioned) list \<Rightarrow> nat option" where
  "version_of i st = map_option vr_version (map_of st i)"

lemma put_check_version:
  "put_check kind check p i im input st = Inr input' \<Longrightarrow> \<exists>v. version_of i st = Some v \<and> im_expected im = Some v"
  by (auto simp: put_check_def store_get_def if_match_require_def version_of_def split: sum.splits option.splits if_splits)

lemma put_write_version:
  assumes "put_write kind i input st = (resp, st')"
  shows "version_of i st = Some v \<Longrightarrow> version_of i st' = Some (resource_version_next v)"
    and "j \<noteq> i \<Longrightarrow> version_of j st' = version_of j st"
  using assms by (auto simp: put_write_def store_update_def version_of_def update_conv' Let_def split: option.splits)

lemma serve_version:
  assumes "serve kind check p r st = (resp, st')" and "version_of i st = Some v"
    and "\<And>im. r = DeleteDoc i im \<Longrightarrow> resp \<noteq> Deleted"
  shows "version_of i st' = Some v \<or> version_of i st' = Some (resource_version_next v)"
proof (cases r)
  case (PutDoc j im input)
  then show ?thesis using assms put_write_version
    by (cases "i = j") (fastforce split: sum.splits)+
next
  case (CreateDoc j input)
  then show ?thesis using assms
    by (auto simp: create_doc_def store_create_def version_of_def update_conv' Let_def split: sum.splits if_splits)
next
  case (DeleteDoc j im)
  then show ?thesis using assms
    by (auto simp: delete_write_def store_delete_def version_of_def delete_conv' split: sum.splits if_splits)
qed (use assms in \<open>auto split: sum.splits\<close>)

definition deletes :: "rstr \<Rightarrow> (principal \<times> 'j request) list \<Rightarrow> 'j response list \<Rightarrow> bool" where
  "deletes i rs resps \<longleftrightarrow>
     list_ex (\<lambda>((p, r), resp). resp = Deleted \<and> (case r of DeleteDoc j im \<Rightarrow> j = i | _ \<Rightarrow> False)) (zip rs resps)"

lemma serve_all_version:
  assumes "serve_all kind check rs st = (resps, st')" and "version_of i st = Some v"
    and "\<not> deletes i rs resps" and "v + length rs < 2 ^ 64"
  shows "\<exists>v'. version_of i st' = Some v' \<and> v \<le> v'"
  using assms
proof (induction rs arbitrary: st resps v)
  case (Cons pr rs)
  obtain p r where pr: "pr = (p, r)" by (cases pr)
  obtain resp st1 where s: "serve kind check p r st = (resp, st1)" by (cases "serve kind check p r st")
  obtain resps1 where t: "serve_all kind check rs st1 = (resps1, st')" and r: "resps = resp # resps1"
    using Cons.prems(1) pr s by (auto split: prod.splits)
  have nd: "\<not> deletes i rs resps1" and del: "\<And>im. r = DeleteDoc i im \<Longrightarrow> resp \<noteq> Deleted"
    using Cons.prems(3) pr r by (auto simp: deletes_def)
  obtain v1 where v1: "version_of i st1 = Some v1" "v1 = v \<or> v1 = resource_version_next v"
    using serve_version [OF s Cons.prems(2)] del by blast
  then have "v \<le> v1" "v1 + length rs < 2 ^ 64" using Cons.prems(4) by (auto simp: resource_version_next_def usat_add_def)
  then show ?case using Cons.IH [OF t v1(1) nd] by (meson le_trans)
qed simp

lemma put_accepted:
  assumes "serve kind check p (PutDoc i im input) st = (Replaced n d, st')"
  shows "\<exists>v. im_expected im = Some v \<and> version_of i st = Some v \<and> n = resource_version_next v \<and> version_of i st' = Some n \<and>
     map_of st' i = Some \<lparr>vr_version = n, vr_value = d\<rparr>"
proof -
  obtain input' where c: "put_check kind check p i im input st = Inr input'" and w: "put_write kind i input' st = (Replaced n d, st')"
    using assms by (auto split: sum.splits)
  obtain v where v: "version_of i st = Some v" "im_expected im = Some v" using put_check_version [OF c] by blast
  moreover have "n = resource_version_next v \<and> version_of i st' = Some n \<and> map_of st' i = Some \<lparr>vr_version = n, vr_value = d\<rparr>"
    using w v(1) by (auto simp: put_write_def store_update_def version_of_def update_conv' Let_def split: option.splits)
  ultimately show ?thesis by blast
qed

text \<open>C24: Served one at a time, no accepted edit is clobbered blindly. If a replacement of a document was
  accepted and answered with version \<open>n\<close>, then a later accepted replacement, whatever requests of any
  principals came in between short of a delete, presented a precondition of \<open>n\<close> or newer: its client had
  seen the edit it overwrites.\<close>

theorem writes_consume_versions:
  assumes "serve kind check p (PutDoc i im input) st = (Replaced n d, st1)"
    and "serve_all kind check mid st1 = (resps, st2)" and "\<not> deletes i mid resps"
    and "serve kind check q (PutDoc i im' input') st2 = (Replaced n' d', st3)"
    and "n + length mid < 2 ^ 64 - 1"
  shows "\<exists>v v'. im_expected im = Some v \<and> im_expected im' = Some v' \<and> v < n \<and> n \<le> v'"
proof -
  obtain v where v: "im_expected im = Some v" "n = resource_version_next v" "version_of i st1 = Some n"
    using put_accepted [OF assms(1)] by blast
  obtain v' where v': "im_expected im' = Some v'" "version_of i st2 = Some v'" using put_accepted [OF assms(4)] by blast
  have "n \<le> v'" using serve_all_version [OF assms(2) v(3) assms(3)] assms(5) v'(2) by auto
  moreover have "v < n" using v(2) assms(5) by (auto simp: resource_version_next_def usat_add_def min_def split: if_splits)
  ultimately show ?thesis using v v' by blast
qed

definition demo_input :: "nat \<Rightarrow> nat resource_input" where
  "demo_input b = \<lparr>ri_name = [], ri_body = b\<rparr>"

definition if_version :: "nat \<Rightarrow> if_match" where
  "if_version v = \<lparr>im_expected = Some v, im_raw = None\<rparr>"

lemmas serve_defs = put_check_def put_write_def delete_check_def delete_write_def create_doc_def require_role_def
  authorize_object_def authorize_scope_def local_admin_def no_scopes_def store_get_def store_update_def store_create_def
  store_delete_def if_match_require_def resource_of_def resource_version_next_def usat_add_def INITIAL_VERSION_def Let_def

theorem writes_consume_versions_witness:
  "\<exists>v v'. im_expected (if_version 1) = Some v \<and> im_expected (if_version 2) = Some v' \<and> v < 2 \<and> 2 \<le> v'"
proof -
  let ?st = "[([1], \<lparr>vr_version = 1, vr_value = \<lparr>re_id = [1], re_name = [], re_body = (7::nat)\<rparr>\<rparr>)] :: nat documents"
  let ?st1 = "[([1], \<lparr>vr_version = 2, vr_value = \<lparr>re_id = [1], re_name = [], re_body = (8::nat)\<rparr>\<rparr>)] :: nat documents"
  let ?st3 = "[([1], \<lparr>vr_version = 3, vr_value = \<lparr>re_id = [1], re_name = [], re_body = (9::nat)\<rparr>\<rparr>)] :: nat documents"
  have a: "serve [9] (\<lambda>i. Inr) local_admin (PutDoc [1] (if_version 1) (demo_input 8)) ?st =
      (Replaced 2 \<lparr>re_id = [1], re_name = [], re_body = 8\<rparr>, ?st1)"
    by (simp add: serve_defs if_version_def demo_input_def)
  have b: "serve_all [9] (\<lambda>i. Inr) [] ?st1 = ([], ?st1)" by simp
  have c: "serve [9] (\<lambda>i. Inr) local_admin (PutDoc [1] (if_version 2) (demo_input 9)) ?st1 =
      (Replaced 3 \<lparr>re_id = [1], re_name = [], re_body = 9\<rparr>, ?st3)"
    by (simp add: serve_defs if_version_def demo_input_def)
  have d: "\<not> deletes [1] ([] :: (principal \<times> nat request) list) []" by (simp add: deletes_def)
  show ?thesis using writes_consume_versions [OF a b d c] by simp
qed

text \<open>
  Where no lock spans the precondition and the write (all collections but sources and overlays), two
  requests that present the same version can both pass the check before either writes; both are then
  answered with a success, and the first edit is lost.
\<close>

lemma unlocked_puts_lose_an_update:
  assumes "put_check kind check p i im input st = Inr a" and "put_check kind check q i im input' st = Inr b"
    and "put_write kind i a st = (r1, st1)" and "put_write kind i b st1 = (r2, st2)"
  shows "(\<exists>n d. r1 = Replaced n d) \<and> (\<exists>n d. r2 = Replaced n d) \<and> map_option vr_value (map_of st2 i) = Some (resource_of i b)"
proof -
  obtain v where v: "version_of i st = Some v" using put_check_version [OF assms(1)] by blast
  have "version_of i st1 = Some (resource_version_next v)" by (rule put_write_version(1) [OF assms(3) v])
  then show ?thesis using v assms(3,4)
    by (auto simp: put_write_def store_update_def version_of_def update_conv' Let_def split: option.splits)
qed

text \<open>
  Deleting a document forgets its version, so one created again under its id starts over at 1 and a
  precondition taken from the old document is accepted on the new one.
\<close>

lemma recreated_version_matches:
  assumes "serve kind check p (DeleteDoc i im) st = (Deleted, st1)" and "serve kind check p (CreateDoc i input) st1 = (Created n d, st2)"
  shows "n = INITIAL_VERSION \<and> if_match_require kind i n (if_version 1) = Inr ()"
  using assms
  by (auto simp: create_doc_def store_create_def if_match_require_def if_version_def INITIAL_VERSION_def Let_def split: sum.splits if_splits)

text \<open>An operator's acknowledgement lives only in the mirror; the next record of the engine replaces it.\<close>

lemma engine_record_drops_ack:
  assumes "alarms_acknowledge (str (ar_id rec)) who t st = (Inr a, st1)" and "ar_ack rec = Unacked"
    and "alarms_upsert rec st1 = (v, st2)"
  shows "ar_ack (vr_value v) = Unacked \<and> vr_version v = resource_version_next (vr_version a)"
  using assms
  by (auto simp: alarms_acknowledge_def alarms_upsert_def Let_def update_conv' split: option.splits if_splits)

end
