(* ===== verification/Command_Bus.thy ===== *)
theory Command_Bus
  imports Access_Control Route_Apply Tally
begin

text \<open>
  How a command reaches the engine: the commands and the bounded bus of
  \<open>multiview-control/src/command.rs\<close>, the idempotency keys of \<open>concurrency.rs\<close>, \<open>submit_accepted\<close> of
  \<open>routes/mod.rs\<close>, and the correlation of outcome events with the operation that caused them
  (\<open>CorrKey\<close>, \<open>CorrRegistry\<close> of \<open>realtime.rs\<close>). Operation ids are random UUIDs: the \<open>n\<close>-th one drawn is an
  argument. The documents a command carries are type variables.
\<close>

section \<open>Commands\<close>

datatype media_verb =
    LoadAsset rstr | CueFrame "nat option" | PlayMedia | PauseMedia | StopMedia | SeekFrame "nat option"

fun media_verb_kind :: "media_verb \<Rightarrow> string" where
  "media_verb_kind (LoadAsset a) = ''media_load''"
| "media_verb_kind (CueFrame f) = ''media_cue''"
| "media_verb_kind PlayMedia = ''media_play''"
| "media_verb_kind PauseMedia = ''media_pause''"
| "media_verb_kind StopMedia = ''media_stop''"
| "media_verb_kind (SeekFrame f) = ''media_seek''"

datatype tally_target = TallyTile nat | TallyElement rstr

type_synonym op_id = rstr

datatype ('s, 'o, 'l) command =
    Start op_id | Stop op_id
  | SwapSource op_id rstr rstr
  | RouteVideo op_id rstr stream_ref
  | RouteAudio op_id rstr stream_ref "32 word" bool
  | RouteSubtitle op_id rstr stream_ref
  | ApplyLayout op_id rstr "'l option"
  | ArmSalvo op_id rstr "rstr option"
  | TakeSalvo op_id "rstr option" "rstr option"
  | CancelSalvo op_id "rstr option" "rstr option"
  | UpsertSource op_id 's | RemoveSource op_id rstr
  | UpsertOverlay op_id 'o | RemoveOverlay op_id rstr
  | ReorderOverlays op_id "rstr list"
  | SetTallyOverride op_id tally_target "tally_color option"
  | MediaTransport op_id rstr media_verb
  | ArmMediaExit op_id rstr | TakeMediaExit op_id rstr | CancelMediaExit op_id rstr

fun operation_id :: "('s, 'o, 'l) command \<Rightarrow> op_id" where
  "operation_id (Start op) = op"
| "operation_id (Stop op) = op"
| "operation_id (SwapSource op t s) = op"
| "operation_id (RouteVideo op c s) = op"
| "operation_id (RouteAudio op t s g m) = op"
| "operation_id (RouteSubtitle op l s) = op"
| "operation_id (ApplyLayout op l d) = op"
| "operation_id (ArmSalvo op s h) = op"
| "operation_id (TakeSalvo op s h) = op"
| "operation_id (CancelSalvo op s h) = op"
| "operation_id (UpsertSource op s) = op"
| "operation_id (RemoveSource op i) = op"
| "operation_id (UpsertOverlay op v) = op"
| "operation_id (RemoveOverlay op i) = op"
| "operation_id (ReorderOverlays op is) = op"
| "operation_id (SetTallyOverride op t c) = op"
| "operation_id (MediaTransport op p v) = op"
| "operation_id (ArmMediaExit op p) = op"
| "operation_id (TakeMediaExit op p) = op"
| "operation_id (CancelMediaExit op p) = op"

fun command_kind :: "('s, 'o, 'l) command \<Rightarrow> string" where
  "command_kind (Start op) = ''start''"
| "command_kind (Stop op) = ''stop''"
| "command_kind (SwapSource op t s) = ''swap_source''"
| "command_kind (RouteVideo op c s) = ''route_video''"
| "command_kind (RouteAudio op t s g m) = ''route_audio''"
| "command_kind (RouteSubtitle op l s) = ''route_subtitle''"
| "command_kind (ApplyLayout op l d) = ''apply_layout''"
| "command_kind (ArmSalvo op s h) = ''arm_salvo''"
| "command_kind (TakeSalvo op s h) = ''take_salvo''"
| "command_kind (CancelSalvo op s h) = ''cancel_salvo''"
| "command_kind (UpsertSource op s) = ''upsert_source''"
| "command_kind (RemoveSource op i) = ''remove_source''"
| "command_kind (UpsertOverlay op v) = ''upsert_overlay''"
| "command_kind (RemoveOverlay op i) = ''remove_overlay''"
| "command_kind (ReorderOverlays op is) = ''reorder_overlays''"
| "command_kind (SetTallyOverride op t c) = ''set_tally_override''"
| "command_kind (MediaTransport op p v) = media_verb_kind v"
| "command_kind (ArmMediaExit op p) = ''arm_media_exit''"
| "command_kind (TakeMediaExit op p) = ''take_media_exit''"
| "command_kind (CancelMediaExit op p) = ''cancel_media_exit''"

fun command_route_intent :: "('s, 'o, 'l) command \<Rightarrow> route_intent option" where
  "command_route_intent (SwapSource op t s) = Some (swap_source t s)"
| "command_route_intent (RouteVideo op c s) = Some (VideoIntent c s)"
| "command_route_intent (RouteAudio op t s g m) = Some (AudioIntent t s g m)"
| "command_route_intent (RouteSubtitle op l s) = Some (SubtitleIntent l s)"
| "command_route_intent _ = None"

text \<open>The legacy swap and the route it desugars to are one crosspoint.\<close>

lemma swap_is_route_video: "command_route_intent (SwapSource op t s) = command_route_intent (RouteVideo op' t (ref_best s Video))"
  by (simp add: swap_source_def)

section \<open>The bus\<close>

datatype submit_error = BusFull | BusClosed

record ('s, 'o, 'l) command_bus =
  cb_capacity :: nat
  cb_queue :: "('s, 'o, 'l) command list"
  cb_open :: bool

definition command_bus_new :: "nat \<Rightarrow> ('s, 'o, 'l) command_bus" where
  "command_bus_new capacity = \<lparr>cb_capacity = max capacity 1, cb_queue = [], cb_open = True\<rparr>"

definition try_submit :: "('s, 'o, 'l) command \<Rightarrow> ('s, 'o, 'l) command_bus \<Rightarrow> (submit_error + op_id) \<times> ('s, 'o, 'l) command_bus" where
  "try_submit c bus =
     (if \<not> cb_open bus then (Inl BusClosed, bus)
      else if cb_capacity bus \<le> length (cb_queue bus) then (Inl BusFull, bus)
      else (Inr (operation_id c), bus\<lparr>cb_queue := cb_queue bus @ [c]\<rparr>))"

definition try_drain :: "('s, 'o, 'l) command_bus \<Rightarrow> ('s, 'o, 'l) command list \<times> ('s, 'o, 'l) command_bus" where
  "try_drain bus = (cb_queue bus, bus\<lparr>cb_queue := []\<rparr>)"

section \<open>Idempotency keys\<close>

datatype reservation = Fresh op_id | Replay op_id

record idempotency_store =
  id_seen :: "rstr \<Rightarrow> op_id option"
  id_drawn :: nat

definition reserve :: "(nat \<Rightarrow> op_id) \<Rightarrow> rstr option \<Rightarrow> idempotency_store \<Rightarrow> reservation \<times> idempotency_store" where
  "reserve uuid key st =
     (case key of
        None \<Rightarrow> (Fresh (uuid (id_drawn st)), st\<lparr>id_drawn := Suc (id_drawn st)\<rparr>)
      | Some k \<Rightarrow>
          (case id_seen st k of
             Some existing \<Rightarrow> (Replay existing, st)
           | None \<Rightarrow>
               (let op = uuid (id_drawn st)
                in (Fresh op, st\<lparr>id_seen := (id_seen st)(k \<mapsto> op), id_drawn := Suc (id_drawn st)\<rparr>))))"

definition idem_release :: "rstr option \<Rightarrow> op_id \<Rightarrow> idempotency_store \<Rightarrow> idempotency_store" where
  "idem_release key op st =
     (case key of
        None \<Rightarrow> st
      | Some k \<Rightarrow> if id_seen st k = Some op then st\<lparr>id_seen := (id_seen st)(k := None)\<rparr> else st)"

definition rebind :: "rstr option \<Rightarrow> op_id \<Rightarrow> op_id \<Rightarrow> idempotency_store \<Rightarrow> idempotency_store" where
  "rebind key frm to st =
     (case key of
        None \<Rightarrow> st
      | Some k \<Rightarrow> if id_seen st k = Some frm then st\<lparr>id_seen := (id_seen st)(k \<mapsto> to)\<rparr> else st)"

text \<open>\<open>submit_accepted_body\<close>, uninterrupted: the reply is the operation id and its kind.\<close>

definition submit_accepted_body ::
  "(nat \<Rightarrow> op_id) \<Rightarrow> rstr option \<Rightarrow> (op_id \<Rightarrow> control_error + ('s, 'o, 'l) command) \<Rightarrow>
   idempotency_store \<Rightarrow> ('s, 'o, 'l) command_bus \<Rightarrow>
   (control_error + op_id \<times> string) \<times> idempotency_store \<times> ('s, 'o, 'l) command_bus" where
  "submit_accepted_body uuid key build st bus =
     (case reserve uuid key st of
        (Replay op, st1) \<Rightarrow> (Inr (op, ''replay''), st1, bus)
      | (Fresh op, st1) \<Rightarrow>
          (case build op of
             Inl refusal \<Rightarrow> (Inl refusal, idem_release key op st1, bus)
           | Inr command \<Rightarrow>
               (case try_submit command bus of
                  (Inl shed, bus1) \<Rightarrow> (Inl EngineBusy, idem_release key op st1, bus1)
                | (Inr op', bus1) \<Rightarrow> (Inr (op, command_kind command), st1, bus1))))"

section \<open>Requests interleaved\<close>

text \<open>
  Each lock and each \<open>try_submit\<close> is an event, so between the reservation of a request and its submission
  or release any other request may run. Beside commands, device actions keep a reserved operation
  without using the bus, and a discovery scan that attaches to a running one rebinds its key. What was
  put on the bus, with the key it came under, and what was answered are recorded beside the state.
\<close>

record ('s, 'o, 'l) submit_world =
  sw_ids :: idempotency_store
  sw_bus :: "('s, 'o, 'l) command_bus"
  sw_inflight :: "nat \<Rightarrow> (rstr option \<times> op_id \<times> control_error option) option"
  sw_enqueued :: "(rstr option \<times> op_id) list"
  sw_answers :: "(nat \<times> (control_error + op_id \<times> bool)) list"

datatype ('s, 'o, 'l) submit_event =
    ReserveKey nat "rstr option" | BuildRefused nat control_error
  | TrySubmit nat "('s, 'o, 'l) command" | ReleaseKey nat
  | KeepOperation nat | AttachOperation nat op_id | DrainBus | CloseBus

definition answer :: "nat \<Rightarrow> control_error + op_id \<times> bool \<Rightarrow> ('s, 'o, 'l) submit_world \<Rightarrow> ('s, 'o, 'l) submit_world" where
  "answer i r w = w\<lparr>sw_inflight := (sw_inflight w)(i := None), sw_answers := sw_answers w @ [(i, r)]\<rparr>"

fun submit_step ::
  "(nat \<Rightarrow> op_id) \<Rightarrow> ('s, 'o, 'l) submit_event \<Rightarrow> ('s, 'o, 'l) submit_world \<Rightarrow> ('s, 'o, 'l) submit_world option" where
  "submit_step uuid (ReserveKey i key) w =
     (if sw_inflight w i \<noteq> None then None
      else (case reserve uuid key (sw_ids w) of
              (Replay op, ids) \<Rightarrow> Some (answer i (Inr (op, True)) w)
            | (Fresh op, ids) \<Rightarrow>
                Some (w\<lparr>sw_ids := ids, sw_inflight := (sw_inflight w)(i \<mapsto> (key, op, None))\<rparr>)))"
| "submit_step uuid (BuildRefused i e) w =
     (case sw_inflight w i of
        Some (key, op, None) \<Rightarrow> Some (w\<lparr>sw_inflight := (sw_inflight w)(i \<mapsto> (key, op, Some e))\<rparr>)
      | _ \<Rightarrow> None)"
| "submit_step uuid (TrySubmit i c) w =
     (case sw_inflight w i of
        Some (key, op, None) \<Rightarrow>
          if operation_id c \<noteq> op then None
          else (case try_submit c (sw_bus w) of
                  (Inr _, bus) \<Rightarrow> Some (answer i (Inr (op, False)) (w\<lparr>sw_bus := bus, sw_enqueued := sw_enqueued w @ [(key, op)]\<rparr>))
                | (Inl _, bus) \<Rightarrow> Some (w\<lparr>sw_bus := bus, sw_inflight := (sw_inflight w)(i \<mapsto> (key, op, Some EngineBusy))\<rparr>))
      | _ \<Rightarrow> None)"
| "submit_step uuid (ReleaseKey i) w =
     (case sw_inflight w i of
        Some (key, op, Some e) \<Rightarrow> Some (answer i (Inl e) (w\<lparr>sw_ids := idem_release key op (sw_ids w)\<rparr>))
      | _ \<Rightarrow> None)"
| "submit_step uuid (KeepOperation i) w =
     (case sw_inflight w i of
        Some (key, op, None) \<Rightarrow> Some (answer i (Inr (op, False)) w)
      | _ \<Rightarrow> None)"
| "submit_step uuid (AttachOperation i running) w =
     (case sw_inflight w i of
        Some (key, op, None) \<Rightarrow> Some (answer i (Inr (running, False)) (w\<lparr>sw_ids := rebind key op running (sw_ids w)\<rparr>))
      | _ \<Rightarrow> None)"
| "submit_step uuid DrainBus w = Some (w\<lparr>sw_bus := snd (try_drain (sw_bus w))\<rparr>)"
| "submit_step uuid CloseBus w = Some (w\<lparr>sw_bus := (sw_bus w)\<lparr>cb_open := False\<rparr>\<rparr>)"

definition submit_world_new :: "nat \<Rightarrow> ('s, 'o, 'l) submit_world" where
  "submit_world_new capacity =
     \<lparr>sw_ids = \<lparr>id_seen = Map.empty, id_drawn = 0\<rparr>, sw_bus = command_bus_new capacity,
      sw_inflight = Map.empty, sw_enqueued = [], sw_answers = []\<rparr>"

section \<open>A key enqueues once\<close>

text \<open>
  A claim is an operation some request holds (\<open>Some i\<close>) or the bus took (\<open>None\<close>), with the key it came under.
  Claims never share an operation, and the store maps a claim's key to its operation.
\<close>

type_synonym claim = "nat option \<times> rstr option \<times> op_id"

definition claims_ok :: "(nat \<Rightarrow> op_id) \<Rightarrow> idempotency_store \<Rightarrow> claim set \<Rightarrow> bool" where
  "claims_ok uuid ids L \<longleftrightarrow>
     (\<forall>c key op. (c, key, op) \<in> L \<longrightarrow> (\<exists>j<id_drawn ids. op = uuid j) \<and> (\<forall>k. key = Some k \<longrightarrow> id_seen ids k = Some op)) \<and>
     (\<forall>c key op c' key'. (c, key, op) \<in> L \<longrightarrow> (c', key', op) \<in> L \<longrightarrow> c = c' \<and> key = key')"

lemma claims_sub: "claims_ok uuid ids L \<Longrightarrow> L' \<subseteq> L \<Longrightarrow> claims_ok uuid ids L'"
  unfolding claims_ok_def by (meson subsetD)

lemma claims_forget:
  assumes ok: "claims_ok uuid ids L" and x: "(c, key, op) \<in> L" and d: "id_drawn ids' = id_drawn ids"
    and seen: "\<And>k y. id_seen ids k = Some y \<Longrightarrow> y \<noteq> op \<Longrightarrow> id_seen ids' k = Some y"
  shows "claims_ok uuid ids' (L - {(c, key, op)})"
proof -
  have "y \<noteq> op" if "(c', key', y) \<in> L - {(c, key, op)}" for c' key' y
    using ok x that unfolding claims_ok_def by blast
  moreover have "(\<exists>j<id_drawn ids. y = uuid j) \<and> (\<forall>k. key' = Some k \<longrightarrow> id_seen ids k = Some y)"
    if "(c', key', y) \<in> L" for c' key' y
    using ok that unfolding claims_ok_def by blast
  ultimately have "(\<exists>j<id_drawn ids'. y = uuid j) \<and> (\<forall>k. key' = Some k \<longrightarrow> id_seen ids' k = Some y)"
    if "(c', key', y) \<in> L - {(c, key, op)}" for c' key' y
    using that seen unfolding d by blast
  moreover have "c1 = c2 \<and> k1 = k2" if "(c1, k1, y) \<in> L" "(c2, k2, y) \<in> L" for c1 k1 c2 k2 y
    using ok that unfolding claims_ok_def by blast
  ultimately show ?thesis unfolding claims_ok_def by blast
qed

lemma claims_draw:
  assumes inj: "inj uuid" and ok: "claims_ok uuid ids L" and op: "op = uuid (id_drawn ids)"
    and d: "id_drawn ids' = Suc (id_drawn ids)" and new: "\<And>k. key = Some k \<Longrightarrow> id_seen ids k = None \<and> id_seen ids' k = Some op"
    and old: "\<And>k. key \<noteq> Some k \<Longrightarrow> id_seen ids' k = id_seen ids k"
  shows "claims_ok uuid ids' (insert (c, key, op) L)"
proof -
  have drawn: "\<exists>j<id_drawn ids. y = uuid j" and seen: "key' = Some k \<Longrightarrow> id_seen ids k = Some y"
    if "(c', key', y) \<in> L" for c' key' y k
    using ok that unfolding claims_ok_def by blast+
  have fresh: "y \<noteq> op" if "(c', key', y) \<in> L" for c' key' y
    using drawn [OF that] inj by (auto simp: op inj_def)
  have keep: "id_seen ids' k = Some y" if "(c', Some k, y) \<in> L" for c' k y
    using seen [OF that refl] new old by (cases "key = Some k") auto
  have up: "\<exists>j<id_drawn ids'. y = uuid j" if "(c', key', y) \<in> L" for c' key' y
    using drawn [OF that] less_SucI unfolding d by blast
  have self: "\<exists>j<id_drawn ids'. op = uuid j" using op d by auto
  show ?thesis unfolding claims_ok_def
  proof (intro conjI allI impI)
    fix c' key' y
    assume "(c', key', y) \<in> insert (c, key, op) L"
    then show "\<exists>j<id_drawn ids'. y = uuid j" using self up by blast
  next
    fix c' key' y k
    assume "(c', key', y) \<in> insert (c, key, op) L" and "key' = Some k"
    then show "id_seen ids' k = Some y" using new keep by blast
  next
    fix c1 k1 y c2 k2
    assume "(c1, k1, y) \<in> insert (c, key, op) L" and "(c2, k2, y) \<in> insert (c, key, op) L"
    then show "c1 = c2" "k1 = k2" using fresh ok unfolding claims_ok_def by blast+
  qed
qed

lemma claims_move:
  assumes ok: "claims_ok uuid ids L" and x: "(c, key, op) \<in> L"
  shows "claims_ok uuid ids (insert (c', key, op) (L - {(c, key, op)}))"
proof -
  have "y \<noteq> op" if "(c', key', y) \<in> L - {(c, key, op)}" for c' key' y
    using ok x that unfolding claims_ok_def by blast
  then show ?thesis using ok x unfolding claims_ok_def by blast
qed

definition claims :: "('s, 'o, 'l) submit_world \<Rightarrow> claim set" where
  "claims w = {(None, key, op) | key op. (key, op) \<in> set (sw_enqueued w)} \<union>
     {(Some i, key, op) | i key op. \<exists>x. sw_inflight w i = Some (key, op, x)}"

definition submit_ok :: "(nat \<Rightarrow> op_id) \<Rightarrow> ('s, 'o, 'l) submit_world \<Rightarrow> bool" where
  "submit_ok uuid w \<longleftrightarrow> claims_ok uuid (sw_ids w) (claims w) \<and> distinct (map snd (sw_enqueued w)) \<and>
     1 \<le> cb_capacity (sw_bus w) \<and> length (cb_queue (sw_bus w)) \<le> cb_capacity (sw_bus w)"

lemma claims_mem [simp]:
  "(None, key, op) \<in> claims w \<longleftrightarrow> (key, op) \<in> set (sw_enqueued w)"
  "(Some i, key, op) \<in> claims w \<longleftrightarrow> (\<exists>x. sw_inflight w i = Some (key, op, x))"
  by (auto simp: claims_def)

lemma claim_set_eqI:
  "(\<And>key op. (None, key, op) \<in> A \<longleftrightarrow> (None, key, op) \<in> B) \<Longrightarrow>
   (\<And>i key op. (Some i, key, op) \<in> A \<longleftrightarrow> (Some i, key, op) \<in> B) \<Longrightarrow> A = (B :: claim set)"
  by (metis option.exhaust prod_cases3 subsetI subset_antisym)

lemma answer_simps [simp]:
  "sw_ids (answer i r w) = sw_ids w" "sw_enqueued (answer i r w) = sw_enqueued w" "sw_bus (answer i r w) = sw_bus w"
  by (simp_all add: answer_def)

lemma answer_held:
  assumes "sw_inflight w i = Some (key, op, x)"
  shows "claims (answer i r w) = claims w - {(Some i, key, op)}" and "(Some i, key, op) \<in> claims w"
  using assms by (auto simp: answer_def split: if_splits intro!: claim_set_eqI)

lemma claims_cong: "sw_enqueued w' = sw_enqueued w \<Longrightarrow> sw_inflight w' = sw_inflight w \<Longrightarrow> claims w' = claims w"
  by (simp add: claims_def)

lemma claims_stage:
  "sw_inflight w i = Some (key, op, x) \<Longrightarrow> claims (w\<lparr>sw_inflight := (sw_inflight w)(i \<mapsto> (key, op, y))\<rparr>) = claims w"
  by (intro claim_set_eqI) auto

lemma try_submit_bound:
  "try_submit c bus = (r, bus') \<Longrightarrow> length (cb_queue bus) \<le> cb_capacity bus \<Longrightarrow>
     length (cb_queue bus') \<le> cb_capacity bus' \<and> cb_capacity bus' = cb_capacity bus"
  by (auto simp: try_submit_def split: if_splits)

lemma submit_ok_step:
  assumes inj: "inj uuid" and ok: "submit_ok uuid w" and s: "submit_step uuid e w = Some w'"
  shows "submit_ok uuid w'"
proof (cases e)
  case (ReserveKey i key)
  have free: "sw_inflight w i = None" using s ReserveKey by (cases "sw_inflight w i") simp_all
  show ?thesis
  proof (cases "fst (reserve uuid key (sw_ids w))")
    case (Replay op)
    then have "w' = answer i (Inr (op, True)) w" using s ReserveKey free by (auto split: prod.splits)
    moreover have "claims (answer i (Inr (op, True)) w) \<subseteq> claims w" by (auto simp: claims_def answer_def split: if_splits)
    ultimately show ?thesis using ok claims_sub by (auto simp: submit_ok_def)
  next
    case (Fresh op)
    define ids where "ids = snd (reserve uuid key (sw_ids w))"
    have w': "w' = w\<lparr>sw_ids := ids, sw_inflight := (sw_inflight w)(i \<mapsto> (key, op, None))\<rparr>"
      using s ReserveKey free Fresh by (auto simp: ids_def split: prod.splits)
    have ids: "op = uuid (id_drawn (sw_ids w))" "id_drawn ids = Suc (id_drawn (sw_ids w))"
      "\<And>k. key = Some k \<Longrightarrow> id_seen (sw_ids w) k = None \<and> id_seen ids k = Some op"
      "\<And>k. key \<noteq> Some k \<Longrightarrow> id_seen ids k = id_seen (sw_ids w) k"
      using Fresh by (auto simp: ids_def reserve_def Let_def split: option.splits)
    have "claims w' = insert (Some i, key, op) (claims w)" by (intro claim_set_eqI) (auto simp: w' free)
    then show ?thesis using claims_draw [OF inj _ ids] ok by (simp add: submit_ok_def w')
  qed
next
  case (BuildRefused i e)
  then obtain key op where h: "sw_inflight w i = Some (key, op, None)"
    and w': "w' = w\<lparr>sw_inflight := (sw_inflight w)(i \<mapsto> (key, op, Some e))\<rparr>"
    using s by (auto split: option.splits)
  then show ?thesis using ok claims_stage [OF h] by (simp add: submit_ok_def)
next
  case (TrySubmit i c)
  then obtain key op where h: "sw_inflight w i = Some (key, op, None)" and c: "operation_id c = op"
    using s by (auto split: option.splits if_splits)
  obtain r bus where t: "try_submit c (sw_bus w) = (r, bus)" by (cases "try_submit c (sw_bus w)")
  note b = try_submit_bound [OF t]
  show ?thesis
  proof (cases r)
    case (Inl x)
    then have w': "w' = (w\<lparr>sw_bus := bus\<rparr>)\<lparr>sw_inflight := (sw_inflight (w\<lparr>sw_bus := bus\<rparr>))(i \<mapsto> (key, op, Some EngineBusy))\<rparr>"
      using s TrySubmit h c t by simp
    have "claims w' = claims (w\<lparr>sw_bus := bus\<rparr>)" unfolding w' by (rule claims_stage) (simp add: h)
    also have "\<dots> = claims w" by (rule claims_cong) simp_all
    finally show ?thesis using ok b by (simp add: submit_ok_def w')
  next
    case (Inr x)
    then have w': "w' = answer i (Inr (op, False)) (w\<lparr>sw_bus := bus, sw_enqueued := sw_enqueued w @ [(key, op)]\<rparr>)"
      using s TrySubmit h c t by simp
    have hw: "(Some i, key, op) \<in> claims w" using h by simp
    have "claims w' = insert (None, key, op) (claims w - {(Some i, key, op)})"
      using h by (intro claim_set_eqI) (auto simp: w' answer_def split: if_splits)
    then have "claims_ok uuid (sw_ids w') (claims w')" using claims_move [OF _ hw] ok by (simp add: submit_ok_def w')
    moreover have "op \<notin> snd ` set (sw_enqueued w)"
    proof
      assume "op \<in> snd ` set (sw_enqueued w)"
      then obtain key' where "(None, key', op) \<in> claims w" by auto
      then show False using ok hw unfolding submit_ok_def claims_ok_def by blast
    qed
    ultimately show ?thesis using ok b by (simp add: submit_ok_def w')
  qed
next
  case (ReleaseKey i)
  then obtain key op e where h: "sw_inflight w i = Some (key, op, Some e)"
    and w': "w' = answer i (Inl e) (w\<lparr>sw_ids := idem_release key op (sw_ids w)\<rparr>)"
    using s by (auto split: option.splits)
  have cl: "claims w' = claims w - {(Some i, key, op)}"
    using h by (intro claim_set_eqI) (auto simp: w' answer_def split: if_splits)
  have "claims_ok uuid (idem_release key op (sw_ids w)) (claims w - {(Some i, key, op)})"
    by (rule claims_forget [of uuid "sw_ids w"]) (use ok h in \<open>auto simp: submit_ok_def idem_release_def split: option.splits if_splits\<close>)
  then show ?thesis using ok cl by (simp add: submit_ok_def w')
next
  case (KeepOperation i)
  then obtain key op where h: "sw_inflight w i = Some (key, op, None)" and w': "w' = answer i (Inr (op, False)) w"
    using s by (auto split: option.splits)
  show ?thesis using ok answer_held(1) [OF h] claims_sub by (auto simp: submit_ok_def w')
next
  case (AttachOperation i running)
  then obtain key op where h: "sw_inflight w i = Some (key, op, None)"
    and w': "w' = answer i (Inr (running, False)) (w\<lparr>sw_ids := rebind key op running (sw_ids w)\<rparr>)"
    using s by (auto split: option.splits)
  have cl: "claims w' = claims w - {(Some i, key, op)}"
    using h by (intro claim_set_eqI) (auto simp: w' answer_def split: if_splits)
  have "claims_ok uuid (rebind key op running (sw_ids w)) (claims w - {(Some i, key, op)})"
    by (rule claims_forget [of uuid "sw_ids w"]) (use ok h in \<open>auto simp: submit_ok_def rebind_def split: option.splits if_splits\<close>)
  then show ?thesis using ok cl by (simp add: submit_ok_def w')
next
  case DrainBus
  then have w': "w' = w\<lparr>sw_bus := snd (try_drain (sw_bus w))\<rparr>" using s by simp
  then have "claims w' = claims w" by (intro claims_cong) simp_all
  then show ?thesis using ok by (simp add: submit_ok_def w' try_drain_def)
next
  case CloseBus
  then have w': "w' = w\<lparr>sw_bus := (sw_bus w)\<lparr>cb_open := False\<rparr>\<rparr>" using s by simp
  then have "claims w' = claims w" by (intro claims_cong) simp_all
  then show ?thesis using ok by (simp add: submit_ok_def w')
qed

interpretation submission: trace_invariant "submit_step uuid" "\<lambda>n w. inj uuid \<longrightarrow> submit_ok uuid w"
  for uuid
  by unfold_locales (use submit_ok_step in blast)

text \<open>C21: A key enqueues at most one command. In every interleaving of requests, their reservations, refused
  builds, submissions, sheds and releases, device actions and attaching scans, no operation is put on
  the bus twice, at most one command ever goes onto the bus under one idempotency key, and the queue
  stays within its capacity.\<close>

theorem keys_enqueue_once:
  assumes "guarded_run (submit_step uuid) es (submit_world_new capacity) = Some w" and "inj uuid"
  shows "distinct (map snd (sw_enqueued w)) \<and> length (filter (\<lambda>e. fst e = Some k) (sw_enqueued w)) \<le> 1 \<and>
     length (cb_queue (sw_bus w)) \<le> cb_capacity (sw_bus w)"
proof -
  have "submit_ok uuid (submit_world_new capacity)"
    by (auto simp: submit_ok_def claims_ok_def submit_world_new_def command_bus_new_def claims_def)
  then have ok: "submit_ok uuid w" using submission.run_ok [OF assms(1)] assms(2) by blast
  let ?f = "filter (\<lambda>e. fst e = Some k) (sw_enqueued w)"
  have d: "distinct (map snd (sw_enqueued w))" using ok by (simp add: submit_ok_def)
  have "set (map snd ?f) \<subseteq> {the (id_seen (sw_ids w) k)}"
  proof
    fix op
    assume "op \<in> set (map snd ?f)"
    then have "(None, Some k, op) \<in> claims w" by auto
    then have "id_seen (sw_ids w) k = Some op" using ok unfolding submit_ok_def claims_ok_def by blast
    then show "op \<in> {the (id_seen (sw_ids w) k)}" by simp
  qed
  then have "card (set (map snd ?f)) \<le> 1" using card_mono [of "{the (id_seen (sw_ids w) k)}"] by fastforce
  moreover have "distinct (map snd ?f)" using d by (rule distinct_map_filter)
  ultimately have "length ?f \<le> 1" using distinct_card [of "map snd ?f"] by simp
  then show ?thesis using ok d by (simp add: submit_ok_def)
qed

definition demo_uuid :: "nat \<Rightarrow> op_id" where "demo_uuid n = replicate n 0"

lemma demo_uuid_inj: "inj demo_uuid"
  by (rule injI) (metis demo_uuid_def length_replicate)

theorem keys_enqueue_once_witness:
  "\<exists>w :: (unit, unit, unit) submit_world. sw_enqueued w = [(Some [1], [])] \<and> distinct (map snd (sw_enqueued w))"
proof -
  obtain w :: "(unit, unit, unit) submit_world" where
    w: "guarded_run (submit_step demo_uuid) [ReserveKey 0 (Some [1]), TrySubmit 0 (Start [])] (submit_world_new 4) = Some w"
    "sw_enqueued w = [(Some [1], [])]"
    by (simp add: submit_world_new_def command_bus_new_def reserve_def try_submit_def demo_uuid_def answer_def)
  then show ?thesis using keys_enqueue_once [OF w(1) demo_uuid_inj] by blast
qed

text \<open>
  The reservation is visible before the command is on the bus. A second request under the key that
  arrives in between is answered with a replay, and when the first is then shed, the second has been
  told that a command was accepted which was never enqueued.
\<close>

lemma replay_of_a_shed_command:
  "\<exists>w :: (unit, unit, unit) submit_world.
     guarded_run (submit_step demo_uuid)
       [ReserveKey 0 None, ReserveKey 1 (Some [1]), ReserveKey 2 (Some [1]),
        TrySubmit 0 (Start []), TrySubmit 1 (Stop [0]), ReleaseKey 1] (submit_world_new 1) = Some w \<and>
     sw_answers w = [(2, Inr ([0], True)), (0, Inr ([], False)), (1, Inl EngineBusy)] \<and>
     sw_enqueued w = [(None, [])] \<and> id_seen (sw_ids w) [1] = None"
  by (simp add: submit_world_new_def command_bus_new_def reserve_def try_submit_def idem_release_def demo_uuid_def answer_def Let_def)

section \<open>Correlating outcomes\<close>

datatype salvo_event_phase = PhaseArmed | PhaseTaken | PhaseCancelled
datatype output_run_state = RunIdle | RunStarting | RunRunning | RunMigrating | RunError
datatype media_player_state =
    PlayerLoading | PlayerCued | PlayerPlaying | PlayerPaused | PlayerStopped | PlayerVamping bool | PlayerEof

datatype corr_key =
    OutputStateKey output_run_state | SalvoKey rstr salvo_event_phase
  | MediaPlayerKey rstr media_player_state | DiscoveryKey

fun corr_for_verb :: "rstr \<Rightarrow> media_verb \<Rightarrow> corr_key option" where
  "corr_for_verb p PlayMedia = Some (MediaPlayerKey p PlayerPlaying)"
| "corr_for_verb p PauseMedia = Some (MediaPlayerKey p PlayerPaused)"
| "corr_for_verb p StopMedia = Some (MediaPlayerKey p PlayerStopped)"
| "corr_for_verb p (CueFrame f) = Some (MediaPlayerKey p PlayerCued)"
| "corr_for_verb p (LoadAsset a) = None"
| "corr_for_verb p (SeekFrame f) = None"

fun corr_for_command :: "('s, 'o, 'l) command \<Rightarrow> corr_key option" where
  "corr_for_command (Start op) = Some (OutputStateKey RunRunning)"
| "corr_for_command (Stop op) = Some (OutputStateKey RunIdle)"
| "corr_for_command (ArmSalvo op s h) = Some (SalvoKey s PhaseArmed)"
| "corr_for_command (TakeSalvo op s h) = map_option (\<lambda>n. SalvoKey n PhaseTaken) s"
| "corr_for_command (CancelSalvo op s h) = map_option (\<lambda>n. SalvoKey n PhaseCancelled) s"
| "corr_for_command (ArmMediaExit op p) = Some (MediaPlayerKey p (PlayerVamping True))"
| "corr_for_command (TakeMediaExit op p) = Some (MediaPlayerKey p (PlayerVamping True))"
| "corr_for_command (CancelMediaExit op p) = Some (MediaPlayerKey p (PlayerVamping False))"
| "corr_for_command (MediaTransport op p v) = corr_for_verb p v"
| "corr_for_command _ = None"

datatype outcome_event =
    OutputStatusEvent output_run_state | SalvoEvent rstr salvo_event_phase | DeviceDiscoveredEvent
  | MediaPlayerEvent rstr media_player_state | OtherEvent

fun corr_for_event :: "outcome_event \<Rightarrow> corr_key option" where
  "corr_for_event (OutputStatusEvent s) = Some (OutputStateKey s)"
| "corr_for_event (SalvoEvent s p) = Some (SalvoKey s p)"
| "corr_for_event DeviceDiscoveredEvent = Some DiscoveryKey"
| "corr_for_event (MediaPlayerEvent p s) = Some (MediaPlayerKey p s)"
| "corr_for_event OtherEvent = None"

text \<open>An absent queue of the map and an empty one are both the empty list.\<close>

record corr_registry =
  cr_capacity :: nat
  cr_pending :: "corr_key \<Rightarrow> op_id list"
  cr_order :: "corr_key list"
  cr_windows :: "corr_key \<Rightarrow> (op_id \<times> nat) option"
  cr_resolved :: "nat \<Rightarrow> op_id option"
  cr_resolved_order :: "nat list"

definition corr_registry_new :: "nat \<Rightarrow> corr_registry" where
  "corr_registry_new capacity =
     \<lparr>cr_capacity = max capacity 1, cr_pending = (\<lambda>k. []), cr_order = [], cr_windows = Map.empty,
      cr_resolved = Map.empty, cr_resolved_order = []\<rparr>"

fun evict_pending :: "nat \<Rightarrow> corr_key list \<Rightarrow> (corr_key \<Rightarrow> op_id list) \<Rightarrow> corr_key list \<times> (corr_key \<Rightarrow> op_id list)" where
  "evict_pending cap [] m = ([], m)"
| "evict_pending cap (k # ks) m =
     (if cap < length (k # ks) then evict_pending cap ks (m(k := tl (m k))) else (k # ks, m))"

fun evict_resolved :: "nat \<Rightarrow> nat list \<Rightarrow> (nat \<Rightarrow> op_id option) \<Rightarrow> nat list \<times> (nat \<Rightarrow> op_id option)" where
  "evict_resolved cap [] m = ([], m)"
| "evict_resolved cap (s # ss) m =
     (if cap < length (s # ss) then evict_resolved cap ss (m(s := None)) else (s # ss, m))"

definition corr_record :: "corr_key \<Rightarrow> op_id \<Rightarrow> corr_registry \<Rightarrow> corr_registry" where
  "corr_record key op r =
     (case evict_pending (cr_capacity r) (cr_order r @ [key]) ((cr_pending r)(key := cr_pending r key @ [op])) of
        (order, pending) \<Rightarrow> r\<lparr>cr_pending := pending, cr_order := order\<rparr>)"

definition corr_record_window :: "corr_key \<Rightarrow> op_id \<Rightarrow> nat \<Rightarrow> corr_registry \<Rightarrow> corr_registry" where
  "corr_record_window key op from_seq r = r\<lparr>cr_windows := (cr_windows r)(key \<mapsto> (op, from_seq))\<rparr>"

definition memoize_resolved :: "nat \<Rightarrow> op_id \<Rightarrow> corr_registry \<Rightarrow> corr_registry" where
  "memoize_resolved seq op r =
     (case evict_resolved (cr_capacity r) (cr_resolved_order r @ [seq]) ((cr_resolved r)(seq \<mapsto> op)) of
        (order, resolved) \<Rightarrow> r\<lparr>cr_resolved := resolved, cr_resolved_order := order\<rparr>)"

definition corr_resolve :: "corr_key \<Rightarrow> nat \<Rightarrow> corr_registry \<Rightarrow> op_id option \<times> corr_registry" where
  "corr_resolve key seq r =
     (case cr_resolved r seq of
        Some op \<Rightarrow> (Some op, r)
      | None \<Rightarrow>
          (case cr_windows r key of
             Some (op, from_seq) \<Rightarrow>
               if seq \<le> from_seq then (None, r) else (Some op, memoize_resolved seq op r)
           | None \<Rightarrow>
               (case cr_pending r key of
                  [] \<Rightarrow> (None, r)
                | op # rest \<Rightarrow>
                    (Some op, memoize_resolved seq op
                       (r\<lparr>cr_pending := (cr_pending r)(key := rest), cr_order := remove1 key (cr_order r)\<rparr>)))))"

text \<open>A command and the event that reports its outcome have one key.\<close>

lemma start_correlates: "corr_for_command (Start op) = corr_for_event (OutputStatusEvent RunRunning)"
  by simp

text \<open>
  The correlation is recorded after the command is on the bus. An outcome projected in between goes out
  uncorrelated, and the record that follows is stamped on the next event under the same key.
\<close>

lemma late_record_stamps_next_outcome:
  assumes "cr_resolved r s = None" "cr_resolved r t = None" "cr_windows r k = None" "cr_pending r k = []"
    and "cr_order r = []" "1 \<le> cr_capacity r"
  shows "fst (corr_resolve k s r) = None \<and> fst (corr_resolve k t (corr_record k op r)) = Some op"
  using assms by (simp add: corr_resolve_def corr_record_def)

record corr_world =
  co_registry :: corr_registry
  co_recorded :: "op_id list"
  co_windowed :: "op_id list"
  co_stamped :: "(nat \<times> op_id) list"

datatype corr_event = RecordCorr corr_key op_id | RecordWindow corr_key op_id nat | ResolveCorr corr_key nat

fun corr_step :: "corr_event \<Rightarrow> corr_world \<Rightarrow> corr_world option" where
  "corr_step (RecordCorr key op) w =
     (if op \<in> set (co_recorded w) \<or> op \<in> set (co_windowed w) then None
      else Some (w\<lparr>co_registry := corr_record key op (co_registry w), co_recorded := op # co_recorded w\<rparr>))"
| "corr_step (RecordWindow key op from_seq) w =
     (if op \<in> set (co_recorded w) then None
      else Some (w\<lparr>co_registry := corr_record_window key op from_seq (co_registry w), co_windowed := op # co_windowed w\<rparr>))"
| "corr_step (ResolveCorr key seq) w =
     (case corr_resolve key seq (co_registry w) of
        (None, r) \<Rightarrow> Some (w\<lparr>co_registry := r\<rparr>)
      | (Some op, r) \<Rightarrow> Some (w\<lparr>co_registry := r, co_stamped := (seq, op) # co_stamped w\<rparr>))"

definition pending_ok :: "(corr_key \<Rightarrow> op_id list) \<Rightarrow> op_id set \<Rightarrow> bool" where
  "pending_ok m S \<longleftrightarrow> (\<forall>k. distinct (m k) \<and> set (m k) \<subseteq> S) \<and> (\<forall>j k op. op \<in> set (m j) \<longrightarrow> op \<in> set (m k) \<longrightarrow> j = k)"

lemma pending_shrink:
  assumes "pending_ok m S"
  shows "pending_ok (m(k := tl (m k))) S"
proof -
  have t: "set (tl xs) \<subseteq> set xs" for xs :: "op_id list" by (cases xs) auto
  have sub: "set ((m(k := tl (m k))) j) \<subseteq> set (m j)" for j using t [of "m k"] by simp
  have "distinct ((m(k := tl (m k))) j)" for j using assms by (simp add: pending_ok_def distinct_tl)
  then show ?thesis using assms sub unfolding pending_ok_def by (meson subset_iff)
qed

lemma pending_take:
  assumes p: "pending_ok m S" and k: "m k = op # rest"
  shows "op \<in> S" "pending_ok (m(k := rest)) (S - {op})"
proof -
  have d: "distinct (op # rest)" "set (op # rest) \<subseteq> S" using p unfolding pending_ok_def k [symmetric] by blast+
  then show "op \<in> S" by simp
  have other: "op \<notin> set (m j)" if "j \<noteq> k" for j
    using p that k unfolding pending_ok_def by (metis list.set_intros(1))
  have sub: "set ((m(k := rest)) j) \<subseteq> set (m j)" for j using k by auto
  have "distinct ((m(k := rest)) j)" "set ((m(k := rest)) j) \<subseteq> S - {op}" for j
    using p d other [of j] unfolding pending_ok_def by auto
  moreover have "i = j" if "x \<in> set ((m(k := rest)) i)" "x \<in> set ((m(k := rest)) j)" for i j x
    using p that sub unfolding pending_ok_def by (meson subset_iff)
  ultimately show "pending_ok (m(k := rest)) (S - {op})" unfolding pending_ok_def by blast
qed

lemma evict_pending_ok:
  "pending_ok m S \<Longrightarrow> evict_pending cap ks m = (ks', m') \<Longrightarrow> pending_ok m' S \<and> length ks' \<le> cap"
proof (induction cap ks m rule: evict_pending.induct)
  case (2 cap k ks m)
  show ?case
  proof (cases "cap < length (k # ks)")
    case True
    then have "evict_pending cap ks (m(k := tl (m k))) = (ks', m')"
      using "2.prems"(2) by (simp only: evict_pending.simps if_True)
    then show ?thesis by (rule "2.IH" [OF True pending_shrink [OF "2.prems"(1)]])
  qed (use "2.prems" in auto)
qed simp

lemma evict_resolved_sub:
  "evict_resolved cap ss m = (ss', m') \<Longrightarrow> (\<forall>s op. m' s = Some op \<longrightarrow> m s = Some op) \<and> length ss' \<le> cap"
proof (induction cap ss m rule: evict_resolved.induct)
  case (2 cap s ss m)
  show ?case
  proof (cases "cap < length (s # ss)")
    case True
    then have "evict_resolved cap ss (m(s := None)) = (ss', m')"
      using "2.prems" by (simp only: evict_resolved.simps if_True)
    from "2.IH" [OF True this] show ?thesis by (metis fun_upd_apply option.distinct(1))
  qed (use "2.prems" in auto)
qed simp

definition corr_ok :: "corr_world \<Rightarrow> bool" where
  "corr_ok w \<longleftrightarrow>
     pending_ok (cr_pending (co_registry w)) (set (co_recorded w) - snd ` set (co_stamped w)) \<and>
     (\<forall>s op. cr_resolved (co_registry w) s = Some op \<longrightarrow> (s, op) \<in> set (co_stamped w)) \<and>
     (\<forall>s t op. (s, op) \<in> set (co_stamped w) \<longrightarrow> (t, op) \<in> set (co_stamped w) \<longrightarrow> op \<in> set (co_recorded w) \<longrightarrow> s = t) \<and>
     (\<forall>k v. cr_windows (co_registry w) k = Some v \<longrightarrow> fst v \<in> set (co_windowed w)) \<and>
     (\<forall>op. op \<in> set (co_recorded w) \<longrightarrow> op \<notin> set (co_windowed w)) \<and>
     (\<forall>s op. (s, op) \<in> set (co_stamped w) \<longrightarrow> op \<in> set (co_recorded w) \<or> op \<in> set (co_windowed w)) \<and>
     1 \<le> cr_capacity (co_registry w) \<and>
     length (cr_order (co_registry w)) \<le> cr_capacity (co_registry w) \<and>
     length (cr_resolved_order (co_registry w)) \<le> cr_capacity (co_registry w)"

lemma memoize_facts:
  "cr_pending (memoize_resolved s op r) = cr_pending r" "cr_windows (memoize_resolved s op r) = cr_windows r"
  "cr_order (memoize_resolved s op r) = cr_order r" "cr_capacity (memoize_resolved s op r) = cr_capacity r"
  "length (cr_resolved_order (memoize_resolved s op r)) \<le> cr_capacity r"
  "cr_resolved (memoize_resolved s op r) t = Some x \<Longrightarrow> (t = s \<and> x = op) \<or> cr_resolved r t = Some x"
proof -
  obtain ss m where e: "evict_resolved (cr_capacity r) (cr_resolved_order r @ [s]) ((cr_resolved r)(s \<mapsto> op)) = (ss, m)"
    by (cases "evict_resolved (cr_capacity r) (cr_resolved_order r @ [s]) ((cr_resolved r)(s \<mapsto> op))") auto
  note f = evict_resolved_sub [OF e]
  show "cr_pending (memoize_resolved s op r) = cr_pending r" "cr_windows (memoize_resolved s op r) = cr_windows r"
    "cr_order (memoize_resolved s op r) = cr_order r" "cr_capacity (memoize_resolved s op r) = cr_capacity r"
    by (simp_all add: memoize_resolved_def e)
  show "length (cr_resolved_order (memoize_resolved s op r)) \<le> cr_capacity r"
    using f by (simp add: memoize_resolved_def e)
  show "cr_resolved (memoize_resolved s op r) t = Some x \<Longrightarrow> (t = s \<and> x = op) \<or> cr_resolved r t = Some x"
    using f by (auto simp: memoize_resolved_def e split: if_splits)
qed

lemma pending_add:
  "pending_ok m S \<Longrightarrow> op \<notin> S \<Longrightarrow> pending_ok (m(k := m k @ [op])) (insert op S)"
  unfolding pending_ok_def by (auto split: if_splits)

lemma corr_ok_stamp:
  assumes ok: "corr_ok w"
    and r: "cr_resolved r = cr_resolved (co_registry w)" "cr_windows r = cr_windows (co_registry w)"
      "cr_capacity r = cr_capacity (co_registry w)" "length (cr_order r) \<le> cr_capacity r"
    and p: "pending_ok (cr_pending r) (set (co_recorded w) - snd ` set ((seq, op) # co_stamped w))"
    and known: "op \<in> set (co_recorded w) \<or> op \<in> set (co_windowed w)"
    and fresh: "op \<in> set (co_recorded w) \<Longrightarrow> op \<notin> snd ` set (co_stamped w)"
  shows "corr_ok (w\<lparr>co_registry := memoize_resolved seq op r, co_stamped := (seq, op) # co_stamped w\<rparr>)" (is "corr_ok ?w")
  unfolding corr_ok_def
proof (intro conjI)
  show "pending_ok (cr_pending (co_registry ?w)) (set (co_recorded ?w) - snd ` set (co_stamped ?w))"
    using p by (simp add: memoize_facts)
  show "\<forall>s x. cr_resolved (co_registry ?w) s = Some x \<longrightarrow> (s, x) \<in> set (co_stamped ?w)"
  proof (intro allI impI)
    fix s x assume "cr_resolved (co_registry ?w) s = Some x"
    then have "(s = seq \<and> x = op) \<or> cr_resolved (co_registry w) s = Some x"
      using memoize_facts(6) [of seq op r s x] r(1) by simp
    then show "(s, x) \<in> set (co_stamped ?w)" using ok by (auto simp: corr_ok_def)
  qed
  have once: "s = t" if "(s, x) \<in> set (co_stamped w)" "(t, x) \<in> set (co_stamped w)" "x \<in> set (co_recorded w)" for s t x
    using ok that unfolding corr_ok_def by blast
  have out: "x \<noteq> op" if "(s, x) \<in> set (co_stamped w)" "x \<in> set (co_recorded w)" for s x
    using fresh that by force
  show "\<forall>s t x. (s, x) \<in> set (co_stamped ?w) \<longrightarrow> (t, x) \<in> set (co_stamped ?w) \<longrightarrow> x \<in> set (co_recorded ?w) \<longrightarrow> s = t"
    using once out by (simp, blast)
  have "x \<in> set (co_recorded w) \<or> x \<in> set (co_windowed w)" if "(t, x) \<in> set (co_stamped w)" for t x
    using ok that unfolding corr_ok_def by blast
  with known show "\<forall>s x. (s, x) \<in> set (co_stamped ?w) \<longrightarrow> x \<in> set (co_recorded ?w) \<or> x \<in> set (co_windowed ?w)"
    by auto
  show "length (cr_resolved_order (co_registry ?w)) \<le> cr_capacity (co_registry ?w)"
    using memoize_facts(5) [of seq op r] by (simp add: memoize_facts(4))
qed (use ok r in \<open>simp_all add: corr_ok_def memoize_facts\<close>)

lemma corr_ok_step:
  assumes ok: "corr_ok w" and s: "corr_step e w = Some w'"
  shows "corr_ok w'"
proof (cases e)
  case (RecordCorr key op)
  let ?r = "co_registry w"
  have fresh: "op \<notin> set (co_recorded w)" "op \<notin> set (co_windowed w)"
    and w': "w' = w\<lparr>co_registry := corr_record key op ?r, co_recorded := op # co_recorded w\<rparr>"
    using s RecordCorr by (auto split: if_splits)
  obtain ks m where e: "evict_pending (cr_capacity ?r) (cr_order ?r @ [key]) ((cr_pending ?r)(key := cr_pending ?r key @ [op])) = (ks, m)"
    by (cases "evict_pending (cr_capacity ?r) (cr_order ?r @ [key]) ((cr_pending ?r)(key := cr_pending ?r key @ [op]))") auto
  let ?S = "set (co_recorded w) - snd ` set (co_stamped w)"
  have "\<forall>t x. (t, x) \<in> set (co_stamped w) \<longrightarrow> x \<in> set (co_recorded w) \<or> x \<in> set (co_windowed w)"
    using ok unfolding corr_ok_def by (elim conjE)
  then have tagged: "x \<in> set (co_recorded w) \<or> x \<in> set (co_windowed w)" if "(t, x) \<in> set (co_stamped w)" for t x
    using that by blast
  have ns: "op \<notin> snd ` set (co_stamped w)"
  proof
    assume "op \<in> snd ` set (co_stamped w)"
    then obtain t where "(t, op) \<in> set (co_stamped w)" by auto
    then show False using tagged fresh by blast
  qed
  have "pending_ok (cr_pending ?r) ?S" using ok by (simp add: corr_ok_def)
  from evict_pending_ok [OF pending_add [OF this] e] fresh
  have m: "pending_ok m (insert op ?S)" "length ks \<le> cr_capacity ?r" by auto
  have eq: "insert op ?S = set (op # co_recorded w) - snd ` set (co_stamped w)" using ns by auto
  have st: "(t, op) \<notin> set (co_stamped w)" for t using ns by force
  have r: "cr_pending (corr_record key op ?r) = m" "cr_order (corr_record key op ?r) = ks"
    "cr_resolved (corr_record key op ?r) = cr_resolved ?r" "cr_windows (corr_record key op ?r) = cr_windows ?r"
    "cr_capacity (corr_record key op ?r) = cr_capacity ?r" "cr_resolved_order (corr_record key op ?r) = cr_resolved_order ?r"
    by (simp_all add: corr_record_def e)
  show ?thesis unfolding corr_ok_def
  proof (intro conjI)
    show "pending_ok (cr_pending (co_registry w')) (set (co_recorded w') - snd ` set (co_stamped w'))"
      using m(1) eq by (simp add: w' r)
    show "\<forall>s t x. (s, x) \<in> set (co_stamped w') \<longrightarrow> (t, x) \<in> set (co_stamped w') \<longrightarrow> x \<in> set (co_recorded w') \<longrightarrow> s = t"
    proof (intro allI impI)
      fix s t x
      assume a: "(s, x) \<in> set (co_stamped w')" "(t, x) \<in> set (co_stamped w')" "x \<in> set (co_recorded w')"
      then have "x \<noteq> op" using st by (auto simp: w')
      then show "s = t" using a ok unfolding corr_ok_def w' by simp
    qed
    show "\<forall>x. x \<in> set (co_recorded w') \<longrightarrow> x \<notin> set (co_windowed w')"
      using ok fresh(2) unfolding corr_ok_def w' by simp
    show "\<forall>s x. (s, x) \<in> set (co_stamped w') \<longrightarrow> x \<in> set (co_recorded w') \<or> x \<in> set (co_windowed w')"
      using ok unfolding corr_ok_def w' by auto
  qed (use ok m(2) r in \<open>simp_all add: corr_ok_def w'\<close>)
next
  case (RecordWindow key op from_seq)
  have fresh: "op \<notin> set (co_recorded w)"
    and w': "w' = w\<lparr>co_registry := corr_record_window key op from_seq (co_registry w), co_windowed := op # co_windowed w\<rparr>"
    using s RecordWindow by (auto split: if_splits)
  show ?thesis unfolding corr_ok_def
  proof (intro conjI)
    show "\<forall>k v. cr_windows (co_registry w') k = Some v \<longrightarrow> fst v \<in> set (co_windowed w')"
      using ok unfolding corr_ok_def w' by (simp add: corr_record_window_def)
    show "\<forall>x. x \<in> set (co_recorded w') \<longrightarrow> x \<notin> set (co_windowed w')"
      using ok fresh unfolding corr_ok_def w' by (simp, blast)
    have "x \<in> set (co_recorded w) \<or> x \<in> set (co_windowed w)" if "(t, x) \<in> set (co_stamped w)" for t x
      using ok that unfolding corr_ok_def by blast
    then show "\<forall>s x. (s, x) \<in> set (co_stamped w') \<longrightarrow> x \<in> set (co_recorded w') \<or> x \<in> set (co_windowed w')"
      unfolding w' by (simp, blast)
  qed (use ok in \<open>simp_all add: corr_ok_def corr_record_window_def w'\<close>)
next
  case (ResolveCorr key seq)
  let ?r = "co_registry w"
  show ?thesis
  proof (cases "cr_resolved ?r seq")
    case (Some op)
    then have "w' = w\<lparr>co_stamped := (seq, op) # co_stamped w\<rparr>" "(seq, op) \<in> set (co_stamped w)"
      using s ResolveCorr ok by (auto simp: corr_resolve_def corr_ok_def)
    moreover from this(2) have "set ((seq, op) # co_stamped w) = set (co_stamped w)" by auto
    ultimately show ?thesis using ok unfolding corr_ok_def by simp
  next
    case unresolved: None
    show ?thesis
    proof (cases "cr_windows ?r key")
      case (Some v)
      obtain op f where v: "v = (op, f)" by (cases v)
      show ?thesis
      proof (cases "seq \<le> f")
        case True
        then have "w' = w" using s ResolveCorr unresolved Some v by (simp add: corr_resolve_def)
        then show ?thesis using ok by simp
      next
        case False
        then have w': "w' = w\<lparr>co_registry := memoize_resolved seq op ?r, co_stamped := (seq, op) # co_stamped w\<rparr>"
          using s ResolveCorr unresolved Some v by (simp add: corr_resolve_def)
        have "op \<in> set (co_windowed w)" "op \<notin> set (co_recorded w)"
          using ok Some v unfolding corr_ok_def by (metis fst_conv)+
        moreover from this(2) have "set (co_recorded w) - snd ` set ((seq, op) # co_stamped w) = set (co_recorded w) - snd ` set (co_stamped w)" by auto
        moreover have "pending_ok (cr_pending ?r) (set (co_recorded w) - snd ` set (co_stamped w))"
          "length (cr_order ?r) \<le> cr_capacity ?r" using ok by (simp_all add: corr_ok_def)
        ultimately show ?thesis unfolding w' by (intro corr_ok_stamp [OF ok]) simp_all
      qed
    next
      case None
      show ?thesis
      proof (cases "cr_pending ?r key")
        case Nil
        then have "w' = w" using s ResolveCorr unresolved None by (simp add: corr_resolve_def)
        then show ?thesis using ok by simp
      next
        case (Cons op rest)
        let ?r1 = "?r\<lparr>cr_pending := (cr_pending ?r)(key := rest), cr_order := remove1 key (cr_order ?r)\<rparr>"
        have w': "w' = w\<lparr>co_registry := memoize_resolved seq op ?r1, co_stamped := (seq, op) # co_stamped w\<rparr>"
          using s ResolveCorr unresolved None Cons by (simp add: corr_resolve_def)
        let ?S = "set (co_recorded w) - snd ` set (co_stamped w)"
        have p: "pending_ok (cr_pending ?r) ?S" using ok by (simp add: corr_ok_def)
        note op = pending_take(1) [OF p Cons] and p1 = pending_take(2) [OF p Cons]
        have "?S - {op} = set (co_recorded w) - snd ` set ((seq, op) # co_stamped w)" by auto
        then have p2: "pending_ok (cr_pending ?r1) (set (co_recorded w) - snd ` set ((seq, op) # co_stamped w))"
          using p1 by simp
        have "length (cr_order ?r) \<le> cr_capacity ?r" using ok by (simp add: corr_ok_def)
        then have "length (cr_order ?r1) \<le> cr_capacity ?r1"
          using order_trans [OF diff_le_self] by (simp add: length_remove1)
        then show ?thesis unfolding w' using op by (intro corr_ok_stamp [OF ok _ _ _ _ p2]) simp_all
      qed
    qed
  qed
qed

interpretation corr: trace_invariant corr_step "\<lambda>n. corr_ok"
  by unfold_locales (rule corr_ok_step)

definition corr_world_new :: "nat \<Rightarrow> corr_world" where
  "corr_world_new capacity = \<lparr>co_registry = corr_registry_new capacity, co_recorded = [], co_windowed = [], co_stamped = []\<rparr>"

text \<open>C22: An operation names one outcome. Over every sequence of records (of operations not seen before),
  discovery windows and resolutions by any number of subscribers, an operation recorded for a command
  is stamped on at most one outcome event, however often subscribers project it, and the registry never
  keeps more than its capacity of pending or of resolved entries.\<close>

theorem operation_names_one_outcome:
  assumes "guarded_run corr_step es (corr_world_new capacity) = Some w"
    and "op \<in> set (co_recorded w)" and "(s, op) \<in> set (co_stamped w)" and "(t, op) \<in> set (co_stamped w)"
  shows "s = t \<and> length (cr_order (co_registry w)) \<le> max capacity 1 \<and> length (cr_resolved_order (co_registry w)) \<le> max capacity 1"
proof -
  have "corr_ok (corr_world_new capacity)"
    by (simp add: corr_ok_def corr_world_new_def corr_registry_new_def pending_ok_def)
  then have ok: "corr_ok w" by (rule corr.run_ok [OF assms(1)])
  have "cr_capacity (co_registry w) = max capacity 1"
  proof -
    have "cr_capacity (co_registry v') = cr_capacity (co_registry v)" if "corr_step e v = Some v'" for e v v'
      using that by (cases e) (auto simp: corr_record_def corr_record_window_def corr_resolve_def memoize_facts
        split: if_splits prod.splits option.splits list.splits)
    then have cap: "trace_invariant corr_step (\<lambda>n v. cr_capacity (co_registry v) = max capacity 1)"
      by unfold_locales simp
    show ?thesis by (rule trace_invariant.run_ok [OF cap assms(1)]) (simp add: corr_world_new_def corr_registry_new_def)
  qed
  then show ?thesis using ok assms(2-4) unfolding corr_ok_def by metis
qed

theorem operation_names_one_outcome_witness:
  "(5, [1]) \<in> set [(5::nat, [1::byte]), (5, [1])] \<and> (5::nat) = 5"
proof -
  let ?k = "OutputStateKey RunRunning"
  obtain w where w: "guarded_run corr_step [RecordCorr ?k [1], ResolveCorr ?k 5, ResolveCorr ?k 5] (corr_world_new 4) = Some w"
    "co_recorded w = [[1]]" "co_stamped w = [(5, [1]), (5, [1])]"
    by (simp add: corr_world_new_def corr_registry_new_def corr_record_def corr_resolve_def memoize_resolved_def)
  then show ?thesis using operation_names_one_outcome [OF w(1), of "[1]" 5 5] by simp
qed

end
