(* ===== verification/Spec2Isabelle.thy ===== *)
theory Spec2Isabelle
  imports
    Prelude Media_Time Failure_Ladder Packet_Liveness Latest_Slot Tile_Store
    Output_Clock Isolation Engine_Runtime Supervision Wallclock
    Pts_Normalizer Input_Pacer Reorder_Buffer Btree_Map Hitless
    Alarm_Types Dwell_Machines Alarm_Machine Penalty_Box
    High_Availability Replication Event_Order Tally Tile_Cycle
    Byte_Buffer Crc_Mpeg Psi_Section Psi_Tables Dvb_Time Rust_Text Tsl_Umd
    Licence_Ladder Canonical_Bytes Lease_Store Key_Trust
    Heartbeat_Wire Heartbeat_Client Heartbeat_Calls Retry_Units
    Ptp_Reference System_Reference Presentation_Epoch
    Stream_Identity Routing_Table Route_Apply Automation Video_Wall
    Traces Degradation Fanout Source_Registry Access_Control Control_Store Command_Bus
begin

text \<open>
  A verification development for Multiview, a live video multiviewer written in Rust: many inputs
  are decoded, held in per-tile stores, composed once per tick of one output clock and published.
  Its first promise is that the output never falters: one frame per tick, strictly increasing
  stamps, whatever the inputs and the consumers do. The development models the crates that carry
  that promise, \<open>multiview-core\<close>, \<open>multiview-framestore\<close>, \<open>multiview-engine\<close> and
  \<open>multiview-input\<close>, the alarm lifecycle built on the same media timeline, the redundancy and
  tally logic around the engine, and the wire formats whose parsers face untrusted input.

  \<^bold>\<open>How the parts interact.\<close> An input thread unwraps and normalises its stamps
  (\<open>Pts_Normalizer\<close>), paces them against the wall clock (\<open>Input_Pacer\<close>), reorders them
  (\<open>Reorder_Buffer\<close>), or merges two redundant RTP paths (\<open>Hitless\<close>), and publishes frames into
  its tile store (\<open>Tile_Store\<close> over \<open>Latest_Slot\<close>). A watchdog (\<open>Packet_Liveness\<close>) decides when
  a dead input is spliced to slate; a supervisor restarts it with back-off (\<open>Supervision\<close>). The
  engine loop (\<open>Engine_Runtime\<close>) asks the output clock (\<open>Output_Clock\<close>, on \<open>Media_Time\<close>) for the
  next deadline, waits, reads every tile at the tick's instant, composes and publishes through the
  isolation layer (\<open>Isolation\<close>). Probe readings drive X.733 alarms (\<open>Alarm_Machine\<close>), rolled up
  for display (\<open>Alarm_Types\<close>); a sustained alarm edits the wall (\<open>Penalty_Box\<close>). A second machine
  follows the first (\<open>Replication\<close>) and takes over when its heartbeats stop
  (\<open>High_Availability\<close>); clients follow both through numbered events (\<open>Event_Order\<close>). Tally facts,
  decoded from the TSL protocol (\<open>Tsl_Umd\<close>), are arbitrated per tile (\<open>Tally\<close>), tiles cycle and
  freeze on the same timeline (\<open>Tile_Cycle\<close>). The MPEG-TS tables that say what an input carries are
  read by \<open>Psi_Section\<close> and \<open>Psi_Tables\<close>, its clock by \<open>Dvb_Time\<close>. A licence never stops the output: a
  dated lease, believed only along a chain from a pinned root (\<open>Key_Trust\<close> over \<open>Canonical_Bytes\<close>), enters
  one store (\<open>Lease_Store\<close>), is renewed by a client that never mixes its retries (\<open>Heartbeat_Client\<close>,
  \<open>Retry_Units\<close>), and drives an enforcement ladder (\<open>Licence_Ladder\<close>).

  The published timeline is anchored to real time: a PTP servo earns its lock (\<open>Ptp_Reference\<close>), is
  weighed against the kernel's own discipline (\<open>System_Reference\<close>), and the chosen wall estimate moves
  the epoch smoothly (\<open>Presentation_Epoch\<close>, on \<open>Wallclock\<close>). What is shown where is a routing table: streams
  are named stably (\<open>Stream_Identity\<close>), crosspoints are validated against the document
  (\<open>Routing_Table\<close>) and applied in coalesced batches (\<open>Route_Apply\<close>); operators and rules fire presets
  (\<open>Automation\<close>); several heads form one wall (\<open>Video_Wall\<close>).

  A source is decoded once for all its tiles and torn down off the hot path (\<open>Source_Registry\<close>); a
  rendition is encoded once for all its consumers, which move between renditions while packets flow
  (\<open>Fanout\<close>); under pressure previews go first and the program last (\<open>Degradation\<close>). The control plane
  authenticates a request and keeps live sessions within what their key may see (\<open>Access_Control\<close>),
  guards its documents by versions (\<open>Control_Store\<close>), and hands commands to the engine over a bounded bus,
  at most once per idempotency key, naming each outcome (\<open>Command_Bus\<close>).

  \<^bold>\<open>Theories.\<close>
  \<^item> \<open>Prelude\<close>: saturating, wrapping and checked machine integers over \<open>int\<close> and \<open>nat\<close>, Rust's
    truncating division, three-way comparison.
  \<^item> \<open>Media_Time\<close> (\<open>core/src/time.rs\<close>): rationals and their reduction, product and order, \<open>rescale\<close>
    with its saturating 128-bit intermediates, tick to nanosecond conversion. The lemmas reduce all
    of it to exact rounding (\<open>rha\<close>) and to the rational numbers.
  \<^item> \<open>Failure_Ladder\<close> (\<open>core/src/traits.rs\<close>, \<open>framestore/src/state.rs\<close>): the ladder from live to no
    signal and its thresholds; the locale \<open>failure_ladder\<close> states what a client may rely on.
  \<^item> \<open>Packet_Liveness\<close> (\<open>framestore/src/liveness.rs\<close>): the packet watchdog and its splice decision,
    including a reader that sees the two stamps of different instants.
  \<^item> \<open>Latest_Slot\<close> (\<open>framestore/src/latest.rs\<close>), with the locale \<open>seq_publisher\<close> for numbered
    publishing, interpreted again by \<open>Tile_Store\<close> and \<open>Isolation\<close>.
  \<^item> \<open>Tile_Store\<close> (\<open>framestore/src/tile.rs\<close>): publish, ring, watermark pruning, latch and the timed
    reads; the concurrent system of publishers and readers (\<open>tile_step\<close>) refines an unpruned log.
  \<^item> \<open>Output_Clock\<close> (\<open>engine/src/clock.rs\<close>), with the locale \<open>tick_timeline\<close>.
  \<^item> \<open>Isolation\<close> (\<open>engine/src/isolation.rs\<close>): state slot, numbered event stream, publisher.
  \<^item> \<open>Engine_Runtime\<close> (\<open>engine/src/runtime.rs\<close>): the loop as a step function over a phase; each step
    consumes one observation of the environment (time, stop flag, compositor result). The locale
    \<open>pacer\<close> is the contract of the two pacers.
  \<^item> \<open>Supervision\<close> (\<open>engine/src/supervisor.rs\<close>, \<open>input/src/reconnect.rs\<close>), locale \<open>capped_backoff\<close>.
  \<^item> \<open>Wallclock\<close> (\<open>core/src/wallclock.rs\<close>): trust tiers and the media to wall-clock map.
  \<^item> \<open>Pts_Normalizer\<close>, \<open>Input_Pacer\<close>, \<open>Reorder_Buffer\<close>, \<open>Hitless\<close> (\<open>input/src/normalize.rs\<close>,
    \<open>pacer.rs\<close>, \<open>jitter.rs\<close>, \<open>st2022_7.rs\<close>). The standard library's heap and ordered map are the
    locales \<open>min_heap\<close> and \<open>ordered_map\<close> (\<open>Btree_Map\<close>), interpreted on the lists the models run on.
  \<^item> \<open>Alarm_Types\<close> (\<open>core/src/alarm.rs\<close>, \<open>engine/src/alarm/rollup.rs\<close>).
  \<^item> \<open>Dwell_Machines\<close>: the abstract debounced machine and the locale \<open>dwell_machine\<close> of its
    refinements; \<open>Alarm_Machine\<close> (\<open>engine/src/alarm/state.rs\<close>, \<open>config/src/probe.rs\<close>) and
    \<open>Penalty_Box\<close> (\<open>engine/src/alarm/penalty_box.rs\<close>) interpret it.
  \<^item> \<open>High_Availability\<close> (\<open>engine/src/ha/mod.rs\<close>, \<open>transport.rs\<close>): heartbeats, peer health, the role
    machine and the cluster election; a system of machines exchanging beats in any order.
  \<^item> \<open>Replication\<close> (\<open>engine/src/ha/repl.rs\<close>): versioned snapshots and deltas, and the applier, which
    refines the history of the active.
  \<^item> \<open>Event_Order\<close> (\<open>events/src\<close>: \<open>seq.rs\<close>, \<open>ordering.rs\<close>, \<open>topic.rs\<close>, \<open>envelope.rs\<close>): issue of
    sequence numbers and the client's cursor with its gap accounting.
  \<^item> \<open>Tally\<close> (\<open>core/src/tally.rs\<close>, \<open>engine/src/tally/profile.rs\<close>, \<open>arbiter.rs\<close>): bus bits to states,
    the per-tile arbiter and its hold latch, equal to a function of the history.
  \<^item> \<open>Tile_Cycle\<close> (\<open>engine/src/cycle.rs\<close>): the round robin's catch-up and the freeze of a tile.
  \<^item> \<open>Byte_Buffer\<close>: slices, big-endian fields, the \<open>?\<close> operator, and the locale \<open>wire_entry\<close>: what an
    entry parser promises, and that a loop over entries then reads back what was written.
  \<^item> \<open>Crc_Mpeg\<close>, \<open>Psi_Section\<close>, \<open>Psi_Tables\<close>, \<open>Dvb_Time\<close> (\<open>input/src/mpegts\<close>: \<open>crc.rs\<close>, \<open>section.rs\<close>,
    then \<open>descriptor.rs\<close>, \<open>pat.rs\<close>, \<open>pmt.rs\<close>, \<open>cat.rs\<close>, \<open>nit.rs\<close>, \<open>sdt.rs\<close>, \<open>selection.rs\<close>, and
    \<open>tdt.rs\<close>, \<open>tot.rs\<close>): the table-driven CRC equals bit-serial division; sections and tables are
    accepted exactly when well formed and round-trip; the selected program's PIDs.
  \<^item> \<open>Rust_Text\<close>: strings as scalar values, UTF-16 with lossy decoding. \<open>Tsl_Umd\<close>
    (\<open>input/src/tsl\<close>, \<open>output/src/tsl\<close>): the three TSL versions, each encoder against its decoder.
  \<^item> \<open>Licence_Ladder\<close> (\<open>licence/src\<close>: \<open>constants.rs\<close>, \<open>entitlement.rs\<close>, \<open>lease.rs\<close>, \<open>ladder.rs\<close>, \<open>status.rs\<close>,
    \<open>fingerprint.rs\<close>): leases, the ladder in real time, the drift budget of a machine.
  \<^item> \<open>Canonical_Bytes\<close> (\<open>verify.rs\<close>, \<open>heartbeat.rs\<close>): length-prefixed fields and canonical CBOR; the locale
    \<open>prefix_code\<close> says that an encoding can be cut in one place only.
  \<^item> \<open>Lease_Store\<close> (\<open>verify.rs\<close>, \<open>store.rs\<close>, \<open>watcher.rs\<close>): what a signature binds, the newest verified
    lease, polling a directory. \<open>Key_Trust\<close> (\<open>heartbeat.rs\<close>): the signed pre-images, the attested keys and
    the lease chain, with the cryptographic packages as a record of parameters.
  \<^item> \<open>Heartbeat_Wire\<close>, \<open>Heartbeat_Client\<close> (\<open>heartbeat.rs\<close>): the client's messages and proofs; its calls, each
    a step up to the POST and a step from the reply. \<open>Heartbeat_Calls\<close>: the same calls cut at every await.
    \<open>Retry_Units\<close>: runs of any number of calls under way, interleaved at their awaits, with restarts, in
    which keys, bodies and proofs stay together as long as calls of one verb do not overlap (and what
    happens when they do), and a lease is installed exactly when it is verified and not older.
    The locale \<open>verb_slots\<close> is the contract of the per-verb slots.
  \<^item> \<open>Ptp_Reference\<close> (\<open>engine/src/ptp.rs\<close>): servo, lock tracker, sampler; convergence, the history
    that earns a lock and loses it. \<open>System_Reference\<close> (\<open>sysref.rs\<close>), \<open>Presentation_Epoch\<close> (\<open>epoch.rs\<close>): arbitration,
    slewing, and the guard that keeps the epoch near the host clock.
  \<^item> \<open>Stream_Identity\<close> (\<open>core/src/stream.rs\<close>), \<open>Routing_Table\<close> (\<open>config/src/routing.rs\<close>, \<open>audio.rs\<close>, \<open>lib.rs\<close>,
    \<open>schema.rs\<close>), \<open>Route_Apply\<close> (\<open>engine/src/route.rs\<close>, \<open>drive.rs\<close>, \<open>overlay/src/subtitle_route.rs\<close>). The locale
    \<open>seen_loop\<close> is the contract of every loop that rejects duplicates, \<open>crosspoints\<close> that of a store of
    destinations whose re-points commute.
  \<^item> \<open>Automation\<close> (\<open>salvo.rs\<close>, \<open>scheduler.rs\<close>), \<open>Video_Wall\<close> (\<open>core/src/layout.rs\<close>, \<open>engine/src/heads.rs\<close>).
  \<^item> \<open>Traces\<close>: runs of guarded events, and the locale \<open>trace_invariant\<close> that every interleaving below
    interprets. \<open>Degradation\<close> (\<open>hal/src/degradation.rs\<close>, \<open>engine/src/degrade.rs\<close>), \<open>Fanout\<close>
    (\<open>output/src/fanout.rs\<close>, \<open>engine/src/migration.rs\<close>), \<open>Source_Registry\<close> (\<open>engine/src/registry.rs\<close>).
  \<^item> \<open>Access_Control\<close> (\<open>control/src/auth.rs\<close>, \<open>error.rs\<close>, \<open>realtime.rs\<close>, \<open>config/src/api.rs\<close>): roles, scopes, keys,
    tickets and live re-authorisation interleaved with key changes. \<open>Control_Store\<close> (\<open>concurrency.rs\<close>,
    \<open>resource_store.rs\<close>, \<open>alarm_store.rs\<close>, \<open>routes/\<close>): documents and alarms under preconditions.
    \<open>Command_Bus\<close> (\<open>command.rs\<close>, \<open>concurrency.rs\<close>, \<open>routes/mod.rs\<close>, \<open>realtime.rs\<close>): submission and correlation.

  \<^bold>\<open>Conventions.\<close> A signed machine integer is an \<open>int\<close> with saturation or wrap-around written out at
  its width; an unsigned counter is a \<open>nat\<close> with the code's saturation or \<open>mod 2 ^ 64\<close>; sequence
  numbers that wrap are words. Atomics and swapped pointers are fields of a state, each atomic
  operation one step. A loop that need not end is a \<open>partial_function\<close> (\<open>supervise\<close>) or one step of
  a run (\<open>engine_step\<close>); returning is then a theorem (\<open>supervise_returns\<close>, \<open>engine_progress\<close>).

  \<^bold>\<open>Bounds.\<close> Timeline theorems hold up to a horizon: the tick indices whose exact instant fits a
  signed 64-bit nanosecond count (292 years), and cadences up to 1 GHz, which is what the clock's
  constructor accepts. Within it no saturation happens, so every deadline is the exact rational
  instant rounded to the nearest nanosecond.

  \<^bold>\<open>Not modelled.\<close> Pixel work, codecs, sockets and vendor libraries; floating-point signal processing;
  the tokio channel behind event subscriptions; the routers of the HTTP control plane, its SQLite store
  and its device drivers. The compositor's result is
  an environment of the loop. \<open>release_deadline_catchup\<close> takes its floating-point rate as a rational.
  In the MPEG-TS parsers, the typed descriptors whose fields are lossy UTF-8 strings, service names
  and the JSON inventory.
  Left for later: the remaining stream parsers (SCTE-35, SCTE-104, SAP, ST 2110), TURN message coding,
  placement, playlist and RTCP arithmetic, and the mesh's peer table.
\<close>

end
